(* ===== verification/Prelude.thy ===== *)
theory Prelude
  imports Main "HOL-Library.Word" "HOL-Library.Code_Target_Nat"
begin

unbundle bit_operations_syntax

text \<open>
  Shared vocabulary of the development.

  \<^item> \<open>result\<close>: what a Rust call may do: return \<open>Ok v\<close>, return \<open>Err e\<close>, or panic (an index or a
    slice out of range, a division by zero, \<open>unreachable!\<close>, \<open>expect\<close>).  \<open>and_then\<close> is the
    sequencing that \<open>?\<close> and a panic give.
  \<^item> Machine integers are \<open>nat\<close> with the width written out: \<open>u64_add\<close>, \<open>u64_sub\<close>, \<open>u64_mul\<close> are
    the release profile's wrapping operators (the workspace's \<open>[profile.release]\<close> does not turn
    overflow checks on) and \<open>checked_add\<close>, \<open>checked_mul\<close>, \<open>checked_sub\<close>, \<open>div_ceil\<close> are the
    methods of that name.  \<open>usize\<close> is 64 bits wide.
  \<^item> Byte strings are lists of \<open>8 word\<close>; \<open>from_le_bytes\<close>, \<open>from_be_bytes\<close>, \<open>to_le_bytes\<close> and
    \<open>to_be_bytes\<close> are the conversions of the standard library.
  \<^item> \<open>slice xs i j\<close> is the expression \<open>xs[i..j]\<close>, which panics out of range.
\<close>

named_theorems rust_simps \<open>unfoldings of the Rust vocabulary\<close>
named_theorems wf_intros \<open>introduction rules for well-formedness invariants\<close>

subsection \<open>Results and panics\<close>

datatype ('a, 'e) result = Ok 'a | Err 'e | Panic

fun and_then :: "('a, 'e) result \<Rightarrow> ('a \<Rightarrow> ('b, 'e) result) \<Rightarrow> ('b, 'e) result" where
  "and_then (Ok x) f = f x"
| "and_then (Err e) f = Err e"
| "and_then Panic f = Panic"

fun map_err :: "('e \<Rightarrow> 'f) \<Rightarrow> ('a, 'e) result \<Rightarrow> ('a, 'f) result" where
  "map_err f (Ok x) = Ok x"
| "map_err f (Err e) = Err (f e)"
| "map_err f Panic = Panic"

fun ok_or :: "'e \<Rightarrow> 'a option \<Rightarrow> ('a, 'e) result" where
  "ok_or e None = Err e"
| "ok_or e (Some x) = Ok x"

fun is_ok :: "('a, 'e) result \<Rightarrow> bool" where
  "is_ok (Ok x) = True"
| "is_ok (Err e) = False"
| "is_ok Panic = False"

lemma and_then_Ok_iff:
  "and_then r f = Ok y \<longleftrightarrow> (\<exists>x. r = Ok x \<and> f x = Ok y)"
  by (cases r) auto

lemma and_then_Err_iff:
  "and_then r f = Err e \<longleftrightarrow> r = Err e \<or> (\<exists>x. r = Ok x \<and> f x = Err e)"
  by (cases r) auto

lemma and_then_Panic_iff:
  "and_then r f = Panic \<longleftrightarrow> r = Panic \<or> (\<exists>x. r = Ok x \<and> f x = Panic)"
  by (cases r) auto

lemma map_err_Ok_iff [simp]: "map_err f r = Ok x \<longleftrightarrow> r = Ok x"
  by (cases r) auto

lemma map_err_Panic_iff [simp]: "map_err f r = Panic \<longleftrightarrow> r = Panic"
  by (cases r) auto

lemma map_err_Err_iff: "map_err f r = Err e \<longleftrightarrow> (\<exists>e'. r = Err e' \<and> e = f e')"
  by (cases r) auto

lemma ok_or_Ok_iff [simp]: "ok_or e r = Ok x \<longleftrightarrow> r = Some x"
  by (cases r) auto

lemma ok_or_Panic [simp]: "ok_or e r \<noteq> Panic"
  by (cases r) auto

lemma ok_or_Err_iff [simp]: "ok_or e r = Err e' \<longleftrightarrow> r = None \<and> e' = e"
  by (cases r) auto

lemma and_then_assoc:
  "and_then (and_then r f) g = and_then r (\<lambda>x. and_then (f x) g)"
  by (cases r) auto

lemma and_then_cong [fundef_cong]:
  "r = r' \<Longrightarrow> (\<And>x. r' = Ok x \<Longrightarrow> f x = f' x) \<Longrightarrow> and_then r f = and_then r' f'"
  by (cases r) auto

lemma is_ok_iff: "is_ok r \<longleftrightarrow> (\<exists>x. r = Ok x)"
  by (cases r) auto

lemmas result_iffs = and_then_Ok_iff and_then_Err_iff and_then_Panic_iff

lemma option_eqI: "(\<And>v. a = Some v \<longleftrightarrow> b = Some v) \<Longrightarrow> a = b"
  by (cases a; cases b) auto

subsection \<open>Machine integers of 64 bits\<close>

definition u64_lim :: nat where
  "u64_lim = 18446744073709551616"

lemma u64_lim_eq: "u64_lim = 2 ^ 64"
  by (simp add: u64_lim_def)

definition u64_add :: "nat \<Rightarrow> nat \<Rightarrow> nat" where
  "u64_add a b = (a + b) mod u64_lim"

definition u64_mul :: "nat \<Rightarrow> nat \<Rightarrow> nat" where
  "u64_mul a b = (a * b) mod u64_lim"

definition u64_sub :: "nat \<Rightarrow> nat \<Rightarrow> nat" where
  "u64_sub a b = (if b \<le> a then a - b else (a + u64_lim) - b)"

definition checked_add :: "nat \<Rightarrow> nat \<Rightarrow> nat option" where
  "checked_add a b = (if a + b < u64_lim then Some (a + b) else None)"

definition checked_mul :: "nat \<Rightarrow> nat \<Rightarrow> nat option" where
  "checked_mul a b = (if a * b < u64_lim then Some (a * b) else None)"

definition checked_sub :: "nat \<Rightarrow> nat \<Rightarrow> nat option" where
  "checked_sub a b = (if b \<le> a then Some (a - b) else None)"

definition saturating_add :: "nat \<Rightarrow> nat \<Rightarrow> nat" where
  "saturating_add a b = min (a + b) (u64_lim - 1)"

definition saturating_mul :: "nat \<Rightarrow> nat \<Rightarrow> nat" where
  "saturating_mul a b = min (a * b) (u64_lim - 1)"

definition div_ceil :: "nat \<Rightarrow> nat \<Rightarrow> (nat, 'e) result" where
  "div_ceil a b =
     (if b = 0 then Panic else Ok (a div b + (if a mod b = 0 then 0 else 1)))"

lemmas u64_defs = u64_add_def u64_mul_def u64_sub_def checked_add_def checked_mul_def
  checked_sub_def saturating_add_def saturating_mul_def

lemma u64_add_exact [simp]: "a + b < u64_lim \<Longrightarrow> u64_add a b = a + b"
  by (simp add: u64_add_def)

lemma u64_mul_exact [simp]: "a * b < u64_lim \<Longrightarrow> u64_mul a b = a * b"
  by (simp add: u64_mul_def)

lemma u64_sub_exact [simp]: "b \<le> a \<Longrightarrow> u64_sub a b = a - b"
  by (simp add: u64_sub_def)

lemma checked_add_Some_iff [simp]:
  "checked_add a b = Some c \<longleftrightarrow> c = a + b \<and> a + b < u64_lim"
  by (auto simp: checked_add_def)

lemma checked_mul_Some_iff [simp]:
  "checked_mul a b = Some c \<longleftrightarrow> c = a * b \<and> a * b < u64_lim"
  by (auto simp: checked_mul_def)

lemma checked_sub_Some_iff [simp]:
  "checked_sub a b = Some c \<longleftrightarrow> c = a - b \<and> b \<le> a"
  by (auto simp: checked_sub_def)

lemma div_ceil_pos:
  "0 < b \<Longrightarrow> div_ceil a b = Ok (a div b + (if a mod b = 0 then 0 else 1))"
  by (simp add: div_ceil_def)

lemma div_ceil_bounds:
  assumes "div_ceil a b = Ok q"
  shows "a \<le> q * b" and "k < q \<Longrightarrow> k * b < a"
proof -
  from assms have b: "0 < b" and q: "q = a div b + (if a mod b = 0 then 0 else 1)"
    by (auto simp: div_ceil_def split: if_splits)
  have dm: "a = a div b * b + a mod b" by simp
  have "a mod b < b" using b by simp
  show "a \<le> q * b"
  proof (cases "a mod b = 0")
    case True
    then show ?thesis using dm q by simp
  next
    case False
    then have "q * b = a div b * b + b" by (simp add: q)
    then show ?thesis using dm \<open>a mod b < b\<close> by linarith
  qed
  assume "k < q"
  show "k * b < a"
  proof (cases "a mod b = 0")
    case True
    then have "k < a div b" using q \<open>k < q\<close> by simp
    then have "k * b < a div b * b" using b by simp
    then show ?thesis using dm by linarith
  next
    case False
    then have "k \<le> a div b" using q \<open>k < q\<close> by simp
    then have "k * b \<le> a div b * b" by simp
    then show ?thesis using dm False by linarith
  qed
qed

subsection \<open>Bytes\<close>

type_synonym u8 = "8 word"
type_synonym bytes = "u8 list"

primrec from_le_bytes :: "bytes \<Rightarrow> nat" where
  "from_le_bytes [] = 0"
| "from_le_bytes (b # bs) = unat b + 256 * from_le_bytes bs"

definition from_be_bytes :: "bytes \<Rightarrow> nat" where
  "from_be_bytes bs = from_le_bytes (rev bs)"

primrec to_le_bytes :: "nat \<Rightarrow> nat \<Rightarrow> bytes" where
  "to_le_bytes 0 n = []"
| "to_le_bytes (Suc k) n = of_nat (n mod 256) # to_le_bytes k (n div 256)"

definition to_be_bytes :: "nat \<Rightarrow> nat \<Rightarrow> bytes" where
  "to_be_bytes k n = rev (to_le_bytes k n)"

lemma length_to_le_bytes [simp]: "length (to_le_bytes k n) = k"
  by (induction k arbitrary: n) auto

lemma length_to_be_bytes [simp]: "length (to_be_bytes k n) = k"
  by (simp add: to_be_bytes_def)

lemma unat_u8_less [simp]: "unat (b :: u8) < 256"
  using unsigned_less [of b, where ?'a = nat] by simp

lemma from_le_bytes_less: "from_le_bytes bs < 256 ^ length bs"
proof (induction bs)
  case Nil
  then show ?case by simp
next
  case (Cons b bs)
  have "unat b < 256" by simp
  moreover have "from_le_bytes bs + 1 \<le> 256 ^ length bs" using Cons by simp
  ultimately have "unat b + 256 * from_le_bytes bs < 256 * 256 ^ length bs" by linarith
  then show ?case by simp
qed

lemma from_le_to_le_bytes: "from_le_bytes (to_le_bytes k n) = n mod 256 ^ k"
proof (induction k arbitrary: n)
  case 0
  then show ?case by simp
next
  case (Suc k)
  have "unat (of_nat (n mod 256) :: u8) = n mod 256"
    by (simp add: unat_of_nat)
  then show ?case by (simp add: Suc mod_mult2_eq)
qed

lemma to_le_from_le_bytes: "to_le_bytes (length bs) (from_le_bytes bs) = bs"
proof (induction bs)
  case Nil
  then show ?case by simp
next
  case (Cons b bs)
  have "(unat b + 256 * from_le_bytes bs) mod 256 = unat b" by simp
  moreover have "(unat b + 256 * from_le_bytes bs) div 256 = from_le_bytes bs"
    by (simp add: div_add1_eq)
  ultimately show ?case by (simp add: Cons)
qed

lemma from_be_to_be_bytes: "from_be_bytes (to_be_bytes k n) = n mod 256 ^ k"
  by (simp add: from_be_bytes_def to_be_bytes_def from_le_to_le_bytes)

lemma from_be_bytes_less: "from_be_bytes bs < 256 ^ length bs"
  using from_le_bytes_less [of "rev bs"] by (simp add: from_be_bytes_def)

subsection \<open>Slices\<close>

definition slice :: "'a list \<Rightarrow> nat \<Rightarrow> nat \<Rightarrow> ('a list, 'e) result" where
  "slice xs i j = (if i \<le> j \<and> j \<le> length xs then Ok (take (j - i) (drop i xs)) else Panic)"

definition index :: "'a list \<Rightarrow> nat \<Rightarrow> ('a, 'e) result" where
  "index xs i = (if i < length xs then Ok (xs ! i) else Panic)"

definition sub_list :: "'a list \<Rightarrow> nat \<Rightarrow> nat \<Rightarrow> 'a list" where
  "sub_list xs off n = take n (drop off xs)"

lemma slice_Ok_iff [simp]:
  "slice xs i j = Ok ys \<longleftrightarrow> i \<le> j \<and> j \<le> length xs \<and> ys = take (j - i) (drop i xs)"
  by (auto simp: slice_def)

lemma slice_Panic_iff [simp]: "slice xs i j = Panic \<longleftrightarrow> \<not> (i \<le> j \<and> j \<le> length xs)"
  by (auto simp: slice_def)

lemma slice_Err [simp]: "slice xs i j \<noteq> Err e"
  by (auto simp: slice_def)

lemma index_Ok_iff [simp]: "index xs i = Ok x \<longleftrightarrow> i < length xs \<and> x = xs ! i"
  by (auto simp: index_def)

lemma index_Panic_iff [simp]: "index xs i = Panic \<longleftrightarrow> length xs \<le> i"
  by (auto simp: index_def)

lemma length_sub_list [simp]: "off + n \<le> length xs \<Longrightarrow> length (sub_list xs off n) = n"
  by (simp add: sub_list_def)

lemma nth_sub_list: "i < n \<Longrightarrow> off + n \<le> length xs \<Longrightarrow> sub_list xs off n ! i = xs ! (off + i)"
  by (simp add: sub_list_def)

lemma sub_list_append:
  "sub_list xs off m @ sub_list xs (off + m) n = sub_list xs off (m + n)"
  by (simp add: sub_list_def take_add add.commute)

lemma sub_list_0 [simp]: "sub_list xs off 0 = []"
  by (simp add: sub_list_def)

lemma sub_list_all [simp]: "sub_list xs 0 (length xs) = xs"
  by (simp add: sub_list_def)

lemma set_map_filter: "x \<in> set (List.map_filter f xs) \<longleftrightarrow> (\<exists>k \<in> set xs. f k = Some x)"
  by (induction xs) (auto simp: List.map_filter_def)

subsection \<open>Binary search\<close>

text \<open>\<open>slice::binary_search\<close> on a sorted slice: the index of the key, or where it would go.\<close>

datatype search = Found nat | Insert nat

definition binary_search :: "nat list \<Rightarrow> nat \<Rightarrow> search" where
  "binary_search keys k =
     (let i = length (takeWhile (\<lambda>x. x < k) keys) in
      if i < length keys \<and> keys ! i = k then Found i else Insert i)"

lemma binary_search_at:
  assumes "i < length keys" "\<And>j. j < i \<Longrightarrow> keys ! j < k" "keys ! i \<le> k"
    "Suc i < length keys \<Longrightarrow> k < keys ! Suc i"
  shows "binary_search keys k = (if keys ! i = k then Found i else Insert (Suc i))"
proof -
  let ?n = "if keys ! i = k then i else Suc i"
  have "takeWhile (\<lambda>x. x < k) keys = take ?n keys"
  proof (rule takeWhile_eq_take_P_nth)
    fix j assume "j < ?n" "j < length keys"
    then show "keys ! j < k"
      using assms(2) [of j] assms(3) by (cases "j = i") (auto simp: less_Suc_eq split: if_splits)
  next
    assume "?n < length keys"
    then show "\<not> keys ! ?n < k" using assms(4) by (auto split: if_splits)
  qed
  then have "length (takeWhile (\<lambda>x. x < k) keys) = ?n" using assms(1) by simp
  then show ?thesis using assms(1,4) by (auto simp: binary_search_def Let_def)
qed

end
