(* ===== verification/ImageSource.thy ===== *)
theory ImageSource
  imports Prelude
begin

text \<open>
  The shared input layer, \<open>imagesource/src\<close>: the trait \<open>BytesSource\<close>, the table of registered sources
  (\<open>source_slot.rs\<close>), the trait \<open>Cache\<close> (\<open>cache.rs\<close>) and the file-like cursor \<open>CacheReadSeek\<close>
  (\<open>cachereadseek.rs\<close>) that every header and table parser reads through.

  An \<open>io::Error\<close> is modelled by its kind; message texts are left out.  A trait object is a record of
  what its methods answer: \<open>src_read s beg end\<close>, \<open>cache_read c idx off len\<close> (the bytes a buffer of
  length \<open>len\<close> is filled with).  \<open>Read::read_exact\<close> is the standard library's default method.
  The crate \<open>byteorder\<close> is a parameter (\<open>byteorder\<close>), with what it documents as \<open>byteorder_ok\<close>.

  Shown: a cursor never leaves its source, and over a cache that serves a byte string
  (\<open>serves\<close>) it reads exactly the bytes at its position or fails with \<open>UnexpectedEof\<close>.
\<close>

datatype io_error =
    NotFound | PermissionDenied | NotADirectory | InvalidInput | InvalidData | UnexpectedEof | Other

text \<open>\<open>errors.rs\<close>: an error with the path it is about.\<close>

datatype init_error = TokioRuntimeFailed io_error | CacheSetupFailed io_error

datatype source_error_kind =
    SrcIoError io_error | SrcInitializationFailed init_error | SrcBadPath string
  | SrcUnsupportedScheme string

type_synonym source_open_error = "string \<times> source_error_kind"

subsection \<open>Sources and their slots\<close>

record bytes_source =
  src_read :: "nat \<Rightarrow> nat \<Rightarrow> (bytes, io_error) result"
  src_end :: nat

type_synonym source_slots = "bytes_source option list"

definition unregistered :: io_error where
  "unregistered = InvalidData"

definition slots_get :: "source_slots \<Rightarrow> nat \<Rightarrow> (bytes_source, io_error) result" where
  "slots_get slots idx =
     (if idx < length slots then ok_or unregistered (slots ! idx) else Err unregistered)"

definition slots_set :: "source_slots \<Rightarrow> nat \<Rightarrow> bytes_source \<Rightarrow> source_slots" where
  "slots_set slots idx src =
     (let slots = (if length slots \<le> idx
                   then slots @ replicate (idx + 1 - length slots) None else slots)
      in slots[idx := Some src])"

lemma slots_get_set:
  "slots_get (slots_set slots i src) j = (if j = i then Ok src else slots_get slots j)"
  by (auto simp: slots_get_def slots_set_def Let_def nth_append nth_list_update)

subsection \<open>The cache trait and its cursor\<close>

record cache =
  cache_read :: "nat \<Rightarrow> nat \<Rightarrow> nat \<Rightarrow> (bytes, io_error) result"
  cache_end :: "nat \<Rightarrow> (nat, io_error) result"

text \<open>How the block cache is set up (\<open>cachemode.rs\<close>); the flag that switches a dual cache to its regular phase is
  shared with a signal handler and not part of the value.\<close>

datatype cache_mode = SingleMemory | DualHybrid nat nat nat

record cache_config =
  cc_mode :: cache_mode
  cc_block_size :: nat
  cc_fetch_size :: nat
  cc_mem_mib :: nat
  cc_readahead :: nat
  cc_s3_concurrency :: nat
  cc_dir :: "string option"

record cursor =
  cur_idx :: nat
  cur_pos :: nat

datatype seek_from = SeekStart nat | SeekEnd int | SeekCurrent int

definition crs_new :: "nat \<Rightarrow> cursor" where
  "crs_new idx = \<lparr>cur_idx = idx, cur_pos = 0\<rparr>"

definition crs_read :: "cache \<Rightarrow> cursor \<Rightarrow> nat \<Rightarrow> (bytes \<times> cursor, io_error) result" where
  "crs_read c r buflen =
     and_then (cache_end c (cur_idx r)) (\<lambda>send.
       let rend = min send (u64_add (cur_pos r) buflen);
           len = u64_sub rend (cur_pos r)
       in if len > 0 then
            (if len \<le> buflen then
               and_then (cache_read c (cur_idx r) (cur_pos r) len) (\<lambda>bs.
                 Ok (bs, r\<lparr>cur_pos := rend\<rparr>))
             else Panic)
          else Ok ([], r))"

definition checked_add_signed :: "nat \<Rightarrow> int \<Rightarrow> nat option" where
  "checked_add_signed base off =
     (let n = int base + off in if 0 \<le> n \<and> n < int u64_lim then Some (nat n) else None)"

definition crs_seek :: "cache \<Rightarrow> cursor \<Rightarrow> seek_from \<Rightarrow> (cursor, io_error) result" where
  "crs_seek c r pos =
     and_then (cache_end c (cur_idx r)) (\<lambda>end.
       let (base, offset) =
         (case pos of
            SeekStart n \<Rightarrow> (n, 0)
          | SeekEnd n \<Rightarrow> (end, n)
          | SeekCurrent n \<Rightarrow> (cur_pos r, n))
       in case checked_add_signed base offset of
            Some n \<Rightarrow> if n \<le> end then Ok (r\<lparr>cur_pos := n\<rparr>) else Err InvalidInput
          | None \<Rightarrow> Err InvalidInput)"

text \<open>\<open>Read::read_exact\<close>: read until the buffer is full; a read of nothing is the end of file.\<close>

function read_exact :: "cache \<Rightarrow> cursor \<Rightarrow> nat \<Rightarrow> (bytes \<times> cursor, io_error) result" where
  "read_exact c r n =
     (if n = 0 then Ok ([], r)
      else and_then (crs_read c r n) (\<lambda>p.
        if fst p = [] then Err UnexpectedEof
        else and_then (read_exact c (snd p) (n - length (fst p))) (\<lambda>q.
          Ok (fst p @ fst q, snd q))))"
  by pat_completeness auto
termination
  by (relation "measure (\<lambda>(c, r, n). n)") auto

declare read_exact.simps [simp del]

subsection \<open>Integers of the byteorder crate\<close>

record byteorder =
  bo_get_le :: "nat \<Rightarrow> bytes \<Rightarrow> nat"
  bo_get_be :: "nat \<Rightarrow> bytes \<Rightarrow> nat"
  bo_put_be :: "nat \<Rightarrow> nat \<Rightarrow> bytes"

text \<open>\<open>k\<close> is the width in bytes: \<open>LittleEndian::read_u32\<close> is \<open>bo_get_le bo 4\<close>.\<close>

definition byteorder_ok :: "byteorder \<Rightarrow> bool" where
  "byteorder_ok bo \<longleftrightarrow>
     (\<forall>k bs. length bs = k \<longrightarrow> bo_get_le bo k bs = from_le_bytes bs) \<and>
     (\<forall>k bs. length bs = k \<longrightarrow> bo_get_be bo k bs = from_be_bytes bs) \<and>
     (\<forall>k n. bo_put_be bo k n = to_be_bytes k n)"

definition std_byteorder :: byteorder where
  "std_byteorder = \<lparr>bo_get_le = (\<lambda>k. from_le_bytes), bo_get_be = (\<lambda>k. from_be_bytes),
     bo_put_be = to_be_bytes\<rparr>"

lemma byteorder_okD:
  assumes "byteorder_ok bo"
  shows "length bs = k \<Longrightarrow> bo_get_le bo k bs = from_le_bytes bs"
    and "length bs = k \<Longrightarrow> bo_get_be bo k bs = from_be_bytes bs"
    and "bo_put_be bo k n = to_be_bytes k n"
  using assms unfolding byteorder_ok_def by blast+

lemma std_byteorder_ok: "byteorder_ok std_byteorder"
  by (simp add: byteorder_ok_def std_byteorder_def)

definition read_le ::
    "byteorder \<Rightarrow> nat \<Rightarrow> cache \<Rightarrow> cursor \<Rightarrow> (nat \<times> cursor, io_error) result" where
  "read_le bo k c r = and_then (read_exact c r k) (\<lambda>(bs, r). Ok (bo_get_le bo k bs, r))"

definition read_be ::
    "byteorder \<Rightarrow> nat \<Rightarrow> cache \<Rightarrow> cursor \<Rightarrow> (nat \<times> cursor, io_error) result" where
  "read_be bo k c r = and_then (read_exact c r k) (\<lambda>(bs, r). Ok (bo_get_be bo k bs, r))"

text \<open>A run of \<open>n\<close> integers, as \<open>(0..n).map(|_| src.read_..()).collect()\<close> reads it.\<close>

fun read_le_vec ::
    "byteorder \<Rightarrow> nat \<Rightarrow> cache \<Rightarrow> cursor \<Rightarrow> nat \<Rightarrow> (nat list \<times> cursor, io_error) result" where
  "read_le_vec bo k c r 0 = Ok ([], r)"
| "read_le_vec bo k c r (Suc n) =
     and_then (read_le bo k c r) (\<lambda>(x, r).
       and_then (read_le_vec bo k c r n) (\<lambda>(xs, r). Ok (x # xs, r)))"

subsection \<open>A cache that serves a byte string\<close>

definition serves :: "cache \<Rightarrow> nat \<Rightarrow> bytes \<Rightarrow> bool" where
  "serves c idx data \<longleftrightarrow>
     cache_end c idx = Ok (length data) \<and> length data < u64_lim \<and>
     (\<forall>off n. off + n \<le> length data \<longrightarrow> cache_read c idx off n = Ok (sub_list data off n))"

lemma servesD:
  assumes "serves c idx data"
  shows "cache_end c idx = Ok (length data)" "length data < u64_lim"
    "off + n \<le> length data \<Longrightarrow> cache_read c idx off n = Ok (sub_list data off n)"
  using assms by (auto simp: serves_def)

lemma crs_read_serves:
  assumes "serves c (cur_idx r) data" "cur_pos r \<le> length data" "cur_pos r + n < u64_lim"
  shows "crs_read c r n =
    (let k = min n (length data - cur_pos r)
     in Ok (sub_list data (cur_pos r) k, r\<lparr>cur_pos := cur_pos r + k\<rparr>))"
proof -
  let ?k = "min n (length data - cur_pos r)"
  have m: "min (length data) (cur_pos r + n) = cur_pos r + ?k" using assms by auto
  have "cur_pos r + ?k \<le> length data" using assms by auto
  then show ?thesis
    using servesD [OF assms(1)] assms(3) m
    by (cases "?k = 0") (auto simp: crs_read_def Let_def)
qed

lemma read_exact_0 [simp]: "read_exact c r 0 = Ok ([], r)"
  by (simp add: read_exact.simps)

lemma read_exact_serves:
  assumes s: "serves c (cur_idx r) data" and "cur_pos r \<le> length data" and "cur_pos r + n < u64_lim"
  shows "read_exact c r n =
    (if cur_pos r + n \<le> length data
     then Ok (sub_list data (cur_pos r) n, r\<lparr>cur_pos := cur_pos r + n\<rparr>)
     else Err UnexpectedEof)"
proof (cases "n = 0")
  case True
  then show ?thesis using assms by simp
next
  case n: False
  let ?k = "min n (length data - cur_pos r)"
  have cr: "crs_read c r n =
      Ok (sub_list data (cur_pos r) ?k, r\<lparr>cur_pos := cur_pos r + ?k\<rparr>)"
    using crs_read_serves [OF assms] by (simp add: Let_def)
  have len: "length (sub_list data (cur_pos r) ?k) = ?k" using assms(2) by (auto simp: sub_list_def)
  show ?thesis
  proof (cases "cur_pos r + n \<le> length data")
    case True
    then have k: "?k = n" by auto
    then have "sub_list data (cur_pos r) n \<noteq> []" using len n by (metis list.size(3))
    then show ?thesis using cr len n True k by (simp add: read_exact.simps [of c r n])
  next
    case False
    then have k: "?k = length data - cur_pos r" using assms(2) by auto
    let ?r' = "r\<lparr>cur_pos := cur_pos r + ?k\<rparr>"
    have at_end: "crs_read c ?r' (n - ?k) = Ok ([], ?r')"
      using crs_read_serves [of c ?r' data "n - ?k"] assms k by (simp add: Let_def sub_list_def)
    have "n - ?k \<noteq> 0" using False k assms(2) by linarith
    then have "read_exact c ?r' (n - ?k) = Err UnexpectedEof"
      using at_end by (subst read_exact.simps) simp
    then show ?thesis
      using cr len n False by (auto simp: read_exact.simps [of c r n])
  qed
qed

text \<open>The same in a form that follows a parser through a byte string.\<close>

lemma read_exact_at:
  assumes "serves c i data" "drop p data = bs @ rest" "p \<le> length data"
  shows "read_exact c \<lparr>cur_idx = i, cur_pos = p\<rparr> (length bs) =
    Ok (bs, \<lparr>cur_idx = i, cur_pos = p + length bs\<rparr>)"
proof -
  have "length data - p = length bs + length rest" using assms(2) by (metis length_append length_drop)
  then have le: "p + length bs \<le> length data" using assms(3) by linarith
  moreover have "sub_list data p (length bs) = bs" using assms(2) by (simp add: sub_list_def)
  ultimately show ?thesis
    using read_exact_serves [of c "\<lparr>cur_idx = i, cur_pos = p\<rparr>" data "length bs"] assms
      servesD(2) [OF assms(1)] by simp
qed

lemma drop_step: "drop p data = bs @ rest \<Longrightarrow> drop (p + length bs) data = rest"
  by (metis append_eq_conv_conj drop_drop add.commute)

lemma read_le_at:
  assumes "byteorder_ok bo" "serves c i data" "drop p data = to_le_bytes k n @ rest" "p \<le> length data"
    and "n < 256 ^ k"
  shows "read_le bo k c \<lparr>cur_idx = i, cur_pos = p\<rparr> = Ok (n, \<lparr>cur_idx = i, cur_pos = p + k\<rparr>)"
  using read_exact_at [OF assms(2,3,4)] assms(1,5)
  by (simp add: read_le_def byteorder_okD from_le_to_le_bytes)

lemma read_le_bound:
  assumes "byteorder_ok bo" "serves c (cur_idx r) data" "cur_pos r \<le> length data"
    "cur_pos r + k < u64_lim" "read_le bo k c r = Ok (n, r')"
  shows "n < 256 ^ k"
proof -
  from assms(5) obtain bs where bs: "read_exact c r k = Ok (bs, r')" "n = bo_get_le bo k bs"
    by (auto simp: read_le_def and_then_Ok_iff split: prod.splits)
  then have "length bs = k"
    using read_exact_serves [OF assms(2-4)] by (auto split: if_splits)
  then show ?thesis
    using assms(1) bs from_le_bytes_less [of bs] by (simp add: byteorder_okD)
qed

subsection \<open>A cursor stays inside its source\<close>

definition cursor_ok :: "cache \<Rightarrow> cursor \<Rightarrow> bool" where
  "cursor_ok c r \<longleftrightarrow> (\<exists>e. cache_end c (cur_idx r) = Ok e \<and> cur_pos r \<le> e \<and> e < u64_lim)"

lemma crs_seek_ok:
  assumes "crs_seek c r p = Ok r'" "\<And>e. cache_end c (cur_idx r) = Ok e \<Longrightarrow> e < u64_lim"
  shows "cursor_ok c r'" "cur_idx r' = cur_idx r"
  using assms
  by (cases p; auto simp: crs_seek_def and_then_Ok_iff cursor_ok_def split: option.splits if_splits)+

lemma crs_read_ok:
  assumes "cursor_ok c r" "cur_pos r + n < u64_lim"
    and full: "\<And>off len bs. cache_read c (cur_idx r) off len = Ok bs \<Longrightarrow> length bs = len"
  shows "crs_read c r n \<noteq> Panic \<or> (\<exists>off len. cache_read c (cur_idx r) off len = Panic)"
    and "crs_read c r n = Ok (bs, r') \<Longrightarrow>
      cursor_ok c r' \<and> cur_pos r' = cur_pos r + length bs \<and> length bs \<le> n"
proof -
  obtain e where e: "cache_end c (cur_idx r) = Ok e" "cur_pos r \<le> e" "e < u64_lim"
    using assms(1) by (auto simp: cursor_ok_def)
  have le: "cur_pos r \<le> min e (cur_pos r + n)" using e by simp
  show "crs_read c r n \<noteq> Panic \<or> (\<exists>off len. cache_read c (cur_idx r) off len = Panic)"
    using e assms(2) le by (auto simp: crs_read_def Let_def and_then_Panic_iff)
  assume "crs_read c r n = Ok (bs, r')"
  then show "cursor_ok c r' \<and> cur_pos r' = cur_pos r + length bs \<and> length bs \<le> n"
    using e assms(2) le full
    by (auto simp: crs_read_def Let_def cursor_ok_def and_then_Ok_iff split: if_splits)
qed

subsection \<open>Files held in memory\<close>

text \<open>A cache over given files, which the concrete instances of the properties read from.\<close>

definition mem_cache :: "(nat \<Rightarrow> bytes) \<Rightarrow> cache" where
  "mem_cache files =
     \<lparr>cache_read = (\<lambda>i off n. if off + n \<le> length (files i) then Ok (sub_list (files i) off n)
        else Err UnexpectedEof),
      cache_end = (\<lambda>i. Ok (length (files i)))\<rparr>"

lemma mem_cache_serves: "length (files i) < u64_lim \<Longrightarrow> serves (mem_cache files) i (files i)"
  by (simp add: serves_def mem_cache_def)

text \<open>A cache without blocks: every read goes to the registered source.\<close>

definition direct_cache :: "source_slots \<Rightarrow> cache" where
  "direct_cache slots =
     \<lparr>cache_read = (\<lambda>i off n. and_then (slots_get slots i) (\<lambda>s. src_read s off (off + n))),
      cache_end = (\<lambda>i. and_then (slots_get slots i) (\<lambda>s. Ok (src_end s)))\<rparr>"

definition mem_source :: "bytes \<Rightarrow> bytes_source" where
  "mem_source data =
     \<lparr>src_read = (\<lambda>b e. if b \<le> e \<and> e \<le> length data then Ok (sub_list data b (e - b))
        else Err UnexpectedEof),
      src_end = length data\<rparr>"

lemma direct_cache_serves:
  assumes "slots_get slots i = Ok (mem_source data)" "length data < u64_lim"
  shows "serves (direct_cache slots) i data"
  using assms by (simp add: serves_def direct_cache_def mem_source_def)

end
