(* ===== verification/Sources.thy ===== *)
theory Sources
  imports ImageSource
begin

text \<open>
  The byte sources of \<open>imagesource/src\<close>: local files (\<open>filesource.rs\<close>), S3 objects (\<open>s3source.rs\<close>), the
  probes for the existence of a segment (\<open>exists.rs\<close>) and the choice of a source by URL scheme
  (\<open>urlsource.rs\<close>).

  The operating system and the crates \<open>url\<close> and \<open>rust-s3\<close> are parameters: \<open>os_open\<close> gives the content
  of a file (which does not change while the image is open), \<open>os_metadata\<close> says whether a path is a
  file, and the record \<open>s3_client\<close> holds what the bucket answers.  Credentials are one answer of
  \<open>s3_sync_credentials\<close>.

  Shown: a probe says \<open>absent\<close> only on a definite answer; an S3 read gives exactly the bytes asked for
  or an error; a local file source serves its file.
\<close>

subsection \<open>Local files\<close>

record os =
  os_metadata :: "string \<Rightarrow> (bool, io_error) result"
  os_open :: "string \<Rightarrow> (bytes, io_error) result"

definition read_exact_at :: "bytes \<Rightarrow> nat \<Rightarrow> nat \<Rightarrow> (bytes, io_error) result" where
  "read_exact_at file n offset =
     (if n = 0 then Ok []
      else if offset + n \<le> length file then Ok (sub_list file offset n)
      else Err UnexpectedEof)"

definition file_source :: "bytes \<Rightarrow> bytes_source" where
  "file_source file =
     \<lparr>src_read = (\<lambda>beg end. read_exact_at file (end - beg) beg), src_end = length file\<rparr>"

definition file_source_open :: "os \<Rightarrow> string \<Rightarrow> (bytes_source, io_error) result" where
  "file_source_open w path = and_then (os_open w path) (\<lambda>file. Ok (file_source file))"

subsection \<open>Existence probes\<close>

record exists_error =
  ee_path :: string
  ee_source :: io_error

type_synonym checker = "string \<Rightarrow> (bool, exists_error) result"

definition file_checker :: "os \<Rightarrow> checker" where
  "file_checker w path =
     (case os_metadata w path of
        Ok is_file \<Rightarrow> Ok is_file
      | Err e \<Rightarrow>
          if e = NotFound \<or> e = NotADirectory then Ok False
          else Err \<lparr>ee_path = path, ee_source = e\<rparr>
      | Panic \<Rightarrow> Panic)"

datatype head_verdict = Present | Absent | AbsentOrForbidden | Undetermined

datatype s3_error = HttpFailWithBody nat string | OtherS3Error

definition classify_head_status :: "nat \<Rightarrow> head_verdict" where
  "classify_head_status code =
     (if code = 200 then Present
      else if code = 404 \<or> code = 410 then Absent
      else if code = 403 then AbsentOrForbidden
      else Undetermined)"

fun head_verdict_of :: "('h \<times> nat, s3_error) result \<Rightarrow> (head_verdict, s3_error) result" where
  "head_verdict_of (Ok (h, code)) =
     (case classify_head_status code of
        Undetermined \<Rightarrow> Err (HttpFailWithBody code [])
      | verdict \<Rightarrow> Ok verdict)"
| "head_verdict_of (Err (HttpFailWithBody code body)) =
     (case classify_head_status code of
        Undetermined \<Rightarrow> Err (HttpFailWithBody code body)
      | verdict \<Rightarrow> Ok verdict)"
| "head_verdict_of (Err OtherS3Error) = Err OtherS3Error"
| "head_verdict_of Panic = Panic"

record s3_client =
  s3_key_of :: "string \<Rightarrow> (string option, io_error) result"
  s3_sync_credentials :: "(unit, io_error) result"
  s3_head_object :: "string \<Rightarrow> (int option \<times> nat, s3_error) result"
  s3_get_object_range :: "string \<Rightarrow> nat \<Rightarrow> nat \<Rightarrow> (nat \<times> bytes, s3_error) result"

text \<open>\<open>s3_key_of\<close> is \<open>Url::parse\<close> followed by \<open>s3_key\<close>: no URL, a key that is not UTF-8, or the key.\<close>

definition s3_checker :: "s3_client \<Rightarrow> checker" where
  "s3_checker cl path =
     (let err = (\<lambda>e. \<lparr>ee_path = path, ee_source = e\<rparr>) in
      and_then (map_err err (s3_key_of cl path)) (\<lambda>k.
      and_then (ok_or (err Other) k) (\<lambda>key.
      and_then (map_err err (s3_sync_credentials cl)) (\<lambda>_.
      and_then (map_err (\<lambda>_. err Other) (head_verdict_of (s3_head_object cl key))) (\<lambda>verdict.
      case verdict of
        Present \<Rightarrow> Ok True
      | Absent \<Rightarrow> Ok False
      | AbsentOrForbidden \<Rightarrow> Ok False
      | Undetermined \<Rightarrow> Panic)))))"

subsection \<open>S3 reads\<close>

definition check_range_response :: "nat \<Rightarrow> nat \<Rightarrow> nat \<Rightarrow> nat \<Rightarrow> (unit, io_error) result" where
  "check_range_response beg end status got =
     (let wanted = u64_sub end beg in
      if status \<noteq> 206 \<or> got \<noteq> wanted then Err Other else Ok ())"

definition s3_read :: "s3_client \<Rightarrow> string \<Rightarrow> nat \<Rightarrow> nat \<Rightarrow> (bytes, io_error) result" where
  "s3_read cl path beg end =
     and_then (s3_sync_credentials cl) (\<lambda>_.
     if end \<le> beg then Err InvalidInput
     else
       case s3_get_object_range cl path beg (end - 1) of
         Ok (status, data) \<Rightarrow>
           and_then (check_range_response beg end status (length data)) (\<lambda>_. Ok data)
       | Err e \<Rightarrow> Err Other
       | Panic \<Rightarrow> Panic)"

definition s3_source :: "s3_client \<Rightarrow> string \<Rightarrow> nat \<Rightarrow> bytes_source" where
  "s3_source cl path len = \<lparr>src_read = s3_read cl path, src_end = len\<rparr>"

subsection \<open>A source for a URL\<close>

record url_parts =
  url_scheme :: string
  url_text :: string
  url_file_path :: "string option"
  url_host :: "string option"
  url_key :: "string option"

definition content_length :: "int option \<Rightarrow> (nat, io_error) result" where
  "content_length l =
     (case l of
        None \<Rightarrow> Err InvalidData
      | Some n \<Rightarrow> if n < 0 then Err InvalidData else Ok (nat n))"

text \<open>\<open>buckets\<close> is \<open>s3_bucket\<close>: the client for a bucket name, or why there is none; \<open>None\<close> stands for
  credentials that were not resolved.\<close>

definition source_for_url ::
    "os \<Rightarrow> (string \<Rightarrow> string \<Rightarrow> (s3_client, source_open_error) result) option \<Rightarrow> url_parts
      \<Rightarrow> (bytes_source, source_open_error) result" where
  "source_for_url w buckets url =
     (if url_scheme url = ''file'' then
        and_then (ok_or ([], SrcBadPath (url_text url)) (url_file_path url)) (\<lambda>path.
        map_err (\<lambda>e. (path, SrcIoError e)) (file_source_open w path))
      else if url_scheme url = ''s3'' then
        and_then (ok_or ([], SrcIoError Other) buckets) (\<lambda>s3_bucket.
        and_then (ok_or ([], SrcBadPath (url_text url)) (url_host url)) (\<lambda>name.
        and_then (ok_or ([], SrcBadPath (url_text url)) (url_key url)) (\<lambda>key.
        and_then (s3_bucket name (url_text url)) (\<lambda>bucket.
        and_then (map_err (\<lambda>_. (url_text url, SrcIoError Other)) (s3_head_object bucket key)) (\<lambda>(h, _).
        and_then (map_err (\<lambda>e. (url_text url, SrcIoError e)) (content_length h)) (\<lambda>len.
        Ok (s3_source bucket key len)))))))
      else Err ([], SrcUnsupportedScheme (url_text url)))"

subsection \<open>What the sources promise\<close>

lemma file_source_serves:
  assumes "slots_get slots i = Ok (file_source file)" "length file < u64_lim"
  shows "serves (direct_cache slots) i file"
  using assms by (auto simp: serves_def direct_cache_def file_source_def read_exact_at_def)

lemma head_verdict_Ok:
  assumes "head_verdict_of r = Ok v"
  shows "v \<noteq> Undetermined"
    and "\<exists>code. classify_head_status code = v \<and>
      ((\<exists>h. r = Ok (h, code)) \<or> (\<exists>body. r = Err (HttpFailWithBody code body)))"
  using assms
  by (cases r rule: head_verdict_of.cases; auto split: head_verdict.splits)+

lemma head_verdict_Panic: "head_verdict_of r = Panic \<longleftrightarrow> r = Panic"
  by (cases r rule: head_verdict_of.cases) (auto split: head_verdict.splits)

lemma absent_status:
  "classify_head_status code = Absent \<or> classify_head_status code = AbsentOrForbidden \<Longrightarrow>
     code \<in> {404, 410, 403}"
  by (auto simp: classify_head_status_def split: if_splits)

lemma s3_checker_absent:
  assumes "s3_checker cl path = Ok False"
  shows "\<exists>key h body code. s3_key_of cl path = Ok (Some key) \<and> code \<in> {404, 410, 403} \<and>
        (s3_head_object cl key = Ok (h, code) \<or>
         s3_head_object cl key = Err (HttpFailWithBody code body))"
proof -
  from assms obtain key v where k: "s3_key_of cl path = Ok (Some key)"
    "head_verdict_of (s3_head_object cl key) = Ok v"
    and v: "(case v of Present \<Rightarrow> Ok True | Absent \<Rightarrow> Ok False | AbsentOrForbidden \<Rightarrow> Ok False
      | Undetermined \<Rightarrow> Panic) = (Ok False :: (bool, exists_error) result)"
    by (auto simp: s3_checker_def Let_def and_then_Ok_iff)
  from v have k3: "v = Absent \<or> v = AbsentOrForbidden" by (cases v) auto
  obtain code where c: "classify_head_status code = v"
    "(\<exists>h. s3_head_object cl key = Ok (h, code)) \<or>
     (\<exists>body. s3_head_object cl key = Err (HttpFailWithBody code body))"
    using head_verdict_Ok(2) [OF k(2)] by blast
  then have "code \<in> {404, 410, 403}" using absent_status k3 by blast
  then show ?thesis using k(1) c(2) by blast
qed

lemma s3_checker_Panic:
  assumes "s3_checker cl path = Panic"
  shows "s3_key_of cl path = Panic \<or> s3_sync_credentials cl = Panic \<or>
     (\<exists>key. s3_head_object cl key = Panic)"
proof -
  have v: "(case v of Present \<Rightarrow> Ok True | Absent \<Rightarrow> Ok False | AbsentOrForbidden \<Rightarrow> Ok False
      | Undetermined \<Rightarrow> Panic) \<noteq> (Panic :: (bool, exists_error) result)"
    if "head_verdict_of r = Ok v" for v and r :: "(int option \<times> nat, s3_error) result"
    using head_verdict_Ok(1) [OF that] by (cases v) auto
  then show ?thesis
    using assms by (auto simp: s3_checker_def Let_def and_then_Panic_iff head_verdict_Panic)
qed

text \<open>
  C30: A probe of the file system answers \<open>absent\<close> only when the system said that there is no such file
  (or that the path names something else), and an S3 probe only on status 404, 410 or 403; every
  other outcome, throttling and server errors among them, is an error and never ends a segment
  sequence.  The branch the code marks unreachable is unreachable.
\<close>

theorem probes_absent_only_when_told:
  "(file_checker w path = Ok False \<longrightarrow>
      os_metadata w path \<in> {Ok False, Err NotFound, Err NotADirectory}) \<and>
   (s3_checker cl path = Ok False \<longrightarrow>
      (\<exists>key h body code. s3_key_of cl path = Ok (Some key) \<and> code \<in> {404, 410, 403} \<and>
        (s3_head_object cl key = Ok (h, code) \<or>
         s3_head_object cl key = Err (HttpFailWithBody code body)))) \<and>
   (s3_checker cl path = Panic \<longrightarrow> s3_key_of cl path = Panic \<or> s3_sync_credentials cl = Panic \<or>
      (\<exists>key. s3_head_object cl key = Panic))"
  using s3_checker_absent [of cl path] s3_checker_Panic [of cl path]
  by (auto simp: file_checker_def split: result.splits if_splits)

definition forbidding_client :: s3_client where
  "forbidding_client = \<lparr>s3_key_of = (\<lambda>p. Ok (Some p)), s3_sync_credentials = Ok (),
     s3_head_object = (\<lambda>k. Err (HttpFailWithBody 403 [])), s3_get_object_range = (\<lambda>k b e. Err OtherS3Error)\<rparr>"

theorem probes_absent_only_when_told_witness:
  "file_checker \<lparr>os_metadata = (\<lambda>p. Err NotFound), os_open = (\<lambda>p. Err NotFound)\<rparr> ''x'' = Ok False \<and>
   s3_checker forbidding_client ''x'' = Ok False \<and>
   (\<exists>key h body code. s3_key_of forbidding_client ''x'' = Ok (Some key) \<and> code \<in> {404, 410, 403} \<and>
     (s3_head_object forbidding_client key = Ok (h, code) \<or>
      s3_head_object forbidding_client key = Err (HttpFailWithBody code body)))"
proof -
  have "s3_checker forbidding_client ''x'' = Ok False"
    by (simp add: s3_checker_def forbidding_client_def classify_head_status_def)
  moreover have "file_checker \<lparr>os_metadata = (\<lambda>p. Err NotFound), os_open = (\<lambda>p. Err NotFound)\<rparr> ''x'' =
      Ok False"
    by (simp add: file_checker_def)
  ultimately show ?thesis
    using probes_absent_only_when_told [where cl = forbidding_client and path = "''x''"] by blast
qed

text \<open>
  A read of an S3 object that succeeds delivered exactly the range asked for: as many bytes as the
  range has, from a response with status 206.  An empty or inverted range is an error and reaches
  the server never; nothing panics unless the client does.
\<close>

theorem s3_read_exact_length:
  "(s3_read cl path beg end = Ok bs \<longrightarrow>
     beg < end \<and> length bs = end - beg \<and> s3_get_object_range cl path beg (end - 1) = Ok (206, bs)) \<and>
   (end \<le> beg \<longrightarrow> \<not> is_ok (s3_read cl path beg end))"
  by (auto simp: s3_read_def check_range_response_def and_then_Ok_iff is_ok_iff Let_def
      split: result.splits if_splits)

definition serving_client :: "bytes \<Rightarrow> s3_client" where
  "serving_client data = \<lparr>s3_key_of = (\<lambda>p. Ok (Some p)), s3_sync_credentials = Ok (),
     s3_head_object = (\<lambda>k. Ok (Some (int (length data)), 200)),
     s3_get_object_range = (\<lambda>k b e. Ok (206, sub_list data b (e + 1 - b)))\<rparr>"

theorem s3_read_exact_length_witness:
  "s3_read (serving_client [1, 2, 3, 4]) ''k'' 1 3 = Ok [2, 3] \<and> length [2, 3 :: u8] = 3 - 1 \<and>
   \<not> is_ok (s3_read (serving_client [1, 2, 3, 4]) ''k'' 3 3)"
proof -
  have r: "s3_read (serving_client [1, 2, 3, 4]) ''k'' 1 3 = Ok [2, 3]"
    by (simp add: s3_read_def serving_client_def check_range_response_def sub_list_def)
  show ?thesis
    using s3_read_exact_length [of "serving_client [1, 2, 3, 4]" "''k''" 1 3 "[2, 3]"] r
      s3_read_exact_length [of "serving_client [1, 2, 3, 4]" "''k''" 3 3] by simp
qed

end
