(* ===== verification/RustStr.thy ===== *)
theory RustStr
  imports Prelude
begin

text \<open>
  The methods of \<open>str\<close> the parsers use, on ASCII text as \<open>string\<close>: \<open>trim\<close>, \<open>split_once\<close>,
  \<open>rsplit_once\<close>, \<open>strip_prefix\<close>, \<open>lines\<close>, \<open>parse::<u64>\<close>, ASCII case mapping, and decimal
  formatting with a minimum width (\<open>{n:0width$}\<close>).  White space is that of ASCII; the Unicode white space that
  \<open>trim\<close> also removes is not modelled.

  Shown: decimal numerals parse back, their length, and how the splitting methods cut a text built
  by concatenation.
\<close>

definition is_ws :: "char \<Rightarrow> bool" where
  "is_ws c \<longleftrightarrow> c \<in> {CHR '' '', CHR 0x09, CHR 0x0A, CHR 0x0B, CHR 0x0C, CHR 0x0D}"

definition trim_start :: "string \<Rightarrow> string" where
  "trim_start s = dropWhile is_ws s"

definition trim_end :: "string \<Rightarrow> string" where
  "trim_end s = rev (dropWhile is_ws (rev s))"

definition trim :: "string \<Rightarrow> string" where
  "trim s = trim_end (trim_start s)"

fun split_once :: "char \<Rightarrow> string \<Rightarrow> (string \<times> string) option" where
  "split_once c [] = None"
| "split_once c (x # xs) =
     (if x = c then Some ([], xs)
      else map_option (\<lambda>(a, b). (x # a, b)) (split_once c xs))"

definition rsplit_once :: "char \<Rightarrow> string \<Rightarrow> (string \<times> string) option" where
  "rsplit_once c s = map_option (\<lambda>(a, b). (rev b, rev a)) (split_once c (rev s))"

fun strip_prefix :: "string \<Rightarrow> string \<Rightarrow> string option" where
  "strip_prefix [] s = Some s"
| "strip_prefix (p # ps) [] = None"
| "strip_prefix (p # ps) (x # xs) = (if x = p then strip_prefix ps xs else None)"

text \<open>\<open>lines\<close>: split at newlines, drop one carriage return before each, no line after the last newline.\<close>

fun split_lines :: "string \<Rightarrow> string list" where
  "split_lines [] = []"
| "split_lines (x # xs) =
     (if x = CHR 0x0A then [] # split_lines xs
      else (case split_lines xs of
              [] \<Rightarrow> [[x]]
            | l # ls \<Rightarrow> (x # l) # ls))"

definition strip_cr :: "string \<Rightarrow> string" where
  "strip_cr l = (if l \<noteq> [] \<and> last l = CHR 0x0D then butlast l else l)"

text \<open>
  \<open>split_lines\<close> gives the pieces between newlines; only a piece that a newline ends can lose its
  carriage return.
\<close>

definition rust_lines :: "string \<Rightarrow> string list" where
  "rust_lines s =
     (let ls = split_lines s in
      if ls = [] then [] else
      if last s = CHR 0x0A then map strip_cr ls
      else map strip_cr (butlast ls) @ [last ls])"

definition digit_val :: "char \<Rightarrow> nat option" where
  "digit_val c =
     (let n = of_char c :: nat in if 48 \<le> n \<and> n \<le> 57 then Some (n - 48) else None)"

definition is_ascii_digit :: "char \<Rightarrow> bool" where
  "is_ascii_digit c \<longleftrightarrow> digit_val c \<noteq> None"

text \<open>\<open>u64::from_str\<close>: one optional plus sign, at least one digit, no overflow.\<close>

fun parse_digits :: "nat \<Rightarrow> string \<Rightarrow> nat option" where
  "parse_digits acc [] = Some acc"
| "parse_digits acc (c # cs) =
     (case digit_val c of
        None \<Rightarrow> None
      | Some d \<Rightarrow> if acc * 10 + d < u64_lim then parse_digits (acc * 10 + d) cs else None)"

definition parse_u64 :: "string \<Rightarrow> nat option" where
  "parse_u64 s =
     (let ds = (case s of c # cs \<Rightarrow> if c = CHR ''+'' then cs else s | [] \<Rightarrow> [])
      in if ds = [] then None else parse_digits 0 ds)"

definition to_ascii_uppercase :: "string \<Rightarrow> string" where
  "to_ascii_uppercase =
     map (\<lambda>c. let n = of_char c :: nat in if 97 \<le> n \<and> n \<le> 122 then char_of (n - 32) else c)"

definition to_ascii_lowercase :: "string \<Rightarrow> string" where
  "to_ascii_lowercase =
     map (\<lambda>c. let n = of_char c :: nat in if 65 \<le> n \<and> n \<le> 90 then char_of (n + 32) else c)"

subsection \<open>Decimal formatting\<close>

definition digit_char :: "nat \<Rightarrow> char" where
  "digit_char d = char_of (48 + d)"

fun decimal :: "nat \<Rightarrow> string" where
  "decimal n = (if n < 10 then [digit_char n] else decimal (n div 10) @ [digit_char (n mod 10)])"

declare decimal.simps [simp del]

definition pad_decimal :: "nat \<Rightarrow> nat \<Rightarrow> string" where
  "pad_decimal width n =
     (let s = decimal n in replicate (width - length s) (CHR ''0'') @ s)"

subsection \<open>Laws\<close>

lemma digit_val_digit_char [simp]: "d < 10 \<Longrightarrow> digit_val (digit_char d) = Some d"
  by (simp add: digit_val_def digit_char_def)

lemma digit_char_not [simp]:
  assumes "d < 10"
  shows "digit_char d \<noteq> CHR ''+''" "digit_char d \<noteq> CHR '' ''" "digit_char d \<noteq> CHR 0x22"
    "digit_char d \<noteq> CHR ''.''" "\<not> is_ws (digit_char d)"
  using digit_val_digit_char [OF assms]
  by (auto simp: digit_val_def is_ws_def Let_def split: if_splits)

lemma decimal_digits: "c \<in> set (decimal n) \<Longrightarrow> \<exists>d<10. c = digit_char d"
proof (induction n rule: decimal.induct)
  case (1 n)
  show ?case
  proof (cases "n < 10")
    case True
    then show ?thesis using 1 by (auto simp: decimal.simps [of n])
  next
    case False
    then have "c \<in> set (decimal (n div 10)) \<or> c = digit_char (n mod 10)"
      using "1.prems" by (auto simp: decimal.simps [of n])
    then show ?thesis
    proof
      assume "c \<in> set (decimal (n div 10))"
      then show ?thesis by (rule "1.IH" [OF False])
    next
      assume "c = digit_char (n mod 10)"
      then show ?thesis by (intro exI [of _ "n mod 10"]) simp
    qed
  qed
qed

lemma decimal_not_Nil [simp]: "decimal n \<noteq> []"
  by (subst decimal.simps) simp

lemma decimal_no_ws: "c \<in> set (decimal n) \<Longrightarrow> \<not> is_ws c"
  using decimal_digits by fastforce

lemma parse_digits_append:
  "parse_digits acc (xs @ ys) =
     (case parse_digits acc xs of None \<Rightarrow> None | Some a \<Rightarrow> parse_digits a ys)"
  by (induction acc xs rule: parse_digits.induct) (auto split: option.splits)

lemma parse_digits_decimal: "n < u64_lim \<Longrightarrow> parse_digits 0 (decimal n) = Some n"
proof (induction n rule: decimal.induct)
  case (1 n)
  show ?case
  proof (cases "n < 10")
    case True
    then show ?thesis using 1 by (simp add: decimal.simps [of n])
  next
    case False
    have "n div 10 < u64_lim" using "1.prems" by (meson div_le_dividend le_less_trans)
    then have "parse_digits 0 (decimal (n div 10)) = Some (n div 10)" by (rule "1.IH" [OF False])
    then show ?thesis
      using False "1.prems" by (simp add: decimal.simps [of n] parse_digits_append)
  qed
qed

lemma hd_decimal: "\<exists>d<10. hd (decimal n) = digit_char d"
  using decimal_digits [of "hd (decimal n)" n] by (simp add: hd_in_set)

lemma parse_u64_no_plus: "s \<noteq> [] \<Longrightarrow> hd s \<noteq> CHR ''+'' \<Longrightarrow> parse_u64 s = parse_digits 0 s"
  by (cases s) (auto simp: parse_u64_def Let_def)

lemma parse_u64_decimal: "n < u64_lim \<Longrightarrow> parse_u64 (decimal n) = Some n"
  using hd_decimal [of n] parse_digits_decimal [of n] by (auto simp: parse_u64_no_plus)

lemma parse_digits_zeros: "parse_digits 0 (replicate k (CHR ''0'') @ s) = parse_digits 0 s"
proof -
  have "digit_val (CHR ''0'') = Some 0" by (simp add: digit_val_def)
  then show ?thesis by (induction k) (auto simp: u64_lim_def)
qed

lemma pad_decimal_digits: "c \<in> set (pad_decimal w n) \<Longrightarrow> is_ascii_digit c"
proof -
  assume "c \<in> set (pad_decimal w n)"
  then consider "c = CHR ''0''" | "c \<in> set (decimal n)"
    by (auto simp: pad_decimal_def Let_def split: if_splits)
  then show ?thesis
  proof cases
    case 1
    then show ?thesis by (simp add: is_ascii_digit_def digit_val_def)
  next
    case 2
    then show ?thesis using decimal_digits [OF 2] by (auto simp: is_ascii_digit_def)
  qed
qed

lemma length_pad_decimal: "length (pad_decimal w n) = max w (length (decimal n))"
  by (simp add: pad_decimal_def Let_def)

lemma parse_pad_decimal: "n < u64_lim \<Longrightarrow> parse_u64 (pad_decimal w n) = Some n"
proof -
  assume n: "n < u64_lim"
  have ne: "pad_decimal w n \<noteq> []" by (simp add: pad_decimal_def Let_def)
  have "is_ascii_digit (hd (pad_decimal w n))" using hd_in_set [OF ne] by (rule pad_decimal_digits)
  then have "hd (pad_decimal w n) \<noteq> CHR ''+''"
    by (auto simp: is_ascii_digit_def digit_val_def Let_def split: if_splits)
  then show ?thesis
    using ne n by (simp add: parse_u64_no_plus)
      (simp add: pad_decimal_def Let_def parse_digits_zeros parse_digits_decimal)
qed

lemma pad_decimal_inj: "pad_decimal w m = pad_decimal w n \<Longrightarrow> m < u64_lim \<Longrightarrow> n < u64_lim \<Longrightarrow> m = n"
  using parse_pad_decimal by (metis option.inject)

lemma split_once_append: "c \<notin> set a \<Longrightarrow> split_once c (a @ c # b) = Some (a, b)"
  by (induction a) auto

lemma split_once_None: "c \<notin> set a \<Longrightarrow> split_once c a = None"
  by (induction a) auto

lemma rsplit_once_append: "c \<notin> set b \<Longrightarrow> rsplit_once c (a @ c # b) = Some (a, b)"
  by (simp add: rsplit_once_def split_once_append)

lemma split_once_Some: "split_once c s = Some (a, b) \<Longrightarrow> s = a @ c # b"
  by (induction s arbitrary: a) (auto split: if_splits)

lemma rsplit_once_Some: "rsplit_once c s = Some (a, b) \<Longrightarrow> s = a @ c # b"
  by (auto simp: rsplit_once_def dest!: split_once_Some) (metis append.assoc append_Cons append_Nil rev.simps(2) rev_append rev_rev_ident)

lemma trim_start_id: "s = [] \<or> \<not> is_ws (hd s) \<Longrightarrow> trim_start s = s"
  by (cases s) (auto simp: trim_start_def)

lemma trim_end_id: "s = [] \<or> \<not> is_ws (last s) \<Longrightarrow> trim_end s = s"
  by (cases s rule: rev_cases) (auto simp: trim_end_def)

lemma trim_id: "s = [] \<or> (\<not> is_ws (hd s) \<and> \<not> is_ws (last s)) \<Longrightarrow> trim s = s"
  using trim_start_id [of s] trim_end_id [of s] by (auto simp: trim_def)

lemma strip_prefix_append: "strip_prefix p (p @ s) = Some s"
  by (induction p) auto

text \<open>Printing what was parsed, to the width it had, gives the digits back.\<close>

lemma digit_val_Some: "digit_val c = Some d \<Longrightarrow> d < 10 \<and> c = digit_char d"
  by (auto simp: digit_val_def digit_char_def Let_def split: if_splits)

lemma pad_decimal_snoc:
  assumes "d < 10" "pad_decimal (length s) m = s"
  shows "pad_decimal (Suc (length s)) (m * 10 + d) = s @ [digit_char d]"
proof (cases "m = 0")
  case True
  have "(48 :: nat) = of_char (CHR ''0'')" by simp
  then have "digit_char 0 = CHR ''0''" unfolding digit_char_def by (simp only: char_of_char add_0_right)
  then have "decimal 0 = [CHR ''0'']" by (subst decimal.simps) simp
  then have p: "pad_decimal k 0 = replicate (k - 1) (CHR ''0'') @ [CHR ''0'']" for k
    by (simp add: pad_decimal_def Let_def)
  then have "length (pad_decimal (length s) 0) = length s - 1 + 1" by simp
  then have k: "length s = Suc (length s - 1)" using assms(2) True by simp
  have "s = replicate (length s - 1) (CHR ''0'') @ [CHR ''0'']" using p assms(2) True by simp
  then have "s = replicate (length s) (CHR ''0'')"
    by (metis k replicate_Suc replicate_append_same)
  moreover have "pad_decimal (Suc (length s)) d = replicate (length s) (CHR ''0'') @ [digit_char d]"
    using assms(1) by (simp add: pad_decimal_def Let_def decimal.simps)
  ultimately show ?thesis using True by simp
next
  case False
  then have "decimal (m * 10 + d) = decimal m @ [digit_char d]"
    using assms(1) by (subst decimal.simps) simp
  then have "pad_decimal (Suc (length s)) (m * 10 + d) = pad_decimal (length s) m @ [digit_char d]"
    by (simp add: pad_decimal_def Let_def)
  then show ?thesis unfolding assms(2) .
qed

lemma pad_decimal_parse:
  assumes "parse_digits 0 s = Some n" "s \<noteq> []"
  shows "pad_decimal (length s) n = s"
  using assms
proof (induction s arbitrary: n rule: rev_induct)
  case (snoc c s)
  obtain m d where m: "parse_digits 0 s = Some m" "digit_val c = Some d" "n = m * 10 + d"
    using snoc.prems by (auto simp: parse_digits_append split: option.splits if_splits)
  have d: "d < 10" "c = digit_char d" using digit_val_Some [OF m(2)] by auto
  show ?case
  proof (cases "s = []")
    case True
    then have "n = d" using m by simp
    moreover have "decimal d = [digit_char d]" using d(1) by (subst decimal.simps) simp
    ultimately show ?thesis using True d by (simp add: pad_decimal_def Let_def)
  next
    case False
    then have "pad_decimal (length s) m = s" using snoc.IH [OF m(1)] by simp
    then show ?thesis using pad_decimal_snoc [OF d(1), of s m] d(2) m(3) by simp
  qed
qed simp

end
