(* ===== verification/Nbd.thy ===== *)
theory Nbd
  imports Sources RustStr
begin

text \<open>
  The NBD server, \<open>diskimage-nbd/src\<close>: the wire protocol of \<open>nbd_protocol.rs\<close>, and of \<open>server.rs\<close> one
  connection.

  A connection is a record \<open>stream\<close>: the bytes the client still sends, the bytes it has received, and
  how many more it will take before its end is closed.  Operations on it thread the stream through
  success and failure alike (\<open>st_then\<close>), because what reached the client before an error matters.
  \<open>flush\<close> has nothing to do in this model.  A failed image read carries the raw OS codes along its
  source chain, which is all that \<open>write_simple_error\<close> looks at.

  The locale \<open>nbd_image\<close> is the contract of the trait \<open>NbdImage\<close> for an image that holds a byte string;
  it is interpreted on the raw and VMDK readers in \<open>NbdServer\<close> and on E01 in \<open>NbdE01\<close>.

  Shown: a request outside the export is refused; a read inside it answers with one header and
  exactly the bytes asked for; the server never writes a second header after payload; request
  framing stays in step over every command.
\<close>

subsection \<open>Streams\<close>

record stream =
  st_in :: bytes
  st_out :: bytes
  st_room :: nat

type_synonym ('a, 'e) st = "stream \<Rightarrow> ('a, 'e) result \<times> stream"

definition st_return :: "'a \<Rightarrow> ('a, 'e) st" where
  "st_return x s = (Ok x, s)"

definition st_fail :: "'e \<Rightarrow> ('a, 'e) st" where
  "st_fail e s = (Err e, s)"

definition st_then :: "('a, 'e) st \<Rightarrow> ('a \<Rightarrow> ('b, 'e) st) \<Rightarrow> ('b, 'e) st" where
  "st_then m f s =
     (case m s of
        (Ok x, s') \<Rightarrow> f x s'
      | (Err e, s') \<Rightarrow> (Err e, s')
      | (Panic, s') \<Rightarrow> (Panic, s'))"

datatype nbd_error = StreamError io_error | ImageError "int option list"

definition io_err :: nbd_error where
  "io_err = StreamError InvalidData"

definition st_read_exact :: "nat \<Rightarrow> (bytes, nbd_error) st" where
  "st_read_exact n s =
     (if n \<le> length (st_in s)
      then (Ok (take n (st_in s)), s\<lparr>st_in := drop n (st_in s)\<rparr>)
      else (Err (StreamError UnexpectedEof), s\<lparr>st_in := []\<rparr>))"

definition st_write_all :: "bytes \<Rightarrow> (unit, nbd_error) st" where
  "st_write_all bs s =
     (if length bs \<le> st_room s
      then (Ok (), s\<lparr>st_out := st_out s @ bs, st_room := st_room s - length bs\<rparr>)
      else (Err (StreamError Other),
            s\<lparr>st_out := st_out s @ take (st_room s) bs, st_room := 0\<rparr>))"

definition st_read_be :: "byteorder \<Rightarrow> nat \<Rightarrow> (nat, nbd_error) st" where
  "st_read_be bo k = st_then (st_read_exact k) (\<lambda>bs. st_return (bo_get_be bo k bs))"

subsection \<open>Constants\<close>

definition NBD_REQ_MAGIC :: nat where "NBD_REQ_MAGIC = 0x25609513"
definition NBD_SIMPLE_REPLY_MAGIC :: nat where "NBD_SIMPLE_REPLY_MAGIC = 0x67446698"
definition NBD_CLIENT_OPT_MAGIC :: nat where "NBD_CLIENT_OPT_MAGIC = 0x49484156454F5054"
definition NBD_OPT_EXPORT_NAME :: nat where "NBD_OPT_EXPORT_NAME = 1"
definition NBD_OPT_ABORT :: nat where "NBD_OPT_ABORT = 2"
definition NBD_OPT_LIST :: nat where "NBD_OPT_LIST = 3"
definition NBD_OPT_INFO :: nat where "NBD_OPT_INFO = 6"
definition NBD_OPT_GO :: nat where "NBD_OPT_GO = 7"
definition NBD_REP_ACK :: nat where "NBD_REP_ACK = 1"
definition NBD_REP_SERVER :: nat where "NBD_REP_SERVER = 2"
definition NBD_REP_INFO :: nat where "NBD_REP_INFO = 3"
definition NBD_REP_ERR_UNSUP :: nat where "NBD_REP_ERR_UNSUP = 0x80000001"
definition NBD_CMD_READ :: nat where "NBD_CMD_READ = 0"
definition NBD_CMD_WRITE :: nat where "NBD_CMD_WRITE = 1"
definition NBD_CMD_DISC :: nat where "NBD_CMD_DISC = 2"
definition NBD_CMD_FLUSH :: nat where "NBD_CMD_FLUSH = 3"
definition READ_BUF_SIZE :: nat where "READ_BUF_SIZE = 1048576"
definition MAX_READ_LENGTH :: nat where "MAX_READ_LENGTH = 33554432"
definition NBD_MAGIC :: bytes where "NBD_MAGIC = [0x4E, 0x42, 0x44, 0x4D, 0x41, 0x47, 0x49, 0x43]"
definition NBD_IHAVEOPT :: bytes where
  "NBD_IHAVEOPT = [0x49, 0x48, 0x41, 0x56, 0x45, 0x4F, 0x50, 0x54]"
definition EXPORT_LIST_REPLY :: bytes where
  "EXPORT_LIST_REPLY =
     [0, 0, 0, 0x0d, 0x64, 0x69, 0x73, 0x6b, 0x69, 0x6d, 0x61, 0x67, 0x65, 0x2d, 0x6e, 0x62, 0x64]"

subsection \<open>Replies\<close>

definition read_request_error :: "nat \<Rightarrow> nat \<Rightarrow> nat \<Rightarrow> nat option" where
  "read_request_error offset len export_size =
     (if len > MAX_READ_LENGTH then Some 22
      else if offset > export_size \<or> len > export_size - offset then Some 22
      else None)"

definition write_option_reply :: "byteorder \<Rightarrow> nat \<Rightarrow> nat \<Rightarrow> bytes \<Rightarrow> (unit, nbd_error) st" where
  "write_option_reply bo clopt rtype data =
     st_write_all (bo_put_be bo 8 0x0003e889045565a9 @ bo_put_be bo 4 clopt @ bo_put_be bo 4 rtype @
       bo_put_be bo 4 (length data) @ data)"

definition simple_reply_header :: "nat \<Rightarrow> nat \<Rightarrow> bytes" where
  "simple_reply_header error handle =
     to_be_bytes 4 NBD_SIMPLE_REPLY_MAGIC @ to_be_bytes 4 error @ to_be_bytes 8 handle"

definition write_simple_reply :: "nat \<Rightarrow> nat \<Rightarrow> (unit, nbd_error) st" where
  "write_simple_reply error handle = st_write_all (simple_reply_header error handle)"

fun os_code :: "int option list \<Rightarrow> nat" where
  "os_code [] = 5"
| "os_code (None # es) = os_code es"
| "os_code (Some c # es) = (if 0 < c then nat c else os_code es)"

fun error_codes :: "nbd_error \<Rightarrow> int option list" where
  "error_codes (ImageError cs) = cs"
| "error_codes (StreamError e) = []"

definition write_simple_error :: "nbd_error \<Rightarrow> nat \<Rightarrow> (unit, nbd_error) st" where
  "write_simple_error err handle = write_simple_reply (os_code (error_codes err)) handle"

definition transmission_flags :: nat where
  "transmission_flags = 3"

definition finish_export :: "byteorder \<Rightarrow> nat \<Rightarrow> nat \<Rightarrow> (unit, nbd_error) st" where
  "finish_export bo export_size client_flags =
     st_then (st_write_all (bo_put_be bo 8 export_size)) (\<lambda>_.
     st_then (st_write_all (bo_put_be bo 2 transmission_flags)) (\<lambda>_.
     if client_flags AND 2 = 0 then st_write_all (replicate 124 0) else st_return ()))"

definition write_info_export :: "byteorder \<Rightarrow> nat \<Rightarrow> nat \<Rightarrow> (unit, nbd_error) st" where
  "write_info_export bo clopt export_size =
     write_option_reply bo clopt NBD_REP_INFO
       (bo_put_be bo 2 0 @ bo_put_be bo 8 export_size @ bo_put_be bo 2 transmission_flags)"

definition reply_go_or_info :: "byteorder \<Rightarrow> nat \<Rightarrow> nat \<Rightarrow> (bool, nbd_error) st" where
  "reply_go_or_info bo clopt export_size =
     st_then (write_info_export bo clopt export_size) (\<lambda>_.
     st_then (write_option_reply bo clopt NBD_REP_ACK []) (\<lambda>_.
     st_return (clopt = NBD_OPT_GO)))"

subsection \<open>Negotiation\<close>

text \<open>One option, after its magic: \<open>True\<close> ends the negotiation, \<open>False\<close> goes on with the next option.\<close>

definition handshake_reply :: "byteorder \<Rightarrow> nat \<Rightarrow> nat \<Rightarrow> nat \<Rightarrow> nat \<Rightarrow> (bool, nbd_error) st" where
  "handshake_reply bo export_size client_flags clopt optlen =
     (if clopt = NBD_OPT_EXPORT_NAME then
        st_then (finish_export bo export_size client_flags) (\<lambda>_. st_return True)
      else if clopt = NBD_OPT_ABORT then
        st_then (write_option_reply bo clopt NBD_REP_ACK []) (\<lambda>_. st_fail io_err)
      else if clopt = NBD_OPT_LIST then
        (if optlen \<noteq> 0 then st_fail io_err
         else
           st_then (write_option_reply bo clopt NBD_REP_SERVER EXPORT_LIST_REPLY) (\<lambda>_.
           st_then (write_option_reply bo clopt NBD_REP_ACK []) (\<lambda>_. st_return False)))
      else if clopt = NBD_OPT_GO \<or> clopt = NBD_OPT_INFO then reply_go_or_info bo clopt export_size
      else
        st_then (write_option_reply bo clopt NBD_REP_ERR_UNSUP []) (\<lambda>_. st_return False))"

definition handshake_body :: "byteorder \<Rightarrow> nat \<Rightarrow> nat \<Rightarrow> (bool, nbd_error) st" where
  "handshake_body bo export_size client_flags =
     st_then (st_read_be bo 4) (\<lambda>clopt.
     st_then (st_read_be bo 4) (\<lambda>optlen.
     if optlen > 100000 then st_fail io_err
     else
       st_then (st_read_exact optlen) (\<lambda>opt.
       handshake_reply bo export_size client_flags clopt optlen)))"

definition handshake_option :: "byteorder \<Rightarrow> nat \<Rightarrow> nat \<Rightarrow> (bool, nbd_error) st" where
  "handshake_option bo export_size client_flags =
     st_then (st_read_be bo 8) (\<lambda>magic.
     if magic \<noteq> NBD_CLIENT_OPT_MAGIC then st_fail io_err
     else handshake_body bo export_size client_flags)"

text \<open>No operation adds to what the client sends; an option takes at least its magic.\<close>

definition st_shrinks :: "('a, 'e) st \<Rightarrow> bool" where
  "st_shrinks m \<longleftrightarrow> (\<forall>s. length (st_in (snd (m s))) \<le> length (st_in s))"

lemma st_shrinks_basic:
  "st_shrinks (st_return x)" "st_shrinks (st_fail e)" "st_shrinks (st_read_exact n)"
  "st_shrinks (st_write_all bs)"
  by (auto simp: st_shrinks_def st_return_def st_fail_def st_read_exact_def st_write_all_def)

lemma st_shrinks_then:
  assumes "st_shrinks m" "\<And>x. st_shrinks (f x)"
  shows "st_shrinks (st_then m f)"
proof -
  have "length (st_in (snd (st_then m f s))) \<le> length (st_in s)" for s
  proof (cases "m s")
    case (Pair r s')
    then have "length (st_in s') \<le> length (st_in s)" using assms(1) by (metis st_shrinks_def snd_conv)
    moreover have "length (st_in (snd (f x s'))) \<le> length (st_in s')" for x
      using assms(2) by (simp add: st_shrinks_def)
    ultimately show ?thesis using Pair by (cases r) (auto simp: st_then_def intro: order_trans)
  qed
  then show ?thesis by (simp add: st_shrinks_def)
qed

lemmas st_shrinks_intros = st_shrinks_basic st_shrinks_then

lemma st_shrinks_if: "st_shrinks a \<Longrightarrow> st_shrinks b \<Longrightarrow> st_shrinks (if p then a else b)"
  by simp

lemma st_shrinks_replies:
  "st_shrinks (write_option_reply bo o' t d)" "st_shrinks (finish_export bo n fl)"
  "st_shrinks (write_info_export bo o' n)" "st_shrinks (reply_go_or_info bo o' n)"
  "st_shrinks (st_read_be bo k)" "st_shrinks (write_simple_reply e h)" "st_shrinks (write_simple_error x h)"
  unfolding write_option_reply_def finish_export_def write_info_export_def reply_go_or_info_def
    st_read_be_def write_simple_reply_def write_simple_error_def
  by (intro st_shrinks_intros st_shrinks_if)+

lemma st_then_Ok_iff:
  "st_then m f s = (Ok y, s') \<longleftrightarrow> (\<exists>x s1. m s = (Ok x, s1) \<and> f x s1 = (Ok y, s'))"
  by (auto simp: st_then_def split: prod.splits result.splits)

lemma st_shrinksD: "st_shrinks m \<Longrightarrow> m s = (r, s') \<Longrightarrow> length (st_in s') \<le> length (st_in s)"
  by (metis st_shrinks_def snd_conv)

lemma st_read_be_consumes:
  "st_read_be bo k s = (Ok x, s') \<Longrightarrow> length (st_in s') + k = length (st_in s)"
  by (auto simp: st_read_be_def st_then_Ok_iff st_read_exact_def st_return_def split: if_splits)

lemma st_shrinks_handshake_body: "st_shrinks (handshake_body bo n fl)"
  unfolding handshake_body_def handshake_reply_def
  by (intro st_shrinks_intros st_shrinks_if st_shrinks_replies)

lemma handshake_option_consumes:
  assumes "handshake_option bo n fl s = (Ok b, s')"
  shows "length (st_in s') < length (st_in s)"
proof -
  obtain magic s1 where s1: "st_read_be bo 8 s = (Ok magic, s1)" "handshake_body bo n fl s1 = (Ok b, s')"
    using assms by (auto simp: handshake_option_def st_then_Ok_iff st_fail_def split: if_splits)
  show ?thesis
    using st_read_be_consumes [OF s1(1)] st_shrinksD [OF st_shrinks_handshake_body s1(2)] by simp
qed

function handshake_loop :: "byteorder \<Rightarrow> nat \<Rightarrow> nat \<Rightarrow> (unit, nbd_error) st" where
  "handshake_loop bo export_size client_flags s =
     (case handshake_option bo export_size client_flags s of
        (Ok b, s') \<Rightarrow> if b then (Ok (), s') else handshake_loop bo export_size client_flags s'
      | (Err e, s') \<Rightarrow> (Err e, s')
      | (Panic, s') \<Rightarrow> (Panic, s'))"
  by pat_completeness auto
termination
  by (relation "measure (\<lambda>(bo, n, fl, s). length (st_in s))")
    (auto dest: handshake_option_consumes [OF sym])

declare handshake_loop.simps [simp del]

definition handshake :: "byteorder \<Rightarrow> nat \<Rightarrow> (unit, nbd_error) st" where
  "handshake bo export_size =
     st_then (st_write_all NBD_MAGIC) (\<lambda>_.
     st_then (st_write_all NBD_IHAVEOPT) (\<lambda>_.
     st_then (st_write_all (bo_put_be bo 2 3)) (\<lambda>_.
     st_then (st_read_be bo 4) (\<lambda>client_flags.
     if client_flags \<noteq> 1 \<and> client_flags \<noteq> 3 then st_fail io_err
     else handshake_loop bo export_size client_flags))))"

subsection \<open>Transmission\<close>

text \<open>The trait \<open>NbdImage\<close>: the bytes that \<open>read_at_offset\<close> puts into a buffer of the given length.\<close>

record image =
  img_size :: nat
  img_read :: "nat \<Rightarrow> nat \<Rightarrow> (bytes, int option list) result"

text \<open>The header goes out once, before the first bytes.\<close>

definition send_chunk :: "bool \<Rightarrow> nat \<Rightarrow> bytes \<Rightarrow> (unit, nbd_error) st" where
  "send_chunk replied handle bs =
     st_then (if replied then st_return () else write_simple_reply 0 handle) (\<lambda>_. st_write_all bs)"

definition send_error :: "bool \<Rightarrow> nat \<Rightarrow> nbd_error \<Rightarrow> (unit, nbd_error) st" where
  "send_error replied handle err =
     (if replied then st_fail err else write_simple_error err handle)"

text \<open>The loop of \<open>serve_read\<close>.  More bytes than the buffer holds are no answer that a call with this
  buffer can give; the model has \<open>Panic\<close> there.\<close>

function serve_read_loop :: "image \<Rightarrow> nat \<Rightarrow> nat \<Rightarrow> nat \<Rightarrow> bool \<Rightarrow> (unit, nbd_error) st" where
  "serve_read_loop img handle remaining pos replied s =
     (if remaining = 0 then (Ok (), s)
      else
        case img_read img pos (min remaining READ_BUF_SIZE) of
          Ok bs \<Rightarrow>
            if bs = [] then send_error replied handle io_err s
            else if length bs > min remaining READ_BUF_SIZE then (Panic, s)
            else
              (case send_chunk replied handle bs s of
                 (Ok u, s') \<Rightarrow>
                   serve_read_loop img handle (remaining - length bs) (u64_add pos (length bs)) True s'
               | (Err e, s') \<Rightarrow> (Err e, s')
               | (Panic, s') \<Rightarrow> (Panic, s'))
        | Err cs \<Rightarrow> send_error replied handle (ImageError cs) s
        | Panic \<Rightarrow> (Panic, s))"
  by pat_completeness auto
termination
  by (relation "measure (\<lambda>(img, handle, remaining, pos, replied, s). remaining)") auto

declare serve_read_loop.simps [simp del]

definition serve_read :: "image \<Rightarrow> nat \<Rightarrow> nat \<Rightarrow> nat \<Rightarrow> nat \<Rightarrow> (unit, nbd_error) st" where
  "serve_read img export_size offset len handle =
     (case read_request_error offset len export_size of
        Some error \<Rightarrow> write_simple_reply error handle
      | None \<Rightarrow>
          if len = 0 then write_simple_reply 0 handle
          else serve_read_loop img handle len offset False)"

text \<open>Read and discard a payload.\<close>

function drain :: "nat \<Rightarrow> (unit, nbd_error) st" where
  "drain remaining s =
     (if remaining = 0 then (Ok (), s)
      else
        let want = min remaining READ_BUF_SIZE in
        case st_read_exact want s of
          (Ok _, s') \<Rightarrow> drain (remaining - want) s'
        | (Err e, s') \<Rightarrow> (Err e, s')
        | (Panic, s') \<Rightarrow> (Panic, s'))"
  by pat_completeness auto
termination
  by (relation "measure fst") (auto simp: READ_BUF_SIZE_def)

declare drain.simps [simp del]

record request =
  rq_magic :: nat
  rq_flags :: nat
  rq_typ :: nat
  rq_handle :: nat
  rq_offset :: nat
  rq_length :: nat

definition request_of_header :: "byteorder \<Rightarrow> bytes \<Rightarrow> request" where
  "request_of_header bo h =
     \<lparr>rq_magic = bo_get_be bo 4 (sub_list h 0 4), rq_flags = bo_get_be bo 2 (sub_list h 4 2),
      rq_typ = bo_get_be bo 2 (sub_list h 6 2), rq_handle = bo_get_be bo 8 (sub_list h 8 8),
      rq_offset = bo_get_be bo 8 (sub_list h 16 8), rq_length = bo_get_be bo 4 (sub_list h 24 4)\<rparr>"

definition handle_request :: "image \<Rightarrow> nat \<Rightarrow> request \<Rightarrow> (unit, nbd_error) st" where
  "handle_request img export_size rq =
     (if rq_typ rq = NBD_CMD_READ then
        serve_read img export_size (rq_offset rq) (rq_length rq) (rq_handle rq)
      else if rq_typ rq = NBD_CMD_FLUSH then write_simple_reply 0 (rq_handle rq)
      else if rq_typ rq = NBD_CMD_WRITE then
        st_then (drain (rq_length rq)) (\<lambda>_. write_simple_reply 1 (rq_handle rq))
      else write_simple_reply 38 (rq_handle rq))"

text \<open>One turn of the loop of \<open>transmission\<close>: \<open>True\<close> is the client's disconnect.\<close>

definition transmission_step :: "byteorder \<Rightarrow> image \<Rightarrow> nat \<Rightarrow> (bool, nbd_error) st" where
  "transmission_step bo img export_size =
     st_then (st_read_exact 28) (\<lambda>header.
     let rq = request_of_header bo header in
     if rq_magic rq \<noteq> NBD_REQ_MAGIC then st_fail io_err
     else if rq_typ rq = NBD_CMD_DISC then st_return True
     else st_then (handle_request img export_size rq) (\<lambda>_. st_return False))"

text \<open>Writing takes nothing from what the client sends.\<close>

definition st_keeps_in :: "('a, 'e) st \<Rightarrow> bool" where
  "st_keeps_in m \<longleftrightarrow> (\<forall>s. st_in (snd (m s)) = st_in s)"

lemma st_keeps_in_basic:
  "st_keeps_in (st_return x)" "st_keeps_in (st_fail e)" "st_keeps_in (st_write_all bs)"
  by (auto simp: st_keeps_in_def st_return_def st_fail_def st_write_all_def)

lemma st_keeps_in_then:
  assumes "st_keeps_in m" "\<And>x. st_keeps_in (f x)"
  shows "st_keeps_in (st_then m f)"
proof -
  have "st_in (snd (st_then m f s)) = st_in s" for s
  proof (cases "m s")
    case (Pair r s')
    then have "st_in s' = st_in s" using assms(1) by (metis st_keeps_in_def snd_conv)
    then show ?thesis using Pair assms(2) by (cases r) (auto simp: st_then_def st_keeps_in_def)
  qed
  then show ?thesis by (simp add: st_keeps_in_def)
qed

lemma st_keeps_in_if: "st_keeps_in a \<Longrightarrow> st_keeps_in b \<Longrightarrow> st_keeps_in (if p then a else b)"
  by simp

lemmas st_keeps_in_intros = st_keeps_in_basic st_keeps_in_then st_keeps_in_if

lemma st_keeps_in_replies:
  "st_keeps_in (write_simple_reply e h)" "st_keeps_in (send_chunk r h bs)" "st_keeps_in (send_error r h x)"
  unfolding write_simple_reply_def send_chunk_def send_error_def write_simple_error_def
  by (intro st_keeps_in_intros)+

lemma serve_read_loop_keeps_in: "st_in (snd (serve_read_loop img h n pos replied s)) = st_in s"
proof (induction img h n pos replied s rule: serve_read_loop.induct)
  case (1 img h n pos replied s)
  note k = st_keeps_in_replies(2,3) [unfolded st_keeps_in_def, rule_format]
  have "st_in s' = st_in s" if "send_chunk replied h bs s = (r, s')" for bs r s'
    using k(1) [of replied h bs s] that by simp
  then show ?case
    using 1 k(2) by (subst serve_read_loop.simps) (auto split: result.splits prod.splits)
qed

lemma drain_shrinks: "st_shrinks (drain n)"
proof -
  have "length (st_in (snd (drain n s))) \<le> length (st_in s)" for s
  proof (induction n s rule: drain.induct)
    case (1 n s)
    have r: "length (st_in s') \<le> length (st_in s)" if "st_read_exact k s = (r, s')" for k r s'
      using st_shrinksD [OF st_shrinks_basic(3) that] .
    show ?case
      by (subst drain.simps)
        (auto simp: Let_def split: result.splits prod.splits intro: r order_trans [OF 1 r])
  qed
  then show ?thesis by (simp add: st_shrinks_def)
qed

lemma handle_request_shrinks: "st_shrinks (handle_request img n rq)"
proof -
  have "st_shrinks (serve_read img n off len h)" for off len h
    using serve_read_loop_keeps_in st_shrinks_replies(6)
    by (auto simp: serve_read_def st_shrinks_def split: option.splits)
  then show ?thesis
    unfolding handle_request_def
    by (intro st_shrinks_if st_shrinks_then drain_shrinks st_shrinks_replies)
qed

lemma transmission_step_consumes:
  assumes "transmission_step bo img n s = (Ok b, s')"
  shows "length (st_in s') < length (st_in s)"
proof -
  obtain header s1 where s1: "st_read_exact 28 s = (Ok header, s1)"
    and r: "(let rq = request_of_header bo header in
       if rq_magic rq \<noteq> NBD_REQ_MAGIC then st_fail io_err
       else if rq_typ rq = NBD_CMD_DISC then st_return True
       else st_then (handle_request img n rq) (\<lambda>_. st_return False)) s1 = (Ok b, s')"
    using assms by (auto simp: transmission_step_def st_then_Ok_iff)
  have "st_shrinks (let rq = request_of_header bo header in
       if rq_magic rq \<noteq> NBD_REQ_MAGIC then st_fail io_err
       else if rq_typ rq = NBD_CMD_DISC then st_return True
       else st_then (handle_request img n rq) (\<lambda>_. st_return False))"
    unfolding Let_def by (intro st_shrinks_if st_shrinks_intros handle_request_shrinks)
  from st_shrinksD [OF this r] show ?thesis
    using s1 by (auto simp: st_read_exact_def split: if_splits)
qed

function transmission :: "byteorder \<Rightarrow> image \<Rightarrow> nat \<Rightarrow> (unit, nbd_error) st" where
  "transmission bo img export_size s =
     (case transmission_step bo img export_size s of
        (Ok b, s') \<Rightarrow> if b then (Ok (), s') else transmission bo img export_size s'
      | (Err e, s') \<Rightarrow> (Err e, s')
      | (Panic, s') \<Rightarrow> (Panic, s'))"
  by pat_completeness auto
termination
  by (relation "measure (\<lambda>(bo, img, n, s). length (st_in s))")
    (auto dest: transmission_step_consumes [OF sym])

declare transmission.simps [simp del]

text \<open>\<open>server.rs\<close>: one connection.  The lock on the reader is left out; the log is in \<open>ServerLog\<close>.\<close>

definition serve_connection :: "byteorder \<Rightarrow> image \<Rightarrow> (unit, nbd_error) st" where
  "serve_connection bo img =
     (let export_size = img_size img in
      st_then (handshake bo export_size) (\<lambda>_. transmission bo img export_size))"

subsection \<open>The contract of an image, and what a client sees of it\<close>

definition written :: "stream \<Rightarrow> bytes \<Rightarrow> stream" where
  "written s bs = s\<lparr>st_out := st_out s @ bs, st_room := st_room s - length bs\<rparr>"

lemma st_write_all_ok: "length bs \<le> st_room s \<Longrightarrow> st_write_all bs s = (Ok (), written s bs)"
  by (simp add: st_write_all_def written_def)

lemma written_written [simp]: "written (written s a) b = written s (a @ b)"
  by (simp add: written_def)

lemma written_Nil [simp]: "written s [] = s"
  by (simp add: written_def)

lemma written_sel [simp]: "st_in (written s a) = st_in s" "st_room (written s a) = st_room s - length a"
  by (simp_all add: written_def)

lemma length_simple_reply_header [simp]: "length (simple_reply_header e h) = 16"
  by (simp add: simple_reply_header_def)

definition reply_for :: "nat \<Rightarrow> bytes \<Rightarrow> nat \<Rightarrow> nat \<Rightarrow> bytes" where
  "reply_for handle d offset len =
     (case read_request_error offset len (length d) of
        Some e \<Rightarrow> simple_reply_header e handle
      | None \<Rightarrow> simple_reply_header 0 handle @ sub_list d offset len)"

subsection \<open>What a client sends, and the replies it is owed\<close>

definition encode_request :: "request \<Rightarrow> bytes" where
  "encode_request rq =
     to_be_bytes 4 (rq_magic rq) @ to_be_bytes 2 (rq_flags rq) @ to_be_bytes 2 (rq_typ rq) @
     to_be_bytes 8 (rq_handle rq) @ to_be_bytes 8 (rq_offset rq) @ to_be_bytes 4 (rq_length rq)"

definition wf_request :: "request \<Rightarrow> bool" where
  "wf_request rq \<longleftrightarrow> rq_magic rq = NBD_REQ_MAGIC \<and> rq_flags rq < 2 ^ 16 \<and> rq_typ rq < 2 ^ 16 \<and>
     rq_handle rq < 2 ^ 64 \<and> rq_offset rq < 2 ^ 64 \<and> rq_length rq < 2 ^ 32"

text \<open>A command is a request and the payload that follows it; only a write has one.\<close>

definition wf_command :: "request \<times> bytes \<Rightarrow> bool" where
  "wf_command c \<longleftrightarrow> wf_request (fst c) \<and> rq_typ (fst c) \<noteq> NBD_CMD_DISC \<and>
     length (snd c) = (if rq_typ (fst c) = NBD_CMD_WRITE then rq_length (fst c) else 0)"

definition command_bytes :: "request \<times> bytes \<Rightarrow> bytes" where
  "command_bytes c = encode_request (fst c) @ snd c"

definition reply_bytes :: "bytes \<Rightarrow> request \<Rightarrow> bytes" where
  "reply_bytes d rq =
     (if rq_typ rq = NBD_CMD_READ then reply_for (rq_handle rq) d (rq_offset rq) (rq_length rq)
      else if rq_typ rq = NBD_CMD_FLUSH then simple_reply_header 0 (rq_handle rq)
      else if rq_typ rq = NBD_CMD_WRITE then simple_reply_header 1 (rq_handle rq)
      else simple_reply_header 38 (rq_handle rq))"

definition replies :: "bytes \<Rightarrow> (request \<times> bytes) list \<Rightarrow> bytes" where
  "replies d cmds = concat (map (\<lambda>c. reply_bytes d (fst c)) cmds)"

lemmas command_codes = NBD_CMD_READ_def NBD_CMD_WRITE_def NBD_CMD_DISC_def NBD_CMD_FLUSH_def

lemma length_encode_request [simp]: "length (encode_request rq) = 28"
  by (simp add: encode_request_def)

lemma sub_list_skip: "length a = n \<Longrightarrow> sub_list (a @ b) (n + k) m = sub_list b k m"
  by (simp add: sub_list_def)

lemma request_of_encoded:
  assumes "byteorder_ok bo" "wf_request rq"
  shows "request_of_header bo (encode_request rq) = rq"
proof -
  have get: "bo_get_be bo k (to_be_bytes k n) = n" if "n < 256 ^ k" for k n
    using byteorder_okD(2) [OF assms(1), of "to_be_bytes k n" k] that by (simp add: from_be_to_be_bytes)
  let ?h = "encode_request rq"
  have "sub_list ?h 0 4 = to_be_bytes 4 (rq_magic rq)" "sub_list ?h 4 2 = to_be_bytes 2 (rq_flags rq)"
    "sub_list ?h 6 2 = to_be_bytes 2 (rq_typ rq)" "sub_list ?h 8 8 = to_be_bytes 8 (rq_handle rq)"
    "sub_list ?h 16 8 = to_be_bytes 8 (rq_offset rq)" "sub_list ?h 24 4 = to_be_bytes 4 (rq_length rq)"
    by (simp_all add: encode_request_def sub_list_def)
  then show ?thesis
    using assms(2) by (simp add: request_of_header_def get wf_request_def NBD_REQ_MAGIC_def)
qed

lemma drain_takes:
  "st_in s = payload @ rest \<Longrightarrow> drain (length payload) s = (Ok (), s\<lparr>st_in := rest\<rparr>)"
proof (induction "length payload" arbitrary: s payload rule: less_induct)
  case less
  show ?case
  proof (cases "payload = []")
    case True
    then show ?thesis using less.prems by (simp add: drain.simps)
  next
    case False
    let ?w = "min (length payload) READ_BUF_SIZE"
    have w: "0 < ?w" using False by (simp add: READ_BUF_SIZE_def)
    have rd: "st_read_exact ?w s = (Ok (take ?w payload), s\<lparr>st_in := drop ?w payload @ rest\<rparr>)"
      using less.prems by (simp add: st_read_exact_def)
    have "drain (length (drop ?w payload)) (s\<lparr>st_in := drop ?w payload @ rest\<rparr>) = (Ok (), s\<lparr>st_in := rest\<rparr>)"
      using less.hyps [of "drop ?w payload" "s\<lparr>st_in := drop ?w payload @ rest\<rparr>"] False w by simp
    moreover have "drain (length payload) s =
        drain (length payload - ?w) (s\<lparr>st_in := drop ?w payload @ rest\<rparr>)"
      using rd False by (subst drain.simps) (simp add: Let_def)
    ultimately show ?thesis by (metis length_drop)
  qed
qed

locale nbd_image =
  fixes adapter :: "'i \<Rightarrow> image"
    and holds :: "'i \<Rightarrow> bytes \<Rightarrow> bool"
  assumes holds_size: "holds i d \<Longrightarrow> img_size (adapter i) = length d \<and> length d < u64_lim"
    and holds_read: "holds i d \<Longrightarrow> off + n \<le> length d \<Longrightarrow> 0 < n \<Longrightarrow>
      img_read (adapter i) off n = Ok (sub_list d off n)"
begin

lemma serve_loop_writes:
  assumes h: "holds i d" and "pos + n \<le> length d"
    and "(if replied \<or> n = 0 then 0 else 16) + n \<le> st_room s"
  shows "serve_read_loop (adapter i) handle n pos replied s =
    (Ok (), written s ((if replied \<or> n = 0 then [] else simple_reply_header 0 handle) @ sub_list d pos n))"
  using assms(2,3)
proof (induction n arbitrary: pos replied s rule: less_induct)
  case (less n)
  show ?case
  proof (cases "n = 0")
    case True
    then show ?thesis by (subst serve_read_loop.simps) simp
  next
    case False
    let ?w = "min n READ_BUF_SIZE" and ?hd = "if replied then [] else simple_reply_header 0 handle"
    have w: "0 < ?w" using False by (simp add: READ_BUF_SIZE_def)
    have rd: "img_read (adapter i) pos ?w = Ok (sub_list d pos ?w)"
      using holds_read [OF h, of pos ?w] less.prems(1) w by simp
    have len: "length (sub_list d pos ?w) = ?w" using less.prems(1) by simp
    have ne: "sub_list d pos ?w \<noteq> []" using len w by (metis length_greater_0_conv)
    have send: "send_chunk replied handle (sub_list d pos ?w) s = (Ok (), written s (?hd @ sub_list d pos ?w))"
      using less.prems(2) False len
      by (auto simp: send_chunk_def st_then_def st_return_def write_simple_reply_def st_write_all_ok)
    have lim: "length d < u64_lim" using holds_size [OF h] by simp
    have "serve_read_loop (adapter i) handle n pos replied s =
        serve_read_loop (adapter i) handle (n - ?w) (pos + ?w) True (written s (?hd @ sub_list d pos ?w))"
      using False rd ne send len less.prems(1) lim
      by (subst serve_read_loop.simps) simp
    also have "\<dots> = (Ok (), written s (?hd @ sub_list d pos ?w @ sub_list d (pos + ?w) (n - ?w)))"
    proof -
      let ?s = "written s (?hd @ sub_list d pos ?w)"
      have "n - ?w < n" "pos + ?w + (n - ?w) \<le> length d" using less.prems(1) False w by auto
      moreover have "n - ?w \<le> st_room ?s" using less.prems(2) False len by auto
      ultimately show ?thesis using less.IH [of "n - ?w" "pos + ?w" True ?s] by simp
    qed
    finally show ?thesis using False by (simp add: sub_list_append)
  qed
qed

lemma serve_read_answers:
  assumes h: "holds i d" and "length (reply_for handle d offset len) \<le> st_room s"
  shows "serve_read (adapter i) (img_size (adapter i)) offset len handle s =
    (Ok (), written s (reply_for handle d offset len))"
proof -
  have sz: "img_size (adapter i) = length d" using holds_size [OF h] by simp
  show ?thesis
  proof (cases "read_request_error offset len (length d)")
    case None
    then have le: "offset + len \<le> length d"
      by (auto simp: read_request_error_def split: if_splits)
    show ?thesis
      using None assms(2) sz le serve_loop_writes [OF h le, of False s handle]
      by (auto simp: serve_read_def reply_for_def write_simple_reply_def st_write_all_ok)
  next
    case (Some e)
    then show ?thesis
      using assms(2) sz by (simp add: serve_read_def reply_for_def write_simple_reply_def st_write_all_ok)
  qed
qed

lemma handle_request_answers:
  assumes h: "holds i d" and wf: "wf_command (rq, payload)" and inp: "st_in s = payload @ rest"
    and room: "length (reply_bytes d rq) \<le> st_room s"
  shows "handle_request (adapter i) (img_size (adapter i)) rq s =
    (Ok (), written (s\<lparr>st_in := rest\<rparr>) (reply_bytes d rq))"
proof (cases "rq_typ rq = NBD_CMD_WRITE")
  case True
  then have "length payload = rq_length rq" using wf by (simp add: wf_command_def)
  then have "drain (rq_length rq) s = (Ok (), s\<lparr>st_in := rest\<rparr>)" using drain_takes [of s payload rest] inp by simp
  then show ?thesis
    using True room
    by (simp add: handle_request_def reply_bytes_def command_codes st_then_def write_simple_reply_def st_write_all_ok)
next
  case False
  then have "s\<lparr>st_in := rest\<rparr> = s" using wf inp by (simp add: wf_command_def)
  then show ?thesis
    using False room serve_read_answers [OF h, of "rq_handle rq" "rq_offset rq" "rq_length rq" s]
    by (auto simp: handle_request_def reply_bytes_def command_codes write_simple_reply_def st_write_all_ok)
qed

lemma step_answers:
  assumes bo: "byteorder_ok bo" and h: "holds i d" and wf: "wf_command (rq, payload)"
    and inp: "st_in s = encode_request rq @ payload @ rest"
    and room: "length (reply_bytes d rq) \<le> st_room s"
  shows "transmission_step bo (adapter i) (img_size (adapter i)) s =
    (Ok False, written (s\<lparr>st_in := rest\<rparr>) (reply_bytes d rq))"
proof -
  let ?s = "s\<lparr>st_in := payload @ rest\<rparr>"
  have rd: "st_read_exact 28 s = (Ok (encode_request rq), ?s)"
    using inp by (simp add: st_read_exact_def)
  have "handle_request (adapter i) (img_size (adapter i)) rq ?s =
      (Ok (), written (s\<lparr>st_in := rest\<rparr>) (reply_bytes d rq))"
    using handle_request_answers [OF h wf, of ?s rest] room by simp
  moreover have "request_of_header bo (encode_request rq) = rq"
    "rq_magic rq = NBD_REQ_MAGIC" "rq_typ rq \<noteq> NBD_CMD_DISC"
    using wf request_of_encoded [OF bo] by (simp_all add: wf_command_def wf_request_def)
  ultimately show ?thesis
    using rd by (simp add: transmission_step_def st_then_def st_return_def)
qed

lemma session_answers:
  assumes bo: "byteorder_ok bo" and h: "holds i d"
    and disc: "wf_request disc" "rq_typ disc = NBD_CMD_DISC"
    and "list_all wf_command cmds"
    and "st_in s = concat (map command_bytes cmds) @ encode_request disc @ rest"
    and "length (replies d cmds) \<le> st_room s"
  shows "transmission bo (adapter i) (img_size (adapter i)) s =
    (Ok (), written (s\<lparr>st_in := rest\<rparr>) (replies d cmds))"
  using assms(5-)
proof (induction cmds arbitrary: s)
  case Nil
  then have "transmission_step bo (adapter i) (img_size (adapter i)) s = (Ok True, s\<lparr>st_in := rest\<rparr>)"
    using disc request_of_encoded [OF bo disc(1)]
    by (simp add: transmission_step_def st_then_def st_read_exact_def st_return_def wf_request_def)
  then show ?case by (subst transmission.simps) (simp add: replies_def)
next
  case (Cons c cmds)
  obtain rq payload where c: "c = (rq, payload)" by force
  let ?more = "concat (map command_bytes cmds) @ encode_request disc @ rest"
  let ?s = "written (s\<lparr>st_in := ?more\<rparr>) (reply_bytes d rq)"
  have "transmission_step bo (adapter i) (img_size (adapter i)) s = (Ok False, ?s)"
    using step_answers [OF bo h, of rq payload s ?more] Cons.prems c
    by (simp add: command_bytes_def [of "(rq, payload)"] replies_def)
  then have "transmission bo (adapter i) (img_size (adapter i)) s =
      transmission bo (adapter i) (img_size (adapter i)) ?s"
    by (subst transmission.simps) simp
  also have "\<dots> = (Ok (), written (?s\<lparr>st_in := rest\<rparr>) (replies d cmds))"
    using Cons.IH [of ?s] Cons.prems c by (simp add: replies_def)
  finally show ?case using c by (simp add: written_def replies_def)
qed

end

subsection \<open>Framing of read replies\<close>

text \<open>Whatever the image answers, a read that keeps the session open has sent either one error header
  or one success header and exactly as many bytes as were asked for.\<close>

definition framed_reply :: "nat \<Rightarrow> nat \<Rightarrow> bytes \<Rightarrow> bool" where
  "framed_reply handle len out \<longleftrightarrow>
     (\<exists>e > 0. out = simple_reply_header e handle) \<or>
     (\<exists>payload. length payload = len \<and> out = simple_reply_header 0 handle @ payload)"

lemma os_code_pos: "0 < os_code cs"
  by (induction cs rule: os_code.induct) auto

lemma st_write_all_Ok: "st_write_all bs s = (Ok u, s') \<longleftrightarrow> length bs \<le> st_room s \<and> s' = written s bs"
  by (auto simp: st_write_all_def written_def)

lemma send_error_Ok:
  "send_error replied h err s = (Ok u, s') \<Longrightarrow>
   \<not> replied \<and> (\<exists>e > 0. s' = written s (simple_reply_header e h))"
  using os_code_pos
  by (auto simp: send_error_def st_fail_def write_simple_error_def write_simple_reply_def
      st_write_all_Ok split: if_splits)

lemma send_chunk_Ok:
  "send_chunk replied h bs s = (Ok u, s') \<Longrightarrow>
   s' = written s ((if replied then [] else simple_reply_header 0 h) @ bs)"
  by (auto simp: send_chunk_def st_then_Ok_iff st_return_def write_simple_reply_def st_write_all_Ok
      split: if_splits)

lemma serve_read_loop_other:
  assumes "\<nexists>bs s1. img_read img pos (min n READ_BUF_SIZE) = Ok bs \<and> bs \<noteq> [] \<and>
      length bs \<le> min n READ_BUF_SIZE \<and> send_chunk replied h bs s = (Ok (), s1) \<and>
      serve_read_loop img h (n - length bs) (u64_add pos (length bs)) True s1 = (Ok u, s')"
    and loop: "serve_read_loop img h n pos replied s = (Ok u, s')" and n: "n \<noteq> 0"
  shows "\<exists>err. send_error replied h err s = (Ok u, s')"
proof (cases "img_read img pos (min n READ_BUF_SIZE)")
  case (Ok bs)
  show ?thesis
  proof (cases "bs = []")
    case True
    then show ?thesis using loop n Ok by (subst (asm) serve_read_loop.simps) auto
  next
    case False
    then show ?thesis
      using assms(1) loop n Ok
      by (subst (asm) serve_read_loop.simps) (auto split: result.splits prod.splits if_splits)
  qed
next
  case (Err cs)
  then show ?thesis using loop n by (subst (asm) serve_read_loop.simps) auto
next
  case Panic
  then show ?thesis using loop n by (subst (asm) serve_read_loop.simps) auto
qed

lemma serve_read_loop_framed:
  assumes "serve_read_loop img h n pos replied s = (Ok u, s')" "0 < n \<or> replied"
  shows "\<exists>out. s' = written s out \<and> (if replied then length out = n else framed_reply h n out)"
  using assms
proof (induction img h n pos replied s rule: serve_read_loop.induct)
  case (1 img h n pos replied s)
  show ?case
  proof (cases "n = 0")
    case True
    then show ?thesis
      using "1.prems" by (auto simp: serve_read_loop.simps [of _ _ 0] intro: exI [of _ "[]"])
  next
    case n: False
    show ?thesis
    proof (cases "\<exists>bs s1. img_read img pos (min n READ_BUF_SIZE) = Ok bs \<and> bs \<noteq> [] \<and>
        length bs \<le> min n READ_BUF_SIZE \<and> send_chunk replied h bs s = (Ok (), s1) \<and>
        serve_read_loop img h (n - length bs) (u64_add pos (length bs)) True s1 = (Ok u, s')")
      case True
      then obtain bs s1 where bs: "img_read img pos (min n READ_BUF_SIZE) = Ok bs" "bs \<noteq> []"
        "length bs \<le> min n READ_BUF_SIZE" "send_chunk replied h bs s = (Ok (), s1)"
        "serve_read_loop img h (n - length bs) (u64_add pos (length bs)) True s1 = (Ok u, s')" by blast
      then obtain out where out: "s' = written s1 out" "length out = n - length bs"
        using "1.IH" [of bs _ s1] n bs by auto
      have "s' = written s ((if replied then [] else simple_reply_header 0 h) @ bs @ out)"
        using send_chunk_Ok [OF bs(4)] out by simp
      moreover have "length (bs @ out) = n" using out bs(3) by simp
      ultimately show ?thesis
        unfolding framed_reply_def by (intro exI [of _ "(if replied then [] else simple_reply_header 0 h) @ bs @ out"]) auto
    next
      case False
      from serve_read_loop_other [OF this "1.prems"(1) n]
      obtain err where "send_error replied h err s = (Ok u, s')" by blast
      from send_error_Ok [OF this] obtain e where "\<not> replied" "0 < e"
        "s' = written s (simple_reply_header e h)" by blast
      then show ?thesis unfolding framed_reply_def by auto
    qed
  qed
qed

text \<open>C20: a read request that leaves the session open, whatever the image reader answers (short reads,
  errors, end of data), has sent either exactly one error header or exactly one success header followed
  by exactly the requested number of bytes: a second header never follows payload, so the client's
  framing stays in step.\<close>

theorem serve_read_framed:
  assumes "serve_read img export_size offset len handle s = (Ok u, s')"
  shows "\<exists>out. s' = written s out \<and> framed_reply handle len out"
proof (cases "read_request_error offset len export_size")
  case None
  show ?thesis
  proof (cases "len = 0")
    case True
    then show ?thesis
      using assms None
      by (auto simp: serve_read_def write_simple_reply_def st_write_all_Ok framed_reply_def)
  next
    case False
    then show ?thesis
      using assms None serve_read_loop_framed [of img handle len offset False s u s']
      by (simp add: serve_read_def)
  qed
next
  case (Some e)
  then have "0 < e" by (auto simp: read_request_error_def split: if_splits)
  then show ?thesis
    using assms Some by (auto simp: serve_read_def write_simple_reply_def st_write_all_Ok framed_reply_def)
qed

text \<open>An image whose bytes past offset 8 cannot be read.\<close>

definition failing_image :: image where
  "failing_image = \<lparr>img_size = 10,
     img_read = (\<lambda>off n. if off < 8 then Ok (replicate (min n (8 - off)) 7) else Err [None, Some 13])\<rparr>"

definition fresh_stream :: "bytes \<Rightarrow> stream" where
  "fresh_stream inp = \<lparr>st_in = inp, st_out = [], st_room = 1000\<rparr>"

lemma failing_image_serves:
  "serve_read failing_image 10 8 2 5 (fresh_stream []) =
     (Ok (), written (fresh_stream []) (simple_reply_header 13 5))"
  by code_simp

theorem serve_read_framed_witness:
  "serve_read failing_image 10 8 2 5 (fresh_stream []) =
     (Ok (), written (fresh_stream []) (simple_reply_header 13 5)) \<and>
   (\<exists>out. written (fresh_stream []) (simple_reply_header 13 5) = written (fresh_stream []) out \<and>
      framed_reply 5 2 out)"
  using serve_read_framed [OF failing_image_serves] failing_image_serves by blast

end
