(* ===== verification/Rawdisk.thy ===== *)
theory Rawdisk
  imports Sources RustStr
begin

text \<open>
  The reader of raw images, \<open>rawdisk/src\<close>: \<open>spans.rs\<close> (which segment holds an offset), \<open>seg_path.rs\<close>
  (the segments of a split image) and \<open>rawdisk_reader.rs\<close> (open and read).

  A checker that finds every name would make the upward walk endless, so \<open>walk_up\<close> is a
  \<^theory_text>\<open>partial_function\<close>; \<open>None\<close> is a walk that does not end.  Opening takes the parameters of
  \<open>raw_sys\<close> for \<open>path_or_url_to_url\<close>, \<open>Url::parse\<close>, the checker and \<open>source_for_url\<close>.

  Shown: an offset is located in the one segment that holds it; a successful discovery is the whole
  run of consecutive names around the named one with no hole behind it, or the named file alone where
  no other belongs to it, and a segment is reported missing only where it is; a read of the image is
  a slice of the concatenated segments.
\<close>

subsection \<open>The segment map\<close>

record segment_map =
  sgm_starts :: "nat list"
  sgm_lengths :: "nat list"
  sgm_image_size :: nat

fun segment_starts :: "nat \<Rightarrow> nat list \<Rightarrow> nat list \<times> nat" where
  "segment_starts acc [] = ([], acc)"
| "segment_starts acc (l # ls) =
     (let (starts, fin) = segment_starts (saturating_add acc l) ls in (acc # starts, fin))"

definition segment_map_new :: "nat list \<Rightarrow> segment_map" where
  "segment_map_new lengths =
     (let (starts, image_size) = segment_starts 0 lengths in
      \<lparr>sgm_starts = starts, sgm_lengths = lengths, sgm_image_size = image_size\<rparr>)"

definition locate :: "segment_map \<Rightarrow> nat \<Rightarrow> ((nat \<times> nat \<times> nat) option, 'e) result" where
  "locate m offset =
     (if sgm_image_size m \<le> offset then Ok None
      else
        let i = (case binary_search (sgm_starts m) offset of
                   Found i \<Rightarrow> i | Insert i \<Rightarrow> u64_sub i 1)
        in and_then (index (sgm_starts m) i) (\<lambda>start.
           let within = u64_sub offset start in
           and_then (index (sgm_lengths m) i) (\<lambda>len.
           Ok (Some (i, within, u64_sub len within)))))"

subsection \<open>Segment names\<close>

datatype discovery_err = Missing string | UndeterminedSegment exists_error

definition MIN_SEGMENT_DIGITS :: nat where "MIN_SEGMENT_DIGITS = 2"

definition split_numeric_suffix :: "string \<Rightarrow> (string \<times> nat \<times> nat) option" where
  "split_numeric_suffix path =
     Option.bind (rsplit_once (CHR ''.'') path) (\<lambda>(stem, suffix).
       if length suffix < MIN_SEGMENT_DIGITS \<or> \<not> list_all is_ascii_digit suffix then None
       else Option.bind (parse_u64 suffix) (\<lambda>n. Some (stem, n, length suffix)))"

definition is_zero_padded :: "nat \<Rightarrow> nat \<Rightarrow> bool" where
  "is_zero_padded num width =
     (if 10 ^ (width - 1) < u64_lim then num < 10 ^ (width - 1) else True)"

definition candidate :: "string \<Rightarrow> nat \<Rightarrow> nat \<Rightarrow> string" where
  "candidate stem n width = stem @ ''.'' @ pad_decimal width n"

definition has_numeric_suffix :: "string \<Rightarrow> bool" where
  "has_numeric_suffix path \<longleftrightarrow> split_numeric_suffix path \<noteq> None"

definition probe :: "checker \<Rightarrow> string \<Rightarrow> (bool, discovery_err) result" where
  "probe chk p = map_err UndeterminedSegment (chk p)"

text \<open>Down to the lowest segment present.\<close>

fun walk_down :: "checker \<Rightarrow> string \<Rightarrow> nat \<Rightarrow> nat \<Rightarrow> (nat, discovery_err) result" where
  "walk_down chk stem width 0 = Ok 0"
| "walk_down chk stem width (Suc n) =
     and_then (probe chk (candidate stem n width)) (\<lambda>there.
       if there then walk_down chk stem width n else Ok (Suc n))"

partial_function (option) walk_up ::
    "checker \<Rightarrow> string \<Rightarrow> nat \<Rightarrow> nat \<Rightarrow> string list \<Rightarrow> (nat \<times> string list, discovery_err) result option"
where
  "walk_up chk stem width n paths =
     (case probe chk (candidate stem n width) of
        Ok there \<Rightarrow>
          if there then walk_up chk stem width (u64_add n 1) (paths @ [candidate stem n width])
          else Some (Ok (n, paths))
      | Err e \<Rightarrow> Some (Err e)
      | Panic \<Rightarrow> Some Panic)"

declare walk_up.simps [code]

definition no_padded_start ::
    "checker \<Rightarrow> string \<Rightarrow> string \<Rightarrow> nat \<Rightarrow> nat \<Rightarrow> (string list, discovery_err) result" where
  "no_padded_start chk example stem num width =
     (if \<not> is_zero_padded num width then Ok [example]
      else
        and_then (if num > 0 then probe chk (candidate stem (num - 1) width) else Ok False) (\<lambda>below.
        and_then
          (case checked_add num 1 of
             Some nxt \<Rightarrow> probe chk (candidate stem nxt width)
           | None \<Rightarrow> Ok False) (\<lambda>above.
        if below \<or> above then
          and_then (walk_down chk stem width num) (\<lambda>lowest.
          Err (Missing (candidate stem (lowest - 1) width)))
        else Ok [example])))"

definition run_from ::
    "checker \<Rightarrow> string \<Rightarrow> nat \<Rightarrow> nat \<Rightarrow> nat \<Rightarrow> (string list, discovery_err) result option" where
  "run_from chk stem num width first =
     map_option (\<lambda>r. and_then r (\<lambda>(n, paths).
       if num < first then Err (Missing (candidate stem num width))
       else if n \<le> num then Err (Missing (candidate stem n width))
       else
         and_then (probe chk (candidate stem (u64_add n 1) width)) (\<lambda>past.
         if past then Err (Missing (candidate stem n width)) else Ok paths)))
     (walk_up chk stem width first [])"

definition segment_paths :: "string \<Rightarrow> checker \<Rightarrow> (string list, discovery_err) result option" where
  "segment_paths example chk =
     (case split_numeric_suffix example of
        None \<Rightarrow> Some (Ok [example])
      | Some (stem, num, width) \<Rightarrow>
          (case probe chk (candidate stem 0 width) of
             Err e \<Rightarrow> Some (Err e)
           | Panic \<Rightarrow> Some Panic
           | Ok True \<Rightarrow> run_from chk stem num width 0
           | Ok False \<Rightarrow>
               (case probe chk (candidate stem 1 width) of
                  Err e \<Rightarrow> Some (Err e)
                | Panic \<Rightarrow> Some Panic
                | Ok True \<Rightarrow> run_from chk stem num width 1
                | Ok False \<Rightarrow> Some (no_padded_start chk example stem num width))))"

subsection \<open>Open and read\<close>

datatype raw_read_error = RawOffsetBeyondEnd nat nat | RawIoError io_error

record rawdisk_reader =
  rr_image_size :: nat
  rr_segments :: segment_map
  rr_slots :: source_slots

record raw_sys =
  rs_path_to_url :: "string \<Rightarrow> string option"
  rs_relative :: "string \<Rightarrow> bool"
  rs_discovery_path :: "string \<Rightarrow> string"
  rs_checker :: "string \<Rightarrow> (checker, source_open_error) result"
  rs_source_for_url :: "string \<Rightarrow> (bytes_source, source_open_error) result"

definition discovery_error :: "discovery_err \<Rightarrow> source_open_error" where
  "discovery_error e =
     (case e of
        Missing p \<Rightarrow> (p, SrcIoError NotFound)
      | UndeterminedSegment x \<Rightarrow> (ee_path x, SrcIoError (ee_source x)))"

definition open_target_error :: "raw_sys \<Rightarrow> string \<Rightarrow> source_open_error" where
  "open_target_error sys path =
     (if rs_relative sys path then (path, SrcIoError NotFound) else ([], SrcBadPath path))"

fun open_segments ::
    "raw_sys \<Rightarrow> bool \<Rightarrow> string list \<Rightarrow> nat \<Rightarrow> nat list \<Rightarrow> source_slots
      \<Rightarrow> (nat list \<times> source_slots, source_open_error) result" where
  "open_segments sys many [] idx lengths slots = Ok (lengths, slots)"
| "open_segments sys many (path # paths) idx lengths slots =
     and_then (ok_or ([], SrcBadPath path) (rs_path_to_url sys path)) (\<lambda>seg_url.
     and_then (rs_source_for_url sys seg_url) (\<lambda>src.
     if many \<and> src_end src = 0 then Err (path, SrcIoError InvalidData)
     else open_segments sys many paths (idx + 1) (lengths @ [src_end src]) (slots_set slots idx src)))"

definition raw_segment_list ::
    "raw_sys \<Rightarrow> string \<Rightarrow> string \<Rightarrow> (string list, source_open_error) result option" where
  "raw_segment_list sys image_path url =
     (let discovery_path = rs_discovery_path sys image_path in
      if has_numeric_suffix discovery_path then
        (case rs_checker sys url of
           Ok chk \<Rightarrow> map_option (map_err discovery_error) (segment_paths discovery_path chk)
         | Err e \<Rightarrow> Some (Err e)
         | Panic \<Rightarrow> Some Panic)
      else Some (Ok [image_path]))"

definition rawdisk_open :: "raw_sys \<Rightarrow> string \<Rightarrow> (rawdisk_reader, source_open_error) result option" where
  "rawdisk_open sys image_path =
     (case rs_path_to_url sys image_path of
        None \<Rightarrow> Some (Err (open_target_error sys image_path))
      | Some url \<Rightarrow>
          map_option (\<lambda>r.
            and_then r (\<lambda>paths.
            and_then (open_segments sys (length paths > 1) paths 0 [] []) (\<lambda>(lengths, slots).
            let segments = segment_map_new lengths
            in Ok \<lparr>rr_image_size = sgm_image_size segments, rr_segments = segments,
                   rr_slots = slots\<rparr>)))
          (raw_segment_list sys image_path url))"

definition take_bytes :: "nat \<Rightarrow> nat \<Rightarrow> nat" where
  "take_bytes remaining segment_left = min remaining segment_left"

function raw_read_loop ::
    "cache \<Rightarrow> rawdisk_reader \<Rightarrow> nat \<Rightarrow> nat \<Rightarrow> nat \<Rightarrow> bytes \<Rightarrow> (bytes, raw_read_error) result" where
  "raw_read_loop c rd offset tot dn buf =
     (if dn < tot then
        let want = u64_add offset dn in
        and_then (locate (rr_segments rd) want) (\<lambda>loc.
        and_then (ok_or (RawOffsetBeyondEnd want (rr_image_size rd)) loc) (\<lambda>p.
        let take = take_bytes (tot - dn) (snd (snd p)) in
        if take = 0 then Err (RawIoError Other)
        else
          and_then (map_err RawIoError (cache_read c (fst p) (fst (snd p)) take)) (\<lambda>bs.
          raw_read_loop c rd offset tot (dn + take) (buf @ bs))))
      else Ok buf)"
  by pat_completeness auto
termination
  by (relation "measure (\<lambda>(c, rd, offset, tot, dn, buf). tot - dn)") auto

declare raw_read_loop.simps [simp del]

definition raw_read_at_offset ::
    "cache \<Rightarrow> rawdisk_reader \<Rightarrow> nat \<Rightarrow> nat \<Rightarrow> (bytes, raw_read_error) result" where
  "raw_read_at_offset c rd offset buflen =
     (if offset > rr_image_size rd then Err (RawOffsetBeyondEnd offset (rr_image_size rd))
      else
        let tot = (if u64_add offset buflen > rr_image_size rd
                   then rr_image_size rd - offset else buflen)
        in if tot = 0 then Ok [] else raw_read_loop c rd offset tot 0 [])"

subsection \<open>Locating an offset\<close>

abbreviation seg_start :: "nat list \<Rightarrow> nat \<Rightarrow> nat" where
  "seg_start ls i \<equiv> sum_list (take i ls)"

lemma segment_starts_sums:
  assumes "acc + sum_list ls < u64_lim"
  shows "segment_starts acc ls = (map (\<lambda>i. acc + seg_start ls i) [0 ..< length ls], acc + sum_list ls)"
  using assms
proof (induction ls arbitrary: acc)
  case (Cons l ls)
  have "saturating_add acc l = acc + l" using Cons.prems by (simp add: saturating_add_def)
  then show ?case
    using Cons by (simp add: upt_conv_Cons map_Suc_upt [symmetric] comp_def add.assoc del: upt_Suc)
qed simp

lemma segment_map_new_eq:
  assumes "sum_list ls < u64_lim"
  shows "segment_map_new ls = \<lparr>sgm_starts = map (seg_start ls) [0 ..< length ls], sgm_lengths = ls,
    sgm_image_size = sum_list ls\<rparr>"
  using segment_starts_sums [of 0 ls] assms by (simp add: segment_map_new_def)

lemma seg_start_Suc: "i < length ls \<Longrightarrow> seg_start ls (Suc i) = seg_start ls i + ls ! i"
  by (simp add: take_Suc_conv_app_nth)

lemma seg_start_mono: "i \<le> j \<Longrightarrow> seg_start ls i \<le> seg_start ls (j :: nat)"
  by (metis le_Suc_ex take_add sum_list_append le_add1)

lemma seg_of_offset:
  "off < sum_list ls \<Longrightarrow> \<exists>i < length ls. seg_start ls i \<le> off \<and> off < seg_start ls (Suc i)"
proof (induction ls arbitrary: off)
  case (Cons l ls)
  show ?case
  proof (cases "off < l")
    case False
    then have "off - l < sum_list ls" using Cons.prems by auto
    then obtain i where "i < length ls" "seg_start ls i \<le> off - l" "off - l < seg_start ls (Suc i)"
      using Cons.IH by blast
    then show ?thesis using False by (intro exI [of _ "Suc i"]) auto
  qed auto
qed simp

lemma locate_eq:
  assumes lim: "sum_list ls < u64_lim" "length ls < u64_lim" and pos: "\<forall>l \<in> set ls. 0 < l"
    and i: "i < length ls" "seg_start ls i \<le> off" "off < seg_start ls (Suc i)"
  shows "locate (segment_map_new ls) off =
    Ok (Some (i, off - seg_start ls i, seg_start ls (Suc i) - off))"
proof -
  let ?ks = "map (seg_start ls) [0 ..< length ls]"
  have tot: "off < sum_list ls" using i(3) seg_start_mono [of "Suc i" "length ls" ls] i(1) by simp
  have lt: "seg_start ls j < seg_start ls i" if "j < i" for j
  proof -
    have "0 < ls ! j" using pos that i(1) by simp
    then have "seg_start ls j < seg_start ls (Suc j)" using seg_start_Suc [of j ls] that i(1) by simp
    also have "\<dots> \<le> seg_start ls i" using that by (intro seg_start_mono) simp
    finally show ?thesis .
  qed
  have "binary_search ?ks off = (if ?ks ! i = off then Found i else Insert (Suc i))"
    using i lt by (intro binary_search_at) (fastforce simp: nth_append)+
  then show ?thesis
    using i tot segment_map_new_eq [OF lim(1)] seg_start_Suc [OF i(1)]
    by (auto simp: locate_def Let_def index_def)
qed

subsection \<open>Reading is slicing the concatenation\<close>

definition segments_ok :: "cache \<Rightarrow> bytes list \<Rightarrow> rawdisk_reader \<Rightarrow> bool" where
  "segments_ok c ds rd \<longleftrightarrow>
     rr_segments rd = segment_map_new (map length ds) \<and> rr_image_size rd = length (concat ds) \<and>
     length (concat ds) < u64_lim \<and> length ds < u64_lim \<and>
     (length ds \<le> 1 \<or> (\<forall>d \<in> set ds. d \<noteq> [])) \<and>
     (\<forall>i < length ds. serves c i (ds ! i))"

lemma sub_list_concat:
  assumes "i < length ds" "seg_start (map length ds) i \<le> off"
    "off + k \<le> seg_start (map length ds) (Suc i)"
  shows "sub_list (concat ds) off k = sub_list (ds ! i) (off - seg_start (map length ds) i) k"
proof -
  have s: "seg_start (map length ds) i = length (concat (take i ds))"
    by (simp add: length_concat take_map)
  have e: "concat ds = concat (take i ds) @ ds ! i @ concat (drop (Suc i) ds)"
    by (metis append_assoc assms(1) concat.simps(2) concat_append id_take_nth_drop)
  have "off + k \<le> length (concat (take i ds)) + length (ds ! i)"
    using assms(3) seg_start_Suc [of i "map length ds"] assms(1) s by simp
  then show ?thesis unfolding sub_list_def s by (subst e) (use assms(2) s in simp)
qed

lemma raw_read_loop_slices:
  assumes ok: "segments_ok c ds rd" and t: "offset + tot \<le> length (concat ds)"
    and d: "dn \<le> tot" "buf = sub_list (concat ds) offset dn"
  shows "raw_read_loop c rd offset tot dn buf = Ok (sub_list (concat ds) offset tot)"
  using d
proof (induction "tot - dn" arbitrary: dn buf rule: less_induct)
  case less
  show ?case
  proof (cases "dn < tot")
    case True
    let ?ls = "map length ds" and ?w = "offset + dn"
    have sum: "sum_list ?ls = length (concat ds)" by (simp add: length_concat)
    have lim: "length (concat ds) < u64_lim" "length ds < u64_lim" using ok by (auto simp: segments_ok_def)
    obtain i where i: "i < length ?ls" "seg_start ?ls i \<le> ?w" "?w < seg_start ?ls (Suc i)"
      using seg_of_offset [of ?w ?ls] True t sum by auto
    have pos: "\<forall>l \<in> set ?ls. 0 < l"
    proof (cases "length ds \<le> 1")
      case True
      then obtain x where "ds = [x]" using i(1) by (cases ds) auto
      then show ?thesis using i by auto
    next
      case False
      then show ?thesis using ok by (auto simp: segments_ok_def)
    qed
    have loc: "(locate (rr_segments rd) ?w :: (_, raw_read_error) result) =
        Ok (Some (i, ?w - seg_start ?ls i, seg_start ?ls (Suc i) - ?w))"
      using locate_eq [of ?ls i ?w] lim pos i ok sum by (simp add: segments_ok_def)
    define m where "m = min (tot - dn) (seg_start ?ls (Suc i) - ?w)"
    have m: "0 < m" "m \<le> tot - dn" "?w + m \<le> seg_start ?ls (Suc i)" using True i(3) by (auto simp: m_def)
    have "serves c i (ds ! i)" using ok i(1) by (simp add: segments_ok_def)
    moreover have "?w - seg_start ?ls i + m \<le> length (ds ! i)"
      using m(3) i seg_start_Suc [of i ?ls] by simp
    ultimately have rd: "cache_read c i (?w - seg_start ?ls i) m = Ok (sub_list (concat ds) ?w m)"
      using servesD(3) sub_list_concat [of i ds ?w m] i m(3) by simp
    have "raw_read_loop c rd offset tot dn buf =
        raw_read_loop c rd offset tot (dn + m) (buf @ sub_list (concat ds) ?w m)"
      using True loc rd m(1) t lim
      by (subst raw_read_loop.simps) (simp add: Let_def take_bytes_def m_def [symmetric])
    also have "\<dots> = Ok (sub_list (concat ds) offset tot)"
      using less.hyps [of "dn + m" "buf @ sub_list (concat ds) ?w m"] less.prems m True
      by (simp add: sub_list_append)
    finally show ?thesis .
  next
    case False
    then show ?thesis using less.prems by (subst raw_read_loop.simps) simp
  qed
qed

lemma raw_read_slices:
  assumes ok: "segments_ok c ds rd" and "offset \<le> rr_image_size rd" "offset + buflen < u64_lim"
  shows "raw_read_at_offset c rd offset buflen =
    Ok (sub_list (concat ds) offset (min buflen (rr_image_size rd - offset)))"
proof -
  have sz: "rr_image_size rd = length (concat ds)" using ok by (simp add: segments_ok_def)
  let ?t = "min buflen (rr_image_size rd - offset)"
  have t: "(if u64_add offset buflen > rr_image_size rd then rr_image_size rd - offset else buflen) = ?t"
    using assms(2,3) by auto
  have "raw_read_loop c rd offset ?t 0 [] = Ok (sub_list (concat ds) offset ?t)"
    using assms(2) sz by (intro raw_read_loop_slices [OF ok]) auto
  then show ?thesis
    unfolding raw_read_at_offset_def t Let_def using assms(2) by simp
qed

text \<open>
  C17: Reading a raw image is slicing the concatenation of its segments: every read at an offset up to the image size
  gives the bytes of the concatenation from there on, as many as asked for or as there are, across
  however many segment boundaries; beyond the end it is an error.
\<close>

theorem raw_read_exact:
  assumes "segments_ok c ds rd" "offset + buflen < u64_lim"
  shows "raw_read_at_offset c rd offset buflen =
    (if offset \<le> length (concat ds) then Ok (take buflen (drop offset (concat ds)))
     else Err (RawOffsetBeyondEnd offset (length (concat ds))))"
proof -
  have sz: "rr_image_size rd = length (concat ds)" using assms(1) by (simp add: segments_ok_def)
  have "sub_list (concat ds) offset (min buflen (length (concat ds) - offset)) =
      take buflen (drop offset (concat ds))"
    by (simp add: sub_list_def min_def)
  then show ?thesis
    using raw_read_slices [OF assms(1) _ assms(2)] sz
    by (auto simp: raw_read_at_offset_def)
qed

definition sample_segments :: "bytes list" where
  "sample_segments = [[1, 2, 3], [4, 5], [6]]"

definition sample_raw :: rawdisk_reader where
  "sample_raw = \<lparr>rr_image_size = 6, rr_segments = segment_map_new [3, 2, 1], rr_slots = []\<rparr>"

definition sample_raw_cache :: cache where
  "sample_raw_cache = mem_cache (\<lambda>i. if i < 3 then sample_segments ! i else [])"

lemma sample_raw_ok: "segments_ok sample_raw_cache sample_segments sample_raw"
proof -
  have "serves sample_raw_cache i (sample_segments ! i)" if "i < 3" for i
    using mem_cache_serves [of "\<lambda>i. if i < 3 then sample_segments ! i else []" i] that
    by (auto simp: sample_raw_cache_def sample_segments_def nth_Cons' u64_lim_def split: if_splits)
  moreover have "map length sample_segments = [3, 2, 1]" "concat sample_segments = [1, 2, 3, 4, 5, 6]"
    "length sample_segments = 3" "\<forall>d \<in> set sample_segments. d \<noteq> []"
    by (simp_all add: sample_segments_def)
  ultimately show ?thesis by (simp add: segments_ok_def sample_raw_def u64_lim_def)
qed

theorem raw_read_exact_witness:
  "raw_read_at_offset sample_raw_cache sample_raw 2 3 = Ok [3, 4, 5] \<and>
   raw_read_at_offset sample_raw_cache sample_raw 5 10 = Ok [6] \<and>
   raw_read_at_offset sample_raw_cache sample_raw 7 1 = Err (RawOffsetBeyondEnd 7 6)"
  using raw_read_exact [OF sample_raw_ok, of 2 3] raw_read_exact [OF sample_raw_ok, of 5 10]
    raw_read_exact [OF sample_raw_ok, of 7 1]
  by (simp add: sample_segments_def u64_lim_def)

subsection \<open>Discovery\<close>

lemma split_numeric_suffix_candidate:
  assumes "split_numeric_suffix path = Some (stem, n, width)"
  shows "path = candidate stem n width" "n < u64_lim"
proof -
  from assms obtain suffix where s: "rsplit_once (CHR ''.'') path = Some (stem, suffix)"
    "list_all is_ascii_digit suffix" "2 \<le> length suffix" "parse_u64 suffix = Some n"
    "width = length suffix"
    by (auto simp: split_numeric_suffix_def bind_eq_Some_conv MIN_SEGMENT_DIGITS_def split: if_splits)
  have ne: "suffix \<noteq> []" using s(3) by auto
  have "digit_val (CHR ''+'') = None" by (simp add: digit_val_def)
  moreover have "digit_val (hd suffix) \<noteq> None"
    using s(2) hd_in_set [OF ne] unfolding list_all_iff is_ascii_digit_def by blast
  ultimately have "hd suffix \<noteq> CHR ''+''" by metis
  then have p: "parse_digits 0 suffix = Some n" using s(4) ne by (simp add: parse_u64_no_plus)
  then have "pad_decimal (length suffix) n = suffix" using ne by (intro pad_decimal_parse)
  then show "path = candidate stem n width"
    using rsplit_once_Some [OF s(1)] s(5) by (simp add: candidate_def)
  have b: "acc < u64_lim \<Longrightarrow> parse_digits acc ds = Some n \<Longrightarrow> n < u64_lim" for acc ds
    by (induction acc ds rule: parse_digits.induct) (auto split: option.splits if_splits)
  show "n < u64_lim" by (rule b [OF _ p]) (simp add: u64_lim_def)
qed

text \<open>The walk from \<open>n\<close> finds the end of the run, or stops at a probe that failed.\<close>

lemma walk_up_spec:
  assumes "n \<le> N" "Suc N < u64_lim" "probe chk (candidate stem N width) = Ok False"
  shows "\<exists>r. walk_up chk stem width n acc = Some r \<and>
    (\<forall>m ps. r = Ok (m, ps) \<longrightarrow> n \<le> m \<and> m \<le> N \<and>
       ps = acc @ map (\<lambda>k. candidate stem k width) [n ..< m] \<and>
       (\<forall>k. n \<le> k \<and> k < m \<longrightarrow> probe chk (candidate stem k width) = Ok True) \<and>
       probe chk (candidate stem m width) = Ok False)"
  using assms(1)
proof (induction "N - n" arbitrary: n acc)
  case 0
  then have "n = N" by simp
  then show ?case using assms(3) by (subst walk_up.simps) auto
next
  case (Suc d)
  then have lt: "n < N" by simp
  have add: "u64_add n 1 = Suc n" using lt assms(2) by simp
  show ?case
  proof (cases "probe chk (candidate stem n width)")
    case (Ok there)
    show ?thesis
    proof (cases there)
      case True
      obtain r where r: "walk_up chk stem width (Suc n) (acc @ [candidate stem n width]) = Some r"
        "\<forall>m ps. r = Ok (m, ps) \<longrightarrow> Suc n \<le> m \<and> m \<le> N \<and>
           ps = (acc @ [candidate stem n width]) @ map (\<lambda>k. candidate stem k width) [Suc n ..< m] \<and>
           (\<forall>k. Suc n \<le> k \<and> k < m \<longrightarrow> probe chk (candidate stem k width) = Ok True) \<and>
           probe chk (candidate stem m width) = Ok False"
      proof -
        have "d = N - Suc n" "Suc n \<le> N" using Suc.hyps(2) lt by auto
        from Suc.hyps(1) [OF this, of "acc @ [candidate stem n width]"] show ?thesis
          using that by blast
      qed
      have "walk_up chk stem width n acc = Some r"
        using Ok True add r(1) by (subst walk_up.simps) simp
      moreover have "n \<le> m \<and> m \<le> N \<and> ps = acc @ map (\<lambda>k. candidate stem k width) [n ..< m] \<and>
          (\<forall>k. n \<le> k \<and> k < m \<longrightarrow> probe chk (candidate stem k width) = Ok True) \<and>
          probe chk (candidate stem m width) = Ok False" if "r = Ok (m, ps)" for m ps
      proof -
        have m: "Suc n \<le> m" "m \<le> N" "probe chk (candidate stem m width) = Ok False"
          "ps = acc @ candidate stem n width # map (\<lambda>k. candidate stem k width) [Suc n ..< m]"
          "\<And>k. Suc n \<le> k \<Longrightarrow> k < m \<Longrightarrow> probe chk (candidate stem k width) = Ok True"
          using r(2) that by auto
        have "probe chk (candidate stem k width) = Ok True" if "n \<le> k" "k < m" for k
          using m(5) [of k] Ok True that by (cases "k = n") auto
        then show ?thesis using m by (simp add: upt_conv_Cons)
      qed
      ultimately show ?thesis by blast
    next
      case False
      then show ?thesis using Ok lt by (subst walk_up.simps) auto
    qed
  qed (subst walk_up.simps, simp)+
qed

text \<open>A walk fails only with what a probe of a name said.\<close>

definition probe_failed :: "checker \<Rightarrow> string \<Rightarrow> nat \<Rightarrow> ('a, discovery_err) result \<Rightarrow> bool" where
  "probe_failed chk stem width r \<longleftrightarrow>
     (\<exists>k. (\<exists>e. r = Err (UndeterminedSegment e) \<and> chk (candidate stem k width) = Err e) \<or>
        r = Panic \<and> chk (candidate stem k width) = Panic)"

lemma probe_simps:
  "probe chk p = Ok b \<longleftrightarrow> chk p = Ok b" "probe chk p = Panic \<longleftrightarrow> chk p = Panic"
  "probe chk p = Err d \<longleftrightarrow> (\<exists>e. d = UndeterminedSegment e \<and> chk p = Err e)"
  by (cases "chk p"; auto simp: probe_def)+

lemma probe_failed_probe:
  "probe chk (candidate stem k width) = Err d \<Longrightarrow> probe_failed chk stem width (Err d)"
  "probe chk (candidate stem k width) = Panic \<Longrightarrow> probe_failed chk stem width Panic"
  by (auto simp: probe_simps probe_failed_def)

lemma walk_up_fails:
  assumes "walk_up chk stem width n acc = Some r" "\<not> is_ok r"
  shows "probe_failed chk stem width r"
proof -
  have "\<not> is_ok r \<longrightarrow> probe_failed chk stem width r"
    by (rule walk_up.raw_induct
          [where P = "\<lambda>chk stem width n acc r. \<not> is_ok r \<longrightarrow> probe_failed chk stem width r", OF _ assms(1)])
      (auto split: result.splits if_splits intro: probe_failed_probe)
  then show ?thesis using assms(2) by blast
qed

lemma walk_down_spec:
  "probe_failed chk stem width (walk_down chk stem width n :: (nat, _) result) \<or>
   (\<exists>m. walk_down chk stem width n = Ok m \<and> m \<le> n \<and>
     (if m = 0 then n = 0 \<or> chk (candidate stem 0 width) = Ok True
      else chk (candidate stem (m - 1) width) = Ok False))"
proof (induction n)
  case (Suc n)
  show ?case
  proof (cases "probe chk (candidate stem n width)")
    case (Ok there)
    show ?thesis
    proof (cases there)
      case True
      then have "walk_down chk stem width (Suc n) = walk_down chk stem width n" using Ok by simp
      moreover have "chk (candidate stem n width) = Ok True" using Ok True by (simp add: probe_simps)
      ultimately show ?thesis using Suc by (metis le_SucI)
    next
      case False
      then have "walk_down chk stem width (Suc n) = Ok (Suc n)" using Ok by simp
      moreover have "chk (candidate stem n width) = Ok False" using Ok False by (simp add: probe_simps)
      ultimately show ?thesis by (intro disjI2 exI [of _ "Suc n"]) simp
    qed
  qed (simp_all add: probe_failed_probe)
qed simp

text \<open>
  What discovery may say of an image, apart from how it finds out.  A name is there when the checker
  says so.  \<open>whole_run\<close>: \<open>ps\<close> are all the names from 0 or 1 on, each there, with the named one among
  them, and the next two are absent.  \<open>found_alone\<close>: there is no first segment, and either the
  number has no leading zero or neither neighbour is there.
\<close>

definition whole_run :: "checker \<Rightarrow> string \<Rightarrow> nat \<Rightarrow> nat \<Rightarrow> string list \<Rightarrow> bool" where
  "whole_run chk stem num width ps \<longleftrightarrow>
     (\<exists>first n. first \<le> 1 \<and> first \<le> num \<and> num < n \<and>
        ps = map (\<lambda>k. candidate stem k width) [first ..< n] \<and>
        (\<forall>k. first \<le> k \<and> k < n \<longrightarrow> chk (candidate stem k width) = Ok True) \<and>
        chk (candidate stem n width) = Ok False \<and> chk (candidate stem (n + 1) width) = Ok False \<and>
        (first = 1 \<longrightarrow> chk (candidate stem 0 width) = Ok False))"

definition found_alone :: "checker \<Rightarrow> string \<Rightarrow> nat \<Rightarrow> nat \<Rightarrow> bool" where
  "found_alone chk stem num width \<longleftrightarrow>
     chk (candidate stem 0 width) = Ok False \<and> chk (candidate stem 1 width) = Ok False \<and>
     (10 ^ (width - 1) \<le> num \<or>
      (0 < num \<longrightarrow> chk (candidate stem (num - 1) width) = Ok False) \<and>
      (num + 1 < 2 ^ 64 \<longrightarrow> chk (candidate stem (num + 1) width) = Ok False))"

definition incomplete :: "checker \<Rightarrow> string \<Rightarrow> nat \<Rightarrow> nat \<Rightarrow> string \<Rightarrow> bool" where
  "incomplete chk stem num width p \<longleftrightarrow>
     (\<exists>k. p = candidate stem k width) \<and> chk p = Ok False \<and>
     (\<exists>j. chk (candidate stem j width) = Ok True) \<and>
     \<not> found_alone chk stem num width \<and> (\<forall>ps. \<not> whole_run chk stem num width ps)"

definition discovery_ok ::
    "checker \<Rightarrow> string \<Rightarrow> nat \<Rightarrow> nat \<Rightarrow> string \<Rightarrow> (string list, discovery_err) result \<Rightarrow> bool" where
  "discovery_ok chk stem num width example r \<longleftrightarrow>
     (case r of
        Ok ps \<Rightarrow> ps = [example] \<and> found_alone chk stem num width \<or> whole_run chk stem num width ps
      | Err (Missing p) \<Rightarrow> incomplete chk stem num width p
      | _ \<Rightarrow> probe_failed chk stem width r)"

lemma probe_failed_ok: "probe_failed chk stem width r \<Longrightarrow> discovery_ok chk stem num width example r"
  by (auto simp: probe_failed_def discovery_ok_def)

lemma probe_Ok: "probe chk p = Ok b \<longleftrightarrow> chk p = Ok b"
  by (rule probe_simps(1))

lemma run_missing:
  assumes first: "first \<le> 1" "first = 1 \<longrightarrow> chk (candidate stem 0 width) = Ok False"
    "chk (candidate stem first width) = Ok True"
    and m: "first \<le> m" "\<forall>k. first \<le> k \<and> k < m \<longrightarrow> chk (candidate stem k width) = Ok True"
    "chk (candidate stem m width) = Ok False"
    and bad: "m \<le> num \<or> chk (candidate stem (m + 1) width) = Ok True"
  shows "incomplete chk stem num width (candidate stem m width)"
proof -
  have lt: "first < m" using m(1,3) first(3) by (metis le_neq_implies_less result.inject(1))
  have "\<not> whole_run chk stem num width ps" for ps
  proof
    assume "whole_run chk stem num width ps"
    then obtain f n where w: "f \<le> 1" "f \<le> num" "num < n"
      "\<forall>k. f \<le> k \<and> k < n \<longrightarrow> chk (candidate stem k width) = Ok True"
      "chk (candidate stem n width) = Ok False" "chk (candidate stem (n + 1) width) = Ok False"
      unfolding whole_run_def by blast
    have "f \<le> m" using w(1) lt by simp
    then have n: "n \<le> m" using w(4) m(3) by (metis leI result.inject(1))
    then have "chk (candidate stem (m + 1) width) = Ok True" using bad w(3) by simp
    then have "n \<noteq> m" using w(6) by auto
    then have "n < first" using n m(2) w(5) by (metis leI le_neq_implies_less result.inject(1))
    then show False using w(1,3,4) first by (cases "n = 0") auto
  qed
  moreover have "\<not> found_alone chk stem num width"
    using first by (cases "first = 0") (auto simp: found_alone_def le_Suc_eq)
  ultimately show ?thesis using first(3) m(3) by (auto simp: incomplete_def)
qed

lemma run_from_spec:
  assumes "first \<le> N" "first \<le> 1" "Suc N < u64_lim" "chk (candidate stem N width) = Ok False"
    "first = 1 \<longrightarrow> chk (candidate stem 0 width) = Ok False" "chk (candidate stem first width) = Ok True"
  shows "\<exists>r. run_from chk stem num width first = Some r \<and> discovery_ok chk stem num width example r"
proof -
  obtain r where r: "walk_up chk stem width first [] = Some r"
    "\<forall>m ps. r = Ok (m, ps) \<longrightarrow> first \<le> m \<and> m \<le> N \<and>
       ps = map (\<lambda>k. candidate stem k width) [first ..< m] \<and>
       (\<forall>k. first \<le> k \<and> k < m \<longrightarrow> chk (candidate stem k width) = Ok True) \<and>
       chk (candidate stem m width) = Ok False"
    using walk_up_spec [of first N chk stem width "[]"] assms by (auto simp: probe_Ok)
  show ?thesis
  proof (cases "is_ok r")
    case True
    then obtain m ps where p: "r = Ok (m, ps)" by (auto simp: is_ok_iff)
    note m = r(2) [rule_format, OF p]
    have add: "u64_add m 1 = m + 1" using m assms(3) by simp
    let ?past = "probe chk (candidate stem (m + 1) width)"
    have rf: "run_from chk stem num width first = Some (
        if num < first then Err (Missing (candidate stem num width))
        else if m \<le> num then Err (Missing (candidate stem m width))
        else and_then ?past (\<lambda>past. if past then Err (Missing (candidate stem m width)) else Ok ps))"
      using r(1) p by (simp add: run_from_def add [simplified])
    have missing: "incomplete chk stem num width (candidate stem m width)"
      if "m \<le> num \<or> chk (candidate stem (m + 1) width) = Ok True"
      using run_missing [OF assms(2,5,6) _ _ _ that] m by blast
    consider "num < first" | "first \<le> num" "m \<le> num" | "first \<le> num" "num < m" by linarith
    then show ?thesis
    proof cases
      case 1
      then have "num = 0" "first = 1" using assms(2) by auto
      then have "incomplete chk stem num width (candidate stem num width)"
        using assms(5,6) by (auto simp: incomplete_def found_alone_def whole_run_def)
      then show ?thesis using 1 rf by (simp add: discovery_ok_def)
    next
      case 2
      then show ?thesis using rf missing by (simp add: discovery_ok_def)
    next
      case 3
      show ?thesis
      proof (cases ?past)
        case (Ok b)
        have "whole_run chk stem num width ps" if "\<not> b"
          unfolding whole_run_def using m assms(2,5) that 3 Ok
          by (intro exI [of _ first] exI [of _ m]) (auto simp: probe_Ok)
        moreover have "chk (candidate stem (m + 1) width) = Ok b" using Ok by (simp add: probe_Ok)
        ultimately show ?thesis
          unfolding rf Ok using 3 missing by (cases b) (simp_all add: discovery_ok_def)
      next
        case (Err d)
        then show ?thesis using 3 rf probe_failed_ok [OF probe_failed_probe(1) [OF Err]] by simp
      next
        case Panic
        then show ?thesis using 3 rf probe_failed_ok [OF probe_failed_probe(2) [OF Panic]] by simp
      qed
    qed
  next
    case False
    then show ?thesis
      using r(1) probe_failed_ok [of chk stem width _ num example] walk_up_fails [OF r(1)]
      by (cases r) (auto simp: run_from_def probe_failed_def)
  qed
qed

lemma is_zero_padded_iff: "num < u64_lim \<Longrightarrow> is_zero_padded num width \<longleftrightarrow> num < 10 ^ (width - 1)"
  by (auto simp: is_zero_padded_def)

lemma no_padded_start_spec:
  assumes num: "num < u64_lim"
    and abs: "chk (candidate stem 0 width) = Ok False" "chk (candidate stem 1 width) = Ok False"
  shows "discovery_ok chk stem num width example (no_padded_start chk example stem num width)"
proof (cases "is_zero_padded num width")
  case False
  then show ?thesis
    using abs num by (simp add: no_padded_start_def discovery_ok_def found_alone_def is_zero_padded_iff)
next
  case True
  let ?below = "if num > 0 then probe chk (candidate stem (num - 1) width) else Ok False"
  let ?above = "case checked_add num 1 of Some nxt \<Rightarrow> probe chk (candidate stem nxt width) | None \<Rightarrow> Ok False"
  have start: "no_padded_start chk example stem num width =
      and_then ?below (\<lambda>below. and_then ?above (\<lambda>above.
        if below \<or> above then
          and_then (walk_down chk stem width num) (\<lambda>lowest. Err (Missing (candidate stem (lowest - 1) width)))
        else Ok [example]))"
    using True by (simp add: no_padded_start_def)
  have above: "?above = (if num + 1 < 2 ^ 64 then probe chk (candidate stem (num + 1) width) else Ok False)"
    by (simp add: checked_add_def u64_lim_def)
  have fail: "discovery_ok chk stem num width example r" if "probe_failed chk stem width r" for r
    using that by (rule probe_failed_ok)
  have none: "\<not> whole_run chk stem num width ps" for ps
  proof
    assume "whole_run chk stem num width ps"
    then obtain f where "f \<le> 1" "chk (candidate stem f width) = Ok True"
      unfolding whole_run_def by (metis le_less_trans le_refl)
    then show False using abs by (cases "f = 0") (auto simp: le_Suc_eq)
  qed
  show ?thesis
  proof (cases ?below)
    case b: (Ok below)
    show ?thesis
    proof (cases ?above)
      case a: (Ok above)
      show ?thesis
      proof (cases "below \<or> above")
        case False
        then have "found_alone chk stem num width"
          using abs a [unfolded above] b by (auto simp: found_alone_def probe_Ok split: if_splits)
        then show ?thesis using start a b False by (simp add: discovery_ok_def)
      next
        case near: True
        have "num \<noteq> 0"
        proof
          assume "num = 0"
          with near a [unfolded above] b abs show False by (simp add: probe_Ok)
        qed
        have miss: "\<not> found_alone chk stem num width" "\<exists>j. chk (candidate stem j width) = Ok True"
          using near a [unfolded above] b True num
          by (auto simp: found_alone_def probe_Ok is_zero_padded_iff split: if_splits)
        consider m where "walk_down chk stem width num = Ok m" "0 < m"
            "chk (candidate stem (m - 1) width) = Ok False"
          | "probe_failed chk stem width (walk_down chk stem width num)"
          using walk_down_spec [of chk stem width num] \<open>num \<noteq> 0\<close> abs by (force split: if_splits)
        then show ?thesis
        proof cases
          case (1 m)
          then show ?thesis
            using start a b near none miss
            by (auto simp: discovery_ok_def incomplete_def)
        next
          case 2
          then show ?thesis
            using start a b near by (auto simp: probe_failed_def intro!: fail)
        qed
      qed
    next
      case (Err d)
      then have "probe chk (candidate stem (num + 1) width) = Err d" unfolding above by (simp split: if_splits)
      from fail [OF probe_failed_probe(1) [OF this]] show ?thesis unfolding start b Err by simp
    next
      case Panic
      then have "probe chk (candidate stem (num + 1) width) = Panic" unfolding above by (simp split: if_splits)
      from fail [OF probe_failed_probe(2) [OF this]] show ?thesis unfolding start b Panic by simp
    qed
  qed (use start in \<open>auto intro!: fail probe_failed_probe split: if_splits\<close>)
qed

text \<open>
  C18: Discovery of the segments of a split image ends as soon as some name above the start is
  absent, and every answer it gives is right.  Success is the whole image: the complete run of
  consecutive existing names from 0 or 1 on that contains the named file, with the two names behind
  the run absent; or the named file alone, where there is no first segment and the number either has
  no leading zero or has no neighbour.  A segment is said to be missing only when that name is
  absent, some other is there, and the image is neither a whole run nor a file alone.  Any
  other error, or a panic, is what the checker said of one of the names.
\<close>

theorem segment_paths_whole_image:
  assumes "split_numeric_suffix example = Some (stem, num, width)"
    and "1 \<le> N" "Suc N < u64_lim" "chk (candidate stem N width) = Ok False"
  shows "\<exists>r. segment_paths example chk = Some r \<and>
    (case r of
       Ok ps \<Rightarrow> example \<in> set ps \<and>
         (ps = [example] \<and> found_alone chk stem num width \<or> whole_run chk stem num width ps)
     | Err (Missing p) \<Rightarrow>
         (\<exists>k. p = candidate stem k width) \<and> chk p = Ok False \<and>
         (\<exists>j. chk (candidate stem j width) = Ok True) \<and>
         \<not> found_alone chk stem num width \<and> (\<forall>ps. \<not> whole_run chk stem num width ps)
     | Err (UndeterminedSegment e) \<Rightarrow> \<exists>k. chk (candidate stem k width) = Err e
     | Panic \<Rightarrow> \<exists>k. chk (candidate stem k width) = Panic)"
proof -
  note ex = split_numeric_suffix_candidate [OF assms(1)]
  have "\<exists>r. segment_paths example chk = Some r \<and> discovery_ok chk stem num width example r"
  proof (cases "probe chk (candidate stem 0 width)")
    case p0: (Ok b0)
    show ?thesis
    proof (cases b0)
      case True
      then have "segment_paths example chk = run_from chk stem num width 0"
        using assms(1) p0 by (simp add: segment_paths_def)
      then show ?thesis using run_from_spec [of 0 N chk stem width num] assms p0 True by (auto simp: probe_Ok)
    next
      case f0: False
      then have z: "chk (candidate stem 0 width) = Ok False" using p0 by (simp add: probe_Ok)
      show ?thesis
      proof (cases "probe chk (candidate stem 1 width)")
        case p1: (Ok b1)
        show ?thesis
        proof (cases b1)
          case True
          then have "segment_paths example chk = run_from chk stem num width 1"
            using assms(1) p0 f0 p1 by (simp add: segment_paths_def)
          then show ?thesis using run_from_spec [of 1 N chk stem width num] assms z p1 True by (auto simp: probe_Ok)
        next
          case False
          then have "segment_paths example chk = Some (no_padded_start chk example stem num width)"
            using assms(1) p0 f0 p1 by (simp add: segment_paths_def)
          then show ?thesis
            using no_padded_start_spec [of num chk stem width example] ex(2) z p1 False by (auto simp: probe_Ok)
        qed
      qed (use assms(1) p0 f0 in \<open>auto simp: segment_paths_def intro: probe_failed_ok probe_failed_probe\<close>)
    qed
  qed (use assms(1) in \<open>auto simp: segment_paths_def intro: probe_failed_ok probe_failed_probe\<close>)
  then obtain r where r: "segment_paths example chk = Some r" "discovery_ok chk stem num width example r"
    by blast
  have "example \<in> set ps" if "whole_run chk stem num width ps" for ps
    using that ex(1) by (auto simp: whole_run_def)
  then show ?thesis
    using r
    by (intro exI [of _ r])
      (auto simp: discovery_ok_def incomplete_def probe_failed_def split: result.splits discovery_err.splits)
qed

text \<open>Three segments from 1 on, opened by the second name.\<close>

definition sample_checker :: checker where
  "sample_checker p = Ok (p \<in> {''d.001'', ''d.002'', ''d.003''})"

lemma sample_split: "split_numeric_suffix ''d.002'' = Some (''d'', 2, 3)"
  by code_simp

lemma sample_absent: "sample_checker (candidate ''d'' 4 3) = Ok False"
  by code_simp

lemma sample_discovery: "segment_paths ''d.002'' sample_checker = Some (Ok [''d.001'', ''d.002'', ''d.003''])"
  by code_simp

theorem segment_paths_whole_image_witness:
  "segment_paths ''d.002'' sample_checker = Some (Ok [''d.001'', ''d.002'', ''d.003'']) \<and>
   whole_run sample_checker ''d'' 2 3 [''d.001'', ''d.002'', ''d.003'']"
  using segment_paths_whole_image [OF sample_split, of 4 sample_checker] sample_absent sample_discovery
  by (simp add: u64_lim_def)

text \<open>The number in a candidate name is padded to the width of the named segment but not cut to it, so
  the walk goes on from \<open>d.99\<close> to the wider name \<open>d.100\<close>.
\<close>

theorem candidate_widens:
  "candidate ''d'' 99 2 = ''d.99'' \<and> candidate ''d'' 100 2 = ''d.100''"
  by code_simp

subsection \<open>Opening\<close>

text \<open>Sources are files: \<open>fs\<close> gives the content behind a path.\<close>

definition file_backed :: "raw_sys \<Rightarrow> (string \<Rightarrow> bytes) \<Rightarrow> bool" where
  "file_backed sys fs \<longleftrightarrow>
     (\<forall>path url src. rs_path_to_url sys path = Some url \<longrightarrow> rs_source_for_url sys url = Ok src \<longrightarrow>
        src = file_source (fs path))"

lemma open_segments_step:
  assumes fb: "file_backed sys fs"
    and ok: "open_segments sys many (path # paths) idx ls slots = Ok (ls', slots')"
  shows "\<not> (many \<and> fs path = [])" "open_segments sys many paths (idx + 1)
    (ls @ [length (fs path)]) (slots_set slots idx (file_source (fs path))) = Ok (ls', slots')"
proof -
  obtain url src where u: "rs_path_to_url sys path = Some url" "rs_source_for_url sys url = Ok src"
    using ok by (auto simp: and_then_Ok_iff)
  then have "src = file_source (fs path)" using fb unfolding file_backed_def by blast
  then show "\<not> (many \<and> fs path = [])" "open_segments sys many paths (idx + 1)
    (ls @ [length (fs path)]) (slots_set slots idx (file_source (fs path))) = Ok (ls', slots')"
    using ok u by (auto simp: file_source_def split: if_splits)
qed

lemma open_segments_files:
  assumes fb: "file_backed sys fs" and "open_segments sys many paths idx ls slots = Ok (ls', slots')"
  shows "ls' = ls @ map (\<lambda>p. length (fs p)) paths \<and> (many \<longrightarrow> (\<forall>p \<in> set paths. fs p \<noteq> [])) \<and>
    (\<forall>i < idx. slots_get slots' i = slots_get slots i) \<and>
    (\<forall>i < length paths. slots_get slots' (idx + i) = Ok (file_source (fs (paths ! i))))"
  using assms(2)
proof (induction paths arbitrary: idx ls slots)
  case (Cons path paths)
  note step = open_segments_step [OF fb Cons.prems]
  note IH = Cons.IH [OF step(2)]
  have "slots_get slots' (idx + i) = Ok (file_source (fs ((path # paths) ! i)))"
    if "i < length (path # paths)" for i
    using that IH by (cases i) (auto simp: slots_get_set)
  then show ?case using IH step(1) by (auto simp: slots_get_set)
qed simp

lemma rawdisk_open_segments:
  assumes fb: "file_backed sys fs" and url: "rs_path_to_url sys image_path = Some url"
    and paths: "raw_segment_list sys image_path url = Some (Ok paths)"
    and lim: "length (concat (map fs paths)) < u64_lim" "length paths < u64_lim"
    and ok: "rawdisk_open sys image_path = Some (Ok rd)"
  shows "segments_ok (direct_cache (rr_slots rd)) (map fs paths) rd"
proof -
  obtain ls slots where o: "open_segments sys (length paths > 1) paths 0 [] [] = Ok (ls, slots)"
    "rd = \<lparr>rr_image_size = sgm_image_size (segment_map_new ls), rr_segments = segment_map_new ls,
       rr_slots = slots\<rparr>"
    using ok url paths by (auto simp: rawdisk_open_def and_then_Ok_iff Let_def)
  have f: "ls = map (\<lambda>p. length (fs p)) paths" "length paths > 1 \<longrightarrow> (\<forall>p \<in> set paths. fs p \<noteq> [])"
    "\<forall>i < length paths. slots_get slots i = Ok (file_source (fs (paths ! i)))"
    using open_segments_files [OF fb o(1)] by auto
  have ls: "ls = map length (map fs paths)" using f(1) by simp
  then have sz: "sgm_image_size (segment_map_new ls) = length (concat (map fs paths))"
    using segment_map_new_eq [of ls] lim(1) by (simp add: length_concat)
  have "serves (direct_cache slots) i (map fs paths ! i)" if i: "i < length paths" for i
  proof -
    have "length (fs (paths ! i)) \<le> length (concat (map fs paths))"
      using i by (auto simp: length_concat intro!: member_le_sum_list)
    then show ?thesis
      using f(3) i lim(1) by (auto intro!: file_source_serves)
  qed
  then show ?thesis
    using o(2) ls sz lim f(2) by (auto simp: segments_ok_def)
qed

text \<open>
  Opening a raw image gives a reader over exactly the files of its segments, in order: the sizes
  recorded are theirs, none of several segments is empty, and every later read is a slice of the
  concatenation of these files.
\<close>

theorem rawdisk_open_reads_files:
  assumes fb: "file_backed sys fs" and url: "rs_path_to_url sys image_path = Some url"
    and paths: "raw_segment_list sys image_path url = Some (Ok paths)"
    and lim: "length (concat (map fs paths)) < u64_lim" "length paths < u64_lim"
    and ok: "rawdisk_open sys image_path = Some (Ok rd)"
    and off: "offset \<le> length (concat (map fs paths))" "offset + buflen < u64_lim"
  shows "rr_image_size rd = length (concat (map fs paths)) \<and>
    raw_read_at_offset (direct_cache (rr_slots rd)) rd offset buflen =
      Ok (take buflen (drop offset (concat (map fs paths))))"
proof -
  have sok: "segments_ok (direct_cache (rr_slots rd)) (map fs paths) rd"
    by (rule rawdisk_open_segments [OF fb url paths lim ok])
  then have "rr_image_size rd = length (concat (map fs paths))" by (simp add: segments_ok_def)
  then show ?thesis
    using raw_read_slices [OF sok _ off(2)] off(1) by (simp add: sub_list_def min_def)
qed

definition sample_fs :: "string \<Rightarrow> bytes" where
  "sample_fs p = (if p = ''d.001'' then [1, 2, 3] else if p = ''d.002'' then [4, 5] else [6])"

definition sample_raw_sys :: raw_sys where
  "sample_raw_sys = \<lparr>rs_path_to_url = Some, rs_relative = (\<lambda>p. True), rs_discovery_path = (\<lambda>p. p),
     rs_checker = (\<lambda>u. Ok sample_checker), rs_source_for_url = (\<lambda>u. Ok (file_source (sample_fs u)))\<rparr>"

lemma sample_raw_open:
  "\<exists>rd. rawdisk_open sample_raw_sys ''d.002'' = Some (Ok rd)"
  "raw_segment_list sample_raw_sys ''d.002'' ''d.002'' = Some (Ok [''d.001'', ''d.002'', ''d.003''])"
proof -
  show l: "raw_segment_list sample_raw_sys ''d.002'' ''d.002'' = Some (Ok [''d.001'', ''d.002'', ''d.003''])"
    using sample_discovery sample_split
    by (simp add: raw_segment_list_def sample_raw_sys_def has_numeric_suffix_def)
  have "case rawdisk_open sample_raw_sys ''d.002'' of Some r \<Rightarrow> is_ok r | None \<Rightarrow> False" by code_simp
  then show "\<exists>rd. rawdisk_open sample_raw_sys ''d.002'' = Some (Ok rd)"
    by (auto simp: is_ok_iff split: option.splits)
qed

theorem rawdisk_open_reads_files_witness:
  "\<exists>rd. rawdisk_open sample_raw_sys ''d.002'' = Some (Ok rd) \<and> rr_image_size rd = 6 \<and>
     raw_read_at_offset (direct_cache (rr_slots rd)) rd 2 3 = Ok [3, 4, 5]"
proof -
  obtain rd where rd: "rawdisk_open sample_raw_sys ''d.002'' = Some (Ok rd)"
    using sample_raw_open(1) by blast
  have c: "concat (map sample_fs [''d.001'', ''d.002'', ''d.003'']) = [1, 2, 3, 4, 5, 6]"
    by (simp add: sample_fs_def)
  have "file_backed sample_raw_sys sample_fs" by (simp add: file_backed_def sample_raw_sys_def)
  moreover have "rs_path_to_url sample_raw_sys ''d.002'' = Some ''d.002''"
    by (simp add: sample_raw_sys_def)
  ultimately show ?thesis
    using rawdisk_open_reads_files [OF _ _ sample_raw_open(2) _ _ rd, of sample_fs 2 3] rd
    unfolding c by (simp add: u64_lim_def)
qed

end
