(* ===== verification/VmdkDescription.thy ===== *)
theory VmdkDescription
  imports RustStr
begin

text \<open>
  \<open>vmdk/src/extent_description.rs\<close>: the extent lines of a VMDK descriptor, from the text to an
  \<open>ExtentDescription\<close>, with every error branch.  Error reasons are constructors in place of the
  formatted messages.

  Shown: a FLAT extent line built from any sector count, file name and offset parses back to exactly
  them, spaces and double quotes in the name included, and which lines of a descriptor contribute.
\<close>

datatype access_mode = NoAccess | RdOnly | Rw

definition parse_access_mode :: "string \<Rightarrow> access_mode option" where
  "parse_access_mode s =
     (if s = ''NOACCESS'' then Some NoAccess
      else if s = ''RDONLY'' then Some RdOnly
      else if s = ''RW'' then Some Rw
      else None)"

datatype extent_kind =
    KFlat | KSeSparse | KSparse | KVmfs | KVmfsSparse | KVmfsRdm | KVmfsRaw | KZero

definition parse_extent_kind :: "string \<Rightarrow> extent_kind option" where
  "parse_extent_kind s =
     (if s = ''FLAT'' then Some KFlat
      else if s = ''SESPARSE'' then Some KSeSparse
      else if s = ''SPARSE'' then Some KSparse
      else if s = ''VMFS'' then Some KVmfs
      else if s = ''VMFSRAW'' then Some KVmfsRaw
      else if s = ''VMFSRDM'' then Some KVmfsRdm
      else if s = ''VMFSSPARSE'' then Some KVmfsSparse
      else if s = ''ZERO'' then Some KZero
      else None)"

record extent_description_line =
  edl_sectors :: nat
  edl_kind :: extent_kind
  edl_filename :: "string option"
  edl_offset :: "nat option"

datatype parse_reason =
    MissingSectorCount | BadAccessMode string | MissingExtentKind | BadSectorCount string
  | BadExtentKind string | FilenameNotQuoted | BadOffset string

datatype parse_extent_error =
    Malformed string parse_reason
  | UnexpectedFields extent_kind "string option" "nat option"

definition parse_extent_tail ::
    "string \<Rightarrow> string \<Rightarrow> (string option \<times> nat option, parse_extent_error) result" where
  "parse_extent_tail line s =
     (let s = trim_start s in
      if s = [] then Ok (None, None)
      else
        and_then
          (ok_or (Malformed line FilenameNotQuoted)
             (Option.bind (strip_prefix [CHR 0x22] s) (rsplit_once (CHR 0x22)))) (\<lambda>(tok, s).
          let s = trim_start s in
          if s = [] then Ok (Some tok, None)
          else and_then (ok_or (Malformed line (BadOffset s)) (parse_u64 s)) (\<lambda>off.
            Ok (Some tok, Some off))))"

definition parse_extent_line ::
    "string \<Rightarrow> (extent_description_line, parse_extent_error) result" where
  "parse_extent_line line =
     and_then
       (ok_or (Malformed line MissingSectorCount)
          (split_once (CHR '' '') (trim_start (trim line)))) (\<lambda>(tok, s).
     and_then (ok_or (Malformed line (BadAccessMode tok)) (parse_access_mode tok)) (\<lambda>_.
     and_then
       (ok_or (Malformed line MissingExtentKind) (split_once (CHR '' '') (trim_start s))) (\<lambda>(tok, s).
     and_then (ok_or (Malformed line (BadSectorCount tok)) (parse_u64 tok)) (\<lambda>sectors.
     let s = trim_start s;
         (tok, s) = (case split_once (CHR '' '') s of None \<Rightarrow> (s, []) | Some p \<Rightarrow> p)
     in
     and_then (ok_or (Malformed line (BadExtentKind tok)) (parse_extent_kind tok)) (\<lambda>kind.
     and_then (parse_extent_tail line s) (\<lambda>(filename, offset).
     Ok \<lparr>edl_sectors = sectors, edl_kind = kind, edl_filename = filename, edl_offset = offset\<rparr>))))))"

datatype extent_inner =
    EFlat string nat | ESeSparse string | ESparse string | EVmfs string | EVmfsRaw string
  | EVmfsRdm string | EVmfsSparse string | EZero

record extent_description =
  ed_sectors :: nat
  ed_kind :: extent_inner

fun ed_inner_filename :: "extent_inner \<Rightarrow> string option" where
  "ed_inner_filename (ESparse f) = Some f"
| "ed_inner_filename (ESeSparse f) = Some f"
| "ed_inner_filename (EFlat f off) = Some f"
| "ed_inner_filename (EVmfs f) = Some f"
| "ed_inner_filename (EVmfsSparse f) = Some f"
| "ed_inner_filename (EVmfsRaw f) = Some f"
| "ed_inner_filename (EVmfsRdm f) = Some f"
| "ed_inner_filename EZero = None"

definition ed_filename :: "extent_description \<Rightarrow> string option" where
  "ed_filename ed = ed_inner_filename (ed_kind ed)"

fun inner_of_line ::
    "extent_kind \<Rightarrow> string option \<Rightarrow> nat option \<Rightarrow> (extent_inner, parse_extent_error) result" where
  "inner_of_line KZero None None = Ok EZero"
| "inner_of_line KFlat (Some f) (Some off) = Ok (EFlat f off)"
| "inner_of_line KSparse (Some f) None = Ok (ESparse f)"
| "inner_of_line KSparse (Some f) (Some 0) = Ok (ESparse f)"
| "inner_of_line KSeSparse (Some f) None = Ok (ESeSparse f)"
| "inner_of_line KSeSparse (Some f) (Some 0) = Ok (ESeSparse f)"
| "inner_of_line KVmfs (Some f) None = Ok (EVmfs f)"
| "inner_of_line KVmfsSparse (Some f) None = Ok (EVmfsSparse f)"
| "inner_of_line KVmfsRdm (Some f) None = Ok (EVmfsRdm f)"
| "inner_of_line KVmfsRaw (Some f) None = Ok (EVmfsRaw f)"
| "inner_of_line k f off = Err (UnexpectedFields k f off)"

definition extent_description_try_from ::
    "extent_description_line \<Rightarrow> (extent_description, parse_extent_error) result" where
  "extent_description_try_from edl =
     and_then (inner_of_line (edl_kind edl) (edl_filename edl) (edl_offset edl)) (\<lambda>k.
       Ok \<lparr>ed_sectors = edl_sectors edl, ed_kind = k\<rparr>)"

text \<open>Whether a line of the descriptor is an extent line: its first word is an access mode.\<close>

definition is_extent_line :: "string \<Rightarrow> bool" where
  "is_extent_line line =
     (case split_once (CHR '' '') (trim_start line) of
        Some (a, _) \<Rightarrow> parse_access_mode a \<noteq> None
      | None \<Rightarrow> False)"

fun extract_lines ::
    "string list \<Rightarrow> (extent_description list, parse_extent_error) result" where
  "extract_lines [] = Ok []"
| "extract_lines (line # ls) =
     (if is_extent_line line then
        and_then (parse_extent_line line) (\<lambda>edl.
        and_then (extent_description_try_from edl) (\<lambda>ed.
        and_then (extract_lines ls) (\<lambda>eds. Ok (ed # eds))))
      else extract_lines ls)"

definition extract_extent_descriptions ::
    "string \<Rightarrow> (extent_description list, parse_extent_error) result" where
  "extract_extent_descriptions descriptor = extract_lines (rust_lines descriptor)"

subsection \<open>Reading back a FLAT line\<close>

definition flat_line :: "nat \<Rightarrow> string \<Rightarrow> nat \<Rightarrow> string" where
  "flat_line n name off =
     ''RW '' @ decimal n @ '' FLAT '' @ [CHR 0x22] @ name @ [CHR 0x22] @ '' '' @ decimal off"

lemma last_decimal: "\<not> is_ws (last (decimal n))"
  by (intro decimal_no_ws [of _ n]) simp

lemma no_char_decimal: "\<lbrakk>\<And>d. d < 10 \<Longrightarrow> digit_char d \<noteq> c\<rbrakk> \<Longrightarrow> c \<notin> set (decimal n)"
  using decimal_digits by blast

lemma trim_start_decimal: "trim_start (decimal n @ s) = decimal n @ s"
  using decimal_no_ws [of "hd (decimal n)" n] by (intro trim_start_id) simp

lemma parse_tail_flat:
  assumes "off < u64_lim"
  shows "parse_extent_tail line ([CHR 0x22] @ name @ [CHR 0x22] @ '' '' @ decimal off) =
    Ok (Some name, Some off)"
proof -
  have q: "CHR 0x22 \<notin> set ('' '' @ decimal off)" using no_char_decimal by auto
  have r: "rsplit_once (CHR 0x22) (name @ CHR 0x22 # '' '' @ decimal off) = Some (name, '' '' @ decimal off)"
    using rsplit_once_append [OF q] by simp
  have t: "trim_start ([CHR 0x22] @ name @ [CHR 0x22] @ '' '' @ decimal off) =
      [CHR 0x22] @ name @ [CHR 0x22] @ '' '' @ decimal off"
    by (rule trim_start_id) (simp add: is_ws_def)
  have "trim_start ('' '' @ decimal off) = decimal off"
    using trim_start_decimal [of off "[]"] by (simp add: trim_start_def is_ws_def)
  then show ?thesis
    unfolding parse_extent_tail_def t using r parse_u64_decimal [OF assms]
    by (simp add: Let_def)
qed

lemma parse_flat_line:
  assumes "n < u64_lim" "off < u64_lim"
  shows "parse_extent_line (flat_line n name off) =
    Ok \<lparr>edl_sectors = n, edl_kind = KFlat, edl_filename = Some name, edl_offset = Some off\<rparr>"
proof -
  let ?tail = "[CHR 0x22] @ name @ [CHR 0x22] @ '' '' @ decimal off"
  have l: "last (flat_line n name off) = last (decimal off)" by (simp add: flat_line_def)
  have tr: "trim_start (trim (flat_line n name off)) = flat_line n name off"
    using l last_decimal [of off]
    by (subst trim_id) (auto simp: flat_line_def is_ws_def intro!: trim_start_id)
  have s1: "split_once (CHR '' '') (flat_line n name off) =
      Some (''RW'', decimal n @ '' FLAT '' @ ?tail)"
    by (simp add: flat_line_def)
  have "CHR '' '' \<notin> set (decimal n)" using no_char_decimal by auto
  then have s2: "split_once (CHR '' '') (trim_start (decimal n @ '' FLAT '' @ ?tail)) =
      Some (decimal n, ''FLAT '' @ ?tail)"
    using split_once_append [of "CHR '' ''" "decimal n" "''FLAT '' @ ?tail"]
    by (simp add: trim_start_decimal)
  have s3: "trim_start (''FLAT '' @ ?tail) = ''FLAT '' @ ?tail"
    by (rule trim_start_id) (simp add: is_ws_def)
  have s4: "split_once (CHR '' '') (''FLAT '' @ ?tail) = Some (''FLAT'', ?tail)"
    by simp
  show ?thesis
    unfolding parse_extent_line_def tr s1
    using parse_u64_decimal [OF assms(1)] parse_tail_flat [OF assms(2), of "flat_line n name off" name]
    by (simp add: s2 s3 s4 parse_access_mode_def parse_extent_kind_def del: append_Cons append_Nil)
qed

text \<open>
  C29: An extent line \<open>RW n FLAT "name" off\<close> of a descriptor is read as the extent description with
  exactly that sector count, file name and offset, for every file name, also one that holds spaces
  or double quotes (the questions left open in the test module of the file).
\<close>

theorem flat_extent_roundtrip:
  assumes "n < u64_lim" "off < u64_lim" "CHR 0x0A \<notin> set name"
  shows "extract_extent_descriptions (flat_line n name off @ [CHR 0x0A]) =
    Ok [\<lparr>ed_sectors = n, ed_kind = EFlat name off\<rparr>]"
proof -
  let ?l = "flat_line n name off"
  have nl: "CHR 0x0A \<notin> set (decimal k)" for k
    using decimal_no_ws [of "CHR 0x0A" k] by (auto simp: is_ws_def)
  have "CHR 0x0A \<notin> set ?l" using assms(3) nl by (simp add: flat_line_def)
  moreover have "split_lines (l @ [CHR 0x0A]) = [l]" if "CHR 0x0A \<notin> set l" for l
    using that by (induction l) auto
  moreover have "last ?l \<noteq> CHR 0x0D"
    using last_decimal [of off] by (auto simp: flat_line_def is_ws_def)
  ultimately have "rust_lines (?l @ [CHR 0x0A]) = [?l]"
    by (simp add: rust_lines_def strip_cr_def)
  moreover have "is_extent_line ?l"
    using trim_start_id [of ?l]
    by (simp add: is_extent_line_def flat_line_def parse_access_mode_def is_ws_def)
  ultimately show ?thesis
    using parse_flat_line [OF assms(1,2)]
    by (simp add: extract_extent_descriptions_def extent_description_try_from_def)
qed

theorem flat_extent_roundtrip_witness:
  "extract_extent_descriptions (flat_line 8323072 ''Cent OS-f001.vmdk'' 0 @ [CHR 0x0A]) =
    Ok [\<lparr>ed_sectors = 8323072, ed_kind = EFlat ''Cent OS-f001.vmdk'' 0\<rparr>]"
  by (rule flat_extent_roundtrip) (simp_all add: u64_lim_def)

end
