(* ===== verification/VmdkHeader.thy ===== *)
theory VmdkHeader
  imports ImageSource VmdkDescription
begin

text \<open>
  \<open>vmdk/src/header.rs\<close> and the error types of \<open>vmdk/src/errors.rs\<close>: the binary headers of VMDK3
  (COWD), VMDK4 (KDMV) and SESPARSE extents, read field by field from a cursor, and their
  conversion to the metadata the grain-table reader uses.

  Shown: a VMDK4 header reads back from its serialised bytes; the size sanity checks hold on the
  unbounded products (no wrap-around slips past them); an accepted VMDK4 header has a grain
  directory that reaches the whole capacity; a VMDK3 header with granularity 0 is accepted.
\<close>

definition SECTOR_SIZE :: nat where
  "SECTOR_SIZE = 512"

datatype file_type = Vmdk3 | Vmdk4 | VmdkSeSparse

datatype descriptor_error =
    ParseExtentDescription parse_extent_error
  | UnrecognizedDescriptor
  | NoDescriptor file_type

datatype open_error_kind =
    OpIoError io_error
  | BadParentExtentDescriptorSize nat nat
  | OpDescriptorError descriptor_error
  | DeserializationFailed string io_error
  | InvalidFileHeader
  | InitializationFailed init_error
  | BadPath string
  | UnsupportedExtentKind extent_inner
  | ParentChainCycle string
  | ImageSizeOverflow
  | OpSource source_error_kind

record open_error =
  oe_path :: string
  oe_kind :: open_error_kind

definition open_error_from :: "open_error_kind \<Rightarrow> open_error" where
  "open_error_from k = \<lparr>oe_path = '''', oe_kind = k\<rparr>"

definition with_path :: "string \<Rightarrow> open_error \<Rightarrow> open_error" where
  "with_path p e = e\<lparr>oe_path := p\<rparr>"

definition checked_product :: "nat list \<Rightarrow> nat option" where
  "checked_product vals = fold (\<lambda>v acc. Option.bind acc (\<lambda>a. checked_mul a v)) vals (Some 1)"

subsection \<open>Headers as stored\<close>

record vmdk3_header =
  v3_magic :: bytes
  v3_version :: nat
  v3_flags :: nat
  v3_disk_sectors :: nat
  v3_granularity :: nat
  v3_l1dir_offset :: nat
  v3_l1dir_size :: nat
  v3_file_sectors :: nat
  v3_cylinders :: nat
  v3_heads :: nat
  v3_sectors_per_track :: nat

definition vmdk3_from_reader ::
    "byteorder \<Rightarrow> cache \<Rightarrow> cursor \<Rightarrow> (vmdk3_header \<times> cursor, io_error) result" where
  "vmdk3_from_reader bo c r =
     and_then (read_exact c r 4) (\<lambda>(magic, r).
     and_then (read_le bo 4 c r) (\<lambda>(version, r).
     and_then (read_le bo 4 c r) (\<lambda>(flags, r).
     and_then (read_le bo 4 c r) (\<lambda>(disk_sectors, r).
     and_then (read_le bo 4 c r) (\<lambda>(granularity, r).
     and_then (read_le bo 4 c r) (\<lambda>(l1dir_offset, r).
     and_then (read_le bo 4 c r) (\<lambda>(l1dir_size, r).
     and_then (read_le bo 4 c r) (\<lambda>(file_sectors, r).
     and_then (read_le bo 4 c r) (\<lambda>(cylinders, r).
     and_then (read_le bo 4 c r) (\<lambda>(heads, r).
     and_then (read_le bo 4 c r) (\<lambda>(sectors_per_track, r).
     Ok (\<lparr>v3_magic = magic, v3_version = version, v3_flags = flags,
          v3_disk_sectors = disk_sectors, v3_granularity = granularity,
          v3_l1dir_offset = l1dir_offset, v3_l1dir_size = l1dir_size,
          v3_file_sectors = file_sectors, v3_cylinders = cylinders, v3_heads = heads,
          v3_sectors_per_track = sectors_per_track\<rparr>, r))))))))))))"

record vmdk4_header =
  v4_magic :: bytes
  v4_version :: nat
  v4_flags :: nat
  v4_capacity :: nat
  v4_granularity :: nat
  v4_desc_offset :: nat
  v4_desc_size :: nat
  v4_num_gtes_per_gt :: nat
  v4_rgd_offset :: nat
  v4_gd_offset :: nat
  v4_grain_offset :: nat
  v4_filler :: nat
  v4_check_bytes :: bytes
  v4_compress_algorithm :: nat

definition vmdk4_from_reader ::
    "byteorder \<Rightarrow> cache \<Rightarrow> cursor \<Rightarrow> (vmdk4_header \<times> cursor, io_error) result" where
  "vmdk4_from_reader bo c r =
     and_then (read_exact c r 4) (\<lambda>(magic, r).
     and_then (read_le bo 4 c r) (\<lambda>(version, r).
     and_then (read_le bo 4 c r) (\<lambda>(flags, r).
     and_then (read_le bo 8 c r) (\<lambda>(capacity, r).
     and_then (read_le bo 8 c r) (\<lambda>(granularity, r).
     and_then (read_le bo 8 c r) (\<lambda>(desc_offset, r).
     and_then (read_le bo 8 c r) (\<lambda>(desc_size, r).
     and_then (read_le bo 4 c r) (\<lambda>(num_gtes_per_gt, r).
     and_then (read_le bo 8 c r) (\<lambda>(rgd_offset, r).
     and_then (read_le bo 8 c r) (\<lambda>(gd_offset, r).
     and_then (read_le bo 8 c r) (\<lambda>(grain_offset, r).
     and_then (read_le bo 1 c r) (\<lambda>(filler, r).
     and_then (read_exact c r 4) (\<lambda>(check_bytes, r).
     and_then (read_le bo 2 c r) (\<lambda>(compress_algorithm, r).
     Ok (\<lparr>v4_magic = magic, v4_version = version, v4_flags = flags, v4_capacity = capacity,
          v4_granularity = granularity, v4_desc_offset = desc_offset, v4_desc_size = desc_size,
          v4_num_gtes_per_gt = num_gtes_per_gt, v4_rgd_offset = rgd_offset,
          v4_gd_offset = gd_offset, v4_grain_offset = grain_offset, v4_filler = filler,
          v4_check_bytes = check_bytes, v4_compress_algorithm = compress_algorithm\<rparr>,
         r)))))))))))))))"

definition use_secondary :: "vmdk4_header \<Rightarrow> bool" where
  "use_secondary h \<longleftrightarrow> v4_gd_offset h = 0xFFFFFFFFFFFFFFFF \<and> v4_compress_algorithm h = 1"

record sesparse_header =
  ss_magic :: bytes
  ss_version :: nat
  ss_capacity :: nat
  ss_grain_size :: nat
  ss_grain_table_size :: nat
  ss_flags :: nat
  ss_reserved1 :: nat
  ss_reserved2 :: nat
  ss_reserved3 :: nat
  ss_reserved4 :: nat
  ss_volatile_header_offset :: nat
  ss_volatile_header_size :: nat
  ss_journal_header_offset :: nat
  ss_journal_header_size :: nat
  ss_journal_offset :: nat
  ss_journal_size :: nat
  ss_grain_dir_offset :: nat
  ss_grain_dir_size :: nat
  ss_grain_tables_offset :: nat
  ss_grain_tables_size :: nat
  ss_free_bitmap_offset :: nat
  ss_free_bitmap_size :: nat
  ss_backmap_offset :: nat
  ss_backmap_size :: nat
  ss_grains_offset :: nat
  ss_grains_size :: nat

text \<open>The 25 fields after the magic are all \<open>u64\<close>; they are read in order and named by position.\<close>

definition sesparse_of_fields :: "bytes \<Rightarrow> nat list \<Rightarrow> sesparse_header" where
  "sesparse_of_fields magic f =
     \<lparr>ss_magic = magic, ss_version = f ! 0, ss_capacity = f ! 1, ss_grain_size = f ! 2,
      ss_grain_table_size = f ! 3, ss_flags = f ! 4, ss_reserved1 = f ! 5, ss_reserved2 = f ! 6,
      ss_reserved3 = f ! 7, ss_reserved4 = f ! 8, ss_volatile_header_offset = f ! 9,
      ss_volatile_header_size = f ! 10, ss_journal_header_offset = f ! 11,
      ss_journal_header_size = f ! 12, ss_journal_offset = f ! 13, ss_journal_size = f ! 14,
      ss_grain_dir_offset = f ! 15, ss_grain_dir_size = f ! 16, ss_grain_tables_offset = f ! 17,
      ss_grain_tables_size = f ! 18, ss_free_bitmap_offset = f ! 19, ss_free_bitmap_size = f ! 20,
      ss_backmap_offset = f ! 21, ss_backmap_size = f ! 22, ss_grains_offset = f ! 23,
      ss_grains_size = f ! 24\<rparr>"

definition sesparse_from_reader ::
    "byteorder \<Rightarrow> cache \<Rightarrow> cursor \<Rightarrow> (sesparse_header \<times> cursor, io_error) result" where
  "sesparse_from_reader bo c r =
     and_then (read_exact c r 8) (\<lambda>(magic, r).
     and_then (read_le_vec bo 8 c r 25) (\<lambda>(fields, r).
     Ok (sesparse_of_fields magic fields, r)))"

subsection \<open>Metadata\<close>

record vmdk_sparse_meta =
  sm_compressed :: bool
  sm_has_zero_grain :: bool
  sm_sectors :: nat
  sm_l1_offset :: nat
  sm_l1_len :: nat
  sm_l2_len :: nat
  sm_cluster_sectors :: nat

definition too_big :: "nat option \<Rightarrow> nat \<Rightarrow> bool" where
  "too_big sz cap = (case sz of None \<Rightarrow> True | Some s \<Rightarrow> cap < s)"

definition vmdk3_try_into :: "vmdk3_header \<Rightarrow> (vmdk_sparse_meta, open_error_kind) result" where
  "vmdk3_try_into h =
     (let meta = \<lparr>sm_compressed = False, sm_has_zero_grain = False,
                  sm_sectors = v3_disk_sectors h,
                  sm_l1_offset = u64_mul (v3_l1dir_offset h) SECTOR_SIZE,
                  sm_l1_len = v3_l1dir_size h, sm_l2_len = 4096,
                  sm_cluster_sectors = v3_granularity h\<rparr>
      in if too_big (checked_product
              [sm_l1_len meta, sm_l2_len meta, sm_cluster_sectors meta, SECTOR_SIZE]) (2 ^ 41)
         then Err InvalidFileHeader
         else Ok meta)"

definition vmdk4_try_into :: "vmdk4_header \<Rightarrow> (vmdk_sparse_meta, open_error_kind) result" where
  "vmdk4_try_into h =
     (if v4_version h > 3 \<or> v4_num_gtes_per_gt h = 0 \<or> v4_num_gtes_per_gt h > 512
         \<or> v4_granularity h = 0
      then Err InvalidFileHeader
      else
        let l1_offset =
          u64_mul (if v4_flags h AND 0x02 \<noteq> 0 then v4_rgd_offset h else v4_gd_offset h) SECTOR_SIZE
        in
        and_then (ok_or InvalidFileHeader (checked_mul (v4_num_gtes_per_gt h) (v4_granularity h)))
          (\<lambda>sectors_per_l1_entry.
        and_then (div_ceil (v4_capacity h) sectors_per_l1_entry) (\<lambda>l1_len.
        let meta = \<lparr>sm_compressed = (v4_flags h AND 0x10000 \<noteq> 0),
                    sm_has_zero_grain = (v4_flags h AND 0x04 \<noteq> 0),
                    sm_sectors = v4_capacity h, sm_l1_offset = l1_offset, sm_l1_len = l1_len,
                    sm_l2_len = v4_num_gtes_per_gt h, sm_cluster_sectors = v4_granularity h\<rparr>
        in if too_big (checked_product
                [sm_l1_len meta, sm_l2_len meta, sm_cluster_sectors meta, SECTOR_SIZE]) (2 ^ 41)
           then Err InvalidFileHeader
           else Ok meta)))"

record vmdk_sesparse_meta =
  se_sectors :: nat
  se_l1_offset :: nat
  se_l1_len :: nat
  se_l2_tables_offset :: nat
  se_l2_len :: nat
  se_cluster_sectors :: nat
  se_clusters_offset :: nat

definition sesparse_try_into :: "sesparse_header \<Rightarrow> (vmdk_sesparse_meta, open_error_kind) result" where
  "sesparse_try_into h =
     (if ss_version h \<noteq> 0x0000000200000001 \<or> ss_grain_size h \<noteq> 8 \<or> ss_grain_table_size h \<noteq> 64
         \<or> ss_flags h \<noteq> 0 \<or> ss_reserved1 h \<noteq> 0 \<or> ss_reserved2 h \<noteq> 0 \<or> ss_reserved3 h \<noteq> 0
         \<or> ss_reserved4 h \<noteq> 0
      then Err InvalidFileHeader
      else
        and_then (ok_or InvalidFileHeader (checked_mul (ss_grain_dir_size h) SECTOR_SIZE)) (\<lambda>dir.
        let meta = \<lparr>se_sectors = ss_capacity h,
                    se_l1_offset = u64_mul (ss_grain_dir_offset h) SECTOR_SIZE,
                    se_l1_len = dir div 8,
                    se_l2_tables_offset = u64_mul (ss_grain_tables_offset h) SECTOR_SIZE,
                    se_l2_len = u64_mul (ss_grain_table_size h) SECTOR_SIZE div 8,
                    se_cluster_sectors = ss_grain_size h,
                    se_clusters_offset = ss_grains_offset h\<rparr>
        in if too_big (checked_product
                [se_l1_len meta, se_l2_len meta, se_cluster_sectors meta, SECTOR_SIZE]) (2 ^ 46)
           then Err InvalidFileHeader
           else Ok meta))"

subsection \<open>Signatures and dispatch\<close>

definition VMDK3_MAGIC :: bytes where "VMDK3_MAGIC = [0x43, 0x4F, 0x57, 0x44]"
definition VMDK4_MAGIC :: bytes where "VMDK4_MAGIC = [0x4B, 0x44, 0x4D, 0x56]"
definition VMDK_SESPARSE_MAGIC :: bytes where
  "VMDK_SESPARSE_MAGIC = [0xBE, 0xBA, 0xFE, 0xCA, 0x00, 0x00, 0x00, 0x00]"

definition signature_to_file_type :: "bytes \<Rightarrow> file_type option" where
  "signature_to_file_type sig =
     (if take 4 sig = VMDK3_MAGIC then Some Vmdk3
      else if take 4 sig = VMDK4_MAGIC then Some Vmdk4
      else if sig = VMDK_SESPARSE_MAGIC then Some VmdkSeSparse
      else None)"

definition check_signature ::
    "cache \<Rightarrow> cursor \<Rightarrow> (file_type option \<times> cursor, io_error) result" where
  "check_signature c r =
     and_then (read_exact c r 8) (\<lambda>(sig, r). Ok (signature_to_file_type sig, r))"

text \<open>The arm of \<open>read_header_sparse\<close> for a VMDK4 signature: a streamed extent keeps its real header in the
  last kilobyte but one, behind the same signature.\<close>

definition read_header_vmdk4 ::
    "byteorder \<Rightarrow> cache \<Rightarrow> cursor \<Rightarrow> (vmdk4_header, open_error_kind) result" where
  "read_header_vmdk4 bo c src =
     and_then (map_err (DeserializationFailed ''Vmdk4Header'') (vmdk4_from_reader bo c src))
       (\<lambda>(h, src).
       if use_secondary h then
         and_then (map_err OpIoError (crs_seek c src (SeekEnd (- 1024)))) (\<lambda>src.
         and_then (map_err OpIoError (check_signature c src)) (\<lambda>(ft2, src).
         if ft2 \<noteq> Some Vmdk4 then Err InvalidFileHeader
         else
           and_then (map_err OpIoError (crs_seek c src (SeekEnd (- 1024)))) (\<lambda>src.
           and_then
             (map_err (DeserializationFailed ''Vmdk4Header'') (vmdk4_from_reader bo c src))
             (\<lambda>(h2, _). Ok h2))))
       else Ok h)"

definition read_header_sparse ::
    "byteorder \<Rightarrow> cache \<Rightarrow> cursor \<Rightarrow> (vmdk_sparse_meta, open_error_kind) result" where
  "read_header_sparse bo c src =
     and_then (map_err OpIoError (crs_seek c src (SeekStart 0))) (\<lambda>src.
     and_then (map_err OpIoError (check_signature c src)) (\<lambda>(ft, src).
     and_then (map_err OpIoError (crs_seek c src (SeekStart 0))) (\<lambda>src.
     case ft of
       Some Vmdk3 \<Rightarrow>
         and_then (map_err (DeserializationFailed ''Vmdk3Header'') (vmdk3_from_reader bo c src))
           (\<lambda>(h, _). vmdk3_try_into h)
     | Some Vmdk4 \<Rightarrow> and_then (read_header_vmdk4 bo c src) vmdk4_try_into
     | _ \<Rightarrow> Err InvalidFileHeader)))"

definition read_header_sesparse ::
    "byteorder \<Rightarrow> cache \<Rightarrow> cursor \<Rightarrow> (vmdk_sesparse_meta, open_error_kind) result" where
  "read_header_sesparse bo c src =
     and_then (map_err OpIoError (crs_seek c src (SeekStart 0))) (\<lambda>src.
     and_then (map_err OpIoError (check_signature c src)) (\<lambda>(ft, src).
     and_then (map_err OpIoError (crs_seek c src (SeekStart 0))) (\<lambda>src.
     if ft = Some VmdkSeSparse then
       and_then
         (map_err (DeserializationFailed ''VmdkSeSparseConstHeader'') (sesparse_from_reader bo c src))
         (\<lambda>(h, _). sesparse_try_into h)
     else Err InvalidFileHeader)))"

subsection \<open>The size checks\<close>

lemma checked_product_Some:
  "checked_product [a, b, c, d] = Some p \<Longrightarrow> p = a * b * c * d \<and> p < u64_lim"
  by (auto simp: checked_product_def bind_eq_Some_conv)

lemma not_too_big:
  "\<not> too_big (checked_product [a, b, c, d]) cap \<Longrightarrow> a * b * c * d \<le> cap"
  by (auto simp: too_big_def split: option.splits dest: checked_product_Some)

lemma vmdk3_try_into_bounded:
  "vmdk3_try_into h = Ok m \<Longrightarrow>
     sm_l1_len m * sm_l2_len m * sm_cluster_sectors m * SECTOR_SIZE \<le> 2 ^ 41"
  by (auto simp: vmdk3_try_into_def Let_def split: if_splits dest: not_too_big)

lemma vmdk4_try_into_ok:
  assumes "vmdk4_try_into h = Ok m"
  shows "sm_l1_len m * sm_l2_len m * sm_cluster_sectors m * SECTOR_SIZE \<le> 2 ^ 41"
    and "0 < sm_l2_len m" "sm_l2_len m \<le> 512" "0 < sm_cluster_sectors m"
    and "sm_sectors m \<le> sm_l1_len m * sm_l2_len m * sm_cluster_sectors m"
proof -
  from assms obtain l1 where h: "0 < v4_num_gtes_per_gt h" "v4_num_gtes_per_gt h \<le> 512"
      "0 < v4_granularity h"
    and d: "div_ceil (v4_capacity h) (v4_num_gtes_per_gt h * v4_granularity h) =
        (Ok l1 :: (nat, open_error_kind) result)"
    and nb: "\<not> too_big (checked_product
        [l1, v4_num_gtes_per_gt h, v4_granularity h, SECTOR_SIZE]) (2 ^ 41)"
    and m: "sm_l1_len m = l1" "sm_l2_len m = v4_num_gtes_per_gt h"
      "sm_cluster_sectors m = v4_granularity h" "sm_sectors m = v4_capacity h"
    by (auto simp: vmdk4_try_into_def Let_def and_then_Ok_iff split: if_splits)
  show "sm_l1_len m * sm_l2_len m * sm_cluster_sectors m * SECTOR_SIZE \<le> 2 ^ 41"
    using not_too_big [OF nb] m by simp
  show "0 < sm_l2_len m" "sm_l2_len m \<le> 512" "0 < sm_cluster_sectors m" using h m by simp_all
  show "sm_sectors m \<le> sm_l1_len m * sm_l2_len m * sm_cluster_sectors m"
    using div_ceil_bounds(1) [OF d] m by (simp add: mult.assoc)
qed

lemma vmdk4_try_into_no_panic: "vmdk4_try_into h \<noteq> Panic"
  by (auto simp: vmdk4_try_into_def Let_def and_then_Panic_iff div_ceil_def)

lemma sesparse_try_into_ok:
  assumes "sesparse_try_into h = Ok m"
  shows "se_l1_len m * se_l2_len m * se_cluster_sectors m * SECTOR_SIZE \<le> 2 ^ 46"
    and "se_l2_len m = 4096" "se_cluster_sectors m = 8"
proof -
  from assms obtain l1 where "ss_grain_size h = 8" "ss_grain_table_size h = 64"
    and nb: "\<not> too_big (checked_product
        [l1, u64_mul 64 SECTOR_SIZE div 8, 8, SECTOR_SIZE]) (2 ^ 46)"
    and m: "se_l1_len m = l1" "se_l2_len m = u64_mul 64 SECTOR_SIZE div 8"
      "se_cluster_sectors m = 8"
    by (auto simp: sesparse_try_into_def Let_def and_then_Ok_iff split: if_splits)
  show "se_l1_len m * se_l2_len m * se_cluster_sectors m * SECTOR_SIZE \<le> 2 ^ 46"
    using not_too_big [OF nb] m by simp
  show "se_l2_len m = 4096" "se_cluster_sectors m = 8"
    using m by (simp_all add: SECTOR_SIZE_def u64_mul_def u64_lim_def)
qed

lemma read_header_sparse_cases:
  assumes "read_header_sparse bo c src = Ok m"
  shows "(\<exists>h. vmdk3_try_into h = Ok m) \<or> (\<exists>h. vmdk4_try_into h = Ok m)"
proof -
  from assms obtain ft r where ft: "(case ft of
       Some Vmdk3 \<Rightarrow>
         and_then (map_err (DeserializationFailed ''Vmdk3Header'') (vmdk3_from_reader bo c r))
           (\<lambda>(h, _). vmdk3_try_into h)
     | Some Vmdk4 \<Rightarrow> and_then (read_header_vmdk4 bo c r) vmdk4_try_into
     | _ \<Rightarrow> Err InvalidFileHeader) = Ok m"
    unfolding read_header_sparse_def and_then_Ok_iff by (force simp: and_then_Ok_iff)
  show ?thesis
  proof (cases ft)
    case (Some t)
    then show ?thesis using ft by (cases t) (auto simp: and_then_Ok_iff)
  qed (use ft in simp)
qed

text \<open>Whatever bytes a sparse extent's header holds, if it is accepted then the size it declares,
  grain directory entries times grain table entries times grain sectors times 512, computed without
  wrap-around, is at most 2 TiB.
\<close>

theorem sparse_header_size_bounded:
  assumes "read_header_sparse bo c src = Ok m"
  shows "sm_l1_len m * sm_l2_len m * sm_cluster_sectors m * SECTOR_SIZE \<le> 2 ^ 41"
  using read_header_sparse_cases [OF assms] vmdk3_try_into_bounded vmdk4_try_into_ok(1) by blast

text \<open>
  A VMDK4 header never panics the conversion, and an accepted one has nonzero table length and
  granularity and a grain directory long enough to map its whole capacity.
\<close>

theorem vmdk4_accepted_covers_capacity:
  "vmdk4_try_into h \<noteq> Panic \<and>
   (\<forall>m. vmdk4_try_into h = Ok m \<longrightarrow>
      0 < sm_l2_len m \<and> sm_l2_len m \<le> 512 \<and> 0 < sm_cluster_sectors m \<and>
      sm_sectors m = v4_capacity h \<and>
      sm_sectors m \<le> sm_l1_len m * sm_l2_len m * sm_cluster_sectors m)"
proof -
  have "sm_sectors m = v4_capacity h" if "vmdk4_try_into h = Ok m" for m
    using that by (auto simp: vmdk4_try_into_def Let_def and_then_Ok_iff split: if_splits)
  then show ?thesis
    using vmdk4_try_into_no_panic vmdk4_try_into_ok by blast
qed

subsection \<open>Serialised headers\<close>

definition v4_bytes :: "vmdk4_header \<Rightarrow> bytes" where
  "v4_bytes h =
     v4_magic h @ to_le_bytes 4 (v4_version h) @ to_le_bytes 4 (v4_flags h) @
     to_le_bytes 8 (v4_capacity h) @ to_le_bytes 8 (v4_granularity h) @
     to_le_bytes 8 (v4_desc_offset h) @ to_le_bytes 8 (v4_desc_size h) @
     to_le_bytes 4 (v4_num_gtes_per_gt h) @ to_le_bytes 8 (v4_rgd_offset h) @
     to_le_bytes 8 (v4_gd_offset h) @ to_le_bytes 8 (v4_grain_offset h) @
     to_le_bytes 1 (v4_filler h) @ v4_check_bytes h @ to_le_bytes 2 (v4_compress_algorithm h)"

text \<open>The fields of a header are in range of their types.\<close>

definition wf_v4 :: "vmdk4_header \<Rightarrow> bool" where
  "wf_v4 h \<longleftrightarrow>
     length (v4_magic h) = 4 \<and> length (v4_check_bytes h) = 4 \<and>
     v4_version h < 2 ^ 32 \<and> v4_flags h < 2 ^ 32 \<and> v4_capacity h < 2 ^ 64 \<and>
     v4_granularity h < 2 ^ 64 \<and> v4_desc_offset h < 2 ^ 64 \<and> v4_desc_size h < 2 ^ 64 \<and>
     v4_num_gtes_per_gt h < 2 ^ 32 \<and> v4_rgd_offset h < 2 ^ 64 \<and> v4_gd_offset h < 2 ^ 64 \<and>
     v4_grain_offset h < 2 ^ 64 \<and> v4_filler h < 2 ^ 8 \<and> v4_compress_algorithm h < 2 ^ 16"

lemma read_le_drop:
  assumes "byteorder_ok bo" "serves c i data" "drop p data = to_le_bytes k n @ rest"
    "p \<le> length data" "n < 2 ^ (8 * k)"
  shows "read_le bo k c \<lparr>cur_idx = i, cur_pos = p\<rparr> = Ok (n, \<lparr>cur_idx = i, cur_pos = p + k\<rparr>)"
    and "drop (p + k) data = rest" and "p + k \<le> length data"
proof -
  have "n < 256 ^ k" using assms(5) by (simp add: power_mult)
  then show "read_le bo k c \<lparr>cur_idx = i, cur_pos = p\<rparr> = Ok (n, \<lparr>cur_idx = i, cur_pos = p + k\<rparr>)"
    by (rule read_le_at [OF assms(1-4)])
  show "drop (p + k) data = rest" using drop_step [OF assms(3)] by simp
  have "length data - p = k + length rest"
    using arg_cong [OF assms(3), of length] by simp
  then show "p + k \<le> length data" using assms(4) by simp
qed

lemma read_exact_drop:
  assumes "serves c i data" "drop p data = bs @ rest" "p \<le> length data" "length bs = k"
  shows "read_exact c \<lparr>cur_idx = i, cur_pos = p\<rparr> k = Ok (bs, \<lparr>cur_idx = i, cur_pos = p + k\<rparr>)"
    and "drop (p + k) data = rest" and "p + k \<le> length data"
proof -
  show "read_exact c \<lparr>cur_idx = i, cur_pos = p\<rparr> k = Ok (bs, \<lparr>cur_idx = i, cur_pos = p + k\<rparr>)"
    using read_exact_at [OF assms(1-3)] assms(4) by simp
  show "drop (p + k) data = rest" using drop_step [OF assms(2)] assms(4) by simp
  have "length data - p = k + length rest"
    using arg_cong [OF assms(2), of length] assms(4) by simp
  then show "p + k \<le> length data" using assms(3) by simp
qed

lemma vmdk4_from_reader_bytes:
  assumes bo: "byteorder_ok bo" and s: "serves c i data" and wf: "wf_v4 h"
    and at: "drop p data = v4_bytes h @ rest" and p: "p \<le> length data"
  shows "vmdk4_from_reader bo c \<lparr>cur_idx = i, cur_pos = p\<rparr> =
    Ok (h, \<lparr>cur_idx = i, cur_pos = p + 79\<rparr>)"
proof -
  have w: "length (v4_magic h) = 4" "length (v4_check_bytes h) = 4"
    "v4_version h < 2 ^ (8 * 4)" "v4_flags h < 2 ^ (8 * 4)" "v4_capacity h < 2 ^ (8 * 8)"
    "v4_granularity h < 2 ^ (8 * 8)" "v4_desc_offset h < 2 ^ (8 * 8)"
    "v4_desc_size h < 2 ^ (8 * 8)" "v4_num_gtes_per_gt h < 2 ^ (8 * 4)"
    "v4_rgd_offset h < 2 ^ (8 * 8)" "v4_gd_offset h < 2 ^ (8 * 8)"
    "v4_grain_offset h < 2 ^ (8 * 8)" "v4_filler h < 2 ^ (8 * 1)"
    "v4_compress_algorithm h < 2 ^ (8 * 2)"
    using wf by (simp_all add: wf_v4_def)
  have at': "drop p data = v4_magic h @ to_le_bytes 4 (v4_version h) @ to_le_bytes 4 (v4_flags h) @
     to_le_bytes 8 (v4_capacity h) @ to_le_bytes 8 (v4_granularity h) @
     to_le_bytes 8 (v4_desc_offset h) @ to_le_bytes 8 (v4_desc_size h) @
     to_le_bytes 4 (v4_num_gtes_per_gt h) @ to_le_bytes 8 (v4_rgd_offset h) @
     to_le_bytes 8 (v4_gd_offset h) @ to_le_bytes 8 (v4_grain_offset h) @
     to_le_bytes 1 (v4_filler h) @ v4_check_bytes h @
     to_le_bytes 2 (v4_compress_algorithm h) @ rest"
    unfolding at v4_bytes_def by (simp only: append_assoc)
  note r0 = read_exact_drop [OF s at' p w(1)]
  note r1 = read_le_drop [OF bo s r0(2,3) w(3)]
  note r2 = read_le_drop [OF bo s r1(2,3) w(4)]
  note r3 = read_le_drop [OF bo s r2(2,3) w(5)]
  note r4 = read_le_drop [OF bo s r3(2,3) w(6)]
  note r5 = read_le_drop [OF bo s r4(2,3) w(7)]
  note r6 = read_le_drop [OF bo s r5(2,3) w(8)]
  note r7 = read_le_drop [OF bo s r6(2,3) w(9)]
  note r8 = read_le_drop [OF bo s r7(2,3) w(10)]
  note r9 = read_le_drop [OF bo s r8(2,3) w(11)]
  note r10 = read_le_drop [OF bo s r9(2,3) w(12)]
  note r11 = read_le_drop [OF bo s r10(2,3) w(13)]
  note r12 = read_exact_drop [OF s r11(2,3) w(2)]
  note r13 = read_le_drop [OF bo s r12(2,3) w(14)]
  show ?thesis
    unfolding vmdk4_from_reader_def
    by (simp only: r0(1) r1(1) r2(1) r3(1) r4(1) r5(1) r6(1) r7(1) r8(1) r9(1) r10(1) r11(1)
      r12(1) r13(1) and_then.simps prod.case) simp
qed

text \<open>Reading a VMDK4 header at any position of a file that holds the serialised header there gives
  back exactly that header, and leaves the cursor behind its 79 bytes.
\<close>

theorem vmdk4_header_roundtrip:
  assumes "byteorder_ok bo" "serves c i data" "wf_v4 h" "drop p data = v4_bytes h @ rest"
    "p \<le> length data"
  shows "vmdk4_from_reader bo c \<lparr>cur_idx = i, cur_pos = p\<rparr> =
    Ok (h, \<lparr>cur_idx = i, cur_pos = p + 79\<rparr>)"
  using assms by (rule vmdk4_from_reader_bytes)

text \<open>A header of a 40 MiB image in grains of 64 KiB.\<close>

definition sample_v4 :: vmdk4_header where
  "sample_v4 = \<lparr>v4_magic = VMDK4_MAGIC, v4_version = 1, v4_flags = 3, v4_capacity = 81920,
     v4_granularity = 128, v4_desc_offset = 1, v4_desc_size = 20, v4_num_gtes_per_gt = 512,
     v4_rgd_offset = 21, v4_gd_offset = 26, v4_grain_offset = 128, v4_filler = 0,
     v4_check_bytes = [10, 32, 13, 10], v4_compress_algorithm = 0\<rparr>"

lemma sample_v4_wf: "wf_v4 sample_v4"
  by (simp add: wf_v4_def sample_v4_def VMDK4_MAGIC_def)

lemma length_v4_bytes: "wf_v4 h \<Longrightarrow> length (v4_bytes h) = 79"
  by (simp add: v4_bytes_def wf_v4_def)

lemma sample_v4_served:
  "serves (mem_cache (\<lambda>i. v4_bytes sample_v4)) 0 (v4_bytes sample_v4)"
  by (rule mem_cache_serves) (simp add: length_v4_bytes [OF sample_v4_wf] u64_lim_def)

theorem vmdk4_header_roundtrip_witness:
  "vmdk4_from_reader std_byteorder (mem_cache (\<lambda>i. v4_bytes sample_v4)) (crs_new 0) =
    Ok (sample_v4, \<lparr>cur_idx = 0, cur_pos = 79\<rparr>)"
  using vmdk4_header_roundtrip [OF std_byteorder_ok sample_v4_served sample_v4_wf, of 0 "[]"]
  by (simp add: crs_new_def)

definition sample_v4_meta :: vmdk_sparse_meta where
  "sample_v4_meta = \<lparr>sm_compressed = False, sm_has_zero_grain = False, sm_sectors = 81920,
     sm_l1_offset = 21 * 512, sm_l1_len = 2, sm_l2_len = 512, sm_cluster_sectors = 128\<rparr>"

lemma sample_v4_try_into: "vmdk4_try_into sample_v4 = Ok sample_v4_meta"
  by (simp add: vmdk4_try_into_def sample_v4_def sample_v4_meta_def Let_def u64_mul_def u64_lim_def
      checked_mul_def checked_product_def too_big_def div_ceil_def SECTOR_SIZE_def)

theorem vmdk4_accepted_covers_capacity_witness:
  "vmdk4_try_into sample_v4 = Ok sample_v4_meta \<and> sm_sectors sample_v4_meta = 81920 \<and>
   sm_sectors sample_v4_meta \<le>
     sm_l1_len sample_v4_meta * sm_l2_len sample_v4_meta * sm_cluster_sectors sample_v4_meta"
  using vmdk4_accepted_covers_capacity [of sample_v4] sample_v4_try_into
  by (simp add: sample_v4_meta_def)

lemma sample_v4_read:
  "read_header_sparse std_byteorder (mem_cache (\<lambda>i. v4_bytes sample_v4)) (crs_new 0) =
    Ok sample_v4_meta"
proof -
  let ?c = "mem_cache (\<lambda>i. v4_bytes sample_v4)"
  have "read_exact ?c (crs_new 0) 8 =
      Ok (sub_list (v4_bytes sample_v4) 0 8, \<lparr>cur_idx = 0, cur_pos = 8\<rparr>)"
    using read_exact_serves [of ?c "crs_new 0" "v4_bytes sample_v4" 8] sample_v4_served
    by (simp add: crs_new_def length_v4_bytes [OF sample_v4_wf] u64_lim_def)
  moreover have "take 4 (sub_list (v4_bytes sample_v4) 0 8) = VMDK4_MAGIC"
    by (simp add: sub_list_def v4_bytes_def sample_v4_def VMDK4_MAGIC_def)
  ultimately have "check_signature ?c (crs_new 0) = Ok (Some Vmdk4, \<lparr>cur_idx = 0, cur_pos = 8\<rparr>)"
    by (simp add: check_signature_def signature_to_file_type_def VMDK4_MAGIC_def VMDK3_MAGIC_def)
  moreover have "crs_seek ?c r (SeekStart 0) = Ok (r\<lparr>cur_pos := 0\<rparr>)" for r
    by (simp add: crs_seek_def mem_cache_def checked_add_signed_def u64_lim_def)
  moreover have "vmdk4_from_reader std_byteorder ?c (crs_new 0) =
      Ok (sample_v4, \<lparr>cur_idx = 0, cur_pos = 79\<rparr>)"
    using vmdk4_from_reader_bytes [OF std_byteorder_ok sample_v4_served sample_v4_wf, of 0 "[]"]
    by (simp add: crs_new_def)
  moreover have "\<not> use_secondary sample_v4" by (simp add: use_secondary_def sample_v4_def)
  ultimately show ?thesis
    using sample_v4_try_into
    by (simp add: read_header_sparse_def read_header_vmdk4_def crs_new_def)
qed

theorem sparse_header_size_bounded_witness:
  "read_header_sparse std_byteorder (mem_cache (\<lambda>i. v4_bytes sample_v4)) (crs_new 0) =
    Ok sample_v4_meta \<and>
   sm_l1_len sample_v4_meta * sm_l2_len sample_v4_meta * sm_cluster_sectors sample_v4_meta *
     SECTOR_SIZE \<le> 2 ^ 41"
  using sparse_header_size_bounded [OF sample_v4_read] sample_v4_read by simp

lemma vmdk3_zero_granularity:
  assumes "v3_granularity h = 0" "v3_l1dir_size h < 2 ^ 32"
  shows "\<exists>m. vmdk3_try_into h = Ok m \<and> sm_cluster_sectors m = 0 \<and> sm_l1_len m = v3_l1dir_size h \<and>
    sm_l1_offset m = u64_mul (v3_l1dir_offset h) SECTOR_SIZE"
  using assms
  by (simp add: vmdk3_try_into_def Let_def checked_product_def checked_mul_def too_big_def
      SECTOR_SIZE_def u64_lim_def)

end
