(* ===== verification/VmdkStorage.thy ===== *)
theory VmdkStorage
  imports VmdkHeader
begin

text \<open>
  \<open>vmdk/src/storage.rs\<close>: how the bytes of one extent are read.  A flat extent is one run of a file, a
  sparse extent maps grains through its grain table (a stored grain, a compressed grain, or the
  marker of a zeroed grain) and a ZERO extent has no file.  Every read takes a cursor of its own.

  The DEFLATE decoder of \<open>flate2\<close> is a parameter, a record \<open>inflater\<close> over an abstract decoder state.
  What the code relies on is \<open>decodes infl d out\<close>: reads from \<open>d\<close> deliver \<open>out\<close> piece by piece and
  an empty piece only at the end, as \<open>std::io::Read\<close> documents.

  A grain table (a \<open>HashMap\<close>) is an association list, in the order in which the map is iterated.

  Shown: a compressed grain is the decoded stream padded with zeros, or an error when the stream is
  longer than the grain; a read of any storage gives exactly the bytes that the byte-wise
  description \<open>storage_byte\<close> assigns to the offsets, and at least one byte (progress).
\<close>

datatype read_error =
    OffsetBeyondEnd nat nat
  | OffsetNotFound nat
  | RdIoError io_error

record 'd inflater =
  inf_new :: "bytes \<Rightarrow> 'd"
  inf_read :: "'d \<Rightarrow> nat \<Rightarrow> (bytes \<times> 'd, io_error) result"

record sparse_storage =
  sp_source :: cursor
  sp_filename :: string
  sp_grain_table :: "(nat \<times> nat) list"
  sp_grain_sectors :: nat
  sp_has_compressed_grain :: bool
  sp_zeroed_grain_table_entry :: bool
  sp_start_sector :: nat

record flat_storage =
  fs_source :: cursor
  fs_offset :: nat
  fs_start_sector :: nat

datatype extent_storage = Sparse sparse_storage | Flat flat_storage | Zero

subsection \<open>Compressed grains\<close>

text \<open>
  The decode loop: \<open>out\<close> is the part \<open>buf[..c]\<close> filled so far of a buffer of \<open>len\<close> zeros.  A decoder
  that claims more bytes than it was given room for makes the next slice \<open>buf[c..]\<close> panic.
\<close>

function decode_grain ::
    "'d inflater \<Rightarrow> 'd \<Rightarrow> nat \<Rightarrow> bytes \<Rightarrow> (bytes, io_error) result" where
  "decode_grain infl d len out =
     (if length out = len then
        and_then (inf_read infl d 1) (\<lambda>p.
          if fst p \<noteq> [] then Err InvalidData else Ok out)
      else if length out > len then Panic
      else
        and_then (inf_read infl d (len - length out)) (\<lambda>p.
          if fst p = [] then Ok (out @ replicate (len - length out) 0)
          else decode_grain infl (snd p) len (out @ fst p)))"
  by pat_completeness auto
termination
  by (relation "measure (\<lambda>(infl, d, len, out). Suc len - length out)")
    (auto simp: neq_Nil_conv)

declare decode_grain.simps [simp del]

definition zlib_header_ok :: "nat \<Rightarrow> bool" where
  "zlib_header_ok header \<longleftrightarrow>
     header mod 31 = 0 \<and> header AND 0x0F00 = 8 * 256 \<and> header AND 0x0020 = 0"

definition read_and_decompress_grain ::
    "byteorder \<Rightarrow> 'd inflater \<Rightarrow> cache \<Rightarrow> cursor \<Rightarrow> nat \<Rightarrow> (bytes, io_error) result" where
  "read_and_decompress_grain bo infl c file grain_size =
     and_then (read_le bo 8 c file) (\<lambda>(lba, file).
     and_then (read_le bo 4 c file) (\<lambda>(data_size, file).
     if data_size > u64_mul 2 grain_size then Err InvalidData
     else
       and_then (read_be bo 2 c file) (\<lambda>(header, file).
       if \<not> zlib_header_ok header then Err InvalidData
       else
         and_then (read_exact c file data_size) (\<lambda>(buffer, file).
         decode_grain infl (inf_new infl buffer) grain_size []))))"

subsection \<open>Reads\<close>

text \<open>The part of \<open>SparseStorage::read\<close> after the lookup: \<open>r\<close> bytes at \<open>grain_data_offset\<close> of the grain
  that the table places at \<open>sector_num\<close>.\<close>

definition sparse_read_grain ::
    "byteorder \<Rightarrow> 'd inflater \<Rightarrow> cache \<Rightarrow> sparse_storage \<Rightarrow> nat \<Rightarrow> nat \<Rightarrow> nat \<Rightarrow> nat
      \<Rightarrow> (bytes, io_error) result" where
  "sparse_read_grain bo infl c st grain_size grain_data_offset r sector_num =
     (if sp_zeroed_grain_table_entry st \<and> sector_num = 1 then Ok (replicate r 0)
      else
        let grain_start = u64_mul sector_num SECTOR_SIZE in
        if sp_has_compressed_grain st then
          and_then (crs_seek c (sp_source st) (SeekStart grain_start)) (\<lambda>file.
          and_then (read_and_decompress_grain bo infl c file grain_size) (\<lambda>grain_data.
          slice grain_data grain_data_offset (grain_data_offset + r)))
        else
          and_then (crs_seek c (sp_source st)
              (SeekStart (u64_add grain_start grain_data_offset))) (\<lambda>file.
          and_then (read_exact c file r) (\<lambda>(bs, file). Ok bs)))"

definition sparse_read ::
    "byteorder \<Rightarrow> 'd inflater \<Rightarrow> cache \<Rightarrow> sparse_storage \<Rightarrow> nat \<Rightarrow> nat
      \<Rightarrow> (bytes, read_error) result" where
  "sparse_read bo infl c st offset buflen =
     (if sp_grain_sectors st = 0 then Err (RdIoError InvalidData)
      else
        let grain_size = u64_mul (sp_grain_sectors st) SECTOR_SIZE;
            local = u64_sub offset (u64_mul (sp_start_sector st) SECTOR_SIZE)
        in if grain_size = 0 then Panic
        else
          let grain_index = local div grain_size;
              grain_data_offset = local mod grain_size;
              r = min (grain_size - grain_data_offset) buflen
          in and_then (ok_or (RdIoError InvalidData) (map_of (sp_grain_table st) grain_index))
            (\<lambda>sector_num.
            map_err RdIoError
              (sparse_read_grain bo infl c st grain_size grain_data_offset r sector_num)))"

definition flat_read ::
    "cache \<Rightarrow> flat_storage \<Rightarrow> nat \<Rightarrow> nat \<Rightarrow> (bytes, read_error) result" where
  "flat_read c st offset buflen =
     (let file_offset = u64_add (u64_sub offset (u64_mul (fs_start_sector st) SECTOR_SIZE))
                                (u64_mul (fs_offset st) SECTOR_SIZE)
      in map_err RdIoError
        (and_then (crs_seek c (fs_source st) (SeekStart file_offset)) (\<lambda>file.
         and_then (read_exact c file buflen) (\<lambda>(bs, file). Ok bs))))"

definition read_zero :: "nat \<Rightarrow> bytes" where
  "read_zero buflen = replicate buflen 0"

fun storage_read ::
    "byteorder \<Rightarrow> 'd inflater \<Rightarrow> cache \<Rightarrow> extent_storage \<Rightarrow> nat \<Rightarrow> nat
      \<Rightarrow> (bytes, read_error) result" where
  "storage_read bo infl c (Sparse st) offset buflen = sparse_read bo infl c st offset buflen"
| "storage_read bo infl c (Flat st) offset buflen = flat_read c st offset buflen"
| "storage_read bo infl c Zero offset buflen = Ok (read_zero buflen)"

subsection \<open>What a decoder promises\<close>

coinductive decodes :: "'d inflater \<Rightarrow> 'd \<Rightarrow> bytes \<Rightarrow> bool" for infl where
  decodesI: "(\<And>n. \<exists>k d'. inf_read infl d n = Ok (take k out, d') \<and> k \<le> n \<and>
      (0 < n \<longrightarrow> out \<noteq> [] \<longrightarrow> 0 < k) \<and> decodes infl d' (drop k out))
    \<Longrightarrow> decodes infl d out"

lemma decodesD:
  assumes "decodes infl d out"
  obtains k d' where "inf_read infl d n = Ok (take k out, d')" "k \<le> n"
    "0 < n \<Longrightarrow> out \<noteq> [] \<Longrightarrow> 0 < k" "decodes infl d' (drop k out)"
  using assms by (cases rule: decodes.cases) blast

text \<open>A decoder with nothing to decode: it hands out its input unchanged (the stored-block case).\<close>

definition stored_inflater :: "bytes inflater" where
  "stored_inflater = \<lparr>inf_new = (\<lambda>bs. bs), inf_read = (\<lambda>d n. Ok (take n d, drop n d))\<rparr>"

lemma stored_inflater_decodes: "decodes stored_inflater d d"
proof (coinduction arbitrary: d)
  case decodes
  then show ?case
    by (auto simp: stored_inflater_def intro!: exI [of _ n for n])
qed

lemma decode_grain_decodes:
  assumes "decodes infl d out" "length acc \<le> len"
  shows "decode_grain infl d len acc =
    (if length acc + length out \<le> len
     then Ok (acc @ out @ replicate (len - length acc - length out) 0)
     else Err InvalidData)"
  using assms
proof (induction infl d len acc arbitrary: out rule: decode_grain.induct)
  case (1 infl d len acc)
  show ?case
  proof (cases "length acc = len")
    case True
    obtain k d' where "inf_read infl d 1 = Ok (take k out, d')" "k \<le> 1" "out \<noteq> [] \<Longrightarrow> 0 < k"
      by (rule decodesD [OF 1(2), of 1]) auto
    then show ?thesis using True by (subst decode_grain.simps) (cases out; auto)
  next
    case False
    then have lt: "length acc < len" using 1(3) by simp
    obtain k d' where r: "inf_read infl d (len - length acc) = Ok (take k out, d')"
      "k \<le> len - length acc" "out \<noteq> [] \<Longrightarrow> 0 < k" "decodes infl d' (drop k out)"
      by (rule decodesD [OF 1(2), of "len - length acc"]) (use lt in auto)
    show ?thesis
    proof (cases "take k out = []")
      case True
      then have "out = []" using r(3) by auto
      then show ?thesis using False lt r(1) by (subst decode_grain.simps) simp
    next
      case ne: False
      have fits: "length (acc @ take k out) \<le> len" using r(2) lt by simp
      have eqs: "length (acc @ take k out) + length (drop k out) = length acc + length out"
        by simp
      have cat: "(acc @ take k out) @ drop k out @ zs = acc @ out @ zs" for zs
        by (metis append.assoc append_take_drop_id)
      have "decode_grain infl d' len (acc @ take k out) =
          (if length acc + length out \<le> len
           then Ok (acc @ out @ replicate (len - length acc - length out) 0)
           else Err InvalidData)"
        using 1(1) [OF False _ _ _, of "(take k out, d')" "drop k out"] lt ne r fits
        by (simp only: fst_conv snd_conv eqs cat diff_diff_left) simp
      moreover have "decode_grain infl d len acc = decode_grain infl d' len (acc @ take k out)"
        using False lt r(1) ne by (subst decode_grain.simps) simp
      ultimately show ?thesis by simp
    qed
  qed
qed

text \<open>
  A compressed grain whose decoded stream fits is that stream padded with zeros to the grain size;
  a stream longer than the grain is an error, never a silent truncation.  The loop ends in both
  cases, however the decoder splits its output.
\<close>

theorem decode_grain_exact_or_error:
  assumes "decodes infl d out"
  shows "decode_grain infl d len [] =
    (if length out \<le> len then Ok (out @ replicate (len - length out) 0) else Err InvalidData)"
  using decode_grain_decodes [OF assms, of "[]" len] by simp

theorem decode_grain_exact_or_error_witness:
  "decode_grain stored_inflater [1, 2, 3] 4 [] = Ok [1, 2, 3, 0] \<and>
   decode_grain stored_inflater [1, 2, 3] 2 [] = Err InvalidData"
  using decode_grain_exact_or_error [OF stored_inflater_decodes, of "[1, 2, 3]"]
  by (simp add: numeral_eq_Suc)

subsection \<open>What a storage holds, byte by byte\<close>

text \<open>
  The files behind the cache are \<open>files idx\<close>.  \<open>storage_byte\<close> is the byte of an image offset, if the
  storage has one there.
\<close>

definition nth_byte :: "bytes \<Rightarrow> nat \<Rightarrow> u8 option" where
  "nth_byte bs i = (if i < length bs then Some (bs ! i) else None)"

definition grain_content ::
    "byteorder \<Rightarrow> 'd inflater \<Rightarrow> cache \<Rightarrow> sparse_storage \<Rightarrow> nat \<Rightarrow> nat \<Rightarrow> bytes option" where
  "grain_content bo infl c st gs sector =
     (case crs_seek c (sp_source st) (SeekStart (sector * SECTOR_SIZE)) of
        Ok file \<Rightarrow>
          (case read_and_decompress_grain bo infl c file gs of Ok bs \<Rightarrow> Some bs | _ \<Rightarrow> None)
      | _ \<Rightarrow> None)"

definition grain_byte ::
    "byteorder \<Rightarrow> 'd inflater \<Rightarrow> cache \<Rightarrow> (nat \<Rightarrow> bytes) \<Rightarrow> sparse_storage \<Rightarrow> nat \<Rightarrow> nat \<Rightarrow> nat
      \<Rightarrow> u8 option" where
  "grain_byte bo infl c files st gs sector p =
     (if sp_zeroed_grain_table_entry st \<and> sector = 1 then Some 0
      else if sp_has_compressed_grain st then
        Option.bind (grain_content bo infl c st gs sector) (\<lambda>bs. nth_byte bs p)
      else nth_byte (files (cur_idx (sp_source st))) (sector * SECTOR_SIZE + p))"

fun storage_byte ::
    "byteorder \<Rightarrow> 'd inflater \<Rightarrow> cache \<Rightarrow> (nat \<Rightarrow> bytes) \<Rightarrow> extent_storage \<Rightarrow> nat \<Rightarrow> u8 option" where
  "storage_byte bo infl c files (Sparse st) off =
     (let gs = sp_grain_sectors st * SECTOR_SIZE;
          l = off - sp_start_sector st * SECTOR_SIZE
      in Option.bind (map_of (sp_grain_table st) (l div gs)) (\<lambda>sector.
           grain_byte bo infl c files st gs sector (l mod gs)))"
| "storage_byte bo infl c files (Flat st) off =
     nth_byte (files (cur_idx (fs_source st)))
       (off - fs_start_sector st * SECTOR_SIZE + fs_offset st * SECTOR_SIZE)"
| "storage_byte bo infl c files Zero off = Some 0"

text \<open>In range of the machine integers for offsets up to \<open>lim\<close>, and served by the cache.\<close>

fun wf_storage :: "cache \<Rightarrow> (nat \<Rightarrow> bytes) \<Rightarrow> nat \<Rightarrow> extent_storage \<Rightarrow> bool" where
  "wf_storage c files lim (Sparse st) \<longleftrightarrow>
     0 < sp_grain_sectors st \<and> sp_grain_sectors st * SECTOR_SIZE < u64_lim \<and>
     (\<forall>e \<in> set (sp_grain_table st). (snd e + sp_grain_sectors st) * SECTOR_SIZE < u64_lim) \<and>
     serves c (cur_idx (sp_source st)) (files (cur_idx (sp_source st)))"
| "wf_storage c files lim (Flat st) \<longleftrightarrow>
     fs_offset st * SECTOR_SIZE + lim < u64_lim \<and>
     serves c (cur_idx (fs_source st)) (files (cur_idx (fs_source st)))"
| "wf_storage c files lim Zero \<longleftrightarrow> True"

fun storage_start :: "extent_storage \<Rightarrow> nat" where
  "storage_start (Sparse st) = sp_start_sector st * SECTOR_SIZE"
| "storage_start (Flat st) = fs_start_sector st * SECTOR_SIZE"
| "storage_start Zero = 0"

definition reads_bytes :: "(nat \<Rightarrow> u8 option) \<Rightarrow> nat \<Rightarrow> nat \<Rightarrow> (bytes, 'e) result \<Rightarrow> bool" where
  "reads_bytes f off n r \<longleftrightarrow>
     (\<forall>bs. r = Ok bs \<longrightarrow> (0 < length bs \<and> length bs \<le> n \<and>
        (\<forall>i < length bs. f (off + i) = Some (bs ! i)))) \<and>
     ((\<forall>i < n. f (off + i) \<noteq> None) \<longrightarrow> is_ok r)"

lemma seek_start_serves:
  assumes "serves c (cur_idx r) data" "p < u64_lim"
  shows "crs_seek c r (SeekStart p) =
    (if p \<le> length data then Ok (r\<lparr>cur_pos := p\<rparr>) else Err InvalidInput)"
  using servesD(1,2) [OF assms(1)] assms(2)
  by (simp add: crs_seek_def checked_add_signed_def)

lemma seek_read_serves:
  assumes s: "serves c (cur_idx r) data" and "p + n < u64_lim"
  shows "and_then (crs_seek c r (SeekStart p)) (\<lambda>f. and_then (read_exact c f n) (\<lambda>(bs, f). Ok bs)) =
    (if p + n \<le> length data then Ok (sub_list data p n)
     else Err (if p \<le> length data then UnexpectedEof else InvalidInput))"
  using seek_start_serves [OF s, of p] read_exact_serves [of c "r\<lparr>cur_pos := p\<rparr>" data n] assms
  by auto

lemma decode_grain_length:
  "decode_grain infl d len out = Ok bs \<Longrightarrow> length bs = len"
proof (induction infl d len out rule: decode_grain.induct)
  case (1 infl d len out)
  show ?case
  proof (cases "length out < len")
    case True
    with 1(2) obtain p where p: "inf_read infl d (len - length out) = Ok p"
      "(if fst p = [] then Ok (out @ replicate (len - length out) 0)
        else decode_grain infl (snd p) len (out @ fst p)) = Ok bs"
      by (subst (asm) decode_grain.simps) (auto simp: and_then_Ok_iff)
    show ?thesis
    proof (cases "fst p = []")
      case True
      then show ?thesis using p \<open>length out < len\<close> by auto
    next
      case False
      then show ?thesis using 1(1) [OF _ _ p(1) False] p(2) True by simp
    qed
  next
    case False
    then show ?thesis
      using 1(2) by (subst (asm) decode_grain.simps) (auto simp: and_then_Ok_iff split: if_splits)
  qed
qed

lemma read_and_decompress_grain_length:
  "read_and_decompress_grain bo infl c file gs = Ok bs \<Longrightarrow> length bs = gs"
  by (auto simp: read_and_decompress_grain_def and_then_Ok_iff split: prod.splits if_splits
      dest: decode_grain_length)

lemma div_mod_within:
  fixes m g i :: nat
  assumes "m mod g + i < g"
  shows "(m + i) div g = m div g" "(m + i) mod g = m mod g + i"
proof -
  have e: "m + i = m div g * g + (m mod g + i)" by simp
  show "(m + i) div g = m div g" unfolding e using assms
    by (metis add.right_neutral div_less div_mult_self3 less_nat_zero_code)
  show "(m + i) mod g = m mod g + i" unfolding e using assms by (metis mod_less mod_mult_self3)
qed

lemma sub_list_nth_byte:
  assumes "p + n \<le> length data" "i < n"
  shows "nth_byte data (p + i) = Some (sub_list data p n ! i)"
  using assms by (simp add: nth_byte_def nth_sub_list)

lemma reads_bytes_map_err [simp]:
  "reads_bytes f off n (map_err g r) \<longleftrightarrow> reads_bytes f off n r"
  by (cases r) (auto simp: reads_bytes_def)

lemma reads_bytes_OkI:
  assumes "0 < r" "r \<le> n" "length bs = r" "\<And>i. i < r \<Longrightarrow> f (off + i) = Some (bs ! i)"
  shows "reads_bytes f off n (Ok bs)"
  using assms by (auto simp: reads_bytes_def)

lemma reads_bytes_failI:
  assumes "\<not> is_ok x" "i < n" "f (off + i) = None"
  shows "reads_bytes f off n x"
  using assms by (auto simp: reads_bytes_def)

lemma sparse_read_compressed:
  assumes "sp_has_compressed_grain st" "\<not> (sp_zeroed_grain_table_entry st \<and> sec = 1)"
    and "sec * SECTOR_SIZE < u64_lim" "o' + r \<le> gs"
  shows "grain_content bo infl c st gs sec = Some gd \<Longrightarrow>
      length gd = gs \<and> sparse_read_grain bo infl c st gs o' r sec = Ok (sub_list gd o' r)"
    and "grain_content bo infl c st gs sec = None \<Longrightarrow>
      \<not> is_ok (sparse_read_grain bo infl c st gs o' r sec)"
  using assms
  by (auto simp: grain_content_def sparse_read_grain_def Let_def slice_def sub_list_def
      split: result.splits dest!: read_and_decompress_grain_length)

lemma sparse_read_plain:
  assumes "\<not> sp_has_compressed_grain st" "\<not> (sp_zeroed_grain_table_entry st \<and> sec = 1)"
    and s: "serves c (cur_idx (sp_source st)) d" and "sec * SECTOR_SIZE + o' + r < u64_lim"
  shows "sparse_read_grain bo infl c st gs o' r sec =
    (if sec * SECTOR_SIZE + o' + r \<le> length d then Ok (sub_list d (sec * SECTOR_SIZE + o') r)
     else Err (if sec * SECTOR_SIZE + o' \<le> length d then UnexpectedEof else InvalidInput))"
  using assms seek_read_serves [OF s, of "sec * SECTOR_SIZE + o'" r]
  by (auto simp: sparse_read_grain_def Let_def)

lemma sparse_read_grain_bytes:
  assumes s: "serves c (cur_idx (sp_source st)) (files (cur_idx (sp_source st)))"
    and r: "0 < r" "r \<le> n" "o' + r \<le> gs" and sec: "sec * SECTOR_SIZE + gs < u64_lim"
    and f: "\<And>i. i < r \<Longrightarrow> f (off + i) = grain_byte bo infl c files st gs sec (o' + i)"
  shows "reads_bytes f off n (sparse_read_grain bo infl c st gs o' r sec)"
proof -
  let ?d = "files (cur_idx (sp_source st))"
  consider (zero) "sp_zeroed_grain_table_entry st \<and> sec = 1"
    | (comp) "\<not> (sp_zeroed_grain_table_entry st \<and> sec = 1)" "sp_has_compressed_grain st"
    | (plain) "\<not> (sp_zeroed_grain_table_entry st \<and> sec = 1)" "\<not> sp_has_compressed_grain st"
    by blast
  then show ?thesis
  proof cases
    case zero
    then have "f (off + i) = Some (replicate r 0 ! i)" if "i < r" for i
      using f [OF that] that by (simp add: grain_byte_def)
    then show ?thesis
      using r zero by (auto simp: sparse_read_grain_def intro!: reads_bytes_OkI)
  next
    case comp
    note c' = sparse_read_compressed [OF comp(2,1) _ r(3), of bo infl c]
    show ?thesis
    proof (cases "grain_content bo infl c st gs sec")
      case None
      then have "f (off + 0) = None" using f [OF r(1)] comp by (simp add: grain_byte_def)
      then show ?thesis using c'(2) [OF _ None] sec r by (intro reads_bytes_failI [of _ 0]) auto
    next
      case (Some gd)
      then have gd: "length gd = gs" "sparse_read_grain bo infl c st gs o' r sec = Ok (sub_list gd o' r)"
        using c'(1) [OF _ Some] sec by auto
      then have "f (off + i) = Some (sub_list gd o' r ! i)" if "i < r" for i
        using f [OF that] that comp Some r(3) by (auto simp: grain_byte_def sub_list_nth_byte)
      then show ?thesis unfolding gd(2) using r gd(1) by (intro reads_bytes_OkI [of r]) auto
    qed
  next
    case plain
    have fb: "f (off + i) = nth_byte ?d (sec * SECTOR_SIZE + o' + i)" if "i < r" for i
      using f [OF that] plain by (auto simp: grain_byte_def add.assoc)
    note p' = sparse_read_plain [OF plain(2,1) s, of o' r bo infl gs]
    show ?thesis
    proof (cases "sec * SECTOR_SIZE + o' + r \<le> length ?d")
      case True
      then show ?thesis
        using p' sec r fb by (auto simp: sub_list_nth_byte intro!: reads_bytes_OkI [of r])
    next
      case False
      then have "f (off + (r - 1)) = None" using fb [of "r - 1"] r by (simp add: nth_byte_def)
      then show ?thesis using p' sec r False by (intro reads_bytes_failI [of _ "r - 1"]) auto
    qed
  qed
qed

lemma sparse_read_bytes:
  assumes wf: "wf_storage c files lim (Sparse st)" and n: "0 < n"
    and b: "sp_start_sector st * SECTOR_SIZE \<le> off" "off < u64_lim"
  shows "reads_bytes (storage_byte bo infl c files (Sparse st)) off n
    (sparse_read bo infl c st off n)"
proof -
  define gs where "gs = sp_grain_sectors st * SECTOR_SIZE"
  define l where "l = off - sp_start_sector st * SECTOR_SIZE"
  define r where "r = min (gs - l mod gs) n"
  have gs: "0 < gs" "gs < u64_lim" using wf by (auto simp: SECTOR_SIZE_def gs_def)
  have r: "0 < r" "r \<le> n" "l mod gs + r \<le> gs"
    using n mod_less_divisor [OF gs(1), of l] by (auto simp: r_def)
  have within: "(off + i - sp_start_sector st * SECTOR_SIZE) div gs = l div gs"
    "(off + i - sp_start_sector st * SECTOR_SIZE) mod gs = l mod gs + i" if "i < r" for i
    using div_mod_within [of l gs i] that r(3) b(1) by (auto simp: l_def)
  have rd: "sparse_read bo infl c st off n =
      and_then (ok_or (RdIoError InvalidData) (map_of (sp_grain_table st) (l div gs)))
        (\<lambda>sec. map_err RdIoError (sparse_read_grain bo infl c st gs (l mod gs) r sec))"
    using wf gs b by (simp add: sparse_read_def Let_def gs_def l_def r_def)
  have sb: "storage_byte bo infl c files (Sparse st) (off + i) =
      Option.bind (map_of (sp_grain_table st) (l div gs)) (\<lambda>sec.
        grain_byte bo infl c files st gs sec (l mod gs + i))" if "i < r" for i
    using within [OF that] by (simp add: Let_def gs_def)
  show ?thesis
  proof (cases "map_of (sp_grain_table st) (l div gs)")
    case None
    then show ?thesis using rd sb [of 0] r by (intro reads_bytes_failI [of _ 0]) auto
  next
    case (Some sec)
    then have "sec * SECTOR_SIZE + gs < u64_lim"
      using wf by (auto dest!: map_of_SomeD simp: gs_def algebra_simps)
    then show ?thesis
      using rd Some sparse_read_grain_bytes [OF _ r, of c st files sec _ off bo infl] wf sb by simp
  qed
qed

lemma flat_read_bytes:
  assumes wf: "wf_storage c files lim (Flat st)" and n: "0 < n"
    and b: "fs_start_sector st * SECTOR_SIZE \<le> off" "off + n \<le> lim"
  shows "reads_bytes (storage_byte bo infl c files (Flat st)) off n (flat_read c st off n)"
proof -
  let ?d = "files (cur_idx (fs_source st))"
  define p where "p = off - fs_start_sector st * SECTOR_SIZE + fs_offset st * SECTOR_SIZE"
  have lim: "fs_offset st * SECTOR_SIZE + lim < u64_lim" using wf by simp
  have pn: "p + n < u64_lim" using b lim by (simp add: p_def)
  have rd: "flat_read c st off n = map_err RdIoError
      (and_then (crs_seek c (fs_source st) (SeekStart p)) (\<lambda>file.
         and_then (read_exact c file n) (\<lambda>(bs, file). Ok bs)))"
    using b lim pn by (simp add: flat_read_def Let_def p_def)
  have sb: "storage_byte bo infl c files (Flat st) (off + i) = nth_byte ?d (p + i)" for i
    using b by (simp add: p_def algebra_simps)
  note sr = seek_read_serves [of c "fs_source st" ?d p n]
  show ?thesis
  proof (cases "p + n \<le> length ?d")
    case True
    then show ?thesis
      using rd sr wf pn n sb by (auto simp: sub_list_nth_byte intro!: reads_bytes_OkI [of n])
  next
    case False
    then have "storage_byte bo infl c files (Flat st) (off + (n - 1)) = None"
      using sb [of "n - 1"] n by (simp add: nth_byte_def)
    then show ?thesis using rd sr wf pn n False by (intro reads_bytes_failI [of _ "n - 1"]) auto
  qed
qed

lemma storage_read_bytes:
  assumes "wf_storage c files lim st" "0 < n" "storage_start st \<le> off" "off + n \<le> lim"
    "lim < u64_lim"
  shows "reads_bytes (storage_byte bo infl c files st) off n (storage_read bo infl c st off n)"
proof (cases st)
  case (Sparse s)
  then show ?thesis using assms sparse_read_bytes [of c files lim s n off] by simp
next
  case (Flat f)
  then show ?thesis using assms flat_read_bytes [of c files lim f n off] by simp
next
  case Zero
  then show ?thesis using assms by (auto simp: read_zero_def intro!: reads_bytes_OkI [of n])
qed

end
