(* ===== verification/VmdkExtents.thy ===== *)
theory VmdkExtents
  imports VmdkStorage
begin

text \<open>
  \<open>vmdk/src/extents.rs\<close>: the two-level grain tables of sparse and SESPARSE extents, the opening of the
  extents of one image, and the sector spans an extent contributes.

  The system around the reader is the record \<open>vmdk_sys\<close>: the crates \<open>byteorder\<close> and \<open>url\<close>
  (\<open>Url::join\<close>), \<open>source_for_url\<close>, the cache built over the table of registered sources, and the
  order in which a \<open>HashMap\<close> is iterated (\<open>sys_hash_order\<close>, a permutation).  The \<open>BufReader\<close> in front of the grain table reads is left
  out: it changes when bytes are fetched, not which.

  A key of a grain table is below the number of grains of the extent, so \<open>cur_grain + i\<close> is written
  with the unbounded addition.

  Shown: the keys of a grain table are grains of the extent, and the spans of an extent stay inside
  its declared sector range.
\<close>

record extent =
  ex_start_sector :: nat
  ex_sectors :: nat
  ex_storage :: extent_storage

definition grain_span :: "nat \<Rightarrow> nat \<Rightarrow> nat \<Rightarrow> nat \<Rightarrow> (nat \<times> nat) option" where
  "grain_span start_sector extent_end grain_size goff =
     (let beg = u64_add start_sector (u64_mul goff grain_size) in
      if extent_end \<le> beg then None
      else Some (beg, min (u64_add beg grain_size) extent_end))"

definition extent_spans :: "extent \<Rightarrow> (nat \<times> nat) list" where
  "extent_spans ex =
     (let extent_end = u64_add (ex_start_sector ex) (ex_sectors ex) in
      case ex_storage ex of
        Sparse st \<Rightarrow>
          List.map_filter (grain_span (ex_start_sector ex) extent_end (sp_grain_sectors st))
            (map fst (sp_grain_table st))
      | _ \<Rightarrow> [(ex_start_sector ex, extent_end)])"

definition has_file :: "extent \<Rightarrow> bool" where
  "has_file ex \<longleftrightarrow> ex_storage ex \<noteq> Zero"

subsection \<open>Grain tables\<close>

definition hm_insert :: "'k \<Rightarrow> 'v \<Rightarrow> ('k \<times> 'v) list \<Rightarrow> ('k \<times> 'v) list" where
  "hm_insert k v m = (k, v) # filter (\<lambda>e. fst e \<noteq> k) m"

definition hm_extend :: "('k \<times> 'v) list \<Rightarrow> ('k \<times> 'v) list \<Rightarrow> ('k \<times> 'v) list" where
  "hm_extend m es = fold (\<lambda>(k, v). hm_insert k v) es m"

lemma map_of_hm_insert [simp]: "map_of (hm_insert k v m) = (map_of m)(k \<mapsto> v)"
proof -
  have "map_of (filter (\<lambda>e. fst e \<noteq> k) m) x = map_of m x" if "x \<noteq> k" for x
    using that by (induction m) auto
  then show ?thesis by (auto simp: hm_insert_def)
qed

lemma keys_hm_insert [simp]: "fst ` set (hm_insert k v m) = insert k (fst ` set m)"
  by (auto simp: hm_insert_def image_iff)

lemma keys_hm_extend [simp]: "fst ` set (hm_extend m es) = fst ` set m \<union> fst ` set es"
proof (induction es arbitrary: m)
  case (Cons e es)
  have "hm_extend m (e # es) = hm_extend (hm_insert (fst e) (snd e) m) es"
    by (simp add: hm_extend_def case_prod_beta)
  then show ?case by (simp add: Cons)
qed (simp add: hm_extend_def)

text \<open>The entries of one level 2 table that are in use, with their grain numbers.\<close>

definition sparse_entries :: "nat \<Rightarrow> nat list \<Rightarrow> (nat \<times> nat) list" where
  "sparse_entries cur_grain l2_entries =
     filter (\<lambda>e. snd e \<noteq> 0) (zip [cur_grain ..< cur_grain + length l2_entries] l2_entries)"

fun sparse_l2_loop ::
    "byteorder \<Rightarrow> cache \<Rightarrow> vmdk_sparse_meta \<Rightarrow> nat \<Rightarrow> nat list \<Rightarrow> nat \<Rightarrow> (nat \<times> nat) list \<Rightarrow> cursor
      \<Rightarrow> ((nat \<times> nat) list, io_error) result" where
  "sparse_l2_loop bo c h total_g [] cur tbl r = Ok tbl"
| "sparse_l2_loop bo c h total_g (l2_offset # rest) cur tbl r =
     (if total_g \<le> cur then Ok tbl
      else
        let l2_len = min (sm_l2_len h) (total_g - cur) in
        if l2_offset = 0 then sparse_l2_loop bo c h total_g rest (cur + l2_len) tbl r
        else
          and_then (crs_seek c r (SeekStart l2_offset)) (\<lambda>r.
          and_then (read_le_vec bo 4 c r l2_len) (\<lambda>p.
          sparse_l2_loop bo c h total_g rest (cur + l2_len)
            (hm_extend tbl (sparse_entries cur (fst p))) (snd p))))"

definition read_grain_table_sparse ::
    "byteorder \<Rightarrow> cache \<Rightarrow> vmdk_sparse_meta \<Rightarrow> cursor \<Rightarrow> ((nat \<times> nat) list, io_error) result" where
  "read_grain_table_sparse bo c h r =
     and_then (crs_seek c r (SeekStart (sm_l1_offset h))) (\<lambda>r.
     and_then (read_le_vec bo 4 c r (sm_l1_len h)) (\<lambda>(es, r).
     and_then (div_ceil (sm_sectors h) (sm_cluster_sectors h)) (\<lambda>total_grains.
     sparse_l2_loop bo c h total_grains (map (\<lambda>e. u64_mul e SECTOR_SIZE) es) 0 [] r)))"

definition sesparse_cluster :: "vmdk_sesparse_meta \<Rightarrow> nat \<Rightarrow> (nat, io_error) result" where
  "sesparse_cluster h l2_entry =
     (let tag = l2_entry AND 0xF000000000000000 in
      if tag = 0x1000000000000000 \<or> tag = 0x2000000000000000 then Ok 1
      else if tag = 0x3000000000000000 then
        Ok (u64_add (se_clusters_offset h)
          (u64_mul (drop_bit 48 (l2_entry AND 0x0FFF000000000000)
                    OR push_bit 12 (l2_entry AND 0x0000FFFFFFFFFFFF))
            (se_cluster_sectors h)))
      else Err Other)"

fun sesparse_entries ::
    "vmdk_sesparse_meta \<Rightarrow> nat \<Rightarrow> nat list \<Rightarrow> (nat \<times> nat) list \<Rightarrow> ((nat \<times> nat) list, io_error) result"
where
  "sesparse_entries h grain [] tbl = Ok tbl"
| "sesparse_entries h grain (e # es) tbl =
     (if e = 0 then sesparse_entries h (Suc grain) es tbl
      else and_then (sesparse_cluster h e) (\<lambda>off.
        sesparse_entries h (Suc grain) es (hm_insert grain off tbl)))"

fun sesparse_l2_loop ::
    "byteorder \<Rightarrow> cache \<Rightarrow> vmdk_sesparse_meta \<Rightarrow> nat \<Rightarrow> nat list \<Rightarrow> nat \<Rightarrow> (nat \<times> nat) list \<Rightarrow> cursor
      \<Rightarrow> ((nat \<times> nat) list, io_error) result" where
  "sesparse_l2_loop bo c h total_g [] cur tbl r = Ok tbl"
| "sesparse_l2_loop bo c h total_g (l1_entry # rest) cur tbl r =
     (if total_g \<le> cur then Ok tbl
      else
        let l2_len = min (se_l2_len h) (total_g - cur) in
        if l1_entry = 0 then sesparse_l2_loop bo c h total_g rest (cur + l2_len) tbl r
        else if l1_entry AND 0xF000000000000000 \<noteq> 0x1000000000000000 then Err Other
        else
          let l2_index = l1_entry AND 0x0FFFFFFFFFFFFFFF;
              l2_offset = u64_add (se_l2_tables_offset h) (u64_mul l2_index (u64_mul (se_l2_len h) 8))
          in
          and_then (crs_seek c r (SeekStart l2_offset)) (\<lambda>r.
          and_then (read_le_vec bo 8 c r l2_len) (\<lambda>p.
          and_then (sesparse_entries h cur (fst p) tbl) (\<lambda>tbl.
          sesparse_l2_loop bo c h total_g rest (cur + l2_len) tbl (snd p)))))"

definition read_grain_table_sesparse ::
    "byteorder \<Rightarrow> cache \<Rightarrow> vmdk_sesparse_meta \<Rightarrow> cursor \<Rightarrow> ((nat \<times> nat) list, io_error) result" where
  "read_grain_table_sesparse bo c h r =
     and_then (crs_seek c r (SeekStart (se_l1_offset h))) (\<lambda>r.
     and_then (read_le_vec bo 8 c r (se_l1_len h)) (\<lambda>(es, r).
     and_then (div_ceil (se_sectors h) (se_cluster_sectors h)) (\<lambda>total_grains.
     sesparse_l2_loop bo c h total_grains es 0 [] r)))"

subsection \<open>Opening extents\<close>

record vmdk_sys =
  sys_byteorder :: byteorder
  sys_join :: "string \<Rightarrow> string \<Rightarrow> string option"
  sys_source_for_url :: "string \<Rightarrow> (bytes_source, string \<times> source_error_kind) result"
  sys_cache :: "source_slots \<Rightarrow> cache"
  sys_hash_order :: "(nat \<times> nat) list \<Rightarrow> (nat \<times> nat) list"

definition io_open_error :: "io_error \<Rightarrow> open_error" where
  "io_open_error e = open_error_from (OpIoError e)"

definition source_open_error :: "string \<times> source_error_kind \<Rightarrow> open_error" where
  "source_open_error e = \<lparr>oe_path = fst e, oe_kind = OpSource (snd e)\<rparr>"

definition read_extent ::
    "vmdk_sys \<Rightarrow> cache \<Rightarrow> extent_description \<Rightarrow> nat \<Rightarrow> string \<Rightarrow> cursor
      \<Rightarrow> (extent_storage, open_error) result" where
  "read_extent sys c ed start_sector filename src =
     (let sparse = (\<lambda>u::unit.
        and_then (map_err open_error_from (read_header_sparse (sys_byteorder sys) c src)) (\<lambda>header.
        and_then (map_err io_open_error (read_grain_table_sparse (sys_byteorder sys) c header src))
          (\<lambda>tbl.
          Ok (Sparse \<lparr>sp_source = src, sp_filename = filename,
            sp_grain_table = sys_hash_order sys tbl, sp_grain_sectors = sm_cluster_sectors header,
            sp_has_compressed_grain = sm_compressed header,
            sp_zeroed_grain_table_entry = sm_has_zero_grain header,
            sp_start_sector = start_sector\<rparr>))))
      in case ed_kind ed of
        ESparse f \<Rightarrow> sparse ()
      | EVmfsSparse f \<Rightarrow> sparse ()
      | ESeSparse f \<Rightarrow>
          and_then (map_err open_error_from (read_header_sesparse (sys_byteorder sys) c src))
            (\<lambda>header.
          and_then
            (map_err io_open_error (read_grain_table_sesparse (sys_byteorder sys) c header src))
            (\<lambda>tbl.
            Ok (Sparse \<lparr>sp_source = src, sp_filename = filename,
              sp_grain_table = sys_hash_order sys tbl, sp_grain_sectors = se_cluster_sectors header,
              sp_has_compressed_grain = False, sp_zeroed_grain_table_entry = True,
              sp_start_sector = start_sector\<rparr>)))
      | EVmfs f \<Rightarrow> Ok (Flat \<lparr>fs_source = src, fs_offset = 0, fs_start_sector = start_sector\<rparr>)
      | EFlat f offset \<Rightarrow>
          Ok (Flat \<lparr>fs_source = src, fs_offset = offset, fs_start_sector = start_sector\<rparr>)
      | k \<Rightarrow> Err (open_error_from (UnsupportedExtentKind k)))"

definition open_extent_source ::
    "vmdk_sys \<Rightarrow> string \<Rightarrow> string \<Rightarrow> bool \<Rightarrow> (bytes_source, open_error) result" where
  "open_extent_source sys image_url ed_url is_bin_and_singular =
     map_err source_open_error
       (case sys_source_for_url sys ed_url of
          Err e \<Rightarrow> if is_bin_and_singular \<and> ed_url \<noteq> image_url
                   then sys_source_for_url sys image_url else Err e
        | r \<Rightarrow> r)"

fun read_extents_from ::
    "vmdk_sys \<Rightarrow> string \<Rightarrow> bool \<Rightarrow> extent_description list \<Rightarrow> nat \<Rightarrow> nat \<Rightarrow> source_slots
      \<Rightarrow> (extent list \<times> source_slots, open_error) result" where
  "read_extents_from sys image_url single [] start_sector idx slots = Ok ([], slots)"
| "read_extents_from sys image_url single (ed # eds) start_sector idx slots =
     (case ed_filename ed of
        None \<Rightarrow>
          and_then (read_extents_from sys image_url single eds
              (u64_add start_sector (ed_sectors ed)) idx slots) (\<lambda>p.
            Ok (\<lparr>ex_start_sector = start_sector, ex_sectors = ed_sectors ed, ex_storage = Zero\<rparr>
                # fst p, snd p))
      | Some filename \<Rightarrow>
          and_then (ok_or (with_path filename (open_error_from (BadPath filename)))
              (sys_join sys image_url filename)) (\<lambda>ed_url.
          and_then (open_extent_source sys image_url ed_url single) (\<lambda>src.
          let slots = slots_set slots idx src in
          and_then (map_err (with_path ed_url)
              (read_extent sys (sys_cache sys slots) ed start_sector filename (crs_new idx)))
            (\<lambda>storage.
          and_then (read_extents_from sys image_url single eds
              (u64_add start_sector (ed_sectors ed)) (idx + 1) slots) (\<lambda>p.
            Ok (\<lparr>ex_start_sector = start_sector, ex_sectors = ed_sectors ed, ex_storage = storage\<rparr>
                # fst p, snd p))))))"

definition read_extents ::
    "vmdk_sys \<Rightarrow> string \<Rightarrow> extent_description list \<Rightarrow> bool \<Rightarrow> nat \<Rightarrow> source_slots
      \<Rightarrow> (extent list \<times> source_slots, open_error) result" where
  "read_extents sys image_url eds is_bin_and_singular idx slots =
     read_extents_from sys image_url is_bin_and_singular eds 0 idx slots"

subsection \<open>What the tables hold\<close>

lemma length_read_le_vec:
  "read_le_vec bo k c r n = Ok (xs, r') \<Longrightarrow> length xs = n"
proof (induction n arbitrary: r xs r')
  case (Suc n)
  then show ?case by (auto simp: and_then_Ok_iff split: prod.splits)
qed simp

lemma keys_sparse_entries: "fst ` set (sparse_entries cur es) \<subseteq> {cur ..< cur + length es}"
  by (auto simp: sparse_entries_def dest: set_zip_leftD)

lemma keys_sesparse_entries:
  "sesparse_entries h g es tbl = Ok tbl' \<Longrightarrow>
     fst ` set tbl' \<subseteq> fst ` set tbl \<union> {g ..< g + length es}"
proof (induction es arbitrary: g tbl)
  case (Cons e es)
  show ?case
  proof (cases "e = 0")
    case True
    then have "fst ` set tbl' \<subseteq> fst ` set tbl \<union> {Suc g ..< Suc g + length es}"
      using Cons.prems by (intro Cons.IH) simp
    then show ?thesis by fastforce
  next
    case False
    then obtain off where "sesparse_entries h (Suc g) es (hm_insert g off tbl) = Ok tbl'"
      using Cons.prems by (auto simp: and_then_Ok_iff)
    then have "fst ` set tbl' \<subseteq> insert g (fst ` set tbl) \<union> {Suc g ..< Suc g + length es}"
      using Cons.IH [of "Suc g" "hm_insert g off tbl"] by simp
    then show ?thesis by fastforce
  qed
qed simp

lemma keys_sparse_l2_loop:
  assumes "sparse_l2_loop bo c h total_g l1s cur tbl r = Ok tbl'" "cur \<le> total_g"
  shows "fst ` set tbl' \<subseteq> fst ` set tbl \<union> {0 ..< min total_g (cur + length l1s * sm_l2_len h)}"
  using assms
proof (induction l1s arbitrary: cur tbl r)
  case (Cons l2 l1s)
  let ?n = "min (sm_l2_len h) (total_g - cur)"
  have b: "cur + ?n \<le> total_g" "cur + ?n + length l1s * sm_l2_len h
      \<le> cur + length (l2 # l1s) * sm_l2_len h"
    using Cons.prems(2) by auto
  consider "total_g \<le> cur" | "cur < total_g" "l2 = 0" | "cur < total_g" "l2 \<noteq> 0" by linarith
  then show ?case
  proof cases
    case 1
    then show ?thesis using Cons.prems by auto
  next
    case 2
    then have "fst ` set tbl' \<subseteq> fst ` set tbl \<union>
        {0 ..< min total_g (cur + ?n + length l1s * sm_l2_len h)}"
      using Cons.prems b by (intro Cons.IH) (auto simp: Let_def)
    then show ?thesis using b(2) by fastforce
  next
    case 3
    then obtain r1 es r2 where e: "read_le_vec bo 4 c r1 ?n = Ok (es, r2)"
      "sparse_l2_loop bo c h total_g l1s (cur + ?n) (hm_extend tbl (sparse_entries cur es)) r2 = Ok tbl'"
      using Cons.prems by (auto simp: Let_def and_then_Ok_iff)
    have "fst ` set tbl' \<subseteq> fst ` set (hm_extend tbl (sparse_entries cur es)) \<union>
        {0 ..< min total_g (cur + ?n + length l1s * sm_l2_len h)}"
      using e(2) b(1) by (rule Cons.IH)
    moreover have "fst ` set (sparse_entries cur es) \<subseteq> {cur ..< cur + ?n}"
      using keys_sparse_entries [of cur es] length_read_le_vec [OF e(1)] by simp
    moreover have "{cur ..< cur + ?n} \<subseteq>
        {0 ..< min total_g (cur + length (l2 # l1s) * sm_l2_len h)}"
      "{0 ..< min total_g (cur + ?n + length l1s * sm_l2_len h)} \<subseteq>
        {0 ..< min total_g (cur + length (l2 # l1s) * sm_l2_len h)}"
      using b by auto
    ultimately show ?thesis unfolding keys_hm_extend by blast
  qed
qed simp

lemma keys_sesparse_l2_loop:
  assumes "sesparse_l2_loop bo c h total_g l1s cur tbl r = Ok tbl'" "cur \<le> total_g"
  shows "fst ` set tbl' \<subseteq> fst ` set tbl \<union> {0 ..< min total_g (cur + length l1s * se_l2_len h)}"
  using assms
proof (induction l1s arbitrary: cur tbl r)
  case (Cons l1 l1s)
  let ?n = "min (se_l2_len h) (total_g - cur)"
  have b: "cur + ?n \<le> total_g" "cur + ?n + length l1s * se_l2_len h
      \<le> cur + length (l1 # l1s) * se_l2_len h"
    using Cons.prems(2) by auto
  consider "total_g \<le> cur" | "cur < total_g" "l1 = 0" | "cur < total_g" "l1 \<noteq> 0" by linarith
  then show ?case
  proof cases
    case 1
    then show ?thesis using Cons.prems by auto
  next
    case 2
    then have "fst ` set tbl' \<subseteq> fst ` set tbl \<union>
        {0 ..< min total_g (cur + ?n + length l1s * se_l2_len h)}"
      using Cons.prems b by (intro Cons.IH) (auto simp: Let_def)
    then show ?thesis using b(2) by fastforce
  next
    case 3
    then obtain r1 es r2 tbl1 where e: "read_le_vec bo 8 c r1 ?n = Ok (es, r2)"
      "sesparse_entries h cur es tbl = Ok tbl1"
      "sesparse_l2_loop bo c h total_g l1s (cur + ?n) tbl1 r2 = Ok tbl'"
      using Cons.prems by (auto simp: Let_def and_then_Ok_iff split: if_splits)
    have "fst ` set tbl' \<subseteq> fst ` set tbl1 \<union>
        {0 ..< min total_g (cur + ?n + length l1s * se_l2_len h)}"
      using e(3) b(1) by (rule Cons.IH)
    moreover have "fst ` set tbl1 \<subseteq> fst ` set tbl \<union> {cur ..< cur + ?n}"
      using keys_sesparse_entries [OF e(2)] length_read_le_vec [OF e(1)] by simp
    moreover have "{cur ..< cur + ?n} \<subseteq>
        {0 ..< min total_g (cur + length (l1 # l1s) * se_l2_len h)}"
      "{0 ..< min total_g (cur + ?n + length l1s * se_l2_len h)} \<subseteq>
        {0 ..< min total_g (cur + length (l1 # l1s) * se_l2_len h)}"
      using b by auto
    ultimately show ?thesis unfolding keys_hm_extend by blast
  qed
qed simp

lemma read_grain_table_sparse_keys:
  assumes "read_grain_table_sparse bo c h r = Ok tbl"
  shows "0 < sm_cluster_sectors h" "\<forall>k \<in> fst ` set tbl. k < sm_l1_len h * sm_l2_len h"
    "\<forall>k \<in> fst ` set tbl. k * sm_cluster_sectors h < sm_sectors h"
proof -
  obtain r1 es r2 total_g where e: "read_le_vec bo 4 c r1 (sm_l1_len h) = Ok (es, r2)"
    "div_ceil (sm_sectors h) (sm_cluster_sectors h) = (Ok total_g :: (nat, io_error) result)"
    "sparse_l2_loop bo c h total_g (map (\<lambda>e. u64_mul e SECTOR_SIZE) es) 0 [] r2 = Ok tbl"
    using assms by (auto simp: read_grain_table_sparse_def and_then_Ok_iff split: prod.splits)
  note k = keys_sparse_l2_loop [OF e(3)] length_read_le_vec [OF e(1)]
  show "\<forall>k \<in> fst ` set tbl. k < sm_l1_len h * sm_l2_len h" using k by auto
  show "0 < sm_cluster_sectors h" using e(2) by (auto simp: div_ceil_def split: if_splits)
  show "\<forall>k \<in> fst ` set tbl. k * sm_cluster_sectors h < sm_sectors h"
    using k div_ceil_bounds(2) [OF e(2)] by fastforce
qed

lemma read_grain_table_sesparse_keys:
  assumes "read_grain_table_sesparse bo c h r = Ok tbl"
  shows "\<forall>k \<in> fst ` set tbl. k < se_l1_len h * se_l2_len h"
    "\<forall>k \<in> fst ` set tbl. k * se_cluster_sectors h < se_sectors h"
proof -
  obtain r1 es r2 total_g where e: "read_le_vec bo 8 c r1 (se_l1_len h) = Ok (es, r2)"
    "div_ceil (se_sectors h) (se_cluster_sectors h) = (Ok total_g :: (nat, io_error) result)"
    "sesparse_l2_loop bo c h total_g es 0 [] r2 = Ok tbl"
    using assms by (auto simp: read_grain_table_sesparse_def and_then_Ok_iff split: prod.splits)
  note k = keys_sesparse_l2_loop [OF e(3)] length_read_le_vec [OF e(1)]
  show "\<forall>k \<in> fst ` set tbl. k < se_l1_len h * se_l2_len h" using k by auto
  show "\<forall>k \<in> fst ` set tbl. k * se_cluster_sectors h < se_sectors h"
    using k div_ceil_bounds(2) [OF e(2)] by fastforce
qed

subsection \<open>Which sectors an extent covers\<close>

text \<open>Of a sparse extent, the sectors of the grains in its table, within the declared range.\<close>

definition extent_covers :: "extent \<Rightarrow> nat \<Rightarrow> bool" where
  "extent_covers ex s \<longleftrightarrow>
     ex_start_sector ex \<le> s \<and> s < ex_start_sector ex + ex_sectors ex \<and>
     (case ex_storage ex of
        Sparse st \<Rightarrow>
          (s - ex_start_sector ex) div sp_grain_sectors st \<in> fst ` set (sp_grain_table st)
      | _ \<Rightarrow> True)"

text \<open>The storage agrees with its extent, and its grains end below \<open>2 ^ 46\<close> bytes.\<close>

fun storage_fits :: "nat \<Rightarrow> extent_storage \<Rightarrow> bool" where
  "storage_fits start (Sparse st) \<longleftrightarrow>
     sp_start_sector st = start \<and> 0 < sp_grain_sectors st \<and>
     (\<forall>k \<in> fst ` set (sp_grain_table st). Suc k * sp_grain_sectors st * SECTOR_SIZE \<le> 2 ^ 46)"
| "storage_fits start (Flat st) \<longleftrightarrow> fs_start_sector st = start"
| "storage_fits start Zero \<longleftrightarrow> True"

definition wf_extent :: "extent \<Rightarrow> bool" where
  "wf_extent ex \<longleftrightarrow>
     (ex_start_sector ex + ex_sectors ex) * SECTOR_SIZE < u64_lim \<and>
     storage_fits (ex_start_sector ex) (ex_storage ex)"

lemma wf_extent_grain_exact:
  assumes "wf_extent ex" "ex_storage ex = Sparse st" "k \<in> fst ` set (sp_grain_table st)"
  shows "u64_mul k (sp_grain_sectors st) = k * sp_grain_sectors st"
    "u64_add (ex_start_sector ex) (k * sp_grain_sectors st) =
      ex_start_sector ex + k * sp_grain_sectors st"
    "u64_add (ex_start_sector ex + k * sp_grain_sectors st) (sp_grain_sectors st) =
      ex_start_sector ex + k * sp_grain_sectors st + sp_grain_sectors st"
proof -
  have "Suc k * sp_grain_sectors st * 512 \<le> 2 ^ 46" "ex_start_sector ex * 512 < u64_lim"
    using assms by (auto simp: wf_extent_def SECTOR_SIZE_def)
  then have "ex_start_sector ex + k * sp_grain_sectors st + sp_grain_sectors st < u64_lim"
    by (simp add: u64_lim_def)
  then show "u64_mul k (sp_grain_sectors st) = k * sp_grain_sectors st"
    "u64_add (ex_start_sector ex) (k * sp_grain_sectors st) =
      ex_start_sector ex + k * sp_grain_sectors st"
    "u64_add (ex_start_sector ex + k * sp_grain_sectors st) (sp_grain_sectors st) =
      ex_start_sector ex + k * sp_grain_sectors st + sp_grain_sectors st"
    by simp_all
qed

lemma wf_extent_end:
  "wf_extent ex \<Longrightarrow> u64_add (ex_start_sector ex) (ex_sectors ex) = ex_start_sector ex + ex_sectors ex"
  by (auto simp: wf_extent_def SECTOR_SIZE_def intro: u64_add_exact)

lemma sparse_spans_iff:
  assumes wf: "wf_extent ex" and st: "ex_storage ex = Sparse st"
  shows "(b, e) \<in> set (extent_spans ex) \<longleftrightarrow>
    (\<exists>k \<in> fst ` set (sp_grain_table st).
       b = ex_start_sector ex + k * sp_grain_sectors st \<and>
       b < ex_start_sector ex + ex_sectors ex \<and>
       e = min (b + sp_grain_sectors st) (ex_start_sector ex + ex_sectors ex))"
proof -
  let ?S = "ex_start_sector ex" and ?g = "sp_grain_sectors st" and ?E = "ex_start_sector ex + ex_sectors ex"
  have gs: "grain_span ?S ?E ?g k = Some (b, e) \<longleftrightarrow>
      b = ?S + k * ?g \<and> b < ?E \<and> e = min (b + ?g) ?E"
    if "k \<in> fst ` set (sp_grain_table st)" for k
    using wf_extent_grain_exact [OF wf st that] by (auto simp: grain_span_def Let_def)
  have "(b, e) \<in> set (extent_spans ex) \<longleftrightarrow>
      (\<exists>k \<in> fst ` set (sp_grain_table st). grain_span ?S ?E ?g k = Some (b, e))"
    using st wf_extent_end [OF wf] by (simp add: extent_spans_def Let_def set_map_filter)
  also have "\<dots> \<longleftrightarrow> (\<exists>k \<in> fst ` set (sp_grain_table st).
      b = ?S + k * ?g \<and> b < ?E \<and> e = min (b + ?g) ?E)"
    using gs by (intro bex_cong) auto
  finally show ?thesis .
qed

lemma extent_span_range:
  assumes "wf_extent ex" "(b, e) \<in> set (extent_spans ex)"
  shows "ex_start_sector ex \<le> b \<and> b \<le> e \<and> e \<le> ex_start_sector ex + ex_sectors ex"
proof (cases "ex_storage ex")
  case (Sparse st)
  then show ?thesis using assms sparse_spans_iff [OF assms(1) Sparse] by auto
qed (use assms wf_extent_end [OF assms(1)] in \<open>auto simp: extent_spans_def Let_def\<close>)

lemma extent_spans_cover_iff:
  assumes wf: "wf_extent ex"
  shows "(\<exists>(b, e) \<in> set (extent_spans ex). b \<le> s \<and> s < e) \<longleftrightarrow> extent_covers ex s"
proof (cases "ex_storage ex")
  case st: (Sparse st)
  let ?S = "ex_start_sector ex" and ?g = "sp_grain_sectors st"
  have g: "0 < ?g" using wf st by (simp add: wf_extent_def)
  have key: "?S + k * ?g \<le> s \<and> s < ?S + k * ?g + ?g \<longleftrightarrow> ?S \<le> s \<and> (s - ?S) div ?g = k" for k
  proof
    assume a: "?S + k * ?g \<le> s \<and> s < ?S + k * ?g + ?g"
    then have "(s - ?S) div ?g = k" by (intro div_nat_eqI) (auto simp: mult.commute)
    then show "?S \<le> s \<and> (s - ?S) div ?g = k" using a by simp
  next
    assume a: "?S \<le> s \<and> (s - ?S) div ?g = k"
    then have "k * ?g \<le> s - ?S" "s - ?S < k * ?g + ?g"
      using g div_times_less_eq_dividend [of "s - ?S" ?g] dividend_less_div_times [of ?g "s - ?S"]
      by auto
    then show "?S + k * ?g \<le> s \<and> s < ?S + k * ?g + ?g" using a by linarith
  qed
  have "(\<exists>(b, e) \<in> set (extent_spans ex). b \<le> s \<and> s < e) \<longleftrightarrow>
      (\<exists>k \<in> fst ` set (sp_grain_table st). ?S + k * ?g \<le> s \<and> s < ?S + k * ?g + ?g) \<and>
        s < ?S + ex_sectors ex"
  proof
    assume "\<exists>(b, e) \<in> set (extent_spans ex). b \<le> s \<and> s < e"
    then show "(\<exists>k \<in> fst ` set (sp_grain_table st). ?S + k * ?g \<le> s \<and> s < ?S + k * ?g + ?g) \<and>
        s < ?S + ex_sectors ex"
      using sparse_spans_iff [OF wf st] by fastforce
  next
    assume a: "(\<exists>k \<in> fst ` set (sp_grain_table st). ?S + k * ?g \<le> s \<and> s < ?S + k * ?g + ?g) \<and>
        s < ?S + ex_sectors ex"
    then obtain k where k: "k \<in> fst ` set (sp_grain_table st)" "?S + k * ?g \<le> s"
      "s < ?S + k * ?g + ?g" by blast
    then have "(?S + k * ?g, min (?S + k * ?g + ?g) (?S + ex_sectors ex)) \<in> set (extent_spans ex)"
      using a unfolding sparse_spans_iff [OF wf st] by (intro bexI [of _ k]) auto
    then show "\<exists>(b, e) \<in> set (extent_spans ex). b \<le> s \<and> s < e"
      by (rule rev_bexI) (use a k in auto)
  qed
  then show ?thesis using key st by (auto simp: extent_covers_def)
qed (use wf_extent_end [OF wf] in \<open>auto simp: extent_spans_def Let_def extent_covers_def\<close>)

text \<open>
  The spans of an extent cover exactly the sectors the extent has data for: inside the range the
  descriptor declares, and for a sparse extent in a grain of its table.  No span reaches into the
  next extent.
\<close>

theorem extent_spans_exact:
  assumes "wf_extent ex"
  shows "((\<exists>(b, e) \<in> set (extent_spans ex). b \<le> s \<and> s < e) \<longleftrightarrow> extent_covers ex s) \<and>
    (\<forall>(b, e) \<in> set (extent_spans ex).
      ex_start_sector ex \<le> b \<and> e \<le> ex_start_sector ex + ex_sectors ex)"
  using extent_spans_cover_iff [OF assms] extent_span_range [OF assms] by auto

text \<open>The extent of the unit test: 12 sectors from 100 on, grains of 8 sectors, one overhanging.\<close>

definition sample_extent :: extent where
  "sample_extent = \<lparr>ex_start_sector = 100, ex_sectors = 12, ex_storage = Sparse
     \<lparr>sp_source = crs_new 0, sp_filename = ''crafted.vmdk'', sp_grain_table = [(0, 1), (1, 2), (2, 3)],
      sp_grain_sectors = 8, sp_has_compressed_grain = False, sp_zeroed_grain_table_entry = False,
      sp_start_sector = 100\<rparr>\<rparr>"

theorem extent_spans_exact_witness:
  "wf_extent sample_extent \<and> extent_spans sample_extent = [(100, 108), (108, 112)] \<and>
   (\<exists>(b, e) \<in> set (extent_spans sample_extent). b \<le> 111 \<and> 111 < e) \<and> extent_covers sample_extent 111"
proof -
  have wf: "wf_extent sample_extent"
    by (simp add: wf_extent_def sample_extent_def SECTOR_SIZE_def u64_lim_def)
  moreover have "extent_covers sample_extent 111"
    by (simp add: extent_covers_def sample_extent_def)
  moreover have "extent_spans sample_extent = [(100, 108), (108, 112)]"
    by (simp add: extent_spans_def sample_extent_def grain_span_def List.map_filter_def u64_add_def
        u64_mul_def u64_lim_def)
  ultimately show ?thesis using extent_spans_exact [OF wf, of 111] by blast
qed

subsection \<open>The extents of one image\<close>

text \<open>The map iteration visits each entry.\<close>

definition hash_order_ok :: "vmdk_sys \<Rightarrow> bool" where
  "hash_order_ok sys \<longleftrightarrow> (\<forall>t. set (sys_hash_order sys t) = set t)"

fun contiguous :: "nat \<Rightarrow> extent list \<Rightarrow> bool" where
  "contiguous s [] \<longleftrightarrow> True"
| "contiguous s (e # es) \<longleftrightarrow>
     ex_start_sector e = s \<and> storage_fits s (ex_storage e) \<and> contiguous (u64_add s (ex_sectors e)) es"

lemma grain_bound:
  fixes k :: nat
  assumes "k < l1 * l2" "l1 * l2 * g * w \<le> lim"
  shows "Suc k * g * w \<le> lim"
proof -
  have "Suc k * (g * w) \<le> l1 * l2 * (g * w)" using assms(1) by (intro mult_le_mono1) simp
  then show ?thesis using assms(2) by (simp add: algebra_simps)
qed

lemma read_extent_fits:
  assumes ho: "hash_order_ok sys" and "read_extent sys c ed start f src = Ok st"
  shows "storage_fits start st"
proof -
  have sp: "storage_fits start (Sparse s)"
    if "read_header_sparse bo c src = Ok h" "read_grain_table_sparse bo c h src = Ok tbl"
      "sp_start_sector s = start" "sp_grain_table s = sys_hash_order sys tbl"
      "sp_grain_sectors s = sm_cluster_sectors h" for bo h tbl s
  proof -
    have "sm_l1_len h * sm_l2_len h * sm_cluster_sectors h * SECTOR_SIZE \<le> 2 ^ 41"
      using read_header_sparse_cases [OF that(1)] vmdk3_try_into_bounded vmdk4_try_into_ok(1) by blast
    then have "sm_l1_len h * sm_l2_len h * sm_cluster_sectors h * SECTOR_SIZE \<le> 2 ^ 46" by simp
    then show ?thesis
      using that ho read_grain_table_sparse_keys [OF that(2)]
      by (auto simp: hash_order_ok_def intro!: grain_bound simp del: mult_Suc power_Suc)
  qed
  have se: "storage_fits start (Sparse s)"
    if "read_header_sesparse bo c src = Ok h" "read_grain_table_sesparse bo c h src = Ok tbl"
      "sp_start_sector s = start" "sp_grain_table s = sys_hash_order sys tbl"
      "sp_grain_sectors s = se_cluster_sectors h" for bo h tbl s
  proof -
    from that(1) obtain hdr where hdr: "sesparse_try_into hdr = Ok h"
      by (auto simp: read_header_sesparse_def and_then_Ok_iff case_prod_beta split: if_splits)
    have "\<forall>k \<in> fst ` set tbl. Suc k * se_cluster_sectors h * SECTOR_SIZE \<le> 2 ^ 46"
      using grain_bound [OF _ sesparse_try_into_ok(1) [OF hdr]]
        read_grain_table_sesparse_keys [OF that(2)] by blast
    then show ?thesis
      using that(3-5) ho sesparse_try_into_ok(3) [OF hdr]
      by (simp add: hash_order_ok_def del: mult_Suc)
  qed
  show ?thesis
    using assms(2)
    by (auto simp: read_extent_def Let_def and_then_Ok_iff simp del: storage_fits.simps(1)
        split: extent_inner.splits intro: sp se)
qed

lemma read_extents_contiguous:
  assumes "hash_order_ok sys" "read_extents_from sys u single eds s idx slots = Ok (exs, slots')"
  shows "contiguous s exs" "map ex_sectors exs = map ed_sectors eds"
  using assms(2)
proof (induction eds arbitrary: s idx slots exs slots')
  case (Cons ed eds)
  {
    case 1
    then show ?case
      using Cons.IH read_extent_fits [OF assms(1)]
      by (auto simp: and_then_Ok_iff Let_def split: option.splits)
  next
    case 2
    then show ?case
      using Cons.IH by (auto simp: and_then_Ok_iff Let_def split: option.splits)
  }
qed simp_all

text \<open>When the total size does not overflow, the extents tile the sectors from \<open>s\<close> on.\<close>

lemma contiguous_wf:
  assumes "contiguous s exs" "(s + sum_list (map ex_sectors exs)) * SECTOR_SIZE < u64_lim"
    "ex \<in> set exs"
  shows "wf_extent ex" "s \<le> ex_start_sector ex"
    "ex_start_sector ex + ex_sectors ex \<le> s + sum_list (map ex_sectors exs)"
proof -
  have "wf_extent ex \<and> s \<le> ex_start_sector ex \<and>
      ex_start_sector ex + ex_sectors ex \<le> s + sum_list (map ex_sectors exs)"
    using assms
  proof (induction exs arbitrary: s)
    case (Cons e es)
    have b: "(s + ex_sectors e) * SECTOR_SIZE < u64_lim" "s + ex_sectors e < u64_lim"
      using Cons.prems(2) by (auto simp: SECTOR_SIZE_def)
    show ?case
    proof (cases "ex = e")
      case True
      then show ?thesis using Cons.prems(1) b(1) by (auto simp: wf_extent_def)
    next
      case False
      have "contiguous (s + ex_sectors e) es" using Cons.prems(1) b(2) by simp
      then show ?thesis
        using Cons.IH [of "s + ex_sectors e"] Cons.prems(2,3) False by (simp add: add.assoc)
    qed
  qed simp
  then show "wf_extent ex" "s \<le> ex_start_sector ex"
    "ex_start_sector ex + ex_sectors ex \<le> s + sum_list (map ex_sectors exs)" by blast+
qed

subsection \<open>A VMDK3 header without granularity\<close>

text \<open>
  C37: A VMDK3 (COWD) header that declares granularity 0 passes every check of the header conversion,
  and the grain table reader, once it has read the grain directory, then divides by zero and panics.
\<close>

theorem vmdk3_zero_granularity_panics:
  assumes "v3_granularity h = 0" "v3_l1dir_size h < 2 ^ 32"
    and "crs_seek c r (SeekStart (u64_mul (v3_l1dir_offset h) SECTOR_SIZE)) = Ok r1"
    and "read_le_vec bo 4 c r1 (v3_l1dir_size h) = Ok p"
  shows "\<exists>m. vmdk3_try_into h = Ok m \<and> read_grain_table_sparse bo c m r = Panic"
proof -
  obtain m where m: "vmdk3_try_into h = Ok m" "sm_cluster_sectors m = 0"
    "sm_l1_len m = v3_l1dir_size h" "sm_l1_offset m = u64_mul (v3_l1dir_offset h) SECTOR_SIZE"
    using vmdk3_zero_granularity [OF assms(1,2)] by blast
  then have "read_grain_table_sparse bo c m r = Panic"
    using assms(3,4) by (cases p) (simp add: read_grain_table_sparse_def div_ceil_def)
  then show ?thesis using m(1) by blast
qed

definition crafted_v3 :: vmdk3_header where
  "crafted_v3 = \<lparr>v3_magic = VMDK3_MAGIC, v3_version = 1, v3_flags = 3, v3_disk_sectors = 2048,
     v3_granularity = 0, v3_l1dir_offset = 0, v3_l1dir_size = 0, v3_file_sectors = 0,
     v3_cylinders = 0, v3_heads = 0, v3_sectors_per_track = 0\<rparr>"

theorem vmdk3_zero_granularity_panics_witness:
  "\<exists>m. vmdk3_try_into crafted_v3 = Ok m \<and>
     read_grain_table_sparse std_byteorder (mem_cache (\<lambda>i. replicate 44 0)) m (crs_new 0) = Panic"
  by (rule vmdk3_zero_granularity_panics [where p = "([], crs_new 0)" and ?r1.0 = "crs_new 0"])
    (simp_all add: crafted_v3_def crs_seek_def mem_cache_def checked_add_signed_def u64_mul_def
      u64_lim_def crs_new_def)

end
