(* ===== verification/VmdkDescriptor.thy ===== *)
theory VmdkDescriptor
  imports VmdkExtents
begin

text \<open>
  \<open>vmdk/src/descriptor.rs\<close>: fetching the text of a descriptor, embedded in a VMDK4 file or as a file of
  its own, and the parent hint.  A Rust \<open>String\<close> is the list of its UTF-8 bytes; \<open>utf8_lossy\<close> and
  \<open>utf8_valid\<close> are \<open>String::from_utf8_lossy\<close> and the check of \<open>read_line\<close> and \<open>read_to_string\<close>.
  \<open>bufreader\<close> is \<open>BufReader\<close> with its 8 KiB buffer over a cursor, optionally behind \<open>Read::take\<close>.

  Shown: the embedded descriptor is the text up to the first NUL of at most twenty sectors, however
  the buffer splits it, and a descriptor file is recognised by its first line and read whole.
\<close>

subsection \<open>UTF-8\<close>

text \<open>The ranges of the continuation bytes that may follow a first byte; \<open>None\<close>: not a first byte.\<close>

definition utf8_conts :: "nat \<Rightarrow> (nat \<times> nat) list option" where
  "utf8_conts b =
     (if b < 0x80 then Some []
      else if 0xC2 \<le> b \<and> b \<le> 0xDF then Some [(0x80, 0xBF)]
      else if b = 0xE0 then Some [(0xA0, 0xBF), (0x80, 0xBF)]
      else if b = 0xED then Some [(0x80, 0x9F), (0x80, 0xBF)]
      else if 0xE1 \<le> b \<and> b \<le> 0xEF then Some [(0x80, 0xBF), (0x80, 0xBF)]
      else if b = 0xF0 then Some [(0x90, 0xBF), (0x80, 0xBF), (0x80, 0xBF)]
      else if 0xF1 \<le> b \<and> b \<le> 0xF3 then Some [(0x80, 0xBF), (0x80, 0xBF), (0x80, 0xBF)]
      else if b = 0xF4 then Some [(0x80, 0x8F), (0x80, 0xBF), (0x80, 0xBF)]
      else None)"

fun match_conts :: "(nat \<times> nat) list \<Rightarrow> bytes \<Rightarrow> nat" where
  "match_conts ((lo, hi) # rs) (b # bs) =
     (if lo \<le> unat b \<and> unat b \<le> hi then Suc (match_conts rs bs) else 0)"
| "match_conts _ _ = 0"

definition byte_char :: "u8 \<Rightarrow> char" where
  "byte_char b = char_of (unat b)"

definition string_bytes :: "string \<Rightarrow> bytes" where
  "string_bytes = map (\<lambda>ch. of_nat (of_char ch))"

lemma byte_char_string_bytes [simp]: "map byte_char (string_bytes s) = s"
proof -
  have "byte_char (of_nat (of_char ch)) = ch" for ch
    by (simp add: byte_char_def unat_of_nat)
  then show ?thesis by (induction s) (auto simp: string_bytes_def)
qed

text \<open>One step: the characters produced, whether the sequence was valid, and how much it takes.\<close>

definition utf8_step :: "u8 \<Rightarrow> bytes \<Rightarrow> string \<times> bool \<times> nat" where
  "utf8_step b bs =
     (case utf8_conts (unat b) of
        None \<Rightarrow> ([CHR 0xEF, CHR 0xBF, CHR 0xBD], False, 0)
      | Some rs \<Rightarrow>
          (let k = match_conts rs bs in
           if k = length rs then (map byte_char (b # take k bs), True, k)
           else ([CHR 0xEF, CHR 0xBF, CHR 0xBD], False, k)))"

function utf8_lossy :: "bytes \<Rightarrow> string" where
  "utf8_lossy [] = []"
| "utf8_lossy (b # bs) = fst (utf8_step b bs) @ utf8_lossy (drop (snd (snd (utf8_step b bs))) bs)"
  by pat_completeness auto
termination
  by (relation "measure length") auto

function utf8_valid :: "bytes \<Rightarrow> bool" where
  "utf8_valid [] = True"
| "utf8_valid (b # bs) \<longleftrightarrow>
     fst (snd (utf8_step b bs)) \<and> utf8_valid (drop (snd (snd (utf8_step b bs))) bs)"
  by pat_completeness auto
termination
  by (relation "measure length") auto

lemma utf8_lossy_valid: "utf8_valid bs \<Longrightarrow> utf8_lossy bs = map byte_char bs"
proof (induction bs rule: utf8_lossy.induct)
  case (2 b bs)
  then show ?case
    by (auto simp: utf8_step_def Let_def split: option.splits if_splits)
      (metis append_take_drop_id map_append)+
qed simp

lemma utf8_ascii_valid: "\<forall>b \<in> set bs. unat b < 128 \<Longrightarrow> utf8_valid bs"
  by (induction bs) (auto simp: utf8_step_def utf8_conts_def)

subsection \<open>Buffered reading\<close>

record bufreader =
  br_buf :: bytes
  br_cur :: cursor
  br_limit :: "nat option"

definition BUF_SIZE :: nat where "BUF_SIZE = 8192"

definition br_new :: "cursor \<Rightarrow> nat option \<Rightarrow> bufreader" where
  "br_new cur limit = \<lparr>br_buf = [], br_cur = cur, br_limit = limit\<rparr>"

text \<open>\<open>fill_buf\<close>: an empty buffer is refilled by one read; \<open>Take\<close> answers 0 once its limit is used up.\<close>

definition br_fill :: "cache \<Rightarrow> bufreader \<Rightarrow> (bufreader, io_error) result" where
  "br_fill c b =
     (if br_buf b \<noteq> [] then Ok b
      else case br_limit b of
        None \<Rightarrow>
          and_then (crs_read c (br_cur b) BUF_SIZE) (\<lambda>(bs, cur).
            Ok (b\<lparr>br_buf := bs, br_cur := cur\<rparr>))
      | Some lim \<Rightarrow>
          if lim = 0 then Ok b
          else and_then (crs_read c (br_cur b) (min BUF_SIZE lim)) (\<lambda>(bs, cur).
            Ok (b\<lparr>br_buf := bs, br_cur := cur, br_limit := Some (lim - length bs)\<rparr>)))"

fun split_after :: "u8 \<Rightarrow> bytes \<Rightarrow> (bytes \<times> bytes) option" where
  "split_after d [] = None"
| "split_after d (x # xs) =
     (if x = d then Some ([x], xs)
      else map_option (\<lambda>(a, b). (x # a, b)) (split_after d xs))"

text \<open>
  What a reader can still deliver.  The loops below refill the buffer at most once per byte of it, so
  one more than this number is fuel enough (\<open>br_read_until_spec\<close>, \<open>br_read_to_end_spec\<close>); without
  fuel they answer \<open>Panic\<close>.
\<close>

definition br_left :: "cache \<Rightarrow> bufreader \<Rightarrow> nat" where
  "br_left c b =
     length (br_buf b) +
     (case cache_end c (cur_idx (br_cur b)) of Ok e \<Rightarrow> e - cur_pos (br_cur b) | _ \<Rightarrow> 0)"

fun br_read_until_fuel ::
    "nat \<Rightarrow> cache \<Rightarrow> u8 \<Rightarrow> bufreader \<Rightarrow> bytes \<Rightarrow> (bytes \<times> bufreader, io_error) result" where
  "br_read_until_fuel 0 c d b acc = Panic"
| "br_read_until_fuel (Suc n) c d b acc =
     and_then (br_fill c b) (\<lambda>b'.
       if br_buf b' = [] then Ok (acc, b')
       else case split_after d (br_buf b') of
         Some (line, rest) \<Rightarrow> Ok (acc @ line, b'\<lparr>br_buf := rest\<rparr>)
       | None \<Rightarrow> br_read_until_fuel n c d (b'\<lparr>br_buf := []\<rparr>) (acc @ br_buf b'))"

definition br_read_until ::
    "cache \<Rightarrow> u8 \<Rightarrow> bufreader \<Rightarrow> (bytes \<times> bufreader, io_error) result" where
  "br_read_until c d b = br_read_until_fuel (Suc (br_left c b)) c d b []"

text \<open>\<open>read_to_end\<close>: everything that is left.\<close>

fun br_read_to_end_fuel ::
    "nat \<Rightarrow> cache \<Rightarrow> bufreader \<Rightarrow> bytes \<Rightarrow> (bytes \<times> bufreader, io_error) result" where
  "br_read_to_end_fuel 0 c b acc = Panic"
| "br_read_to_end_fuel (Suc n) c b acc =
     and_then (br_fill c b) (\<lambda>b'.
       if br_buf b' = [] then Ok (acc, b')
       else br_read_to_end_fuel n c (b'\<lparr>br_buf := []\<rparr>) (acc @ br_buf b'))"

definition br_read_to_end :: "cache \<Rightarrow> bufreader \<Rightarrow> (bytes \<times> bufreader, io_error) result" where
  "br_read_to_end c b = br_read_to_end_fuel (Suc (br_left c b)) c b []"

subsection \<open>Descriptors\<close>

definition read_descriptor_internal ::
    "cache \<Rightarrow> cursor \<Rightarrow> nat \<Rightarrow> (string, io_error) result" where
  "read_descriptor_internal c src offset =
     and_then (crs_seek c src (SeekStart (u64_mul offset SECTOR_SIZE))) (\<lambda>src.
     and_then (br_read_until c 0 (br_new src (Some (20 * SECTOR_SIZE)))) (\<lambda>(buf, b).
     let buf = (if buf \<noteq> [] \<and> last buf = 0 then butlast buf else buf)
     in Ok (utf8_lossy buf)))"

text \<open>\<open>read_line\<close> and \<open>read_to_string\<close>: the bytes, refused when they are not UTF-8.\<close>

definition utf8_string :: "bytes \<Rightarrow> (string, io_error) result" where
  "utf8_string bs = (if utf8_valid bs then Ok (map byte_char bs) else Err InvalidData)"

definition DESCRIPTOR_LINE :: string where
  "DESCRIPTOR_LINE = ''# Disk DescriptorFile''"

text \<open>The loop reads at least one byte per line, so the number of bytes bounds it as well.\<close>

fun read_descriptor_lines ::
    "nat \<Rightarrow> cache \<Rightarrow> bufreader \<Rightarrow> string \<Rightarrow> (string, open_error_kind) result" where
  "read_descriptor_lines 0 c r desc = Panic"
| "read_descriptor_lines (Suc n) c r desc =
     and_then (map_err OpIoError (br_read_until c 10 r)) (\<lambda>(bs, r).
     and_then (map_err OpIoError (utf8_string bs)) (\<lambda>line.
     if line = [] then Err (OpDescriptorError UnrecognizedDescriptor)
     else
       let t = trim_end line in
       if t = DESCRIPTOR_LINE then
         and_then (map_err OpIoError (br_read_to_end c r)) (\<lambda>(rest, b).
         and_then (map_err OpIoError (utf8_string rest)) (\<lambda>rest. Ok (desc @ line @ rest)))
       else if t = [] then read_descriptor_lines n c r (desc @ line)
       else Err (OpDescriptorError UnrecognizedDescriptor)))"

definition read_descriptor_file :: "cache \<Rightarrow> cursor \<Rightarrow> (string, open_error_kind) result" where
  "read_descriptor_file c src =
     (let r = br_new src None in read_descriptor_lines (Suc (br_left c r)) c r [])"

definition parent_hint_of_line :: "string \<Rightarrow> string option" where
  "parent_hint_of_line line =
     Option.bind (strip_prefix (''parentFileNameHint='' @ [CHR 0x22]) line) (\<lambda>rest.
       let hint = takeWhile (\<lambda>ch. ch \<noteq> CHR 0x22) rest
       in if length hint > 0 then Some hint else None)"

fun find_map :: "('a \<Rightarrow> 'b option) \<Rightarrow> 'a list \<Rightarrow> 'b option" where
  "find_map f [] = None"
| "find_map f (x # xs) = (case f x of None \<Rightarrow> find_map f xs | Some y \<Rightarrow> Some y)"

definition extract_parent_fn_hint :: "string \<Rightarrow> string option" where
  "extract_parent_fn_hint descriptor = find_map parent_hint_of_line (rust_lines descriptor)"

subsection \<open>Reading over a served file\<close>

definition br_ok :: "cache \<Rightarrow> bytes \<Rightarrow> bufreader \<Rightarrow> bool" where
  "br_ok c data b \<longleftrightarrow> serves c (cur_idx (br_cur b)) data \<and> cur_pos (br_cur b) \<le> length data \<and>
     length data + BUF_SIZE < u64_lim"

definition br_rest :: "bytes \<Rightarrow> bufreader \<Rightarrow> bytes" where
  "br_rest data b =
     br_buf b @ (case br_limit b of
       None \<Rightarrow> drop (cur_pos (br_cur b)) data
     | Some l \<Rightarrow> take l (drop (cur_pos (br_cur b)) data))"

lemma br_fill_spec:
  assumes ok: "br_ok c data b"
  shows "\<exists>b'. br_fill c b = Ok b' \<and> br_ok c data b' \<and> br_rest data b' = br_rest data b \<and>
    (br_buf b' = [] \<longrightarrow> br_rest data b = [])"
proof (cases "br_buf b = []")
  case e: True
  let ?p = "cur_pos (br_cur b)"
  have s: "serves c (cur_idx (br_cur b)) data" and p: "?p \<le> length data"
    and l: "length data + BUF_SIZE < u64_lim" using ok by (auto simp: br_ok_def)
  have rd: "crs_read c (br_cur b) n =
      (let k = min n (length data - ?p)
       in Ok (sub_list data ?p k, (br_cur b)\<lparr>cur_pos := ?p + k\<rparr>))" if "n \<le> BUF_SIZE" for n
    using that l p by (intro crs_read_serves [OF s p]) simp
  have split: "take (min k (length xs)) xs @ take (m - min k (length xs)) (drop (min k (length xs)) xs) = take m xs"
    if "k \<le> m" for k m and xs :: bytes
    using that by (cases "k \<le> length xs") (auto simp: min_def simp flip: take_add)
  have B: "0 < BUF_SIZE" by (simp add: BUF_SIZE_def)
  show ?thesis
  proof (cases "br_limit b")
    case None
    show ?thesis
      using e None rd [of BUF_SIZE] p s l B
      by (auto simp: br_fill_def Let_def br_ok_def br_rest_def sub_list_def min_def)
        (metis append_take_drop_id drop_drop add.commute)
  next
    case (Some m)
    have "min BUF_SIZE m \<le> m" by simp
    note sp = split [OF this, of "drop ?p data"]
    show ?thesis
    proof (cases "m = 0")
      case True
      then show ?thesis using e Some ok by (simp add: br_fill_def br_rest_def)
    next
      case False
      then show ?thesis
        using e Some rd [of "min BUF_SIZE m"] p s l B sp
        by (auto simp: br_fill_def Let_def br_ok_def br_rest_def sub_list_def add.commute
            simp del: min_less_iff_conj)
    qed
  qed
qed (use ok in \<open>auto simp: br_fill_def br_rest_def\<close>)

lemma br_ok_buf [simp]: "br_ok c data (b\<lparr>br_buf := x\<rparr>) = br_ok c data b"
  by (simp add: br_ok_def)

lemma br_rest_buf: "br_rest data b = br_buf b @ br_rest data (b\<lparr>br_buf := []\<rparr>)"
  by (simp add: br_rest_def cong: option.case_cong)

lemma br_rest_buf_upd: "br_rest data (b\<lparr>br_buf := x\<rparr>) = x @ br_rest data (b\<lparr>br_buf := []\<rparr>)"
  by (simp add: br_rest_def cong: option.case_cong)

lemma br_rest_left: "br_ok c data b \<Longrightarrow> length (br_rest data b) \<le> br_left c b"
  by (auto simp: br_ok_def br_rest_def br_left_def servesD(1) split: option.splits)

lemma split_after_append:
  "split_after d (xs @ ys) =
     (case split_after d xs of
        Some (a, r) \<Rightarrow> Some (a, r @ ys)
      | None \<Rightarrow> map_option (\<lambda>(a, r). (xs @ a, r)) (split_after d ys))"
  by (cases "split_after d ys"; induction xs) (auto split: option.splits prod.splits)

definition upto_delim :: "u8 \<Rightarrow> bytes \<Rightarrow> bytes \<times> bytes" where
  "upto_delim d bs = (case split_after d bs of Some p \<Rightarrow> p | None \<Rightarrow> (bs, []))"

lemma br_read_until_fuel_spec:
  assumes "br_ok c data b" "length (br_rest data b) < n"
  shows "\<exists>b'. br_read_until_fuel n c d b acc = Ok (acc @ fst (upto_delim d (br_rest data b)), b') \<and>
    br_ok c data b' \<and> br_rest data b' = snd (upto_delim d (br_rest data b))"
  using assms
proof (induction n arbitrary: b acc)
  case (Suc n)
  obtain b1 where b1: "br_fill c b = Ok b1" "br_ok c data b1" "br_rest data b1 = br_rest data b"
    "br_buf b1 = [] \<longrightarrow> br_rest data b = []"
    using br_fill_spec [OF Suc.prems(1)] by blast
  let ?b2 = "b1\<lparr>br_buf := []\<rparr>"
  have rest: "br_rest data b = br_buf b1 @ br_rest data ?b2"
    using b1(3) br_rest_buf by metis
  consider "br_buf b1 = []" | a r where "br_buf b1 \<noteq> []" "split_after d (br_buf b1) = Some (a, r)"
    | "br_buf b1 \<noteq> []" "split_after d (br_buf b1) = None" by fastforce
  then show ?case
  proof cases
    case 1
    then show ?thesis using b1 by (simp add: upto_delim_def)
  next
    case 2
    then show ?thesis
      using b1 rest br_rest_buf_upd [where data = data and b = b1 and x = r] by (simp add: upto_delim_def split_after_append)
  next
    case 3
    have "length (br_rest data ?b2) < n" using rest 3(1) Suc.prems(2) by (cases "br_buf b1") auto
    then obtain b' where "br_read_until_fuel n c d ?b2 (acc @ br_buf b1) =
        Ok (acc @ br_buf b1 @ fst (upto_delim d (br_rest data ?b2)), b')"
      "br_ok c data b'" "br_rest data b' = snd (upto_delim d (br_rest data ?b2))"
      using Suc.IH [of ?b2 "acc @ br_buf b1"] b1(2) by auto
    moreover have "upto_delim d (br_rest data b) =
        (br_buf b1 @ fst (upto_delim d (br_rest data ?b2)), snd (upto_delim d (br_rest data ?b2)))"
      using rest 3(2) by (auto simp: upto_delim_def split_after_append split: option.splits)
    ultimately show ?thesis using b1(1) 3 by simp
  qed
qed simp

lemma br_read_until_spec:
  assumes "br_ok c data b"
  shows "\<exists>b'. br_read_until c d b = Ok (fst (upto_delim d (br_rest data b)), b') \<and>
    br_ok c data b' \<and> br_rest data b' = snd (upto_delim d (br_rest data b))"
  using br_read_until_fuel_spec [OF assms, of "Suc (br_left c b)" d "[]"] br_rest_left [OF assms]
  by (simp add: br_read_until_def)

lemma br_read_to_end_fuel_spec:
  assumes "br_ok c data b" "length (br_rest data b) < n"
  shows "\<exists>b'. br_read_to_end_fuel n c b acc = Ok (acc @ br_rest data b, b')"
  using assms
proof (induction n arbitrary: b acc)
  case (Suc n)
  obtain b1 where b1: "br_fill c b = Ok b1" "br_ok c data b1" "br_rest data b1 = br_rest data b"
    "br_buf b1 = [] \<longrightarrow> br_rest data b = []"
    using br_fill_spec [OF Suc.prems(1)] by blast
  have rest: "br_rest data b = br_buf b1 @ br_rest data (b1\<lparr>br_buf := []\<rparr>)"
    using b1(3) br_rest_buf by metis
  show ?case
  proof (cases "br_buf b1 = []")
    case False
    then have "length (br_rest data (b1\<lparr>br_buf := []\<rparr>)) < n"
      using rest Suc.prems(2) by (cases "br_buf b1") auto
    then show ?thesis
      using Suc.IH [of "b1\<lparr>br_buf := []\<rparr>" "acc @ br_buf b1"] b1 rest False by simp
  qed (use b1 in simp)
qed simp

lemma br_read_to_end_spec:
  assumes "br_ok c data b"
  shows "\<exists>b'. br_read_to_end c b = Ok (br_rest data b, b')"
  using br_read_to_end_fuel_spec [OF assms, of "Suc (br_left c b)" "[]"] br_rest_left [OF assms]
  by (simp add: br_read_to_end_def)

lemma upto_nul:
  "(let l = fst (upto_delim 0 bs) in if l \<noteq> [] \<and> last l = 0 then butlast l else l) =
     takeWhile (\<lambda>b. b \<noteq> 0) bs"
proof (induction bs)
  case (Cons b bs)
  then show ?case
    by (cases "split_after 0 bs") (auto simp: upto_delim_def Let_def split: if_splits prod.splits)
qed (simp add: upto_delim_def)

text \<open>The descriptor embedded at sector \<open>off\<close> is the text up to the first NUL among the next twenty
  sectors, or all of it when there is none; an offset behind the end of the file is an error of the
  seek and never a panic.
\<close>

theorem read_descriptor_internal_spec:
  assumes "serves c i data" "length data + BUF_SIZE < u64_lim" "off * SECTOR_SIZE < u64_lim"
  shows "read_descriptor_internal c \<lparr>cur_idx = i, cur_pos = p\<rparr> off =
    (if off * SECTOR_SIZE \<le> length data
     then Ok (utf8_lossy (takeWhile (\<lambda>b. b \<noteq> 0)
            (sub_list data (off * SECTOR_SIZE) (20 * SECTOR_SIZE))))
     else Err InvalidInput)"
proof (cases "off * SECTOR_SIZE \<le> length data")
  case True
  let ?b = "br_new \<lparr>cur_idx = i, cur_pos = off * SECTOR_SIZE\<rparr> (Some (20 * SECTOR_SIZE))"
  have ok: "br_ok c data ?b" using assms True by (simp add: br_ok_def br_new_def)
  have rest: "br_rest data ?b = sub_list data (off * SECTOR_SIZE) (20 * SECTOR_SIZE)"
    by (simp add: br_rest_def br_new_def sub_list_def)
  obtain b' where "br_read_until c 0 ?b = Ok (fst (upto_delim 0 (br_rest data ?b)), b')"
    using br_read_until_spec [OF ok] by blast
  then show ?thesis
    using True assms upto_nul [of "br_rest data ?b"] rest
      seek_start_serves [of c "\<lparr>cur_idx = i, cur_pos = p\<rparr>" data]
    by (simp add: read_descriptor_internal_def Let_def)
next
  case False
  then show ?thesis
    using assms seek_start_serves [of c "\<lparr>cur_idx = i, cur_pos = p\<rparr>" data]
    by (simp add: read_descriptor_internal_def)
qed

text \<open>A sector of other data, then the text \<open>abc\<close>, a NUL and more.\<close>

definition sample_embedded :: bytes where
  "sample_embedded = replicate 512 255 @ [97, 98, 99, 0, 100]"

lemma sample_embedded_facts:
  "length sample_embedded = 517"
  "takeWhile (\<lambda>b. b \<noteq> 0) (sub_list sample_embedded 512 10240) = [97, 98, 99]"
  by (simp_all add: sample_embedded_def sub_list_def)

theorem read_descriptor_internal_spec_witness:
  "read_descriptor_internal (mem_cache (\<lambda>i. sample_embedded)) \<lparr>cur_idx = 0, cur_pos = 0\<rparr> 1 = Ok ''abc'' \<and>
   read_descriptor_internal (mem_cache (\<lambda>i. sample_embedded)) \<lparr>cur_idx = 0, cur_pos = 0\<rparr> 2 = Err InvalidInput"
proof -
  have s: "serves (mem_cache (\<lambda>i. sample_embedded)) 0 sample_embedded"
    by (rule mem_cache_serves) (simp add: sample_embedded_facts u64_lim_def)
  have "utf8_lossy (string_bytes ''abc'') = ''abc''"
  proof -
    have "utf8_valid (string_bytes ''abc'')" by (rule utf8_ascii_valid) (simp add: string_bytes_def)
    then show ?thesis using utf8_lossy_valid byte_char_string_bytes by metis
  qed
  then have "utf8_lossy [97, 98, 99] = ''abc''" by (simp add: string_bytes_def)
  then show ?thesis
    using read_descriptor_internal_spec [OF s, of 1 0] read_descriptor_internal_spec [OF s, of 2 0]
      sample_embedded_facts
    by (simp add: SECTOR_SIZE_def BUF_SIZE_def u64_lim_def)
qed

text \<open>A file whose first line is the descriptor line (a line feed in it or not, white space behind it
  allowed) is accepted and returned whole when the line and the rest are UTF-8; a file whose first
  line is another text that is not blank is refused.
\<close>

theorem read_descriptor_file_spec:
  assumes "serves c i data" "length data + BUF_SIZE < u64_lim" "data \<noteq> []"
    and "utf8_valid (fst (upto_delim 10 data))" "utf8_valid (snd (upto_delim 10 data))"
    and "trim_end (map byte_char (fst (upto_delim 10 data))) = t"
  shows "(t = DESCRIPTOR_LINE \<longrightarrow>
      read_descriptor_file c \<lparr>cur_idx = i, cur_pos = 0\<rparr> = Ok (map byte_char data)) \<and>
    (t \<noteq> DESCRIPTOR_LINE \<and> t \<noteq> [] \<longrightarrow>
      read_descriptor_file c \<lparr>cur_idx = i, cur_pos = 0\<rparr> = Err (OpDescriptorError UnrecognizedDescriptor))"
proof -
  let ?b = "br_new \<lparr>cur_idx = i, cur_pos = 0\<rparr> None"
  have ok: "br_ok c data ?b" using assms by (simp add: br_ok_def br_new_def)
  have rest: "br_rest data ?b = data" by (simp add: br_rest_def br_new_def)
  obtain b1 where b1: "br_read_until c 10 ?b = Ok (fst (upto_delim 10 data), b1)"
    "br_ok c data b1" "br_rest data b1 = snd (upto_delim 10 data)"
    using br_read_until_spec [OF ok] rest by metis
  obtain b2 where b2: "br_read_to_end c b1 = Ok (snd (upto_delim 10 data), b2)"
    using br_read_to_end_spec [OF b1(2)] b1(3) by metis
  have sp: "split_after d bs = Some (x, y) \<Longrightarrow> bs = x @ y \<and> x \<noteq> []" for d bs x y
    by (induction bs arbitrary: x) (auto split: if_splits)
  have cat: "fst (upto_delim 10 data) @ snd (upto_delim 10 data) = data"
    "fst (upto_delim 10 data) \<noteq> []"
    using sp [of 10 data] assms(3) by (auto simp: upto_delim_def split: option.splits)
  show ?thesis
  proof (intro conjI impI)
    assume "t = DESCRIPTOR_LINE"
    then show "read_descriptor_file c \<lparr>cur_idx = i, cur_pos = 0\<rparr> = Ok (map byte_char data)"
      using b1 b2 cat assms
      by (simp add: read_descriptor_file_def Let_def utf8_string_def flip: map_append)
  next
    assume "t \<noteq> DESCRIPTOR_LINE \<and> t \<noteq> []"
    then show "read_descriptor_file c \<lparr>cur_idx = i, cur_pos = 0\<rparr> =
        Err (OpDescriptorError UnrecognizedDescriptor)"
      using b1 cat assms by (simp add: read_descriptor_file_def Let_def utf8_string_def)
  qed
qed

definition sample_descriptor :: bytes where
  "sample_descriptor = string_bytes (DESCRIPTOR_LINE @ [CHR 0x0A] @ ''RW 4 ZERO'' @ [CHR 0x0A])"

lemma sample_descriptor_facts:
  "upto_delim 10 sample_descriptor =
    (string_bytes (DESCRIPTOR_LINE @ [CHR 0x0A]), string_bytes (''RW 4 ZERO'' @ [CHR 0x0A]))"
  "map byte_char sample_descriptor = DESCRIPTOR_LINE @ [CHR 0x0A] @ ''RW 4 ZERO'' @ [CHR 0x0A]"
  "utf8_valid (fst (upto_delim 10 sample_descriptor))" "utf8_valid (snd (upto_delim 10 sample_descriptor))"
  "trim_end (map byte_char (fst (upto_delim 10 sample_descriptor))) = DESCRIPTOR_LINE"
  "length sample_descriptor = 32"
proof -
  show u: "upto_delim 10 sample_descriptor =
    (string_bytes (DESCRIPTOR_LINE @ [CHR 0x0A]), string_bytes (''RW 4 ZERO'' @ [CHR 0x0A]))"
    by (simp add: sample_descriptor_def string_bytes_def DESCRIPTOR_LINE_def upto_delim_def)
  show "map byte_char sample_descriptor = DESCRIPTOR_LINE @ [CHR 0x0A] @ ''RW 4 ZERO'' @ [CHR 0x0A]"
    unfolding sample_descriptor_def by (rule byte_char_string_bytes)
  show "utf8_valid (fst (upto_delim 10 sample_descriptor))"
    "utf8_valid (snd (upto_delim 10 sample_descriptor))"
    unfolding u by (rule utf8_ascii_valid; simp add: string_bytes_def DESCRIPTOR_LINE_def)+
  show "trim_end (map byte_char (fst (upto_delim 10 sample_descriptor))) = DESCRIPTOR_LINE"
    unfolding u by (simp add: DESCRIPTOR_LINE_def trim_end_def is_ws_def)
  show "length sample_descriptor = 32"
    by (simp add: sample_descriptor_def string_bytes_def DESCRIPTOR_LINE_def)
qed

theorem read_descriptor_file_spec_witness:
  "read_descriptor_file (mem_cache (\<lambda>i. sample_descriptor)) \<lparr>cur_idx = 0, cur_pos = 0\<rparr> =
    Ok (DESCRIPTOR_LINE @ [CHR 0x0A] @ ''RW 4 ZERO'' @ [CHR 0x0A])"
proof -
  have "serves (mem_cache (\<lambda>i. sample_descriptor)) 0 sample_descriptor"
    by (rule mem_cache_serves) (simp add: sample_descriptor_facts u64_lim_def)
  moreover have "length sample_descriptor + BUF_SIZE < u64_lim" "sample_descriptor \<noteq> []"
    using sample_descriptor_facts(6) by (auto simp: BUF_SIZE_def u64_lim_def)
  ultimately show ?thesis
    using read_descriptor_file_spec [OF _ _ _ sample_descriptor_facts(3-5), of _ 0]
    by (simp add: sample_descriptor_facts(2))
qed

end
