(* ===== verification/BTreeMap.thy ===== *)
theory BTreeMap
  imports Prelude
begin

text \<open>
  The standard library's \<open>BTreeMap\<close>, as far as the span code uses it: an association list kept in
  strictly ascending key order, with \<open>insert\<close>, \<open>remove\<close>, \<open>range(..=k).last()\<close> and
  \<open>range((Excluded(k), Included(MAX))).next()\<close>.  The locale \<open>ordered_map\<close> states the contract the
  span code relies on; \<open>bt\<close> is its interpretation on the list model.
\<close>

type_synonym ('k, 'v) btree = "('k \<times> 'v) list"

definition bt_inv :: "('k::linorder, 'v) btree \<Rightarrow> bool" where
  "bt_inv m \<longleftrightarrow> sorted_wrt (<) (map fst m)"

abbreviation bt_lookup :: "('k, 'v) btree \<Rightarrow> 'k \<Rightarrow> 'v option" where
  "bt_lookup \<equiv> map_of"

definition bt_insert :: "'k::linorder \<Rightarrow> 'v \<Rightarrow> ('k, 'v) btree \<Rightarrow> ('k, 'v) btree" where
  "bt_insert k v m =
     filter (\<lambda>e. fst e < k) m @ (k, v) # filter (\<lambda>e. k < fst e) m"

definition bt_remove :: "'k::linorder \<Rightarrow> ('k, 'v) btree \<Rightarrow> ('k, 'v) btree" where
  "bt_remove k m = filter (\<lambda>e. fst e \<noteq> k) m"

definition bt_last_le :: "'k::linorder \<Rightarrow> ('k, 'v) btree \<Rightarrow> ('k \<times> 'v) option" where
  "bt_last_le k m =
     (let xs = filter (\<lambda>e. fst e \<le> k) m in if xs = [] then None else Some (last xs))"

definition bt_first_gt :: "'k::linorder \<Rightarrow> ('k, 'v) btree \<Rightarrow> ('k \<times> 'v) option" where
  "bt_first_gt k m =
     (let xs = filter (\<lambda>e. k < fst e) m in if xs = [] then None else Some (hd xs))"

locale ordered_map =
  fixes inv :: "'m \<Rightarrow> bool"
    and lookup :: "'m \<Rightarrow> 'k::linorder \<Rightarrow> 'v option"
    and insert :: "'k \<Rightarrow> 'v \<Rightarrow> 'm \<Rightarrow> 'm"
    and remove :: "'k \<Rightarrow> 'm \<Rightarrow> 'm"
    and last_le :: "'k \<Rightarrow> 'm \<Rightarrow> ('k \<times> 'v) option"
    and first_gt :: "'k \<Rightarrow> 'm \<Rightarrow> ('k \<times> 'v) option"
  assumes inv_insert: "inv m \<Longrightarrow> inv (insert k v m)"
    and inv_remove: "inv m \<Longrightarrow> inv (remove k m)"
    and lookup_insert: "inv m \<Longrightarrow> lookup (insert k v m) = (lookup m)(k := Some v)"
    and lookup_remove: "inv m \<Longrightarrow> lookup (remove k m) = (lookup m)(k := None)"
    and last_le_None: "inv m \<Longrightarrow> last_le k m = None \<longleftrightarrow> (\<forall>a \<le> k. lookup m a = None)"
    and last_le_Some: "inv m \<Longrightarrow> last_le k m = Some (a, v) \<longleftrightarrow>
          a \<le> k \<and> lookup m a = Some v \<and> (\<forall>b. a < b \<and> b \<le> k \<longrightarrow> lookup m b = None)"
    and first_gt_None: "inv m \<Longrightarrow> first_gt k m = None \<longleftrightarrow> (\<forall>a > k. lookup m a = None)"
    and first_gt_Some: "inv m \<Longrightarrow> first_gt k m = Some (a, v) \<longleftrightarrow>
          k < a \<and> lookup m a = Some v \<and> (\<forall>b. k < b \<and> b < a \<longrightarrow> lookup m b = None)"
begin

text \<open>What a caller that looks at both neighbours of a position knows.\<close>

lemma no_key_between:
  assumes "inv m" "last_le k m = Some (a, v)" "first_gt k m = Some (b, w)" "a < x" "x < b"
  shows "lookup m x = None"
  using assms by (cases "x \<le> k") (auto simp: last_le_Some first_gt_Some)

lemma no_key_above:
  assumes "inv m" "last_le k m = Some (a, v)" "first_gt k m = None" "a < x"
  shows "lookup m x = None"
  using assms by (cases "x \<le> k") (auto simp: last_le_Some first_gt_None)

lemma moved_first_gt:
  assumes "inv m" "last_le k m = Some (a, v)"
  shows "first_gt a m = first_gt k m"
proof (cases "first_gt k m")
  case None
  then have "lookup m x = None" if "a < x" for x
    using assms that no_key_above by blast
  then have "first_gt a m = None" using assms(1) by (simp add: first_gt_None)
  then show ?thesis using None by simp
next
  case (Some p)
  obtain b w where p: "p = (b, w)" by (cases p)
  from Some p have kb: "k < b" "lookup m b = Some w"
    using assms(1) by (auto simp: first_gt_Some)
  moreover have "a \<le> k" using assms by (simp add: last_le_Some)
  moreover have "lookup m x = None" if "a < x" "x < b" for x
    using assms Some p that no_key_between by blast
  ultimately have "first_gt a m = Some (b, w)"
    using assms(1) by (auto simp: first_gt_Some)
  then show ?thesis using Some p by simp
qed

lemmas map_laws = inv_insert inv_remove lookup_insert lookup_remove
  last_le_None last_le_Some first_gt_None first_gt_Some

end

lemma bt_lookup_filter:
  assumes "bt_inv m"
  shows "bt_lookup (filter (\<lambda>e. P (fst e)) m) x = (if P x then bt_lookup m x else None)"
  using assms by (induction m) (auto simp: bt_inv_def)

lemma bt_inv_filter: "bt_inv m \<Longrightarrow> bt_inv (filter P m)"
  by (induction m) (auto simp: bt_inv_def)

lemma bt_inv_insert: "bt_inv m \<Longrightarrow> bt_inv (bt_insert k v m)"
  using bt_inv_filter [of m "\<lambda>e. fst e < k"] bt_inv_filter [of m "\<lambda>e. k < fst e"]
  by (auto simp: bt_inv_def bt_insert_def sorted_wrt_append)

lemma bt_inv_remove: "bt_inv m \<Longrightarrow> bt_inv (bt_remove k m)"
  by (simp add: bt_remove_def bt_inv_filter)

lemma bt_lookup_insert:
  assumes "bt_inv m"
  shows "bt_lookup (bt_insert k v m) = (bt_lookup m)(k := Some v)"
proof
  fix x
  show "bt_lookup (bt_insert k v m) x = ((bt_lookup m)(k := Some v)) x"
    using bt_lookup_filter [OF assms, of "\<lambda>a. a < k" x]
      bt_lookup_filter [OF assms, of "\<lambda>a. k < a" x]
    by (auto simp: bt_insert_def map_add_def split: option.splits)
qed

lemma bt_lookup_remove:
  assumes "bt_inv m"
  shows "bt_lookup (bt_remove k m) = (bt_lookup m)(k := None)"
  using bt_lookup_filter [OF assms, of "\<lambda>a. a \<noteq> k"] by (auto simp: bt_remove_def)

lemma bt_lookup_in_set: "bt_inv m \<Longrightarrow> bt_lookup m a = Some v \<longleftrightarrow> (a, v) \<in> set m"
  by (rule map_of_eq_Some_iff) (auto simp: bt_inv_def strict_sorted_iff)

lemma bt_inv_last_max:
  "bt_inv xs \<Longrightarrow> xs \<noteq> [] \<Longrightarrow> e \<in> set xs \<Longrightarrow> fst e \<le> fst (last xs)"
  by (induction xs) (auto simp: bt_inv_def less_imp_le)

lemma bt_inv_hd_min:
  "bt_inv xs \<Longrightarrow> xs \<noteq> [] \<Longrightarrow> e \<in> set xs \<Longrightarrow> fst (hd xs) \<le> fst e"
  by (cases xs) (auto simp: bt_inv_def less_imp_le)

lemma bt_lookup_None_iff: "bt_inv m \<Longrightarrow> bt_lookup m a = None \<longleftrightarrow> (\<forall>v. (a, v) \<notin> set m)"
  by (metis bt_lookup_in_set not_None_eq)

lemma bt_last_le_None:
  "bt_inv m \<Longrightarrow> bt_last_le k m = None \<longleftrightarrow> (\<forall>a \<le> k. bt_lookup m a = None)"
  by (auto simp: bt_last_le_def Let_def filter_empty_conv bt_lookup_None_iff)

lemma bt_first_gt_None:
  "bt_inv m \<Longrightarrow> bt_first_gt k m = None \<longleftrightarrow> (\<forall>a > k. bt_lookup m a = None)"
  by (auto simp: bt_first_gt_def Let_def filter_empty_conv bt_lookup_None_iff)

lemma bt_last_le_SomeD:
  assumes "bt_inv m" "bt_last_le k m = Some (a, v)"
  shows "a \<le> k" "bt_lookup m a = Some v" "\<And>b. a < b \<Longrightarrow> b \<le> k \<Longrightarrow> bt_lookup m b = None"
proof -
  let ?xs = "filter (\<lambda>e. fst e \<le> k) m"
  from assms(2) have ne: "?xs \<noteq> []" and l: "last ?xs = (a, v)"
    by (auto simp: bt_last_le_def Let_def split: if_splits)
  from last_in_set [OF ne] l have mem: "(a, v) \<in> set ?xs" by simp
  then show "a \<le> k" by simp
  show "bt_lookup m a = Some v" using mem assms(1) by (simp add: bt_lookup_in_set)
  fix b assume b: "a < b" "b \<le> k"
  show "bt_lookup m b = None"
  proof (rule ccontr)
    assume "bt_lookup m b \<noteq> None"
    then obtain w where "(b, w) \<in> set ?xs" using assms(1) b by (auto simp: bt_lookup_in_set)
    from bt_inv_last_max [OF bt_inv_filter [OF assms(1)] ne this] l b show False by simp
  qed
qed

lemma bt_first_gt_SomeD:
  assumes "bt_inv m" "bt_first_gt k m = Some (a, v)"
  shows "k < a" "bt_lookup m a = Some v" "\<And>b. k < b \<Longrightarrow> b < a \<Longrightarrow> bt_lookup m b = None"
proof -
  let ?xs = "filter (\<lambda>e. k < fst e) m"
  from assms(2) have ne: "?xs \<noteq> []" and l: "hd ?xs = (a, v)"
    by (auto simp: bt_first_gt_def Let_def split: if_splits)
  from hd_in_set [OF ne] l have mem: "(a, v) \<in> set ?xs" by simp
  then show "k < a" by simp
  show "bt_lookup m a = Some v" using mem assms(1) by (simp add: bt_lookup_in_set)
  fix b assume b: "k < b" "b < a"
  show "bt_lookup m b = None"
  proof (rule ccontr)
    assume "bt_lookup m b \<noteq> None"
    then obtain w where "(b, w) \<in> set ?xs" using assms(1) b by (auto simp: bt_lookup_in_set)
    from bt_inv_hd_min [OF bt_inv_filter [OF assms(1)] ne this] l b show False by simp
  qed
qed

lemma bt_last_le_Some:
  assumes "bt_inv m"
  shows "bt_last_le k m = Some (a, v) \<longleftrightarrow>
    a \<le> k \<and> bt_lookup m a = Some v \<and> (\<forall>b. a < b \<and> b \<le> k \<longrightarrow> bt_lookup m b = None)"
    (is "?l \<longleftrightarrow> ?r")
proof
  assume ?l
  then show ?r using bt_last_le_SomeD [OF assms] by blast
next
  assume r: ?r
  then have "bt_last_le k m \<noteq> None" using bt_last_le_None [OF assms] by auto
  then obtain a' v' where s: "bt_last_le k m = Some (a', v')" by auto
  from bt_last_le_SomeD [OF assms s] r have "a' = a" by (metis option.distinct(1) linorder_neqE)
  with bt_last_le_SomeD(2) [OF assms s] r s show ?l by simp
qed

lemma bt_first_gt_Some:
  assumes "bt_inv m"
  shows "bt_first_gt k m = Some (a, v) \<longleftrightarrow>
    k < a \<and> bt_lookup m a = Some v \<and> (\<forall>b. k < b \<and> b < a \<longrightarrow> bt_lookup m b = None)"
    (is "?l \<longleftrightarrow> ?r")
proof
  assume ?l
  then show ?r using bt_first_gt_SomeD [OF assms] by blast
next
  assume r: ?r
  then have "bt_first_gt k m \<noteq> None" using bt_first_gt_None [OF assms] by auto
  then obtain a' v' where s: "bt_first_gt k m = Some (a', v')" by auto
  from bt_first_gt_SomeD [OF assms s] r have "a' = a" by (metis option.distinct(1) linorder_neqE)
  with bt_first_gt_SomeD(2) [OF assms s] r s show ?l by simp
qed

interpretation bt: ordered_map bt_inv bt_lookup bt_insert bt_remove bt_last_le bt_first_gt
  by unfold_locales
    (auto simp: bt_inv_insert bt_lookup_insert bt_lookup_remove bt_last_le_None bt_first_gt_None
       bt_last_le_Some bt_first_gt_Some bt_inv_remove)

lemma bt_inv_Nil [simp]: "bt_inv []"
  by (simp add: bt_inv_def)

end
