(* ===== verification/Spans.thy ===== *)
theory Spans
  imports BTreeMap
begin

text \<open>
  \<open>vmdk/src/spans.rs\<close>: maps of half-open spans \<open>[beg, end)\<close>.  A span map is a \<open>BTreeMap\<close> from a
  span's begin to its end (\<open>remove_span\<close>, the uncovered part of the image) or to its end and a value
  (\<open>insert_span\<close>, which extent serves the sectors).  One iteration of each \<open>loop\<close> is a body function
  that either returns or hands on the next \<open>sbeg\<close> and map; the loop itself is a
  \<^theory_text>\<open>partial_function\<close> whose \<open>None\<close> is a loop that never returns.

  Shown: on a well-formed map both loops return; \<open>insert_span\<close> fills exactly the sectors nothing
  covered and changes no other; \<open>remove_span\<close> uncovers exactly its interval; both keep the map
  well formed.
\<close>

type_synonym 'v span_map = "(nat, nat \<times> 'v) btree"
type_synonym gap_map = "(nat, nat) btree"

subsection \<open>The code\<close>

definition remove_span_after :: "nat \<Rightarrow> nat \<Rightarrow> gap_map \<Rightarrow> (nat \<times> gap_map) + gap_map" where
  "remove_span_after sbeg send m =
     (case bt_first_gt sbeg m of
        Some (ubeg, uend) \<Rightarrow>
          if ubeg \<le> send then
            (let m = bt_remove ubeg m in
             if send < uend then Inr (bt_insert send uend m)
             else Inl (uend, m))
          else Inr m
      | None \<Rightarrow> Inr m)"

definition remove_span_body :: "nat \<Rightarrow> nat \<Rightarrow> gap_map \<Rightarrow> (nat \<times> gap_map) + gap_map" where
  "remove_span_body sbeg send m =
     (case bt_last_le sbeg m of
        Some (lbeg, lend) \<Rightarrow>
          if sbeg < lend then
            (let m = (if lbeg < sbeg then bt_insert lbeg sbeg m else bt_remove lbeg m) in
             if send < lend then Inr (bt_insert send lend m)
             else if send = lend then Inr m
             else remove_span_after lend send m)
          else remove_span_after sbeg send m
      | None \<Rightarrow> remove_span_after sbeg send m)"

partial_function (option) remove_span :: "nat \<Rightarrow> nat \<Rightarrow> gap_map \<Rightarrow> gap_map option" where
  "remove_span sbeg send m =
     (case remove_span_body sbeg send m of
        Inr m' \<Rightarrow> Some m'
      | Inl (sbeg', m') \<Rightarrow> remove_span sbeg' send m')"

definition insert_span_after ::
    "nat \<Rightarrow> nat \<Rightarrow> 'v \<Rightarrow> 'v span_map \<Rightarrow> (nat \<times> 'v span_map) + 'v span_map" where
  "insert_span_after sbeg send val m =
     (case bt_first_gt sbeg m of
        Some (ubeg, uend, uv) \<Rightarrow>
          if ubeg \<le> send then
            (let m' = (if uv = val then bt_insert sbeg (uend, val) (bt_remove ubeg m)
                       else bt_insert sbeg (ubeg, val) m) in
             if uend < send then Inl (uend, m') else Inr m')
          else Inr (bt_insert sbeg (send, val) m)
      | None \<Rightarrow> Inr (bt_insert sbeg (send, val) m))"

definition insert_span_body ::
    "nat \<Rightarrow> nat \<Rightarrow> 'v \<Rightarrow> 'v span_map \<Rightarrow> (nat \<times> 'v span_map) + 'v span_map" where
  "insert_span_body sbeg send val m =
     (case bt_last_le sbeg m of
        Some (lbeg, lend, lv) \<Rightarrow>
          if sbeg < lend then
            (if send \<le> lend then Inr m else Inl (lend, m))
          else if sbeg = lend \<and> val = lv then insert_span_after lbeg send val m
          else insert_span_after sbeg send val m
      | None \<Rightarrow> insert_span_after sbeg send val m)"

partial_function (option) insert_span ::
    "nat \<Rightarrow> nat \<Rightarrow> 'v \<Rightarrow> 'v span_map \<Rightarrow> 'v span_map option" where
  "insert_span sbeg send val m =
     (case insert_span_body sbeg send val m of
        Inr m' \<Rightarrow> Some m'
      | Inl (sbeg', m') \<Rightarrow> insert_span sbeg' send val m')"

declare remove_span.simps [code] insert_span.simps [code]

subsection \<open>What a span map says\<close>

definition span_val :: "'v span_map \<Rightarrow> nat \<Rightarrow> 'v option" where
  "span_val m x =
     (case bt_last_le x m of
        Some (b, e, v) \<Rightarrow> if x < e then Some v else None
      | None \<Rightarrow> None)"

definition in_gap :: "gap_map \<Rightarrow> nat \<Rightarrow> bool" where
  "in_gap m x =
     (case bt_last_le x m of
        Some (b, e) \<Rightarrow> x < e
      | None \<Rightarrow> False)"

text \<open>
  The well-formedness of a map, on its lookup function: a span ends no earlier than it begins and no
  later than the next one begins.  \<open>ends\<close> reads a span's end off the stored value.
\<close>

definition ordered_spans :: "('w \<Rightarrow> nat) \<Rightarrow> (nat \<Rightarrow> 'w option) \<Rightarrow> bool" where
  "ordered_spans ends L \<longleftrightarrow>
     (\<forall>b w. L b = Some w \<longrightarrow> b \<le> ends w) \<and>
     (\<forall>b w c. L b = Some w \<longrightarrow> b < c \<longrightarrow> L c \<noteq> None \<longrightarrow> ends w \<le> c)"

definition wf_spans :: "'v span_map \<Rightarrow> bool" where
  "wf_spans m \<longleftrightarrow> bt_inv m \<and> ordered_spans fst (bt_lookup m)"

definition wf_gaps :: "gap_map \<Rightarrow> bool" where
  "wf_gaps m \<longleftrightarrow> bt_inv m \<and> ordered_spans id (bt_lookup m)"

definition covers :: "('w \<Rightarrow> nat) \<Rightarrow> (nat \<Rightarrow> 'w option) \<Rightarrow> nat \<Rightarrow> 'w \<Rightarrow> bool" where
  "covers ends L x w \<longleftrightarrow> (\<exists>b. L b = Some w \<and> b \<le> x \<and> x < ends w)"

lemma ordered_spansD:
  assumes "ordered_spans ends L" "L b = Some w"
  shows "b \<le> ends w" and "b < c \<Longrightarrow> L c = Some w' \<Longrightarrow> ends w \<le> c"
  using assms unfolding ordered_spans_def by blast+

lemma covers_unique:
  assumes "ordered_spans ends L" "covers ends L x w" "covers ends L x w'"
  shows "w = w'"
proof -
  from assms(2,3) obtain b c where b: "L b = Some w" "b \<le> x" "x < ends w"
    and c: "L c = Some w'" "c \<le> x" "x < ends w'"
    by (auto simp: covers_def)
  have "b = c"
    using ordered_spansD(2) [OF assms(1) b(1), of c w'] ordered_spansD(2) [OF assms(1) c(1), of b w] b c
    by (metis linorder_neqE_nat not_le order_trans)
  with b c show ?thesis by simp
qed

text \<open>The span that covers a position is the last one starting at or before it.\<close>

lemma covers_iff_last_le:
  assumes inv: "bt_inv m" and ord: "ordered_spans ends (bt_lookup m)"
  shows "covers ends (bt_lookup m) x w \<longleftrightarrow> (\<exists>b. bt_last_le x m = Some (b, w) \<and> x < ends w)"
proof
  assume "covers ends (bt_lookup m) x w"
  then obtain b where b: "bt_lookup m b = Some w" "b \<le> x" "x < ends w"
    by (auto simp: covers_def)
  have "bt_lookup m c = None" if "b < c" "c \<le> x" for c
    using ordered_spansD(2) [OF ord b(1) that(1)] that b(3)
    by (metis not_None_eq not_le order_trans)
  with b inv have "bt_last_le x m = Some (b, w)" by (simp add: bt.last_le_Some)
  with b show "\<exists>b. bt_last_le x m = Some (b, w) \<and> x < ends w" by blast
next
  assume "\<exists>b. bt_last_le x m = Some (b, w) \<and> x < ends w"
  then show "covers ends (bt_lookup m) x w"
    using inv by (auto simp: covers_def bt.last_le_Some)
qed

lemma span_val_iff:
  assumes "wf_spans m"
  shows "span_val m x = Some v \<longleftrightarrow> (\<exists>e. covers fst (bt_lookup m) x (e, v))"
  using assms covers_iff_last_le [of m fst x]
  by (auto simp: wf_spans_def span_val_def split: option.splits if_splits)

lemma in_gap_iff:
  assumes "wf_gaps m"
  shows "in_gap m x \<longleftrightarrow> (\<exists>e. covers id (bt_lookup m) x e)"
  using assms covers_iff_last_le [of m id x]
  by (auto simp: wf_gaps_def in_gap_def split: option.splits)

subsection \<open>Updates of a span map, on lookup functions\<close>

lemma ordered_upd:
  assumes "ordered_spans ends L" "a \<le> ends w"
    and "\<And>b w'. L b = Some w' \<Longrightarrow> b < a \<Longrightarrow> ends w' \<le> a"
    and "\<And>b w'. L b = Some w' \<Longrightarrow> a < b \<Longrightarrow> ends w \<le> b"
  shows "ordered_spans ends (L(a := Some w))"
  using assms unfolding ordered_spans_def by (auto split: if_splits)

lemma ordered_del: "ordered_spans ends L \<Longrightarrow> ordered_spans ends (L(a := None))"
  unfolding ordered_spans_def by (auto split: if_splits)

definition has :: "(nat \<Rightarrow> (nat \<times> 'v) option) \<Rightarrow> nat \<Rightarrow> 'v \<Rightarrow> bool" where
  "has L x v \<longleftrightarrow> (\<exists>b e. L b = Some (e, v) \<and> b \<le> x \<and> x < e)"

lemma has_upd:
  "has (L(a := Some (t, u))) x v \<longleftrightarrow>
     (v = u \<and> a \<le> x \<and> x < t) \<or> (\<exists>b e. b \<noteq> a \<and> L b = Some (e, v) \<and> b \<le> x \<and> x < e)"
  unfolding has_def by (auto split: if_splits)

lemma has_split:
  "has L x v \<longleftrightarrow>
     (\<exists>e. L a = Some (e, v) \<and> a \<le> x \<and> x < e) \<or>
     (\<exists>b e. b \<noteq> a \<and> L b = Some (e, v) \<and> b \<le> x \<and> x < e)"
  unfolding has_def by metis

text \<open>
  A span whose begin is moved back to \<open>s0\<close> (a neighbour of the same value that ends at \<open>s\<close>), or that
  begins at \<open>s = s0\<close>, is written over the interval \<open>[s, t)\<close> that holds no key.
\<close>

lemma fill_gap:
  assumes ord: "ordered_spans fst L" and "s0 \<le> s" "s \<le> t"
    and nokey: "\<forall>b. s0 < b \<longrightarrow> b < t \<or> b \<le> s \<longrightarrow> L b = None"
    and before: "\<forall>b e v. L b = Some (e, v) \<longrightarrow> b < s0 \<longrightarrow> e \<le> s0"
    and at: "(L s0 = None \<and> s0 = s) \<or> (\<exists>v0. L s0 = Some (s, v0) \<and> (s0 = s \<or> v0 = val))"
  shows "ordered_spans fst (L(s0 := Some (t, val)))"
    and "has (L(s0 := Some (t, val))) x v \<longleftrightarrow> has L x v \<or> (s \<le> x \<and> x < t \<and> v = val)"
    and "s \<le> x \<Longrightarrow> x < t \<Longrightarrow> \<not> has L x v"
proof -
  show "ordered_spans fst (L(s0 := Some (t, val)))"
  proof (rule ordered_upd [OF ord])
    show "s0 \<le> fst (t, val)" using assms by simp
  next
    fix b w' assume "L b = Some w'" "b < s0"
    then show "fst w' \<le> s0" using before by (cases w') auto
  next
    fix b w' assume "L b = Some w'" "s0 < b"
    then show "fst (t, val) \<le> b" using nokey by (metis fst_conv not_le option.distinct(1))
  qed
  have other: "e \<le> s" if "b \<noteq> s0" "L b = Some (e, v)" "b \<le> x" "x < t" for b e v x
  proof (cases "b < s0")
    case True
    then show ?thesis using before that \<open>s0 \<le> s\<close> by fastforce
  next
    case False
    then have "L b = None" using nokey that by simp
    then show ?thesis using that by simp
  qed
  show "has (L(s0 := Some (t, val))) x v \<longleftrightarrow> has L x v \<or> (s \<le> x \<and> x < t \<and> v = val)"
    unfolding has_upd has_split [of L x v s0] using at assms(2,3) by (auto simp: not_le)
  assume x: "s \<le> x" "x < t"
  show "\<not> has L x v"
  proof
    assume "has L x v"
    then obtain b e where b: "L b = Some (e, v)" "b \<le> x" "x < e" by (auto simp: has_def)
    show False using other [OF _ b(1,2) x(2)] at b x by (cases "b = s0") auto
  qed
qed

text \<open>Two adjacent spans of one value become one.\<close>

lemma join_spans:
  assumes ord: "ordered_spans fst L" and a: "L a = Some (b, v0)" and b: "L b = Some (c, v0)"
    and "a < b"
  shows "ordered_spans fst (L(b := None, a := Some (c, v0)))"
    and "has (L(b := None, a := Some (c, v0))) x v \<longleftrightarrow> has L x v"
proof -
  have bc: "b \<le> c" using ordered_spansD(1) [OF ord b] by simp
  show "ordered_spans fst (L(b := None, a := Some (c, v0)))"
  proof (rule ordered_upd [OF ordered_del [OF ord]])
    show "a \<le> fst (c, v0)" using bc assms by simp
  next
    fix d w' assume "(L(b := None)) d = Some w'" "d < a"
    then show "fst w' \<le> a" using ordered_spansD(2) [OF ord _ _ a] by (auto split: if_splits)
  next
    fix d w' assume d: "(L(b := None)) d = Some w'" "a < d"
    then have "L d = Some w'" "d \<noteq> b" by (auto split: if_splits)
    moreover have "b \<le> d" using ordered_spansD(2) [OF ord a d(2)] calculation by simp
    ultimately show "fst (c, v0) \<le> d" using ordered_spansD(2) [OF ord b, of d w'] by simp
  qed
  show "has (L(b := None, a := Some (c, v0))) x v \<longleftrightarrow> has L x v"
  proof
    assume "has (L(b := None, a := Some (c, v0))) x v"
    then consider "v = v0" "a \<le> x" "x < c"
      | d e where "d \<noteq> a" "(L(b := None)) d = Some (e, v)" "d \<le> x" "x < e"
      unfolding has_upd by blast
    then show "has L x v"
    proof cases
      case 1
      then show ?thesis using a b by (cases "x < b") (force simp: has_def)+
    next
      case 2
      then show ?thesis by (auto simp: has_def split: if_splits)
    qed
  next
    assume "has L x v"
    then obtain d e where d: "L d = Some (e, v)" "d \<le> x" "x < e" by (auto simp: has_def)
    consider "d = a" | "d = b" | "d \<noteq> a" "d \<noteq> b" by blast
    then show "has (L(b := None, a := Some (c, v0))) x v"
      unfolding has_upd using a b bc \<open>a < b\<close> d by cases auto
  qed
qed

subsection \<open>Insertion\<close>

text \<open>\<open>L'\<close> is \<open>L\<close> with the uncovered part of \<open>[s, t)\<close> given the value \<open>val\<close>.\<close>

definition fills ::
    "(nat \<Rightarrow> (nat \<times> 'v) option) \<Rightarrow> nat \<Rightarrow> nat \<Rightarrow> 'v \<Rightarrow> (nat \<Rightarrow> (nat \<times> 'v) option) \<Rightarrow> bool" where
  "fills L s t val L' \<longleftrightarrow>
     (\<forall>x v. has L' x v \<longleftrightarrow> has L x v \<or> (s \<le> x \<and> x < t \<and> v = val \<and> (\<forall>u. \<not> has L x u)))"

lemma fills_trans:
  assumes "fills L s r val L1" "fills L1 r t val L2" "s \<le> r" "r \<le> t"
  shows "fills L s t val L2"
  using assms unfolding fills_def by (smt (verit) leI le_less_trans less_le_trans order_trans)

lemma fills_covered:
  assumes "\<And>x. s \<le> x \<Longrightarrow> x < t \<Longrightarrow> \<exists>u. has L x u"
  shows "fills L s t val L"
  using assms unfolding fills_def by blast

lemma insert_span_after_step:
  fixes m :: "'v span_map"
  defines "L \<equiv> bt_lookup m"
  assumes inv: "bt_inv m" and ord: "ordered_spans fst L" and "s0 \<le> s" "s \<le> send"
    and nokey: "\<forall>b. s0 < b \<longrightarrow> b \<le> s \<longrightarrow> L b = None"
    and before: "\<forall>b e v. L b = Some (e, v) \<longrightarrow> b < s0 \<longrightarrow> e \<le> s0"
    and at: "(L s0 = None \<and> s0 = s) \<or> (\<exists>v0. L s0 = Some (s, v0) \<and> (s0 = s \<or> v0 = val))"
  shows "case insert_span_after s0 send val m of
      Inr m' \<Rightarrow> wf_spans m' \<and> fills L s send val (bt_lookup m')
    | Inl (s', m') \<Rightarrow> wf_spans m' \<and> s < s' \<and> s' < send \<and> fills L s s' val (bt_lookup m')"
proof (cases "\<exists>ubeg uend uv. bt_first_gt s0 m = Some (ubeg, uend, uv) \<and> ubeg \<le> send")
  case False
  have nk: "\<forall>b. s0 < b \<longrightarrow> b < send \<or> b \<le> s \<longrightarrow> L b = None"
  proof (cases "bt_first_gt s0 m")
    case None
    then show ?thesis using inv by (auto simp: L_def bt.first_gt_None)
  next
    case (Some p)
    then obtain ubeg w where p: "bt_first_gt s0 m = Some (ubeg, w)" "send < ubeg"
      using False by (cases p) (auto simp: not_le)
    then show ?thesis
      using inv \<open>s \<le> send\<close> unfolding L_def by (auto simp: bt.first_gt_Some)
  qed
  have eq: "insert_span_after s0 send val m = Inr (bt_insert s0 (send, val) m)"
    using False by (auto simp: insert_span_after_def split: option.splits)
  note fg = fill_gap [OF ord \<open>s0 \<le> s\<close> \<open>s \<le> send\<close> nk before at]
  show ?thesis
    unfolding eq using fg inv
    by (auto simp: wf_spans_def bt.map_laws L_def [symmetric] fills_def)
next
  case True
  then obtain ubeg uend uv where u: "bt_first_gt s0 m = Some (ubeg, uend, uv)" "ubeg \<le> send"
    by blast
  then have ub: "s0 < ubeg" "L ubeg = Some (uend, uv)" and
    gap: "\<And>b. s0 < b \<Longrightarrow> b < ubeg \<Longrightarrow> L b = None"
    using inv by (auto simp: L_def bt.first_gt_Some)
  have su: "s < ubeg" using nokey ub by (metis not_le option.distinct(1))
  have ue: "ubeg \<le> uend" using ordered_spansD(1) [OF ord ub(2)] by simp
  have nk: "\<forall>b. s0 < b \<longrightarrow> b < ubeg \<or> b \<le> s \<longrightarrow> L b = None"
    using gap nokey by blast
  let ?L1 = "L(s0 := Some (ubeg, val))"
  note fg = fill_gap [OF ord \<open>s0 \<le> s\<close> less_imp_le [OF su] nk before at]
  let ?m' = "if uv = val then bt_insert s0 (uend, val) (bt_remove ubeg m)
                       else bt_insert s0 (ubeg, val) m"
  have m': "bt_inv ?m'" "bt_lookup ?m' =
      (if uv = val then ?L1(ubeg := None, s0 := Some (uend, val)) else ?L1)"
    using inv ub(1) by (auto simp: bt.map_laws L_def fun_upd_twist)
  have "ordered_spans fst (bt_lookup ?m') \<and> (\<forall>x v. has (bt_lookup ?m') x v \<longleftrightarrow> has ?L1 x v)"
  proof (cases "uv = val")
    case True
    have L1: "?L1 s0 = Some (ubeg, val)" "?L1 ubeg = Some (uend, val)" using ub True by auto
    show ?thesis
      using join_spans [of ?L1 s0 ubeg val uend, OF fg(1) L1 ub(1)] m' True by simp
  next
    case False
    then show ?thesis using fg(1) m' by simp
  qed
  moreover have "\<exists>u. has L x u" if "ubeg \<le> x" "x < uend" for x
    using ub that by (auto simp: has_def)
  moreover have "fills L s t val (bt_lookup ?m')" if "ubeg \<le> t" "t \<le> uend" for t
    using calculation fg(2,3) that unfolding fills_def by (auto simp: not_less; metis not_less order_less_le_trans)
  ultimately have "wf_spans ?m'" "\<And>t. ubeg \<le> t \<Longrightarrow> t \<le> uend \<Longrightarrow> fills L s t val (bt_lookup ?m')"
    using m' by (auto simp: wf_spans_def)
  then show ?thesis
    using u su ue by (auto simp: insert_span_after_def Let_def)
qed

lemma insert_span_step:
  assumes wf: "wf_spans m" and "s \<le> send"
  shows "case insert_span_body s send val m of
      Inr m' \<Rightarrow> wf_spans m' \<and> fills (bt_lookup m) s send val (bt_lookup m')
    | Inl (s', m') \<Rightarrow> wf_spans m' \<and> s < s' \<and> s' < send \<and> fills (bt_lookup m) s s' val (bt_lookup m')"
proof -
  let ?L = "bt_lookup m"
  have inv: "bt_inv m" and ord: "ordered_spans fst ?L" using wf by (auto simp: wf_spans_def)
  show ?thesis
  proof (cases "bt_last_le s m")
    case None
    then have none: "\<forall>b \<le> s. ?L b = None" using inv by (simp add: bt.last_le_None)
    have eq: "insert_span_body s send val m = insert_span_after s send val m"
      using None by (simp add: insert_span_body_def)
    have nk: "\<forall>b. s < b \<longrightarrow> b \<le> s \<longrightarrow> ?L b = None" by simp
    have b: "\<forall>b e v. ?L b = Some (e, v) \<longrightarrow> b < s \<longrightarrow> e \<le> s" using none by fastforce
    have "(?L s = None \<and> s = s) \<or> (\<exists>v0. ?L s = Some (s, v0) \<and> (s = s \<or> v0 = val))"
      using none by simp
    then show ?thesis
      unfolding eq by (rule insert_span_after_step [OF inv ord order_refl \<open>s \<le> send\<close> nk b])
  next
    case (Some p)
    obtain lbeg lend lv where p: "p = (lbeg, lend, lv)" by (cases p)
    with Some inv have l: "lbeg \<le> s" "?L lbeg = Some (lend, lv)"
      "\<forall>b. lbeg < b \<and> b \<le> s \<longrightarrow> ?L b = None"
      by (auto simp: bt.last_le_Some)
    have before: "e \<le> c" if "?L b = Some (e, v)" "b < c" "?L c \<noteq> None" for b e v c
      using ordered_spansD(2) [OF ord that(1,2)] that(3) by auto
    show ?thesis
    proof (cases "s < lend")
      case True
      have "\<exists>u. has ?L x u" if "s \<le> x" "x < lend" for x
        unfolding has_def using l(1,2) that le_trans by blast
      then have f: "fills ?L s t val ?L" if "t \<le> lend" for t
        using that by (intro fills_covered) auto
      show ?thesis
        using True Some p wf f [of send] f [of lend] by (auto simp: insert_span_body_def)
    next
      case False
      show ?thesis
      proof (cases "s = lend \<and> val = lv")
        case True
        have "\<forall>b e v. ?L b = Some (e, v) \<longrightarrow> b < lbeg \<longrightarrow> e \<le> lbeg" using before l by blast
        moreover have "insert_span_body s send val m = insert_span_after lbeg send val m"
          using True Some p by (simp add: insert_span_body_def)
        ultimately show ?thesis
          using insert_span_after_step [OF inv ord l(1) \<open>s \<le> send\<close>, of val] l True by auto
      next
        case other: False
        have "lend \<le> s" using False by simp
        have b: "\<forall>b e v. ?L b = Some (e, v) \<longrightarrow> b < s \<longrightarrow> e \<le> s"
          using before l \<open>lend \<le> s\<close>
          by (metis le_trans linorder_neqE_nat nat_less_le option.distinct(1) option.inject prod.inject)
        have a: "(?L s = None \<and> s = s) \<or> (\<exists>v0. ?L s = Some (s, v0) \<and> (s = s \<or> v0 = val))"
        proof (cases "lbeg = s")
          case True
          then show ?thesis using l \<open>lend \<le> s\<close> ordered_spansD(1) [OF ord l(2)] by auto
        next
          case False
          then show ?thesis using l by auto
        qed
        have "\<forall>b. s < b \<longrightarrow> b \<le> s \<longrightarrow> ?L b = None" by simp
        note step = insert_span_after_step [OF inv ord order_refl \<open>s \<le> send\<close> this b a]
        have eq: "insert_span_body s send val m = insert_span_after s send val m"
          using False other Some p by (auto simp: insert_span_body_def)
        show ?thesis unfolding eq by (rule step)
      qed
    qed
  qed
qed

lemma insert_span_total:
  assumes "wf_spans m" "s \<le> send"
  shows "\<exists>m'. insert_span s send val m = Some m' \<and> wf_spans m' \<and>
    fills (bt_lookup m) s send val (bt_lookup m')"
  using assms
proof (induction "send - s" arbitrary: s m rule: less_induct)
  case less
  note step = insert_span_step [OF less.prems, of val]
  show ?case
  proof (cases "insert_span_body s send val m")
    case (Inr m')
    then show ?thesis using step by (simp add: insert_span.simps)
  next
    case (Inl p)
    obtain s' m1 where p: "p = (s', m1)" by (cases p)
    with Inl step have s': "wf_spans m1" "s < s'" "s' < send"
      and f: "fills (bt_lookup m) s s' val (bt_lookup m1)" by auto
    then obtain m' where m': "insert_span s' send val m1 = Some m'" "wf_spans m'"
      "fills (bt_lookup m1) s' send val (bt_lookup m')"
      using less.hyps [of s' m1] diff_less_mono2 [of s s' send] by auto
    then have "insert_span s send val m = Some m'"
      using Inl p by (simp add: insert_span.simps [of s])
    then show ?thesis using m' f s' fills_trans by (metis less_imp_le)
  qed
qed

lemma has_span_val: "wf_spans m \<Longrightarrow> has (bt_lookup m) x v \<longleftrightarrow> span_val m x = Some v"
  by (auto simp: span_val_iff has_def covers_def)

text \<open>
  The contract of \<open>insert_span\<close>: sectors that had a value keep it, sectors of the interval that had
  none get the new value, and nothing else changes.
\<close>

lemma insert_span_vals:
  assumes "wf_spans m" "s \<le> send"
  shows "\<exists>m'. insert_span s send val m = Some m' \<and> wf_spans m' \<and>
    (\<forall>x. span_val m' x =
       (case span_val m x of
          Some v \<Rightarrow> Some v
        | None \<Rightarrow> if s \<le> x \<and> x < send then Some val else None))"
proof -
  obtain m' where m': "insert_span s send val m = Some m'" "wf_spans m'"
    and f: "fills (bt_lookup m) s send val (bt_lookup m')"
    using insert_span_total [OF assms] by blast
  have "span_val m' x = Some v \<longleftrightarrow> span_val m x = Some v \<or>
      (s \<le> x \<and> x < send \<and> v = val \<and> span_val m x = None)" for x v
    using f assms(1) m'(2) by (auto simp: fills_def has_span_val)
  then have "span_val m' x = (case span_val m x of Some v \<Rightarrow> Some v
      | None \<Rightarrow> if s \<le> x \<and> x < send then Some val else None)" for x
    by (intro option_eqI) (auto split: option.splits if_splits)
  with m' show ?thesis by blast
qed

subsection \<open>Removal\<close>

text \<open>\<open>gapped L x\<close>: the position \<open>x\<close> lies in a span of \<open>L\<close>.  \<open>cuts L s t L'\<close>: \<open>L'\<close> is \<open>L\<close> without
  the positions of \<open>[s, t)\<close>.\<close>

definition gapped :: "(nat \<Rightarrow> nat option) \<Rightarrow> nat \<Rightarrow> bool" where
  "gapped L x \<longleftrightarrow> (\<exists>b e. L b = Some e \<and> b \<le> x \<and> x < e)"

definition cuts :: "(nat \<Rightarrow> nat option) \<Rightarrow> nat \<Rightarrow> nat \<Rightarrow> (nat \<Rightarrow> nat option) \<Rightarrow> bool" where
  "cuts L s t L' \<longleftrightarrow> (\<forall>x. gapped L' x \<longleftrightarrow> gapped L x \<and> \<not> (s \<le> x \<and> x < t))"

lemma in_gap_gapped: "wf_gaps m \<Longrightarrow> in_gap m x \<longleftrightarrow> gapped (bt_lookup m) x"
  by (auto simp: in_gap_iff gapped_def covers_def)

lemma cuts_trans: "cuts L s r L1 \<Longrightarrow> cuts L1 r t L2 \<Longrightarrow> s \<le> r \<Longrightarrow> r \<le> t \<Longrightarrow> cuts L s t L2"
  unfolding cuts_def by (meson le_trans not_le order.strict_trans2)

lemma cuts_none: "(\<And>x. s \<le> x \<Longrightarrow> x < t \<Longrightarrow> \<not> gapped L x) \<Longrightarrow> cuts L s t L"
  unfolding cuts_def by blast

text \<open>Cutting \<open>[s, t)\<close> out of the one span \<open>[b, e)\<close> that meets it.\<close>

definition cut_one :: "(nat \<Rightarrow> nat option) \<Rightarrow> nat \<Rightarrow> nat \<Rightarrow> nat \<Rightarrow> nat \<Rightarrow> (nat \<Rightarrow> nat option)" where
  "cut_one L b e s t =
     (let L1 = (if b < s then L(b := Some s) else L(b := None)) in
      if t < e then L1(t := Some e) else L1)"

lemma gapped_split:
  "gapped L x \<longleftrightarrow>
     (\<exists>f. L b = Some f \<and> b \<le> x \<and> x < f) \<or> (\<exists>c f. c \<noteq> b \<and> L c = Some f \<and> c \<le> x \<and> x < f)"
  unfolding gapped_def by metis

lemma gapped_upd:
  "gapped (L(a := Some t)) x \<longleftrightarrow>
     a \<le> x \<and> x < t \<or> (\<exists>c f. c \<noteq> a \<and> L c = Some f \<and> c \<le> x \<and> x < f)"
  unfolding gapped_def by (auto split: if_splits)

lemma gapped_others:
  assumes ord: "ordered_spans id L" and b: "L b = Some e"
  shows "(\<exists>c f. c \<noteq> b \<and> L c = Some f \<and> c \<le> x \<and> x < f) \<longleftrightarrow> gapped L x \<and> \<not> (b \<le> x \<and> x < e)"
proof -
  have "\<not> (b \<le> x \<and> x < e)" if c: "c \<noteq> b" "L c = Some f" "c \<le> x" "x < f" for c f
    using ordered_spansD(2) [OF ord c(2) _ b] ordered_spansD(2) [OF ord b _ c(2)] c
    by (cases "c < b") auto
  then show ?thesis unfolding gapped_def by (metis b option.inject)
qed

lemma cut_one:
  assumes ord: "ordered_spans id L" and b: "L b = Some e" and bt: "b \<le> t" and st: "s \<le> t"
    and se: "s \<le> e"
  shows "ordered_spans id (cut_one L b e s t)"
    and "gapped (cut_one L b e s t) x \<longleftrightarrow> gapped L x \<and> \<not> (b \<le> x \<and> x < e \<and> s \<le> x \<and> x < t)"
proof -
  have ebefore: "e' \<le> b" if "L c = Some e'" "c < b" for c e'
    using ordered_spansD(2) [OF ord that(1,2) b] by simp
  have eafter: "e \<le> c" if "L c = Some e'" "b < c" for c e'
    using ordered_spansD(2) [OF ord b that(2,1)] by simp
  have be: "b \<le> e" using ordered_spansD(1) [OF ord b] by simp
  define L1 where "L1 = (if b < s then L(b := Some s) else L(b := None))"
  have L1_other: "L1 c = L c" if "c \<noteq> b" for c using that by (simp add: L1_def)
  have L1_b: "L1 b = (if b < s then Some s else None)" by (simp add: L1_def)
  have ord1: "ordered_spans id L1"
  proof (cases "b < s")
    case True
    have "ordered_spans id (L(b := Some s))"
      by (rule ordered_upd [OF ord]) (use True ebefore eafter se in \<open>auto intro: order_trans\<close>)
    then show ?thesis using True by (simp add: L1_def)
  next
    case False
    then show ?thesis using ordered_del [OF ord] by (simp add: L1_def)
  qed
  have ord2: "ordered_spans id (L1(t := Some e))" if "t < e"
  proof (rule ordered_upd [OF ord1])
    show "t \<le> id e" using that by simp
  next
    fix c w assume c: "L1 c = Some w" "c < t"
    show "id w \<le> t"
    proof (cases "c = b")
      case True
      then show ?thesis using c L1_b st by (auto split: if_splits)
    next
      case False
      then have Lc: "L c = Some w" using c L1_other by simp
      have "\<not> b < c" using eafter [OF Lc] c(2) that by auto
      then show ?thesis using ebefore [OF Lc] False bt by auto
    qed
  next
    fix c w assume c: "L1 c = Some w" "t < c"
    then have Lc: "L c = Some w" using L1_other bt by auto
    then show "id e \<le> c" using eafter [OF Lc] c bt by simp
  qed
  have res: "cut_one L b e s t = (if t < e then L1(t := Some e) else L1)"
    by (simp add: cut_one_def L1_def Let_def)
  show "ordered_spans id (cut_one L b e s t)" using ord1 ord2 by (simp add: res)
  have g1: "gapped L1 x \<longleftrightarrow> gapped L x \<and> \<not> (b \<le> x \<and> x < e) \<or> b \<le> x \<and> x < s"
  proof -
    have "(\<exists>c f. c \<noteq> b \<and> L1 c = Some f \<and> c \<le> x \<and> x < f) \<longleftrightarrow>
        (\<exists>c f. c \<noteq> b \<and> L c = Some f \<and> c \<le> x \<and> x < f)"
      using L1_other by auto
    then show ?thesis
      unfolding gapped_split [of L1 x b] gapped_others [OF ord b, of x] L1_b by auto
  qed
  have g2: "gapped (L1(t := Some e)) x \<longleftrightarrow> gapped L1 x \<or> t \<le> x \<and> x < e" if "t < e"
  proof -
    have "L1 t = None"
      using that bt st L1_other [of t] L1_b eafter [of t]
      by (cases "t = b") (auto, metis not_None_eq not_le le_neq_implies_less)
    then show ?thesis unfolding gapped_split [of L1 x t] gapped_upd by auto
  qed
  show "gapped (cut_one L b e s t) x \<longleftrightarrow> gapped L x \<and> \<not> (b \<le> x \<and> x < e \<and> s \<le> x \<and> x < t)"
  proof -
    have "gapped L x" if "b \<le> x" "x < e" using that b unfolding gapped_def by blast
    then show ?thesis using res g1 g2 bt st se by (cases "t < e") (auto simp: not_le)
  qed
qed

text \<open>
  \<open>separated\<close> is the stronger form of the invariant under which removal is exact: no span is empty and
  no two spans touch.  \<open>keeps L s t L'\<close> is what holds without it: nothing outside \<open>[s, t)\<close> is lost and
  nothing is added.
\<close>

definition separated :: "(nat \<Rightarrow> nat option) \<Rightarrow> bool" where
  "separated L \<longleftrightarrow>
     (\<forall>b e. L b = Some e \<longrightarrow> b < e) \<and>
     (\<forall>b e c. L b = Some e \<longrightarrow> b < c \<longrightarrow> L c \<noteq> None \<longrightarrow> e < c)"

definition separated_gaps :: "gap_map \<Rightarrow> bool" where
  "separated_gaps m \<longleftrightarrow> bt_inv m \<and> separated (bt_lookup m)"

definition keeps :: "(nat \<Rightarrow> nat option) \<Rightarrow> nat \<Rightarrow> nat \<Rightarrow> (nat \<Rightarrow> nat option) \<Rightarrow> bool" where
  "keeps L s t L' \<longleftrightarrow>
     (\<forall>x. gapped L' x \<longrightarrow> gapped L x) \<and> (\<forall>x. gapped L x \<longrightarrow> \<not> (s \<le> x \<and> x < t) \<longrightarrow> gapped L' x)"

lemma separated_ordered: "separated L \<Longrightarrow> ordered_spans id L"
  unfolding separated_def ordered_spans_def by (auto intro: less_imp_le)

lemma keeps_trans:
  "keeps L s r L1 \<Longrightarrow> keeps L1 q t L2 \<Longrightarrow> s \<le> q \<Longrightarrow> r \<le> t \<Longrightarrow> keeps L s t L2"
  unfolding keeps_def by (meson le_trans order.strict_trans2)

lemma cuts_keeps: "cuts L s t L' \<Longrightarrow> keeps L s t L'"
  unfolding cuts_def keeps_def by blast

lemma separated_cut_one:
  assumes sep: "separated L" and b: "L b = Some e" and "b \<le> t" "s \<le> e" "s < t \<or> s \<le> b"
  shows "separated (cut_one L b e s t)"
proof -
  have before: "e' < b" if "L c = Some e'" "c < b" for c e'
    using sep that b unfolding separated_def by blast
  have after: "e < c" if "L c = Some e'" "b < c" for c e'
    using sep that b unfolding separated_def by blast
  have sepD: "c < e'" "c < d \<Longrightarrow> L d = Some f \<Longrightarrow> e' < d" if "L c = Some e'" for c e' d f
    using sep that unfolding separated_def by blast+
  have L': "cut_one L b e s t c = Some w \<longleftrightarrow>
      (t < e \<and> c = t \<and> w = e) \<or> (b < s \<and> c = b \<and> w = s \<and> \<not> (t < e \<and> c = t)) \<or>
      (c \<noteq> b \<and> \<not> (t < e \<and> c = t) \<and> L c = Some w)" for c w
    by (auto simp: cut_one_def Let_def)
  show ?thesis
    unfolding separated_def
  proof (intro conjI allI impI)
    fix c w assume "cut_one L b e s t c = Some w"
    then show "c < w" unfolding L' using sepD by auto
  next
    fix c w d assume c: "cut_one L b e s t c = Some w" "c < d" "cut_one L b e s t d \<noteq> None"
    then obtain w' where d: "cut_one L b e s t d = Some w'" by blast
    have dk: "(t < e \<and> d = t) \<or> d = b \<and> b < s \<or> (d \<noteq> b \<and> L d = Some w')"
      using d unfolding L' by blast
    from c(1) consider "t < e" "c = t" "w = e" | "b < s" "c = b" "w = s" "\<not> (t < e \<and> c = t)"
      | "c \<noteq> b" "L c = Some w" unfolding L' by blast
    then show "w < d"
    proof cases
      case 1
      then show ?thesis using dk after [of d w'] c(2) assms(3) by auto
    next
      case 2
      then show ?thesis using dk after [of d w'] c(2) assms(3-5) by auto
    next
      case 3
      have "w < b \<or> e < c" using before [OF 3(2)] after [OF 3(2)] 3(1) by (metis linorder_neqE_nat)
      then show ?thesis using dk sepD [OF 3(2)] sepD(1) [OF b] c(2) assms(3) by auto
    qed
  qed
qed

text \<open>What one step of the removal loop guarantees, from \<open>s\<close> up to where it got.\<close>

definition removed :: "gap_map \<Rightarrow> nat \<Rightarrow> nat \<Rightarrow> bool \<Rightarrow> gap_map \<Rightarrow> bool" where
  "removed m s t exact m' \<longleftrightarrow>
     wf_gaps m' \<and> keeps (bt_lookup m) s t (bt_lookup m') \<and>
     (exact \<longrightarrow> separated (bt_lookup m') \<and> cuts (bt_lookup m) s t (bt_lookup m'))"

lemma removed_trans:
  assumes "removed m s r ex m1" "removed m1 r t ex1 m2" "ex \<Longrightarrow> ex1" "s \<le> r" "r \<le> t"
  shows "removed m s t ex m2"
  using assms unfolding removed_def by (meson keeps_trans cuts_trans)

lemma remove_span_after_step:
  fixes m :: gap_map and s :: nat
  defines "L \<equiv> bt_lookup m"
  defines "ex \<equiv> separated L \<and> (\<forall>b e. L b = Some e \<longrightarrow> b \<le> s \<longrightarrow> e \<le> s)"
  assumes wf: "wf_gaps m" and "s \<le> send"
  shows "case remove_span_after s send m of
      Inr m' \<Rightarrow> removed m s send ex m'
    | Inl (s', m') \<Rightarrow> removed m s s' ex m' \<and> s < s' \<and> s' \<le> send \<and> (ex \<longrightarrow> \<not> gapped (bt_lookup m') s')"
proof -
  have inv: "bt_inv m" and ord: "ordered_spans id L" using wf by (auto simp: wf_gaps_def L_def)
  show ?thesis
  proof (cases "\<exists>ubeg uend. bt_first_gt s m = Some (ubeg, uend) \<and> ubeg \<le> send")
    case False
    then have eq: "remove_span_after s send m = Inr m"
      by (auto simp: remove_span_after_def split: option.splits)
    have nk: "L b = None" if "s < b" "b < send" for b
      using that inv False unfolding L_def
      by (cases "bt_first_gt s m") (auto simp: bt.first_gt_None bt.first_gt_Some not_le)
    have "\<not> gapped L x" if ex "s \<le> x" "x < send" for x
    proof
      assume "gapped L x"
      then obtain b e where b: "L b = Some e" "b \<le> x" "x < e" by (auto simp: gapped_def)
      show False
      proof (cases "b \<le> s")
        case True
        then show ?thesis using \<open>ex\<close> b that(2) unfolding ex_def by fastforce
      next
        case False
        then show ?thesis using nk [of b] b that(3) by simp
      qed
    qed
    then have "cuts L s send L" if ex
      using that by (intro cuts_none) blast
    then show ?thesis
      using wf by (simp add: eq removed_def keeps_def L_def ex_def)
  next
    case True
    then obtain ubeg uend where u: "bt_first_gt s m = Some (ubeg, uend)" "ubeg \<le> send" by blast
    then have ub: "s < ubeg" "L ubeg = Some uend" and
      gap: "\<And>b. s < b \<Longrightarrow> b < ubeg \<Longrightarrow> L b = None"
      using inv by (auto simp: L_def bt.first_gt_Some)
    have ue: "ubeg \<le> uend" using ordered_spansD(1) [OF ord ub(2)] by simp
    define m' where "m' = (let n = bt_remove ubeg m in if send < uend then bt_insert send uend n else n)"
    have m': "bt_inv m'" "bt_lookup m' = cut_one L ubeg uend s send"
      using inv ub(1) by (auto simp: m'_def cut_one_def Let_def bt.map_laws L_def)
    have co: "ordered_spans id (cut_one L ubeg uend s send)"
      "\<And>x. gapped (cut_one L ubeg uend s send) x \<longleftrightarrow>
         gapped L x \<and> \<not> (ubeg \<le> x \<and> x < uend \<and> s \<le> x \<and> x < send)"
      using cut_one [OF ord ub(2) u(2) \<open>s \<le> send\<close>] ub(1) ue by auto
    have free: "\<not> gapped L x" if ex "s \<le> x" "x < ubeg" for x
      using that gap unfolding ex_def gapped_def
      by (metis le_less_trans not_le order.strict_trans2 option.distinct(1))
    have rm: "removed m s t ex m'" if "ubeg \<le> t" "t = min uend send" for t
      unfolding removed_def m'(2) L_def [symmetric]
    proof (intro conjI impI)
      show "wf_gaps m'" using m' co by (simp add: wf_gaps_def)
      show "keeps L s t (cut_one L ubeg uend s send)"
        unfolding keeps_def co(2) using that ub(1) by auto
    next
      assume ex
      then show "separated (cut_one L ubeg uend s send)"
        using separated_cut_one [of L ubeg uend send s] ub u(2) ue by (simp add: ex_def)
      show "cuts L s t (cut_one L ubeg uend s send)"
        unfolding cuts_def co(2) using free [OF \<open>ex\<close>] that ub(1) by (auto simp: not_le)
    qed
    have "\<not> gapped (cut_one L ubeg uend s send) uend" if ex "uend \<le> send"
    proof -
      have sep: "separated L" using \<open>ex\<close> by (simp add: ex_def)
      have "False" if b: "L b = Some e" "b \<le> uend" "uend < e" for b e
      proof (rule linorder_cases [of b ubeg])
        assume "b < ubeg"
        then show False using sep b ub(2) ue unfolding separated_def by fastforce
      next
        assume "b = ubeg"
        then show False using b ub(2) by simp
      next
        assume "ubeg < b"
        then show False using sep b ub(2) unfolding separated_def by fastforce
      qed
      then have "\<not> gapped L uend" by (auto simp: gapped_def)
      then show ?thesis using co(2) by blast
    qed
    then show ?thesis
      using rm [of send] rm [of uend] u ub(1) ue m'
      by (auto simp: remove_span_after_def Let_def m'_def min_def)
  qed
qed

lemma remove_span_step:
  fixes m :: gap_map and s send :: nat
  defines "L \<equiv> bt_lookup m"
  defines "ex \<equiv> separated L \<and> (s < send \<or> \<not> gapped L s)"
  assumes wf: "wf_gaps m" and "s \<le> send"
  shows "case remove_span_body s send m of
      Inr m' \<Rightarrow> removed m s send ex m'
    | Inl (s', m') \<Rightarrow> removed m s s' ex m' \<and> s < s' \<and> s' \<le> send \<and> (ex \<longrightarrow> \<not> gapped (bt_lookup m') s')"
proof -
  have inv: "bt_inv m" and ord: "ordered_spans id L" using wf by (auto simp: wf_gaps_def L_def)
  show ?thesis
  proof (cases "\<exists>lbeg lend. bt_last_le s m = Some (lbeg, lend) \<and> s < lend")
    case False
    have "e \<le> s" if "L b = Some e" "b \<le> s" for b e
    proof (cases "bt_last_le s m")
      case None
      then show ?thesis using that inv by (simp add: bt.last_le_None L_def)
    next
      case (Some p)
      then obtain lbeg lend where l: "bt_last_le s m = Some (lbeg, lend)" "lend \<le> s"
        using False by (cases p) auto
      then have l': "lbeg \<le> s" "L lbeg = Some lend" "\<And>c. lbeg < c \<Longrightarrow> c \<le> s \<Longrightarrow> L c = None"
        using inv by (auto simp: bt.last_le_Some L_def)
      have "b \<le> lbeg" using l'(3) [of b] that by force
      then show ?thesis
        using ordered_spansD(2) [OF ord that(1), of lbeg lend] l l' that by (cases "b = lbeg") auto
    qed
    then have ex: "ex \<Longrightarrow> separated L \<and> (\<forall>b e. L b = Some e \<longrightarrow> b \<le> s \<longrightarrow> e \<le> s)"
      by (simp add: ex_def)
    have eq: "remove_span_body s send m = remove_span_after s send m"
      using False by (auto simp: remove_span_body_def split: option.splits)
    show ?thesis
      using remove_span_after_step [OF wf \<open>s \<le> send\<close>] ex unfolding eq L_def [symmetric]
      by (auto simp: removed_def split: sum.splits)
  next
    case True
    then obtain lbeg lend where l: "bt_last_le s m = Some (lbeg, lend)" "s < lend" by blast
    then have l': "lbeg \<le> s" "L lbeg = Some lend" using inv by (auto simp: bt.last_le_Some L_def)
    define m1 where "m1 = (if lbeg < s then bt_insert lbeg s m else bt_remove lbeg m)"
    define m' where "m' = (if send < lend then bt_insert send lend m1 else m1)"
    have m': "bt_inv m'" "bt_lookup m' = cut_one L lbeg lend s send"
      using inv by (auto simp: m'_def m1_def cut_one_def Let_def bt.map_laws L_def)
    have ls: "lbeg \<le> send" using l' \<open>s \<le> send\<close> by simp
    have co: "ordered_spans id (cut_one L lbeg lend s send)"
      "\<And>x. gapped (cut_one L lbeg lend s send) x \<longleftrightarrow>
         gapped L x \<and> \<not> (lbeg \<le> x \<and> x < lend \<and> s \<le> x \<and> x < send)"
      using cut_one [OF ord l'(2) ls \<open>s \<le> send\<close>] l(2) by auto
    have ex_less: "s < send" if ex
      using that l' l(2) unfolding ex_def gapped_def by blast
    have rm: "removed m s (min lend send) ex m'"
      unfolding removed_def m'(2) L_def [symmetric]
    proof (intro conjI impI)
      show "wf_gaps m'" using m' co by (simp add: wf_gaps_def)
      show "keeps L s (min lend send) (cut_one L lbeg lend s send)"
        unfolding keeps_def co(2) by auto
      show "cuts L s (min lend send) (cut_one L lbeg lend s send)"
        unfolding cuts_def co(2) using l' by auto
    next
      assume ex
      then show "separated (cut_one L lbeg lend s send)"
        using separated_cut_one [of L lbeg lend send s] l' ls l(2) ex_less by (simp add: ex_def)
    qed
    show ?thesis
    proof (cases "lend < send")
      case False
      then have "remove_span_body s send m = Inr m'"
        using l by (auto simp: remove_span_body_def Let_def m'_def m1_def)
      then show ?thesis using rm False by (simp add: min_def split: if_splits)
    next
      case True
      then have m1: "m' = m1" by (simp add: m'_def)
      have eq: "remove_span_body s send m = remove_span_after lend send m1"
        using l True by (simp add: remove_span_body_def m1_def)
      have rm1: "removed m s lend ex m1" using rm True m1 by simp
      then have wf1: "wf_gaps m1" by (simp add: removed_def)
      have ends: "e \<le> lend" if ex "bt_lookup m1 b = Some e" "b \<le> lend" for b e
      proof -
        have sep: "separated L" using \<open>ex\<close> by (simp add: ex_def)
        have "(b = lbeg \<and> e = s) \<or> (b \<noteq> lbeg \<and> L b = Some e)"
          using that(2) m'(2) m1 True by (auto simp: cut_one_def Let_def split: if_splits)
        then show ?thesis
          using sep that(3) l' l(2) unfolding separated_def
          by (metis less_le_not_le linorder_neqE_nat nat_le_linear not_le option.distinct(1) order_trans)
      qed
      have ex1: "separated (bt_lookup m1) \<and> (\<forall>b e. bt_lookup m1 b = Some e \<longrightarrow> b \<le> lend \<longrightarrow> e \<le> lend)" if ex
        using rm1 ends that by (auto simp: removed_def)
      show ?thesis
        using remove_span_after_step [OF wf1 less_imp_le [OF True]] removed_trans [OF rm1 _ ex1] ex1 l(2) True
        unfolding eq by (auto split: sum.splits intro: less_imp_le)
    qed
  qed
qed

lemma remove_span_total:
  fixes m :: gap_map
  assumes "wf_gaps m" "s \<le> send"
  shows "\<exists>m'. remove_span s send m = Some m' \<and>
    removed m s send (separated (bt_lookup m) \<and> (s < send \<or> \<not> gapped (bt_lookup m) s)) m'"
  using assms
proof (induction "send - s" arbitrary: s m rule: less_induct)
  case less
  let ?ex = "separated (bt_lookup m) \<and> (s < send \<or> \<not> gapped (bt_lookup m) s)"
  note step = remove_span_step [OF less.prems]
  show ?case
  proof (cases "remove_span_body s send m")
    case (Inr m')
    then show ?thesis using step by (simp add: remove_span.simps)
  next
    case (Inl p)
    obtain s' m1 where p: "p = (s', m1)" by (cases p)
    with Inl step have s': "s < s'" "s' \<le> send" "?ex \<longrightarrow> \<not> gapped (bt_lookup m1) s'"
      and rm: "removed m s s' ?ex m1" by auto
    let ?ex1 = "separated (bt_lookup m1) \<and> (s' < send \<or> \<not> gapped (bt_lookup m1) s')"
    have "wf_gaps m1" using rm by (simp add: removed_def)
    then obtain m' where m': "remove_span s' send m1 = Some m'" "removed m1 s' send ?ex1 m'"
      using less.hyps [of s' m1] s' diff_less_mono2 [of s s' send] by auto
    have "?ex \<Longrightarrow> ?ex1" using rm s'(3) by (simp add: removed_def)
    then have "removed m s send ?ex m'"
      using removed_trans [OF rm m'(2)] s' by (simp add: less_imp_le)
    moreover have "remove_span s send m = Some m'"
      using Inl p m' by (simp add: remove_span.simps [of s])
    ultimately show ?thesis by blast
  qed
qed

text \<open>
  The contract of \<open>remove_span\<close> on a map whose spans do not touch: exactly the interval is removed.
\<close>

lemma remove_span_cuts:
  assumes "separated_gaps m" "s < send"
  shows "\<exists>m'. remove_span s send m = Some m' \<and> separated_gaps m' \<and>
    (\<forall>x. in_gap m' x \<longleftrightarrow> in_gap m x \<and> \<not> (s \<le> x \<and> x < send))"
proof -
  have wf: "wf_gaps m" using assms by (auto simp: separated_gaps_def wf_gaps_def separated_ordered)
  obtain m' where m': "remove_span s send m = Some m'"
    "removed m s send (separated (bt_lookup m) \<and> (s < send \<or> \<not> gapped (bt_lookup m) s)) m'"
    using remove_span_total [OF wf, of s send] assms(2) by auto
  then have "wf_gaps m'" "separated (bt_lookup m')" "cuts (bt_lookup m) s send (bt_lookup m')"
    using assms by (auto simp: removed_def separated_gaps_def)
  then show ?thesis
    using m'(1) wf by (auto simp: separated_gaps_def wf_gaps_def in_gap_gapped cuts_def)
qed

text \<open>
  What holds on every well-formed map, also when spans touch or the interval is empty: the loop
  returns, nothing outside the interval is lost, and nothing is added.
\<close>

lemma remove_span_keeps:
  assumes "wf_gaps m" "s \<le> send"
  shows "\<exists>m'. remove_span s send m = Some m' \<and> wf_gaps m' \<and>
    (\<forall>x. in_gap m' x \<longrightarrow> in_gap m x) \<and>
    (\<forall>x. in_gap m x \<longrightarrow> \<not> (s \<le> x \<and> x < send) \<longrightarrow> in_gap m' x)"
  using remove_span_total [OF assms] assms(1) by (auto simp: removed_def in_gap_gapped keeps_def)

subsection \<open>Bounds\<close>

text \<open>Neither loop makes a span that ends behind the interval and all spans there were.\<close>

definition ends_below :: "('w \<Rightarrow> nat) \<Rightarrow> nat \<Rightarrow> (nat \<times> 'w) list \<Rightarrow> bool" where
  "ends_below ends n m \<longleftrightarrow> (\<forall>p \<in> set m. ends (snd p) \<le> n)"

lemma ends_below_insert: "ends_below ends n m \<Longrightarrow> ends w \<le> n \<Longrightarrow> ends_below ends n (bt_insert b w m)"
  by (auto simp: ends_below_def bt_insert_def)

lemma ends_below_remove: "ends_below ends n m \<Longrightarrow> ends_below ends n (bt_remove b m)"
  by (auto simp: ends_below_def bt_remove_def)

lemma bt_first_gt_set: "bt_first_gt k m = Some p \<Longrightarrow> p \<in> set m \<and> k < fst p"
  by (auto simp: bt_first_gt_def Let_def split: if_splits dest: hd_in_set)

lemma bt_last_le_set: "bt_last_le k m = Some p \<Longrightarrow> p \<in> set m \<and> fst p \<le> k"
  by (auto simp: bt_last_le_def Let_def split: if_splits dest: last_in_set)

definition step_below :: "('w \<Rightarrow> nat) \<Rightarrow> nat \<Rightarrow> nat \<Rightarrow> (nat \<times> (nat \<times> 'w) list) + (nat \<times> 'w) list \<Rightarrow> bool" where
  "step_below ends n send r =
     (case r of Inl (b, m) \<Rightarrow> ends_below ends n m | Inr m \<Rightarrow> ends_below ends n m)"

lemmas below_intros = ends_below_insert ends_below_remove

lemma insert_span_after_below:
  assumes "ends_below fst n m" "send \<le> n"
  shows "step_below fst n send (insert_span_after s send v m)"
proof -
  have "b \<le> send \<Longrightarrow> e \<le> n" if "bt_first_gt s m = Some (b, e, w)" for b e w
    using bt_first_gt_set [OF that] assms by (auto simp: ends_below_def)
  then show ?thesis
    using assms unfolding insert_span_after_def step_below_def
    by (auto simp: Let_def split: option.splits intro!: below_intros)
qed

lemma insert_span_body_below:
  assumes "ends_below fst n m" "send \<le> n"
  shows "step_below fst n send (insert_span_body s send v m)"
  using assms insert_span_after_below [OF assms]
  by (auto simp: insert_span_body_def step_below_def split: option.splits)

lemma insert_span_below:
  assumes "insert_span s send v m = Some m'" "ends_below fst n m" "send \<le> n"
  shows "ends_below fst n m'"
proof -
  have "ends_below fst n m \<longrightarrow> send \<le> n \<longrightarrow> ends_below fst n m'"
  proof (rule insert_span.raw_induct [where P = "\<lambda>s send v m m'.
      ends_below fst n m \<longrightarrow> send \<le> n \<longrightarrow> ends_below fst n m'", OF _ assms(1)])
    fix ins :: "nat \<Rightarrow> nat \<Rightarrow> 'a \<Rightarrow> 'a span_map \<Rightarrow> 'a span_map option" and s send v m m'
    assume IH: "\<And>s send v m m'. ins s send v m = Some m' \<Longrightarrow>
        ends_below fst n m \<longrightarrow> send \<le> n \<longrightarrow> ends_below fst n m'"
      and r: "(case insert_span_body s send v m of Inl (s', m') \<Rightarrow> ins s' send v m'
        | Inr m' \<Rightarrow> Some m') = Some m'"
    show "ends_below fst n m \<longrightarrow> send \<le> n \<longrightarrow> ends_below fst n m'"
      using r IH insert_span_body_below [of n m send s v]
      by (auto simp: step_below_def split: sum.splits prod.splits)
  qed
  then show ?thesis using assms by blast
qed

lemma remove_span_after_below:
  assumes "ends_below id n m" "send \<le> n"
  shows "step_below id n send (remove_span_after s send m)"
proof -
  have "e \<le> n" if "bt_first_gt s m = Some (b, e)" for b e
    using bt_first_gt_set [OF that] assms by (auto simp: ends_below_def)
  then show ?thesis
    using assms unfolding remove_span_after_def step_below_def
    by (auto simp: Let_def split: option.splits intro!: below_intros)
qed

lemma remove_span_body_below:
  assumes "ends_below id n m" "send \<le> n"
  shows "step_below id n send (remove_span_body s send m)"
proof (cases "bt_last_le s m")
  case None
  then show ?thesis using remove_span_after_below [OF assms] by (simp add: remove_span_body_def)
next
  case (Some p)
  obtain lb le where p: "p = (lb, le)" by (cases p)
  have le: "le \<le> n" using bt_last_le_set [OF Some] assms(1) p by (auto simp: ends_below_def)
  let ?m = "if lb < s then bt_insert lb s m else bt_remove lb m"
  have "ends_below id n ?m" if "s < le"
    using that le assms by (auto intro!: below_intros)
  then show ?thesis
    using Some p le assms remove_span_after_below [OF assms, of s]
      remove_span_after_below [of n ?m send le]
    by (auto simp: remove_span_body_def step_below_def Let_def intro!: ends_below_insert)
qed

lemma remove_span_below:
  assumes "remove_span s send m = Some m'" "ends_below id n m" "send \<le> n"
  shows "ends_below id n m'"
proof -
  have "ends_below id n m \<longrightarrow> send \<le> n \<longrightarrow> ends_below id n m'"
  proof (rule remove_span.raw_induct [where P = "\<lambda>s send m m'.
      ends_below id n m \<longrightarrow> send \<le> n \<longrightarrow> ends_below id n m'", OF _ assms(1)])
    fix rem :: "nat \<Rightarrow> nat \<Rightarrow> gap_map \<Rightarrow> gap_map option" and s send m m'
    assume IH: "\<And>s send m m'. rem s send m = Some m' \<Longrightarrow>
        ends_below id n m \<longrightarrow> send \<le> n \<longrightarrow> ends_below id n m'"
      and r: "(case remove_span_body s send m of Inl (s', m') \<Rightarrow> rem s' send m'
        | Inr m' \<Rightarrow> Some m') = Some m'"
    show "ends_below id n m \<longrightarrow> send \<le> n \<longrightarrow> ends_below id n m'"
      using r IH remove_span_body_below [of n m send s]
      by (auto simp: step_below_def split: sum.splits prod.splits)
  qed
  then show ?thesis using assms by blast
qed

subsection \<open>Properties of the two loops\<close>

text \<open>
  C28: On a well-formed span map \<open>insert_span\<close> returns, keeps the map well formed, gives the new value to
  exactly the sectors of its interval that nothing covered, and leaves every other sector alone.
\<close>

theorem insert_span_spec:
  assumes "wf_spans m" "s \<le> send"
  shows "\<exists>m'. insert_span s send val m = Some m' \<and> wf_spans m' \<and>
    (\<forall>x. span_val m' x =
       (case span_val m x of
          Some v \<Rightarrow> Some v
        | None \<Rightarrow> if s \<le> x \<and> x < send then Some val else None))"
  using assms by (rule insert_span_vals)

lemma three_spans_wf: "wf_spans [(0, (5, 1)), (5, (10, 2 :: nat)), (20, (30, 1))]"
  by (auto simp: wf_spans_def bt_inv_def ordered_spans_def split: if_splits)

theorem insert_span_spec_witness:
  "\<exists>m'. insert_span 3 25 7 [(0, (5, 1)), (5, (10, 2 :: nat)), (20, (30, 1))] = Some m' \<and>
     span_val m' 4 = Some 1 \<and> span_val m' 15 = Some 7 \<and> span_val m' 30 = None"
  using insert_span_spec [OF three_spans_wf, of 3 25 7]
  by (auto simp: span_val_def bt_last_le_def)

text \<open>
  On a map of nonempty gaps of which no two touch, \<open>remove_span\<close> returns and removes exactly the
  sectors of its nonempty interval; the gaps stay nonempty and apart.
\<close>

theorem remove_span_exact:
  assumes "separated_gaps m" "s < send"
  shows "\<exists>m'. remove_span s send m = Some m' \<and> separated_gaps m' \<and>
    (\<forall>x. in_gap m' x \<longleftrightarrow> in_gap m x \<and> \<not> (s \<le> x \<and> x < send))"
  using assms by (rule remove_span_cuts)

lemma two_gaps_separated: "separated_gaps [(0, 10), (20, 30)]"
  by (auto simp: separated_gaps_def bt_inv_def separated_def split: if_splits)

theorem remove_span_exact_witness:
  "\<exists>m'. remove_span 5 25 [(0, 10), (20, 30)] = Some m' \<and>
     in_gap m' 4 \<and> \<not> in_gap m' 7 \<and> \<not> in_gap m' 24 \<and> in_gap m' 25"
  using remove_span_exact [OF two_gaps_separated, of 5 25]
  by (auto simp: in_gap_def bt_last_le_def)

text \<open>Removing an empty interval splits a gap into two that touch, and the next removal then misses the
  second one: of a gap \<open>[0, 10)\<close>, split at 5, removing \<open>[0, 10)\<close> leaves \<open>[5, 10)\<close>.
\<close>

theorem remove_span_skips_touching_gap:
  "Option.bind (remove_span 5 5 [(0, 10)]) (remove_span 0 10) = Some [(5, 10)]"
  by (simp add: remove_span.simps remove_span_body_def remove_span_after_def bt_last_le_def
      bt_first_gt_def bt_insert_def bt_remove_def)

end
