(* ===== verification/VmdkReader.thy ===== *)
theory VmdkReader
  imports VmdkDescriptor Spans
begin

text \<open>
  \<open>vmdk/src/vmdk_reader.rs\<close>: opening an image with its chain of parents, and reading from it.

  \<open>open_loop\<close> is the loop \<open>'img_loop\<close> over the chain: it handles one image per turn, lays the spans of
  its extents under those of the images before it (\<open>insert_span\<close> never overwrites), keeps the sectors
  that nothing covers yet in \<open>uncovered\<close>, and stops when none is left or the chain ends.  A chain
  may be endless, so the loop is a \<^theory_text>\<open>partial_function\<close>; \<open>None\<close> is a call that never returns.
  The set-up of the runtime, of the cache and of S3 credentials is part of the parameter \<open>vmdk_sys\<close>.

  Shown: a chain over finitely many URLs is always handled in finite time, a cycle in it is an error;
  an opened image routes every sector to the first extent in chain order that has data for it, and to
  zeros when none has; a read returns exactly those bytes.
\<close>

record open_state =
  os_url :: string
  os_idx :: nat
  os_slots :: source_slots
  os_spans :: "nat span_map"
  os_uncovered :: gap_map
  os_extents :: "extent list"
  os_image_size :: "nat option"
  os_visited :: "string list"

record vmdk_reader =
  vr_image_size :: nat
  vr_spans :: "(nat \<times> nat \<times> nat) list"
  vr_extents :: "extent list"
  vr_slots :: source_slots

subsection \<open>One image\<close>

definition image_descriptor ::
    "vmdk_sys \<Rightarrow> cache \<Rightarrow> cursor \<Rightarrow> file_type option \<Rightarrow> (string, open_error) result" where
  "image_descriptor sys c crs ft =
     (case ft of
        Some Vmdk4 \<Rightarrow>
          and_then (map_err io_open_error (crs_seek c crs (SeekStart 0))) (\<lambda>crs.
          and_then (map_err io_open_error (vmdk4_from_reader (sys_byteorder sys) c crs)) (\<lambda>(h, crs).
          and_then
            (if use_secondary h then
               and_then (map_err io_open_error (crs_seek c crs (SeekEnd (- 1024)))) (\<lambda>crs.
               map_err io_open_error (vmdk4_from_reader (sys_byteorder sys) c crs))
             else Ok (h, crs)) (\<lambda>(h, crs).
          if v4_desc_offset h > 0
          then map_err io_open_error (read_descriptor_internal c crs (v4_desc_offset h))
          else Ok [])))
      | None \<Rightarrow>
          and_then (map_err io_open_error (crs_seek c crs (SeekStart 0))) (\<lambda>crs.
          map_err open_error_from (read_descriptor_file c crs))
      | Some t \<Rightarrow> Err (open_error_from (OpDescriptorError (NoDescriptor t))))"

definition handle_image ::
    "vmdk_sys \<Rightarrow> string \<Rightarrow> nat \<Rightarrow> source_slots
      \<Rightarrow> (extent list \<times> string option \<times> source_slots, open_error) result" where
  "handle_image sys current_url idx slots =
     and_then (map_err source_open_error (sys_source_for_url sys current_url)) (\<lambda>src.
     let slots = slots_set slots idx src;
         c = sys_cache sys slots
     in
     and_then (map_err io_open_error (check_signature c (crs_new idx))) (\<lambda>(ft, crs).
     and_then (image_descriptor sys c crs ft) (\<lambda>descriptor.
     and_then
       (map_err (\<lambda>e. open_error_from (OpDescriptorError (ParseExtentDescription e)))
          (extract_extent_descriptions descriptor)) (\<lambda>eds.
     and_then
       (read_extents sys current_url eds (ft = Some Vmdk4 \<and> length eds = 1) (idx + 1) slots)
       (\<lambda>(extents, slots).
     and_then
       (case extract_parent_fn_hint descriptor of
          None \<Rightarrow> Ok None
        | Some p \<Rightarrow> map_err open_error_from
            (and_then (ok_or (BadPath p) (sys_join sys current_url p)) (\<lambda>u. Ok (Some u))))
       (\<lambda>parent_url.
     Ok (extents, parent_url, slots)))))))"

subsection \<open>The chain\<close>

fun add_spans ::
    "(nat \<times> nat) list \<Rightarrow> nat \<Rightarrow> nat span_map \<times> gap_map \<Rightarrow> (nat span_map \<times> gap_map) option" where
  "add_spans [] i p = Some p"
| "add_spans ((b, e) # ss) i p =
     Option.bind (insert_span b e i (fst p)) (\<lambda>spans.
     Option.bind (remove_span b e (snd p)) (\<lambda>uncovered.
     add_spans ss i (spans, uncovered)))"

text \<open>The loop over the extents of one image; the flag says that everything is covered.\<close>

fun add_extents :: "extent list \<Rightarrow> open_state \<Rightarrow> (open_state \<times> bool) option" where
  "add_extents [] os = Some (os, False)"
| "add_extents (ex # exs) os =
     Option.bind (add_spans (extent_spans ex) (length (os_extents os)) (os_spans os, os_uncovered os))
       (\<lambda>p.
       let os = os\<lparr>os_spans := fst p, os_uncovered := snd p,
                   os_idx := (if has_file ex then os_idx os + 1 else os_idx os),
                   os_extents := os_extents os @ [ex]\<rparr>
       in if os_uncovered os = [] then Some (os, True) else add_extents exs os)"

fun total_sectors :: "nat \<Rightarrow> extent list \<Rightarrow> nat option" where
  "total_sectors acc [] = Some acc"
| "total_sectors acc (ex # exs) =
     Option.bind (checked_add acc (ex_sectors ex)) (\<lambda>acc. total_sectors acc exs)"

definition image_bytes :: "extent list \<Rightarrow> nat option" where
  "image_bytes exs = Option.bind (total_sectors 0 exs) (\<lambda>n. checked_mul n SECTOR_SIZE)"

text \<open>The size of an image must be that of the first image of the chain.\<close>

definition check_size ::
    "open_state \<Rightarrow> nat \<Rightarrow> (open_state, open_error) result" where
  "check_size os sz =
     (case os_image_size os of
        None \<Rightarrow>
          and_then (div_ceil sz SECTOR_SIZE) (\<lambda>sec_end.
          Ok (os\<lparr>os_image_size := Some sz, os_uncovered := bt_insert 0 sec_end (os_uncovered os)\<rparr>))
      | Some s \<Rightarrow>
          if s \<noteq> sz
          then Err \<lparr>oe_path = os_url os, oe_kind = BadParentExtentDescriptorSize s sz\<rparr>
          else Ok os)"

definition name_error :: "string \<Rightarrow> open_error \<Rightarrow> open_error" where
  "name_error url e = (if oe_path e = [] then with_path url e else e)"

text \<open>One turn of \<open>'img_loop\<close>: go on with the next state, or break with the last one.\<close>

definition open_body ::
    "vmdk_sys \<Rightarrow> open_state \<Rightarrow> (open_state + open_state, open_error) result option" where
  "open_body sys os =
     (if os_url os \<in> set (os_visited os)
      then Some (Err \<lparr>oe_path = os_url os, oe_kind = ParentChainCycle (os_url os)\<rparr>)
      else
        let os = os\<lparr>os_visited := os_url os # os_visited os\<rparr> in
        case map_err (name_error (os_url os)) (handle_image sys (os_url os) (os_idx os) (os_slots os)) of
          Err e \<Rightarrow> Some (Err e)
        | Panic \<Rightarrow> Some Panic
        | Ok (img_extents, parent_url, slots) \<Rightarrow>
            let os = os\<lparr>os_idx := os_idx os + 1, os_slots := slots\<rparr> in
            case and_then
                (ok_or \<lparr>oe_path = os_url os, oe_kind = ImageSizeOverflow\<rparr> (image_bytes img_extents))
                (check_size os) of
              Err e \<Rightarrow> Some (Err e)
            | Panic \<Rightarrow> Some Panic
            | Ok os \<Rightarrow>
                Option.bind (add_extents img_extents os) (\<lambda>(os, covered).
                if covered then Some (Ok (Inr os))
                else case parent_url of
                  None \<Rightarrow> Some (Ok (Inr os))
                | Some u \<Rightarrow> Some (Ok (Inl (os\<lparr>os_url := u\<rparr>)))))"

partial_function (option) open_loop ::
    "vmdk_sys \<Rightarrow> open_state \<Rightarrow> (open_state, open_error) result option" where
  "open_loop sys os =
     (case open_body sys os of
        None \<Rightarrow> None
      | Some (Err e) \<Rightarrow> Some (Err e)
      | Some Panic \<Rightarrow> Some Panic
      | Some (Ok (Inr os')) \<Rightarrow> Some (Ok os')
      | Some (Ok (Inl os')) \<Rightarrow> open_loop sys os')"

fun zero_fill :: "(nat \<times> nat) list \<Rightarrow> nat span_map \<Rightarrow> extent list \<Rightarrow> (nat span_map \<times> extent list) option"
where
  "zero_fill [] spans extents = Some (spans, extents)"
| "zero_fill ((lb, ub) # gaps) spans extents =
     Option.bind (insert_span lb ub (length extents) spans) (\<lambda>spans.
     zero_fill gaps spans (extents @
       [\<lparr>ex_start_sector = lb, ex_sectors = u64_sub ub lb, ex_storage = Zero\<rparr>]))"

definition byte_spans :: "nat span_map \<Rightarrow> (nat \<times> nat \<times> nat) list" where
  "byte_spans spans =
     map (\<lambda>(lb, ub, i). (u64_mul lb SECTOR_SIZE, u64_mul ub SECTOR_SIZE, i)) spans"

definition initial_state :: "string \<Rightarrow> open_state" where
  "initial_state url =
     \<lparr>os_url = url, os_idx = 0, os_slots = [], os_spans = [], os_uncovered = [], os_extents = [],
      os_image_size = None, os_visited = []\<rparr>"

definition open_finish :: "open_state \<Rightarrow> vmdk_reader option" where
  "open_finish os =
     map_option (\<lambda>(spans, extents).
         \<lparr>vr_image_size = (case os_image_size os of Some n \<Rightarrow> n | None \<Rightarrow> 0),
          vr_spans = byte_spans spans, vr_extents = extents, vr_slots = os_slots os\<rparr>)
       (zero_fill (os_uncovered os) (os_spans os) (os_extents os))"

definition vmdk_open :: "vmdk_sys \<Rightarrow> string \<Rightarrow> (vmdk_reader, open_error) result option" where
  "vmdk_open sys url =
     Option.bind (open_loop sys (initial_state url)) (\<lambda>r.
       case r of
         Ok os \<Rightarrow> map_option Ok (open_finish os)
       | Err e \<Rightarrow> Some (Err e)
       | Panic \<Rightarrow> Some Panic)"

subsection \<open>Reading\<close>

text \<open>One turn of the \<open>while\<close>: the bytes it adds, or the next offset and span index.\<close>

definition read_step ::
    "byteorder \<Rightarrow> 'd inflater \<Rightarrow> cache \<Rightarrow> vmdk_reader \<Rightarrow> nat \<Rightarrow> nat \<Rightarrow> nat
      \<Rightarrow> (bytes \<times> nat \<times> nat, read_error) result" where
  "read_step bo infl c rd offset end i =
     and_then (index (vr_spans rd) i) (\<lambda>(sb, span_end, x).
     let r = min (u64_sub span_end offset) (end - offset) in
     and_then (index (vr_extents rd) x) (\<lambda>ex.
     and_then (storage_read bo infl c (ex_storage ex) offset r) (\<lambda>bs.
     let offset = offset + length bs in
     Ok (bs, offset, if span_end \<le> offset then i + 1 else i))))"

partial_function (option) read_loop ::
    "byteorder \<Rightarrow> 'd inflater \<Rightarrow> cache \<Rightarrow> vmdk_reader \<Rightarrow> nat \<Rightarrow> nat \<Rightarrow> nat \<Rightarrow> bytes
      \<Rightarrow> (bytes, read_error) result option" where
  "read_loop bo infl c rd end offset i acc =
     (if offset < end then
        (case read_step bo infl c rd offset end i of
           Ok (bs, offset', i') \<Rightarrow> read_loop bo infl c rd end offset' i' (acc @ bs)
         | Err e \<Rightarrow> Some (Err e)
         | Panic \<Rightarrow> Some Panic)
      else Some (Ok acc))"

definition vmdk_read_at_offset ::
    "byteorder \<Rightarrow> 'd inflater \<Rightarrow> cache \<Rightarrow> vmdk_reader \<Rightarrow> nat \<Rightarrow> nat
      \<Rightarrow> (bytes, read_error) result option" where
  "vmdk_read_at_offset bo infl c rd beg buflen =
     (if beg > vr_image_size rd then Some (Err (OffsetBeyondEnd beg (vr_image_size rd)))
      else
        let buflen = (if u64_add beg buflen > vr_image_size rd
                      then vr_image_size rd - beg else buflen);
            end = u64_add beg buflen
        in case binary_search (map fst (vr_spans rd)) beg of
             Found i \<Rightarrow> read_loop bo infl c rd end beg i []
           | Insert i \<Rightarrow>
               if i = 0 then Some (Err (OffsetNotFound beg))
               else read_loop bo infl c rd end beg (i - 1) [])"

declare open_loop.simps [code] read_loop.simps [code]

subsection \<open>Which extent serves a sector\<close>

text \<open>The specification of layering: the first extent in chain order that covers the sector.\<close>

fun first_cover :: "nat \<Rightarrow> extent list \<Rightarrow> nat \<Rightarrow> nat option" where
  "first_cover k [] s = None"
| "first_cover k (ex # exs) s =
     (if extent_covers ex s then Some k else first_cover (Suc k) exs s)"

abbreviation owner :: "extent list \<Rightarrow> nat \<Rightarrow> nat option" where
  "owner \<equiv> first_cover 0"

lemma first_cover_append:
  "first_cover k (exs @ [ex]) s =
     (case first_cover k exs s of
        Some i \<Rightarrow> Some i
      | None \<Rightarrow> if extent_covers ex s then Some (k + length exs) else None)"
  by (induction exs arbitrary: k) (auto split: option.splits)

lemma first_cover_Some:
  "first_cover k exs s = Some i \<Longrightarrow> k \<le> i \<and> i - k < length exs \<and> extent_covers (exs ! (i - k)) s"
proof (induction exs arbitrary: k)
  case (Cons ex exs)
  show ?case
  proof (cases "extent_covers ex s")
    case False
    then show ?thesis using Cons.prems Cons.IH [of "Suc k"] by (auto simp: nth_Cons')
  qed (use Cons.prems in simp)
qed simp

lemma owner_Some: "owner exs s = Some i \<Longrightarrow> i < length exs \<and> extent_covers (exs ! i) s"
  using first_cover_Some [of 0 exs s i] by simp

text \<open>The invariant of the loop, for an image of \<open>n\<close> sectors.\<close>

definition open_inv :: "nat \<Rightarrow> open_state \<Rightarrow> bool" where
  "open_inv n os \<longleftrightarrow>
     n * SECTOR_SIZE < u64_lim \<and> wf_spans (os_spans os) \<and> wf_gaps (os_uncovered os) \<and>
     (\<forall>s. span_val (os_spans os) s = owner (os_extents os) s) \<and>
     (\<forall>s < n. owner (os_extents os) s = None \<longrightarrow> in_gap (os_uncovered os) s) \<and>
     ends_below fst n (os_spans os) \<and> ends_below id n (os_uncovered os) \<and>
     (\<forall>s. in_gap (os_uncovered os) s \<longrightarrow> s < n) \<and>
     (\<forall>ex \<in> set (os_extents os). wf_extent ex \<and> ex_start_sector ex + ex_sectors ex \<le> n)"

lemma add_spans_spec:
  assumes "wf_spans m" "wf_gaps g" "\<forall>(b, e) \<in> set ss. b \<le> e"
  shows "\<exists>m' g'. add_spans ss i (m, g) = Some (m', g') \<and> wf_spans m' \<and> wf_gaps g' \<and>
    (\<forall>x. span_val m' x =
       (case span_val m x of
          Some v \<Rightarrow> Some v
        | None \<Rightarrow> if \<exists>(b, e) \<in> set ss. b \<le> x \<and> x < e then Some i else None)) \<and>
    (\<forall>x. in_gap g' x \<longrightarrow> in_gap g x) \<and>
    (\<forall>x. in_gap g x \<longrightarrow> \<not> (\<exists>(b, e) \<in> set ss. b \<le> x \<and> x < e) \<longrightarrow> in_gap g' x)"
  using assms
proof (induction ss arbitrary: m g)
  case (Cons p ss)
  obtain b e where p: "p = (b, e)" by (cases p)
  have be: "b \<le> e" using Cons.prems(3) p by auto
  obtain m1 where m1: "insert_span b e i m = Some m1" "wf_spans m1"
    "\<And>x. span_val m1 x = (case span_val m x of Some v \<Rightarrow> Some v
        | None \<Rightarrow> if b \<le> x \<and> x < e then Some i else None)"
    using insert_span_vals [OF Cons.prems(1) be] by blast
  obtain g1 where g1: "remove_span b e g = Some g1" "wf_gaps g1"
    "\<And>x. in_gap g1 x \<Longrightarrow> in_gap g x"
    "\<And>x. in_gap g x \<Longrightarrow> \<not> (b \<le> x \<and> x < e) \<Longrightarrow> in_gap g1 x"
    using remove_span_keeps [OF Cons.prems(2) be] by blast
  obtain m' g' where r: "add_spans ss i (m1, g1) = Some (m', g')" "wf_spans m'" "wf_gaps g'"
    "\<And>x. span_val m' x = (case span_val m1 x of Some v \<Rightarrow> Some v
        | None \<Rightarrow> if \<exists>(b, e) \<in> set ss. b \<le> x \<and> x < e then Some i else None)"
    "\<And>x. in_gap g' x \<Longrightarrow> in_gap g1 x"
    "\<And>x. in_gap g1 x \<Longrightarrow> \<not> (\<exists>(b, e) \<in> set ss. b \<le> x \<and> x < e) \<Longrightarrow> in_gap g' x"
    using Cons.IH [OF m1(2) g1(2)] Cons.prems(3) by auto
  show ?case
  proof (intro exI conjI allI impI)
    show "add_spans (p # ss) i (m, g) = Some (m', g')" using p m1(1) g1(1) r(1) by simp
    show "span_val m' x = (case span_val m x of Some v \<Rightarrow> Some v
        | None \<Rightarrow> if \<exists>(b, e) \<in> set (p # ss). b \<le> x \<and> x < e then Some i else None)" for x
      using r(4) [of x] m1(3) [of x] p by (auto split: option.splits)
    show "in_gap g x" if "in_gap g' x" for x using that r(5) g1(3) by blast
    show "in_gap g' x" if "in_gap g x" "\<not> (\<exists>(b, e) \<in> set (p # ss). b \<le> x \<and> x < e)" for x
      using that r(6) g1(4) p by auto
  qed (use r in auto)
qed (auto split: option.splits)

lemma add_spans_below:
  assumes "add_spans ss i (m, g) = Some (m', g')" "ends_below fst n m" "ends_below id n g"
    "\<forall>(b, e) \<in> set ss. e \<le> n"
  shows "ends_below fst n m' \<and> ends_below id n g'"
  using assms
proof (induction ss arbitrary: m g)
  case (Cons p ss)
  obtain b e where p: "p = (b, e)" by (cases p)
  then obtain m1 g1 where r: "insert_span b e i m = Some m1" "remove_span b e g = Some g1"
    "add_spans ss i (m1, g1) = Some (m', g')"
    using Cons.prems(1) by (auto simp: bind_eq_Some_conv)
  have e: "e \<le> n" "\<forall>(b, e) \<in> set ss. e \<le> n" using Cons.prems(4) p by auto
  show ?case
    by (rule Cons.IH [OF r(3) insert_span_below [OF r(1) Cons.prems(2) e(1)]
          remove_span_below [OF r(2) Cons.prems(3) e(1)] e(2)])
qed simp

lemma add_extents_inv:
  assumes "open_inv n os"
    and "\<forall>ex \<in> set exs. wf_extent ex \<and> ex_start_sector ex + ex_sectors ex \<le> n"
  shows "\<exists>os' f. add_extents exs os = Some (os', f) \<and> open_inv n os' \<and>
    os_image_size os' = os_image_size os \<and> os_visited os' = os_visited os \<and>
    os_url os' = os_url os \<and> os_slots os' = os_slots os \<and>
    (\<exists>k. os_extents os' = os_extents os @ take k exs) \<and>
    (f \<longleftrightarrow> exs \<noteq> [] \<and> os_uncovered os' = []) \<and>
    (\<not> f \<longrightarrow> os_extents os' = os_extents os @ exs \<and>
       os_idx os' = os_idx os + length (filter has_file exs))"
  using assms
proof (induction exs arbitrary: os)
  case (Cons ex exs)
  have ex: "wf_extent ex" "ex_start_sector ex + ex_sectors ex \<le> n" using Cons.prems(2) by auto
  note I = Cons.prems(1) [unfolded open_inv_def]
  have rng: "\<forall>(b, e) \<in> set (extent_spans ex). b \<le> e" using extent_span_range [OF ex(1)] by auto
  let ?c = "\<lambda>s. \<exists>(b, e) \<in> set (extent_spans ex). b \<le> s \<and> s < e"
  have c: "?c s \<longleftrightarrow> extent_covers ex s" for s by (rule extent_spans_cover_iff [OF ex(1)])
  obtain m' g' where r: "add_spans (extent_spans ex) (length (os_extents os))
      (os_spans os, os_uncovered os) = Some (m', g')" "wf_spans m'" "wf_gaps g'"
    "\<And>x. span_val m' x = (case span_val (os_spans os) x of Some v \<Rightarrow> Some v
        | None \<Rightarrow> if extent_covers ex x then Some (length (os_extents os)) else None)"
    "\<And>x. in_gap g' x \<Longrightarrow> in_gap (os_uncovered os) x"
    "\<And>x. in_gap (os_uncovered os) x \<Longrightarrow> \<not> extent_covers ex x \<Longrightarrow> in_gap g' x"
    using add_spans_spec [of "os_spans os" "os_uncovered os" "extent_spans ex" "length (os_extents os)"]
      I rng unfolding c by blast
  define os1 where "os1 = os\<lparr>os_spans := m', os_uncovered := g',
      os_idx := (if has_file ex then os_idx os + 1 else os_idx os), os_extents := os_extents os @ [ex]\<rparr>"
  have inv1: "open_inv n os1"
  proof -
    have own: "owner (os_extents os1) s = (case owner (os_extents os) s of Some i \<Rightarrow> Some i
        | None \<Rightarrow> if extent_covers ex s then Some (length (os_extents os)) else None)" for s
      by (simp add: os1_def first_cover_append split: option.split)
    have A: "in_gap g' s" if "s < n" "owner (os_extents os1) s = None" for s
      using that own [of s] I r(6) by (auto split: option.splits if_splits)
    have B: "span_val m' s = owner (os_extents os1) s" for s using I r(4) own by simp
    have C: "s < n" if "in_gap g' s" for s using that I r(5) by blast
    have e: "os_spans os1 = m'" "os_uncovered os1 = g'"
      "set (os_extents os1) = insert ex (set (os_extents os))"
      by (simp_all add: os1_def)
    have D: "ends_below fst n m' \<and> ends_below id n g'"
      using add_spans_below [OF r(1)] I extent_span_range [OF ex(1)] ex(2) by fastforce
    show ?thesis unfolding open_inv_def e ball_simps using A B C D I r(2,3) ex by blast
  qed
  show ?case
  proof (cases "g' = []")
    case True
    then have "add_extents (ex # exs) os = Some (os1, True)"
      using r(1) by (simp add: os1_def Let_def)
    moreover have "\<exists>k. os_extents os1 = os_extents os @ take k (ex # exs)"
      by (rule exI [of _ 1]) (simp add: os1_def)
    ultimately show ?thesis using inv1 True by (simp add: os1_def del: add_extents.simps)
  next
    case False
    have "add_extents (ex # exs) os = add_extents exs os1"
      using r(1) False by (simp add: os1_def Let_def)
    moreover obtain os' f where o: "add_extents exs os1 = Some (os', f)" "open_inv n os'"
      "os_image_size os' = os_image_size os1" "os_visited os' = os_visited os1"
      "os_url os' = os_url os1" "os_slots os' = os_slots os1"
      "\<exists>k. os_extents os' = os_extents os1 @ take k exs"
      "f \<longleftrightarrow> exs \<noteq> [] \<and> os_uncovered os' = []" "\<not> f \<longrightarrow> os_extents os' = os_extents os1 @ exs \<and>
        os_idx os' = os_idx os1 + length (filter has_file exs)"
      using Cons.IH [OF inv1] Cons.prems(2) by auto
    moreover have "os_uncovered os' \<noteq> []" if "exs = []"
      using that o(1) False by (auto simp: os1_def)
    moreover have "\<exists>k. os_extents os' = os_extents os @ take k (ex # exs)"
    proof -
      obtain k where "os_extents os' = os_extents os1 @ take k exs" using o(7) by blast
      then show ?thesis by (intro exI [of _ "Suc k"]) (simp add: os1_def)
    qed
    ultimately show ?thesis by (auto simp: os1_def simp del: add_extents.simps)
  qed
qed auto

lemma total_sectors_sum:
  "total_sectors a exs = Some t \<Longrightarrow> t = a + sum_list (map ex_sectors exs)"
  by (induction exs arbitrary: a) (fastforce simp: bind_eq_Some_conv)+

lemma image_bytes_sum:
  "image_bytes exs = Some b \<Longrightarrow>
     b = sum_list (map ex_sectors exs) * SECTOR_SIZE \<and> sum_list (map ex_sectors exs) * SECTOR_SIZE < u64_lim"
  by (auto simp: image_bytes_def bind_eq_Some_conv dest: total_sectors_sum)

lemma handle_image_contiguous:
  assumes "hash_order_ok sys" "handle_image sys u idx slots = Ok (exs, parent, slots')"
  shows "contiguous 0 exs"
  using assms(2) read_extents_contiguous(1) [OF assms(1)]
  by (auto simp: handle_image_def Let_def and_then_Ok_iff read_extents_def case_prod_beta)

definition loop_inv :: "open_state \<Rightarrow> bool" where
  "loop_inv os \<longleftrightarrow>
     (case os_image_size os of
        None \<Rightarrow> os_spans os = [] \<and> os_uncovered os = [] \<and> os_extents os = []
      | Some sz \<Rightarrow> \<exists>n. sz = n * SECTOR_SIZE \<and> open_inv n os)"

lemma first_image_inv:
  assumes "os_spans os = []" "os_extents os = []" "n * SECTOR_SIZE < u64_lim"
    "os_uncovered os = [(0, n)]"
  shows "open_inv n os"
proof -
  have "wf_gaps [(0, n)]" "wf_spans ([] :: nat span_map)"
    by (auto simp: wf_gaps_def wf_spans_def bt_inv_def ordered_spans_def split: if_splits)
  moreover have "in_gap [(0, n)] s \<longleftrightarrow> s < n" for s by (simp add: in_gap_def bt_last_le_def)
  ultimately show ?thesis
    using assms by (simp add: open_inv_def span_val_def bt_last_le_def ends_below_def)
qed

lemma check_size_inv:
  assumes inv: "loop_inv os" and "image_bytes exs = Some b" and ok: "check_size os b = Ok os'"
  shows "\<exists>n. b = n * SECTOR_SIZE \<and> open_inv n os' \<and> os_image_size os' = Some b"
    "sum_list (map ex_sectors exs) * SECTOR_SIZE = b" "b < u64_lim"
    "os_visited os' = os_visited os" "os_url os' = os_url os" "os_slots os' = os_slots os"
    "os_extents os' = os_extents os" "os_idx os' = os_idx os" "\<forall>z. os_image_size os = Some z \<longrightarrow> z = b"
proof -
  let ?n = "sum_list (map ex_sectors exs)"
  have b: "b = ?n * SECTOR_SIZE" "?n * SECTOR_SIZE < u64_lim" using image_bytes_sum [OF assms(2)] by auto
  then show "?n * SECTOR_SIZE = b" "b < u64_lim" by auto
  show "\<exists>n. b = n * SECTOR_SIZE \<and> open_inv n os' \<and> os_image_size os' = Some b"
  proof (cases "os_image_size os")
    case None
    have "os' = os\<lparr>os_image_size := Some b, os_uncovered := bt_insert 0 ?n (os_uncovered os)\<rparr>"
      using ok None b(1) by (simp add: check_size_def div_ceil_def SECTOR_SIZE_def)
    moreover have "os_spans os = []" "os_uncovered os = []" "os_extents os = []"
      using inv None by (auto simp: loop_inv_def)
    ultimately show ?thesis
      using b by (intro exI [of _ ?n]) (auto simp: bt_insert_def intro: first_image_inv)
  next
    case (Some s)
    then show ?thesis using ok inv by (auto simp: check_size_def loop_inv_def split: if_splits)
  qed
  show "os_visited os' = os_visited os" "os_url os' = os_url os" "os_slots os' = os_slots os"
    "os_extents os' = os_extents os" "os_idx os' = os_idx os" "\<forall>z. os_image_size os = Some z \<longrightarrow> z = b"
    using ok by (auto simp: check_size_def and_then_Ok_iff split: option.splits if_splits)
qed

lemma check_size_no_panic: "check_size os b \<noteq> Panic"
  by (auto simp: check_size_def and_then_Panic_iff div_ceil_def SECTOR_SIZE_def split: option.splits)

text \<open>What one turn of the loop gives: it takes the extents of the image it is at.\<close>

abbreviation image_sectors :: "extent list \<Rightarrow> nat" where
  "image_sectors exs \<equiv> sum_list (map ex_sectors exs)"

definition turn_keeps :: "open_state \<Rightarrow> extent list \<Rightarrow> open_state \<Rightarrow> bool" where
  "turn_keeps os exs os' \<longleftrightarrow>
     os_image_size os' = Some (image_sectors exs * SECTOR_SIZE) \<and>
     (\<forall>z. os_image_size os = Some z \<longrightarrow> os_image_size os' = Some z)"

definition turn_ok :: "vmdk_sys \<Rightarrow> open_state \<Rightarrow> (open_state + open_state, open_error) result \<Rightarrow> bool" where
  "turn_ok sys os r \<longleftrightarrow>
     (case r of
        Ok (Inl os') \<Rightarrow> loop_inv os' \<and> os_visited os' = os_url os # os_visited os \<and>
          os_url os \<notin> set (os_visited os) \<and>
          (\<exists>exs. handle_image sys (os_url os) (os_idx os) (os_slots os) =
               Ok (exs, Some (os_url os'), os_slots os') \<and>
             os_idx os' = os_idx os + 1 + length (filter has_file exs) \<and>
             os_extents os' = os_extents os @ exs \<and> turn_keeps os exs os')
      | Ok (Inr os') \<Rightarrow>
          (\<exists>exs parent k. handle_image sys (os_url os) (os_idx os) (os_slots os) =
               Ok (exs, parent, os_slots os') \<and>
             os_extents os' = os_extents os @ take k exs \<and>
             (os_uncovered os' = [] \<or> parent = None \<and> length exs \<le> k) \<and>
             turn_keeps os exs os' \<and> open_inv (image_sectors exs) os')
      | _ \<Rightarrow> True)"

lemma open_body_turn:
  assumes ho: "hash_order_ok sys" and inv: "loop_inv os"
  shows "\<exists>r. open_body sys os = Some r \<and> turn_ok sys os r"
proof (cases "os_url os \<in> set (os_visited os)")
  case True
  then show ?thesis by (simp add: open_body_def turn_ok_def)
next
  case new: False
  define os1 where "os1 = os\<lparr>os_visited := os_url os # os_visited os\<rparr>"
  show ?thesis
  proof (cases "handle_image sys (os_url os) (os_idx os) (os_slots os)")
    case (Ok t)
    then obtain exs parent slots
      where h: "handle_image sys (os_url os) (os_idx os) (os_slots os) = Ok (exs, parent, slots)"
      by (cases t) auto
    define os2 where "os2 = os1\<lparr>os_idx := os_idx os + 1, os_slots := slots\<rparr>"
    have inv2: "loop_inv os2" using inv
      by (simp add: loop_inv_def open_inv_def os2_def os1_def split: option.splits)
    let ?sz = "and_then (ok_or \<lparr>oe_path = os_url os, oe_kind = ImageSizeOverflow\<rparr> (image_bytes exs))
        (check_size os2)"
    show ?thesis
    proof (cases ?sz)
      case sz: (Ok os3)
      then obtain b where b: "image_bytes exs = Some b" "check_size os2 b = Ok os3"
        by (auto simp: and_then_Ok_iff)
      obtain n where n: "b = n * SECTOR_SIZE" "open_inv n os3" "os_image_size os3 = Some b"
        using check_size_inv(1) [OF inv2 b] by blast
      have sum: "sum_list (map ex_sectors exs) = n" "n * SECTOR_SIZE < u64_lim"
        using check_size_inv(2,3) [OF inv2 b] n(1) by (auto simp: SECTOR_SIZE_def)
      have "\<forall>ex \<in> set exs. wf_extent ex \<and> ex_start_sector ex + ex_sectors ex \<le> n"
        using contiguous_wf [OF handle_image_contiguous [OF ho h]] sum by simp
      from add_extents_inv [OF n(2) this] obtain os4 f k where o4: "add_extents exs os3 = Some (os4, f)"
        "open_inv n os4" "os_image_size os4 = os_image_size os3" "os_visited os4 = os_visited os3"
        "os_slots os4 = os_slots os3" "os_extents os4 = os_extents os3 @ take k exs"
        "f \<longleftrightarrow> exs \<noteq> [] \<and> os_uncovered os4 = []"
        "\<not> f \<longrightarrow> os_extents os4 = os_extents os3 @ exs \<and>
           os_idx os4 = os_idx os3 + length (filter has_file exs)"
        by (elim exE conjE) (rule that)
      note o4 = o4(1,2) o4(3) [unfolded n(3)] o4(4-8)
      have o3: "os_visited os3 = os_url os # os_visited os" "os_slots os3 = slots"
        "os_extents os3 = os_extents os" "os_idx os3 = os_idx os + 1"
        "\<forall>z. os_image_size os = Some z \<longrightarrow> z = b"
        using check_size_inv(4-9) [OF inv2 b] by (simp_all add: os2_def os1_def)
      have keeps: "turn_keeps os exs os4" using o3(5) o4(3) n(1) sum(1) by (auto simp: turn_keeps_def)
      have ext: "os_extents os4 = os_extents os @ take (if f then k else length exs) exs"
        using o4(6,8) o3(3) by (cases f) simp_all
      have fin: "turn_ok sys os (Ok (Inr os4))" if "f \<or> parent = None"
        unfolding turn_ok_def result.case sum.case
        using o4(2,5,7) o3(2) h keeps ext sum(1) that
        by (intro exI [of _ exs] exI [of _ parent] exI [of _ "if f then k else length exs"]) auto
      have body: "open_body sys os =
          (if f then Some (Ok (Inr os4)) else case parent of None \<Rightarrow> Some (Ok (Inr os4))
             | Some u \<Rightarrow> Some (Ok (Inl (os4\<lparr>os_url := u\<rparr>))))"
        using new h sz o4(1)
        by (simp add: open_body_def Let_def os1_def [symmetric] os2_def [symmetric])
          (simp add: os1_def os2_def)
      have "turn_ok sys os (Ok (Inl (os4\<lparr>os_url := u\<rparr>)))" if "\<not> f" "parent = Some u" for u
      proof -
        have "open_inv n (os4\<lparr>os_url := u\<rparr>)" using o4(2) by (simp add: open_inv_def)
        then have "loop_inv (os4\<lparr>os_url := u\<rparr>)" using o4(3) n(1) by (auto simp: loop_inv_def)
        moreover have "turn_keeps os exs (os4\<lparr>os_url := u\<rparr>)" using keeps by (auto simp: turn_keeps_def)
        ultimately show ?thesis
          unfolding turn_ok_def result.case sum.case
          using o4(4,5,8) o3(1-4) new h that by (intro conjI exI [of _ exs]) simp_all
      qed
      then show ?thesis using body fin by (cases f; cases parent) auto
    qed (use new h in \<open>simp_all add: open_body_def Let_def os1_def os2_def turn_ok_def\<close>)
  qed (use new in \<open>simp_all add: open_body_def Let_def turn_ok_def\<close>)
qed

subsection \<open>The chain ends\<close>

text \<open>\<open>U\<close> holds the URLs of a chain: no image of \<open>U\<close> names a parent outside it.\<close>

definition chain_closed :: "vmdk_sys \<Rightarrow> string set \<Rightarrow> bool" where
  "chain_closed sys U \<longleftrightarrow>
     (\<forall>u \<in> U. \<forall>idx slots exs p slots'.
        handle_image sys u idx slots = Ok (exs, Some p, slots') \<longrightarrow> p \<in> U)"

text \<open>
  The chain of an image, stated by itself: the extents of the image at \<open>u\<close>, then those of the image it
  names as its parent, and so on, with the URL of the parent that comes next, if there is one.
\<close>

inductive image_chain ::
    "vmdk_sys \<Rightarrow> string \<Rightarrow> nat \<Rightarrow> source_slots \<Rightarrow> extent list list \<Rightarrow> string option \<Rightarrow> source_slots \<Rightarrow> bool"
  for sys
where
  chain_last: "handle_image sys u idx slots = Ok (exs, parent, slots') \<Longrightarrow>
     image_chain sys u idx slots [exs] parent slots'"
| chain_more: "handle_image sys u idx slots = Ok (exs, Some p, slots') \<Longrightarrow>
     image_chain sys p (idx + 1 + length (filter has_file exs)) slots' imgs rest slots'' \<Longrightarrow>
     image_chain sys u idx slots (exs # imgs) rest slots''"

text \<open>What the loop ends with: the extents of a chain, all of them or as many as cover the image.\<close>

definition opened_chain :: "vmdk_sys \<Rightarrow> open_state \<Rightarrow> nat \<Rightarrow> extent list list \<Rightarrow> string option \<Rightarrow> open_state \<Rightarrow> bool"
where
  "opened_chain sys os n imgs rest os' \<longleftrightarrow>
     os_image_size os' = Some (n * SECTOR_SIZE) \<and> open_inv n os' \<and>
     (\<forall>z. os_image_size os = Some z \<longrightarrow> os_image_size os' = Some z) \<and>
     image_chain sys (os_url os) (os_idx os) (os_slots os) imgs rest (os_slots os') \<and>
     (\<forall>exs \<in> set imgs. image_sectors exs = n) \<and>
     (\<exists>k. os_extents os' = os_extents os @ take k (concat imgs) \<and>
        (os_uncovered os' = [] \<or> rest = None \<and> length (concat imgs) \<le> k))"

lemma opened_chain_last:
  assumes "turn_ok sys os (Ok (Inr os'))"
  shows "\<exists>n imgs rest. opened_chain sys os n imgs rest os'"
proof -
  obtain exs parent k where t: "handle_image sys (os_url os) (os_idx os) (os_slots os) =
      Ok (exs, parent, os_slots os')" "os_extents os' = os_extents os @ take k exs"
    "os_uncovered os' = [] \<or> parent = None \<and> length exs \<le> k" "turn_keeps os exs os'"
    "open_inv (image_sectors exs) os'"
    using assms by (auto simp: turn_ok_def)
  then have "opened_chain sys os (image_sectors exs) [exs] parent os'"
    by (auto simp: opened_chain_def turn_keeps_def intro: chain_last)
  then show ?thesis by blast
qed

lemma opened_chain_more:
  assumes "turn_ok sys os (Ok (Inl os1))" "opened_chain sys os1 n imgs rest os'"
  shows "\<exists>imgs'. opened_chain sys os n imgs' rest os'"
proof -
  obtain exs where t: "handle_image sys (os_url os) (os_idx os) (os_slots os) =
      Ok (exs, Some (os_url os1), os_slots os1)"
    "os_idx os1 = os_idx os + 1 + length (filter has_file exs)"
    "os_extents os1 = os_extents os @ exs" "turn_keeps os exs os1"
    using assms(1) by (auto simp: turn_ok_def)
  note c = assms(2) [unfolded opened_chain_def]
  have ch: "image_chain sys (os_url os) (os_idx os) (os_slots os) (exs # imgs) rest (os_slots os')"
    using chain_more [OF t(1)] c t(2) by simp
  have n: "image_sectors exs = n" using c t(4) by (auto simp: turn_keeps_def SECTOR_SIZE_def)
  obtain k where k: "os_extents os' = os_extents os1 @ take k (concat imgs)"
    "os_uncovered os' = [] \<or> rest = None \<and> length (concat imgs) \<le> k"
    using c by blast
  have e: "os_extents os' = os_extents os @ take (length exs + k) (concat (exs # imgs))"
    "os_uncovered os' = [] \<or> rest = None \<and> length (concat (exs # imgs)) \<le> length exs + k"
    using k t(3) by auto
  have "opened_chain sys os n (exs # imgs) rest os'"
    unfolding opened_chain_def
    using c ch n e t(4) by (auto simp: turn_keeps_def intro: exI [of _ "length exs + k"])
  then show ?thesis by blast
qed

lemma open_loop_ends:
  assumes ho: "hash_order_ok sys" and U: "finite U" "chain_closed sys U"
    and "loop_inv os" "os_url os \<in> U"
  shows "\<exists>r. open_loop sys os = Some r \<and>
    (\<forall>os'. r = Ok os' \<longrightarrow> (\<exists>n imgs rest. opened_chain sys os n imgs rest os'))"
  using assms(4,5)
proof (induction "card (U - set (os_visited os))" arbitrary: os rule: less_induct)
  case less
  obtain r where r: "open_body sys os = Some r" "turn_ok sys os r"
    using open_body_turn [OF ho less.prems(1)] by blast
  show ?case
  proof (cases r)
    case (Ok x)
    show ?thesis
    proof (cases x)
      case (Inl os')
      then have t: "loop_inv os'" "os_visited os' = os_url os # os_visited os"
        "os_url os \<notin> set (os_visited os)"
        "\<exists>idx slots exs slots'. handle_image sys (os_url os) idx slots = Ok (exs, Some (os_url os'), slots')"
        using r(2) Ok by (auto simp: turn_ok_def)
      have "os_url os' \<in> U" using t(4) U(2) less.prems(2) unfolding chain_closed_def by blast
      moreover have "card (U - set (os_visited os')) < card (U - set (os_visited os))"
        using t(2,3) less.prems(2) U(1) by (intro psubset_card_mono) auto
      ultimately obtain r' where r': "open_loop sys os' = Some r'"
        "\<forall>os''. r' = Ok os'' \<longrightarrow> (\<exists>n imgs rest. opened_chain sys os' n imgs rest os'')"
        using less.hyps t(1) by blast
      have "\<exists>n imgs rest. opened_chain sys os n imgs rest os''" if "r' = Ok os''" for os''
        using r'(2) that opened_chain_more r(2) Ok Inl by blast
      then show ?thesis using r'(1) r(1) Ok Inl by (subst open_loop.simps) simp
    next
      case (Inr os')
      have "\<exists>n imgs rest. opened_chain sys os n imgs rest os'"
        using opened_chain_last r(2) Ok Inr by blast
      then show ?thesis using r(1) Ok Inr by (subst open_loop.simps) simp
    qed
  qed (use r in \<open>subst open_loop.simps, simp\<close>)+
qed

subsection \<open>Zero filling\<close>

text \<open>Every sector of the image is routed, to the first extent that covers it.\<close>

definition routed :: "nat \<Rightarrow> nat span_map \<Rightarrow> extent list \<Rightarrow> bool" where
  "routed n spans exs \<longleftrightarrow>
     wf_spans spans \<and> n * SECTOR_SIZE < u64_lim \<and> ends_below fst n spans \<and>
     (\<forall>s. span_val spans s = owner exs s) \<and> (\<forall>s < n. owner exs s \<noteq> None) \<and>
     (\<forall>s i. owner exs s = Some i \<longrightarrow> s < n \<and> wf_extent (exs ! i))"

lemma zero_fill_spec:
  assumes "wf_spans spans" "\<forall>s. span_val spans s = owner exs s" "\<forall>(lb, ub) \<in> set gaps. lb \<le> ub"
  shows "\<exists>spans' exs'. zero_fill gaps spans exs = Some (spans', exs @ exs') \<and> wf_spans spans' \<and>
    (\<forall>s. span_val spans' s = owner (exs @ exs') s) \<and>
    exs' = map (\<lambda>(lb, ub). \<lparr>ex_start_sector = lb, ex_sectors = ub - lb, ex_storage = Zero\<rparr>) gaps"
  using assms
proof (induction gaps arbitrary: spans exs)
  case (Cons g gaps)
  obtain lb ub where g: "g = (lb, ub)" by (cases g)
  have le: "lb \<le> ub" using Cons.prems(3) g by auto
  let ?z = "\<lparr>ex_start_sector = lb, ex_sectors = ub - lb, ex_storage = Zero\<rparr>"
  obtain s1 where s1: "insert_span lb ub (length exs) spans = Some s1" "wf_spans s1"
    "\<And>x. span_val s1 x = (case span_val spans x of Some v \<Rightarrow> Some v
        | None \<Rightarrow> if lb \<le> x \<and> x < ub then Some (length exs) else None)"
    using insert_span_vals [OF Cons.prems(1) le] by blast
  have z: "extent_covers ?z x \<longleftrightarrow> lb \<le> x \<and> x < ub" for x by (auto simp: extent_covers_def)
  have "\<forall>x. span_val s1 x = owner (exs @ [?z]) x"
    using s1(3) Cons.prems(2) z by (simp add: first_cover_append split: option.split)
  from Cons.IH [OF s1(2) this] Cons.prems(3) show ?case
    using s1(1) g le by auto
qed simp

lemma zero_fill_below:
  assumes "zero_fill gaps spans exs = Some (spans', exs')" "ends_below fst n spans" "ends_below id n gaps"
  shows "ends_below fst n spans'"
  using assms
proof (induction gaps arbitrary: spans exs)
  case (Cons g gaps)
  obtain lb ub where g: "g = (lb, ub)" by (cases g)
  then show ?case
    using Cons insert_span_below [of lb ub "length exs" spans _ n]
    by (fastforce simp: bind_eq_Some_conv ends_below_def)
qed simp

lemma owner_None_iff: "first_cover k exs s = None \<longleftrightarrow> (\<forall>ex \<in> set exs. \<not> extent_covers ex s)"
  by (induction exs arbitrary: k) auto

lemma gap_extent:
  assumes "open_inv n os" "(lb, ub) \<in> set (os_uncovered os)"
  shows "lb \<le> ub" "lb \<le> s \<Longrightarrow> s < ub \<Longrightarrow> in_gap (os_uncovered os) s"
    "lb < ub \<Longrightarrow> ub \<le> n"
proof -
  note I = assms(1) [unfolded open_inv_def]
  have l: "bt_lookup (os_uncovered os) lb = Some ub"
    using I assms(2) by (auto simp: wf_gaps_def bt_lookup_in_set)
  then show "lb \<le> ub" using I ordered_spansD(1) [of id] by (fastforce simp: wf_gaps_def)
  have g: "in_gap (os_uncovered os) s" if "lb \<le> s" "s < ub" for s
    using I l that in_gap_gapped unfolding gapped_def by blast
  then show "lb \<le> s \<Longrightarrow> s < ub \<Longrightarrow> in_gap (os_uncovered os) s" .
  assume "lb < ub"
  then have "in_gap (os_uncovered os) (ub - 1)" using g [of "ub - 1"] by simp
  then have "ub - 1 < n" using I by blast
  then show "ub \<le> n" by simp
qed

lemma open_finish_routed:
  assumes inv: "open_inv n os" and sz: "os_image_size os = Some (n * SECTOR_SIZE)"
  shows "\<exists>spans exs'. open_finish os =
      Some \<lparr>vr_image_size = n * SECTOR_SIZE, vr_spans = byte_spans spans,
        vr_extents = os_extents os @ exs', vr_slots = os_slots os\<rparr> \<and>
    routed n spans (os_extents os @ exs') \<and> (\<forall>ex \<in> set exs'. ex_storage ex = Zero)"
proof -
  note I = inv [unfolded open_inv_def]
  let ?z = "\<lambda>(lb, ub). \<lparr>ex_start_sector = lb, ex_sectors = ub - lb, ex_storage = Zero\<rparr>"
  define exs' where "exs' = map ?z (os_uncovered os)"
  obtain spans where z: "zero_fill (os_uncovered os) (os_spans os) (os_extents os) =
      Some (spans, os_extents os @ exs')" "wf_spans spans"
    "\<forall>s. span_val spans s = owner (os_extents os @ exs') s"
    using zero_fill_spec [of "os_spans os" "os_extents os" "os_uncovered os"] I gap_extent(1) [OF inv]
    unfolding exs'_def by blast
  have zc: "extent_covers (?z g) s \<longleftrightarrow> fst g \<le> s \<and> s < snd g" if "g \<in> set (os_uncovered os)" for g s
    using gap_extent(1) [OF inv] that by (cases g) (auto simp: extent_covers_def)
  have all: "owner (os_extents os @ exs') s \<noteq> None" if "s < n" for s
  proof (cases "owner (os_extents os) s")
    case None
    then have "gapped (bt_lookup (os_uncovered os)) s" using I that in_gap_gapped by blast
    then obtain b e where "(b, e) \<in> set (os_uncovered os)" "b \<le> s" "s < e"
      unfolding gapped_def by (metis map_of_SomeD)
    then have "?z (b, e) \<in> set exs'" "extent_covers (?z (b, e)) s"
      using zc [of "(b, e)" s] by (auto simp: exs'_def)
    then show ?thesis unfolding owner_None_iff by auto
  next
    case (Some i)
    then show ?thesis using owner_None_iff [of 0] by (metis UnCI not_None_eq set_append)
  qed
  have own: "s < n \<and> wf_extent ((os_extents os @ exs') ! i)"
    if o: "owner (os_extents os @ exs') s = Some i" for s i
  proof -
    let ?ex = "(os_extents os @ exs') ! i"
    have c: "?ex \<in> set (os_extents os @ exs')" "extent_covers ?ex s"
      using owner_Some [OF o] nth_mem [of i "os_extents os @ exs'"] by blast+
    show ?thesis
    proof (cases "?ex \<in> set (os_extents os)")
      case True
      then show ?thesis using I c(2) by (auto simp: extent_covers_def)
    next
      case False
      then obtain lb ub where g: "(lb, ub) \<in> set (os_uncovered os)" "?ex = ?z (lb, ub)"
        using c(1) unfolding exs'_def by auto
      then have "lb \<le> s" "s < ub" "ub \<le> n"
        using zc [OF g(1), of s] c(2) gap_extent(3) [OF inv g(1)] by auto
      moreover have "ub * SECTOR_SIZE < u64_lim"
        using I \<open>ub \<le> n\<close> by (meson le_less_trans mult_le_mono1)
      ultimately show ?thesis using g by (simp add: wf_extent_def)
    qed
  qed
  have "open_finish os = Some \<lparr>vr_image_size = n * SECTOR_SIZE, vr_spans = byte_spans spans,
      vr_extents = os_extents os @ exs', vr_slots = os_slots os\<rparr>"
    using z(1) sz by (simp add: open_finish_def)
  moreover have "routed n spans (os_extents os @ exs')"
    using z(2,3) zero_fill_below [OF z(1), of n] I all own unfolding routed_def by blast
  moreover have "\<forall>ex \<in> set exs'. ex_storage ex = Zero" by (auto simp: exs'_def)
  ultimately show ?thesis by blast
qed

subsection \<open>Reading routed sectors\<close>

definition image_byte ::
    "byteorder \<Rightarrow> 'd inflater \<Rightarrow> cache \<Rightarrow> (nat \<Rightarrow> bytes) \<Rightarrow> extent list \<Rightarrow> nat \<Rightarrow> u8 option" where
  "image_byte bo infl c files exs off =
     Option.bind (owner exs (off div SECTOR_SIZE)) (\<lambda>i.
       storage_byte bo infl c files (ex_storage (exs ! i)) off)"

definition span_at :: "nat span_map \<Rightarrow> nat \<Rightarrow> nat \<Rightarrow> bool" where
  "span_at spans off i \<longleftrightarrow>
     i < length spans \<and> fst (spans ! i) * SECTOR_SIZE \<le> off \<and>
     off < fst (snd (spans ! i)) * SECTOR_SIZE"

lemma sector_of: "b * SECTOR_SIZE \<le> off \<longleftrightarrow> b \<le> off div SECTOR_SIZE"
    "off < e * SECTOR_SIZE \<longleftrightarrow> off div SECTOR_SIZE < e"
  by (simp_all add: SECTOR_SIZE_def less_eq_div_iff_mult_less_eq div_less_iff_less_mult)

lemma spans_nth:
  assumes "wf_spans spans" "i < length spans"
  shows "bt_lookup spans (fst (spans ! i)) = Some (snd (spans ! i))"
    "fst (spans ! i) \<le> fst (snd (spans ! i))"
    "i < j \<Longrightarrow> j < length spans \<Longrightarrow>
       fst (spans ! i) < fst (spans ! j) \<and> fst (snd (spans ! i)) \<le> fst (spans ! j)"
proof -
  have inv: "bt_inv spans" and ord: "ordered_spans fst (bt_lookup spans)"
    using assms(1) by (auto simp: wf_spans_def)
  have l: "bt_lookup spans (fst (spans ! k)) = Some (snd (spans ! k))" if "k < length spans" for k
    using that inv by (simp add: bt_lookup_in_set)
  show "bt_lookup spans (fst (spans ! i)) = Some (snd (spans ! i))" using l assms(2) .
  show "fst (spans ! i) \<le> fst (snd (spans ! i))" using ordered_spansD(1) [OF ord l [OF assms(2)]] .
  assume j: "i < j" "j < length spans"
  then have "fst (spans ! i) < fst (spans ! j)"
    using inv sorted_wrt_nth_less [of "(<)" "map fst spans" i j] by (simp add: bt_inv_def)
  then show "fst (spans ! i) < fst (spans ! j) \<and> fst (snd (spans ! i)) \<le> fst (spans ! j)"
    using ordered_spansD(2) [OF ord l [OF assms(2)]] l [OF j(2)] by blast
qed

lemma span_at_owner:
  assumes r: "routed n spans exs" and "i < length spans"
    and "fst (spans ! i) \<le> s" "s < fst (snd (spans ! i))"
  shows "owner exs s = Some (snd (snd (spans ! i)))"
proof -
  have w: "wf_spans spans" using r by (simp add: routed_def)
  have "covers fst (bt_lookup spans) s (fst (snd (spans ! i)), snd (snd (spans ! i)))"
    using spans_nth(1) [OF w assms(2)] assms(3,4) by (auto simp: covers_def)
  then have "span_val spans s = Some (snd (snd (spans ! i)))" using span_val_iff [OF w] by blast
  then show ?thesis using r by (simp add: routed_def)
qed

lemma span_at_exists:
  assumes r: "routed n spans exs" and "off < n * SECTOR_SIZE"
  shows "\<exists>i. span_at spans off i"
proof -
  have w: "wf_spans spans" using r by (simp add: routed_def)
  have "off div SECTOR_SIZE < n" using assms(2) sector_of by blast
  then obtain x where "span_val spans (off div SECTOR_SIZE) = Some x"
    using r by (auto simp: routed_def)
  then obtain e b where "bt_lookup spans b = Some (e, x)" "b \<le> off div SECTOR_SIZE"
    "off div SECTOR_SIZE < e"
    using span_val_iff [OF w] by (auto simp: covers_def)
  moreover from this(1) obtain i where "i < length spans" "spans ! i = (b, e, x)"
    by (metis in_set_conv_nth map_of_SomeD)
  ultimately show ?thesis by (auto simp: span_at_def sector_of intro!: exI [of _ i])
qed

text \<open>The span behind one that ends at a sector of the image begins right there.\<close>

lemma span_at_next:
  assumes r: "routed n spans exs" and i: "i < length spans"
    and e: "off = fst (snd (spans ! i)) * SECTOR_SIZE" "off < n * SECTOR_SIZE"
    and b: "fst (spans ! i) < fst (snd (spans ! i))"
  shows "span_at spans off (Suc i)"
proof -
  have w: "wf_spans spans" using r by (simp add: routed_def)
  obtain j where j: "span_at spans off j" using span_at_exists [OF r e(2)] by blast
  have js: "j < length spans" "fst (spans ! j) \<le> fst (snd (spans ! i))"
    "fst (snd (spans ! i)) < fst (snd (spans ! j))"
    using j e(1) by (auto simp: span_at_def SECTOR_SIZE_def)
  have "\<not> j \<le> i"
    using spans_nth(3) [OF w js(1), of i] i js(3) b by (cases "j = i") auto
  then have ji: "Suc i \<le> j" by simp
  have "j = Suc i"
  proof (rule ccontr)
    assume "j \<noteq> Suc i"
    then have lt: "Suc i < j" using ji by simp
    then have "fst (spans ! Suc i) < fst (spans ! j)" "fst (snd (spans ! i)) \<le> fst (spans ! Suc i)"
      using spans_nth(3) [OF w, of "Suc i" j] spans_nth(3) [OF w i, of "Suc i"] js(1) by auto
    then show False using js(2) by simp
  qed
  then show ?thesis using j by simp
qed

lemma byte_spans_exact:
  assumes "routed n spans exs"
  shows "byte_spans spans = map (\<lambda>p. (fst p * SECTOR_SIZE, fst (snd p) * SECTOR_SIZE, snd (snd p))) spans"
proof -
  have w: "wf_spans spans" using assms by (simp add: routed_def)
  have "u64_mul (fst p) SECTOR_SIZE = fst p * SECTOR_SIZE"
    "u64_mul (fst (snd p)) SECTOR_SIZE = fst (snd p) * SECTOR_SIZE" if p: "p \<in> set spans" for p
  proof -
    obtain i where i: "i < length spans" "p = spans ! i" using p by (metis in_set_conv_nth)
    have "fst (snd p) \<le> n" using assms p by (auto simp: routed_def ends_below_def)
    moreover have "fst p \<le> fst (snd p)" using spans_nth(2) [OF w i(1)] i(2) by simp
    ultimately show "u64_mul (fst p) SECTOR_SIZE = fst p * SECTOR_SIZE"
      "u64_mul (fst (snd p)) SECTOR_SIZE = fst (snd p) * SECTOR_SIZE"
      using assms by (auto simp: routed_def SECTOR_SIZE_def)
  qed
  then show ?thesis by (auto simp: byte_spans_def)
qed

text \<open>A reader as \<open>open\<close> leaves it, over storages that the cache serves from \<open>files\<close>.\<close>

definition wf_reader :: "cache \<Rightarrow> (nat \<Rightarrow> bytes) \<Rightarrow> nat \<Rightarrow> nat span_map \<Rightarrow> vmdk_reader \<Rightarrow> bool" where
  "wf_reader c files n spans rd \<longleftrightarrow>
     vr_image_size rd = n * SECTOR_SIZE \<and> vr_spans rd = byte_spans spans \<and>
     routed n spans (vr_extents rd) \<and>
     (\<forall>ex \<in> set (vr_extents rd). wf_storage c files (n * SECTOR_SIZE) (ex_storage ex))"

lemma owner_storage:
  assumes "routed n spans exs" "owner exs (off div SECTOR_SIZE) = Some x"
  shows "x < length exs" "storage_start (ex_storage (exs ! x)) \<le> off"
proof -
  have c: "x < length exs" "extent_covers (exs ! x) (off div SECTOR_SIZE)"
    using owner_Some [OF assms(2)] by auto
  then show "x < length exs" by simp
  have w: "storage_fits (ex_start_sector (exs ! x)) (ex_storage (exs ! x))"
    using assms by (auto simp: routed_def wf_extent_def)
  have "ex_start_sector (exs ! x) * SECTOR_SIZE \<le> off"
    using c(2) by (auto simp: extent_covers_def sector_of)
  then show "storage_start (ex_storage (exs ! x)) \<le> off"
    using w by (cases "ex_storage (exs ! x)") auto
qed

lemma read_step_spec:
  fixes bo :: byteorder and infl :: "'d inflater"
  assumes wf: "wf_reader c files n spans rd" and at: "span_at spans off i"
    and e: "off < end" "end \<le> n * SECTOR_SIZE"
  defines "f \<equiv> image_byte bo infl c files (vr_extents rd)"
  shows "(\<exists>bs i'. read_step bo infl c rd off end i = Ok (bs, off + length bs, i') \<and>
      bs \<noteq> [] \<and> off + length bs \<le> end \<and> (\<forall>k < length bs. f (off + k) = Some (bs ! k)) \<and>
      (off + length bs < end \<longrightarrow> span_at spans (off + length bs) i')) \<or>
    \<not> is_ok (read_step bo infl c rd off end i) \<and> (\<exists>k < end - off. f (off + k) = None)"
proof -
  have r: "routed n spans (vr_extents rd)" and sp: "vr_spans rd = byte_spans spans"
    using wf by (auto simp: wf_reader_def)
  obtain lb ub x where s: "spans ! i = (lb, ub, x)" by (cases "spans ! i")
  have i: "i < length spans" "lb * SECTOR_SIZE \<le> off" "off < ub * SECTOR_SIZE"
    using at s by (auto simp: span_at_def)
  have own: "owner (vr_extents rd) (o' div SECTOR_SIZE) = Some x"
    if "off \<le> o'" "o' < ub * SECTOR_SIZE" for o'
    using span_at_owner [OF r i(1), of "o' div SECTOR_SIZE"] s that i(2) sector_of(1) [of lb o']
      sector_of(2) [of o' ub] by auto
  define ex where "ex = vr_extents rd ! x"
  define m where "m = min (ub * SECTOR_SIZE - off) (end - off)"
  have x: "x < length (vr_extents rd)" "storage_start (ex_storage ex) \<le> off"
    using owner_storage [OF r own [of off]] i(3) by (auto simp: ex_def)
  have ws: "wf_storage c files (n * SECTOR_SIZE) (ex_storage ex)"
    using wf x(1) by (simp add: wf_reader_def ex_def)
  have lim: "n * SECTOR_SIZE < u64_lim" using r by (simp add: routed_def)
  have m: "0 < m" "off + m \<le> n * SECTOR_SIZE" "m \<le> end - off" "off + m \<le> ub * SECTOR_SIZE"
    using i e by (auto simp: m_def)
  have fs: "f (off + k) = storage_byte bo infl c files (ex_storage ex) (off + k)" if "k < m" for k
    using own [of "off + k"] that m(4) by (simp add: f_def image_byte_def ex_def)
  have rb: "reads_bytes f off m (storage_read bo infl c (ex_storage ex) off m)"
    using storage_read_bytes [OF ws m(1) x(2) m(2) lim, of bo infl] fs
    by (auto simp: reads_bytes_def)
  have ix: "index (byte_spans spans) i = Ok (lb * SECTOR_SIZE, ub * SECTOR_SIZE, x)"
    using byte_spans_exact [OF r] i(1) s by (simp add: index_def)
  have xe: "index (vr_extents rd) x = Ok ex" using x(1) by (simp add: ex_def)
  have st: "read_step bo infl c rd off end i =
      and_then (storage_read bo infl c (ex_storage ex) off m) (\<lambda>bs.
        Ok (bs, off + length bs, if ub * SECTOR_SIZE \<le> off + length bs then i + 1 else i))"
    unfolding read_step_def Let_def sp ix and_then.simps prod.case xe using i(3) by (simp add: m_def)
  show ?thesis
  proof (cases "storage_read bo infl c (ex_storage ex) off m")
    case (Ok bs)
    have b: "0 < length bs" "length bs \<le> m" "\<forall>k < length bs. f (off + k) = Some (bs ! k)"
      using rb Ok by (auto simp: reads_bytes_def)
    have "span_at spans (off + length bs) (if ub * SECTOR_SIZE \<le> off + length bs then i + 1 else i)"
      if "off + length bs < end"
    proof (cases "ub * SECTOR_SIZE \<le> off + length bs")
      case True
      then have eq: "off + length bs = ub * SECTOR_SIZE" using b(2) m(4) by simp
      have "lb < ub" using i(2,3) by (metis le_less_trans mult_less_cancel2)
      moreover have "ub * SECTOR_SIZE < n * SECTOR_SIZE" using eq that e(2) by linarith
      ultimately show ?thesis
        using span_at_next [OF r i(1), of "off + length bs"] eq s True by simp
    next
      case False
      then show ?thesis using i s by (auto simp: span_at_def)
    qed
    then show ?thesis using st Ok b m(3) e(1) by (intro disjI1) auto
  next
    case (Err er)
    then have "\<exists>k < m. f (off + k) = None" using rb by (auto simp: reads_bytes_def)
    then have "\<exists>k < end - off. f (off + k) = None" using m(3) by (meson less_le_trans)
    then show ?thesis using st Err by simp
  next
    case Panic
    then have "\<exists>k < m. f (off + k) = None" using rb by (auto simp: reads_bytes_def)
    then have "\<exists>k < end - off. f (off + k) = None" using m(3) by (meson less_le_trans)
    then show ?thesis using st Panic by simp
  qed
qed

text \<open>What a read of \<open>[off, end)\<close> may answer: the bytes of the image, or a failure when one is missing.\<close>

definition answers :: "(nat \<Rightarrow> u8 option) \<Rightarrow> nat \<Rightarrow> nat \<Rightarrow> bytes \<Rightarrow> (bytes, read_error) result \<Rightarrow> bool" where
  "answers f off end acc r \<longleftrightarrow>
     (\<exists>bs. r = Ok (acc @ bs) \<and> length bs = end - off \<and> (\<forall>k < end - off. f (off + k) = Some (bs ! k))) \<or>
     \<not> is_ok r \<and> (\<exists>k < end - off. f (off + k) = None)"

lemma answers_step:
  assumes "answers f (off + length bs) end (acc @ bs) r" "off + length bs \<le> end"
    "\<forall>k < length bs. f (off + k) = Some (bs ! k)"
  shows "answers f off end acc r"
proof (cases "is_ok r")
  case True
  then obtain bs' where b: "r = Ok ((acc @ bs) @ bs')" "length bs' = end - (off + length bs)"
    "\<forall>k < end - (off + length bs). f (off + length bs + k) = Some (bs' ! k)"
    using assms(1) by (auto simp: answers_def)
  have "f (off + k) = Some ((bs @ bs') ! k)" if "k < end - off" for k
  proof (cases "k < length bs")
    case True
    then show ?thesis using assms(3) by (simp add: nth_append)
  next
    case False
    then show ?thesis using b(3) [rule_format, of "k - length bs"] that by (simp add: nth_append)
  qed
  then show ?thesis
    using b assms(2) unfolding answers_def by (intro disjI1 exI [of _ "bs @ bs'"]) auto
next
  case False
  then obtain k where "k < end - (off + length bs)" "f (off + length bs + k) = None"
    using assms(1) by (auto simp: answers_def)
  then show ?thesis
    using False unfolding answers_def by (intro disjI2 conjI exI [of _ "length bs + k"]) (auto simp: add.assoc)
qed

lemma read_loop_answers:
  assumes wf: "wf_reader c files n spans rd" and "end \<le> n * SECTOR_SIZE" "off \<le> end"
    and "off < end \<longrightarrow> span_at spans off i"
  shows "\<exists>r. read_loop bo infl c rd end off i acc = Some r \<and>
    answers (image_byte bo infl c files (vr_extents rd)) off end acc r"
  using assms(2-4)
proof (induction "end - off" arbitrary: off i acc rule: less_induct)
  case less
  let ?f = "image_byte bo infl c files (vr_extents rd)"
  show ?case
  proof (cases "off < end")
    case False
    then show ?thesis using less.prems by (subst read_loop.simps) (auto simp: answers_def)
  next
    case True
    then have at: "span_at spans off i" using less.prems by simp
    consider bs i' where "read_step bo infl c rd off end i = Ok (bs, off + length bs, i')"
        "bs \<noteq> []" "off + length bs \<le> end" "\<forall>k < length bs. ?f (off + k) = Some (bs ! k)"
        "off + length bs < end \<longrightarrow> span_at spans (off + length bs) i'"
      | "\<not> is_ok (read_step bo infl c rd off end i)" "\<exists>k < end - off. ?f (off + k) = None"
      using read_step_spec [OF wf at True less.prems(1), of bo infl] by blast
    then show ?thesis
    proof cases
      case 1
      have "end - (off + length bs) < end - off" using 1(2) True by (cases bs) auto
      then obtain r where "read_loop bo infl c rd end (off + length bs) i' (acc @ bs) = Some r"
        "answers ?f (off + length bs) end (acc @ bs) r"
        using less.hyps [OF _ less.prems(1) 1(3,5)] by blast
      then show ?thesis
        using 1 True answers_step [OF _ 1(3,4)] by (subst read_loop.simps) auto
    next
      case 2
      then show ?thesis
        using True
        by (subst read_loop.simps)
          (cases "read_step bo infl c rd off end i"; auto simp: answers_def)
    qed
  qed
qed

subsection \<open>Properties\<close>

lemma vmdk_open_chain:
  assumes "hash_order_ok sys" "finite U" "chain_closed sys U" "url \<in> U"
  shows "\<exists>r. vmdk_open sys url = Some r \<and>
    (\<forall>rd. r = Ok rd \<longrightarrow> (\<exists>os n imgs rest. opened_chain sys (initial_state url) n imgs rest os \<and>
       open_finish os = Some rd))"
proof -
  have "loop_inv (initial_state url)" "os_url (initial_state url) = url"
    by (simp_all add: loop_inv_def initial_state_def)
  then obtain r where r: "open_loop sys (initial_state url) = Some r"
    "\<forall>os'. r = Ok os' \<longrightarrow> (\<exists>n imgs rest. opened_chain sys (initial_state url) n imgs rest os')"
    using open_loop_ends [OF assms(1-3), of "initial_state url"] assms(4) by auto
  show ?thesis
  proof (cases r)
    case (Ok os)
    then obtain n imgs rest where c: "opened_chain sys (initial_state url) n imgs rest os" using r(2) by auto
    then obtain rd where "open_finish os = Some rd"
      using open_finish_routed [of n os] by (auto simp: opened_chain_def)
    then show ?thesis using r(1) Ok c by (auto simp: vmdk_open_def)
  qed (use r(1) in \<open>simp_all add: vmdk_open_def\<close>)
qed

lemma opened_chain_finish:
  assumes "opened_chain sys os n imgs rest os'" "open_finish os' = Some rd"
  obtains spans exs' where "vr_image_size rd = n * SECTOR_SIZE" "vr_spans rd = byte_spans spans"
    "routed n spans (vr_extents rd)" "vr_extents rd = os_extents os' @ exs'"
    "\<forall>ex \<in> set exs'. ex_storage ex = Zero" "vr_slots rd = os_slots os'"
  using open_finish_routed [of n os'] assms by (auto simp: opened_chain_def)

lemma vmdk_open_routed:
  assumes "hash_order_ok sys" "finite U" "chain_closed sys U" "url \<in> U"
  shows "\<exists>r. vmdk_open sys url = Some r \<and>
    (\<forall>rd. r = Ok rd \<longrightarrow> (\<exists>n spans. vr_image_size rd = n * SECTOR_SIZE \<and>
       vr_spans rd = byte_spans spans \<and> routed n spans (vr_extents rd)))"
  using vmdk_open_chain [OF assms] by (metis opened_chain_finish)

lemma first_cover_least:
  "first_cover k exs s = Some i \<Longrightarrow> j < i - k \<Longrightarrow> \<not> extent_covers (exs ! j) s"
proof (induction exs arbitrary: k j)
  case (Cons ex exs)
  then show ?case by (cases j) (auto split: if_splits)
qed simp

lemma routed_first:
  assumes r: "routed n spans exs"
  shows "s < n \<Longrightarrow> \<exists>i < length exs. span_val spans s = Some i \<and> extent_covers (exs ! i) s \<and>
      (\<forall>j < i. \<not> extent_covers (exs ! j) s)"
    and "n \<le> s \<Longrightarrow> span_val spans s = None"
proof -
  assume "s < n"
  then obtain i where "owner exs s = Some i" using r by (auto simp: routed_def)
  then show "\<exists>i < length exs. span_val spans s = Some i \<and> extent_covers (exs ! i) s \<and>
      (\<forall>j < i. \<not> extent_covers (exs ! j) s)"
    using owner_Some first_cover_least [of 0 exs s i] r by (intro exI [of _ i]) (auto simp: routed_def)
next
  assume "n \<le> s"
  then have "owner exs s = None" using r unfolding routed_def by (metis leD option.exhaust)
  then show "span_val spans s = None" using r by (simp add: routed_def)
qed

lemma find_owner:
  "find (\<lambda>ex. extent_covers ex s) exs = map_option ((!) exs) (owner exs s)"
proof -
  have "find (\<lambda>ex. extent_covers ex s) exs = map_option (\<lambda>i. exs ! (i - k)) (first_cover k exs s)" for k
  proof (induction exs arbitrary: k)
    case (Cons ex exs)
    have "i - k = Suc (i - Suc k)" if "first_cover (Suc k) exs s = Some i" for i
      using first_cover_Some [OF that] by (simp add: Suc_diff_Suc Suc_le_eq)
    then show ?case using Cons [of "Suc k"] by (auto simp: option.map_comp intro!: map_option_cong)
  qed simp
  from this [of 0] show ?thesis by (simp add: comp_def)
qed

lemma find_append: "find P (xs @ ys) = (case find P xs of Some x \<Rightarrow> Some x | None \<Rightarrow> find P ys)"
  by (induction xs) auto

text \<open>Where a sector of the chain goes: to its first extent in chain order, to zeros without one.\<close>

lemma opened_chain_routes:
  assumes c: "opened_chain sys (initial_state url) n imgs rest os" and f: "open_finish os = Some rd"
    and s: "s < n" and i: "owner (vr_extents rd) s = Some i"
  shows "case find (\<lambda>ex. extent_covers ex s) (concat imgs) of
      Some ex \<Rightarrow> vr_extents rd ! i = ex | None \<Rightarrow> rest = None \<and> ex_storage (vr_extents rd ! i) = Zero"
proof -
  let ?P = "\<lambda>ex. extent_covers ex s"
  obtain exs' where rd: "vr_extents rd = os_extents os @ exs'" "\<forall>ex \<in> set exs'. ex_storage ex = Zero"
    using opened_chain_finish [OF c f] by metis
  obtain k where k: "os_extents os = take k (concat imgs)"
    "os_uncovered os = [] \<or> rest = None \<and> length (concat imgs) \<le> k"
    using c by (auto simp: opened_chain_def initial_state_def)
  have f: "find ?P (os_extents os @ exs') = Some (vr_extents rd ! i)"
    using i rd(1) by (simp add: find_owner)
  show ?thesis
  proof (cases "find ?P (os_extents os)")
    case (Some ex)
    then have "find ?P (concat imgs) = Some ex"
      using k(1) find_append [of ?P "take k (concat imgs)" "drop k (concat imgs)"] by simp
    then show ?thesis using f Some by (simp add: find_append)
  next
    case None
    then have "owner (os_extents os) s = None" by (simp add: find_owner)
    then have "in_gap (os_uncovered os) s" using c s by (auto simp: opened_chain_def open_inv_def)
    then have "os_uncovered os \<noteq> []" by (auto simp: in_gap_def bt_last_le_def)
    then have "rest = None" "os_extents os = concat imgs" using k by auto
    moreover have "find ?P exs' = Some (vr_extents rd ! i)" using f None by (simp add: find_append)
    then have "vr_extents rd ! i \<in> set exs'" by (metis find_Some_iff nth_mem)
    ultimately show ?thesis using None rd(2) by simp
  qed
qed

text \<open>
  C1: Opening an image whose parent chain stays inside a finite set of URLs always returns (a chain that
  comes back to an image is an error, not a loop).  When it succeeds, it has followed the chain of
  images from the URL it was given: images of one size, up to the one that names no parent, or up to
  one with which every sector is covered.  Every sector below the image size is routed to the first
  extent of that chain that has data for it, to an extent of zeros when no image of the whole chain
  has, and no sector at or beyond the size is routed.
\<close>

theorem vmdk_open_total_and_routed:
  assumes "hash_order_ok sys" "finite U" "chain_closed sys U" "url \<in> U"
  shows "\<exists>r. vmdk_open sys url = Some r \<and>
    (\<forall>rd. r = Ok rd \<longrightarrow> (\<exists>n spans imgs rest. vr_image_size rd = n * SECTOR_SIZE \<and>
       vr_spans rd = byte_spans spans \<and> wf_spans spans \<and>
       image_chain sys url 0 [] imgs rest (vr_slots rd) \<and>
       (\<forall>exs \<in> set imgs. sum_list (map ex_sectors exs) = n) \<and>
       (\<forall>s < n. \<exists>i < length (vr_extents rd). span_val spans s = Some i \<and>
          extent_covers (vr_extents rd ! i) s \<and>
          (\<forall>j < i. \<not> extent_covers (vr_extents rd ! j) s) \<and>
          (case find (\<lambda>ex. extent_covers ex s) (concat imgs) of
             Some ex \<Rightarrow> vr_extents rd ! i = ex
           | None \<Rightarrow> rest = None \<and> ex_storage (vr_extents rd ! i) = Zero)) \<and>
       (\<forall>s \<ge> n. span_val spans s = None)))"
proof -
  obtain r where r: "vmdk_open sys url = Some r"
    "\<And>rd. r = Ok rd \<Longrightarrow> \<exists>os n imgs rest. opened_chain sys (initial_state url) n imgs rest os \<and>
       open_finish os = Some rd"
    using vmdk_open_chain [OF assms] by blast
  show ?thesis
  proof (intro exI [of _ r] conjI allI impI r(1))
    fix rd assume "r = Ok rd"
    then obtain os n imgs rest where c: "opened_chain sys (initial_state url) n imgs rest os"
      "open_finish os = Some rd" using r(2) by blast
    then obtain spans where rd: "vr_image_size rd = n * SECTOR_SIZE" "vr_spans rd = byte_spans spans"
      "routed n spans (vr_extents rd)" "vr_slots rd = os_slots os"
      using opened_chain_finish by metis
    have own: "span_val spans s = owner (vr_extents rd) s" for s using rd(3) by (simp add: routed_def)
    note route = opened_chain_routes [OF c] routed_first [OF rd(3)]
    show "\<exists>n spans imgs rest. vr_image_size rd = n * SECTOR_SIZE \<and>
       vr_spans rd = byte_spans spans \<and> wf_spans spans \<and>
       image_chain sys url 0 [] imgs rest (vr_slots rd) \<and>
       (\<forall>exs \<in> set imgs. sum_list (map ex_sectors exs) = n) \<and>
       (\<forall>s < n. \<exists>i < length (vr_extents rd). span_val spans s = Some i \<and>
          extent_covers (vr_extents rd ! i) s \<and>
          (\<forall>j < i. \<not> extent_covers (vr_extents rd ! j) s) \<and>
          (case find (\<lambda>ex. extent_covers ex s) (concat imgs) of
             Some ex \<Rightarrow> vr_extents rd ! i = ex
           | None \<Rightarrow> rest = None \<and> ex_storage (vr_extents rd ! i) = Zero)) \<and>
       (\<forall>s \<ge> n. span_val spans s = None)"
      using rd c(1) route own
      by (intro exI [of _ n] exI [of _ spans] exI [of _ imgs] exI [of _ rest])
        (fastforce simp: opened_chain_def initial_state_def routed_def)
  qed
qed

lemma binary_search_span:
  assumes r: "routed n spans exs" and "off < n * SECTOR_SIZE" and at: "span_at spans off i"
  shows "binary_search (map fst (byte_spans spans)) off =
    (if fst (spans ! i) * SECTOR_SIZE = off then Found i else Insert (Suc i))"
proof -
  have w: "wf_spans spans" using r by (simp add: routed_def)
  let ?ks = "map fst (byte_spans spans)"
  have ks: "?ks = map (\<lambda>p. fst p * SECTOR_SIZE) spans" by (simp add: byte_spans_exact [OF r] comp_def)
  have i: "i < length spans" "fst (spans ! i) * SECTOR_SIZE \<le> off"
    "off < fst (snd (spans ! i)) * SECTOR_SIZE"
    using at by (auto simp: span_at_def)
  have lt: "fst (spans ! j) * SECTOR_SIZE < off" if "j < i" for j
  proof -
    have "fst (spans ! j) < fst (spans ! i)" using spans_nth(3) [OF w _ that i(1)] that i(1) by simp
    then show ?thesis using i(2) by (simp add: SECTOR_SIZE_def)
  qed
  have gt: "off < fst (spans ! j) * SECTOR_SIZE" if "i < j" "j < length spans" for j
  proof -
    have "fst (snd (spans ! i)) \<le> fst (spans ! j)" using spans_nth(3) [OF w i(1) that] by simp
    then show ?thesis using i(3) by (simp add: SECTOR_SIZE_def)
  qed
  show ?thesis
    using binary_search_at [of i ?ks off] i(1,2) lt gt by (simp add: ks)
qed

lemma byte_spans_first:
  assumes r: "routed n spans exs" and n: "0 < n"
  shows "spans \<noteq> []" "fst (spans ! 0) = 0"
proof -
  obtain i where i: "span_at spans 0 i"
    using span_at_exists [OF r, of 0] n by (auto simp: SECTOR_SIZE_def)
  then show "spans \<noteq> []" by (auto simp: span_at_def)
  have w: "wf_spans spans" using r by (simp add: routed_def)
  have "fst (spans ! i) = 0" "i < length spans" using i by (auto simp: span_at_def SECTOR_SIZE_def)
  then show "fst (spans ! 0) = 0"
    using spans_nth(3) [OF w, of 0 i] by (cases "i = 0") (auto dest: gr_implies_not0)
qed

lemma binary_search_end:
  assumes r: "routed n spans exs" and n: "0 < n" and "k \<noteq> 0"
  shows "binary_search (map fst (byte_spans spans)) k \<noteq> Insert 0"
proof -
  have "map fst (byte_spans spans) \<noteq> []" "hd (map fst (byte_spans spans)) = 0"
    using byte_spans_first [OF r n] byte_spans_exact [OF r] by (simp_all add: hd_conv_nth)
  then have "takeWhile (\<lambda>x. x < k) (map fst (byte_spans spans)) \<noteq> []"
    using assms(3) by (cases "map fst (byte_spans spans)") auto
  then show ?thesis by (auto simp: binary_search_def Let_def)
qed

lemma vmdk_read_answers:
  assumes wf: "wf_reader c files n spans rd" and n: "0 < n" and off: "off \<le> n * SECTOR_SIZE"
    and len: "off + len < u64_lim"
  shows "\<exists>r. vmdk_read_at_offset bo infl c rd off len = Some r \<and>
    answers (image_byte bo infl c files (vr_extents rd)) off (min (off + len) (n * SECTOR_SIZE)) [] r"
proof -
  let ?stop = "min (off + len) (n * SECTOR_SIZE)"
  have r: "routed n spans (vr_extents rd)" and sz: "vr_image_size rd = n * SECTOR_SIZE"
    and sp: "vr_spans rd = byte_spans spans" and lim: "n * SECTOR_SIZE < u64_lim"
    using wf by (auto simp: wf_reader_def routed_def)
  have rd: "vmdk_read_at_offset bo infl c rd off len =
      (case binary_search (map fst (byte_spans spans)) off of
         Found i \<Rightarrow> read_loop bo infl c rd ?stop off i []
       | Insert i \<Rightarrow> if i = 0 then Some (Err (OffsetNotFound off))
           else read_loop bo infl c rd ?stop off (i - 1) [])"
  proof -
    have e: "u64_add off (if u64_add off len > vr_image_size rd then vr_image_size rd - off else len) =
        ?stop"
      using off len lim sz by (auto simp: min_def)
    show ?thesis
      unfolding vmdk_read_at_offset_def Let_def e sp using off sz by simp
  qed
  note loop = read_loop_answers [OF wf, of ?stop off _ bo infl "[]"]
  show ?thesis
  proof (cases "off < n * SECTOR_SIZE")
    case True
    obtain i where i: "span_at spans off i" using span_at_exists [OF r True] by blast
    have "vmdk_read_at_offset bo infl c rd off len = read_loop bo infl c rd ?stop off i []"
      unfolding rd binary_search_span [OF r True i] by simp
    then show ?thesis using loop [of i] i off by simp
  next
    case False
    then have e: "off = n * SECTOR_SIZE" "off \<noteq> 0" using off n by (auto simp: SECTOR_SIZE_def)
    have "\<exists>i. vmdk_read_at_offset bo infl c rd off len = read_loop bo infl c rd ?stop off i []"
      unfolding rd using binary_search_end [OF r n e(2)] by (auto split: search.splits)
    then show ?thesis using loop e by auto
  qed
qed

text \<open>
  C7: A read at an offset up to the image size returns in finite time.  It gives as many bytes as were
  asked for, cut at the end of the image, and every byte is the one the owning extent of its sector
  holds; it fails only when one of these bytes cannot be had (a truncated file, a corrupt grain).
  A read beyond the end is an error.
\<close>

theorem vmdk_read_exact:
  assumes "wf_reader c files n spans rd" "0 < n" "off + len < u64_lim"
  shows "if off > vr_image_size rd
      then vmdk_read_at_offset bo infl c rd off len = Some (Err (OffsetBeyondEnd off (vr_image_size rd)))
      else \<exists>r. vmdk_read_at_offset bo infl c rd off len = Some r \<and>
        (let k = min len (vr_image_size rd - off); f = image_byte bo infl c files (vr_extents rd)
         in (\<exists>bs. r = Ok bs \<and> length bs = k \<and> (\<forall>i < k. f (off + i) = Some (bs ! i))) \<or>
            \<not> is_ok r \<and> (\<exists>i < k. f (off + i) = None))"
proof (cases "off > vr_image_size rd")
  case True
  then show ?thesis by (simp add: vmdk_read_at_offset_def)
next
  case False
  have sz: "vr_image_size rd = n * SECTOR_SIZE" using assms(1) by (simp add: wf_reader_def)
  then have k: "min (off + len) (n * SECTOR_SIZE) - off = min len (vr_image_size rd - off)"
    using False by simp
  show ?thesis
    using vmdk_read_answers [OF assms(1,2) _ assms(3), of bo infl] False sz
    unfolding answers_def k Let_def by simp
qed

subsection \<open>A concrete image\<close>

text \<open>A descriptor file with one ZERO extent of four sectors, at the only URL there is.\<close>

definition sample_sys :: vmdk_sys where
  "sample_sys = \<lparr>sys_byteorder = std_byteorder, sys_join = (\<lambda>u f. Some ''a''),
     sys_source_for_url = (\<lambda>u. Ok (mem_source sample_descriptor)), sys_cache = direct_cache,
     sys_hash_order = id\<rparr>"

lemma handle_image_parent:
  assumes "handle_image sys u idx slots = Ok (exs, Some p, slots')"
  shows "\<exists>q. sys_join sys u q = Some p"
  using assms
  by (auto simp: handle_image_def Let_def and_then_Ok_iff case_prod_beta split: option.splits)

lemma sample_sys_opens:
  "case vmdk_open sample_sys ''a'' of Some (Ok rd) \<Rightarrow> vr_image_size rd = 2048 | _ \<Rightarrow> False"
  by code_simp

theorem vmdk_open_total_and_routed_witness:
  "\<exists>rd spans. vmdk_open sample_sys ''a'' = Some (Ok rd) \<and> vr_image_size rd = 2048 \<and>
     vr_spans rd = byte_spans spans \<and> (\<forall>s < 4. span_val spans s \<noteq> None) \<and> span_val spans 4 = None"
proof -
  obtain rd where rd: "vmdk_open sample_sys ''a'' = Some (Ok rd)" "vr_image_size rd = 2048"
    using sample_sys_opens by (auto split: option.splits result.splits)
  have "chain_closed sample_sys {''a''}"
    using handle_image_parent by (fastforce simp: chain_closed_def sample_sys_def)
  moreover have "hash_order_ok sample_sys" by (simp add: hash_order_ok_def sample_sys_def)
  ultimately obtain n spans imgs rest where "vr_image_size rd = n * SECTOR_SIZE"
    "vr_spans rd = byte_spans spans" "image_chain sample_sys ''a'' 0 [] imgs rest (vr_slots rd)"
    "\<forall>s < n. \<exists>i < length (vr_extents rd). span_val spans s = Some i \<and>
       extent_covers (vr_extents rd ! i) s \<and> (\<forall>j < i. \<not> extent_covers (vr_extents rd ! j) s) \<and>
       (case find (\<lambda>ex. extent_covers ex s) (concat imgs) of
          Some ex \<Rightarrow> vr_extents rd ! i = ex
        | None \<Rightarrow> rest = None \<and> ex_storage (vr_extents rd ! i) = Zero)"
    "\<forall>s \<ge> n. span_val spans s = None"
    using vmdk_open_total_and_routed [of sample_sys "{''a''}" "''a''"] rd(1) by clarsimp metis
  moreover from this(1) have "n = 4" using rd(2) by (simp add: SECTOR_SIZE_def)
  ultimately show ?thesis using rd by (intro exI [of _ rd] exI [of _ spans]) fastforce
qed

text \<open>A reader over one flat sector of sevens and one zero sector.\<close>

definition sample_files :: "nat \<Rightarrow> bytes" where
  "sample_files i = replicate 512 7"

definition sample_reader :: vmdk_reader where
  "sample_reader = \<lparr>vr_image_size = 1024, vr_spans = byte_spans [(0, (1, 0)), (1, (2, 1))],
     vr_extents =
       [\<lparr>ex_start_sector = 0, ex_sectors = 1, ex_storage =
           Flat \<lparr>fs_source = crs_new 0, fs_offset = 0, fs_start_sector = 0\<rparr>\<rparr>,
        \<lparr>ex_start_sector = 1, ex_sectors = 1, ex_storage = Zero\<rparr>],
     vr_slots = []\<rparr>"

lemma sample_reader_wf:
  "wf_reader (mem_cache sample_files) sample_files 2 [(0, (1, 0)), (1, (2, 1))] sample_reader"
proof -
  have "wf_spans [(0, (1, 0)), (1, (2, 1 :: nat))]"
    by (auto simp: wf_spans_def bt_inv_def ordered_spans_def split: if_splits)
  moreover have "serves (mem_cache sample_files) i (sample_files i)" for i
    by (rule mem_cache_serves) (simp add: sample_files_def u64_lim_def)
  ultimately show ?thesis
    by (auto simp: wf_reader_def routed_def sample_reader_def SECTOR_SIZE_def u64_lim_def
        ends_below_def span_val_def bt_last_le_def extent_covers_def wf_extent_def crs_new_def
        split: if_splits)
qed

theorem vmdk_read_exact_witness:
  "\<exists>bs. vmdk_read_at_offset std_byteorder stored_inflater (mem_cache sample_files) sample_reader 510 4 =
      Some (Ok bs) \<and> length bs = 4 \<and> bs ! 1 = 7 \<and> bs ! 2 = 0"
proof -
  let ?f = "image_byte std_byteorder stored_inflater (mem_cache sample_files) sample_files
      (vr_extents sample_reader)"
  have f: "?f 510 = Some 7" "?f 511 = Some 7" "?f 512 = Some 0" "?f 513 = Some 0"
    by (simp_all add: image_byte_def sample_reader_def SECTOR_SIZE_def extent_covers_def nth_byte_def
        sample_files_def)
  have k: "i < 4 \<longleftrightarrow> i = 0 \<or> i = 1 \<or> i = 2 \<or> i = (3 :: nat)" for i by auto
  show ?thesis
    using vmdk_read_exact [OF sample_reader_wf, of 510 4 std_byteorder stored_inflater] f
    by (auto simp: Let_def k sample_reader_def u64_lim_def)
qed

end
