(* ===== verification/NbdServer.thy ===== *)
theory NbdServer
  imports Nbd Rawdisk VmdkReader
begin

text \<open>
  The rest of \<open>diskimage-nbd/src\<close>: the session slots of \<open>server.rs\<close>, and of \<open>bin/diskimage-nbd.rs\<close> the
  choice of the format by the name of the image and the adapters that make a reader an \<open>NbdImage\<close>.

  Threads: the accept loop and the session threads share one atomic counter.  An attempt to get a slot
  is a value it has loaded and a number of compare-and-exchange rounds, each of which may fail
  spuriously; a session that ends gives its slot back.  The steps of all threads interleave freely
  (\<open>slot_step\<close>).  The load is relaxed: it may give any value.

  Shown: at most two slots are ever held; the adapters of the raw and VMDK readers meet the contract
  \<open>nbd_image\<close>, so a whole session answers each request with the bytes of the image.
\<close>

subsection \<open>Session slots\<close>

definition MAX_PENDING_SESSIONS :: nat where
  "MAX_PENDING_SESSIONS = 2"

record slot_state =
  sl_counter :: nat
  sl_held :: nat
  sl_attempts :: "nat list"

text \<open>One round of \<open>try_acquire\<close> at the loaded value \<open>current\<close>: give up, take the slot, or try again with
  the value observed.\<close>

datatype acquire = GiveUp | Acquired nat | Retry nat

definition acquire_round :: "nat \<Rightarrow> bool \<Rightarrow> nat \<Rightarrow> acquire" where
  "acquire_round counter spurious current =
     (if current \<ge> MAX_PENDING_SESSIONS then GiveUp
      else if counter = current \<and> \<not> spurious then Acquired (current + 1)
      else Retry counter)"

inductive slot_step :: "slot_state \<Rightarrow> slot_state \<Rightarrow> bool" where
  load: "slot_step s (s\<lparr>sl_attempts := v # sl_attempts s\<rparr>)"
| give_up: "i < length (sl_attempts s) \<Longrightarrow>
    acquire_round (sl_counter s) sp (sl_attempts s ! i) = GiveUp \<Longrightarrow>
    slot_step s (s\<lparr>sl_attempts := take i (sl_attempts s) @ drop (Suc i) (sl_attempts s)\<rparr>)"
| acquired: "i < length (sl_attempts s) \<Longrightarrow>
    acquire_round (sl_counter s) sp (sl_attempts s ! i) = Acquired c \<Longrightarrow>
    slot_step s (s\<lparr>sl_counter := c, sl_held := sl_held s + 1,
      sl_attempts := take i (sl_attempts s) @ drop (Suc i) (sl_attempts s)\<rparr>)"
| retry: "i < length (sl_attempts s) \<Longrightarrow>
    acquire_round (sl_counter s) sp (sl_attempts s ! i) = Retry v \<Longrightarrow>
    slot_step s (s\<lparr>sl_attempts := (sl_attempts s)[i := v]\<rparr>)"
| release: "0 < sl_held s \<Longrightarrow>
    slot_step s (s\<lparr>sl_counter := u64_sub (sl_counter s) 1, sl_held := sl_held s - 1\<rparr>)"

inductive_cases slot_stepE: "slot_step s s'"

definition slot_init :: slot_state where
  "slot_init = \<lparr>sl_counter = 0, sl_held = 0, sl_attempts = []\<rparr>"

definition slot_inv :: "slot_state \<Rightarrow> bool" where
  "slot_inv s \<longleftrightarrow> sl_counter s = sl_held s \<and> sl_held s \<le> MAX_PENDING_SESSIONS"

lemma acquire_round_Acquired:
  "acquire_round counter sp cur = Acquired c \<Longrightarrow> c = counter + 1 \<and> counter < MAX_PENDING_SESSIONS"
  by (auto simp: acquire_round_def split: if_splits)

lemma slot_step_inv: "slot_step s s' \<Longrightarrow> slot_inv s \<Longrightarrow> slot_inv s'"
  by (erule slot_stepE) (auto simp: slot_inv_def dest!: acquire_round_Acquired)

text \<open>C21: in every state that the accept loop and the session threads can reach, in any interleaving
  and with any spurious failures, the shared counter is the number of slots held, and at most
  \<open>MAX_PENDING_SESSIONS\<close> sessions hold one.\<close>

theorem slots_bounded:
  assumes "slot_step\<^sup>*\<^sup>* slot_init s"
  shows "sl_counter s = sl_held s \<and> sl_held s \<le> MAX_PENDING_SESSIONS"
proof -
  have "slot_inv slot_init" by (simp add: slot_inv_def slot_init_def)
  with assms have "slot_inv s" by (induction rule: rtranclp_induct) (auto intro: slot_step_inv)
  then show ?thesis by (simp add: slot_inv_def)
qed

text \<open>Two attempts that loaded the same value: one takes the slot, the other observes it and tries again.\<close>

definition slots_taken :: slot_state where
  "slots_taken = \<lparr>sl_counter = 2, sl_held = 2, sl_attempts = []\<rparr>"

lemma slots_taken_reachable: "slot_step\<^sup>*\<^sup>* slot_init slots_taken"
proof -
  let ?s = "\<lambda>c as. \<lparr>sl_counter = c, sl_held = c, sl_attempts = as\<rparr>"
  have "slot_step (?s 0 []) (?s 0 [0])" using load [of "?s 0 []" 0] by simp
  moreover have "slot_step (?s 0 [0]) (?s 0 [0, 0])" using load [of "?s 0 [0]" 0] by simp
  moreover have "slot_step (?s 0 [0, 0]) (?s 1 [0])"
    using acquired [of 0 "?s 0 [0, 0]" False 1] by (simp add: acquire_round_def MAX_PENDING_SESSIONS_def)
  moreover have "slot_step (?s 1 [0]) (?s 1 [1])"
    using retry [of 0 "?s 1 [0]" False 1] by (simp add: acquire_round_def MAX_PENDING_SESSIONS_def)
  moreover have "slot_step (?s 1 [1]) (?s 2 [])"
    using acquired [of 0 "?s 1 [1]" False 2]
    by (simp add: acquire_round_def MAX_PENDING_SESSIONS_def numeral_2_eq_2)
  ultimately show ?thesis
    unfolding slot_init_def slots_taken_def by (meson rtranclp.rtrancl_into_rtrancl rtranclp.rtrancl_refl)
qed

theorem slots_bounded_witness:
  "slot_step\<^sup>*\<^sup>* slot_init slots_taken \<and> sl_held slots_taken = MAX_PENDING_SESSIONS \<and>
   sl_counter slots_taken = sl_held slots_taken"
  using slots_bounded [OF slots_taken_reachable] slots_taken_reachable
  by (simp add: slots_taken_def MAX_PENDING_SESSIONS_def)

subsection \<open>The format of an image\<close>

datatype format = FormatE01 | FormatVmdk | FormatRaw

text \<open>The last path component: \<open>rsplit(['/', '\\']).next()\<close>.\<close>

definition last_component :: "string \<Rightarrow> string" where
  "last_component path = rev (takeWhile (\<lambda>ch. ch \<noteq> CHR ''/'' \<and> ch \<noteq> CHR 0x5C) (rev path))"

definition final_suffix :: "string \<Rightarrow> string option" where
  "final_suffix path =
     (case rsplit_once (CHR ''.'') (last_component path) of
        Some (_, suffix) \<Rightarrow> if suffix = [] then None else Some suffix
      | None \<Rightarrow> None)"

definition detect_format :: "string \<Rightarrow> format option" where
  "detect_format path =
     (case map_option to_ascii_lowercase (final_suffix path) of
        Some ext \<Rightarrow>
          if ext = ''e01'' then Some FormatE01
          else if ext = ''vmdk'' then Some FormatVmdk
          else if ext = ''raw'' \<or> ext = ''dd'' \<or> ext = ''img'' then Some FormatRaw
          else if list_all is_ascii_digit ext then Some FormatRaw
          else None
      | None \<Rightarrow> None)"

subsection \<open>Adapters\<close>

text \<open>An adapter turns every error of its reader into \<open>io::Error::other\<close> of its text: an error without OS
  code and without source.  A read that never ends does not answer; the model has \<open>Panic\<close> for it.\<close>

definition raw_adapter :: "cache \<times> rawdisk_reader \<Rightarrow> image" where
  "raw_adapter r =
     \<lparr>img_size = rr_image_size (snd r),
      img_read = (\<lambda>off n. map_err (\<lambda>e. [None]) (raw_read_at_offset (fst r) (snd r) off n))\<rparr>"

definition vmdk_adapter :: "byteorder \<Rightarrow> 'd inflater \<Rightarrow> cache \<times> vmdk_reader \<Rightarrow> image" where
  "vmdk_adapter bo infl r =
     \<lparr>img_size = vr_image_size (snd r),
      img_read = (\<lambda>off n.
        case vmdk_read_at_offset bo infl (fst r) (snd r) off n of
          Some res \<Rightarrow> map_err (\<lambda>e. [None]) res
        | None \<Rightarrow> Panic)\<rparr>"

definition raw_holds :: "cache \<times> rawdisk_reader \<Rightarrow> bytes \<Rightarrow> bool" where
  "raw_holds r d \<longleftrightarrow> (\<exists>ds. segments_ok (fst r) ds (snd r) \<and> d = concat ds)"

definition vmdk_holds :: "byteorder \<Rightarrow> 'd inflater \<Rightarrow> cache \<times> vmdk_reader \<Rightarrow> bytes \<Rightarrow> bool" where
  "vmdk_holds bo infl r d \<longleftrightarrow>
     (\<exists>files n spans. wf_reader (fst r) files n spans (snd r) \<and> 0 < n \<and> length d = n * SECTOR_SIZE \<and>
        (\<forall>off < length d. image_byte bo infl (fst r) files (vr_extents (snd r)) off = Some (d ! off)))"

interpretation raw: nbd_image raw_adapter raw_holds
proof unfold_locales
  fix r d assume "raw_holds r d"
  then obtain ds where ds: "segments_ok (fst r) ds (snd r)" "d = concat ds" by (auto simp: raw_holds_def)
  show "img_size (raw_adapter r) = length d \<and> length d < u64_lim"
    using ds by (simp add: raw_adapter_def segments_ok_def)
  fix off n assume "off + n \<le> length d" "0 < n"
  moreover have sz: "rr_image_size (snd r) = length d" "length d < u64_lim"
    using ds by (simp_all add: segments_ok_def)
  ultimately show "img_read (raw_adapter r) off n = Ok (sub_list d off n)"
    using raw_read_slices [OF ds(1), of off n] ds(2) by (auto simp: raw_adapter_def min_def)
qed

lemma vmdk_holds_read:
  assumes "vmdk_holds bo infl r d" "off + n \<le> length d" "0 < n"
  shows "img_read (vmdk_adapter bo infl r) off n = Ok (sub_list d off n)"
proof -
  obtain files k spans where wf: "wf_reader (fst r) files k spans (snd r)" "0 < k" "length d = k * SECTOR_SIZE"
    and img: "\<And>o'. o' < length d \<Longrightarrow> image_byte bo infl (fst r) files (vr_extents (snd r)) o' = Some (d ! o')"
    using assms(1) by (auto simp: vmdk_holds_def)
  have lim: "length d < u64_lim" using wf by (simp add: wf_reader_def routed_def)
  have "min (off + n) (k * SECTOR_SIZE) = off + n" using assms(2) wf(3) by simp
  then obtain res where res: "vmdk_read_at_offset bo infl (fst r) (snd r) off n = Some res"
    "answers (image_byte bo infl (fst r) files (vr_extents (snd r))) off (off + n) [] res"
    using vmdk_read_answers [OF wf(1,2), of off n bo infl] assms(2) wf(3) lim by auto
  then obtain bs where bs: "res = Ok bs" "length bs = n" "\<forall>i < n. Some (d ! (off + i)) = Some (bs ! i)"
    using img assms(2) by (auto simp: answers_def)
  have "bs = sub_list d off n"
    using bs assms(2) by (intro nth_equalityI) (auto simp: nth_sub_list)
  then show ?thesis using res(1) bs(1) by (simp add: vmdk_adapter_def)
qed

lemma vmdk_holds_size:
  "vmdk_holds bo infl r d \<Longrightarrow> img_size (vmdk_adapter bo infl r) = length d \<and> length d < u64_lim"
  by (auto simp: vmdk_holds_def vmdk_adapter_def wf_reader_def routed_def)

interpretation vmdk: nbd_image "vmdk_adapter bo infl" "vmdk_holds bo infl" for bo infl
  by unfold_locales (simp_all add: vmdk_holds_size vmdk_holds_read)

subsection \<open>Sessions\<close>

text \<open>A session over a raw image.  The client sends any sequence of well-formed commands (reads inside
  or outside the export, writes with their payload, flushes, unknown ones) and then a disconnect; the
  server answers each in turn, a read with the bytes of the concatenated segment files, and stops right
  after the disconnect with everything behind it unread.\<close>

theorem raw_session_answers:
  assumes "byteorder_ok bo" "segments_ok c ds rd"
    and "wf_request disc" "rq_typ disc = NBD_CMD_DISC" "list_all wf_command cmds"
    and "st_in s = concat (map command_bytes cmds) @ encode_request disc @ rest"
    and "length (replies (concat ds) cmds) \<le> st_room s"
  shows "transmission bo (raw_adapter (c, rd)) (rr_image_size rd) s =
    (Ok (), written (s\<lparr>st_in := rest\<rparr>) (replies (concat ds) cmds))"
proof -
  have "raw_holds (c, rd) (concat ds)" using assms(2) by (auto simp: raw_holds_def)
  from raw.session_answers [OF assms(1) this assms(3-7)] show ?thesis by (simp add: raw_adapter_def)
qed

definition sample_commands :: "(request \<times> bytes) list" where
  "sample_commands =
     [(\<lparr>rq_magic = NBD_REQ_MAGIC, rq_flags = 0, rq_typ = 1, rq_handle = 8, rq_offset = 0, rq_length = 3\<rparr>, [9, 9, 9]),
      (\<lparr>rq_magic = NBD_REQ_MAGIC, rq_flags = 0, rq_typ = 0, rq_handle = 7, rq_offset = 2, rq_length = 3\<rparr>, []),
      (\<lparr>rq_magic = NBD_REQ_MAGIC, rq_flags = 0, rq_typ = 0, rq_handle = 6, rq_offset = 5, rq_length = 3\<rparr>, [])]"

definition sample_disc :: request where
  "sample_disc = \<lparr>rq_magic = NBD_REQ_MAGIC, rq_flags = 0, rq_typ = 2, rq_handle = 0, rq_offset = 0, rq_length = 0\<rparr>"

definition sample_stream :: stream where
  "sample_stream = fresh_stream (concat (map command_bytes sample_commands) @ encode_request sample_disc @ [1])"

lemma sample_commands_wf: "list_all wf_command sample_commands" "wf_request sample_disc"
  "rq_typ sample_disc = NBD_CMD_DISC"
  by code_simp+

lemma sample_replies:
  "replies (concat sample_segments) sample_commands =
     simple_reply_header 1 8 @ simple_reply_header 0 7 @ [3, 4, 5] @ simple_reply_header 22 6"
  by code_simp

theorem raw_session_answers_witness:
  "transmission std_byteorder (raw_adapter (sample_raw_cache, sample_raw)) 6 sample_stream =
     (Ok (), written (fresh_stream [1])
        (simple_reply_header 1 8 @ simple_reply_header 0 7 @ [3, 4, 5] @ simple_reply_header 22 6))"
proof -
  have "st_in sample_stream = concat (map command_bytes sample_commands) @ encode_request sample_disc @ [1]"
    by (simp add: sample_stream_def fresh_stream_def)
  from raw_session_answers [OF std_byteorder_ok sample_raw_ok sample_commands_wf(2,3,1) this]
  show ?thesis
    by (simp add: sample_replies sample_raw_def sample_stream_def fresh_stream_def)
qed

text \<open>C19: a session over a VMDK image whose every byte can be had: each command is answered in turn, a read
  with the bytes that the owning extents hold.\<close>

theorem vmdk_session_answers:
  assumes "byteorder_ok bo" "vmdk_holds bo infl (c, rd) d"
    and "wf_request disc" "rq_typ disc = NBD_CMD_DISC" "list_all wf_command cmds"
    and "st_in s = concat (map command_bytes cmds) @ encode_request disc @ rest"
    and "length (replies d cmds) \<le> st_room s"
  shows "transmission bo (vmdk_adapter bo infl (c, rd)) (vr_image_size rd) s =
    (Ok (), written (s\<lparr>st_in := rest\<rparr>) (replies d cmds))"
  using vmdk.session_answers [OF assms] by (simp add: vmdk_adapter_def)

definition sample_image :: bytes where
  "sample_image = replicate 512 7 @ replicate 512 0"

lemma sample_reader_holds:
  "vmdk_holds std_byteorder stored_inflater (mem_cache sample_files, sample_reader) sample_image"
proof -
  have "image_byte std_byteorder stored_inflater (mem_cache sample_files) sample_files
      (vr_extents sample_reader) off = Some (sample_image ! off)" if "off < 1024" for off
  proof (cases "off < 512")
    case True
    then show ?thesis
      by (simp add: image_byte_def sample_reader_def SECTOR_SIZE_def extent_covers_def nth_byte_def
          sample_files_def sample_image_def nth_append)
  next
    case False
    then have "off div 512 = 1" using that by auto
    then show ?thesis
      using False that
      by (simp add: image_byte_def sample_reader_def SECTOR_SIZE_def extent_covers_def
          sample_image_def nth_append)
  qed
  then show ?thesis
    using sample_reader_wf unfolding vmdk_holds_def
    by (intro exI [of _ sample_files] exI [of _ 2] exI [of _ "[(0, (1, 0)), (1, (2, 1))]"])
      (simp add: sample_image_def SECTOR_SIZE_def)
qed

definition sample_reads :: "(request \<times> bytes) list" where
  "sample_reads =
     [(\<lparr>rq_magic = NBD_REQ_MAGIC, rq_flags = 0, rq_typ = 0, rq_handle = 7, rq_offset = 510, rq_length = 4\<rparr>, [])]"

theorem vmdk_session_answers_witness:
  "transmission std_byteorder
       (vmdk_adapter std_byteorder stored_inflater (mem_cache sample_files, sample_reader)) 1024
       (fresh_stream (concat (map command_bytes sample_reads) @ encode_request sample_disc @ [])) =
     (Ok (), written (fresh_stream []) (simple_reply_header 0 7 @ [7, 7, 0, 0]))"
proof -
  let ?s = "fresh_stream (concat (map command_bytes sample_reads) @ encode_request sample_disc @ [])"
  have "list_all wf_command sample_reads" by code_simp
  moreover have "st_in ?s = concat (map command_bytes sample_reads) @ encode_request sample_disc @ []"
    by (simp add: fresh_stream_def)
  moreover have "replies sample_image sample_reads = simple_reply_header 0 7 @ [7, 7, 0, 0]"
    by code_simp
  ultimately show ?thesis
    using vmdk_session_answers [OF std_byteorder_ok sample_reader_holds sample_commands_wf(2,3), of sample_reads ?s "[]"]
    by (simp add: sample_reader_def fresh_stream_def)
qed

end
