(* ===== verification/Hasher.thy ===== *)
theory Hasher
  imports RustStr
begin

text \<open>
  The threads that hash an image while it is read, \<open>MultiHasher\<close> of \<open>e01/src/hasher.rs\<close>: one worker per hash type,
  with a channel of capacity one that brings it full buffers and one that takes them back.  The caller always
  gets the buffer of the update before, so that it can read ahead by one buffer.

  A buffer in an \<open>Arc\<close> is its number (every \<open>Arc::new\<close> takes the next one) with its bytes; who holds a
  clone is where the pair occurs, and \<open>Arc::into_inner\<close> succeeds when it occurs nowhere else.  A step is one operation of
  the caller or of one worker: a send, a receive, hashing a buffer, closing, joining.  The hash functions
  are a parameter.  Callers pass the number of bytes that are valid, which is at most the length of the buffer.

  Shown: in every interleaving the caller gets its buffers back in order and is their only owner, each
  digest is the one of all bytes passed in, in order, and nothing is ever stuck.
\<close>

subsection \<open>Hash types\<close>

datatype hash_type = MD5 | SHA1 | SHA256

definition hash_type_display :: "hash_type \<Rightarrow> string" where
  "hash_type_display t = (case t of MD5 \<Rightarrow> ''MD5'' | SHA1 \<Rightarrow> ''SHA1'' | SHA256 \<Rightarrow> ''SHA256'')"

text \<open>\<open>upper\<close> is \<open>str::to_uppercase\<close> of the standard library.\<close>

definition hash_type_from_str :: "(string \<Rightarrow> string) \<Rightarrow> string \<Rightarrow> (hash_type, unit) result" where
  "hash_type_from_str upper s =
     (if upper s = ''MD5'' then Ok MD5 else if upper s = ''SHA1'' then Ok SHA1
      else if upper s = ''SHA256'' then Ok SHA256 else Err ())"

record 'h hash_alg =
  ha_new :: "hash_type \<Rightarrow> 'h"
  ha_update :: "'h \<Rightarrow> bytes \<Rightarrow> 'h"
  ha_finalize :: "'h \<Rightarrow> bytes"

subsection \<open>Workers and caller\<close>

type_synonym arc = "nat \<times> bytes"

text \<open>\<open>hw_held\<close> is the buffer that is hashed and waits to be sent back, \<open>hw_open\<close> says whether the caller still has
  its ends of the channels, \<open>hw_digest\<close> is what the thread returned.\<close>

record 'h hash_worker =
  hw_type :: hash_type
  hw_full :: "(nat \<times> arc) list"
  hw_empty :: "arc list"
  hw_held :: "arc option"
  hw_hash :: 'h
  hw_digest :: "bytes option"
  hw_open :: bool

text \<open>Where the caller is: between calls; in \<open>update\<close> with the buffer to send and the next worker; in \<open>update\<close> with
  the next worker to receive from and the buffer received last; in \<open>finalize\<close> at a worker.\<close>

datatype hash_caller =
    Between
  | Sending arc nat nat
  | Receiving nat "arc option"
  | Closing nat
  | Finalized
  | NotSoleOwner

text \<open>\<open>mh_log\<close> is the history of updates, \<open>mh_returned\<close> what they returned.\<close>

record 'h multi_hasher =
  mh_workers :: "'h hash_worker list"
  mh_caller :: hash_caller
  mh_next :: nat
  mh_log :: "(nat \<times> bytes) list"
  mh_returned :: "bytes list"

definition worker_start :: "'h hash_alg \<Rightarrow> bytes \<Rightarrow> hash_type \<Rightarrow> 'h hash_worker" where
  "worker_start alg buf t =
     \<lparr>hw_type = t, hw_full = [], hw_empty = [(0, buf)], hw_held = None, hw_hash = ha_new alg t, hw_digest = None,
      hw_open = True\<rparr>"

definition multi_hasher_new :: "'h hash_alg \<Rightarrow> hash_type list \<Rightarrow> bytes \<Rightarrow> 'h multi_hasher" where
  "multi_hasher_new alg htypes buf =
     \<lparr>mh_workers = map (worker_start alg buf) htypes, mh_caller = Between, mh_next = 1, mh_log = [], mh_returned = []\<rparr>"

text \<open>The buffers a worker or its channels hold.\<close>

definition arcs_of :: "'h hash_worker \<Rightarrow> arc list" where
  "arcs_of w = hw_empty w @ (case hw_held w of None \<Rightarrow> [] | Some a \<Rightarrow> [a]) @ map snd (hw_full w)"

definition sole_owner :: "arc \<Rightarrow> 'h hash_worker list \<Rightarrow> bool" where
  "sole_owner a ws \<longleftrightarrow> list_all (\<lambda>w. list_all (\<lambda>b. fst b \<noteq> fst a) (arcs_of w)) ws"

subsection \<open>Steps\<close>

text \<open>One operation of a worker thread.\<close>

inductive worker_step :: "'h hash_alg \<Rightarrow> 'h hash_worker \<Rightarrow> 'h hash_worker \<Rightarrow> bool" for alg where
  take: "hw_digest w = None \<Longrightarrow> hw_held w = None \<Longrightarrow> hw_full w = (r, a) # rest \<Longrightarrow> r \<le> length (snd a) \<Longrightarrow>
    worker_step alg w (w\<lparr>hw_full := rest, hw_held := Some a, hw_hash := ha_update alg (hw_hash w) (List.take r (snd a))\<rparr>)"
| give: "hw_digest w = None \<Longrightarrow> hw_held w = Some a \<Longrightarrow> hw_open w \<Longrightarrow> hw_empty w = [] \<Longrightarrow>
    worker_step alg w (w\<lparr>hw_empty := [a], hw_held := None\<rparr>)"
| give_fails: "hw_digest w = None \<Longrightarrow> hw_held w = Some a \<Longrightarrow> \<not> hw_open w \<Longrightarrow>
    worker_step alg w (w\<lparr>hw_held := None, hw_full := [], hw_digest := Some (ha_finalize alg (hw_hash w))\<rparr>)"
| finish: "hw_digest w = None \<Longrightarrow> hw_held w = None \<Longrightarrow> hw_full w = [] \<Longrightarrow> \<not> hw_open w \<Longrightarrow>
    worker_step alg w (w\<lparr>hw_digest := Some (ha_finalize alg (hw_hash w))\<rparr>)"

text \<open>A step inside a call: of a worker, or of the caller.\<close>

inductive hash_work :: "'h hash_alg \<Rightarrow> 'h multi_hasher \<Rightarrow> 'h multi_hasher \<Rightarrow> bool" for alg where
  worker: "i < length (mh_workers s) \<Longrightarrow> worker_step alg (mh_workers s ! i) w \<Longrightarrow>
    hash_work alg s (s\<lparr>mh_workers := (mh_workers s)[i := w]\<rparr>)"
| send: "mh_caller s = Sending a len k \<Longrightarrow> k < length (mh_workers s) \<Longrightarrow> hw_full (mh_workers s ! k) = [] \<Longrightarrow>
    hash_work alg s (s\<lparr>mh_workers := (mh_workers s)[k := (mh_workers s ! k)\<lparr>hw_full := [(len, a)]\<rparr>],
      mh_caller := Sending a len (k + 1)\<rparr>)"
| sent: "mh_caller s = Sending a len (length (mh_workers s)) \<Longrightarrow> hash_work alg s (s\<lparr>mh_caller := Receiving 0 None\<rparr>)"
| receive: "mh_caller s = Receiving k held \<Longrightarrow> k < length (mh_workers s) \<Longrightarrow> hw_empty (mh_workers s ! k) = b # rest \<Longrightarrow>
    hash_work alg s (s\<lparr>mh_workers := (mh_workers s)[k := (mh_workers s ! k)\<lparr>hw_empty := rest\<rparr>],
      mh_caller := Receiving (k + 1) (Some b)\<rparr>)"
| returns: "mh_caller s = Receiving (length (mh_workers s)) (Some b) \<Longrightarrow> sole_owner b (mh_workers s) \<Longrightarrow>
    hash_work alg s (s\<lparr>mh_caller := Between, mh_returned := mh_returned s @ [snd b]\<rparr>)"
| not_sole: "mh_caller s = Receiving (length (mh_workers s)) (Some b) \<Longrightarrow> \<not> sole_owner b (mh_workers s) \<Longrightarrow>
    hash_work alg s (s\<lparr>mh_caller := NotSoleOwner\<rparr>)"
| close: "mh_caller s = Closing k \<Longrightarrow> k < length (mh_workers s) \<Longrightarrow> hw_open (mh_workers s ! k) \<Longrightarrow>
    hash_work alg s (s\<lparr>mh_workers := (mh_workers s)[k := (mh_workers s ! k)\<lparr>hw_open := False, hw_empty := []\<rparr>]\<rparr>)"
| joined: "mh_caller s = Closing k \<Longrightarrow> k < length (mh_workers s) \<Longrightarrow> \<not> hw_open (mh_workers s ! k) \<Longrightarrow>
    hw_digest (mh_workers s ! k) \<noteq> None \<Longrightarrow> hash_work alg s (s\<lparr>mh_caller := Closing (k + 1)\<rparr>)"
| ends: "mh_caller s = Closing (length (mh_workers s)) \<Longrightarrow> hash_work alg s (s\<lparr>mh_caller := Finalized\<rparr>)"

text \<open>Calls of \<open>update\<close> and \<open>finalize\<close>; without workers \<open>update\<close> hands its buffer back.\<close>

inductive hash_call :: "'h multi_hasher \<Rightarrow> 'h multi_hasher \<Rightarrow> bool" where
  update_none: "mh_caller s = Between \<Longrightarrow> mh_workers s = [] \<Longrightarrow> len \<le> length bs \<Longrightarrow>
    hash_call s (s\<lparr>mh_log := mh_log s @ [(len, bs)], mh_returned := mh_returned s @ [bs], mh_next := mh_next s + 1\<rparr>)"
| update: "mh_caller s = Between \<Longrightarrow> mh_workers s \<noteq> [] \<Longrightarrow> len \<le> length bs \<Longrightarrow>
    hash_call s (s\<lparr>mh_caller := Sending (mh_next s, bs) len 0, mh_log := mh_log s @ [(len, bs)], mh_next := mh_next s + 1\<rparr>)"
| finalize: "mh_caller s = Between \<Longrightarrow> hash_call s (s\<lparr>mh_caller := Closing 0\<rparr>)"

definition hash_step :: "'h hash_alg \<Rightarrow> 'h multi_hasher \<Rightarrow> 'h multi_hasher \<Rightarrow> bool" where
  "hash_step alg s s' \<longleftrightarrow> hash_work alg s s' \<or> hash_call s s'"

text \<open>What \<open>finalize\<close> returns: the digest of each type (the last one, should a type occur twice).\<close>

definition mh_digests :: "'h multi_hasher \<Rightarrow> hash_type \<Rightarrow> bytes option" where
  "mh_digests s = map_of (rev (map (\<lambda>w. (hw_type w, the (hw_digest w))) (mh_workers s)))"

subsection \<open>The belt of buffers\<close>

text \<open>Buffer \<open>j\<close> is that of update \<open>j\<close>, buffer 0 the one the workers begin with.  The buffers that a worker has,
  those to take back first, are always consecutive ones.\<close>

definition arc_of :: "bytes \<Rightarrow> (nat \<times> bytes) list \<Rightarrow> nat \<Rightarrow> arc" where
  "arc_of buf log j = (j, if j = 0 then buf else snd (log ! (j - 1)))"

definition message :: "bytes \<Rightarrow> (nat \<times> bytes) list \<Rightarrow> nat \<Rightarrow> nat \<times> arc" where
  "message buf log j = (fst (log ! (j - 1)), arc_of buf log j)"

definition hash_of :: "'h hash_alg \<Rightarrow> hash_type \<Rightarrow> (nat \<times> bytes) list \<Rightarrow> 'h" where
  "hash_of alg t log = fold (\<lambda>(len, bs) h. ha_update alg h (take len bs)) log (ha_new alg t)"

definition belt_ok :: "'h hash_alg \<Rightarrow> bytes \<Rightarrow> (nat \<times> bytes) list \<Rightarrow> nat \<Rightarrow> nat \<Rightarrow> 'h hash_worker \<Rightarrow> bool" where
  "belt_ok alg buf log r s w \<longleftrightarrow>
     hw_open w \<and> hw_digest w = None \<and> s \<le> length log \<and>
     arcs_of w = map (arc_of buf log) [r ..< Suc s] \<and>
     (hw_full w = [] \<and> hw_hash w = hash_of alg (hw_type w) (take s log) \<or>
      0 < s \<and> hw_full w = [message buf log s] \<and> hw_hash w = hash_of alg (hw_type w) (take (s - 1) log))"

definition closed_ok :: "'h hash_alg \<Rightarrow> bytes \<Rightarrow> (nat \<times> bytes) list \<Rightarrow> 'h hash_worker \<Rightarrow> bool" where
  "closed_ok alg buf log w \<longleftrightarrow>
     \<not> hw_open w \<and> hw_empty w = [] \<and>
     (case hw_digest w of
        Some d \<Rightarrow> hw_full w = [] \<and> hw_held w = None \<and> d = ha_finalize alg (hash_of alg (hw_type w) log)
      | None \<Rightarrow>
          hw_full w = [] \<and> hw_hash w = hash_of alg (hw_type w) log \<or>
          log \<noteq> [] \<and> hw_held w = None \<and> hw_full w = [message buf log (length log)] \<and>
            hw_hash w = hash_of alg (hw_type w) (take (length log - 1) log))"

definition lens_ok :: "(nat \<times> bytes) list \<Rightarrow> bool" where
  "lens_ok log \<longleftrightarrow> (\<forall>e \<in> set log. fst e \<le> length (snd e))"

lemma hash_of_snoc:
  "hash_of alg t (log @ [(len, bs)]) = ha_update alg (hash_of alg t log) (take len bs)"
  by (simp add: hash_of_def)

lemma hash_of_next:
  assumes "0 < s" "s \<le> length log"
  shows "hash_of alg t (take s log) =
    ha_update alg (hash_of alg t (take (s - 1) log)) (take (fst (message buf log s)) (snd (arc_of buf log s)))"
proof -
  obtain len bs where e: "log ! (s - 1) = (len, bs)" by fastforce
  have "take s log = take (s - 1) log @ [(len, bs)]"
    using assms e take_Suc_conv_app_nth [of "s - 1" log] by simp
  then show ?thesis using assms(1) e by (simp add: hash_of_snoc message_def arc_of_def)
qed

lemma arc_of_append: "j \<le> length log \<Longrightarrow> arc_of buf (log @ [e]) j = arc_of buf log j"
  by (cases j) (simp_all add: arc_of_def nth_append)

lemma message_append: "0 < j \<Longrightarrow> j \<le> length log \<Longrightarrow> message buf (log @ [e]) j = message buf log j"
  by (cases j) (simp_all add: message_def arc_of_append nth_append)

lemma belt_append:
  assumes "belt_ok alg buf log r s w"
  shows "belt_ok alg buf (log @ [e]) r s w"
proof -
  have s: "s \<le> length log" using assms by (simp add: belt_ok_def)
  have "map (arc_of buf (log @ [e])) [r ..< Suc s] = map (arc_of buf log) [r ..< Suc s]"
    using s by (intro map_cong refl arc_of_append) auto
  then show ?thesis using assms s message_append [of s log buf e] by (auto simp: belt_ok_def)
qed

text \<open>The steps of an open worker.\<close>

lemma worker_step_belt:
  assumes "worker_step alg w w'" "belt_ok alg buf log r s w"
  shows "belt_ok alg buf log r s w' \<and> hw_type w' = hw_type w"
  using assms
proof (induction rule: worker_step.induct)
  case (take w n a rest)
  then have m: "0 < s" "s \<le> length log" "rest = []" "(n, a) = message buf log s"
    "hw_hash w = hash_of alg (hw_type w) (List.take (s - 1) log)" by (auto simp: belt_ok_def)
  then have "a = arc_of buf log s" "n = fst (message buf log s)" by (simp_all add: message_def)
  then show ?case using take m hash_of_next [OF m(1,2), of alg "hw_type w" buf] by (auto simp: belt_ok_def arcs_of_def)
qed (auto simp: belt_ok_def arcs_of_def)

lemma send_belt:
  assumes "belt_ok alg buf log r s w" "hw_full w = []" "Suc s \<le> length log" "r \<le> Suc s"
  shows "belt_ok alg buf log r (Suc s) (w\<lparr>hw_full := [message buf log (Suc s)]\<rparr>)"
  using assms by (auto simp: belt_ok_def arcs_of_def message_def)

lemma receive_belt:
  assumes "belt_ok alg buf log r s w" "hw_empty w = b # rest"
  shows "b = arc_of buf log r \<and> belt_ok alg buf log (Suc r) s (w\<lparr>hw_empty := rest\<rparr>)"
proof -
  have e: "b # rest @ (case hw_held w of None \<Rightarrow> [] | Some a \<Rightarrow> [a]) @ map snd (hw_full w) = map (arc_of buf log) [r ..< Suc s]"
    using assms by (simp add: belt_ok_def arcs_of_def)
  then have "r < Suc s" by (cases "r < Suc s") auto
  then have "[r ..< Suc s] = r # [Suc r ..< Suc s]" by (rule upt_conv_Cons)
  then show ?thesis using e assms by (auto simp: belt_ok_def arcs_of_def)
qed

lemma close_belt:
  assumes "belt_ok alg buf log (length log) (length log) w"
  shows "closed_ok alg buf log (w\<lparr>hw_open := False, hw_empty := []\<rparr>)"
proof -
  have "arcs_of w = [arc_of buf log (length log)]" using assms by (simp add: belt_ok_def)
  then have "length (hw_empty w) + (case hw_held w of None \<Rightarrow> 0 | Some a \<Rightarrow> 1) + length (hw_full w) = 1"
    by (auto simp: arcs_of_def append_eq_Cons_conv split: option.splits)
  then show ?thesis using assms by (auto simp: belt_ok_def closed_ok_def split: option.splits)
qed

text \<open>The steps of a closed one.\<close>

lemma worker_step_closed:
  assumes "worker_step alg w w'" "closed_ok alg buf log w"
  shows "closed_ok alg buf log w' \<and> hw_type w' = hw_type w"
  using assms
proof (induction rule: worker_step.induct)
  case (take w n a rest)
  then have m: "log \<noteq> []" "rest = []" "(n, a) = message buf log (length log)"
    "hw_hash w = hash_of alg (hw_type w) (List.take (length log - 1) log)" by (auto simp: closed_ok_def)
  then have "0 < length log" "length log \<le> length log" by simp_all
  note h = hash_of_next [OF this, of alg "hw_type w" buf]
  have "a = arc_of buf log (length log)" "n = fst (message buf log (length log))" using m(3) by (simp_all add: message_def)
  then show ?case using take m h by (auto simp: closed_ok_def)
qed (auto simp: closed_ok_def)

subsection \<open>The invariant\<close>

text \<open>How many buffers worker \<open>i\<close> has been sent, and how many were taken back from it.\<close>

definition sent_to :: "hash_caller \<Rightarrow> nat \<Rightarrow> nat \<Rightarrow> nat" where
  "sent_to c m i = (case c of Sending a len k \<Rightarrow> if i < k then m else m - 1 | _ \<Rightarrow> m)"

definition taken_from :: "hash_caller \<Rightarrow> nat \<Rightarrow> nat \<Rightarrow> nat" where
  "taken_from c m i =
     (case c of
        Sending a len k \<Rightarrow> m - 1
      | Receiving k held \<Rightarrow> if i < k then m else m - 1
      | _ \<Rightarrow> m)"

definition caller_ok :: "bytes \<Rightarrow> (nat \<times> bytes) list \<Rightarrow> 'h hash_worker list \<Rightarrow> hash_caller \<Rightarrow> bool" where
  "caller_ok buf log ws c \<longleftrightarrow>
     (case c of
        Between \<Rightarrow> \<forall>w \<in> set ws. hw_open w
      | Sending a len k \<Rightarrow> ws \<noteq> [] \<and> log \<noteq> [] \<and> k \<le> length ws \<and> (len, a) = message buf log (length log) \<and> (\<forall>w \<in> set ws. hw_open w)
      | Receiving k held \<Rightarrow> ws \<noteq> [] \<and> log \<noteq> [] \<and> k \<le> length ws \<and>
          held = (if k = 0 then None else Some (arc_of buf log (length log - 1))) \<and> (\<forall>w \<in> set ws. hw_open w)
      | Closing k \<Rightarrow> k \<le> length ws \<and> (\<forall>i < length ws. (i < k \<longrightarrow> hw_digest (ws ! i) \<noteq> None) \<and> (k < i \<longrightarrow> hw_open (ws ! i)))
      | Finalized \<Rightarrow> \<forall>w \<in> set ws. hw_digest w \<noteq> None
      | NotSoleOwner \<Rightarrow> False)"

definition returned_ok :: "bytes \<Rightarrow> (nat \<times> bytes) list \<Rightarrow> bool \<Rightarrow> hash_caller \<Rightarrow> bytes list \<Rightarrow> bool" where
  "returned_ok buf log none c rs \<longleftrightarrow>
     rs = (if none then map snd log
           else map (\<lambda>j. snd (arc_of buf log j)) [0 ..< (case c of Sending a len k \<Rightarrow> length log - 1
             | Receiving k held \<Rightarrow> length log - 1 | _ \<Rightarrow> length log)])"

definition hasher_inv :: "'h hash_alg \<Rightarrow> hash_type list \<Rightarrow> bytes \<Rightarrow> 'h multi_hasher \<Rightarrow> bool" where
  "hasher_inv alg htypes buf s \<longleftrightarrow>
     map hw_type (mh_workers s) = htypes \<and> mh_next s = Suc (length (mh_log s)) \<and> lens_ok (mh_log s) \<and>
     caller_ok buf (mh_log s) (mh_workers s) (mh_caller s) \<and>
     returned_ok buf (mh_log s) (mh_workers s = []) (mh_caller s) (mh_returned s) \<and>
     (\<forall>i < length (mh_workers s).
        if hw_open (mh_workers s ! i)
        then belt_ok alg buf (mh_log s) (taken_from (mh_caller s) (length (mh_log s)) i)
          (sent_to (mh_caller s) (length (mh_log s)) i) (mh_workers s ! i)
        else closed_ok alg buf (mh_log s) (mh_workers s ! i))"

lemma hasher_invD:
  assumes "hasher_inv alg htypes buf s"
  shows "map hw_type (mh_workers s) = htypes" "mh_next s = Suc (length (mh_log s))" "lens_ok (mh_log s)"
    "caller_ok buf (mh_log s) (mh_workers s) (mh_caller s)"
    "returned_ok buf (mh_log s) (mh_workers s = []) (mh_caller s) (mh_returned s)"
    "i < length (mh_workers s) \<Longrightarrow> hw_open (mh_workers s ! i) \<Longrightarrow>
      belt_ok alg buf (mh_log s) (taken_from (mh_caller s) (length (mh_log s)) i)
        (sent_to (mh_caller s) (length (mh_log s)) i) (mh_workers s ! i)"
    "i < length (mh_workers s) \<Longrightarrow> \<not> hw_open (mh_workers s ! i) \<Longrightarrow> closed_ok alg buf (mh_log s) (mh_workers s ! i)"
  using assms by (auto simp: hasher_inv_def)

text \<open>Changing one worker, with the caller going on to \<open>c\<close>.\<close>

lemma hasher_update:
  assumes inv: "hasher_inv alg htypes buf s" and i: "i < length (mh_workers s)"
    and s': "mh_workers s' = (mh_workers s)[i := w]" "mh_log s' = mh_log s" "mh_next s' = mh_next s" "mh_returned s' = mh_returned s"
    and t: "hw_type w = hw_type (mh_workers s ! i)"
    and c: "caller_ok buf (mh_log s) ((mh_workers s)[i := w]) (mh_caller s')"
      "returned_ok buf (mh_log s) False (mh_caller s') (mh_returned s)"
    and same: "\<And>j. j \<noteq> i \<Longrightarrow> j < length (mh_workers s) \<Longrightarrow> hw_open (mh_workers s ! j) \<Longrightarrow>
        taken_from (mh_caller s') (length (mh_log s)) j = taken_from (mh_caller s) (length (mh_log s)) j \<and>
        sent_to (mh_caller s') (length (mh_log s)) j = sent_to (mh_caller s) (length (mh_log s)) j"
    and w: "hw_open w \<Longrightarrow> belt_ok alg buf (mh_log s) (taken_from (mh_caller s') (length (mh_log s)) i)
        (sent_to (mh_caller s') (length (mh_log s)) i) w"
      "\<not> hw_open w \<Longrightarrow> closed_ok alg buf (mh_log s) w"
  shows "hasher_inv alg htypes buf s'"
proof -
  note d = hasher_invD [OF inv]
  have "map hw_type ((mh_workers s)[i := w]) = htypes" using d(1) i t by (metis list_update_id map_update nth_map)
  moreover have "(mh_workers s)[i := w] \<noteq> []" using i by auto
  moreover have "if hw_open ((mh_workers s)[i := w] ! j)
      then belt_ok alg buf (mh_log s) (taken_from (mh_caller s') (length (mh_log s)) j) (sent_to (mh_caller s') (length (mh_log s)) j)
        ((mh_workers s)[i := w] ! j)
      else closed_ok alg buf (mh_log s) ((mh_workers s)[i := w] ! j)" if "j < length (mh_workers s)" for j
    using that same [of j] w d(6,7) [of j] i by (cases "j = i") simp_all
  ultimately show ?thesis using d(2,3) c unfolding hasher_inv_def s' by simp
qed

lemma worker_step_facts:
  "worker_step alg w w' \<Longrightarrow> hw_open w' = hw_open w \<and> hw_type w' = hw_type w \<and> (hw_digest w \<noteq> None \<longrightarrow> hw_digest w' \<noteq> None)"
  by (induction rule: worker_step.induct) auto

lemma nth_in_set_update: "\<forall>x \<in> set xs. P x \<Longrightarrow> P y \<Longrightarrow> \<forall>x \<in> set (xs[i := y]). P x"
  using set_update_subset_insert [of xs i y] by blast

lemma caller_ok_worker:
  assumes "caller_ok buf log ws c" "i < length ws" "hw_open w = hw_open (ws ! i)"
    "hw_digest (ws ! i) \<noteq> None \<Longrightarrow> hw_digest w \<noteq> None"
  shows "caller_ok buf log (ws[i := w]) c"
proof -
  have "\<forall>x \<in> set (ws[i := w]). hw_open x" if "\<forall>x \<in> set ws. hw_open x"
    using that assms(2,3) by (intro nth_in_set_update) auto
  moreover have "\<forall>x \<in> set (ws[i := w]). hw_digest x \<noteq> None" if "\<forall>x \<in> set ws. hw_digest x \<noteq> None"
    using that assms(2,4) by (intro nth_in_set_update) auto
  ultimately show ?thesis using assms by (cases c) (auto simp: caller_ok_def nth_list_update)
qed

lemma hash_work_inv:
  assumes "hash_work alg s s'" "hasher_inv alg htypes buf s"
  shows "hasher_inv alg htypes buf s'"
  using assms
proof (induction rule: hash_work.induct)
  case (worker i s w)
  note d = hasher_invD [OF worker.prems] and f = worker_step_facts [OF worker.hyps(2)]
  have ne: "mh_workers s \<noteq> []" using worker.hyps(1) by auto
  show ?case
  proof (rule hasher_update [OF worker.prems worker.hyps(1), where w = w])
    show "caller_ok buf (mh_log s) ((mh_workers s)[i := w]) (mh_caller (s\<lparr>mh_workers := (mh_workers s)[i := w]\<rparr>))"
      using caller_ok_worker [OF d(4) worker.hyps(1), of w] f by simp
    show "hw_open w \<Longrightarrow> belt_ok alg buf (mh_log s) (taken_from (mh_caller (s\<lparr>mh_workers := (mh_workers s)[i := w]\<rparr>)) (length (mh_log s)) i)
        (sent_to (mh_caller (s\<lparr>mh_workers := (mh_workers s)[i := w]\<rparr>)) (length (mh_log s)) i) w"
      using worker_step_belt [OF worker.hyps(2) d(6) [OF worker.hyps(1)]] f by simp
    show "\<not> hw_open w \<Longrightarrow> closed_ok alg buf (mh_log s) w"
      using worker_step_closed [OF worker.hyps(2) d(7) [OF worker.hyps(1)]] f by simp
  qed (use f d(5) ne in simp_all)
next
  case (send s a len k)
  note d = hasher_invD [OF send.prems]
  let ?w = "(mh_workers s ! k)\<lparr>hw_full := [(len, a)]\<rparr>"
  have c: "mh_log s \<noteq> []" "(len, a) = message buf (mh_log s) (length (mh_log s))" "\<forall>w \<in> set (mh_workers s). hw_open w"
    using d(4) send.hyps(1) by (auto simp: caller_ok_def)
  have o': "hw_open (mh_workers s ! k)" "mh_workers s \<noteq> []" using c(3) send.hyps(2) by auto
  have b: "belt_ok alg buf (mh_log s) (length (mh_log s) - 1) (length (mh_log s) - 1) (mh_workers s ! k)"
    using d(6) [OF send.hyps(2) o'(1)] send.hyps(1) by (simp add: taken_from_def sent_to_def)
  have n: "Suc (length (mh_log s) - 1) = length (mh_log s)" using c(1) by simp
  show ?case
  proof (rule hasher_update [OF send.prems send.hyps(2), where w = ?w])
    show "caller_ok buf (mh_log s) ((mh_workers s)[k := ?w])
        (mh_caller (s\<lparr>mh_workers := (mh_workers s)[k := ?w], mh_caller := Sending a len (k + 1)\<rparr>))"
      using c send.hyps(2) o' nth_in_set_update [OF c(3), of ?w k] by (simp add: caller_ok_def)
    show "belt_ok alg buf (mh_log s)
        (taken_from (mh_caller (s\<lparr>mh_workers := (mh_workers s)[k := ?w], mh_caller := Sending a len (k + 1)\<rparr>)) (length (mh_log s)) k)
        (sent_to (mh_caller (s\<lparr>mh_workers := (mh_workers s)[k := ?w], mh_caller := Sending a len (k + 1)\<rparr>)) (length (mh_log s)) k) ?w"
      using send_belt [OF b send.hyps(3)] n c(2) by (simp add: taken_from_def sent_to_def)
  qed (use d(5) send.hyps o' in \<open>auto simp: returned_ok_def taken_from_def sent_to_def\<close>)
next
  case (sent s a len)
  note d = hasher_invD [OF sent.prems]
  show ?case
    using d sent.hyps by (auto simp: hasher_inv_def caller_ok_def returned_ok_def taken_from_def sent_to_def)
next
  case (receive s k held b rest)
  note d = hasher_invD [OF receive.prems]
  let ?w = "(mh_workers s ! k)\<lparr>hw_empty := rest\<rparr>"
  have c: "mh_log s \<noteq> []" "\<forall>w \<in> set (mh_workers s). hw_open w"
    using d(4) receive.hyps(1) by (auto simp: caller_ok_def)
  have o': "hw_open (mh_workers s ! k)" "mh_workers s \<noteq> []" using c(2) receive.hyps(2) by auto
  have b: "belt_ok alg buf (mh_log s) (length (mh_log s) - 1) (length (mh_log s)) (mh_workers s ! k)"
    using d(6) [OF receive.hyps(2) o'(1)] receive.hyps(1) by (simp add: taken_from_def sent_to_def)
  note r = receive_belt [OF b receive.hyps(3)]
  have n: "Suc (length (mh_log s) - 1) = length (mh_log s)" using c(1) by simp
  show ?case
  proof (rule hasher_update [OF receive.prems receive.hyps(2), where w = ?w])
    show "caller_ok buf (mh_log s) ((mh_workers s)[k := ?w])
        (mh_caller (s\<lparr>mh_workers := (mh_workers s)[k := ?w], mh_caller := Receiving (k + 1) (Some b)\<rparr>))"
      using c receive.hyps(2) o' r nth_in_set_update [OF c(2), of ?w k] by (simp add: caller_ok_def)
    show "belt_ok alg buf (mh_log s)
        (taken_from (mh_caller (s\<lparr>mh_workers := (mh_workers s)[k := ?w], mh_caller := Receiving (k + 1) (Some b)\<rparr>)) (length (mh_log s)) k)
        (sent_to (mh_caller (s\<lparr>mh_workers := (mh_workers s)[k := ?w], mh_caller := Receiving (k + 1) (Some b)\<rparr>)) (length (mh_log s)) k) ?w"
      using r n by (simp add: taken_from_def sent_to_def)
  qed (use d(5) receive.hyps o' in \<open>auto simp: returned_ok_def taken_from_def sent_to_def\<close>)
next
  case (returns s b)
  note d = hasher_invD [OF returns.prems]
  have c: "mh_log s \<noteq> []" "mh_workers s \<noteq> []" "b = arc_of buf (mh_log s) (length (mh_log s) - 1)"
    using d(4) returns.hyps(1) by (auto simp: caller_ok_def)
  have "[0 ..< length (mh_log s)] = [0 ..< length (mh_log s) - 1] @ [length (mh_log s) - 1]"
    using c(1) upt_Suc_append [of 0 "length (mh_log s) - 1"] by simp
  then have "returned_ok buf (mh_log s) False Between (mh_returned s @ [snd b])"
    using d(5) returns.hyps(1) c by (simp add: returned_ok_def)
  then show ?case using d c returns.hyps(1) by (auto simp: hasher_inv_def caller_ok_def taken_from_def sent_to_def)
next
  case (not_sole s b)
  note d = hasher_invD [OF not_sole.prems]
  have c: "mh_log s \<noteq> []" "b = arc_of buf (mh_log s) (length (mh_log s) - 1)" "\<forall>w \<in> set (mh_workers s). hw_open w"
    using d(4) not_sole.hyps(1) by (auto simp: caller_ok_def)
  have "list_all (\<lambda>x. fst x \<noteq> fst b) (arcs_of (mh_workers s ! i))" if i: "i < length (mh_workers s)" for i
  proof -
    have "belt_ok alg buf (mh_log s) (length (mh_log s)) (length (mh_log s)) (mh_workers s ! i)"
      using d(6) [OF i] c(3) i not_sole.hyps(1) by (simp add: taken_from_def sent_to_def)
    then have "arcs_of (mh_workers s ! i) = [arc_of buf (mh_log s) (length (mh_log s))]" by (simp add: belt_ok_def)
    moreover have "length (mh_log s) \<noteq> length (mh_log s) - 1" using c(1) by (cases "mh_log s") auto
    ultimately show ?thesis unfolding c(2) by (simp add: arc_of_def)
  qed
  then have "sole_owner b (mh_workers s)" by (auto simp: sole_owner_def list_all_length)
  then show ?case using not_sole.hyps(2) by simp
next
  case (close s k)
  note d = hasher_invD [OF close.prems]
  let ?w = "(mh_workers s ! k)\<lparr>hw_open := False, hw_empty := []\<rparr>"
  have b: "belt_ok alg buf (mh_log s) (length (mh_log s)) (length (mh_log s)) (mh_workers s ! k)"
    using d(6) [OF close.hyps(2,3)] close.hyps(1) by (simp add: taken_from_def sent_to_def)
  show ?case
  proof (rule hasher_update [OF close.prems close.hyps(2), where w = ?w])
    show "caller_ok buf (mh_log s) ((mh_workers s)[k := ?w]) (mh_caller (s\<lparr>mh_workers := (mh_workers s)[k := ?w]\<rparr>))"
      using d(4) close.hyps by (auto simp: caller_ok_def nth_list_update)
    show "closed_ok alg buf (mh_log s) ?w" by (rule close_belt [OF b])
  qed (use d(5) close.hyps in \<open>auto simp: returned_ok_def\<close>)
next
  case (joined s k)
  note d = hasher_invD [OF joined.prems]
  show ?case
    using d joined.hyps by (auto simp: hasher_inv_def caller_ok_def returned_ok_def taken_from_def sent_to_def less_Suc_eq)
next
  case (ends s)
  note d = hasher_invD [OF ends.prems]
  show ?case
    using d ends.hyps by (auto simp: hasher_inv_def caller_ok_def returned_ok_def taken_from_def sent_to_def in_set_conv_nth)
qed

lemma hash_call_inv:
  assumes "hash_call s s'" "hasher_inv alg htypes buf s"
  shows "hasher_inv alg htypes buf s'"
  using assms
proof (induction rule: hash_call.induct)
  case (update_none s len bs)
  note d = hasher_invD [OF update_none.prems]
  show ?case using d update_none.hyps by (auto simp: hasher_inv_def caller_ok_def returned_ok_def lens_ok_def)
next
  case (update s len bs)
  note d = hasher_invD [OF update.prems]
  let ?log = "mh_log s @ [(len, bs)]"
  have o': "\<forall>w \<in> set (mh_workers s). hw_open w" using d(4) update.hyps(1) by (simp add: caller_ok_def)
  have "belt_ok alg buf ?log (length (mh_log s)) (length (mh_log s)) (mh_workers s ! i)" if "i < length (mh_workers s)" for i
    using d(6) [OF that] o' that update.hyps(1) by (intro belt_append) (simp add: taken_from_def sent_to_def)
  moreover have "(len, (mh_next s, bs)) = message buf ?log (length ?log)" using d(2) by (simp add: message_def arc_of_def)
  moreover have "map (\<lambda>j. snd (arc_of buf ?log j)) [0 ..< length (mh_log s)] = map (\<lambda>j. snd (arc_of buf (mh_log s) j)) [0 ..< length (mh_log s)]"
    by (simp add: arc_of_append)
  ultimately show ?case
    using d(1-3,5) o' update.hyps
    by (simp add: hasher_inv_def caller_ok_def returned_ok_def lens_ok_def taken_from_def sent_to_def)
next
  case (finalize s)
  note d = hasher_invD [OF finalize.prems]
  show ?case
    using d finalize.hyps by (auto simp: hasher_inv_def caller_ok_def returned_ok_def taken_from_def sent_to_def)
qed

lemma hasher_start: "hasher_inv alg htypes buf (multi_hasher_new alg htypes buf)"
  by (auto simp: hasher_inv_def multi_hasher_new_def worker_start_def comp_def lens_ok_def caller_ok_def returned_ok_def
      belt_ok_def arcs_of_def arc_of_def taken_from_def sent_to_def hash_of_def)

lemma hasher_reachable:
  "(hash_step alg)\<^sup>*\<^sup>* (multi_hasher_new alg htypes buf) s \<Longrightarrow> hasher_inv alg htypes buf s"
proof (induction rule: rtranclp_induct)
  case base
  show ?case by (rule hasher_start)
next
  case (step s s')
  then show ?case unfolding hash_step_def by (blast intro: hash_work_inv hash_call_inv)
qed

lemma map_of_rev_types:
  assumes "map f ws = ts" "\<And>w. w \<in> set ws \<Longrightarrow> g w = h (f w)"
  shows "map_of (rev (map (\<lambda>w. (f w, g w)) ws)) t = (if t \<in> set ts then Some (h t) else None)"
proof -
  have "rev (map (\<lambda>w. (f w, g w)) ws) = map (\<lambda>t. (t, h t)) (rev ts)"
    using assms by (auto simp: rev_map)
  then show ?thesis by (simp add: map_of_map_restrict)
qed

text \<open>C10: in every interleaving of the caller and the hash threads the caller is the only owner of each buffer it takes
  back, and gets them in order, the one of the update before each time (the priming one first); and when \<open>finalize\<close>
  returns, the digest of every type asked for is that of all valid bytes of all updates, in order.\<close>

theorem multi_hasher_digests:
  assumes "(hash_step alg)\<^sup>*\<^sup>* (multi_hasher_new alg htypes buf) s"
  shows "mh_caller s \<noteq> NotSoleOwner \<and>
    (mh_caller s = Between \<and> htypes \<noteq> [] \<longrightarrow> mh_returned s @ [last (buf # map snd (mh_log s))] = buf # map snd (mh_log s)) \<and>
    (mh_caller s = Finalized \<longrightarrow>
       mh_digests s = (\<lambda>t. if t \<in> set htypes then Some (ha_finalize alg (hash_of alg t (mh_log s))) else None))"
proof -
  note d = hasher_invD [OF hasher_reachable [OF assms]]
  have "mh_returned s @ [last (buf # map snd (mh_log s))] = buf # map snd (mh_log s)"
    if "mh_caller s = Between" "htypes \<noteq> []"
  proof -
    have "map (\<lambda>j. snd (arc_of buf (mh_log s) j)) [0 ..< length (mh_log s)] = butlast (buf # map snd (mh_log s))"
      by (rule nth_equalityI) (auto simp: arc_of_def nth_butlast nth_Cons')
    then have "mh_returned s = butlast (buf # map snd (mh_log s))"
      using d(1,5) that by (auto simp: returned_ok_def)
    then show ?thesis by (metis append_butlast_last_id list.distinct(1))
  qed
  moreover have "mh_digests s t = (if t \<in> set htypes then Some (ha_finalize alg (hash_of alg t (mh_log s))) else None)"
    if f: "mh_caller s = Finalized" for t
    unfolding mh_digests_def
  proof (rule map_of_rev_types [OF d(1)])
    fix w assume "w \<in> set (mh_workers s)"
    then obtain i where i: "i < length (mh_workers s)" "mh_workers s ! i = w" unfolding in_set_conv_nth by blast
    then have "hw_digest w \<noteq> None" using d(4) f by (auto simp: caller_ok_def)
    moreover from this have "\<not> hw_open w" using d(6) [of i] i by (auto simp: belt_ok_def)
    ultimately show "the (hw_digest w) = ha_finalize alg (hash_of alg (hw_type w) (mh_log s))"
      using d(7) [of i] i by (auto simp: closed_ok_def)
  qed
  moreover have "mh_caller s \<noteq> NotSoleOwner" using d(4) by (auto simp: caller_ok_def)
  ultimately show ?thesis by auto
qed

subsection \<open>Every call returns\<close>

definition worker_left :: "'h hash_worker \<Rightarrow> nat" where
  "worker_left w = 3 * length (hw_full w) + (case hw_held w of None \<Rightarrow> 0 | Some a \<Rightarrow> 2) + length (hw_empty w) +
     (if hw_digest w = None then 2 else 0) + (if hw_open w then 1 else 0)"

definition caller_left :: "nat \<Rightarrow> hash_caller \<Rightarrow> nat" where
  "caller_left n c =
     (case c of Sending a len k \<Rightarrow> 4 * (n - k) + n + 3 | Receiving k held \<Rightarrow> n - k + 1 | Closing k \<Rightarrow> n - k + 1 | _ \<Rightarrow> 0)"

definition steps_left :: "'h multi_hasher \<Rightarrow> nat" where
  "steps_left s = sum_list (map worker_left (mh_workers s)) + caller_left (length (mh_workers s)) (mh_caller s)"

lemma sum_list_update_nat:
  fixes f :: "'a \<Rightarrow> nat"
  assumes "i < length xs"
  shows "sum_list (map f (xs[i := y])) + f (xs ! i) = sum_list (map f xs) + f y"
  using assms
proof (induction xs arbitrary: i)
  case (Cons x xs)
  then show ?case by (cases i) auto
qed simp

lemma worker_step_left: "worker_step alg w w' \<Longrightarrow> worker_left w' < worker_left w"
  by (induction rule: worker_step.induct) (auto simp: worker_left_def split: option.splits)

lemma hash_work_decreases: "hash_work alg s s' \<Longrightarrow> steps_left s' < steps_left s"
proof (induction rule: hash_work.induct)
  case (worker i s w)
  then show ?case using sum_list_update_nat [OF worker(1), of worker_left w] worker_step_left [OF worker(2)] by (simp add: steps_left_def)
next
  case (send s a len k)
  then show ?case
    using sum_list_update_nat [OF send(2), of worker_left "(mh_workers s ! k)\<lparr>hw_full := [(len, a)]\<rparr>"]
    by (simp add: steps_left_def caller_left_def worker_left_def)
next
  case (receive s k held b rest)
  then show ?case
    using sum_list_update_nat [OF receive(2), of worker_left "(mh_workers s ! k)\<lparr>hw_empty := rest\<rparr>"]
    by (simp add: steps_left_def caller_left_def worker_left_def)
next
  case (close s k)
  then show ?case
    using sum_list_update_nat [OF close(2), of worker_left "(mh_workers s ! k)\<lparr>hw_open := False, hw_empty := []\<rparr>"]
    by (simp add: steps_left_def worker_left_def)
qed (simp_all add: steps_left_def caller_left_def)

lemma belt_works:
  assumes b: "belt_ok alg buf log r s w" and l: "lens_ok log" and e: "hw_empty w = []" "r \<le> s"
  shows "\<exists>w'. worker_step alg w w'"
proof (cases "hw_held w")
  case None
  have "arcs_of w \<noteq> []" using b e(2) by (simp add: belt_ok_def)
  then have "hw_full w = [message buf log s]" "0 < s" "s \<le> length log" using b None e by (auto simp: belt_ok_def arcs_of_def)
  then have f: "hw_full w = [(fst (log ! (s - 1)), arc_of buf log s)]" and m: "log ! (s - 1) \<in> set log" "0 < s"
    by (simp_all add: message_def)
  have "fst (log ! (s - 1)) \<le> length (snd (arc_of buf log s))" using l m by (simp add: lens_ok_def arc_of_def)
  then show ?thesis using worker_step.take [OF _ None f] b by (auto simp: belt_ok_def)
next
  case (Some a)
  then show ?thesis using worker_step.give [OF _ Some _ e(1)] b by (auto simp: belt_ok_def)
qed

lemma belt_takes:
  assumes b: "belt_ok alg buf log s s w" and l: "lens_ok log" and f: "hw_full w \<noteq> []"
  shows "\<exists>w'. worker_step alg w w'"
proof -
  have "length (arcs_of w) = 1" using b by (simp add: belt_ok_def)
  then have "hw_empty w = []" using f by (cases "hw_full w"; cases "hw_empty w") (auto simp: arcs_of_def)
  then show ?thesis using belt_works [OF b l] by simp
qed

lemma closed_works:
  assumes c: "closed_ok alg buf log w" and l: "lens_ok log" and d: "hw_digest w = None"
  shows "\<exists>w'. worker_step alg w w'"
proof (cases "hw_held w")
  case (Some a)
  then show ?thesis using worker_step.give_fails [OF d Some] c by (auto simp: closed_ok_def)
next
  case None
  show ?thesis
  proof (cases "hw_full w")
    case Nil
    then show ?thesis using worker_step.finish [OF d None Nil] c by (auto simp: closed_ok_def)
  next
    case (Cons x xs)
    then have m: "log \<noteq> []" and f: "hw_full w = [(fst (log ! (length log - 1)), arc_of buf log (length log))]"
      using c d by (auto simp: closed_ok_def message_def)
    have "log ! (length log - 1) \<in> set log" using m by simp
    then have "fst (log ! (length log - 1)) \<le> length (snd (arc_of buf log (length log)))" using l m by (simp add: lens_ok_def arc_of_def)
    then show ?thesis using worker_step.take [OF d None f] by blast
  qed
qed

definition returned_call :: "hash_caller \<Rightarrow> bool" where
  "returned_call c \<longleftrightarrow> c = Between \<or> c = Finalized"

lemma hasher_progress:
  assumes inv: "hasher_inv alg htypes buf s" and c: "\<not> returned_call (mh_caller s)"
  shows "\<exists>s'. hash_work alg s s'"
proof -
  note d = hasher_invD [OF inv]
  let ?n = "length (mh_workers s)" and ?m = "length (mh_log s)"
  have step: "\<exists>s'. hash_work alg s s'" if "i < ?n" "\<exists>w. worker_step alg (mh_workers s ! i) w" for i
    using that hash_work.worker by blast
  show ?thesis
  proof (cases "mh_caller s")
    case (Sending a len k)
    then have k: "k \<le> ?n" "\<forall>w \<in> set (mh_workers s). hw_open w" using d(4) by (auto simp: caller_ok_def)
    show ?thesis
    proof (cases "k < ?n")
      case True
      have "belt_ok alg buf (mh_log s) (?m - 1) (?m - 1) (mh_workers s ! k)"
        using d(6) [OF True] k(2) True Sending by (simp add: taken_from_def sent_to_def)
      then show ?thesis
        using hash_work.send [OF Sending True] belt_takes [OF _ d(3)] step [OF True] by blast
    next
      case False
      then have "mh_caller s = Sending a len ?n" using Sending k(1) by simp
      then show ?thesis by (blast intro: hash_work.sent)
    qed
  next
    case (Receiving k held)
    then have k: "k \<le> ?n" "\<forall>w \<in> set (mh_workers s). hw_open w" "mh_workers s \<noteq> []" "held = None \<Longrightarrow> k = 0"
      using d(4) by (auto simp: caller_ok_def split: if_splits)
    show ?thesis
    proof (cases "k < ?n")
      case True
      have b: "belt_ok alg buf (mh_log s) (?m - 1) ?m (mh_workers s ! k)"
        using d(6) [OF True] k(2) True Receiving by (simp add: taken_from_def sent_to_def)
      show ?thesis
      proof (cases "hw_empty (mh_workers s ! k)")
        case Nil
        then show ?thesis using belt_works [OF b d(3) Nil] step [OF True] by simp
      next
        case (Cons x rest)
        then show ?thesis using hash_work.receive [OF Receiving True Cons] by blast
      qed
    next
      case False
      then obtain b where "mh_caller s = Receiving ?n (Some b)" using Receiving k by (cases held) auto
      then show ?thesis by (blast intro: hash_work.returns hash_work.not_sole)
    qed
  next
    case (Closing k)
    then have k: "k \<le> ?n" using d(4) by (auto simp: caller_ok_def)
    show ?thesis
    proof (cases "k < ?n")
      case True
      show ?thesis
      proof (cases "hw_open (mh_workers s ! k)")
        case open': True
        then show ?thesis using hash_work.close [OF Closing True] by blast
      next
        case closed: False
        then show ?thesis
          using hash_work.joined [OF Closing True closed] closed_works [OF d(7) [OF True closed] d(3)] step [OF True] by blast
      qed
    next
      case False
      then have "mh_caller s = Closing ?n" using Closing k by simp
      then show ?thesis by (blast intro: hash_work.ends)
    qed
  qed (use c d(4) in \<open>auto simp: returned_call_def caller_ok_def\<close>)
qed

text \<open>C23: no call can hang: from every reachable state, in every interleaving, the call that is under way goes on until it
  has returned, after at most as many steps as \<open>steps_left\<close> says.\<close>

theorem hasher_calls_return:
  assumes "(hash_step alg)\<^sup>*\<^sup>* (multi_hasher_new alg htypes buf) s"
  shows "(\<exists>s'. (hash_work alg)\<^sup>*\<^sup>* s s' \<and> returned_call (mh_caller s')) \<and>
    (\<forall>n s'. (hash_work alg ^^ n) s s' \<longrightarrow>
       n \<le> steps_left s \<and> (returned_call (mh_caller s') \<or> (\<exists>t. hash_work alg s' t)))"
proof -
  have inv: "hasher_inv alg htypes buf s" by (rule hasher_reachable [OF assms])
  have run: "hasher_inv alg htypes buf s' \<and> n + steps_left s' \<le> steps_left s" if "(hash_work alg ^^ n) s s'" for n s'
    using that
  proof (induction n arbitrary: s')
    case (Suc n)
    then obtain t where t: "(hash_work alg ^^ n) s t" "hash_work alg t s'" by auto
    then show ?case using Suc.IH [OF t(1)] hash_work_decreases [OF t(2)] hash_work_inv [OF t(2)] by auto
  qed (use inv in simp)
  have "\<exists>s'. (hash_work alg)\<^sup>*\<^sup>* s s' \<and> returned_call (mh_caller s')"
    using inv
  proof (induction "steps_left s" arbitrary: s rule: less_induct)
    case less
    show ?case
    proof (cases "returned_call (mh_caller s)")
      case False
      then obtain t where t: "hash_work alg s t" using hasher_progress [OF less.prems] by blast
      then obtain s' where "(hash_work alg)\<^sup>*\<^sup>* t s'" "returned_call (mh_caller s')"
        using less.hyps [OF hash_work_decreases hash_work_inv] less.prems by blast
      then show ?thesis using t by (meson converse_rtranclp_into_rtranclp)
    qed blast
  qed
  then show ?thesis using run hasher_progress by (meson add_leD1)
qed

subsection \<open>Hashing four bytes\<close>

text \<open>One type, one update, and a hash that keeps the bytes.\<close>

definition keep_alg :: "bytes hash_alg" where
  "keep_alg = \<lparr>ha_new = (\<lambda>t. []), ha_update = (\<lambda>h bs. h @ bs), ha_finalize = (\<lambda>h. h)\<rparr>"

definition keep_worker :: "(nat \<times> arc) list \<Rightarrow> arc list \<Rightarrow> arc option \<Rightarrow> bytes \<Rightarrow> bytes option \<Rightarrow> bool \<Rightarrow> bytes hash_worker" where
  "keep_worker f e h b d opn =
     \<lparr>hw_type = MD5, hw_full = f, hw_empty = e, hw_held = h, hw_hash = b, hw_digest = d, hw_open = opn\<rparr>"

definition keep_state :: "bytes hash_worker \<Rightarrow> hash_caller \<Rightarrow> bytes list \<Rightarrow> bytes multi_hasher" where
  "keep_state w c rs =
     \<lparr>mh_workers = [w], mh_caller = c, mh_next = 2, mh_log = [(4, [1, 2, 3, 4, 5])], mh_returned = rs\<rparr>"

abbreviation keep_buf :: arc where
  "keep_buf \<equiv> (1, [1, 2, 3, 4, 5])"

lemma keep_run:
  "(hash_step keep_alg)\<^sup>*\<^sup>* (multi_hasher_new keep_alg [MD5] [0])
     (keep_state (keep_worker [] [(0, [0])] None [] None True) (Sending keep_buf 4 0) [])"
  "(hash_step keep_alg)\<^sup>*\<^sup>* (keep_state (keep_worker [] [(0, [0])] None [] None True) (Sending keep_buf 4 0) [])
     (keep_state (keep_worker [] [] None [1, 2, 3, 4] (Some [1, 2, 3, 4]) False) Finalized [[0]])"
proof -
  note K = keep_state_def keep_worker_def
  note W = disjI1 [THEN hash_step_def [THEN iffD2]] and C = disjI2 [THEN hash_step_def [THEN iffD2]]
  have "hash_step keep_alg (multi_hasher_new keep_alg [MD5] [0])
     (keep_state (keep_worker [] [(0, [0])] None [] None True) (Sending keep_buf 4 0) [])"
    using C [OF hash_call.update [of "multi_hasher_new keep_alg [MD5] [0]" 4 "[1, 2, 3, 4, 5]"], of keep_alg]
    by (simp add: K multi_hasher_new_def worker_start_def keep_alg_def numeral_2_eq_2)
  then show "(hash_step keep_alg)\<^sup>*\<^sup>* (multi_hasher_new keep_alg [MD5] [0])
     (keep_state (keep_worker [] [(0, [0])] None [] None True) (Sending keep_buf 4 0) [])" by simp
  let ?s = "\<lambda>f e h b d opn c rs. keep_state (keep_worker f e h b d opn) c rs"
  have 1: "hash_step keep_alg (?s [] [(0, [0])] None [] None True (Sending keep_buf 4 0) [])
     (?s [(4, keep_buf)] [(0, [0])] None [] None True (Sending keep_buf 4 1) [])"
    using W [OF hash_work.send [of "?s [] [(0, [0])] None [] None True (Sending keep_buf 4 0) []" keep_buf 4 0 keep_alg]] by (simp add: K)
  have 2: "hash_step keep_alg (?s [(4, keep_buf)] [(0, [0])] None [] None True (Sending keep_buf 4 1) [])
     (?s [(4, keep_buf)] [(0, [0])] None [] None True (Receiving 0 None) [])"
    using W [OF hash_work.sent [of "?s [(4, keep_buf)] [(0, [0])] None [] None True (Sending keep_buf 4 1) []" keep_buf 4 keep_alg]]
    by (simp add: K)
  have 3: "hash_step keep_alg (?s [(4, keep_buf)] [(0, [0])] None [] None True (Receiving 0 None) [])
     (?s [(4, keep_buf)] [] None [] None True (Receiving 1 (Some (0, [0]))) [])"
    using W [OF hash_work.receive [of "?s [(4, keep_buf)] [(0, [0])] None [] None True (Receiving 0 None) []" 0 None "(0, [0])" "[]" keep_alg]]
    by (simp add: K)
  have 4: "hash_step keep_alg (?s [(4, keep_buf)] [] None [] None True (Receiving 1 (Some (0, [0]))) [])
     (?s [(4, keep_buf)] [] None [] None True Between [[0]])"
    using W [OF hash_work.returns [of "?s [(4, keep_buf)] [] None [] None True (Receiving 1 (Some (0, [0]))) []" "(0, [0])" keep_alg]]
    by (simp add: K sole_owner_def arcs_of_def)
  have 5: "hash_step keep_alg (?s [(4, keep_buf)] [] None [] None True Between [[0]])
     (?s [(4, keep_buf)] [] None [] None True (Closing 0) [[0]])"
    using C [OF hash_call.finalize [of "?s [(4, keep_buf)] [] None [] None True Between [[0]]"], of keep_alg] by (simp add: K)
  have 6: "hash_step keep_alg (?s [(4, keep_buf)] [] None [] None True (Closing 0) [[0]])
     (?s [(4, keep_buf)] [] None [] None False (Closing 0) [[0]])"
    using W [OF hash_work.close [of "?s [(4, keep_buf)] [] None [] None True (Closing 0) [[0]]" 0 keep_alg]] by (simp add: K)
  have 7: "hash_step keep_alg (?s [(4, keep_buf)] [] None [] None False (Closing 0) [[0]])
     (?s [] [] (Some keep_buf) [1, 2, 3, 4] None False (Closing 0) [[0]])"
    using W [OF hash_work.worker [OF _ worker_step.take, of 0 "?s [(4, keep_buf)] [] None [] None False (Closing 0) [[0]]" 4 keep_buf "[]" keep_alg]]
    by (simp add: K keep_alg_def)
  have 8: "hash_step keep_alg (?s [] [] (Some keep_buf) [1, 2, 3, 4] None False (Closing 0) [[0]])
     (?s [] [] None [1, 2, 3, 4] (Some [1, 2, 3, 4]) False (Closing 0) [[0]])"
    using W [OF hash_work.worker [OF _ worker_step.give_fails, of 0 "?s [] [] (Some keep_buf) [1, 2, 3, 4] None False (Closing 0) [[0]]" keep_buf keep_alg]]
    by (simp add: K keep_alg_def)
  have 9: "hash_step keep_alg (?s [] [] None [1, 2, 3, 4] (Some [1, 2, 3, 4]) False (Closing 0) [[0]])
     (?s [] [] None [1, 2, 3, 4] (Some [1, 2, 3, 4]) False (Closing 1) [[0]])"
    using W [OF hash_work.joined [of "?s [] [] None [1, 2, 3, 4] (Some [1, 2, 3, 4]) False (Closing 0) [[0]]" 0 keep_alg]] by (simp add: K)
  have 10: "hash_step keep_alg (?s [] [] None [1, 2, 3, 4] (Some [1, 2, 3, 4]) False (Closing 1) [[0]])
     (?s [] [] None [1, 2, 3, 4] (Some [1, 2, 3, 4]) False Finalized [[0]])"
    using W [OF hash_work.ends [of "?s [] [] None [1, 2, 3, 4] (Some [1, 2, 3, 4]) False (Closing 1) [[0]]" keep_alg]] by (simp add: K)
  show "(hash_step keep_alg)\<^sup>*\<^sup>* (?s [] [(0, [0])] None [] None True (Sending keep_buf 4 0) [])
     (?s [] [] None [1, 2, 3, 4] (Some [1, 2, 3, 4]) False Finalized [[0]])"
    using 1 2 3 4 5 6 7 8 9 10 by (meson converse_rtranclp_into_rtranclp rtranclp.rtrancl_refl)
qed

theorem multi_hasher_digests_witness:
  "mh_digests (keep_state (keep_worker [] [] None [1, 2, 3, 4] (Some [1, 2, 3, 4]) False) Finalized [[0]]) MD5 = Some [1, 2, 3, 4]"
  using multi_hasher_digests [OF rtranclp_trans [OF keep_run]]
  by (simp add: keep_state_def hash_of_def keep_alg_def)

theorem hasher_calls_return_witness:
  "\<exists>s'. (hash_work keep_alg)\<^sup>*\<^sup>* (keep_state (keep_worker [] [(0, [0])] None [] None True) (Sending keep_buf 4 0) []) s' \<and>
     returned_call (mh_caller s')"
  using hasher_calls_return [OF keep_run(1)] by blast

subsection \<open>Digests of streams\<close>

text \<open>Hashing in pieces is hashing the whole.\<close>

definition streaming :: "'h hash_alg \<Rightarrow> bool" where
  "streaming alg \<longleftrightarrow>
     (\<forall>h. ha_update alg h [] = h) \<and> (\<forall>h a b. ha_update alg (ha_update alg h a) b = ha_update alg h (a @ b))"

definition digest :: "'h hash_alg \<Rightarrow> hash_type \<Rightarrow> bytes \<Rightarrow> bytes" where
  "digest alg t img = ha_finalize alg (ha_update alg (ha_new alg t) img)"

lemma hash_of_streaming:
  assumes "streaming alg"
  shows "hash_of alg t log = ha_update alg (ha_new alg t) (concat (map (\<lambda>(len, bs). take len bs) log))"
proof -
  have "fold (\<lambda>(len, bs) h. ha_update alg h (take len bs)) log h = ha_update alg h (concat (map (\<lambda>(len, bs). take len bs) log))" for h
    using assms by (induction log arbitrary: h) (auto simp: streaming_def)
  then show ?thesis by (simp add: hash_of_def)
qed

lemma keep_alg_streaming: "streaming keep_alg"
  by (simp add: streaming_def keep_alg_def)

end
