(* ===== verification/HashPrograms.thy ===== *)
theory HashPrograms
  imports NbdServer Hasher
begin

text \<open>
  The programs that print the SHA1 of raw and VMDK images, \<open>rawdisk/src/main.rs\<close> and \<open>vmdk/src/main.rs\<close>: each image is
  opened and read from beginning to end into the hash; the first error ends the program.  The two loops are
  the same text.  The progress display is left out.

  Shown: the hash that is printed is the one of the whole image, and every image before the first one that
  fails is printed.
\<close>

subsection \<open>The loop\<close>

definition HASH_BUF :: nat where
  "HASH_BUF = 1048576"

text \<open>\<open>None\<close> is a loop, or a read, that never ends; a read of no bytes stops the loop.\<close>

partial_function (option) hash_loop ::
    "(nat \<Rightarrow> (bytes, 'e) result option) \<Rightarrow> nat \<Rightarrow> ('h \<Rightarrow> bytes \<Rightarrow> 'h) \<Rightarrow> nat \<Rightarrow> 'h \<Rightarrow> ('h, 'e) result option" where
  "hash_loop rd image_size upd offset hasher =
     (if offset < image_size then
        Option.bind (rd offset) (\<lambda>r.
          case r of
            Ok bs \<Rightarrow>
              if bs = [] then Some (Ok hasher)
              else hash_loop rd image_size upd (u64_add offset (length bs)) (upd hasher bs)
          | Err e \<Rightarrow> Some (Err e)
          | Panic \<Rightarrow> Some Panic)
      else Some (Ok hasher))"

datatype ('o, 'r) hash_error = HashOpen 'o | HashRead 'r

definition finish_hash :: "'h hash_alg \<Rightarrow> ('h, 'r) result \<Rightarrow> (bytes, ('o, 'r) hash_error) result" where
  "finish_hash alg r = and_then (map_err HashRead r) (\<lambda>h. Ok (ha_finalize alg h))"

text \<open>\<open>mk\<close> gives the cache over the sources of the opened image.\<close>

definition raw_do_hash ::
    "'h hash_alg \<Rightarrow> raw_sys \<Rightarrow> (source_slots \<Rightarrow> cache) \<Rightarrow> string \<Rightarrow>
      (bytes, (source_open_error, raw_read_error) hash_error) result option" where
  "raw_do_hash alg sys mk path =
     Option.bind (rawdisk_open sys path) (\<lambda>r.
       case r of
         Ok rd \<Rightarrow>
           map_option (finish_hash alg)
             (hash_loop (\<lambda>off. Some (raw_read_at_offset (mk (rr_slots rd)) rd off HASH_BUF)) (rr_image_size rd)
               (ha_update alg) 0 (ha_new alg SHA1))
       | Err e \<Rightarrow> Some (Err (HashOpen e))
       | Panic \<Rightarrow> Some Panic)"

text \<open>\<open>to_url\<close> is \<open>path_or_url_to_url\<close>.\<close>

definition vmdk_do_hash ::
    "'h hash_alg \<Rightarrow> vmdk_sys \<Rightarrow> (string \<Rightarrow> string option) \<Rightarrow> 'd inflater \<Rightarrow> string \<Rightarrow>
      (bytes, (open_error, VmdkStorage.read_error) hash_error) result option" where
  "vmdk_do_hash alg sys to_url infl path =
     (case to_url path of
        None \<Rightarrow> Some (Err (HashOpen (open_error_from (BadPath path))))
      | Some url \<Rightarrow>
          Option.bind (vmdk_open sys url) (\<lambda>r.
            case r of
              Ok rd \<Rightarrow>
                map_option (finish_hash alg)
                  (hash_loop (\<lambda>off. vmdk_read_at_offset (sys_byteorder sys) infl (sys_cache sys (vr_slots rd)) rd off HASH_BUF)
                    (vr_image_size rd) (ha_update alg) 0 (ha_new alg SHA1))
            | Err e \<Rightarrow> Some (Err (HashOpen e))
            | Panic \<Rightarrow> Some Panic))"

text \<open>\<open>run\<close>: the lines printed, each a path and a digest, and how it ended.\<close>

primrec hash_run ::
    "(string \<Rightarrow> (bytes, 'e) result option) \<Rightarrow> string list \<Rightarrow> (string \<times> bytes) list \<Rightarrow>
      ((string \<times> bytes) list \<times> (unit, 'e) result) option" where
  "hash_run do_hash [] out = Some (out, Ok ())"
| "hash_run do_hash (p # ps) out =
     Option.bind (do_hash p) (\<lambda>r.
       case r of
         Ok d \<Rightarrow> hash_run do_hash ps (out @ [(p, d)])
       | Err e \<Rightarrow> Some (out, Err e)
       | Panic \<Rightarrow> Some (out, Panic))"

definition raw_hash_program where
  "raw_hash_program alg sys mk paths = hash_run (raw_do_hash alg sys mk) paths []"

definition vmdk_hash_program where
  "vmdk_hash_program alg sys to_url infl paths = hash_run (vmdk_do_hash alg sys to_url infl) paths []"

subsection \<open>The hash of the whole image\<close>

lemma hash_loop_digest:
  assumes reads: "\<And>off. off < length img \<Longrightarrow> rd off = Some (Ok (sub_list img off (min HASH_BUF (length img - off))))"
    and lim: "length img < u64_lim" and alg: "streaming alg" and off: "offset \<le> length img"
  shows "hash_loop rd (length img) (ha_update alg) offset (ha_update alg h (take offset img)) = Some (Ok (ha_update alg h img))"
  using off
proof (induction "length img - offset" arbitrary: offset rule: less_induct)
  case less
  show ?case
  proof (cases "offset < length img")
    case True
    let ?n = "min HASH_BUF (length img - offset)"
    have n: "0 < ?n" "offset + ?n \<le> length img" using True by (auto simp: HASH_BUF_def)
    have l: "length (sub_list img offset ?n) = ?n" "sub_list img offset ?n \<noteq> []"
      using n by (auto simp: length_sub_list sub_list_def)
    have u: "u64_add offset ?n = offset + ?n" using n(2) lim by (intro u64_add_exact) linarith
    have t: "take (offset + ?n) img = take offset img @ sub_list img offset ?n" by (simp add: take_add sub_list_def)
    have "hash_loop rd (length img) (ha_update alg) offset (ha_update alg h (take offset img)) =
        hash_loop rd (length img) (ha_update alg) (offset + ?n) (ha_update alg h (take (offset + ?n) img))"
      using True l u alg by (subst hash_loop.simps) (simp add: reads t streaming_def)
    also have "\<dots> = Some (Ok (ha_update alg h img))"
      by (rule less.hyps) (use n True in linarith)+
    finally show ?thesis .
  next
    case False
    then show ?thesis using less.prems by (subst hash_loop.simps) simp
  qed
qed

lemma finish_hash_digest:
  assumes "\<And>off. off < length img \<Longrightarrow> rd off = Some (Ok (sub_list img off (min HASH_BUF (length img - off))))"
    and "length img < u64_lim" "streaming alg"
  shows "map_option (finish_hash alg) (hash_loop rd (length img) (ha_update alg) 0 (ha_new alg SHA1)) =
    Some (Ok (digest alg SHA1 img))"
  using hash_loop_digest [OF assms, of 0 "ha_new alg SHA1"] assms(3)
  by (simp add: finish_hash_def digest_def streaming_def)

text \<open>An image that can be opened and read, and its bytes.\<close>

definition raw_image :: "raw_sys \<Rightarrow> (string \<Rightarrow> bytes) \<Rightarrow> string \<Rightarrow> bytes \<Rightarrow> bool" where
  "raw_image sys fs path img \<longleftrightarrow>
     (\<exists>url segs rd. rs_path_to_url sys path = Some url \<and> raw_segment_list sys path url = Some (Ok segs) \<and>
        rawdisk_open sys path = Some (Ok rd) \<and> length segs < u64_lim \<and> length img + HASH_BUF < u64_lim \<and>
        img = concat (map fs segs))"

definition vmdk_image :: "vmdk_sys \<Rightarrow> (string \<Rightarrow> string option) \<Rightarrow> 'd inflater \<Rightarrow> string \<Rightarrow> bytes \<Rightarrow> bool" where
  "vmdk_image sys to_url infl path img \<longleftrightarrow>
     (\<exists>url rd. to_url path = Some url \<and> vmdk_open sys url = Some (Ok rd) \<and> length img + HASH_BUF < u64_lim \<and>
        vmdk_holds (sys_byteorder sys) infl (sys_cache sys (vr_slots rd), rd) img)"

lemma raw_do_hash_digest:
  assumes "file_backed sys fs" "raw_image sys fs path img" "streaming alg"
  shows "raw_do_hash alg sys direct_cache path = Some (Ok (digest alg SHA1 img))"
proof -
  obtain url segs rd where r: "rs_path_to_url sys path = Some url" "raw_segment_list sys path url = Some (Ok segs)"
    "rawdisk_open sys path = Some (Ok rd)" "length segs < u64_lim" "length img + HASH_BUF < u64_lim" "img = concat (map fs segs)"
    using assms(2) unfolding raw_image_def by blast
  have ok: "segments_ok (direct_cache (rr_slots rd)) (map fs segs) rd"
    using rawdisk_open_segments [OF assms(1) r(1,2) _ r(4,3)] r(5,6) by simp
  then have sz: "rr_image_size rd = length img" using r(6) by (simp add: segments_ok_def)
  have "raw_read_at_offset (direct_cache (rr_slots rd)) rd off HASH_BUF = Ok (sub_list img off (min HASH_BUF (length img - off)))"
    if "off < length img" for off
    using raw_read_slices [OF ok, of off HASH_BUF] that r(5,6) sz by simp
  then show ?thesis
    using finish_hash_digest [of img "\<lambda>off. Some (raw_read_at_offset (direct_cache (rr_slots rd)) rd off HASH_BUF)" alg]
      r(3,5) assms(3) sz by (simp add: raw_do_hash_def)
qed

lemma vmdk_holds_read_cut:
  assumes "vmdk_holds bo infl (c, rd) d" "off < length d" "off + n < u64_lim"
  shows "vmdk_read_at_offset bo infl c rd off n = Some (Ok (sub_list d off (min n (length d - off))))"
proof -
  obtain files k spans where wf: "wf_reader c files k spans rd" "0 < k" "length d = k * SECTOR_SIZE"
    and img: "\<And>o'. o' < length d \<Longrightarrow> image_byte bo infl c files (vr_extents rd) o' = Some (d ! o')"
    using assms(1) by (auto simp: vmdk_holds_def)
  let ?n = "min n (length d - off)"
  have m: "min (off + n) (k * SECTOR_SIZE) - off = ?n" using assms(2) wf(3) by (simp add: min_def) linarith
  obtain res where res: "vmdk_read_at_offset bo infl c rd off n = Some res"
    "answers (image_byte bo infl c files (vr_extents rd)) off (min (off + n) (k * SECTOR_SIZE)) [] res"
    using vmdk_read_answers [OF wf(1,2) _ assms(3), of bo infl] assms(2) wf(3) by auto
  have b: "image_byte bo infl c files (vr_extents rd) (off + i) = Some (d ! (off + i))" if "i < ?n" for i
    using that by (intro img) (simp add: less_diff_conv add.commute)
  then obtain bs where bs: "res = Ok bs" "length bs = ?n" "\<forall>i < ?n. Some (d ! (off + i)) = Some (bs ! i)"
    using res(2) unfolding answers_def m by (metis append_Nil option.distinct(1))
  have "bs = sub_list d off ?n"
    using bs assms(2) by (intro nth_equalityI) (auto simp: nth_sub_list)
  then show ?thesis using res(1) bs(1) by simp
qed

lemma vmdk_do_hash_digest:
  assumes "vmdk_image sys to_url infl path img" "streaming alg"
  shows "vmdk_do_hash alg sys to_url infl path = Some (Ok (digest alg SHA1 img))"
proof -
  obtain url rd where r: "to_url path = Some url" "vmdk_open sys url = Some (Ok rd)" "length img + HASH_BUF < u64_lim"
    "vmdk_holds (sys_byteorder sys) infl (sys_cache sys (vr_slots rd), rd) img"
    using assms(1) unfolding vmdk_image_def by blast
  have sz: "vr_image_size rd = length img" using vmdk_holds_size [OF r(4)] by (simp add: vmdk_adapter_def)
  show ?thesis
    using finish_hash_digest [of img "\<lambda>off. vmdk_read_at_offset (sys_byteorder sys) infl (sys_cache sys (vr_slots rd)) rd off HASH_BUF" alg]
      vmdk_holds_read_cut [OF r(4)] r(1-3) assms(2) sz by (simp add: vmdk_do_hash_def)
qed

subsection \<open>The whole program\<close>

lemma hash_run_append:
  "(\<And>p. p \<in> set ps \<Longrightarrow> do_hash p = Some (Ok (d p))) \<Longrightarrow>
    hash_run do_hash (ps @ rest) out = hash_run do_hash rest (out @ map (\<lambda>p. (p, d p)) ps)"
  by (induction ps arbitrary: out) auto

text \<open>C26: both programs print the SHA1 of the whole image for every image given, in order; and one that fails ends the
  program with its error, after the lines of all images before it and before any after it.\<close>

theorem hash_programs_print_digests:
  assumes "streaming alg" "file_backed sys fs" "\<forall>p \<in> set ps. raw_image sys fs p (img p)"
    and "\<forall>p \<in> set qs. vmdk_image vsys to_url infl p (img p)"
  shows "raw_hash_program alg sys direct_cache ps = Some (map (\<lambda>p. (p, digest alg SHA1 (img p))) ps, Ok ()) \<and>
    vmdk_hash_program alg vsys to_url infl qs = Some (map (\<lambda>p. (p, digest alg SHA1 (img p))) qs, Ok ()) \<and>
    (\<forall>p e rest. raw_do_hash alg sys direct_cache p = Some (Err e) \<longrightarrow>
       raw_hash_program alg sys direct_cache (ps @ p # rest) = Some (map (\<lambda>p. (p, digest alg SHA1 (img p))) ps, Err e)) \<and>
    (\<forall>p e rest. vmdk_do_hash alg vsys to_url infl p = Some (Err e) \<longrightarrow>
       vmdk_hash_program alg vsys to_url infl (qs @ p # rest) = Some (map (\<lambda>p. (p, digest alg SHA1 (img p))) qs, Err e))"
proof -
  have "hash_run (raw_do_hash alg sys direct_cache) (ps @ rest) out =
      hash_run (raw_do_hash alg sys direct_cache) rest (out @ map (\<lambda>p. (p, digest alg SHA1 (img p))) ps)" for rest out
    by (rule hash_run_append) (use raw_do_hash_digest [OF assms(2) _ assms(1)] assms(3) in blast)
  from this [of "[]"] this have raw: "raw_hash_program alg sys direct_cache (ps @ rest) =
      hash_run (raw_do_hash alg sys direct_cache) rest (map (\<lambda>p. (p, digest alg SHA1 (img p))) ps)" for rest
    by (simp add: raw_hash_program_def)
  have "hash_run (vmdk_do_hash alg vsys to_url infl) (qs @ rest) out =
      hash_run (vmdk_do_hash alg vsys to_url infl) rest (out @ map (\<lambda>p. (p, digest alg SHA1 (img p))) qs)" for rest out
    by (rule hash_run_append) (use vmdk_do_hash_digest [OF _ assms(1)] assms(4) in blast)
  then have vmdk: "vmdk_hash_program alg vsys to_url infl (qs @ rest) =
      hash_run (vmdk_do_hash alg vsys to_url infl) rest (map (\<lambda>p. (p, digest alg SHA1 (img p))) qs)" for rest
    by (simp add: vmdk_hash_program_def)
  show ?thesis using raw [of "[]"] vmdk [of "[]"] by (auto simp: raw vmdk)
qed

text \<open>The three segments of a raw image, and a VMDK with one extent of zeros.\<close>

lemma sample_raw_image: "raw_image sample_raw_sys sample_fs ''d.002'' [1, 2, 3, 4, 5, 6]"
  using sample_raw_open unfolding raw_image_def
  by (auto simp: sample_raw_sys_def sample_fs_def HASH_BUF_def u64_lim_def)

lemma sample_vmdk_opens:
  "case vmdk_open sample_sys ''a'' of
     Some (Ok rd) \<Rightarrow> vr_image_size rd = 2048 \<and> vr_spans rd = byte_spans [(0, (4, 0))] \<and>
       vr_extents rd = [\<lparr>ex_start_sector = 0, ex_sectors = 4, ex_storage = Zero\<rparr>]
   | _ \<Rightarrow> False"
  by code_simp

lemma sample_vmdk_image: "vmdk_image sample_sys Some stored_inflater ''a'' (replicate 2048 0)"
proof -
  obtain rd where rd: "vmdk_open sample_sys ''a'' = Some (Ok rd)" "vr_image_size rd = 2048"
    "vr_spans rd = byte_spans [(0, (4, 0))]" "vr_extents rd = [\<lparr>ex_start_sector = 0, ex_sectors = 4, ex_storage = Zero\<rparr>]"
    using sample_vmdk_opens by (auto split: option.splits result.splits)
  have "wf_spans [(0, (4, 0 :: nat))]" by (auto simp: wf_spans_def bt_inv_def ordered_spans_def split: if_splits)
  then have "wf_reader (direct_cache (vr_slots rd)) (\<lambda>i. []) 4 [(0, (4, 0))] rd"
    using rd by (auto simp: wf_reader_def routed_def SECTOR_SIZE_def u64_lim_def ends_below_def span_val_def bt_last_le_def
        extent_covers_def wf_extent_def split: if_splits)
  moreover have "image_byte std_byteorder stored_inflater (direct_cache (vr_slots rd)) (\<lambda>i. []) (vr_extents rd) off = Some 0"
    if "off < 2048" for off
    using that rd(4) by (auto simp: image_byte_def SECTOR_SIZE_def extent_covers_def)
  ultimately have "vmdk_holds std_byteorder stored_inflater (direct_cache (vr_slots rd), rd) (replicate 2048 0)"
    unfolding vmdk_holds_def by (intro exI [of _ "\<lambda>i. []"] exI [of _ 4] exI [of _ "[(0, (4, 0))]"]) (simp add: SECTOR_SIZE_def)
  then show ?thesis using rd(1) unfolding vmdk_image_def by (auto simp: sample_sys_def HASH_BUF_def u64_lim_def)
qed

theorem hash_programs_print_digests_witness:
  "raw_hash_program keep_alg sample_raw_sys direct_cache [''d.002''] = Some ([(''d.002'', [1, 2, 3, 4, 5, 6])], Ok ()) \<and>
   vmdk_hash_program keep_alg sample_sys Some stored_inflater [''a''] = Some ([(''a'', replicate 2048 0)], Ok ())"
proof -
  have "file_backed sample_raw_sys sample_fs" by (simp add: file_backed_def sample_raw_sys_def)
  then show ?thesis
    using hash_programs_print_digests [OF keep_alg_streaming, of sample_raw_sys sample_fs "[''d.002'']"
        "\<lambda>p. if p = ''d.002'' then [1, 2, 3, 4, 5, 6] else replicate 2048 0" "[''a'']" sample_sys Some stored_inflater]
      sample_raw_image sample_vmdk_image
    by (simp add: digest_def keep_alg_def)
qed

end
