(* ===== verification/E01Sections.thy ===== *)
theory E01Sections
  imports ImageSource RustStr
begin

text \<open>
  The section chain of one E01 segment file: \<open>e01/src/sec_read.rs\<close>, \<open>segment.rs\<close>, \<open>error.rs\<close>, the generated
  parsers that are checked in under \<open>e01/ksy/pre-generated\<close>, and the loop over the sections in
  \<open>read_segment\<close> of \<open>e01_reader.rs\<close>.

  The runtime of the generated parsers, the crate \<open>kaitai\<close>, is a parameter (\<open>ewf_env\<close>): a stream is a value
  of the type \<open>'io\<close>, with its own position, so that a clone of a stream is the value before the reads
  that follow.  \<open>ewf_env_ok\<close> says what a stream over a byte string documents.  The Adler-32 sum of the crate
  \<open>simd_adler32\<close> is a parameter too.

  Shown: the chunks of a table are chained (each ends where the next begins, and none ends before it
  begins) and there are at most \<open>MAX_TABLE_ENTRIES\<close> of them; reading a segment ends on every input,
  also when the sections point backwards; an encoded table is read back.
\<close>

subsection \<open>Errors\<close>

datatype kerror = KError string

datatype e01_io_error = E01Io io_error | E01Read kerror | E01Seek nat kerror

datatype lib_error =
    LibIoError e01_io_error
  | BadSectionChecksum string nat nat
  | DeserializationFailed string kerror
  | UnexpectedVolumeSize nat
  | UnknownCompressionMethod nat
  | InvalidSegmentFileHeader
  | CorruptChunkTable nat
  | TooManyTableEntries nat

definition MAX_TABLE_ENTRIES :: nat where
  "MAX_TABLE_ENTRIES = 65534"

subsection \<open>The parser runtime\<close>

record 'io ewf_env =
  k_read_bytes :: "'io \<Rightarrow> nat \<Rightarrow> (bytes \<times> 'io, kerror) result"
  k_read_le :: "'io \<Rightarrow> nat \<Rightarrow> (nat \<times> 'io, kerror) result"
  k_seek :: "'io \<Rightarrow> nat \<Rightarrow> ('io, kerror) result"
  k_pos :: "'io \<Rightarrow> nat"
  k_size :: "'io \<Rightarrow> nat"
  k_to_str :: "bytes \<Rightarrow> (string, kerror) result"
  k_adler32 :: "bytes \<Rightarrow> (nat, io_error) result"

text \<open>\<open>k_read_le io k\<close> reads an integer of \<open>k\<close> bytes: \<open>read_u1\<close>, \<open>read_u2le\<close>, \<open>read_u4le\<close>, \<open>read_u8le\<close>.\<close>

subsection \<open>Generated parsers\<close>

record ewf_section_descriptor =
  sd_type_string :: string
  sd_next_offset :: nat
  sd_size :: nat
  sd_checksum :: nat

definition ewf_section_descriptor_v1 ::
    "'io ewf_env \<Rightarrow> 'io \<Rightarrow> (ewf_section_descriptor \<times> 'io, kerror) result" where
  "ewf_section_descriptor_v1 k io =
     and_then (k_read_bytes k io 16) (\<lambda>(t, io).
     and_then (k_to_str k t) (\<lambda>ty.
     and_then (k_read_le k io 8) (\<lambda>(next_offset, io).
     and_then (k_read_le k io 8) (\<lambda>(sz, io).
     and_then (k_read_bytes k io 40) (\<lambda>(_, io).
     and_then (k_read_le k io 4) (\<lambda>(crc, io).
       Ok (\<lparr>sd_type_string = ty, sd_next_offset = next_offset, sd_size = sz, sd_checksum = crc\<rparr>, io)))))))"

record ewf_table_header =
  th_entry_count :: nat
  th_table_base_offset :: nat
  th_checksum :: nat

definition ewf_table_header_read ::
    "'io ewf_env \<Rightarrow> 'io \<Rightarrow> (ewf_table_header \<times> 'io, kerror) result" where
  "ewf_table_header_read k io =
     and_then (k_read_le k io 4) (\<lambda>(n, io).
     and_then (k_read_bytes k io 4) (\<lambda>(_, io).
     and_then (k_read_le k io 8) (\<lambda>(base, io).
     and_then (k_read_bytes k io 4) (\<lambda>(_, io).
     and_then (k_read_le k io 4) (\<lambda>(crc, io).
       Ok (\<lparr>th_entry_count = n, th_table_base_offset = base, th_checksum = crc\<rparr>, io))))))"

record ewf_hash_section =
  hs_md5 :: bytes
  hs_checksum :: nat

definition ewf_hash_section_read ::
    "'io ewf_env \<Rightarrow> 'io \<Rightarrow> (ewf_hash_section \<times> 'io, kerror) result" where
  "ewf_hash_section_read k io =
     and_then (k_read_bytes k io 16) (\<lambda>(md5, io).
     and_then (k_read_bytes k io 16) (\<lambda>(_, io).
     and_then (k_read_le k io 4) (\<lambda>(crc, io).
       Ok (\<lparr>hs_md5 = md5, hs_checksum = crc\<rparr>, io))))"

record ewf_digest_section =
  ds_md5 :: bytes
  ds_sha1 :: bytes
  ds_checksum :: nat

definition ewf_digest_section_read ::
    "'io ewf_env \<Rightarrow> 'io \<Rightarrow> (ewf_digest_section \<times> 'io, kerror) result" where
  "ewf_digest_section_read k io =
     and_then (k_read_bytes k io 16) (\<lambda>(md5, io).
     and_then (k_read_bytes k io 20) (\<lambda>(sha1, io).
     and_then (k_read_bytes k io 40) (\<lambda>(_, io).
     and_then (k_read_le k io 4) (\<lambda>(crc, io).
       Ok (\<lparr>ds_md5 = md5, ds_sha1 = sha1, ds_checksum = crc\<rparr>, io)))))"

text \<open>Of the two volume sections, the fields the reader uses; every field is read.\<close>

record ewf_volume =
  ev_number_of_chunks :: nat
  ev_sectors_per_chunk :: nat
  ev_bytes_per_sector :: nat
  ev_number_of_sectors :: nat
  ev_checksum :: nat

definition ewf_volume_read :: "'io ewf_env \<Rightarrow> 'io \<Rightarrow> (ewf_volume \<times> 'io, kerror) result" where
  "ewf_volume_read k io =
     and_then (k_read_le k io 1) (\<lambda>(media_type, io).
     and_then (k_read_bytes k io 3) (\<lambda>(_, io).
     and_then (k_read_le k io 4) (\<lambda>(chunks, io).
     and_then (k_read_le k io 4) (\<lambda>(spc, io).
     and_then (k_read_le k io 4) (\<lambda>(bps, io).
     and_then (k_read_le k io 8) (\<lambda>(sectors, io).
     and_then (k_read_le k io 4) (\<lambda>(chs_cylinders, io).
     and_then (k_read_le k io 4) (\<lambda>(chs_heads, io).
     and_then (k_read_le k io 4) (\<lambda>(chs_sectors, io).
     and_then (k_read_le k io 1) (\<lambda>(media_flags, io).
     and_then (k_read_bytes k io 3) (\<lambda>(_, io).
     and_then (k_read_le k io 4) (\<lambda>(palm_volume_start_sector, io).
     and_then (k_read_bytes k io 4) (\<lambda>(_, io).
     and_then (k_read_le k io 4) (\<lambda>(smart_logs_start_sector, io).
     and_then (k_read_le k io 1) (\<lambda>(compression_level, io).
     and_then (k_read_bytes k io 3) (\<lambda>(_, io).
     and_then (k_read_le k io 4) (\<lambda>(error_granularity, io).
     and_then (k_read_bytes k io 4) (\<lambda>(_, io).
     and_then (k_read_bytes k io 16) (\<lambda>(set_identifier, io).
     and_then (k_read_bytes k io 963) (\<lambda>(_, io).
     and_then (k_read_bytes k io 5) (\<lambda>(signature, io).
     and_then (k_read_le k io 4) (\<lambda>(crc, io).
       Ok (\<lparr>ev_number_of_chunks = chunks, ev_sectors_per_chunk = spc, ev_bytes_per_sector = bps,
            ev_number_of_sectors = sectors, ev_checksum = crc\<rparr>, io)))))))))))))))))))))))"

definition ewf_volume_smart_read :: "'io ewf_env \<Rightarrow> 'io \<Rightarrow> (ewf_volume \<times> 'io, kerror) result" where
  "ewf_volume_smart_read k io =
     and_then (k_read_le k io 4) (\<lambda>(_, io).
     and_then (k_read_le k io 4) (\<lambda>(chunks, io).
     and_then (k_read_le k io 4) (\<lambda>(spc, io).
     and_then (k_read_le k io 4) (\<lambda>(bps, io).
     and_then (k_read_le k io 4) (\<lambda>(sectors, io).
     and_then (k_read_bytes k io 20) (\<lambda>(_, io).
     and_then (k_read_bytes k io 45) (\<lambda>(_, io).
     and_then (k_read_bytes k io 5) (\<lambda>(_, io).
     and_then (k_read_le k io 4) (\<lambda>(crc, io).
       Ok (\<lparr>ev_number_of_chunks = chunks, ev_sectors_per_chunk = spc, ev_bytes_per_sector = bps,
            ev_number_of_sectors = sectors, ev_checksum = crc\<rparr>, io))))))))))"

definition validation_failed :: "string \<Rightarrow> kerror" where
  "validation_failed field = KError (''ValidationFailed '' @ field)"

definition ewf_file_header_v1 :: "'io ewf_env \<Rightarrow> 'io \<Rightarrow> (nat \<times> 'io, kerror) result" where
  "ewf_file_header_v1 k io =
     and_then (k_read_bytes k io 8) (\<lambda>(signature, io).
     and_then (k_read_bytes k io 1) (\<lambda>(fields_start, io).
     if fields_start \<noteq> [1] then Err (validation_failed ''fields_start'')
     else
       and_then (k_read_le k io 2) (\<lambda>(segment_number, io).
       and_then (k_read_bytes k io 2) (\<lambda>(fields_end, io).
       if fields_end \<noteq> [0, 0] then Err (validation_failed ''fields_end'')
       else Ok (segment_number, io)))))"

definition ewf_file_header_v2 :: "'io ewf_env \<Rightarrow> 'io \<Rightarrow> ((nat \<times> nat) \<times> 'io, kerror) result" where
  "ewf_file_header_v2 k io =
     and_then (k_read_bytes k io 8) (\<lambda>(signature, io).
     and_then (k_read_le k io 1) (\<lambda>(major_version, io).
     and_then (k_read_le k io 1) (\<lambda>(minor_version, io).
     and_then (k_read_le k io 2) (\<lambda>(compression_method, io).
     and_then (k_read_le k io 2) (\<lambda>(segment_number, io).
     and_then (k_read_bytes k io 16) (\<lambda>(set_identifier, io).
       Ok ((compression_method, segment_number), io)))))))"

subsection \<open>File header\<close>

datatype compression_method = NoCompression | Deflate | Bzip

definition compression_method_try_from :: "nat \<Rightarrow> (compression_method, lib_error) result" where
  "compression_method_try_from v =
     (if v = 0 then Ok NoCompression else if v = 1 then Ok Deflate else if v = 2 then Ok Bzip
      else Err (UnknownCompressionMethod v))"

definition try_ewf_file_header_v1 :: "'io ewf_env \<Rightarrow> 'io \<Rightarrow> (nat \<times> 'io, lib_error) result" where
  "try_ewf_file_header_v1 k io =
     map_err (DeserializationFailed ''EwfFileHeaderV1'') (ewf_file_header_v1 k io)"

definition try_ewf_file_header_v2 :: "'io ewf_env \<Rightarrow> 'io \<Rightarrow> (nat \<times> 'io, lib_error) result" where
  "try_ewf_file_header_v2 k io =
     and_then (map_err (DeserializationFailed ''EwfFileHeaderV2'') (ewf_file_header_v2 k io)) (\<lambda>((cm, n), io).
     and_then (compression_method_try_from cm) (\<lambda>_. Ok (n, io)))"

definition EWF_SIGNATURE :: bytes where
  "EWF_SIGNATURE = [0x45, 0x56, 0x46, 0x09, 0x0d, 0x0a, 0xff, 0x00]"

definition EWF_L01_SIGNATURE :: bytes where
  "EWF_L01_SIGNATURE = [0x4c, 0x56, 0x46, 0x09, 0x0d, 0x0a, 0xff, 0x00]"

definition EVF2_SIGNATURE :: bytes where
  "EVF2_SIGNATURE = [0x45, 0x56, 0x46, 0x32, 0x0d, 0x0a, 0x81, 0x00]"

definition LEF2_SIGNATURE :: bytes where
  "LEF2_SIGNATURE = [0x4c, 0x45, 0x46, 0x32, 0x0d, 0x0a, 0x81, 0x00]"

text \<open>The segment number, and the stream after the header.\<close>

definition segment_file_header :: "'io ewf_env \<Rightarrow> 'io \<Rightarrow> (nat \<times> 'io, lib_error) result" where
  "segment_file_header k io =
     and_then (map_err (\<lambda>e. LibIoError (E01Read e)) (k_read_bytes k io 8)) (\<lambda>(first_bytes, io).
     and_then (map_err (\<lambda>e. LibIoError (E01Seek 0 e)) (k_seek k io 0)) (\<lambda>io.
     if first_bytes = EWF_SIGNATURE \<or> first_bytes = EWF_L01_SIGNATURE then try_ewf_file_header_v1 k io
     else if first_bytes = EVF2_SIGNATURE \<or> first_bytes = LEF2_SIGNATURE then try_ewf_file_header_v2 k io
     else Err InvalidSegmentFileHeader))"

subsection \<open>Sections\<close>

record chunk =
  ch_segment :: nat
  ch_data_offset :: nat
  ch_end_offset :: nat
  ch_compressed :: bool

record volume_section =
  vs_chunk_count :: nat
  vs_sectors_per_chunk :: nat
  vs_bytes_per_sector :: nat
  vs_total_sector_count :: nat

datatype ewf_section =
    SecVolume volume_section | SecTable "chunk list" | SecSectors nat | SecHash bytes
  | SecDigest bytes bytes | SecDone | SecOther

definition checksum_reader :: "'io ewf_env \<Rightarrow> 'io \<Rightarrow> nat \<Rightarrow> (nat, lib_error) result" where
  "checksum_reader k reader len =
     and_then (map_err (\<lambda>e. LibIoError (E01Read e)) (k_read_bytes k reader len)) (\<lambda>(bs, _).
     map_err (\<lambda>e. LibIoError (E01Io e)) (k_adler32 k bs))"

text \<open>\<open>section_io\<close> is the stream as it was before the section was read.\<close>

definition checksum_ok :: "'io ewf_env \<Rightarrow> string \<Rightarrow> 'io \<Rightarrow> 'io \<Rightarrow> nat \<Rightarrow> (unit, lib_error) result" where
  "checksum_ok k section_type io section_io crc_stored =
     and_then (checksum_reader k section_io (u64_sub (u64_sub (k_pos k io) (k_pos k section_io)) 4)) (\<lambda>crc.
     if crc = crc_stored then Ok () else Err (BadSectionChecksum section_type crc crc_stored))"

definition unless :: "bool \<Rightarrow> (unit, 'e) result \<Rightarrow> (unit, 'e) result" where
  "unless b r = (if b then Ok () else r)"

definition exactly :: "nat \<Rightarrow> bytes \<Rightarrow> (bytes, 'e) result" where
  "exactly n bs = (if length bs = n then Ok bs else Panic)"

definition read_hash_section :: "'io ewf_env \<Rightarrow> 'io \<Rightarrow> bool \<Rightarrow> (bytes \<times> 'io, lib_error) result" where
  "read_hash_section k io0 ignore_checksums =
     and_then (map_err (DeserializationFailed ''EwfHashSection'') (ewf_hash_section_read k io0)) (\<lambda>(h, io).
     and_then (unless ignore_checksums (checksum_ok k ''Hash section'' io io0 (hs_checksum h))) (\<lambda>_.
     and_then (exactly 16 (hs_md5 h)) (\<lambda>md5. Ok (md5, io))))"

definition read_digest_section ::
    "'io ewf_env \<Rightarrow> 'io \<Rightarrow> bool \<Rightarrow> ((bytes \<times> bytes) \<times> 'io, lib_error) result" where
  "read_digest_section k io0 ignore_checksums =
     and_then (map_err (DeserializationFailed ''EwfDigestSection'') (ewf_digest_section_read k io0)) (\<lambda>(d, io).
     and_then (unless ignore_checksums (checksum_ok k ''Digest section'' io io0 (ds_checksum d))) (\<lambda>_.
     and_then (exactly 16 (ds_md5 d)) (\<lambda>md5.
     and_then (exactly 20 (ds_sha1 d)) (\<lambda>sha1. Ok ((md5, sha1), io)))))"

definition read_table_entry :: "'io ewf_env \<Rightarrow> 'io \<Rightarrow> nat \<Rightarrow> (chunk \<times> 'io, lib_error) result" where
  "read_table_entry k io table_offset =
     and_then (map_err (\<lambda>e. LibIoError (E01Read e)) (k_read_le k io 4)) (\<lambda>(entry, io).
       Ok (\<lparr>ch_segment = 0, ch_data_offset = u64_add table_offset (entry AND 0x7fffffff),
            ch_end_offset = 0, ch_compressed = (0 < entry AND 0x80000000)\<rparr>, io))"

text \<open>The loop over the entries \<open>i, .., i + n - 1\<close>.\<close>

fun table_loop ::
    "'io ewf_env \<Rightarrow> nat \<Rightarrow> nat \<Rightarrow> nat \<Rightarrow> chunk list \<Rightarrow> 'io \<Rightarrow> (chunk list \<times> 'io, lib_error) result" where
  "table_loop k table_offset i 0 chunks io = Ok (chunks, io)"
| "table_loop k table_offset i (Suc n) chunks io =
     and_then (read_table_entry k io table_offset) (\<lambda>(ch, io).
     and_then (index chunks (i - 1)) (\<lambda>prev.
     if ch_data_offset ch < ch_data_offset prev then Err (CorruptChunkTable i)
     else
       table_loop k table_offset (i + 1) n
         (chunks[i - 1 := prev\<lparr>ch_end_offset := ch_data_offset ch\<rparr>] @ [ch]) io))"

definition table_footer :: "'io ewf_env \<Rightarrow> 'io \<Rightarrow> 'io \<Rightarrow> nat \<Rightarrow> (unit, lib_error) result" where
  "table_footer k io io_offsets entry_count =
     and_then (map_err (\<lambda>e. LibIoError (E01Read e)) (k_read_le k io 4)) (\<lambda>(crc_stored, _).
     and_then (checksum_reader k io_offsets (u64_mul entry_count 4)) (\<lambda>crc.
     if crc \<noteq> crc_stored then Err (BadSectionChecksum ''Table offset array'' crc crc_stored) else Ok ()))"

definition read_table :: "'io ewf_env \<Rightarrow> 'io \<Rightarrow> bool \<Rightarrow> (chunk list, lib_error) result" where
  "read_table k io0 ignore_checksums =
     and_then (map_err (DeserializationFailed ''EwfTableHeader'') (ewf_table_header_read k io0)) (\<lambda>(h, io).
     and_then (unless ignore_checksums (checksum_ok k ''Table section'' io io0 (th_checksum h))) (\<lambda>_.
     if th_entry_count h > MAX_TABLE_ENTRIES then Err (TooManyTableEntries (th_entry_count h))
     else if th_entry_count h = 0 then Ok []
     else
       and_then (read_table_entry k io (th_table_base_offset h)) (\<lambda>(c, io1).
       and_then (table_loop k (th_table_base_offset h) 1 (th_entry_count h - 1) [c] io1) (\<lambda>(chunks, io2).
       and_then (unless ignore_checksums (table_footer k io2 io (th_entry_count h))) (\<lambda>_.
         Ok chunks)))))"

definition volume_of :: "ewf_volume \<Rightarrow> volume_section" where
  "volume_of v =
     \<lparr>vs_chunk_count = ev_number_of_chunks v, vs_sectors_per_chunk = ev_sectors_per_chunk v,
      vs_bytes_per_sector = ev_bytes_per_sector v, vs_total_sector_count = ev_number_of_sectors v\<rparr>"

definition volume_section_new ::
    "'io ewf_env \<Rightarrow> 'io \<Rightarrow> nat \<Rightarrow> bool \<Rightarrow> (volume_section, lib_error) result" where
  "volume_section_new k io0 sz ignore_checksums =
     (if sz = 1052 then
        and_then (map_err (DeserializationFailed ''EwfVolume'') (ewf_volume_read k io0)) (\<lambda>(v, io).
        and_then (unless ignore_checksums (checksum_ok k ''Volume section'' io io0 (ev_checksum v))) (\<lambda>_.
          Ok (volume_of v)))
      else if sz = 94 then
        and_then (map_err (DeserializationFailed ''EwfVolumeSmart'') (ewf_volume_smart_read k io0)) (\<lambda>(v, io).
        and_then (unless ignore_checksums (checksum_ok k ''Volume section'' io io0 (ev_checksum v))) (\<lambda>_.
          Ok (volume_of v)))
      else Err (UnexpectedVolumeSize sz))"

definition vs_chunk_size :: "volume_section \<Rightarrow> nat" where
  "vs_chunk_size v = u64_mul (vs_sectors_per_chunk v) (vs_bytes_per_sector v)"

definition vs_max_offset :: "volume_section \<Rightarrow> nat" where
  "vs_max_offset v = u64_mul (vs_total_sector_count v) (vs_bytes_per_sector v)"

definition trim_nul :: "string \<Rightarrow> string" where
  "trim_nul s = rev (dropWhile (\<lambda>c. c = CHR 0x00) (rev (dropWhile (\<lambda>c. c = CHR 0x00) s)))"

text \<open>The offset of the next section, and the section.\<close>

definition read_section :: "'io ewf_env \<Rightarrow> 'io \<Rightarrow> bool \<Rightarrow> (nat \<times> ewf_section, lib_error) result" where
  "read_section k io0 ignore_checksums =
     and_then (map_err (DeserializationFailed ''EwfSectionDescriptorV1'') (ewf_section_descriptor_v1 k io0))
       (\<lambda>(sd, io).
     let section_size = (if sd_size sd > 0x4c then sd_size sd - 0x4c else 0);
         section_type = trim_nul (sd_type_string sd)
     in
     and_then
       (if section_type = ''disk'' \<or> section_type = ''volume'' then
          and_then (volume_section_new k io section_size ignore_checksums) (\<lambda>v. Ok (SecVolume v))
        else if section_type = ''table'' then
          and_then (read_table k io ignore_checksums) (\<lambda>t. Ok (SecTable t))
        else if section_type = ''sectors'' then Ok (SecSectors (u64_add (k_pos k io) section_size))
        else if section_type = ''hash'' then
          and_then (read_hash_section k io ignore_checksums) (\<lambda>(h, _). Ok (SecHash h))
        else if section_type = ''digest'' then
          and_then (read_digest_section k io ignore_checksums) (\<lambda>((m, s), _). Ok (SecDigest m s))
        else if section_type = ''done'' then Ok SecDone
        else Ok SecOther)
       (\<lambda>sec. Ok (sd_next_offset sd, sec)))"

text \<open>\<open>SectionIterator::next\<close> at the offset \<open>cur\<close>: \<open>None\<close> at the end, otherwise the section and the next offset.
  Every section is read from the stream after a seek to its offset, so the stream position between
  sections does not matter.\<close>

definition section_next ::
    "'io ewf_env \<Rightarrow> 'io \<Rightarrow> bool \<Rightarrow> nat \<Rightarrow> (nat \<times> ewf_section, lib_error) result option" where
  "section_next k io ignore_checksums cur =
     (if cur < k_size k io then
        Some (and_then (map_err (\<lambda>e. LibIoError (E01Seek cur e)) (k_seek k io cur)) (\<lambda>io1.
          and_then (read_section k io1 ignore_checksums) (\<lambda>(off, sec).
            Ok (if off > cur then off else k_size k io, sec))))
      else None)"

subsection \<open>One segment\<close>

text \<open>What \<open>read_segment\<close> collects on its way over the sections.\<close>

record seg_state =
  sg_volume :: "volume_section option"
  sg_md5 :: "bytes option"
  sg_sha1 :: "bytes option"
  sg_chunks :: "chunk list"
  sg_end_of_sectors :: nat
  sg_done :: bool

definition seg_init :: seg_state where
  "seg_init = \<lparr>sg_volume = None, sg_md5 = None, sg_sha1 = None, sg_chunks = [], sg_end_of_sectors = 0,
     sg_done = False\<rparr>"

definition seg_section :: "ewf_section \<Rightarrow> seg_state \<Rightarrow> seg_state" where
  "seg_section sec st =
     (case sec of
        SecVolume v \<Rightarrow> st\<lparr>sg_volume := Some v\<rparr>
      | SecTable t \<Rightarrow>
          if t \<noteq> [] then
            let chunks = sg_chunks st @ t; n = length chunks - 1
            in st\<lparr>sg_chunks := chunks[n := (chunks ! n)\<lparr>ch_end_offset := sg_end_of_sectors st\<rparr>]\<rparr>
          else st
      | SecSectors eos \<Rightarrow> st\<lparr>sg_end_of_sectors := eos\<rparr>
      | SecHash h \<Rightarrow> st\<lparr>sg_md5 := Some h\<rparr>
      | SecDigest m s \<Rightarrow> st\<lparr>sg_md5 := Some m, sg_sha1 := Some s\<rparr>
      | SecDone \<Rightarrow> st\<lparr>sg_done := True\<rparr>
      | SecOther \<Rightarrow> st)"

lemma section_next_forward:
  "section_next k io ign cur = Some (Ok (off, sec)) \<Longrightarrow> cur < k_size k io \<and> cur < off"
  by (auto simp: section_next_def and_then_Ok_iff split: if_splits prod.splits)

text \<open>The loop over the sections; it stops after \<open>done\<close>.  The result has the offset of the section that
  would come next.\<close>

function seg_loop ::
    "'io ewf_env \<Rightarrow> 'io \<Rightarrow> bool \<Rightarrow> nat \<Rightarrow> seg_state \<Rightarrow> (seg_state \<times> nat, lib_error) result" where
  "seg_loop k io ign cur st =
     (case section_next k io ign cur of
        None \<Rightarrow> Ok (st, cur)
      | Some (Err e) \<Rightarrow> Err e
      | Some Panic \<Rightarrow> Panic
      | Some (Ok (off, sec)) \<Rightarrow>
          (case sec of
             SecDone \<Rightarrow> Ok (seg_section sec st, off)
           | _ \<Rightarrow> seg_loop k io ign off (seg_section sec st)))"
  by pat_completeness auto

termination
proof (relation "measure (\<lambda>(k, io, ign, cur, st). k_size k io - cur)")
qed (auto dest!: section_next_forward)

declare seg_loop.simps [simp del]

subsection \<open>The chunks of a table are chained\<close>

definition chained :: "chunk list \<Rightarrow> bool" where
  "chained cs \<longleftrightarrow> (\<forall>i. Suc i < length cs \<longrightarrow>
     ch_end_offset (cs ! i) = ch_data_offset (cs ! Suc i) \<and> ch_data_offset (cs ! i) \<le> ch_end_offset (cs ! i))"

lemma chained_snoc:
  assumes "chained cs" "cs \<noteq> []" "ch_data_offset (last cs) \<le> ch_data_offset c"
  shows "chained (cs[length cs - 1 := (last cs)\<lparr>ch_end_offset := ch_data_offset c\<rparr>] @ [c])"
proof -
  have l: "last cs = cs ! (length cs - 1)" using assms(2) by (rule last_conv_nth)
  show ?thesis
    using assms unfolding chained_def l
    by (auto simp: nth_append nth_list_update less_Suc_eq)
qed

lemma table_loop_chained:
  assumes "table_loop k off i n cs io = Ok (cs', io')" "chained cs" "length cs = i" "0 < i"
  shows "chained cs' \<and> length cs' = i + n"
  using assms
proof (induction k off i n cs io rule: table_loop.induct)
  case (2 k off i n cs io)
  obtain ch io1 where e: "read_table_entry k io off = Ok (ch, io1)"
    "ch_data_offset (cs ! (i - 1)) \<le> ch_data_offset ch"
    "table_loop k off (i + 1) n (cs[i - 1 := (cs ! (i - 1))\<lparr>ch_end_offset := ch_data_offset ch\<rparr>] @ [ch]) io1
      = Ok (cs', io')"
    using "2.prems"(1) by (auto simp: and_then_Ok_iff split: if_splits)
  have l: "last cs = cs ! (i - 1)" "cs \<noteq> []" using "2.prems"(3,4) by (auto simp: last_conv_nth)
  have "chained (cs[i - 1 := (cs ! (i - 1))\<lparr>ch_end_offset := ch_data_offset ch\<rparr>] @ [ch])"
    using chained_snoc [OF "2.prems"(2) l(2), of ch] e(2) l(1) "2.prems"(3) by simp
  moreover have "i - 1 < length cs" using "2.prems"(3,4) by simp
  ultimately show ?case
    using "2.IH" [OF e(1), of ch io1 "cs ! (i - 1)"] e "2.prems"(3) by auto
qed simp

text \<open>A chunk table that is read has at most \<open>MAX_TABLE_ENTRIES\<close> chunks, and they are chained: each chunk but
  the last ends where the next one begins and does not end before it begins, whatever the image holds.\<close>

theorem read_table_chained:
  assumes "read_table k io ign = Ok cs"
  shows "length cs \<le> MAX_TABLE_ENTRIES \<and> chained cs"
proof (cases "cs = []")
  case True
  then show ?thesis by (simp add: chained_def)
next
  case False
  then obtain h :: ewf_table_header and c io2 io3 where h: "th_entry_count h \<le> MAX_TABLE_ENTRIES" "th_entry_count h \<noteq> 0"
    "table_loop k (th_table_base_offset h) 1 (th_entry_count h - 1) [c] io2 = Ok (cs, io3)"
    using assms unfolding read_table_def and_then_Ok_iff
    by (auto simp: and_then_Ok_iff not_less simp del: One_nat_def split: if_splits prod.splits)
  have "chained [c]" by (simp add: chained_def)
  then show ?thesis using table_loop_chained [OF h(3)] h(1,2) by simp
qed

subsection \<open>A stream over a byte string\<close>

definition ewf_env_ok :: "'io ewf_env \<Rightarrow> ('io \<Rightarrow> bytes) \<Rightarrow> bool" where
  "ewf_env_ok k dat \<longleftrightarrow>
     (\<forall>io n. k_pos k io + n \<le> length (dat io) \<longrightarrow>
        (\<exists>io'. k_read_bytes k io n = Ok (sub_list (dat io) (k_pos k io) n, io') \<and>
           dat io' = dat io \<and> k_pos k io' = k_pos k io + n)) \<and>
     (\<forall>io n. k_pos k io + n \<le> length (dat io) \<longrightarrow>
        (\<exists>io'. k_read_le k io n = Ok (from_le_bytes (sub_list (dat io) (k_pos k io) n), io') \<and>
           dat io' = dat io \<and> k_pos k io' = k_pos k io + n))"

text \<open>A step of a parser at a stream whose rest begins with given bytes.\<close>

definition at :: "'io ewf_env \<Rightarrow> ('io \<Rightarrow> bytes) \<Rightarrow> 'io \<Rightarrow> bytes \<Rightarrow> bool" where
  "at k dat io bs \<longleftrightarrow> k_pos k io \<le> length (dat io) \<and> drop (k_pos k io) (dat io) = bs"

lemma at_read_bytes:
  assumes "ewf_env_ok k dat" "at k dat io (bs @ rest)"
  obtains io' where "k_read_bytes k io (length bs) = Ok (bs, io')" "at k dat io' rest"
    "k_pos k io' = k_pos k io + length bs"
proof -
  have d: "drop (k_pos k io) (dat io) = bs @ rest" and le: "k_pos k io \<le> length (dat io)"
    using assms(2) by (auto simp: at_def)
  have "length (dat io) - k_pos k io = length bs + length rest" using d by (metis length_append length_drop)
  then have len: "k_pos k io + length bs \<le> length (dat io)" using le by linarith
  then obtain io' where io': "k_read_bytes k io (length bs) = Ok (sub_list (dat io) (k_pos k io) (length bs), io')"
    "dat io' = dat io" "k_pos k io' = k_pos k io + length bs"
    using assms(1) unfolding ewf_env_ok_def by blast
  moreover have "sub_list (dat io) (k_pos k io) (length bs) = bs" using d by (simp add: sub_list_def)
  moreover have "at k dat io' rest" using io' len drop_step [OF d] by (simp add: at_def)
  ultimately show thesis using that by simp
qed

lemma at_read_le:
  assumes "ewf_env_ok k dat" "at k dat io (to_le_bytes w n @ rest)" "n < 256 ^ w"
  obtains io' where "k_read_le k io w = Ok (n, io')" "at k dat io' rest" "k_pos k io' = k_pos k io + w"
proof -
  have d: "drop (k_pos k io) (dat io) = to_le_bytes w n @ rest" and le: "k_pos k io \<le> length (dat io)"
    using assms(2) by (auto simp: at_def)
  have "length (dat io) - k_pos k io = w + length rest"
    using d by (metis length_append length_drop length_to_le_bytes)
  then have len: "k_pos k io + w \<le> length (dat io)" using le by linarith
  then obtain io' where io': "k_read_le k io w = Ok (from_le_bytes (sub_list (dat io) (k_pos k io) w), io')"
    "dat io' = dat io" "k_pos k io' = k_pos k io + w"
    using assms(1) unfolding ewf_env_ok_def by blast
  moreover have "from_le_bytes (sub_list (dat io) (k_pos k io) w) = n"
    using d assms(3) by (simp add: sub_list_def from_le_to_le_bytes)
  moreover have "at k dat io' rest" using io' len drop_step [OF d] by (simp add: at_def)
  ultimately show thesis using that by simp
qed

subsection \<open>An encoded table is read back\<close>

text \<open>An entry: the offset of the chunk from the base of the table, and whether it is compressed.\<close>

definition entry_word :: "nat \<times> bool \<Rightarrow> nat" where
  "entry_word e = fst e + (if snd e then 2 ^ 31 else 0)"

definition table_array :: "(nat \<times> bool) list \<Rightarrow> bytes" where
  "table_array es = concat (map (\<lambda>e. to_le_bytes 4 (entry_word e)) es)"

definition table_head :: "nat \<Rightarrow> nat \<Rightarrow> bytes" where
  "table_head n base = to_le_bytes 4 n @ replicate 4 0 @ to_le_bytes 8 base @ replicate 4 0"

definition chunks_of :: "nat \<Rightarrow> (nat \<times> bool) list \<Rightarrow> chunk list" where
  "chunks_of base es =
     map (\<lambda>i. \<lparr>ch_segment = 0, ch_data_offset = base + fst (es ! i),
       ch_end_offset = (if Suc i < length es then base + fst (es ! Suc i) else 0),
       ch_compressed = snd (es ! i)\<rparr>) [0 ..< length es]"

definition wf_entries :: "nat \<Rightarrow> (nat \<times> bool) list \<Rightarrow> bool" where
  "wf_entries base es \<longleftrightarrow> (\<forall>e \<in> set es. fst e < 2 ^ 31) \<and> sorted (map fst es) \<and> base + 2 ^ 31 < u64_lim"

lemma and_mask31: "(n :: nat) AND 0x7fffffff = n mod 2 ^ 31"
proof -
  have "n AND 0x7fffffff = n AND mask 31" by (simp add: mask_eq_exp_minus_1)
  also have "\<dots> = take_bit 31 n" by (rule take_bit_eq_mask [symmetric])
  finally show ?thesis by (simp only: take_bit_eq_mod)
qed

lemma and_bit31: "0 < (n :: nat) AND 0x80000000 \<longleftrightarrow> bit n 31"
proof -
  have "n AND 0x80000000 = n AND 2 ^ 31" by simp
  then show ?thesis using and_exp_eq_0_iff_not_bit [of n 31] by (simp only: neq0_conv [symmetric]) simp
qed

lemma read_table_entry_at:
  assumes ok: "ewf_env_ok k dat" and "at k dat io (to_le_bytes 4 (entry_word e) @ rest)"
    and "fst e < 2 ^ 31" "base + 2 ^ 31 < u64_lim"
  obtains io' where "read_table_entry k io base = Ok (\<lparr>ch_segment = 0, ch_data_offset = base + fst e,
      ch_end_offset = 0, ch_compressed = snd e\<rparr>, io')"
    "at k dat io' rest" "k_pos k io' = k_pos k io + 4"
proof -
  have w: "entry_word e < 256 ^ 4" using assms(3) by (simp add: entry_word_def)
  have "entry_word e AND 0x7fffffff = fst e" using assms(3) by (simp add: and_mask31 entry_word_def)
  moreover have "0 < entry_word e AND 0x80000000 \<longleftrightarrow> snd e"
    using assms(3) div_add_self2 [of "2147483648 :: nat" "fst e"] by (auto simp: and_bit31 entry_word_def bit_iff_odd)
  moreover obtain io' where io': "k_read_le k io 4 = Ok (entry_word e, io')" "at k dat io' rest"
    "k_pos k io' = k_pos k io + 4"
    using at_read_le [OF ok assms(2) w] by blast
  ultimately show thesis using that [OF _ io'(2,3)] assms(3,4) by (simp add: read_table_entry_def)
qed

lemma chunks_of_snoc:
  assumes "es \<noteq> []"
  shows "chunks_of base (es @ [e]) =
    (chunks_of base es)[length es - 1 := (chunks_of base es ! (length es - 1))\<lparr>ch_end_offset := base + fst e\<rparr>] @
    [\<lparr>ch_segment = 0, ch_data_offset = base + fst e, ch_end_offset = 0, ch_compressed = snd e\<rparr>]"
  using assms
  by (intro nth_equalityI) (auto simp: chunks_of_def nth_append nth_list_update not_less less_Suc_eq)

lemma table_loop_at:
  assumes ok: "ewf_env_ok k dat" and "wf_entries base (es @ fs)" "es \<noteq> []"
    and "at k dat io (table_array fs @ rest)"
  shows "\<exists>io'. table_loop k base (length es) (length fs) (chunks_of base es) io =
    Ok (chunks_of base (es @ fs), io') \<and> at k dat io' rest \<and> k_pos k io' = k_pos k io + 4 * length fs"
  using assms(2-)
proof (induction fs arbitrary: es io)
  case Nil
  then show ?case by (simp add: table_array_def)
next
  case (Cons f fs)
  have w: "fst f < 2 ^ 31" "base + 2 ^ 31 < u64_lim" using Cons.prems(1) by (auto simp: wf_entries_def)
  have a: "at k dat io (to_le_bytes 4 (entry_word f) @ table_array fs @ rest)"
    using Cons.prems(3) by (simp add: table_array_def)
  obtain io1 where io1: "read_table_entry k io base = Ok (\<lparr>ch_segment = 0, ch_data_offset = base + fst f,
      ch_end_offset = 0, ch_compressed = snd f\<rparr>, io1)"
    "at k dat io1 (table_array fs @ rest)" "k_pos k io1 = k_pos k io + 4"
    using read_table_entry_at [OF ok a w] by blast
  have n: "length es - 1 < length es" using Cons.prems(2) by simp
  have "es ! (length es - 1) \<in> set es" using n by simp
  then have le: "fst (es ! (length es - 1)) \<le> fst f"
    using Cons.prems(1) by (auto simp: wf_entries_def sorted_append)
  have "length (chunks_of base es) = length es"
    "ch_data_offset (chunks_of base es ! (length es - 1)) = base + fst (es ! (length es - 1))"
    using n by (simp_all add: chunks_of_def)
  then have "table_loop k base (length es) (length (f # fs)) (chunks_of base es) io =
      table_loop k base (length (es @ [f])) (length fs) (chunks_of base (es @ [f])) io1"
    using io1(1) le n by (simp add: chunks_of_snoc [OF Cons.prems(2)] index_def)
  moreover obtain io' where "table_loop k base (length (es @ [f])) (length fs) (chunks_of base (es @ [f])) io1 =
      Ok (chunks_of base ((es @ [f]) @ fs), io')" "at k dat io' rest"
    "k_pos k io' = k_pos k io1 + 4 * length fs"
    using Cons.IH [of "es @ [f]" io1] Cons.prems(1) io1(2) by auto
  ultimately show ?case using io1(3) by simp
qed

lemma table_header_at:
  assumes ok: "ewf_env_ok k dat" and a: "at k dat io (table_head n base @ to_le_bytes 4 crc @ rest)"
    and lim: "n < 2 ^ 32" "base < 2 ^ 64" "crc < 2 ^ 32"
  obtains io' where "ewf_table_header_read k io =
      Ok (\<lparr>th_entry_count = n, th_table_base_offset = base, th_checksum = crc\<rparr>, io')"
    "at k dat io' rest" "k_pos k io' = k_pos k io + 24"
proof -
  have zs: "length (replicate 4 (0 :: u8)) = 4" by simp
  obtain io1 where 1: "k_read_le k io 4 = Ok (n, io1)" "k_pos k io1 = k_pos k io + 4"
    "at k dat io1 (replicate 4 0 @ to_le_bytes 8 base @ replicate 4 0 @ to_le_bytes 4 crc @ rest)"
    using at_read_le [OF ok, of io 4 n] a lim(1) by (auto simp: table_head_def simp del: to_le_bytes.simps)
  obtain io2 where 2: "k_read_bytes k io1 4 = Ok (replicate 4 0, io2)" "k_pos k io2 = k_pos k io1 + 4"
    "at k dat io2 (to_le_bytes 8 base @ replicate 4 0 @ to_le_bytes 4 crc @ rest)"
    using at_read_bytes [OF ok 1(3)] zs by metis
  obtain io3 where 3: "k_read_le k io2 8 = Ok (base, io3)" "k_pos k io3 = k_pos k io2 + 8"
    "at k dat io3 (replicate 4 0 @ to_le_bytes 4 crc @ rest)"
    using at_read_le [OF ok 2(3)] lim(2) by auto
  obtain io4 where 4: "k_read_bytes k io3 4 = Ok (replicate 4 0, io4)" "k_pos k io4 = k_pos k io3 + 4"
    "at k dat io4 (to_le_bytes 4 crc @ rest)"
    using at_read_bytes [OF ok 3(3)] zs by metis
  obtain io5 where 5: "k_read_le k io4 4 = Ok (crc, io5)" "k_pos k io5 = k_pos k io4 + 4" "at k dat io5 rest"
    using at_read_le [OF ok 4(3)] lim(3) by auto
  show thesis
    by (rule that [OF _ 5(3)]) (simp_all add: ewf_table_header_read_def 1(1,2) 2(1,2) 3(1,2) 4(1,2) 5(1,2))
qed

lemma checksum_reader_at:
  assumes "ewf_env_ok k dat" "at k dat io (bs @ rest)" "k_adler32 k bs = Ok crc"
  shows "checksum_reader k io (length bs) = Ok crc"
proof -
  obtain io' where "k_read_bytes k io (length bs) = Ok (bs, io')" using at_read_bytes [OF assms(1,2)] by blast
  then show ?thesis using assms(3) by (simp add: checksum_reader_def)
qed

lemma length_table_array [simp]: "length (table_array es) = 4 * length es"
  by (induction es) (simp_all add: table_array_def)

lemma length_table_head [simp]: "length (table_head n base) = 20"
  by (simp add: table_head_def)

lemma chunks_of_single:
  "chunks_of base [e] = [\<lparr>ch_segment = 0, ch_data_offset = base + fst e, ch_end_offset = 0, ch_compressed = snd e\<rparr>]"
  by (simp add: chunks_of_def)

lemma read_table_lemma:
  assumes ok: "ewf_env_ok k dat" and wf: "wf_entries base es" and es: "es \<noteq> []" "length es \<le> MAX_TABLE_ENTRIES"
    and crc: "k_adler32 k (table_head (length es) base) = Ok hcrc" "hcrc < 2 ^ 32"
      "k_adler32 k (table_array es) = Ok acrc" "acrc < 2 ^ 32"
    and a: "at k dat io (table_head (length es) base @ to_le_bytes 4 hcrc @ table_array es @
      to_le_bytes 4 acrc @ rest)"
  shows "read_table k io False = Ok (chunks_of base es)"
proof -
  have n: "length es < 2 ^ 32" using es(2) by (simp add: MAX_TABLE_ENTRIES_def)
  have base: "base < 2 ^ 64" using wf by (simp add: wf_entries_def u64_lim_def)
  obtain io1 where 1: "ewf_table_header_read k io =
      Ok (\<lparr>th_entry_count = length es, th_table_base_offset = base, th_checksum = hcrc\<rparr>, io1)"
    "at k dat io1 (table_array es @ to_le_bytes 4 acrc @ rest)" "k_pos k io1 = k_pos k io + 24"
    using table_header_at [OF ok a n base crc(2)] by blast
  have hd: "checksum_ok k ''Table section'' io1 io hcrc = Ok ()"
    using checksum_reader_at [OF ok a crc(1)] 1(3) by (simp add: checksum_ok_def)
  obtain e fs where e: "es = [e] @ fs" using es(1) by (cases es) auto
  have we: "fst e < 2 ^ 31" "base + 2 ^ 31 < u64_lim" using wf e by (auto simp: wf_entries_def)
  obtain io2 where 2: "read_table_entry k io1 base = Ok (\<lparr>ch_segment = 0, ch_data_offset = base + fst e,
      ch_end_offset = 0, ch_compressed = snd e\<rparr>, io2)"
    "at k dat io2 (table_array fs @ to_le_bytes 4 acrc @ rest)"
    using read_table_entry_at [OF ok _ we, of io1 "table_array fs @ to_le_bytes 4 acrc @ rest"] 1(2) e
    by (auto simp: table_array_def)
  obtain io3 where 3: "table_loop k base 1 (length fs) (chunks_of base [e]) io2 = Ok (chunks_of base es, io3)"
    "at k dat io3 (to_le_bytes 4 acrc @ rest)"
    using table_loop_at [OF ok, of base "[e]" fs io2 "to_le_bytes 4 acrc @ rest"] wf 2(2) e by auto
  obtain io4 where "k_read_le k io3 4 = Ok (acrc, io4)"
    using at_read_le [OF ok 3(2)] crc(4) by auto
  moreover have "checksum_reader k io1 (length es * 4) = Ok acrc"
    using checksum_reader_at [OF ok 1(2) crc(3)] by (simp add: mult.commute)
  ultimately have ft: "table_footer k io3 io1 (length es) = Ok ()"
    using n by (simp add: table_footer_def u64_lim_def)
  have "read_table_entry k io1 base = Ok (hd (chunks_of base [e]), io2)" using 2(1) by (simp add: chunks_of_single)
  then show ?thesis
    using 1(1) hd 3(1) ft es e by (simp add: read_table_def unless_def chunks_of_single)
qed

text \<open>A chunk table written in the documented layout (header, header checksum, entries in ascending order,
  checksum of the entries) is read back exactly with checksums on: every chunk has its offset and its
  compression flag, and ends where the next one begins.\<close>

theorem read_table_roundtrip:
  assumes ok: "ewf_env_ok k dat" and wf: "wf_entries base es" and es: "es \<noteq> []" "length es \<le> MAX_TABLE_ENTRIES"
    and crc: "k_adler32 k (table_head (length es) base) = Ok hcrc" "hcrc < 2 ^ 32"
      "k_adler32 k (table_array es) = Ok acrc" "acrc < 2 ^ 32"
    and a: "at k dat io (table_head (length es) base @ to_le_bytes 4 hcrc @ table_array es @
      to_le_bytes 4 acrc @ rest)"
  shows "read_table k io False = Ok (chunks_of base es)"
  by (rule read_table_lemma [OF assms])

subsection \<open>A stream in memory\<close>

definition mem_env :: "(bytes \<times> nat) ewf_env" where
  "mem_env =
     \<lparr>k_read_bytes = (\<lambda>(d, p) n. if p + n \<le> length d then Ok (sub_list d p n, (d, p + n)) else Err (KError ''Eof'')),
      k_read_le = (\<lambda>(d, p) n. if p + n \<le> length d then Ok (from_le_bytes (sub_list d p n), (d, p + n))
        else Err (KError ''Eof'')),
      k_seek = (\<lambda>(d, p) n. Ok (d, n)), k_pos = snd, k_size = (\<lambda>(d, p). length d),
      k_to_str = (\<lambda>bs. Ok (map (\<lambda>b. char_of (unat b)) bs)),
      k_adler32 = (\<lambda>bs. Ok (sum_list (map unat bs) mod 2 ^ 32))\<rparr>"

lemma mem_env_ok: "ewf_env_ok mem_env fst"
  by (auto simp: ewf_env_ok_def mem_env_def)

definition sample_entries :: "(nat \<times> bool) list" where
  "sample_entries = [(16, True), (40, False), (60, True)]"

definition sample_table :: bytes where
  "sample_table = table_head 3 1000 @ to_le_bytes 4 238 @ table_array sample_entries @ to_le_bytes 4 372"

theorem read_table_roundtrip_witness:
  "read_table mem_env (sample_table, 0) False = Ok (chunks_of 1000 sample_entries) \<and>
   map ch_end_offset (chunks_of 1000 sample_entries) = [1040, 1060, 0]"
proof -
  have "wf_entries 1000 sample_entries" "length sample_entries = 3" "sample_entries \<noteq> []"
    by (auto simp: wf_entries_def sample_entries_def u64_lim_def)
  moreover have "k_adler32 mem_env (table_head 3 1000) = Ok 238" "k_adler32 mem_env (table_array sample_entries) = Ok 372"
    by code_simp+
  moreover have "at mem_env fst (sample_table, 0) (table_head 3 1000 @ to_le_bytes 4 238 @
      table_array sample_entries @ to_le_bytes 4 372 @ [])"
    by (simp add: at_def mem_env_def sample_table_def)
  ultimately have "read_table mem_env (sample_table, 0) False = Ok (chunks_of 1000 sample_entries)"
    using read_table_roundtrip [OF mem_env_ok, of 1000 sample_entries 238 372 "(sample_table, 0)" "[]"]
    by (simp add: MAX_TABLE_ENTRIES_def)
  moreover have "map ch_end_offset (chunks_of 1000 sample_entries) = [1040, 1060, 0]" by code_simp
  ultimately show ?thesis ..
qed

lemma sample_table_read:
  "case read_table mem_env (sample_table, 0) True of Ok cs \<Rightarrow> length cs = 3 | _ \<Rightarrow> False"
  by code_simp

theorem read_table_chained_witness:
  "\<exists>cs. read_table mem_env (sample_table, 0) True = Ok cs \<and> length cs = 3 \<and> chained cs"
proof -
  obtain cs where "read_table mem_env (sample_table, 0) True = Ok cs" "length cs = 3"
    using sample_table_read by (auto split: result.splits)
  then show ?thesis using read_table_chained [of mem_env "(sample_table, 0)" True cs] by blast
qed

end
