(* ===== verification/E01ChunkCache.thy ===== *)
theory E01ChunkCache
  imports Prelude "HOL-Library.AList"
begin

text \<open>
  The cache of decompressed chunks, \<open>DecodedChunkCache\<close> of \<open>e01/src/readworker.rs\<close>.

  The hash map is an association list with distinct keys (\<open>update\<close> and \<open>delete\<close> of the library), its
  length the number of entries; the queue is a list, its front first.

  Shown: queue and map always hold the same keys, never more than the capacity; the cache refines an
  abstract least-recently-used list of key-value pairs (\<open>lru_get\<close>, \<open>lru_put\<close>).  The locale
  \<open>chunk_store\<close> is the contract that the readers rely on: whatever is evicted, a hit gives the value
  last inserted, so a store that holds only right chunks keeps doing so.
\<close>

record decoded_chunk_cache =
  dc_capacity :: nat
  dc_chunks :: "(nat \<times> bytes) list"
  dc_lru :: "nat list"

definition dcc_new :: "nat \<Rightarrow> decoded_chunk_cache" where
  "dcc_new cap = \<lparr>dc_capacity = cap, dc_chunks = [], dc_lru = []\<rparr>"

definition dcc_get :: "decoded_chunk_cache \<Rightarrow> nat \<Rightarrow> bytes option \<times> decoded_chunk_cache" where
  "dcc_get c i =
     (case map_of (dc_chunks c) i of
        None \<Rightarrow> (None, c)
      | Some chunk \<Rightarrow> (Some chunk, c\<lparr>dc_lru := filter (\<lambda>j. j \<noteq> i) (dc_lru c) @ [i]\<rparr>))"

text \<open>The loop that evicts from the front of the queue.\<close>

fun dcc_evict :: "nat \<Rightarrow> (nat \<times> bytes) list \<Rightarrow> nat list \<Rightarrow> (nat \<times> bytes) list \<times> nat list" where
  "dcc_evict cap chunks [] = (chunks, [])"
| "dcc_evict cap chunks (j # lru) =
     (if length chunks > cap then dcc_evict cap (AList.delete j chunks) lru else (chunks, j # lru))"

definition dcc_insert :: "decoded_chunk_cache \<Rightarrow> nat \<Rightarrow> bytes \<Rightarrow> decoded_chunk_cache" where
  "dcc_insert c i chunk =
     (if dc_capacity c = 0 then c
      else
        let lru = (if map_of (dc_chunks c) i \<noteq> None then filter (\<lambda>j. j \<noteq> i) (dc_lru c) else dc_lru c) @ [i];
            (chunks, lru) = dcc_evict (dc_capacity c) (AList.update i chunk (dc_chunks c)) lru
        in c\<lparr>dc_chunks := chunks, dc_lru := lru\<rparr>)"

subsection \<open>The contract of a store of chunks\<close>

locale chunk_store =
  fixes inv :: "'s \<Rightarrow> bool"
    and contents :: "'s \<Rightarrow> nat \<rightharpoonup> 'v"
    and get :: "'s \<Rightarrow> nat \<Rightarrow> 'v option \<times> 's"
    and put :: "'s \<Rightarrow> nat \<Rightarrow> 'v \<Rightarrow> 's"
  assumes get_inv: "inv s \<Longrightarrow> inv (snd (get s i))"
    and get_value: "inv s \<Longrightarrow> fst (get s i) = contents s i"
    and get_contents: "inv s \<Longrightarrow> contents (snd (get s i)) = contents s"
    and put_inv: "inv s \<Longrightarrow> inv (put s i v)"
    and put_contents: "inv s \<Longrightarrow> contents (put s i v) \<subseteq>\<^sub>m (contents s)(i \<mapsto> v)"
begin

text \<open>Every value in the store satisfies what is expected of its key.\<close>

definition sound :: "(nat \<Rightarrow> 'v \<Rightarrow> bool) \<Rightarrow> 's \<Rightarrow> bool" where
  "sound P s \<longleftrightarrow> inv s \<and> (\<forall>i v. contents s i = Some v \<longrightarrow> P i v)"

lemma sound_get: "sound P s \<Longrightarrow> sound P (snd (get s i))"
  by (simp add: sound_def get_inv get_contents)

lemma sound_hit: "sound P s \<Longrightarrow> fst (get s i) = Some v \<Longrightarrow> P i v"
  by (simp add: sound_def get_value)

lemma sound_put:
  assumes "sound P s" "P i v"
  shows "sound P (put s i v)"
proof -
  have "\<And>j u. contents (put s i v) j = Some u \<Longrightarrow> P j u"
    using put_contents [of s i v] assms unfolding sound_def map_le_def
    by (metis domI fun_upd_apply option.inject)
  then show ?thesis using assms(1) by (simp add: sound_def put_inv)
qed

end

subsection \<open>The invariant\<close>

definition dcc_keys_ok :: "(nat \<times> bytes) list \<Rightarrow> nat list \<Rightarrow> bool" where
  "dcc_keys_ok chunks lru \<longleftrightarrow> distinct (map fst chunks) \<and> distinct lru \<and> set lru = fst ` set chunks"

definition dcc_inv :: "decoded_chunk_cache \<Rightarrow> bool" where
  "dcc_inv c \<longleftrightarrow> dcc_keys_ok (dc_chunks c) (dc_lru c) \<and> length (dc_chunks c) \<le> dc_capacity c"

lemma dcc_keys_ok_length:
  assumes "dcc_keys_ok chunks lru"
  shows "length chunks = length lru"
proof -
  have "length lru = card (fst ` set chunks)" using assms distinct_card [of lru] by (simp add: dcc_keys_ok_def)
  also have "\<dots> = length chunks" using assms distinct_card [of "map fst chunks"] by (simp add: dcc_keys_ok_def)
  finally show ?thesis by simp
qed

lemma dcc_keys_ok_in: "dcc_keys_ok chunks lru \<Longrightarrow> map_of chunks i \<noteq> None \<longleftrightarrow> i \<in> set lru"
  by (simp add: dcc_keys_ok_def map_of_eq_None_iff)

lemma dcc_keys_ok_delete:
  assumes "dcc_keys_ok chunks (j # lru)"
  shows "dcc_keys_ok (AList.delete j chunks) lru"
proof -
  have "fst ` set (AList.delete j chunks) = set (map fst (AList.delete j chunks))" by simp
  also have "\<dots> = fst ` set chunks - {j}" unfolding AList.delete_keys by auto
  finally show ?thesis using assms by (auto simp: dcc_keys_ok_def AList.distinct_delete)
qed

lemma dcc_keys_ok_move:
  "dcc_keys_ok chunks lru \<Longrightarrow> i \<in> set lru \<Longrightarrow> dcc_keys_ok chunks (filter (\<lambda>j. j \<noteq> i) lru @ [i])"
  by (auto simp: dcc_keys_ok_def)

lemma dcc_keys_ok_update:
  "dcc_keys_ok chunks lru \<Longrightarrow> dcc_keys_ok (AList.update i v chunks) (filter (\<lambda>j. j \<noteq> i) lru @ [i])"
  by (auto simp: dcc_keys_ok_def AList.distinct_update AList.dom_update)

lemma dcc_evict_spec:
  assumes "dcc_keys_ok chunks lru" "dcc_evict cap chunks lru = (chunks', lru')"
  shows "dcc_keys_ok chunks' lru' \<and> length chunks' \<le> cap \<and> lru' = drop (length lru - cap) lru \<and>
    map_of chunks' = map_of chunks |` set lru'"
  using assms
proof (induction cap chunks lru rule: dcc_evict.induct)
  case (1 cap chunks)
  then show ?case by (auto simp: dcc_keys_ok_def)
next
  case (2 cap chunks j lru)
  have len: "length chunks = Suc (length lru)" using dcc_keys_ok_length [OF "2.prems"(1)] by simp
  show ?case
  proof (cases "length chunks > cap")
    case True
    have "dcc_evict cap (AList.delete j chunks) lru = (chunks', lru')" using True "2.prems"(2) by simp
    then have IH: "dcc_keys_ok chunks' lru' \<and> length chunks' \<le> cap \<and> lru' = drop (length lru - cap) lru \<and>
        map_of chunks' = map_of (AList.delete j chunks) |` set lru'"
      using "2.IH" [OF True dcc_keys_ok_delete [OF "2.prems"(1)]] by blast
    have "length (j # lru) - cap = Suc (length lru - cap)" using len True by simp
    moreover have "j \<notin> set lru'"
      using IH "2.prems"(1) by (auto simp: dcc_keys_ok_def dest: in_set_dropD)
    then have "map_of (AList.delete j chunks) |` set lru' = map_of chunks |` set lru'"
      by (auto simp: AList.delete_conv' restrict_map_def fun_eq_iff)
    ultimately show ?thesis using IH by auto
  next
    case False
    have "x \<notin> set (j # lru) \<Longrightarrow> map_of chunks x = None" for x
      using dcc_keys_ok_in [OF "2.prems"(1), of x] by blast
    then have "map_of chunks |` set (j # lru) = map_of chunks"
      by (intro ext) (simp add: restrict_map_def)
    then show ?thesis using False "2.prems" len by auto
  qed
qed

subsection \<open>An abstract least-recently-used cache\<close>

definition lru_get :: "nat \<Rightarrow> (nat \<times> bytes) list \<Rightarrow> bytes option \<times> (nat \<times> bytes) list" where
  "lru_get i xs =
     (case map_of xs i of
        None \<Rightarrow> (None, xs)
      | Some v \<Rightarrow> (Some v, filter (\<lambda>p. fst p \<noteq> i) xs @ [(i, v)]))"

definition lru_put :: "nat \<Rightarrow> nat \<Rightarrow> bytes \<Rightarrow> (nat \<times> bytes) list \<Rightarrow> (nat \<times> bytes) list" where
  "lru_put cap i v xs =
     (if cap = 0 then xs else
        let ys = filter (\<lambda>p. fst p \<noteq> i) xs @ [(i, v)] in drop (length ys - cap) ys)"

definition dcc_abs :: "decoded_chunk_cache \<Rightarrow> (nat \<times> bytes) list" where
  "dcc_abs c = map (\<lambda>i. (i, the (map_of (dc_chunks c) i))) (dc_lru c)"

lemma map_of_graph: "map_of (map (\<lambda>i. (i, f i)) ks) = (\<lambda>i. if i \<in> set ks then Some (f i) else None)"
  by (induction ks) auto

lemma map_of_dcc_abs: "dcc_inv c \<Longrightarrow> map_of (dcc_abs c) = map_of (dc_chunks c)"
  using dcc_keys_ok_in [of "dc_chunks c" "dc_lru c"]
  by (auto simp: dcc_abs_def dcc_inv_def map_of_graph fun_eq_iff) fastforce

text \<open>The queue with a key moved to its end, and cut to the capacity.\<close>

definition touched :: "nat \<Rightarrow> nat list \<Rightarrow> nat list" where
  "touched i ks = filter (\<lambda>j. j \<noteq> i) ks @ [i]"

definition newest :: "nat \<Rightarrow> 'a list \<Rightarrow> 'a list" where
  "newest n xs = drop (length xs - n) xs"

lemma dcc_insert_cases:
  assumes "dcc_inv c" "dc_capacity c \<noteq> 0"
  obtains chunks' where
    "dcc_insert c i v = c\<lparr>dc_chunks := chunks', dc_lru := newest (dc_capacity c) (touched i (dc_lru c))\<rparr>"
    "dcc_keys_ok chunks' (newest (dc_capacity c) (touched i (dc_lru c)))" "length chunks' \<le> dc_capacity c"
    "map_of chunks' =
       ((map_of (dc_chunks c))(i \<mapsto> v)) |` set (newest (dc_capacity c) (touched i (dc_lru c)))"
proof -
  have ok: "dcc_keys_ok (dc_chunks c) (dc_lru c)" using assms(1) by (simp add: dcc_inv_def)
  have "map_of (dc_chunks c) i = None \<Longrightarrow> filter (\<lambda>j. j \<noteq> i) (dc_lru c) = dc_lru c"
    using dcc_keys_ok_in [OF ok, of i] by (auto intro: filter_True)
  then have q: "(if map_of (dc_chunks c) i \<noteq> None then filter (\<lambda>j. j \<noteq> i) (dc_lru c) else dc_lru c) @ [i] =
      touched i (dc_lru c)"
    by (auto simp: touched_def)
  obtain chunks' lru' where
    e: "dcc_evict (dc_capacity c) (AList.update i v (dc_chunks c)) (touched i (dc_lru c)) = (chunks', lru')"
    by fastforce
  have "dcc_keys_ok (AList.update i v (dc_chunks c)) (touched i (dc_lru c))"
    unfolding touched_def by (rule dcc_keys_ok_update [OF ok])
  note spec = dcc_evict_spec [OF this e, folded newest_def]
  have "dcc_insert c i v = c\<lparr>dc_chunks := chunks', dc_lru := lru'\<rparr>"
    using assms(2) e unfolding dcc_insert_def q by (simp add: Let_def)
  then show thesis using that [of chunks'] spec by (auto simp: AList.update_conv' simp del: restrict_fun_upd)
qed

lemma dcc_new_inv: "dcc_inv (dcc_new cap)"
  by (simp add: dcc_inv_def dcc_new_def dcc_keys_ok_def)

lemma dcc_insert_0: "dc_capacity c = 0 \<Longrightarrow> dcc_insert c i v = c"
  by (simp add: dcc_insert_def)

lemma dcc_insert_inv:
  assumes "dcc_inv c"
  shows "dcc_inv (dcc_insert c i v)" "dc_capacity (dcc_insert c i v) = dc_capacity c"
proof -
  have "dcc_inv (dcc_insert c i v) \<and> dc_capacity (dcc_insert c i v) = dc_capacity c"
  proof (cases "dc_capacity c = 0")
    case False
    then show ?thesis using assms by (rule_tac dcc_insert_cases [of c i v]) (simp_all add: dcc_inv_def)
  qed (simp add: dcc_insert_0 assms)
  then show "dcc_inv (dcc_insert c i v)" "dc_capacity (dcc_insert c i v) = dc_capacity c" by auto
qed

lemma dcc_insert_contents:
  assumes "dcc_inv c"
  shows "map_of (dc_chunks (dcc_insert c i v)) \<subseteq>\<^sub>m (map_of (dc_chunks c))(i \<mapsto> v)"
proof (cases "dc_capacity c = 0")
  case True
  then have "dc_chunks c = []" using assms by (simp add: dcc_inv_def)
  then show ?thesis using True by (simp add: dcc_insert_0)
next
  case False
  then show ?thesis
    by (rule dcc_insert_cases [OF assms, of i v]) (simp only: map_le_def,
      simp add: restrict_in del: restrict_fun_upd)
qed

lemma dcc_get_inv: "dcc_inv c \<Longrightarrow> dcc_inv (snd (dcc_get c i))"
  using dcc_keys_ok_move [of "dc_chunks c" "dc_lru c" i] dcc_keys_ok_in [of "dc_chunks c" "dc_lru c" i]
  by (auto simp: dcc_get_def dcc_inv_def split: option.splits)

lemma dcc_get_chunks: "dc_chunks (snd (dcc_get c i)) = dc_chunks c" "fst (dcc_get c i) = map_of (dc_chunks c) i"
  by (auto simp: dcc_get_def split: option.splits)

interpretation dcc: chunk_store dcc_inv "\<lambda>c. map_of (dc_chunks c)" dcc_get dcc_insert
  by unfold_locales (simp_all add: dcc_get_inv dcc_get_chunks dcc_insert_inv dcc_insert_contents)

subsection \<open>Refinement\<close>

lemma filter_dcc_abs: "filter (\<lambda>p. fst p \<noteq> i) (map (\<lambda>i. (i, f i)) ks) = map (\<lambda>i. (i, f i)) (filter (\<lambda>j. j \<noteq> i) ks)"
  by (induction ks) auto

lemma dcc_get_refines:
  assumes "dcc_inv c"
  shows "(fst (dcc_get c i), dcc_abs (snd (dcc_get c i))) = lru_get i (dcc_abs c)"
proof -
  have "map_of (dcc_abs c) i = map_of (dc_chunks c) i" using map_of_dcc_abs [OF assms] by simp
  then show ?thesis
    by (auto simp: lru_get_def dcc_get_def dcc_abs_def filter_dcc_abs split: option.splits)
qed

lemma dcc_insert_refines:
  assumes "dcc_inv c"
  shows "dcc_abs (dcc_insert c i v) = lru_put (dc_capacity c) i v (dcc_abs c)"
proof (cases "dc_capacity c = 0")
  case True
  then show ?thesis by (simp add: dcc_insert_0 lru_put_def)
next
  case False
  let ?g = "\<lambda>j. (j, the (((map_of (dc_chunks c))(i \<mapsto> v)) j))"
  have ys: "filter (\<lambda>p. fst p \<noteq> i) (dcc_abs c) @ [(i, v)] = map ?g (touched i (dc_lru c))"
    by (simp add: dcc_abs_def filter_dcc_abs touched_def)
  have "dcc_abs (dcc_insert c i v) = map ?g (newest (dc_capacity c) (touched i (dc_lru c)))"
    by (rule dcc_insert_cases [OF assms False, of i v]) (simp add: dcc_abs_def)
  then show ?thesis using False ys by (simp add: lru_put_def Let_def newest_def drop_map)
qed

text \<open>C35: the cache of decoded chunks is a least-recently-used cache: a lookup answers as the abstract list of
  pairs does and moves the chunk to its end, an insertion puts the chunk at the end and drops the
  oldest ones beyond the capacity; the queue and the hash map go on holding the same keys.\<close>

theorem decoded_chunk_cache_refines_lru:
  assumes "dcc_inv c"
  shows "dcc_inv (snd (dcc_get c i)) \<and> dcc_inv (dcc_insert c i v) \<and>
    (fst (dcc_get c i), dcc_abs (snd (dcc_get c i))) = lru_get i (dcc_abs c) \<and>
    dcc_abs (dcc_insert c i v) = lru_put (dc_capacity c) i v (dcc_abs c)"
  using dcc_get_inv [OF assms] dcc_insert_inv(1) [OF assms] dcc_get_refines [OF assms] dcc_insert_refines [OF assms]
  by blast

theorem decoded_chunk_cache_refines_lru_witness:
  "let c = dcc_insert (dcc_insert (dcc_new 2) 7 [1]) 8 [2]
   in dcc_abs (dcc_insert (snd (dcc_get c 7)) 9 [3]) = [(7, [1]), (9, [3])]"
proof -
  let ?c = "dcc_insert (dcc_insert (dcc_new 2) 7 [1]) 8 [2]"
  have "dcc_inv ?c" by (intro dcc_insert_inv dcc_new_inv)
  note r = decoded_chunk_cache_refines_lru [OF this, of 7 "[]"]
  then have "dcc_inv (snd (dcc_get ?c 7))" by blast
  from decoded_chunk_cache_refines_lru [OF this, of 9 "[3]"]
  have "dcc_abs (dcc_insert (snd (dcc_get ?c 7)) 9 [3]) =
      lru_put (dc_capacity (snd (dcc_get ?c 7))) 9 [3] (dcc_abs (snd (dcc_get ?c 7)))" by blast
  moreover have "lru_put (dc_capacity (snd (dcc_get ?c 7))) 9 [3] (dcc_abs (snd (dcc_get ?c 7))) = [(7, [1]), (9, [3])]"
    by code_simp
  ultimately show ?thesis by simp
qed

end
