(* ===== verification/E01Worker.thy ===== *)
theory E01Worker
  imports E01Sections E01ChunkCache
begin

text \<open>
  Reading one chunk of an E01 image: \<open>ReadWorker\<close> of \<open>e01/src/readworker.rs\<close>, the trait \<open>WorkerSource\<close> and
  its implementation \<open>cacheworkersource.rs\<close>.

  A worker owns one buffer of \<open>chunk_size + 4\<close> bytes inside its decoder (\<open>w_buf\<close>); it is taken out for a
  read and given back.  Operations return what the call returns, the bytes it has copied into the
  caller's buffer, and the worker after it, also after an error: the buffer that a failed call leaves
  behind is what the next call gets.  A source fills a buffer; what a failing source leaves in it is the
  source's business (second component of \<open>worker_source\<close>).

  The crates \<open>flate2\<close> and \<open>simd_adler32\<close> are parameters (\<open>codec\<close>): \<open>cd_read_exact k v n\<close> is what
  \<open>read_exact\<close> gives on a decoder just reset to the bytes \<open>v\<close>.  The decoder sees the whole buffer, so
  the bytes of earlier chunks may follow those of the chunk read.

  Shown: a stored chunk is read back exactly, with and without the cache of decoded chunks, and the
  cache goes on holding only right chunks; the policies for corrupt chunks; which chunks make a read
  panic, and that a failed uncached read leaves a worker behind that panics on its next chunk.
\<close>

subsection \<open>Errors and parameters\<close>

datatype read_error_kind =
    OffsetBeyondEnd nat nat
  | RdIoError io_error
  | TooShort nat nat
  | BadChecksum nat nat nat
  | DecompressionFailed nat io_error
  | BadChunkBounds nat nat nat

datatype corrupt_chunk_policy = PolError | PolZero | PolRawIfPossible

record codec =
  cd_read_exact :: "bytes \<Rightarrow> nat \<Rightarrow> (bytes, io_error) result"
  cd_adler32 :: "bytes \<Rightarrow> (nat, io_error) result"

type_synonym worker_source = "nat \<Rightarrow> bytes \<Rightarrow> (unit, io_error) result \<times> bytes"

text \<open>\<open>spoil off buf\<close> is what a failing read of the cache leaves in the buffer.\<close>

definition cache_worker_source :: "cache \<Rightarrow> (nat \<Rightarrow> bytes \<Rightarrow> bytes) \<Rightarrow> nat \<Rightarrow> worker_source" where
  "cache_worker_source c spoil idx off buf =
     (case cache_read c idx off (length buf) of
        Ok bs \<Rightarrow> (Ok (), bs)
      | Err e \<Rightarrow> (Err e, spoil off buf)
      | Panic \<Rightarrow> (Panic, spoil off buf))"

subsection \<open>The worker\<close>

record read_worker =
  w_chunk_size :: nat
  w_image_end :: nat
  w_policy :: corrupt_chunk_policy
  w_buf :: bytes

definition worker_new :: "nat \<Rightarrow> nat \<Rightarrow> corrupt_chunk_policy \<Rightarrow> read_worker" where
  "worker_new chunk_size image_end policy =
     \<lparr>w_chunk_size = chunk_size, w_image_end = image_end, w_policy = policy,
      w_buf = replicate (u64_add chunk_size 4) 0\<rparr>"

text \<open>\<open>buf.copy_from_slice(&xs[i..j])\<close> into a buffer of length \<open>n\<close>.\<close>

definition copy_from_slice :: "nat \<Rightarrow> bytes \<Rightarrow> nat \<Rightarrow> nat \<Rightarrow> (bytes, 'e) result" where
  "copy_from_slice n xs i j =
     and_then (slice xs i j) (\<lambda>ys. if length ys = n then Ok ys else Panic)"

definition read_compressed_read ::
    "worker_source \<Rightarrow> nat \<Rightarrow> nat \<Rightarrow> read_worker \<Rightarrow> (unit, read_error_kind) result \<times> read_worker" where
  "read_compressed_read src chunk_off chunk_len w =
     (let v = w_buf w in
      if chunk_len \<le> length v then
        let (r, raw_data) = src chunk_off (take chunk_len v)
        in (map_err RdIoError r, w\<lparr>w_buf := raw_data @ drop chunk_len v\<rparr>)
      else (Panic, w\<lparr>w_buf := []\<rparr>))"

definition read_compressed_decompress_full ::
    "codec \<Rightarrow> nat \<Rightarrow> nat \<Rightarrow> read_worker \<Rightarrow> (bytes, read_error_kind) result" where
  "read_compressed_decompress_full k chunk_index n w =
     (case cd_read_exact k (w_buf w) n of
        Ok out \<Rightarrow> Ok out
      | Err e \<Rightarrow>
          (case w_policy w of
             PolError \<Rightarrow> Err (DecompressionFailed chunk_index e)
           | PolZero \<Rightarrow> Ok (replicate n 0)
           | PolRawIfPossible \<Rightarrow> Ok (replicate n 0))
      | Panic \<Rightarrow> Panic)"

definition decoded_len :: "read_worker \<Rightarrow> nat \<Rightarrow> nat" where
  "decoded_len w chunk_index =
     min (u64_sub (w_image_end w) (u64_mul chunk_index (w_chunk_size w))) (w_chunk_size w)"

text \<open>The part that the cached and the uncached read share: fetch and decompress.\<close>

definition compressed_chunk ::
    "codec \<Rightarrow> worker_source \<Rightarrow> nat \<Rightarrow> nat \<Rightarrow> nat \<Rightarrow> read_worker \<Rightarrow>
      (bytes, read_error_kind) result \<times> read_worker" where
  "compressed_chunk k src chunk_index chunk_off chunk_len w =
     (let n = decoded_len w chunk_index; (r, w) = read_compressed_read src chunk_off chunk_len w
      in (and_then r (\<lambda>_. read_compressed_decompress_full k chunk_index n w), w))"

definition read_compressed ::
    "codec \<Rightarrow> worker_source \<Rightarrow> nat \<Rightarrow> nat \<Rightarrow> nat \<Rightarrow> nat \<Rightarrow> nat \<Rightarrow> nat \<Rightarrow> read_worker \<Rightarrow>
      (bytes, read_error_kind) result \<times> read_worker" where
  "read_compressed k src chunk_index chunk_off chunk_len buflen beg_in_chunk end_in_chunk w =
     (let (r, w) = compressed_chunk k src chunk_index chunk_off chunk_len w
      in (and_then r (\<lambda>decoded. copy_from_slice buflen decoded beg_in_chunk end_in_chunk), w))"

definition verify_uncompressed_payload ::
    "codec \<Rightarrow> corrupt_chunk_policy \<Rightarrow> nat \<Rightarrow> bytes \<Rightarrow> (bytes, read_error_kind) result" where
  "verify_uncompressed_payload k policy chunk_index raw_data =
     (if length raw_data < 5 then Err (TooShort chunk_index (length raw_data))
      else
        let crc_stored = from_le_bytes (drop (length raw_data - 4) raw_data);
            out = take (length raw_data - 4) raw_data
        in and_then (map_err RdIoError (cd_adler32 k out)) (\<lambda>crc.
           if crc \<noteq> crc_stored then
             (case policy of
                PolError \<Rightarrow> Err (BadChecksum chunk_index crc crc_stored)
              | PolZero \<Rightarrow> Ok (replicate (length out) 0)
              | PolRawIfPossible \<Rightarrow> Ok out)
           else Ok out))"

text \<open>The result and the buffer as the source has left it.\<close>

definition read_uncompressed_inner ::
    "codec \<Rightarrow> worker_source \<Rightarrow> corrupt_chunk_policy \<Rightarrow> nat \<Rightarrow> nat \<Rightarrow> nat \<Rightarrow> nat \<Rightarrow> nat \<Rightarrow> bytes \<Rightarrow>
      (bytes, read_error_kind) result \<times> bytes" where
  "read_uncompressed_inner k src policy chunk_index chunk_off buflen beg_in_chunk end_in_chunk raw_data =
     (let (r, raw_data) = src chunk_off raw_data
      in (and_then (map_err RdIoError r) (\<lambda>_.
          and_then (verify_uncompressed_payload k policy chunk_index raw_data) (\<lambda>out.
            copy_from_slice buflen out beg_in_chunk end_in_chunk)), raw_data))"

text \<open>The early return on an error drops the buffer.\<close>

definition read_uncompressed ::
    "codec \<Rightarrow> worker_source \<Rightarrow> nat \<Rightarrow> nat \<Rightarrow> nat \<Rightarrow> nat \<Rightarrow> nat \<Rightarrow> nat \<Rightarrow> read_worker \<Rightarrow>
      (bytes, read_error_kind) result \<times> read_worker" where
  "read_uncompressed k src chunk_index chunk_off chunk_len buflen beg_in_chunk end_in_chunk w =
     (let v = w_buf w; w = w\<lparr>w_buf := []\<rparr> in
      if chunk_len \<le> length v then
        (case read_uncompressed_inner k src (w_policy w) chunk_index chunk_off buflen beg_in_chunk end_in_chunk
            (take chunk_len v) of
           (Ok bs, raw_data) \<Rightarrow> (Ok bs, w\<lparr>w_buf := raw_data @ drop chunk_len v\<rparr>)
         | (r, _) \<Rightarrow> (r, w))
      else (Panic, w))"

definition checked_chunk_len :: "read_worker \<Rightarrow> chunk \<Rightarrow> nat \<Rightarrow> (nat, read_error_kind) result" where
  "checked_chunk_len w chunk chunk_index =
     (case checked_sub (ch_end_offset chunk) (ch_data_offset chunk) of
        Some len \<Rightarrow>
          if len \<le> u64_add (w_chunk_size w) 4 then Ok len
          else Err (BadChunkBounds chunk_index (ch_data_offset chunk) (ch_end_offset chunk))
      | None \<Rightarrow> Err (BadChunkBounds chunk_index (ch_data_offset chunk) (ch_end_offset chunk)))"

text \<open>\<open>ReadWorker::read\<close>, without the cache of decoded chunks.\<close>

definition worker_read ::
    "codec \<Rightarrow> worker_source \<Rightarrow> chunk \<Rightarrow> nat \<Rightarrow> nat \<Rightarrow> nat \<Rightarrow> nat \<Rightarrow> read_worker \<Rightarrow>
      (bytes, read_error_kind) result \<times> read_worker" where
  "worker_read k src chunk chunk_index buflen beg_in_chunk end_in_chunk w =
     (case checked_chunk_len w chunk chunk_index of
        Ok chunk_len \<Rightarrow>
          if ch_compressed chunk then
            read_compressed k src chunk_index (ch_data_offset chunk) chunk_len buflen beg_in_chunk end_in_chunk w
          else
            read_uncompressed k src chunk_index (ch_data_offset chunk) chunk_len buflen beg_in_chunk end_in_chunk w
      | Err e \<Rightarrow> (Err e, w)
      | Panic \<Rightarrow> (Panic, w))"

subsection \<open>Reading through the cache of decoded chunks\<close>

text \<open>The lookup that both cached reads begin with: \<open>None\<close> when the chunk is not there.\<close>

definition cached_lookup ::
    "nat \<Rightarrow> nat \<Rightarrow> nat \<Rightarrow> nat \<Rightarrow> decoded_chunk_cache \<Rightarrow>
      (bytes, read_error_kind) result option \<times> decoded_chunk_cache" where
  "cached_lookup chunk_index buflen beg_in_chunk end_in_chunk cache =
     (case dcc_get cache chunk_index of
        (Some chunk, cache) \<Rightarrow> (Some (copy_from_slice buflen chunk beg_in_chunk end_in_chunk), cache)
      | (None, cache) \<Rightarrow> (None, cache))"

text \<open>The end of both: copy the part asked for, and only then put the chunk into the cache.\<close>

definition copy_and_insert ::
    "nat \<Rightarrow> nat \<Rightarrow> nat \<Rightarrow> nat \<Rightarrow> (bytes, read_error_kind) result \<Rightarrow> decoded_chunk_cache \<Rightarrow>
      (bytes, read_error_kind) result \<times> decoded_chunk_cache" where
  "copy_and_insert chunk_index buflen beg_in_chunk end_in_chunk r cache =
     (case r of
        Ok payload \<Rightarrow>
          (case copy_from_slice buflen payload beg_in_chunk end_in_chunk of
             Ok bs \<Rightarrow> (Ok bs, dcc_insert cache chunk_index payload)
           | r \<Rightarrow> (r, cache))
      | _ \<Rightarrow> (r, cache))"

text \<open>What follows a lookup that misses: a buffer of its own for uncompressed chunks, the worker's for
  compressed ones.\<close>

definition uncompressed_chunk ::
    "codec \<Rightarrow> worker_source \<Rightarrow> corrupt_chunk_policy \<Rightarrow> nat \<Rightarrow> nat \<Rightarrow> nat \<Rightarrow> (bytes, read_error_kind) result" where
  "uncompressed_chunk k src policy chunk_index chunk_off chunk_len =
     (let (r, raw_data) = src chunk_off (replicate chunk_len 0)
      in and_then (map_err RdIoError r) (\<lambda>_. verify_uncompressed_payload k policy chunk_index raw_data))"

definition uncompressed_fetch ::
    "codec \<Rightarrow> worker_source \<Rightarrow> nat \<Rightarrow> nat \<Rightarrow> nat \<Rightarrow> nat \<Rightarrow> nat \<Rightarrow> nat \<Rightarrow> read_worker \<times> decoded_chunk_cache \<Rightarrow>
      (bytes, read_error_kind) result \<times> (read_worker \<times> decoded_chunk_cache)" where
  "uncompressed_fetch k src chunk_index chunk_off chunk_len buflen beg_in_chunk end_in_chunk s =
     (let (w, cache) = s;
          (r, cache) = copy_and_insert chunk_index buflen beg_in_chunk end_in_chunk
            (uncompressed_chunk k src (w_policy w) chunk_index chunk_off chunk_len) cache
      in (r, (w, cache)))"

definition compressed_fetch ::
    "codec \<Rightarrow> worker_source \<Rightarrow> nat \<Rightarrow> nat \<Rightarrow> nat \<Rightarrow> nat \<Rightarrow> nat \<Rightarrow> nat \<Rightarrow> read_worker \<times> decoded_chunk_cache \<Rightarrow>
      (bytes, read_error_kind) result \<times> (read_worker \<times> decoded_chunk_cache)" where
  "compressed_fetch k src chunk_index chunk_off chunk_len buflen beg_in_chunk end_in_chunk s =
     (let (w, cache) = s;
          (r, w) = compressed_chunk k src chunk_index chunk_off chunk_len w;
          (r, cache) = copy_and_insert chunk_index buflen beg_in_chunk end_in_chunk r cache
      in (r, (w, cache)))"

definition after_miss ::
    "nat \<Rightarrow> nat \<Rightarrow> nat \<Rightarrow> nat \<Rightarrow>
      (read_worker \<times> decoded_chunk_cache \<Rightarrow> (bytes, read_error_kind) result \<times> (read_worker \<times> decoded_chunk_cache)) \<Rightarrow>
      read_worker \<times> decoded_chunk_cache \<Rightarrow>
      (bytes, read_error_kind) result \<times> (read_worker \<times> decoded_chunk_cache)" where
  "after_miss chunk_index buflen beg_in_chunk end_in_chunk fetch s =
     (case cached_lookup chunk_index buflen beg_in_chunk end_in_chunk (snd s) of
        (Some r, cache) \<Rightarrow> (r, (fst s, cache))
      | (None, cache) \<Rightarrow> fetch (fst s, cache))"

definition read_uncompressed_cached ::
    "codec \<Rightarrow> worker_source \<Rightarrow> nat \<Rightarrow> nat \<Rightarrow> nat \<Rightarrow> nat \<Rightarrow> nat \<Rightarrow> nat \<Rightarrow> read_worker \<times> decoded_chunk_cache \<Rightarrow>
      (bytes, read_error_kind) result \<times> (read_worker \<times> decoded_chunk_cache)" where
  "read_uncompressed_cached k src chunk_index chunk_off chunk_len buflen beg_in_chunk end_in_chunk =
     after_miss chunk_index buflen beg_in_chunk end_in_chunk
       (uncompressed_fetch k src chunk_index chunk_off chunk_len buflen beg_in_chunk end_in_chunk)"

definition read_compressed_cached ::
    "codec \<Rightarrow> worker_source \<Rightarrow> nat \<Rightarrow> nat \<Rightarrow> nat \<Rightarrow> nat \<Rightarrow> nat \<Rightarrow> nat \<Rightarrow> read_worker \<times> decoded_chunk_cache \<Rightarrow>
      (bytes, read_error_kind) result \<times> (read_worker \<times> decoded_chunk_cache)" where
  "read_compressed_cached k src chunk_index chunk_off chunk_len buflen beg_in_chunk end_in_chunk =
     after_miss chunk_index buflen beg_in_chunk end_in_chunk
       (compressed_fetch k src chunk_index chunk_off chunk_len buflen beg_in_chunk end_in_chunk)"

definition read_cached ::
    "codec \<Rightarrow> worker_source \<Rightarrow> chunk \<Rightarrow> nat \<Rightarrow> nat \<Rightarrow> nat \<Rightarrow> nat \<Rightarrow> read_worker \<times> decoded_chunk_cache \<Rightarrow>
      (bytes, read_error_kind) result \<times> (read_worker \<times> decoded_chunk_cache)" where
  "read_cached k src chunk chunk_index buflen beg_in_chunk end_in_chunk s =
     (case checked_chunk_len (fst s) chunk chunk_index of
        Ok chunk_len \<Rightarrow>
          if ch_compressed chunk then
            read_compressed_cached k src chunk_index (ch_data_offset chunk) chunk_len buflen beg_in_chunk end_in_chunk s
          else
            read_uncompressed_cached k src chunk_index (ch_data_offset chunk) chunk_len buflen beg_in_chunk end_in_chunk s
      | Err e \<Rightarrow> (Err e, s)
      | Panic \<Rightarrow> (Panic, s))"

subsection \<open>What the parameters promise\<close>

text \<open>\<open>deflate d\<close> is any zlib stream for \<open>d\<close>, \<open>adl\<close> the Adler-32 sum.  A decoder on a stream gives the bytes
  compressed and stops at the end of the stream, whatever follows it.\<close>

definition codec_total :: "codec \<Rightarrow> bool" where
  "codec_total k \<longleftrightarrow>
     (\<forall>v n. cd_read_exact k v n \<noteq> Panic) \<and> (\<forall>v n bs. cd_read_exact k v n = Ok bs \<longrightarrow> length bs = n) \<and>
     (\<forall>bs. cd_adler32 k bs \<noteq> Panic)"

definition codec_ok :: "codec \<Rightarrow> (bytes \<Rightarrow> bytes) \<Rightarrow> (bytes \<Rightarrow> nat) \<Rightarrow> bool" where
  "codec_ok k deflate adl \<longleftrightarrow>
     (\<forall>d junk n. n \<le> length d \<longrightarrow> cd_read_exact k (deflate d @ junk) n = Ok (take n d)) \<and>
     (\<forall>bs. cd_adler32 k bs = Ok (adl bs) \<and> adl bs < 2 ^ 32)"

definition src_total :: "worker_source \<Rightarrow> bool" where
  "src_total src \<longleftrightarrow> (\<forall>off buf. fst (src off buf) \<noteq> Panic \<and> length (snd (src off buf)) = length buf)"

definition src_serves :: "worker_source \<Rightarrow> bytes \<Rightarrow> bool" where
  "src_serves src file \<longleftrightarrow>
     (\<forall>off buf. off + length buf \<le> length file \<longrightarrow> src off buf = (Ok (), sub_list file off (length buf)))"

lemma codec_okD:
  assumes "codec_ok k deflate adl"
  shows "n \<le> length d \<Longrightarrow> cd_read_exact k (deflate d @ junk) n = Ok (take n d)"
    and "cd_adler32 k bs = Ok (adl bs)" and "adl bs < 2 ^ 32"
  using assms by (auto simp: codec_ok_def)

lemma codec_totalD:
  assumes "codec_total k"
  shows "cd_read_exact k v n \<noteq> Panic" "cd_read_exact k v n = Ok bs \<Longrightarrow> length bs = n" "cd_adler32 k bs \<noteq> Panic"
  using assms by (auto simp: codec_total_def)

lemma cache_worker_source_serves:
  "serves c idx file \<Longrightarrow> src_serves (cache_worker_source c spoil idx) file"
  by (auto simp: src_serves_def cache_worker_source_def servesD)

text \<open>A chunk of an image holds the bytes \<open>d\<close>: compressed, or as they are with their checksum.\<close>

definition stored_chunk :: "(bytes \<Rightarrow> bytes) \<Rightarrow> (bytes \<Rightarrow> nat) \<Rightarrow> bytes \<Rightarrow> chunk \<Rightarrow> bytes \<Rightarrow> bool" where
  "stored_chunk deflate adl file ch d \<longleftrightarrow>
     ch_data_offset ch \<le> ch_end_offset ch \<and> ch_end_offset ch \<le> length file \<and> d \<noteq> [] \<and>
     sub_list file (ch_data_offset ch) (ch_end_offset ch - ch_data_offset ch) =
       (if ch_compressed ch then deflate d else d @ to_le_bytes 4 (adl d))"

definition worker_ok :: "read_worker \<Rightarrow> bool" where
  "worker_ok w \<longleftrightarrow> length (w_buf w) = w_chunk_size w + 4 \<and> w_chunk_size w + 4 < u64_lim"

definition same_settings :: "read_worker \<Rightarrow> read_worker \<Rightarrow> bool" where
  "same_settings w w' \<longleftrightarrow> w_chunk_size w' = w_chunk_size w \<and> w_image_end w' = w_image_end w \<and> w_policy w' = w_policy w"

text \<open>A decoded chunk whose first \<open>n\<close> bytes are those of \<open>d\<close>.\<close>

definition begins_as :: "nat \<Rightarrow> bytes \<Rightarrow> bytes \<Rightarrow> bool" where
  "begins_as n d v \<longleftrightarrow> n \<le> length v \<and> take n v = take n d"

lemma worker_new_ok: "cs + 4 < u64_lim \<Longrightarrow> worker_ok (worker_new cs ie pol)"
  by (simp add: worker_ok_def worker_new_def)

lemma worker_ok_buf: "worker_ok w \<Longrightarrow> length v = length (w_buf w) \<Longrightarrow> worker_ok (w\<lparr>w_buf := v\<rparr>)"
  by (simp add: worker_ok_def)

lemma same_settings_buf [simp]: "same_settings w (w\<lparr>w_buf := v\<rparr>)"
  by (simp add: same_settings_def)

lemma checked_chunk_len_Ok:
  assumes "worker_ok w"
  shows "checked_chunk_len w ch i = Ok len \<longleftrightarrow>
    ch_data_offset ch \<le> ch_end_offset ch \<and> len = ch_end_offset ch - ch_data_offset ch \<and> len \<le> w_chunk_size w + 4"
  using assms by (auto simp: checked_chunk_len_def checked_sub_def worker_ok_def)

lemma checked_chunk_len_no_panic [simp]: "checked_chunk_len w ch i \<noteq> Panic"
  by (auto simp: checked_chunk_len_def split: option.splits)

lemma copy_begins_as:
  assumes "begins_as n d v" "b \<le> e" "e \<le> n"
  shows "copy_from_slice (e - b) v b e = Ok (sub_list d b (e - b))"
proof -
  have "take (e - b) (drop b v) = take (e - b) (drop b (take n v))"
    using assms(2,3) by (simp add: drop_take)
  also have "\<dots> = take (e - b) (drop b (take n d))" using assms(1) by (simp add: begins_as_def)
  also have "\<dots> = sub_list d b (e - b)" using assms(2,3) by (simp add: drop_take sub_list_def)
  finally have "take (e - b) (drop b v) = sub_list d b (e - b)" .
  moreover have "length (take (e - b) (drop b v)) = e - b" using assms by (auto simp: begins_as_def min_def)
  ultimately show ?thesis
    using assms by (simp add: copy_from_slice_def slice_def begins_as_def)
qed

lemma copy_no_panic: "b \<le> e \<Longrightarrow> e \<le> length v \<Longrightarrow> copy_from_slice (e - b) v b e = Ok (sub_list v b (e - b))"
  by (rule copy_begins_as [of "length v"]) (simp_all add: begins_as_def)

subsection \<open>A stored chunk is read back\<close>

lemma compressed_chunk_exact:
  assumes k: "codec_ok k deflate adl" and src: "src_serves src file" and w: "worker_ok w"
    and ch: "stored_chunk deflate adl file ch d" "ch_compressed ch" "checked_chunk_len w ch i = Ok len"
    and d: "decoded_len w i \<le> length d"
  obtains w' where "compressed_chunk k src i (ch_data_offset ch) len w = (Ok (take (decoded_len w i) d), w')"
    "worker_ok w'" "same_settings w w'"
proof -
  have len: "len = ch_end_offset ch - ch_data_offset ch" "len \<le> length (w_buf w)" "ch_data_offset ch \<le> ch_end_offset ch"
    using ch(3) checked_chunk_len_Ok [OF w] w by (auto simp: worker_ok_def)
  have raw: "sub_list file (ch_data_offset ch) len = deflate d" "ch_data_offset ch + len \<le> length file"
    using ch(1,2) len by (auto simp: stored_chunk_def)
  let ?w = "w\<lparr>w_buf := deflate d @ drop len (w_buf w)\<rparr>"
  have "read_compressed_read src (ch_data_offset ch) len w = (Ok (), ?w)"
    using src raw len by (simp add: read_compressed_read_def src_serves_def Let_def)
  moreover have "read_compressed_decompress_full k i (decoded_len w i) ?w = Ok (take (decoded_len w i) d)"
    using codec_okD(1) [OF k d] by (simp add: read_compressed_decompress_full_def)
  ultimately have "compressed_chunk k src i (ch_data_offset ch) len w = (Ok (take (decoded_len w i) d), ?w)"
    by (simp add: compressed_chunk_def Let_def)
  moreover have "length (deflate d) = len" using raw by (metis length_sub_list)
  then have "worker_ok ?w" using len(2) by (intro worker_ok_buf [OF w]) simp
  ultimately show thesis by (rule that) simp
qed

lemma verify_stored:
  assumes "codec_ok k deflate adl" "d \<noteq> []"
  shows "verify_uncompressed_payload k pol i (d @ to_le_bytes 4 (adl d)) = Ok d"
proof -
  have "\<not> length d + 4 < 5" using assms(2) by (cases d) auto
  moreover have "from_le_bytes (to_le_bytes 4 (adl d)) = adl d"
    using codec_okD(3) [OF assms(1), of d] by (simp only: from_le_to_le_bytes) simp
  ultimately show ?thesis
    using assms(2)
    by (simp add: verify_uncompressed_payload_def codec_okD(2) [OF assms(1)] Let_def del: to_le_bytes.simps)
qed

lemma stored_raw:
  assumes "src_serves src file" "stored_chunk deflate adl file ch d" "\<not> ch_compressed ch"
    "length buf = ch_end_offset ch - ch_data_offset ch"
  shows "src (ch_data_offset ch) buf = (Ok (), d @ to_le_bytes 4 (adl d))"
  using assms by (simp add: src_serves_def stored_chunk_def)

lemma stored_length:
  assumes "stored_chunk deflate adl file ch d" "\<not> ch_compressed ch"
  shows "ch_end_offset ch - ch_data_offset ch = length d + 4"
proof -
  have "length (sub_list file (ch_data_offset ch) (ch_end_offset ch - ch_data_offset ch)) = length d + 4"
    using assms by (simp add: stored_chunk_def)
  moreover have "ch_data_offset ch + (ch_end_offset ch - ch_data_offset ch) \<le> length file"
    using assms(1) by (simp add: stored_chunk_def)
  ultimately show ?thesis by (simp only: length_sub_list)
qed

lemma begins_as_take: "n \<le> length d \<Longrightarrow> begins_as n d (take n d)"
  by (simp add: begins_as_def)

lemma begins_as_refl: "n \<le> length d \<Longrightarrow> begins_as n d d"
  by (simp add: begins_as_def)

lemma worker_read_lemma:
  assumes k: "codec_ok k deflate adl" and src: "src_serves src file" and w: "worker_ok w"
    and ch: "stored_chunk deflate adl file ch d" "ch_end_offset ch - ch_data_offset ch \<le> w_chunk_size w + 4"
    and d: "decoded_len w i \<le> length d" and be: "b \<le> e" "e \<le> decoded_len w i"
  shows "\<exists>w'. worker_read k src ch i (e - b) b e w = (Ok (sub_list d b (e - b)), w') \<and> worker_ok w' \<and> same_settings w w'"
proof -
  let ?len = "ch_end_offset ch - ch_data_offset ch"
  have len: "checked_chunk_len w ch i = Ok ?len"
    using ch checked_chunk_len_Ok [OF w] by (simp add: stored_chunk_def)
  show ?thesis
  proof (cases "ch_compressed ch")
    case True
    obtain w' where "compressed_chunk k src i (ch_data_offset ch) ?len w = (Ok (take (decoded_len w i) d), w')"
      "worker_ok w'" "same_settings w w'"
      by (rule compressed_chunk_exact [OF k src w ch(1) True len d])
    then show ?thesis
      using len True copy_begins_as [OF begins_as_take [OF d] be]
      by (simp add: worker_read_def read_compressed_def)
  next
    case False
    have l: "?len \<le> length (w_buf w)" using ch(2) w by (simp add: worker_ok_def)
    let ?raw = "d @ to_le_bytes 4 (adl d)"
    let ?w = "w\<lparr>w_buf := ?raw @ drop ?len (w_buf w)\<rparr>"
    have "read_uncompressed_inner k src (w_policy w) i (ch_data_offset ch) (e - b) b e (take ?len (w_buf w)) =
        (Ok (sub_list d b (e - b)), ?raw)"
      using stored_raw [OF src ch(1) False] l verify_stored [OF k] ch(1) copy_begins_as [OF begins_as_refl [OF d] be]
      by (simp add: read_uncompressed_inner_def stored_chunk_def del: to_le_bytes.simps)
    then have "worker_read k src ch i (e - b) b e w = (Ok (sub_list d b (e - b)), ?w)"
      using len False l by (simp add: worker_read_def read_uncompressed_def Let_def del: to_le_bytes.simps)
    moreover have "worker_ok ?w"
      using stored_length [OF ch(1) False] l by (intro worker_ok_buf [OF w]) simp
    ultimately show ?thesis using same_settings_buf by blast
  qed
qed

text \<open>A worker without the cache of decoded chunks reads a stored chunk, compressed or not, back exactly:
  it copies the asked part of the bytes that were stored, whatever the buffer held before, and can
  be used again.\<close>

theorem worker_read_exact:
  assumes k: "codec_ok k deflate adl" and src: "src_serves src file" and w: "worker_ok w"
    and ch: "stored_chunk deflate adl file ch d" "ch_end_offset ch - ch_data_offset ch \<le> w_chunk_size w + 4"
    and d: "decoded_len w i \<le> length d" and be: "b \<le> e" "e \<le> decoded_len w i"
  shows "\<exists>w'. worker_read k src ch i (e - b) b e w = (Ok (sub_list d b (e - b)), w') \<and> worker_ok w' \<and> same_settings w w'"
  by (rule worker_read_lemma [OF assms])

subsection \<open>The same through the cache of decoded chunks\<close>

text \<open>Every chunk in the cache begins with the \<open>n i\<close> bytes of its chunk that belong to the image.\<close>

abbreviation cache_sound :: "(nat \<Rightarrow> nat) \<Rightarrow> (nat \<Rightarrow> bytes) \<Rightarrow> decoded_chunk_cache \<Rightarrow> bool" where
  "cache_sound n D \<equiv> dcc.sound (\<lambda>i v. begins_as (n i) (D i) v)"

lemma cached_lookup_sound:
  assumes "cache_sound n D c" "cached_lookup i (e - b) b e c = (r, c')" "b \<le> e" "e \<le> n i"
  shows "cache_sound n D c' \<and> (\<forall>x. r = Some x \<longrightarrow> x = Ok (sub_list (D i) b (e - b)))"
proof -
  obtain g where g: "dcc_get c i = (g, c')" "r = map_option (\<lambda>ch. copy_from_slice (e - b) ch b e) g"
    using assms(2) by (auto simp: cached_lookup_def split: prod.splits option.splits)
  have "cache_sound n D c'" using dcc.sound_get [OF assms(1), of i] g(1) by simp
  moreover have "\<And>v. g = Some v \<Longrightarrow> begins_as (n i) (D i) v"
    using dcc.sound_hit [OF assms(1), of i] g(1) by simp
  ultimately show ?thesis using g(2) copy_begins_as assms(3,4) by fastforce
qed

lemma copy_and_insert_sound:
  assumes "cache_sound n D c" "begins_as (n i) (D i) v" "b \<le> e" "e \<le> n i"
  obtains c' where "copy_and_insert i (e - b) b e (Ok v) c = (Ok (sub_list (D i) b (e - b)), c')" "cache_sound n D c'"
  by (rule that [of "dcc_insert c i v"])
    (simp_all add: copy_and_insert_def copy_begins_as [OF assms(2,3,4)] dcc.sound_put [OF assms(1,2)])

text \<open>The worker and the cache after a step on chunk \<open>i\<close>, and the bytes it gives.\<close>

definition exact_step ::
    "(nat \<Rightarrow> nat) \<Rightarrow> (nat \<Rightarrow> bytes) \<Rightarrow> nat \<Rightarrow> nat \<Rightarrow> nat \<Rightarrow> read_worker \<Rightarrow>
      (bytes, read_error_kind) result \<times> (read_worker \<times> decoded_chunk_cache) \<Rightarrow> bool" where
  "exact_step n D i b e w out \<longleftrightarrow>
     (case out of (r, (w', c')) \<Rightarrow>
        r = Ok (sub_list (D i) b (e - b)) \<and> worker_ok w' \<and> same_settings w w' \<and> cache_sound n D c')"

definition read_cached_fetch ::
    "codec \<Rightarrow> worker_source \<Rightarrow> chunk \<Rightarrow> nat \<Rightarrow> nat \<Rightarrow> nat \<Rightarrow> nat \<Rightarrow> nat \<Rightarrow> read_worker \<times> decoded_chunk_cache \<Rightarrow>
      (bytes, read_error_kind) result \<times> (read_worker \<times> decoded_chunk_cache)" where
  "read_cached_fetch k src chunk chunk_index chunk_len buflen beg_in_chunk end_in_chunk =
     (if ch_compressed chunk
      then compressed_fetch k src chunk_index (ch_data_offset chunk) chunk_len buflen beg_in_chunk end_in_chunk
      else uncompressed_fetch k src chunk_index (ch_data_offset chunk) chunk_len buflen beg_in_chunk end_in_chunk)"

lemma read_cached_phases:
  "read_cached k src ch i m b e s =
     (case checked_chunk_len (fst s) ch i of
        Ok len \<Rightarrow> after_miss i m b e (read_cached_fetch k src ch i len m b e) s
      | Err x \<Rightarrow> (Err x, s)
      | Panic \<Rightarrow> (Panic, s))"
  by (simp add: read_cached_def read_cached_fetch_def read_compressed_cached_def read_uncompressed_cached_def
      split: result.splits)

lemma read_cached_fetch_exact:
  assumes k: "codec_ok k deflate adl" and src: "src_serves src file" and w: "worker_ok w"
    and ch: "stored_chunk deflate adl file ch (D i)" "checked_chunk_len w ch i = Ok len"
    and d: "decoded_len w i = n i" "n i \<le> length (D i)" and be: "b \<le> e" "e \<le> n i"
    and c: "cache_sound n D c"
  shows "exact_step n D i b e w (read_cached_fetch k src ch i len (e - b) b e (w, c))"
proof (cases "ch_compressed ch")
  case True
  obtain w' where 1: "compressed_chunk k src i (ch_data_offset ch) len w = (Ok (take (n i) (D i)), w')"
    "worker_ok w'" "same_settings w w'"
    using compressed_chunk_exact [OF k src w ch(1) True ch(2)] d by auto
  obtain c' where "copy_and_insert i (e - b) b e (Ok (take (n i) (D i))) c = (Ok (sub_list (D i) b (e - b)), c')"
    "cache_sound n D c'"
    by (rule copy_and_insert_sound [OF c begins_as_take [OF d(2)] be])
  then show ?thesis
    using 1 True by (simp add: exact_step_def read_cached_fetch_def compressed_fetch_def)
next
  case False
  have "len = ch_end_offset ch - ch_data_offset ch" using ch(2) checked_chunk_len_Ok [OF w] by simp
  then have "uncompressed_chunk k src (w_policy w) i (ch_data_offset ch) len = Ok (D i)"
    using stored_raw [OF src ch(1) False] verify_stored [OF k] ch(1)
    by (simp add: uncompressed_chunk_def stored_chunk_def del: to_le_bytes.simps)
  moreover obtain c' where "copy_and_insert i (e - b) b e (Ok (D i)) c = (Ok (sub_list (D i) b (e - b)), c')"
    "cache_sound n D c'"
    by (rule copy_and_insert_sound [OF c begins_as_refl [OF d(2)] be])
  ultimately show ?thesis
    using False w by (simp add: exact_step_def read_cached_fetch_def uncompressed_fetch_def same_settings_def)
qed

text \<open>C34: through the cache of decoded chunks, a stored chunk is read back exactly, on a hit and on a miss, as
  long as the cache holds only right chunks; afterwards it still does, and the worker can be used
  again.\<close>

theorem read_cached_exact:
  assumes k: "codec_ok k deflate adl" and src: "src_serves src file" and w: "worker_ok w"
    and ch: "stored_chunk deflate adl file ch (D i)" "ch_end_offset ch - ch_data_offset ch \<le> w_chunk_size w + 4"
    and d: "decoded_len w i = n i" "n i \<le> length (D i)" and be: "b \<le> e" "e \<le> n i"
    and c: "cache_sound n D c"
  shows "exact_step n D i b e w (read_cached k src ch i (e - b) b e (w, c))"
proof -
  have len: "checked_chunk_len w ch i = Ok (ch_end_offset ch - ch_data_offset ch)"
    using ch checked_chunk_len_Ok [OF w] by (simp add: stored_chunk_def)
  obtain r c' where r: "cached_lookup i (e - b) b e c = (r, c')" by fastforce
  note s = cached_lookup_sound [OF c r be]
  show ?thesis
  proof (cases r)
    case None
    have "exact_step n D i b e w
        (read_cached_fetch k src ch i (ch_end_offset ch - ch_data_offset ch) (e - b) b e (w, c'))"
      using read_cached_fetch_exact [where D = D and n = n, OF k src w ch(1) len d be] s by blast
    then show ?thesis using None r len by (simp add: read_cached_phases after_miss_def)
  next
    case (Some x)
    then show ?thesis
      using r len s w by (simp add: read_cached_phases after_miss_def exact_step_def same_settings_def)
  qed
qed

subsection \<open>Corrupt chunks\<close>

text \<open>Only the lengths matter here: \<open>cache_sound n (\<lambda>i. [])\<close> would ask for the bytes.\<close>

abbreviation cache_long :: "(nat \<Rightarrow> nat) \<Rightarrow> decoded_chunk_cache \<Rightarrow> bool" where
  "cache_long n \<equiv> dcc.sound (\<lambda>i v. n i \<le> length v)"

text \<open>Neither a panic nor a wrong length.\<close>

definition answers :: "nat \<Rightarrow> (bytes, read_error_kind) result \<Rightarrow> bool" where
  "answers m r \<longleftrightarrow> (case r of Ok bs \<Rightarrow> length bs = m | Err e \<Rightarrow> True | Panic \<Rightarrow> False)"

definition safe_step ::
    "(nat \<Rightarrow> nat) \<Rightarrow> nat \<Rightarrow> read_worker \<Rightarrow> (bytes, read_error_kind) result \<times> (read_worker \<times> decoded_chunk_cache) \<Rightarrow> bool" where
  "safe_step n m w out \<longleftrightarrow>
     (case out of (r, (w', c')) \<Rightarrow> answers m r \<and> worker_ok w' \<and> same_settings w w' \<and> cache_long n c')"

lemma copy_long:
  assumes "b \<le> e" "e \<le> length v"
  shows "copy_from_slice (e - b) v b e = Ok (sub_list v b (e - b)) \<and> length (sub_list v b (e - b)) = e - b"
  using assms by (simp add: copy_no_panic sub_list_def)

lemma cached_lookup_safe:
  assumes "cache_long n c" "cached_lookup i (e - b) b e c = (r, c')" "b \<le> e" "e \<le> n i"
  shows "cache_long n c' \<and> (\<forall>x. r = Some x \<longrightarrow> answers (e - b) x)"
proof -
  obtain g where g: "dcc_get c i = (g, c')" "r = map_option (\<lambda>ch. copy_from_slice (e - b) ch b e) g"
    using assms(2) by (auto simp: cached_lookup_def split: prod.splits option.splits)
  have "cache_long n c'" using dcc.sound_get [OF assms(1), of i] g(1) by simp
  moreover have "answers (e - b) (copy_from_slice (e - b) v b e)" if "g = Some v" for v
  proof -
    have "e \<le> length v" using dcc.sound_hit [OF assms(1), of i v] g(1) that assms(4) by simp
    then show ?thesis by (simp add: answers_def copy_long assms(3))
  qed
  ultimately show ?thesis using g(2) by auto
qed

lemma copy_and_insert_safe:
  assumes "cache_long n c" "r \<noteq> Panic" "\<And>v. r = Ok v \<Longrightarrow> n i \<le> length v" "b \<le> e" "e \<le> n i"
    and "copy_and_insert i (e - b) b e r c = (r', c')"
  shows "answers (e - b) r' \<and> cache_long n c'"
proof (cases r)
  case (Ok v)
  then have "copy_and_insert i (e - b) b e r c = (Ok (sub_list v b (e - b)), dcc_insert c i v)"
    using assms(3-5) by (simp add: copy_and_insert_def copy_long)
  then show ?thesis
    using assms(3-6) Ok dcc.sound_put [OF assms(1), of i v] copy_long [of b e v] by (auto simp: answers_def)
next
  case (Err x)
  then show ?thesis using assms(1,6) by (auto simp: copy_and_insert_def answers_def)
qed (use assms(2) in simp)

lemma compressed_chunk_safe:
  assumes k: "codec_total k" and src: "src_total src" and w: "worker_ok w" and len: "len \<le> w_chunk_size w + 4"
    and out: "compressed_chunk k src i off len w = (r, w')"
  shows "worker_ok w' \<and> same_settings w w' \<and> r \<noteq> Panic \<and> (\<forall>v. r = Ok v \<longrightarrow> length v = decoded_len w i)"
proof -
  let ?w = "w\<lparr>w_buf := snd (src off (take len (w_buf w))) @ drop len (w_buf w)\<rparr>"
  have rr: "read_compressed_read src off len w = (map_err RdIoError (fst (src off (take len (w_buf w)))), ?w)"
    using w len by (simp add: read_compressed_read_def worker_ok_def Let_def split: prod.splits)
  have w': "w' = ?w" using out rr by (simp add: compressed_chunk_def Let_def)
  have "worker_ok ?w" using src w len by (intro worker_ok_buf [OF w]) (simp add: src_total_def worker_ok_def)
  moreover have "read_compressed_decompress_full k i m v \<noteq> Panic" for m and v :: read_worker
    using codec_totalD [OF k]
    by (auto simp: read_compressed_decompress_full_def split: result.splits corrupt_chunk_policy.splits)
  moreover have "read_compressed_decompress_full k i m v = Ok u \<Longrightarrow> length u = m" for m u and v :: read_worker
    using codec_totalD [OF k]
    by (auto simp: read_compressed_decompress_full_def split: result.splits corrupt_chunk_policy.splits)
  moreover have "fst (src off (take len (w_buf w))) \<noteq> Panic" using src by (simp add: src_total_def)
  ultimately show ?thesis
    using out rr w' by (auto simp: compressed_chunk_def Let_def and_then_Ok_iff and_then_Panic_iff)
qed

lemma verify_safe:
  assumes "codec_total k"
  shows "verify_uncompressed_payload k pol i raw \<noteq> Panic"
    "verify_uncompressed_payload k pol i raw = Ok v \<Longrightarrow> length v + 4 = length raw"
  using codec_totalD(3) [OF assms]
  by (auto simp: verify_uncompressed_payload_def Let_def and_then_Panic_iff and_then_Ok_iff
      split: if_splits corrupt_chunk_policy.splits)

lemma uncompressed_chunk_safe:
  assumes k: "codec_total k" and src: "src_total src"
  shows "uncompressed_chunk k src pol i off len \<noteq> Panic"
    "uncompressed_chunk k src pol i off len = Ok v \<Longrightarrow> length v + 4 = len"
proof -
  have s: "fst (src off (replicate len 0)) \<noteq> Panic" "length (snd (src off (replicate len 0))) = len"
    using src by (simp_all add: src_total_def)
  show "uncompressed_chunk k src pol i off len \<noteq> Panic"
    using s verify_safe(1) [OF k]
    by (auto simp: uncompressed_chunk_def and_then_Panic_iff split: prod.splits)
  show "uncompressed_chunk k src pol i off len = Ok v \<Longrightarrow> length v + 4 = len"
    using s verify_safe(2) [OF k]
    by (fastforce simp: uncompressed_chunk_def and_then_Ok_iff split: prod.splits)
qed

lemma read_cached_fetch_safe:
  assumes k: "codec_total k" and src: "src_total src" and w: "worker_ok w" and c: "cache_long n c"
    and len: "len \<le> w_chunk_size w + 4" and ch: "ch_compressed ch \<or> n i + 4 \<le> len"
    and n: "decoded_len w i = n i" and be: "b \<le> e" "e \<le> n i"
  shows "safe_step n (e - b) w (read_cached_fetch k src ch i len (e - b) b e (w, c))"
proof (cases "ch_compressed ch")
  case True
  obtain r w' where 1: "compressed_chunk k src i (ch_data_offset ch) len w = (r, w')" by fastforce
  obtain r' c' where 2: "copy_and_insert i (e - b) b e r c = (r', c')" by fastforce
  have "answers (e - b) r' \<and> cache_long n c'"
    by (rule copy_and_insert_safe [OF c _ _ be 2]) (use compressed_chunk_safe [OF k src w len 1] n in auto)
  then show ?thesis
    using compressed_chunk_safe [OF k src w len 1] True 1 2
    by (simp add: safe_step_def read_cached_fetch_def compressed_fetch_def)
next
  case False
  let ?r = "uncompressed_chunk k src (w_policy w) i (ch_data_offset ch) len"
  obtain r' c' where 2: "copy_and_insert i (e - b) b e ?r c = (r', c')" by fastforce
  have "answers (e - b) r' \<and> cache_long n c'"
    by (rule copy_and_insert_safe [OF c _ _ be 2]) (use uncompressed_chunk_safe [OF k src] ch False in force)+
  then show ?thesis
    using False 2 w by (simp add: safe_step_def read_cached_fetch_def uncompressed_fetch_def same_settings_def)
qed

text \<open>Whatever the image file holds, a read of a chunk through the cache of decoded chunks never panics: it
  gives exactly the bytes asked for or an error, and leaves a worker and a cache that can be used
  again.  An uncompressed chunk has to be long enough for the part of the image it stands for.\<close>

theorem read_cached_total:
  assumes "codec_total k" "src_total src" "worker_ok w" "cache_long n c"
    and "ch_compressed ch \<or> ch_data_offset ch + n i + 4 \<le> ch_end_offset ch \<or> ch_end_offset ch < ch_data_offset ch"
    and "decoded_len w i = n i" "b \<le> e" "e \<le> n i"
  shows "safe_step n (e - b) w (read_cached k src ch i (e - b) b e (w, c))"
proof (cases "checked_chunk_len w ch i")
  case (Ok len)
  then have len: "len = ch_end_offset ch - ch_data_offset ch" "len \<le> w_chunk_size w + 4"
    "ch_data_offset ch \<le> ch_end_offset ch"
    using checked_chunk_len_Ok [OF assms(3)] by auto
  have ch: "ch_compressed ch \<or> n i + 4 \<le> len" using assms(5) len by auto
  obtain r c' where r: "cached_lookup i (e - b) b e c = (r, c')" by fastforce
  note s = cached_lookup_safe [OF assms(4) r assms(7,8)]
  show ?thesis
  proof (cases r)
    case None
    have "safe_step n (e - b) w (read_cached_fetch k src ch i len (e - b) b e (w, c'))"
      using read_cached_fetch_safe [where n = n, OF assms(1-3) _ len(2) ch assms(6-8)] s by blast
    then show ?thesis using None r Ok by (simp add: read_cached_phases after_miss_def)
  next
    case (Some x)
    then show ?thesis
      using r Ok s assms(3) by (simp add: read_cached_phases after_miss_def safe_step_def same_settings_def)
  qed
next
  case (Err x)
  then show ?thesis
    using assms(3,4) by (simp add: read_cached_phases safe_step_def answers_def same_settings_def)
qed simp

text \<open>Under the policy \<open>Error\<close>, the bytes that an uncompressed chunk gives are covered by its checksum: the
  chunk as the source gave it ends in the sum of the bytes before it, and what is returned is a part
  of these.\<close>

theorem error_policy_verifies:
  assumes "worker_read k src ch i m b e w = (Ok bs, w')" "w_policy w = PolError" "\<not> ch_compressed ch"
  shows "\<exists>raw len payload. snd (src (ch_data_offset ch) (take len (w_buf w))) = raw \<and>
    payload = take (length raw - 4) raw \<and> cd_adler32 k payload = Ok (from_le_bytes (drop (length raw - 4) raw)) \<and>
    b \<le> e \<and> e \<le> length payload \<and> bs = sub_list payload b (e - b)"
proof -
  obtain len raw where in': "read_uncompressed_inner k src PolError i (ch_data_offset ch) m b e (take len (w_buf w)) = (Ok bs, raw)"
    using assms
    by (auto simp: worker_read_def read_uncompressed_def Let_def split: result.splits if_splits prod.splits)
  then have raw: "raw = snd (src (ch_data_offset ch) (take len (w_buf w)))"
    by (auto simp: read_uncompressed_inner_def split: prod.splits)
  obtain out where out: "verify_uncompressed_payload k PolError i raw = Ok out" "copy_from_slice m out b e = (Ok bs :: (bytes, read_error_kind) result)"
    using in' by (auto simp: read_uncompressed_inner_def and_then_Ok_iff split: prod.splits)
  have "out = take (length raw - 4) raw" "cd_adler32 k out = Ok (from_le_bytes (drop (length raw - 4) raw))"
    using out(1) by (auto simp: verify_uncompressed_payload_def Let_def and_then_Ok_iff split: if_splits)
  moreover have "b \<le> e" "e \<le> length out" "bs = sub_list out b (e - b)"
    using out(2) by (auto simp: copy_from_slice_def and_then_Ok_iff sub_list_def split: if_splits)
  ultimately show ?thesis using raw by blast
qed

subsection \<open>Two ways to panic\<close>

lemma read_uncompressed_error_drops:
  "read_uncompressed k src i off len m b e w = (Err x, w') \<Longrightarrow> w' = w\<lparr>w_buf := []\<rparr>"
  by (auto simp: read_uncompressed_def Let_def split: result.splits if_splits prod.splits)

text \<open>C38: without the cache of decoded chunks, a read of an uncompressed chunk that fails (a source error, a bad
  checksum) drops the worker's buffer on its early return; the next read of any non-empty chunk with
  this worker then panics, a good chunk included.\<close>

theorem failed_read_poisons_worker:
  assumes "checked_chunk_len w ch i = Ok len" "\<not> ch_compressed ch"
    and "worker_read k src ch i m b e w = (Err x, w')"
    and "checked_chunk_len w ch' j = Ok len'" "0 < len'"
  shows "fst (worker_read k' src' ch' j m' b' e' w') = Panic"
proof -
  have "w' = w\<lparr>w_buf := []\<rparr>"
    using assms(1-3) by (simp add: worker_read_def read_uncompressed_error_drops)
  moreover have "checked_chunk_len (w\<lparr>w_buf := []\<rparr>) ch' j = checked_chunk_len w ch' j"
    unfolding checked_chunk_len_def by (simp cong: option.case_cong)
  ultimately show ?thesis
    using assms(4,5)
    by (simp add: worker_read_def read_compressed_def compressed_chunk_def read_compressed_read_def
        read_uncompressed_def Let_def)
qed

text \<open>C39: an uncompressed chunk with a right checksum that is shorter than the part of the image it stands for
  makes a read beyond its end panic, also under the policies that tolerate corrupt chunks.\<close>

theorem short_chunk_panics:
  assumes k: "codec_ok k deflate adl" and src: "src_serves src file" and w: "worker_ok w"
    and ch: "stored_chunk deflate adl file ch d" "\<not> ch_compressed ch"
      "ch_end_offset ch - ch_data_offset ch \<le> w_chunk_size w + 4"
    and short: "length d < e" and miss: "fst (dcc_get c i) = None"
  shows "fst (read_cached k src ch i (e - b) b e (w, c)) = Panic"
proof -
  let ?len = "ch_end_offset ch - ch_data_offset ch"
  have len: "checked_chunk_len w ch i = Ok ?len"
    using ch checked_chunk_len_Ok [OF w] by (simp add: stored_chunk_def)
  have u: "uncompressed_chunk k src (w_policy w) i (ch_data_offset ch) ?len = Ok d"
    using stored_raw [OF src ch(1,2)] verify_stored [OF k] ch(1)
    by (simp add: uncompressed_chunk_def stored_chunk_def del: to_le_bytes.simps)
  have "copy_from_slice (e - b) d b e = (Panic :: (bytes, read_error_kind) result)"
    using short by (simp add: copy_from_slice_def slice_def)
  then have p: "fst (copy_and_insert i (e - b) b e (Ok d) c') = Panic" for c'
    by (simp add: copy_and_insert_def)
  obtain c' where c': "dcc_get c i = (None, c')" using miss by (cases "dcc_get c i") auto
  show ?thesis
    using len ch(2) u p [of c'] c'
    by (simp add: read_cached_phases after_miss_def cached_lookup_def read_cached_fetch_def uncompressed_fetch_def
        prod.case_eq_if)
qed

subsection \<open>Concrete chunks\<close>

text \<open>A codec with the promised behaviour: a stream is its length in four bytes and the bytes, the sum is
  that of the bytes.\<close>

definition plain_stream :: "bytes \<Rightarrow> bytes" where
  "plain_stream d = to_le_bytes 4 (length d) @ d"

definition byte_sum :: "bytes \<Rightarrow> nat" where
  "byte_sum bs = sum_list (map unat bs) mod 2 ^ 32"

definition plain_codec :: codec where
  "plain_codec =
     \<lparr>cd_read_exact = (\<lambda>v n. if 4 + n \<le> length v then Ok (take n (drop 4 v)) else Err UnexpectedEof),
      cd_adler32 = (\<lambda>bs. Ok (byte_sum bs))\<rparr>"

lemma plain_codec_ok: "codec_ok plain_codec plain_stream byte_sum"
  by (simp add: codec_ok_def plain_codec_def plain_stream_def byte_sum_def del: to_le_bytes.simps)

lemma plain_codec_total: "codec_total plain_codec"
  by (auto simp: codec_total_def plain_codec_def split: if_splits)

definition file_worker_source :: "bytes \<Rightarrow> worker_source" where
  "file_worker_source file off buf =
     (if off + length buf \<le> length file then (Ok (), sub_list file off (length buf)) else (Err UnexpectedEof, buf))"

lemma file_worker_source_ok: "src_serves (file_worker_source file) file" "src_total (file_worker_source file)"
  by (simp_all add: src_serves_def src_total_def file_worker_source_def)

text \<open>An image of ten bytes in two chunks of at most eight: a compressed one, and one stored as it is.\<close>

definition sample_chunk :: "nat \<Rightarrow> bytes" where
  "sample_chunk i = (if i = 0 then [1, 2, 3, 4, 5, 6, 7, 8] else [9, 10])"

definition sample_file :: bytes where
  "sample_file = plain_stream (sample_chunk 0) @ sample_chunk 1 @ to_le_bytes 4 19"

definition sample_ch :: "nat \<Rightarrow> chunk" where
  "sample_ch i =
     (if i = 0 then \<lparr>ch_segment = 0, ch_data_offset = 0, ch_end_offset = 12, ch_compressed = True\<rparr>
      else \<lparr>ch_segment = 0, ch_data_offset = 12, ch_end_offset = 18, ch_compressed = False\<rparr>)"

definition sample_worker :: read_worker where
  "sample_worker = worker_new 8 10 PolError"

lemma sample_stored:
  "stored_chunk plain_stream byte_sum sample_file (sample_ch 0) (sample_chunk 0)"
  "stored_chunk plain_stream byte_sum sample_file (sample_ch 1) (sample_chunk 1)"
  by code_simp+

lemma sample_worker_ok: "worker_ok sample_worker" "decoded_len sample_worker 0 = 8" "decoded_len sample_worker 1 = 2"
  by code_simp+

theorem worker_read_exact_witness:
  "\<exists>w'. worker_read plain_codec (file_worker_source sample_file) (sample_ch 0) 0 3 2 5 sample_worker = (Ok [3, 4, 5], w') \<and>
     worker_ok w'"
proof -
  have "sub_list (sample_chunk 0) 2 3 = [3, 4, 5]" by code_simp
  moreover have "ch_end_offset (sample_ch 0) - ch_data_offset (sample_ch 0) \<le> w_chunk_size sample_worker + 4"
    "decoded_len sample_worker 0 \<le> length (sample_chunk 0)" by code_simp+
  ultimately show ?thesis
    using worker_read_exact [OF plain_codec_ok file_worker_source_ok(1) sample_worker_ok(1) sample_stored(1), of 0 2 5]
      sample_worker_ok(2) by auto
qed

theorem read_cached_exact_witness:
  "exact_step (\<lambda>i. if i = 0 then 8 else 2) sample_chunk 1 0 2 sample_worker
     (read_cached plain_codec (file_worker_source sample_file) (sample_ch 1) 1 2 0 2 (sample_worker, dcc_new 4))"
proof -
  have "cache_sound (\<lambda>i. if i = 0 then 8 else 2) sample_chunk (dcc_new 4)"
    unfolding dcc.sound_def by (simp add: dcc_new_inv) (simp add: dcc_new_def)
  moreover have "ch_end_offset (sample_ch 1) - ch_data_offset (sample_ch 1) \<le> w_chunk_size sample_worker + 4"
    "2 \<le> length (sample_chunk 1)" by code_simp+
  ultimately show ?thesis
    using read_cached_exact [OF plain_codec_ok file_worker_source_ok(1) sample_worker_ok(1),
        of sample_file "sample_ch 1" sample_chunk 1 "\<lambda>i. if i = 0 then 8 else 2" 0 2 "dcc_new 4"]
      sample_stored(2) sample_worker_ok(3) by simp
qed

theorem read_cached_total_witness:
  "safe_step (\<lambda>i. if i = 0 then 8 else 2) 3 sample_worker
     (read_cached plain_codec (file_worker_source [7]) (sample_ch 0) 0 3 2 5 (sample_worker, dcc_new 4))"
proof -
  have "cache_long (\<lambda>i. if i = 0 then 8 else 2) (dcc_new 4)"
    unfolding dcc.sound_def by (simp add: dcc_new_inv) (simp add: dcc_new_def)
  moreover have "ch_compressed (sample_ch 0)" by code_simp
  ultimately show ?thesis
    using read_cached_total [OF plain_codec_total file_worker_source_ok(2) sample_worker_ok(1),
        of "\<lambda>i. if i = 0 then 8 else 2" "dcc_new 4" "sample_ch 0" 0 2 5 "[7]"] sample_worker_ok(2) by simp
qed

lemma sample_read_1:
  "worker_read plain_codec (file_worker_source sample_file) (sample_ch 1) 1 1 1 2 sample_worker =
    (Ok [10], sample_worker\<lparr>w_buf := [9, 10, 19, 0, 0, 0, 0, 0, 0, 0, 0, 0]\<rparr>)"
  by code_simp

theorem error_policy_verifies_witness:
  "\<exists>raw len payload. snd (file_worker_source sample_file 12 (take len (w_buf sample_worker))) = raw \<and>
    payload = take (length raw - 4) raw \<and>
    cd_adler32 plain_codec payload = Ok (from_le_bytes (drop (length raw - 4) raw)) \<and>
    2 \<le> length payload \<and> [10] = sub_list payload 1 1"
proof -
  have "w_policy sample_worker = PolError" "\<not> ch_compressed (sample_ch 1)" "ch_data_offset (sample_ch 1) = 12"
    by code_simp+
  then show ?thesis using error_policy_verifies [OF sample_read_1] by auto
qed

lemma sample_failing_read:
  "worker_read plain_codec (file_worker_source []) (sample_ch 1) 1 1 1 2 sample_worker =
    (Err (RdIoError UnexpectedEof), sample_worker\<lparr>w_buf := []\<rparr>)"
  by code_simp

theorem failed_read_poisons_worker_witness:
  "fst (worker_read plain_codec (file_worker_source sample_file) (sample_ch 0) 0 3 2 5 (sample_worker\<lparr>w_buf := []\<rparr>)) = Panic"
proof -
  have "checked_chunk_len sample_worker (sample_ch 1) 1 = Ok 6" "checked_chunk_len sample_worker (sample_ch 0) 0 = Ok 12"
    "\<not> ch_compressed (sample_ch 1)" by code_simp+
  then show ?thesis using failed_read_poisons_worker [OF _ _ sample_failing_read] by simp
qed

theorem short_chunk_panics_witness:
  "fst (read_cached plain_codec (file_worker_source sample_file) (sample_ch 1) 0 8 0 8
     (sample_worker, dcc_new 4)) = Panic"
proof -
  have "\<not> ch_compressed (sample_ch 1)" "length (sample_chunk 1) < 8" "fst (dcc_get (dcc_new 4) 0) = None"
    "ch_end_offset (sample_ch 1) - ch_data_offset (sample_ch 1) \<le> w_chunk_size sample_worker + 4" by code_simp+
  then show ?thesis
    using short_chunk_panics [OF plain_codec_ok file_worker_source_ok(1) sample_worker_ok(1) sample_stored(2), of 8 "dcc_new 4" 0 0]
    by simp
qed

end
