(* ===== verification/E01SegPath.thy ===== *)
theory E01SegPath
  imports Sources RustStr
begin

text \<open>
  The names of the segment files of an E01 image, \<open>e01/src/seg_path.rs\<close>: which extensions are legal, the
  sequence \<open>E01 .. E99, EAA .. ZZZ\<close>, and the walk over it that stops at the first name of which neither
  the upper-case nor the lower-case spelling is there.

  Shown: the walk begins at the letter of the extension it is given and gives the longest run of names that
  are there, in the order of the sequence, which is spelled out apart from the code (\<open>ext_at\<close>), and
  without repetition, and every name has a legal extension; a probe without an answer is an error and
  never ends the run.
\<close>

definition char_in :: "char \<Rightarrow> char \<Rightarrow> char \<Rightarrow> bool" where
  "char_in lo hi c \<longleftrightarrow> of_char lo \<le> (of_char c :: nat) \<and> of_char c \<le> (of_char hi :: nat)"

text \<open>\<open>ext.next().unwrap_or('!')\<close> on the i-th call.\<close>

definition next_or_bang :: "string \<Rightarrow> nat \<Rightarrow> char" where
  "next_or_bang ext i = (if i < length ext then ext ! i else CHR ''!'')"

definition valid_segment_ext :: "string \<Rightarrow> bool" where
  "valid_segment_ext ext0 =
     (let ext = to_ascii_uppercase ext0; a = next_or_bang ext 0; b = next_or_bang ext 1;
          c = next_or_bang ext 2
      in char_in (CHR ''E'') (CHR ''Z'') a \<and>
         (if b = CHR ''0'' then char_in (CHR ''1'') (CHR ''9'') c
          else if char_in (CHR ''1'') (CHR ''9'') b then char_in (CHR ''0'') (CHR ''9'') c
          else if char_in (CHR ''A'') (CHR ''Z'') b then char_in (CHR ''A'') (CHR ''Z'') c
          else False) \<and>
         length ext \<le> 3)"

definition valid_proto_segment_ext :: "string \<Rightarrow> bool" where
  "valid_proto_segment_ext ext \<longleftrightarrow>
     valid_segment_ext ext \<and> next_or_bang (to_ascii_uppercase ext) 0 \<in> {CHR ''E'', CHR ''L'', CHR ''S''}"

definition char_range :: "char \<Rightarrow> char \<Rightarrow> char list" where
  "char_range lo hi = map char_of [of_char lo ..< Suc (of_char hi)]"

definition segment_ext_iter :: "char \<Rightarrow> string list" where
  "segment_ext_iter start =
     map (\<lambda>n. start # pad_decimal 2 n) [1 ..< 100] @
     product_lists [char_range start (CHR ''Z''), char_range (CHR ''A'') (CHR ''Z''),
       char_range (CHR ''A'') (CHR ''Z'')]"

datatype seg_path_error = SegUnrecognizedExtension string | SegUndetermined exists_error

definition validate_proto_extension :: "string \<Rightarrow> (string, string) result" where
  "validate_proto_extension path =
     (case rsplit_once (CHR ''.'') (to_ascii_uppercase path) of
        Some (_, ext) \<Rightarrow> if valid_proto_segment_ext ext then Ok ext else Err path
      | None \<Rightarrow> Err path)"

definition seg_name :: "string \<Rightarrow> string \<Rightarrow> string" where
  "seg_name base ext = base @ CHR ''.'' # ext"

fun glob_segments :: "checker \<Rightarrow> string \<Rightarrow> string list \<Rightarrow> (string list, seg_path_error) result" where
  "glob_segments chk base [] = Ok []"
| "glob_segments chk base (ext # exts) =
     and_then (map_err SegUndetermined (chk (seg_name base ext))) (\<lambda>upper.
     if upper then
       and_then (glob_segments chk base exts) (\<lambda>ps. Ok (seg_name base ext # ps))
     else
       and_then (map_err SegUndetermined (chk (seg_name base (to_ascii_lowercase ext)))) (\<lambda>lower.
       if lower then
         and_then (glob_segments chk base exts) (\<lambda>ps. Ok (seg_name base (to_ascii_lowercase ext) # ps))
       else Ok []))"

definition validated_segment_paths :: "string \<Rightarrow> checker \<Rightarrow> (string list, seg_path_error) result" where
  "validated_segment_paths proto_path chk =
     and_then (map_err SegUnrecognizedExtension (validate_proto_extension proto_path)) (\<lambda>proto_ext.
     and_then (case proto_ext of [] \<Rightarrow> Err (SegUnrecognizedExtension proto_path) | c # _ \<Rightarrow> Ok c) (\<lambda>ext_start.
     and_then (case rsplit_once (CHR ''.'') proto_path of
         Some (base, _) \<Rightarrow> Ok base | None \<Rightarrow> Err (SegUnrecognizedExtension proto_path)) (\<lambda>base_path.
     glob_segments chk base_path (segment_ext_iter ext_start))))"

subsection \<open>The sequence of extensions\<close>

lemma char_code_less: "(of_char c :: nat) < 256"
proof -
  have "of_char c mod 256 = (of_char c :: nat)" by simp
  then show ?thesis by (metis mod_less_divisor zero_less_numeral)
qed

lemma char_in_char_range: "c \<in> set (char_range lo hi) \<longleftrightarrow> char_in lo hi c"
proof
  assume "c \<in> set (char_range lo hi)"
  then obtain n :: nat where n: "c = char_of n" "of_char lo \<le> n" "n \<le> of_char hi"
    unfolding char_range_def set_map set_upt by fastforce
  moreover have "n < 256" using n(3) char_code_less [of hi] by linarith
  ultimately show "char_in lo hi c" by (simp add: char_in_def)
next
  assume "char_in lo hi c"
  then show "c \<in> set (char_range lo hi)"
    unfolding char_range_def set_map set_upt char_in_def by (intro image_eqI [of _ _ "of_char c"]) auto
qed

lemma distinct_char_range: "distinct (char_range lo hi)"
proof -
  have "inj_on char_of {of_char lo ..< Suc (of_char hi)}"
  proof (rule inj_onI)
    fix x y :: nat
    assume xy: "x \<in> {of_char lo ..< Suc (of_char hi)}" "y \<in> {of_char lo ..< Suc (of_char hi)}"
      and eq: "char_of x = (char_of y :: char)"
    have "x \<le> of_char hi" "y \<le> of_char hi" using xy by auto
    then have "x < 256" "y < 256" using char_code_less [of hi] by linarith+
    then show "x = y" using arg_cong [OF eq, of "of_char :: char \<Rightarrow> nat"] by simp
  qed
  then show ?thesis unfolding char_range_def distinct_map set_upt by simp
qed

lemma letter_exts:
  "e \<in> set (product_lists [char_range start (CHR ''Z''), char_range (CHR ''A'') (CHR ''Z''),
       char_range (CHR ''A'') (CHR ''Z'')]) \<longleftrightarrow>
   (\<exists>a b c. e = [a, b, c] \<and> char_in start (CHR ''Z'') a \<and> char_in (CHR ''A'') (CHR ''Z'') b \<and>
      char_in (CHR ''A'') (CHR ''Z'') c)"
  by (auto simp: product_lists_set list_all2_Cons2 char_in_char_range simp del: product_lists.simps)

lemma number_ext:
  assumes "1 \<le> n" "n < 100"
  shows "\<exists>b c. pad_decimal 2 n = [b, c] \<and> char_in (CHR ''0'') (CHR ''9'') b \<and> char_in (CHR ''0'') (CHR ''9'') c \<and>
    (b = CHR ''0'' \<longrightarrow> c \<noteq> CHR ''0'')"
proof -
  have d: "digit_char d \<noteq> CHR ''0'' \<longleftrightarrow> d \<noteq> 0" "char_in (CHR ''0'') (CHR ''9'') (digit_char d)" if "d < 10" for d
  proof -
    have "of_char (digit_char d) = 48 + d" using that by (simp add: digit_char_def)
    then show "digit_char d \<noteq> CHR ''0'' \<longleftrightarrow> d \<noteq> 0" "char_in (CHR ''0'') (CHR ''9'') (digit_char d)"
      using that of_char_eq_iff [of "digit_char d" "CHR ''0''", where ?'a = nat] by (auto simp: char_in_def)
  qed
  show ?thesis
  proof (cases "n < 10")
    case True
    then have "pad_decimal 2 n = [CHR ''0'', digit_char n]"
      by (simp add: pad_decimal_def decimal.simps [of n] numeral_2_eq_2)
    then show ?thesis using d [of n] True assms(1) by (simp add: char_in_def)
  next
    case False
    then have "pad_decimal 2 n = [digit_char (n div 10), digit_char (n mod 10)]"
      using assms(2) by (simp add: pad_decimal_def decimal.simps [of n] decimal.simps [of "n div 10"])
    then show ?thesis using d [of "n div 10"] d [of "n mod 10"] False assms(2) by auto
  qed
qed

text \<open>Upper-case letters and digits are their own upper case.\<close>

lemma upper_id: "\<forall>c \<in> set s. \<not> char_in (CHR ''a'') (CHR ''z'') c \<Longrightarrow> to_ascii_uppercase s = s"
  by (auto simp: to_ascii_uppercase_def char_in_def Let_def intro!: map_idI)

definition valid_chars :: "char \<Rightarrow> char \<Rightarrow> char \<Rightarrow> bool" where
  "valid_chars a b c \<longleftrightarrow> char_in (CHR ''E'') (CHR ''Z'') a \<and>
     (if b = CHR ''0'' then char_in (CHR ''1'') (CHR ''9'') c
      else if char_in (CHR ''1'') (CHR ''9'') b then char_in (CHR ''0'') (CHR ''9'') c
      else char_in (CHR ''A'') (CHR ''Z'') b \<and> char_in (CHR ''A'') (CHR ''Z'') c)"

lemma valid_segment_ext_3:
  "to_ascii_uppercase [a, b, c] = [a, b, c] \<Longrightarrow> valid_segment_ext [a, b, c] \<longleftrightarrow> valid_chars a b c"
  by (simp add: valid_segment_ext_def valid_chars_def next_or_bang_def Let_def)

lemma nonzero_digit:
  assumes "char_in (CHR ''0'') (CHR ''9'') c" "c \<noteq> CHR ''0''"
  shows "char_in (CHR ''1'') (CHR ''9'') c"
proof -
  have "of_char c \<noteq> (of_char (CHR ''0'') :: nat)" using assms(2) of_char_eqI by blast
  then show ?thesis using assms(1) by (simp add: char_in_def)
qed

lemma valid_charsI:
  assumes "char_in (CHR ''E'') (CHR ''Z'') a"
    "char_in (CHR ''0'') (CHR ''9'') b \<and> char_in (CHR ''0'') (CHR ''9'') c \<and> (b = CHR ''0'' \<longrightarrow> c \<noteq> CHR ''0'') \<or>
     char_in (CHR ''A'') (CHR ''Z'') b \<and> char_in (CHR ''A'') (CHR ''Z'') c"
  shows "valid_chars a b c"
  using assms(2)
proof
  assume "char_in (CHR ''0'') (CHR ''9'') b \<and> char_in (CHR ''0'') (CHR ''9'') c \<and> (b = CHR ''0'' \<longrightarrow> c \<noteq> CHR ''0'')"
  then show ?thesis using assms(1) nonzero_digit by (simp add: valid_chars_def)
next
  assume l: "char_in (CHR ''A'') (CHR ''Z'') b \<and> char_in (CHR ''A'') (CHR ''Z'') c"
  then have "b \<noteq> CHR ''0''" "\<not> char_in (CHR ''1'') (CHR ''9'') b" by (auto simp: char_in_def)
  then show ?thesis using assms(1) l by (simp add: valid_chars_def)
qed

lemma segment_ext_iter_valid:
  assumes start: "char_in (CHR ''E'') (CHR ''Z'') start" and e: "e \<in> set (segment_ext_iter start)"
  shows "valid_segment_ext e"
proof -
  have "(\<exists>n. e = start # pad_decimal 2 n \<and> 1 \<le> n \<and> n < 100) \<or>
      (\<exists>a b c. e = [a, b, c] \<and> char_in start (CHR ''Z'') a \<and> char_in (CHR ''A'') (CHR ''Z'') b \<and>
        char_in (CHR ''A'') (CHR ''Z'') c)"
    using e unfolding segment_ext_iter_def set_append Un_iff letter_exts by auto
  then obtain a b c where abc: "e = [a, b, c]" "char_in (CHR ''E'') (CHR ''Z'') a"
    "char_in (CHR ''0'') (CHR ''9'') b \<and> char_in (CHR ''0'') (CHR ''9'') c \<and> (b = CHR ''0'' \<longrightarrow> c \<noteq> CHR ''0'') \<or>
     char_in (CHR ''A'') (CHR ''Z'') b \<and> char_in (CHR ''A'') (CHR ''Z'') c"
  proof (elim disjE exE conjE)
    fix n assume n: "e = start # pad_decimal 2 n" "1 \<le> n" "n < 100"
    show thesis using number_ext [OF n(2,3)] n(1) start that by blast
  next
    fix a b c assume "e = [a, b, c]" "char_in start (CHR ''Z'') a" "char_in (CHR ''A'') (CHR ''Z'') b"
      "char_in (CHR ''A'') (CHR ''Z'') c"
    then show thesis using start that [of a b c] unfolding char_in_def by auto
  qed
  then have "to_ascii_uppercase e = e" by (intro upper_id) (auto simp: char_in_def)
  then have "valid_segment_ext e \<longleftrightarrow> valid_chars a b c" using abc(1) valid_segment_ext_3 by simp
  moreover have "valid_chars a b c" using abc(2,3) by (rule valid_charsI)
  ultimately show ?thesis by simp
qed

lemma segment_ext_iter_distinct: "distinct (segment_ext_iter start)"
proof -
  have "inj_on (\<lambda>n. start # pad_decimal 2 n) {1 ..< 100}"
    by (rule inj_onI) (auto dest!: pad_decimal_inj simp: u64_lim_def)
  then have "distinct (map (\<lambda>n. start # pad_decimal 2 n) [1 ..< 100])" by (simp add: distinct_map)
  moreover have "distinct (product_lists [char_range start (CHR ''Z''), char_range (CHR ''A'') (CHR ''Z''),
       char_range (CHR ''A'') (CHR ''Z'')])"
    by (rule distinct_product_lists) (auto simp: distinct_char_range)
  moreover have "start # pad_decimal 2 n \<noteq> [a, b, c]"
    if "1 \<le> n" "n < 100" "char_in (CHR ''A'') (CHR ''Z'') b" for n a b c
    using number_ext [OF that(1,2)] that(3) by (auto simp: char_in_def)
  ultimately show ?thesis
    unfolding segment_ext_iter_def distinct_append by (fastforce simp: letter_exts simp del: product_lists.simps)
qed

subsection \<open>The walk\<close>

definition found_as :: "checker \<Rightarrow> string \<Rightarrow> string \<Rightarrow> string \<Rightarrow> bool" where
  "found_as chk base ext p \<longleftrightarrow>
     p = seg_name base ext \<and> chk p = Ok True \<or>
     chk (seg_name base ext) = Ok False \<and> p = seg_name base (to_ascii_lowercase ext) \<and> chk p = Ok True"

definition absent :: "checker \<Rightarrow> string \<Rightarrow> string \<Rightarrow> bool" where
  "absent chk base ext \<longleftrightarrow>
     chk (seg_name base ext) = Ok False \<and> chk (seg_name base (to_ascii_lowercase ext)) = Ok False"

definition longest_run :: "checker \<Rightarrow> string \<Rightarrow> string list \<Rightarrow> string list \<Rightarrow> bool" where
  "longest_run chk base exts ps \<longleftrightarrow>
     length ps \<le> length exts \<and> (\<forall>i < length ps. found_as chk base (exts ! i) (ps ! i)) \<and>
     (length ps < length exts \<longrightarrow> absent chk base (exts ! length ps))"

lemma longest_run_Cons:
  "found_as chk base ext p \<Longrightarrow> longest_run chk base exts ps \<Longrightarrow> longest_run chk base (ext # exts) (p # ps)"
  unfolding longest_run_def by (auto simp: nth_Cons split: nat.splits)

lemma glob_segments_longest: "glob_segments chk base exts = Ok ps \<Longrightarrow> longest_run chk base exts ps"
proof (induction exts arbitrary: ps)
  case Nil
  then show ?case by (simp add: longest_run_def)
next
  case (Cons ext exts)
  let ?lc = "to_ascii_lowercase ext"
  consider (upper) qs where "chk (seg_name base ext) = Ok True" "glob_segments chk base exts = Ok qs"
      "ps = seg_name base ext # qs"
    | (lower) qs where "chk (seg_name base ext) = Ok False" "chk (seg_name base ?lc) = Ok True"
      "glob_segments chk base exts = Ok qs" "ps = seg_name base ?lc # qs"
    | (none) "absent chk base ext" "ps = []"
    using Cons.prems by (auto simp: and_then_Ok_iff absent_def split: if_splits)
  then show ?case
  proof cases
    case upper
    then show ?thesis using Cons.IH by (auto simp: found_as_def intro: longest_run_Cons)
  next
    case lower
    then show ?thesis using Cons.IH by (auto simp: found_as_def intro: longest_run_Cons)
  next
    case none
    then show ?thesis by (simp add: longest_run_def)
  qed
qed

text \<open>
  The sequence stated by index: \<open>x01\<close> to \<open>x99\<close> for the starting letter \<open>x\<close>, then three letters that count up in
  base 26, the first from \<open>x\<close> on, to the end at \<open>ZZZ\<close>.  Codes of characters: 48 is \<open>0\<close>, 65 is \<open>A\<close>, 91 follows \<open>Z\<close>.
\<close>

definition ext_at :: "char \<Rightarrow> nat \<Rightarrow> string" where
  "ext_at x i =
     (if i < 99 then [x, char_of (48 + (i + 1) div 10), char_of (48 + (i + 1) mod 10)]
      else [char_of (of_char x + (i - 99) div 676), char_of (65 + (i - 99) div 26 mod 26),
        char_of (65 + (i - 99) mod 26)])"

definition ext_count :: "char \<Rightarrow> nat" where
  "ext_count x = 99 + 676 * (91 - of_char x)"

lemma concat_grid:
  "concat (map (\<lambda>a. map (f a) [0 ..< m]) [0 ..< n]) = map (\<lambda>j. f (j div m) (j mod m)) [0 ..< n * m]"
proof (induction n)
  case (Suc n)
  have "map (f n) [0 ..< m] = map (\<lambda>j. f (j div m) (j mod m)) (map (\<lambda>i. i + n * m) [0 ..< m])"
    by simp
  also have "map (\<lambda>i. i + n * m) [0 ..< m] = [n * m ..< Suc n * m]" by (simp only: map_add_upt) (simp add: add.commute)
  finally show ?case
    using Suc upt_add_eq_append [of 0 "n * m" m] by (simp add: add.commute)
qed simp

lemma char_range_upt: "char_range lo hi = map (\<lambda>i. char_of (of_char lo + i)) [0 ..< Suc (of_char hi) - of_char lo]"
proof -
  have "[of_char lo ..< Suc (of_char hi)] = map (\<lambda>i. i + of_char lo) [0 ..< Suc (of_char hi) - of_char lo]"
    by (cases "of_char lo \<le> (of_char hi :: nat)") (simp_all only: map_add_upt, simp_all)
  then show ?thesis by (simp add: char_range_def add.commute comp_def)
qed

lemma letters_upt:
  "product_lists [char_range x (CHR ''Z''), char_range (CHR ''A'') (CHR ''Z''), char_range (CHR ''A'') (CHR ''Z'')] =
   map (\<lambda>j. ext_at x (99 + j)) [0 ..< (91 - of_char x) * 676]"
proof -
  define p where "p = (\<lambda>i :: nat. char_of (of_char x + i) :: char)"
  define q where "q = (\<lambda>i :: nat. char_of (65 + i) :: char)"
  have A: "char_range x (CHR ''Z'') = map p [0 ..< 91 - of_char x]"
    unfolding p_def using char_range_upt [of x "CHR ''Z''"] by simp
  have B: "char_range (CHR ''A'') (CHR ''Z'') = map q [0 ..< 26]"
    unfolding q_def using char_range_upt [of "CHR ''A''" "CHR ''Z''"] by simp
  have one: "product_lists [map q [0 ..< 26]] = map (\<lambda>i. [q i]) [0 ..< 26]"
    by (simp add: comp_def concat_map_singleton del: upt_Suc)
  have two: "product_lists [map q [0 ..< 26], map q [0 ..< 26]] =
      map (\<lambda>j. [q (j div 26), q (j mod 26)]) [0 ..< 26 * 26]"
    unfolding product_lists.simps(2) [of "map q [0 ..< 26]" "[map q [0 ..< 26]]"] one
    using concat_grid [of "\<lambda>a i. [q a, q i]" 26 26] by (simp only: map_map comp_def)
  have three: "product_lists [map p [0 ..< n], map q [0 ..< 26], map q [0 ..< 26]] =
      map (\<lambda>j. [p (j div (26 * 26)), q (j mod (26 * 26) div 26), q (j mod (26 * 26) mod 26)]) [0 ..< n * (26 * 26)]" for n
    unfolding product_lists.simps(2) [of "map p [0 ..< n]"] two
    using concat_grid [of "\<lambda>a i. [p a, q (i div 26), q (i mod 26)]" "26 * 26" n] by (simp only: map_map comp_def)
  have "j mod (m * m) div m = j div m mod m" "j mod (m * m) mod m = j mod m" if "0 < m" for j m :: nat
    using that by (simp_all add: mod_mult2_eq)
  from this [of 26] have "j mod (26 * 26) div 26 = j div 26 mod 26" "j mod (26 * 26) mod 26 = j mod 26" for j :: nat
    by simp_all
  then show ?thesis unfolding A B three by (simp add: ext_at_def p_def q_def)
qed

lemma numbers_upt: "map (\<lambda>n. x # pad_decimal 2 n) [1 ..< 100] = map (ext_at x) [0 ..< 99]"
proof -
  have z: "CHR ''0'' = (char_of (48 :: nat) :: char)"
    by (rule of_char_eqI [where ?'a = nat]) simp
  have "x # pad_decimal 2 (Suc i) = ext_at x i" if "i < 99" for i
  proof (cases "Suc i < 10")
    case True
    then show ?thesis
      using that z by (simp add: pad_decimal_def decimal.simps [of "Suc i"] numeral_2_eq_2 ext_at_def digit_char_def)
  next
    case False
    then show ?thesis
      using that by (simp add: pad_decimal_def decimal.simps [of "Suc i"] decimal.simps [of "Suc i div 10"]
          ext_at_def digit_char_def)
  qed
  moreover have "[1 ..< 100] = map Suc [0 ..< 99]" by (simp only: map_Suc_upt) simp
  ultimately show ?thesis by (simp add: comp_def del: upt_Suc)
qed

lemma segment_ext_iter_eq: "segment_ext_iter x = map (ext_at x) [0 ..< ext_count x]"
proof -
  have "[0 ..< ext_count x] = [0 ..< 99] @ map (\<lambda>j. j + 99) [0 ..< (91 - of_char x) * 676]"
    unfolding ext_count_def using upt_add_eq_append [of 0 99 "676 * (91 - of_char x)"] map_add_upt [of 99 "676 * (91 - of_char x)"]
    by (simp add: mult.commute add.commute [of 99] del: upt_Suc)
  then show ?thesis
    unfolding segment_ext_iter_def numbers_upt letters_upt by (simp only: map_append map_map comp_def add.commute)
qed

text \<open>The last dot is where it is in upper case too.\<close>

lemma upper_dot: "to_ascii_uppercase [c] = [CHR ''.''] \<longleftrightarrow> c = CHR ''.''"
proof
  assume u: "to_ascii_uppercase [c] = [CHR ''.'']"
  show "c = CHR ''.''"
  proof (cases "char_in (CHR ''a'') (CHR ''z'') c")
    case True
    then have n: "97 \<le> (of_char c :: nat)" "of_char c \<le> (122 :: nat)" by (simp_all add: char_in_def)
    then have "char_of (of_char c - 32 :: nat) = CHR ''.''" using u by (simp add: to_ascii_uppercase_def)
    then have "of_char (char_of (of_char c - 32 :: nat) :: char) = (of_char (CHR ''.'') :: nat)" by (rule arg_cong)
    moreover have "of_char (char_of (of_char c - 32 :: nat) :: char) = (of_char c - 32 :: nat)"
      using n by simp
    ultimately have "of_char c - 32 = (46 :: nat)" by simp
    then show ?thesis using n by simp
  next
    case False
    then show ?thesis using u upper_id [of "[c]"] by simp
  qed
qed (simp add: to_ascii_uppercase_def)

lemma upper_append: "to_ascii_uppercase (s @ t) = to_ascii_uppercase s @ to_ascii_uppercase t"
  by (simp add: to_ascii_uppercase_def)

lemma upper_Cons: "to_ascii_uppercase (c # s) = hd (to_ascii_uppercase [c]) # to_ascii_uppercase s"
  by (simp add: to_ascii_uppercase_def)

lemma upper_no_dot: "CHR ''.'' \<notin> set s \<Longrightarrow> CHR ''.'' \<notin> set (to_ascii_uppercase s)"
proof (induction s)
  case (Cons c s)
  have "hd (to_ascii_uppercase [c]) \<noteq> CHR ''.''"
    using Cons.prems upper_dot [of c] by (auto simp: to_ascii_uppercase_def)
  then show ?case using Cons by (simp add: upper_Cons [of c s])
qed (simp add: to_ascii_uppercase_def)

lemma rsplit_once_last:
  assumes "rsplit_once c s = Some (a, b)"
  shows "c \<notin> set b"
proof -
  have "c \<notin> set y" if "split_once c x = Some (y, z)" for x y z
    using that by (induction x arbitrary: y) (auto split: if_splits)
  then show ?thesis using assms by (auto simp: rsplit_once_def)
qed

lemma rsplit_once_upper:
  assumes "rsplit_once (CHR ''.'') s = Some (a, b)"
  shows "rsplit_once (CHR ''.'') (to_ascii_uppercase s) = Some (to_ascii_uppercase a, to_ascii_uppercase b)"
proof -
  have "to_ascii_uppercase s = to_ascii_uppercase a @ CHR ''.'' # to_ascii_uppercase b"
    unfolding rsplit_once_Some [OF assms] upper_append by (simp add: to_ascii_uppercase_def)
  then show ?thesis using rsplit_once_append [OF upper_no_dot [OF rsplit_once_last [OF assms]]] by simp
qed

lemma proto_start:
  assumes "validate_proto_extension proto = Ok (a # ext)"
  shows "a \<in> {CHR ''E'', CHR ''L'', CHR ''S''}"
proof -
  obtain b where b: "rsplit_once (CHR ''.'') (to_ascii_uppercase proto) = Some (b, a # ext)"
    "valid_proto_segment_ext (a # ext)"
    using assms by (auto simp: validate_proto_extension_def split: option.splits if_splits)
  have "a \<in> set (to_ascii_uppercase proto)"
    using rsplit_once_Some [OF b(1)] by simp
  then have "\<not> char_in (CHR ''a'') (CHR ''z'') a"
    by (auto simp: to_ascii_uppercase_def char_in_def Let_def)
  then have "to_ascii_uppercase [a] = [a]" by (intro upper_id) simp
  then show ?thesis
    using b(2) by (simp add: valid_proto_segment_ext_def next_or_bang_def to_ascii_uppercase_def)
qed

lemma validated_segment_paths_OkE:
  assumes "validated_segment_paths proto chk = Ok ps"
  obtains start rest base ext where "validate_proto_extension proto = Ok (start # rest)"
    "rsplit_once (CHR ''.'') proto = Some (base, ext)"
    "glob_segments chk base (segment_ext_iter start) = Ok ps"
proof (cases "validate_proto_extension proto")
  case (Ok px)
  then show ?thesis
    using assms that
    by (cases px; cases "rsplit_once (CHR ''.'') proto") (auto simp: validated_segment_paths_def)
qed (use assms in \<open>simp_all add: validated_segment_paths_def\<close>)

text \<open>C36: segment discovery starts at the letter of the extension it is given, in upper case: E, L or S.  It gives the
  longest run of the sequence \<open>x01\<close> to \<open>x99\<close>, \<open>xAA\<close> to \<open>ZZZ\<close> from that letter \<open>x\<close> of which every name is there, in
  its upper-case or lower-case spelling, and stops only at a name of which both spellings are
  definitely absent; the sequence has only legal extensions and no repetition.\<close>

theorem validated_segment_paths_longest_run:
  assumes "validated_segment_paths proto chk = Ok ps"
  shows "\<exists>base ext. rsplit_once (CHR ''.'') proto = Some (base, ext) \<and> ext \<noteq> [] \<and>
    (let start = hd (to_ascii_uppercase ext); exts = map (ext_at start) [0 ..< ext_count start]
     in start \<in> {CHR ''E'', CHR ''L'', CHR ''S''} \<and> longest_run chk base exts ps \<and>
        distinct exts \<and> list_all valid_segment_ext exts)"
proof -
  obtain start rest base ext where p: "validate_proto_extension proto = Ok (start # rest)"
    "rsplit_once (CHR ''.'') proto = Some (base, ext)"
    "glob_segments chk base (segment_ext_iter start) = Ok ps"
    using assms by (rule validated_segment_paths_OkE)
  have "to_ascii_uppercase ext = start # rest"
    using p(1) rsplit_once_upper [OF p(2)] by (auto simp: validate_proto_extension_def split: if_splits)
  then have start: "ext \<noteq> []" "hd (to_ascii_uppercase ext) = start" by (auto simp: to_ascii_uppercase_def)
  have s: "start \<in> {CHR ''E'', CHR ''L'', CHR ''S''}" using proto_start [OF p(1)] .
  then have "char_in (CHR ''E'') (CHR ''Z'') start" by (auto simp: char_in_def)
  then have "list_all valid_segment_ext (segment_ext_iter start)"
    unfolding list_all_iff using segment_ext_iter_valid by (intro ballI)
  with s show ?thesis
    unfolding start(2) Let_def segment_ext_iter_eq [symmetric]
    using p(2) start glob_segments_longest [OF p(3)] segment_ext_iter_distinct
    by (intro exI [of _ base] exI [of _ ext]) (simp add: Let_def segment_ext_iter_eq [symmetric])
qed

definition e01_files :: checker where
  "e01_files p = Ok (p \<in> {''i.E01'', ''i.e02'', ''i.E03'', ''i.E05''})"

lemma first_exts: "\<exists>rest. segment_ext_iter (CHR ''E'') = [''E01'', ''E02'', ''E03'', ''E04''] @ rest"
proof -
  have "[1 ..< 100] = [1, 2, 3, 4] @ [5 ..< 100]" by (simp add: upt_conv_Cons)
  moreover have "pad_decimal 2 1 = ''01''" "pad_decimal 2 2 = ''02''" "pad_decimal 2 3 = ''03''"
    "pad_decimal 2 4 = ''04''"
    by code_simp+
  ultimately show ?thesis unfolding segment_ext_iter_def by simp
qed

lemma sample_glob: "validated_segment_paths ''i.e02'' e01_files = Ok [''i.E01'', ''i.e02'', ''i.E03'']"
proof -
  obtain rest where r: "segment_ext_iter (CHR ''E'') = [''E01'', ''E02'', ''E03'', ''E04''] @ rest"
    using first_exts by blast
  have lc: "to_ascii_lowercase ''E01'' = ''e01''" "to_ascii_lowercase ''E02'' = ''e02''"
    "to_ascii_lowercase ''E03'' = ''e03''" "to_ascii_lowercase ''E04'' = ''e04''"
    by code_simp+
  have "glob_segments e01_files ''i'' (segment_ext_iter (CHR ''E'')) = Ok [''i.E01'', ''i.e02'', ''i.E03'']"
    unfolding r by (simp add: e01_files_def seg_name_def lc)
  moreover have "(validate_proto_extension ''i.e02'' :: (string, string) result) = Ok ''E02''" by code_simp
  moreover have "rsplit_once (CHR ''.'') ''i.e02'' = Some (''i'', ''e02'')" by code_simp
  ultimately show ?thesis by (simp add: validated_segment_paths_def)
qed

theorem validated_segment_paths_longest_run_witness:
  "validated_segment_paths ''i.e02'' e01_files = Ok [''i.E01'', ''i.e02'', ''i.E03''] \<and>
   longest_run e01_files ''i'' (map (ext_at (CHR ''E'')) [0 ..< ext_count (CHR ''E'')]) [''i.E01'', ''i.e02'', ''i.E03'']"
proof -
  have "rsplit_once (CHR ''.'') ''i.e02'' = Some (''i'', ''e02'')" "to_ascii_uppercase ''e02'' = ''E02''"
    by code_simp+
  then show ?thesis
    using validated_segment_paths_longest_run [OF sample_glob] sample_glob by (auto simp: Let_def)
qed

end
