(* ===== verification/E01Open.thy ===== *)
theory E01Open
  imports E01Worker E01SegPath Sources
begin

text \<open>
  Opening an E01 image: the errors, \<open>read_segment\<close>, \<open>make_bytes_reader\<close>, \<open>process_segments\<close>, the checks
  of the volume and the chunk table and the three ways to open of \<open>e01/src/e01_reader.rs\<close>.

  The operating system, the crates \<open>url\<close>, \<open>rust-s3\<close>, \<open>kaitai\<close> and \<open>rayon\<close> and the construction of the
  block cache are parameters (\<open>e01_sys\<close>): \<open>es_cache slots\<close> is the cache over the registered sources,
  \<open>es_stream c idx\<close> a parser stream over the buffered cursor on source \<open>idx\<close>.  The segments are read in
  parallel and independently; the model registers all sources and then reads the segments in order,
  so of several failing segments it reports one, as the code does.

  Shown: what the metadata of an accepted image is made of, and that an accepted image can be
  addressed: every offset below the image size has a chunk, every chunk a segment, the size of a
  chunk is positive and does not wrap, and sizes and number of chunks are those that the volume section
  of the first segment declares.
\<close>

subsection \<open>Errors\<close>

datatype e01_open_error =
    PathGlobError string
  | SegmentProbeFailed exists_error
  | NoSegmentFiles
  | MissingVolumeSection string
  | InvalidVolumeGeometry nat nat
  | TooManyChunks nat nat
  | TooFewChunks nat nat
  | DeclaredSizeExceedsChunks nat nat
  | OpIoError string lib_error
  | OpBadData string lib_error
  | OpBadPath string
  | OpUnsupportedScheme string
  | OpInitializationFailed init_error
  | OpSource source_open_error
  | SegmentOutOfOrder string nat nat

definition from_seg_path_error :: "seg_path_error \<Rightarrow> e01_open_error" where
  "from_seg_path_error e =
     (case e of SegUnrecognizedExtension p \<Rightarrow> PathGlobError p | SegUndetermined x \<Rightarrow> SegmentProbeFailed x)"

definition from_lib_error :: "lib_error \<Rightarrow> e01_open_error" where
  "from_lib_error e = (case e of LibIoError _ \<Rightarrow> OpIoError [] e | _ \<Rightarrow> OpBadData [] e)"

definition from_io_error :: "io_error \<Rightarrow> e01_open_error" where
  "from_io_error e = from_lib_error (LibIoError (E01Io e))"

definition from_kerror :: "kerror \<Rightarrow> e01_open_error" where
  "from_kerror e = OpIoError [] (LibIoError (E01Read e))"

definition with_path :: "string \<Rightarrow> e01_open_error \<Rightarrow> e01_open_error" where
  "with_path path e =
     (case e of OpIoError _ s \<Rightarrow> OpIoError path s | OpBadData _ s \<Rightarrow> OpBadData path s | _ \<Rightarrow> e)"

subsection \<open>One segment\<close>

record segment_components =
  sc_path :: string
  sc_segment_number :: nat
  sc_volume :: "volume_section option"
  sc_md5 :: "bytes option"
  sc_sha1 :: "bytes option"
  sc_chunks :: "chunk list"
  sc_done :: bool

definition located :: "string \<Rightarrow> ('a, lib_error) result \<Rightarrow> ('a, e01_open_error) result" where
  "located path r = map_err (with_path path) (map_err from_lib_error r)"

text \<open>After \<open>done\<close> the next section is read once more, only to warn about it.\<close>

definition read_segment ::
    "'io ewf_env \<Rightarrow> string \<Rightarrow> nat \<Rightarrow> 'io \<Rightarrow> bool \<Rightarrow> (segment_components, e01_open_error) result" where
  "read_segment k segment_path segment_index io ignore_checksums =
     and_then (located segment_path (segment_file_header k io)) (\<lambda>(number, io).
     and_then (located segment_path (seg_loop k io ignore_checksums (k_pos k io) seg_init)) (\<lambda>(st, cur).
     and_then (if sg_done st \<and> section_next k io ignore_checksums cur = Some Panic then Panic else Ok ()) (\<lambda>_.
       Ok \<lparr>sc_path = segment_path, sc_segment_number = number, sc_volume = sg_volume st, sc_md5 = sg_md5 st,
           sc_sha1 = sg_sha1 st,
           sc_chunks = map (\<lambda>c. c\<lparr>ch_segment := segment_index\<rparr>) (sg_chunks st), sc_done = sg_done st\<rparr>)))"

subsection \<open>All segments\<close>

record e01_metadata =
  em_volume :: volume_section
  em_md5 :: "bytes option"
  em_sha1 :: "bytes option"
  em_segment_paths :: "string list"
  em_chunks :: "chunk list"

text \<open>What the loop of \<open>process_segments\<close> has collected.\<close>

record seg_acc =
  sa_volume :: "volume_section option"
  sa_md5 :: "bytes option"
  sa_sha1 :: "bytes option"
  sa_paths :: "string list"
  sa_chunks :: "chunk list"

definition first_of :: "'a option \<Rightarrow> 'a option \<Rightarrow> 'a option" where
  "first_of new old = (case old of None \<Rightarrow> new | Some x \<Rightarrow> Some x)"

fun process_loop :: "nat \<Rightarrow> segment_components list \<Rightarrow> seg_acc \<Rightarrow> (seg_acc, e01_open_error) result" where
  "process_loop i [] acc = Ok acc"
| "process_loop i (seg # segs) acc =
     (let expected = (i + 1) mod 65536 in
      if sc_segment_number seg \<noteq> expected
      then Err (SegmentOutOfOrder (sc_path seg) (sc_segment_number seg) expected)
      else if sc_volume seg = None \<and> sa_volume acc = None then Err (MissingVolumeSection (sc_path seg))
      else
        process_loop (i + 1) segs
          \<lparr>sa_volume = first_of (sc_volume seg) (sa_volume acc), sa_md5 = first_of (sc_md5 seg) (sa_md5 acc),
           sa_sha1 = first_of (sc_sha1 seg) (sa_sha1 acc), sa_paths = sa_paths acc @ [sc_path seg],
           sa_chunks = sa_chunks acc @ sc_chunks seg\<rparr>)"

definition process_segments :: "segment_components list \<Rightarrow> (e01_metadata, e01_open_error) result" where
  "process_segments segs =
     and_then (process_loop 0 segs \<lparr>sa_volume = None, sa_md5 = None, sa_sha1 = None, sa_paths = [], sa_chunks = []\<rparr>) (\<lambda>acc.
     case sa_volume acc of
       None \<Rightarrow> Panic
     | Some v \<Rightarrow> Ok \<lparr>em_volume = v, em_md5 = sa_md5 acc, em_sha1 = sa_sha1 acc, em_segment_paths = sa_paths acc,
         em_chunks = sa_chunks acc\<rparr>)"

definition validate_volume :: "volume_section \<Rightarrow> (unit, e01_open_error) result" where
  "validate_volume v =
     (if vs_chunk_size v = 0 then Err (InvalidVolumeGeometry (vs_sectors_per_chunk v) (vs_bytes_per_sector v))
      else Ok ())"

definition validate_chunk_coverage :: "nat \<Rightarrow> nat \<Rightarrow> nat \<Rightarrow> (unit, e01_open_error) result" where
  "validate_chunk_coverage image_size chunk_count chunk_size =
     (let chunk_coverage = saturating_mul chunk_count chunk_size in
      if image_size > chunk_coverage then Err (DeclaredSizeExceedsChunks image_size chunk_coverage) else Ok ())"

subsection \<open>Opening\<close>

datatype corrupt_section_policy = SecError | DamnTheTorpedoes

definition DEFAULT_S3_CONCURRENCY :: nat where
  "DEFAULT_S3_CONCURRENCY = 8"

definition DEFAULT_PARALLEL_CHUNK_THREADS :: nat where
  "DEFAULT_PARALLEL_CHUNK_THREADS = 4"

definition DEFAULT_CACHE_MEM_MIB :: nat where
  "DEFAULT_CACHE_MEM_MIB = 1024"

definition DEFAULT_CACHE_BLOCK_SIZE :: nat where
  "DEFAULT_CACHE_BLOCK_SIZE = 1024 * 1024"

definition DEFAULT_CACHE_FETCH_SIZE :: nat where
  "DEFAULT_CACHE_FETCH_SIZE = DEFAULT_CACHE_BLOCK_SIZE"

record e01_options =
  eo_section_policy :: corrupt_section_policy
  eo_chunk_policy :: corrupt_chunk_policy
  eo_foyer_readahead :: nat
  eo_s3_concurrency :: nat
  eo_cache_mem_mib :: nat
  eo_cache_block_size :: nat
  eo_cache_fetch_size :: nat
  eo_cache_mode :: cache_mode
  eo_cache_dir :: "string option"
  eo_io_log :: bool
  eo_parallel_chunk_threads :: nat
  eo_decoded_chunk_cache :: bool
  eo_parallel_chunk_reads :: bool

definition default_options :: e01_options where
  "default_options =
     \<lparr>eo_section_policy = SecError, eo_chunk_policy = PolZero, eo_foyer_readahead = 0,
      eo_s3_concurrency = DEFAULT_S3_CONCURRENCY, eo_cache_mem_mib = DEFAULT_CACHE_MEM_MIB,
      eo_cache_block_size = DEFAULT_CACHE_BLOCK_SIZE, eo_cache_fetch_size = DEFAULT_CACHE_FETCH_SIZE,
      eo_cache_mode = SingleMemory, eo_cache_dir = None, eo_io_log = False,
      eo_parallel_chunk_threads = DEFAULT_PARALLEL_CHUNK_THREADS, eo_decoded_chunk_cache = True,
      eo_parallel_chunk_reads = True\<rparr>"

text \<open>What the block cache of a reader is set up with.\<close>

definition e01_cache_config :: "e01_options \<Rightarrow> cache_config" where
  "e01_cache_config options =
     \<lparr>cc_mode = eo_cache_mode options, cc_block_size = eo_cache_block_size options,
      cc_fetch_size = max (eo_cache_fetch_size options) (eo_cache_block_size options),
      cc_mem_mib = eo_cache_mem_mib options, cc_readahead = eo_foyer_readahead options,
      cc_s3_concurrency = eo_s3_concurrency options, cc_dir = eo_cache_dir options\<rparr>"

definition DECODED_CHUNK_CACHE_CHUNKS :: nat where
  "DECODED_CHUNK_CACHE_CHUNKS = 1024"

text \<open>The fields that never change, and apart from them what reads change: the pool of workers and the
  cache of decoded chunks.\<close>

record e01_reader =
  er_chunks :: "chunk list"
  er_chunk_size :: nat
  er_chunk_count :: nat
  er_sector_size :: nat
  er_sector_count :: nat
  er_image_size :: nat
  er_stored_md5 :: "bytes option"
  er_stored_sha1 :: "bytes option"
  er_segment_paths :: "string list"
  er_corrupt_chunk_policy :: corrupt_chunk_policy
  er_slots :: source_slots
  er_io_log :: bool
  er_parallel_chunk_reads :: bool
  er_chunk_pool :: "nat option"

record e01_state =
  st_worker_pool :: "read_worker list"
  st_decoded :: "decoded_chunk_cache option"

type_synonym s3_buckets = "string \<Rightarrow> string \<Rightarrow> (s3_client, source_open_error) result"

record 'io e01_sys =
  es_env :: "'io ewf_env"
  es_runtime :: "(unit, io_error) result"
  es_path_to_url :: "string \<Rightarrow> url_parts option"
  es_os :: os
  es_s3_auth :: "(s3_buckets, io_error) result"
  es_cache_setup :: "cache_config \<Rightarrow> (unit, io_error) result"
  es_cache :: "source_slots \<Rightarrow> cache"
  es_stream :: "cache \<Rightarrow> nat \<Rightarrow> ('io, kerror) result"
  es_parallelism :: nat
  es_live_pools :: "nat \<Rightarrow> bool"
  es_build_pool :: "nat \<Rightarrow> (unit, io_error) result"

text \<open>The first half of \<open>make_bytes_reader\<close>: the source of a segment.\<close>

definition segment_source ::
    "'io e01_sys \<Rightarrow> s3_buckets option \<Rightarrow> string \<Rightarrow> (bytes_source, e01_open_error) result" where
  "segment_source sys auth p =
     and_then (ok_or (OpBadPath p) (es_path_to_url sys p)) (\<lambda>url.
     map_err OpSource (source_for_url (es_os sys) auth url))"

text \<open>The second half: a stream over the registered source.\<close>

definition segment_stream ::
    "'io e01_sys \<Rightarrow> source_slots \<Rightarrow> nat \<Rightarrow> string \<Rightarrow> ('io, e01_open_error) result" where
  "segment_stream sys slots idx p =
     map_err (with_path p) (map_err from_kerror (es_stream sys (es_cache sys slots) idx))"

fun add_sources ::
    "'io e01_sys \<Rightarrow> s3_buckets option \<Rightarrow> nat \<Rightarrow> string list \<Rightarrow> source_slots \<Rightarrow> (source_slots, e01_open_error) result" where
  "add_sources sys auth idx [] slots = Ok slots"
| "add_sources sys auth idx (p # ps) slots =
     and_then (segment_source sys auth p) (\<lambda>src. add_sources sys auth (idx + 1) ps (slots_set slots idx src))"

fun read_segments ::
    "'io e01_sys \<Rightarrow> source_slots \<Rightarrow> bool \<Rightarrow> nat \<Rightarrow> string list \<Rightarrow> (segment_components list, e01_open_error) result" where
  "read_segments sys slots ign idx [] = Ok []"
| "read_segments sys slots ign idx (p # ps) =
     and_then (segment_stream sys slots idx p) (\<lambda>io.
     and_then (read_segment (es_env sys) p idx io ign) (\<lambda>seg.
     and_then (read_segments sys slots ign (idx + 1) ps) (\<lambda>segs. Ok (seg # segs))))"

definition check_chunk_count :: "nat \<Rightarrow> nat \<Rightarrow> (unit, e01_open_error) result" where
  "check_chunk_count chunk_count exp_chunk_count =
     (if chunk_count > exp_chunk_count then Err (TooManyChunks chunk_count exp_chunk_count)
      else if chunk_count < exp_chunk_count then Err (TooFewChunks chunk_count exp_chunk_count)
      else Ok ())"

text \<open>The thread pool for decompression: \<open>None\<close> for the global one, otherwise one with the given number of
  threads, shared when one is alive.\<close>

definition chunk_pool :: "'io e01_sys \<Rightarrow> nat \<Rightarrow> (nat option, e01_open_error) result" where
  "chunk_pool sys requested =
     (if requested = 0 then Ok None
      else
        let threads = max (min requested (es_parallelism sys)) 1 in
        if es_live_pools sys threads then Ok (Some threads)
        else and_then (map_err from_io_error (es_build_pool sys threads)) (\<lambda>_. Ok (Some threads)))"

text \<open>From the metadata to the reader.\<close>

definition reader_of ::
    "'io e01_sys \<Rightarrow> e01_options \<Rightarrow> source_slots \<Rightarrow> e01_metadata \<Rightarrow> (e01_reader \<times> e01_state, e01_open_error) result" where
  "reader_of sys options slots meta =
     (let vol = em_volume meta; chunk_count = length (em_chunks meta);
          chunk_size = vs_chunk_size vol; image_size = vs_max_offset vol in
      and_then (validate_volume vol) (\<lambda>_.
      and_then (check_chunk_count chunk_count (vs_chunk_count vol)) (\<lambda>_.
      and_then (validate_chunk_coverage image_size chunk_count chunk_size) (\<lambda>_.
      and_then (chunk_pool sys (eo_parallel_chunk_threads options)) (\<lambda>pool.
        Ok (\<lparr>er_chunks = em_chunks meta, er_chunk_size = chunk_size, er_chunk_count = chunk_count,
             er_sector_size = vs_bytes_per_sector vol, er_sector_count = vs_total_sector_count vol,
             er_image_size = image_size, er_stored_md5 = em_md5 meta, er_stored_sha1 = em_sha1 meta,
             er_segment_paths = em_segment_paths meta, er_corrupt_chunk_policy = eo_chunk_policy options,
             er_slots = slots, er_io_log = eo_io_log options,
             er_parallel_chunk_reads = eo_parallel_chunk_reads options, er_chunk_pool = pool\<rparr>,
            \<lparr>st_worker_pool = [],
             st_decoded = (if eo_decoded_chunk_cache options then Some (dcc_new DECODED_CHUNK_CACHE_CHUNKS)
               else None)\<rparr>))))))"

definition open_impl ::
    "'io e01_sys \<Rightarrow> e01_options \<Rightarrow> s3_buckets option \<Rightarrow> string list \<Rightarrow>
      (e01_reader \<times> e01_state, e01_open_error) result" where
  "open_impl sys options auth paths =
     (if paths = [] then Err NoSegmentFiles
      else
        and_then (map_err (\<lambda>e. OpInitializationFailed (CacheSetupFailed e))
          (es_cache_setup sys (e01_cache_config options))) (\<lambda>_.
        and_then (add_sources sys auth 0 paths []) (\<lambda>slots.
        and_then (read_segments sys slots (eo_section_policy options = DamnTheTorpedoes) 0 paths) (\<lambda>segs.
        and_then (process_segments segs) (\<lambda>meta.
        reader_of sys options slots meta)))))"

definition starts_s3 :: "string \<Rightarrow> bool" where
  "starts_s3 p \<longleftrightarrow> take 5 p = ''s3://''"

definition e01_open ::
    "'io e01_sys \<Rightarrow> e01_options \<Rightarrow> string list \<Rightarrow> (e01_reader \<times> e01_state, e01_open_error) result" where
  "e01_open sys options paths =
     and_then (map_err (\<lambda>e. OpInitializationFailed (TokioRuntimeFailed e)) (es_runtime sys)) (\<lambda>_.
     and_then (if list_ex starts_s3 paths
               then and_then (map_err from_io_error (es_s3_auth sys)) (\<lambda>a. Ok (Some a)) else Ok None) (\<lambda>auth.
     open_impl sys options auth paths))"

definition s3_checker_new :: "s3_buckets \<Rightarrow> url_parts \<Rightarrow> (checker, source_open_error) result" where
  "s3_checker_new buckets url =
     and_then (ok_or ([], SrcBadPath (url_text url)) (url_host url)) (\<lambda>name.
     and_then (buckets name (url_text url)) (\<lambda>bucket. Ok (s3_checker bucket)))"

definition open_glob ::
    "'io e01_sys \<Rightarrow> e01_options \<Rightarrow> string \<Rightarrow> (e01_reader \<times> e01_state, e01_open_error) result" where
  "open_glob sys options example =
     and_then (ok_or (OpBadPath example) (es_path_to_url sys example)) (\<lambda>url.
     and_then (map_err (\<lambda>e. OpInitializationFailed (TokioRuntimeFailed e)) (es_runtime sys)) (\<lambda>_.
     if url_scheme url = ''file'' then
       and_then (map_err from_seg_path_error (validated_segment_paths example (file_checker (es_os sys)))) (\<lambda>paths.
       open_impl sys options None paths)
     else if url_scheme url = ''s3'' then
       and_then (map_err from_io_error (es_s3_auth sys)) (\<lambda>auth.
       and_then (map_err OpSource (s3_checker_new auth url)) (\<lambda>chk.
       and_then (map_err from_seg_path_error (validated_segment_paths example chk)) (\<lambda>paths.
       open_impl sys options (Some auth) paths)))
     else Err (OpUnsupportedScheme (url_text url))))"

subsection \<open>What the metadata is made of\<close>

definition first_some :: "'a option list \<Rightarrow> 'a option" where
  "first_some xs = (case filter (\<lambda>x. x \<noteq> None) xs of [] \<Rightarrow> None | x # _ \<Rightarrow> x)"

lemma first_some_simps [simp]:
  "first_some [] = None" "first_some (Some x # xs) = Some x" "first_some (None # xs) = first_some xs"
  by (simp_all add: first_some_def)

lemma first_some_first_of: "first_some (first_of new old # xs) = first_some (old # new # xs)"
  by (cases old; cases new) (simp_all add: first_of_def)

definition collected :: "seg_acc \<Rightarrow> segment_components list \<Rightarrow> seg_acc" where
  "collected acc segs =
     \<lparr>sa_volume = first_some (sa_volume acc # map sc_volume segs), sa_md5 = first_some (sa_md5 acc # map sc_md5 segs),
      sa_sha1 = first_some (sa_sha1 acc # map sc_sha1 segs), sa_paths = sa_paths acc @ map sc_path segs,
      sa_chunks = sa_chunks acc @ concat (map sc_chunks segs)\<rparr>"

lemma collected_Nil: "collected acc [] = acc"
  by (cases "sa_volume acc"; cases "sa_md5 acc"; cases "sa_sha1 acc") (simp_all add: collected_def)

definition numbered :: "nat \<Rightarrow> segment_components list \<Rightarrow> bool" where
  "numbered i segs \<longleftrightarrow> map sc_segment_number segs = map (\<lambda>j. (i + j + 1) mod 65536) [0 ..< length segs]"

lemma numbered_Cons:
  "numbered i (seg # segs) \<longleftrightarrow> sc_segment_number seg = (i + 1) mod 65536 \<and> numbered (i + 1) segs"
  by (simp add: numbered_def upt_conv_Cons map_Suc_upt [symmetric] comp_def del: upt_Suc)

lemma process_loop_Ok:
  "process_loop i segs acc = Ok acc' \<longleftrightarrow>
     numbered i segs \<and> (segs = [] \<or> sa_volume acc \<noteq> None \<or> sc_volume (hd segs) \<noteq> None) \<and> acc' = collected acc segs"
proof (induction i segs acc rule: process_loop.induct)
  case (1 i acc)
  then show ?case by (auto simp: numbered_def collected_Nil)
next
  case (2 i seg segs acc)
  let ?acc = "\<lparr>sa_volume = first_of (sc_volume seg) (sa_volume acc), sa_md5 = first_of (sc_md5 seg) (sa_md5 acc),
    sa_sha1 = first_of (sc_sha1 seg) (sa_sha1 acc), sa_paths = sa_paths acc @ [sc_path seg],
    sa_chunks = sa_chunks acc @ sc_chunks seg\<rparr>"
  have c: "collected ?acc segs = collected acc (seg # segs)"
    by (simp add: collected_def first_some_first_of)
  have v: "sa_volume ?acc \<noteq> None \<longleftrightarrow> \<not> (sc_volume seg = None \<and> sa_volume acc = None)"
    by (auto simp: first_of_def split: option.splits)
  show ?case
  proof (cases "sc_segment_number seg = (i + 1) mod 65536 \<and> \<not> (sc_volume seg = None \<and> sa_volume acc = None)")
    case True
    then have "process_loop i (seg # segs) acc = process_loop (i + 1) segs ?acc" by (auto simp: Let_def)
    moreover have "process_loop (i + 1) segs ?acc = Ok acc' \<longleftrightarrow> numbered (i + 1) segs \<and> acc' = collected ?acc segs"
      using 2 True v by (auto simp: Let_def)
    ultimately show ?thesis using True c by (auto simp: numbered_Cons)
  next
    case False
    then show ?thesis by (auto simp: numbered_Cons Let_def)
  qed
qed

text \<open>The metadata of an image is accepted exactly when the segments carry the numbers 1, 2, .. in the order
  given and the first one has a volume section; it then consists of that volume section, the first
  MD5 and the first SHA1 that any segment stores, and the chunks of all segments in order.\<close>

theorem process_segments_spec:
  "process_segments segs = Ok meta \<longleftrightarrow>
     segs \<noteq> [] \<and> numbered 0 segs \<and>
     (\<exists>v. sc_volume (hd segs) = Some v \<and>
        meta = \<lparr>em_volume = v, em_md5 = first_some (map sc_md5 segs), em_sha1 = first_some (map sc_sha1 segs),
          em_segment_paths = map sc_path segs, em_chunks = concat (map sc_chunks segs)\<rparr>)"
proof -
  let ?acc = "\<lparr>sa_volume = None, sa_md5 = None, sa_sha1 = None, sa_paths = [], sa_chunks = []\<rparr> :: seg_acc"
  show ?thesis
  proof (cases segs)
    case Nil
    then show ?thesis by (simp add: process_segments_def)
  next
    case (Cons seg rest)
    then have "sa_volume (collected ?acc segs) = sc_volume (hd segs)" if "sc_volume (hd segs) \<noteq> None"
      using that by (auto simp: collected_def)
    moreover have "sa_md5 (collected ?acc segs) = first_some (map sc_md5 segs)"
      "sa_sha1 (collected ?acc segs) = first_some (map sc_sha1 segs)"
      "sa_paths (collected ?acc segs) = map sc_path segs" "sa_chunks (collected ?acc segs) = concat (map sc_chunks segs)"
      by (simp_all add: collected_def)
    ultimately show ?thesis
      using Cons unfolding process_segments_def and_then_Ok_iff process_loop_Ok
      by (auto split: option.splits)
  qed
qed

subsection \<open>An accepted image can be addressed\<close>

text \<open>The integers of the stream have the width asked for.\<close>

definition ewf_words :: "'io ewf_env \<Rightarrow> bool" where
  "ewf_words k \<longleftrightarrow> (\<forall>io n v io'. k_read_le k io n = Ok (v, io') \<longrightarrow> v < 256 ^ n)"

definition volume_u32 :: "volume_section \<Rightarrow> bool" where
  "volume_u32 v \<longleftrightarrow> vs_sectors_per_chunk v < 2 ^ 32 \<and> vs_bytes_per_sector v < 2 ^ 32"

lemma ewf_wordsD: "ewf_words k \<Longrightarrow> k_read_le k io 4 = Ok (v, io') \<Longrightarrow> v < 2 ^ 32"
  using power_mult [of "2 :: nat" 8 4] unfolding ewf_words_def by fastforce

lemma ewf_volume_read_u32:
  assumes "ewf_words k" "ewf_volume_read k io = Ok (v, io')"
  shows "volume_u32 (volume_of v)"
  using assms(2) unfolding ewf_volume_read_def
  by (auto simp: and_then_Ok_iff volume_of_def volume_u32_def dest!: ewf_wordsD [OF assms(1)] simp del: power_numeral)

lemma ewf_volume_smart_read_u32:
  assumes "ewf_words k" "ewf_volume_smart_read k io = Ok (v, io')"
  shows "volume_u32 (volume_of v)"
  using assms(2) unfolding ewf_volume_smart_read_def
  by (auto simp: and_then_Ok_iff volume_of_def volume_u32_def dest!: ewf_wordsD [OF assms(1)] simp del: power_numeral)

lemma volume_section_new_u32:
  assumes "ewf_words k" "volume_section_new k io sz ign = Ok v"
  shows "volume_u32 v"
  using assms(2) ewf_volume_read_u32 [OF assms(1)] ewf_volume_smart_read_u32 [OF assms(1)]
  unfolding volume_section_new_def by (auto simp: and_then_Ok_iff split: if_splits)

lemma read_section_volume:
  assumes "ewf_words k" "read_section k io ign = Ok (off, SecVolume v)"
  shows "volume_u32 v"
  using assms(2) volume_section_new_u32 [OF assms(1)]
  unfolding read_section_def by (auto simp: and_then_Ok_iff Let_def split: if_splits)

lemma section_next_volume:
  assumes "ewf_words k" "section_next k io ign cur = Some (Ok (off, SecVolume v))"
  shows "volume_u32 v"
  using assms(2) read_section_volume [OF assms(1)]
  unfolding section_next_def by (auto simp: and_then_Ok_iff split: if_splits)

definition opt_volume_u32 :: "volume_section option \<Rightarrow> bool" where
  "opt_volume_u32 o' \<longleftrightarrow> (case o' of None \<Rightarrow> True | Some v \<Rightarrow> volume_u32 v)"

lemma seg_section_volume:
  assumes "opt_volume_u32 (sg_volume st)" "\<And>v. sec = SecVolume v \<Longrightarrow> volume_u32 v"
  shows "opt_volume_u32 (sg_volume (seg_section sec st))"
  using assms by (cases sec) (auto simp: seg_section_def opt_volume_u32_def Let_def)

lemma seg_loop_volume:
  assumes "ewf_words k" "seg_loop k io ign cur st = Ok (st', cur')" "opt_volume_u32 (sg_volume st)"
  shows "opt_volume_u32 (sg_volume st')"
  using assms
proof (induction k io ign cur st rule: seg_loop.induct)
  case (1 k io ign cur st)
  show ?case
  proof (cases "section_next k io ign cur")
    case None
    then show ?thesis using "1.prems" by (simp add: seg_loop.simps)
  next
    case (Some r)
    then obtain off sec where r: "section_next k io ign cur = Some (Ok (off, sec))"
      using "1.prems"(2) by (cases r) (auto simp: seg_loop.simps)
    have v: "opt_volume_u32 (sg_volume (seg_section sec st))"
      by (rule seg_section_volume [OF "1.prems"(3)]) (use section_next_volume [OF "1.prems"(1)] r in blast)
    show ?thesis
    proof (cases "sec = SecDone")
      case True
      then show ?thesis using "1.prems"(2) r v by (auto simp: seg_loop.simps)
    next
      case False
      then have "seg_loop k io ign off (seg_section sec st) = Ok (st', cur')"
        using "1.prems"(2) r by (subst (asm) seg_loop.simps) (auto split: ewf_section.splits)
      then show ?thesis
        using "1.IH" [OF r refl refl] "1.prems"(1) v False by (cases sec) auto
    qed
  qed
qed

lemma read_segment_facts:
  assumes "ewf_words k" "read_segment k p idx io ign = Ok seg"
  shows "opt_volume_u32 (sc_volume seg) \<and> sc_path seg = p \<and> (\<forall>c \<in> set (sc_chunks seg). ch_segment c = idx)"
proof -
  obtain n io' st cur where l: "seg_loop k io' ign (k_pos k io') seg_init = Ok (st, cur)"
    and seg: "sc_volume seg = sg_volume st" "sc_path seg = p"
      "sc_chunks seg = map (\<lambda>c. c\<lparr>ch_segment := idx\<rparr>) (sg_chunks st)"
    using assms(2) unfolding read_segment_def located_def by (auto simp: and_then_Ok_iff)
  have "opt_volume_u32 (sg_volume st)"
    by (rule seg_loop_volume [OF assms(1) l]) (simp add: seg_init_def opt_volume_u32_def)
  then show ?thesis using seg by auto
qed

lemma read_segments_facts:
  assumes "ewf_words (es_env sys)" "read_segments sys slots ign idx ps = Ok segs"
  shows "map sc_path segs = ps \<and> (\<forall>seg \<in> set segs. opt_volume_u32 (sc_volume seg)) \<and>
    (\<forall>seg \<in> set segs. \<forall>c \<in> set (sc_chunks seg). ch_segment c < idx + length ps)"
  using assms
proof (induction ps arbitrary: idx segs)
  case Nil
  then show ?case by simp
next
  case (Cons p ps)
  obtain io seg rest where s: "read_segment (es_env sys) p idx io ign = Ok seg"
    "read_segments sys slots ign (idx + 1) ps = Ok rest" "segs = seg # rest"
    using Cons.prems(2) by (auto simp: and_then_Ok_iff)
  show ?case using read_segment_facts [OF Cons.prems(1) s(1)] Cons.IH [OF Cons.prems(1) s(2)] s(3) by auto
qed

text \<open>Every offset below the image size has a chunk and every chunk a segment; no product wraps.\<close>

definition e01_reader_ok :: "e01_reader \<Rightarrow> bool" where
  "e01_reader_ok rd \<longleftrightarrow>
     0 < er_chunk_size rd \<and> er_chunk_size rd + 4 < u64_lim \<and> er_image_size rd < u64_lim \<and>
     er_chunk_count rd = length (er_chunks rd) \<and>
     er_image_size rd \<le> length (er_chunks rd) * er_chunk_size rd \<and>
     (\<forall>c \<in> set (er_chunks rd). ch_segment c < length (er_segment_paths rd))"

lemma u32_product: "a < 2 ^ 32 \<Longrightarrow> b < 2 ^ 32 \<Longrightarrow> a * b + 4 < u64_lim"
proof -
  assume "a < 2 ^ 32" "b < 2 ^ 32"
  then have "a \<le> 2 ^ 32 - 1" "b \<le> 2 ^ 32 - 1" by simp_all
  then have "a * b \<le> (2 ^ 32 - 1) * (2 ^ 32 - 1)" by (rule mult_le_mono)
  then show ?thesis by (simp add: u64_lim_def)
qed

lemma reader_of_ok:
  assumes "reader_of sys options slots meta = Ok (rd, st)" "volume_u32 (em_volume meta)"
    and "\<forall>c \<in> set (em_chunks meta). ch_segment c < length (em_segment_paths meta)"
  shows "e01_reader_ok rd \<and> er_segment_paths rd = em_segment_paths meta \<and> er_slots rd = slots \<and>
    er_chunks rd = em_chunks meta \<and> st_worker_pool st = [] \<and>
    (\<forall>c. st_decoded st = Some c \<longrightarrow> c = dcc_new DECODED_CHUNK_CACHE_CHUNKS)"
proof -
  let ?v = "em_volume meta" and ?n = "length (em_chunks meta)"
  have p: "vs_sectors_per_chunk ?v * vs_bytes_per_sector ?v + 4 < u64_lim"
    using assms(2) by (intro u32_product) (simp_all add: volume_u32_def)
  then have "vs_chunk_size ?v + 4 < u64_lim" by (simp add: vs_chunk_size_def)
  moreover have "vs_max_offset ?v < u64_lim" by (simp add: vs_max_offset_def u64_mul_def u64_lim_def)
  moreover have "vs_chunk_size ?v \<noteq> 0" "vs_max_offset ?v \<le> ?n * vs_chunk_size ?v"
    using assms(1)
    by (auto simp: reader_of_def Let_def and_then_Ok_iff validate_volume_def validate_chunk_coverage_def
        saturating_mul_def split: if_splits)
  ultimately show ?thesis
    using assms(1,3) by (auto simp: reader_of_def Let_def and_then_Ok_iff e01_reader_ok_def split: if_splits)
qed

lemma open_impl_ok:
  assumes w: "ewf_words (es_env sys)" and ok: "open_impl sys options auth paths = Ok (rd, st)"
  shows "e01_reader_ok rd \<and> er_segment_paths rd = paths \<and> paths \<noteq> [] \<and> st_worker_pool st = [] \<and>
    (\<forall>c. st_decoded st = Some c \<longrightarrow> c = dcc_new DECODED_CHUNK_CACHE_CHUNKS)"
proof -
  obtain slots segs meta where s: "read_segments sys slots (eo_section_policy options = DamnTheTorpedoes) 0 paths = Ok segs"
    "process_segments segs = Ok meta" "reader_of sys options slots meta = Ok (rd, st)" "paths \<noteq> []"
    using ok unfolding open_impl_def by (auto simp: and_then_Ok_iff split: if_splits)
  note f = read_segments_facts [OF w s(1)]
  obtain v where m: "segs \<noteq> []" "sc_volume (hd segs) = Some v"
    "em_volume meta = v" "em_segment_paths meta = map sc_path segs" "em_chunks meta = concat (map sc_chunks segs)"
    using s(2) unfolding process_segments_def and_then_Ok_iff process_loop_Ok
    by (cases segs) (auto simp: collected_def split: option.splits)
  have "hd segs \<in> set segs" using m(1) by simp
  then have "opt_volume_u32 (Some v)" using f m(2) by metis
  then have "volume_u32 (em_volume meta)" using m(3) by (simp add: opt_volume_u32_def)
  moreover have "\<forall>c \<in> set (em_chunks meta). ch_segment c < length (em_segment_paths meta)"
    using f m(4,5) by auto
  ultimately show ?thesis using reader_of_ok [OF s(3)] f m(4) s(4) by auto
qed

text \<open>What an accepted image was made from: the segments it read and the volume section of the first.\<close>

lemma reader_of_declared:
  assumes "reader_of sys options slots meta = Ok (rd, st)"
  shows "length (er_chunks rd) = vs_chunk_count (em_volume meta)" "er_chunks rd = em_chunks meta"
    "er_chunk_size rd = vs_chunk_size (em_volume meta)" "er_image_size rd = vs_max_offset (em_volume meta)"
    "er_stored_md5 rd = em_md5 meta" "er_stored_sha1 rd = em_sha1 meta" "er_slots rd = slots"
  using assms by (auto simp: reader_of_def Let_def and_then_Ok_iff check_chunk_count_def split: if_splits)

lemma open_impl_declared:
  assumes w: "ewf_words (es_env sys)" and ok: "open_impl sys options auth paths = Ok (rd, st)"
  shows "\<exists>segs v. add_sources sys auth 0 paths [] = Ok (er_slots rd) \<and>
    read_segments sys (er_slots rd) (eo_section_policy options = DamnTheTorpedoes) 0 paths = Ok segs \<and>
    map sc_path segs = paths \<and> sc_volume (hd segs) = Some v \<and>
    er_chunks rd = concat (map sc_chunks segs) \<and> length (er_chunks rd) = vs_chunk_count v \<and>
    er_chunk_size rd = vs_sectors_per_chunk v * vs_bytes_per_sector v \<and>
    er_image_size rd = vs_total_sector_count v * vs_bytes_per_sector v mod 2 ^ 64"
proof -
  obtain slots segs meta where s: "add_sources sys auth 0 paths [] = Ok slots"
    "read_segments sys slots (eo_section_policy options = DamnTheTorpedoes) 0 paths = Ok segs"
    "process_segments segs = Ok meta" "reader_of sys options slots meta = Ok (rd, st)"
    using ok unfolding open_impl_def by (auto simp: and_then_Ok_iff split: if_splits)
  note f = read_segments_facts [OF w s(2)] and d = reader_of_declared [OF s(4)]
  obtain v where v: "segs \<noteq> []" "sc_volume (hd segs) = Some v" "em_volume meta = v"
    "em_chunks meta = concat (map sc_chunks segs)"
    using s(3) unfolding process_segments_spec by auto
  have "opt_volume_u32 (Some v)" using f v(1,2) by (metis hd_in_set)
  then have "vs_sectors_per_chunk v * vs_bytes_per_sector v + 4 < u64_lim"
    using u32_product by (simp add: opt_volume_u32_def volume_u32_def)
  then have "er_chunk_size rd = vs_sectors_per_chunk v * vs_bytes_per_sector v"
    using d(3) v(3) by (simp add: vs_chunk_size_def)
  moreover have "er_image_size rd = vs_total_sector_count v * vs_bytes_per_sector v mod 2 ^ 64"
    using d(4) v(3) by (simp add: vs_max_offset_def u64_mul_def u64_lim_def)
  ultimately show ?thesis using s(1,2) f v d(1,2,7) by auto
qed


end
