(* ===== verification/E01Reader.thy ===== *)
theory E01Reader
  imports E01Open
begin

text \<open>
  Reading an open E01 image: \<open>read_at_offset\<close> of \<open>e01/src/e01_reader.rs\<close> with the pool of workers and the
  tasks, one per chunk, that it splits a read into.

  What changes between reads is the \<open>e01_state\<close>: the pool of workers and the cache of decoded chunks.
  Tasks that run in parallel share only the cache of decoded chunks, behind a lock that each task takes
  twice: to look its chunk up, and to insert it after it was fetched.  So a parallel run is a sequence
  of steps, each of which is the next atomic part of one task (\<open>task_step\<close>).  The thread pool, the
  crate \<open>rayon\<close>, is a parameter: \<open>ry_schedule\<close> is the order in which the tasks get their turns
  (whatever it leaves unfinished is run to its end, unless a task has failed) and \<open>ry_pick\<close> says which
  of several errors is reported.

  Shown: whatever the schedule, a read gives exactly the bytes of the image, cut at its end, and keeps
  the workers and the cache good for the next one; on arbitrary, corrupt images a read through the
  cache of decoded chunks panics only where it asks for a byte beyond the data of an uncompressed chunk.

  A panic unwinds past \<open>return_workers\<close>, so the workers of that read are lost.  If it happened while the
  lock of the cache of decoded chunks was held, Rust poisons the lock and later reads panic too; the
  model does not show that, and no property is about a read that follows a panic.
\<close>

subsection \<open>Workers\<close>

definition new_worker :: "e01_reader \<Rightarrow> read_worker" where
  "new_worker rd = worker_new (er_chunk_size rd) (er_image_size rd) (er_corrupt_chunk_policy rd)"

text \<open>The workers for a read, and those that stay in the pool.\<close>

definition checkout_workers ::
    "e01_reader \<Rightarrow> nat \<Rightarrow> read_worker list \<Rightarrow> read_worker list \<times> read_worker list" where
  "checkout_workers rd n pool =
     (let keep = length pool - n; workers = drop keep pool
      in (workers @ replicate (n - length workers) (new_worker rd), take keep pool))"

definition return_workers :: "read_worker list \<Rightarrow> read_worker list \<Rightarrow> read_worker list" where
  "return_workers workers pool = pool @ workers"

subsection \<open>Tasks\<close>

record read_error =
  re_path :: "string option"
  re_source :: read_error_kind

record chunk_task =
  tk_index :: nat
  tk_chunk :: chunk
  tk_beg :: nat
  tk_end :: nat
  tk_path :: string

text \<open>The task for the chunk at \<open>offset\<close>, and how many bytes of the buffer it gets.\<close>

definition next_task :: "e01_reader \<Rightarrow> nat \<Rightarrow> nat \<Rightarrow> (chunk_task \<times> nat, read_error) result" where
  "next_task rd buf_end offset =
     (if er_chunk_size rd = 0 then Panic
      else
        let chunk_size = er_chunk_size rd; chunk_index = offset div chunk_size in
        and_then (index (er_chunks rd) chunk_index) (\<lambda>chunk.
        and_then (index (er_segment_paths rd) (ch_segment chunk)) (\<lambda>seg_path.
        let chunk_beg = u64_mul chunk_index chunk_size;
            chunk_end = min (u64_add chunk_beg chunk_size) (er_image_size rd);
            beg_in_chunk = u64_sub offset chunk_beg;
            end_in_chunk = u64_sub (min chunk_end buf_end) chunk_beg;
            len = u64_sub end_in_chunk beg_in_chunk
        in if buf_end - offset < len then Panic
           else Ok (\<lparr>tk_index = chunk_index, tk_chunk = chunk, tk_beg = beg_in_chunk, tk_end = end_in_chunk,
                     tk_path = seg_path\<rparr>, len))))"

text \<open>The loop that makes the tasks; every round takes one of the \<open>n\<close> workers that are left, and panics
  when there is none.\<close>

fun make_tasks :: "e01_reader \<Rightarrow> nat \<Rightarrow> nat \<Rightarrow> nat \<Rightarrow> (chunk_task list, read_error) result" where
  "make_tasks rd buf_end 0 offset = (if offset < buf_end then Panic else Ok [])"
| "make_tasks rd buf_end (Suc n) offset =
     (if offset < buf_end then
        and_then (next_task rd buf_end offset) (\<lambda>(t, len).
        and_then (make_tasks rd buf_end n (u64_add offset len)) (\<lambda>tasks. Ok (t # tasks)))
      else Ok [])"

definition tk_len :: "chunk_task \<Rightarrow> nat" where
  "tk_len t = u64_sub (tk_end t) (tk_beg t)"

text \<open>The error of a task carries the path of its segment.\<close>

definition task_error :: "chunk_task \<Rightarrow> read_error_kind \<Rightarrow> read_error" where
  "task_error t e = \<lparr>re_path = Some (tk_path t), re_source = e\<rparr>"

definition task_source :: "cache \<Rightarrow> (nat \<Rightarrow> bytes \<Rightarrow> bytes) \<Rightarrow> chunk_task \<Rightarrow> worker_source" where
  "task_source c spoil t = cache_worker_source c spoil (ch_segment (tk_chunk t))"

definition run_chunk_task ::
    "codec \<Rightarrow> cache \<Rightarrow> (nat \<Rightarrow> bytes \<Rightarrow> bytes) \<Rightarrow> chunk_task \<Rightarrow> read_worker \<times> decoded_chunk_cache option \<Rightarrow>
      (bytes, read_error) result \<times> (read_worker \<times> decoded_chunk_cache option)" where
  "run_chunk_task k c spoil t s =
     (case snd s of
        Some cache \<Rightarrow>
          (case read_cached k (task_source c spoil t) (tk_chunk t) (tk_index t) (tk_len t) (tk_beg t) (tk_end t) (fst s, cache) of
             (r, (w, cache)) \<Rightarrow> (map_err (task_error t) r, (w, Some cache)))
      | None \<Rightarrow>
          (case worker_read k (task_source c spoil t) (tk_chunk t) (tk_index t) (tk_len t) (tk_beg t) (tk_end t) (fst s) of
             (r, w) \<Rightarrow> (map_err (task_error t) r, (w, None))))"

subsection \<open>One task after the other\<close>

text \<open>\<open>try_for_each\<close> over the tasks, each with its worker; it stops at the first error.\<close>

fun run_serial ::
    "codec \<Rightarrow> cache \<Rightarrow> (nat \<Rightarrow> bytes \<Rightarrow> bytes) \<Rightarrow> (chunk_task \<times> read_worker) list \<Rightarrow> decoded_chunk_cache option \<Rightarrow>
      (bytes, read_error) result \<times> (read_worker list \<times> decoded_chunk_cache option)" where
  "run_serial k c spoil [] dc = (Ok [], ([], dc))"
| "run_serial k c spoil ((t, w) # ts) dc =
     (case run_chunk_task k c spoil t (w, dc) of
        (Ok bs, (w, dc)) \<Rightarrow>
          (case run_serial k c spoil ts dc of
             (r, (ws, dc)) \<Rightarrow> (and_then r (\<lambda>bss. Ok (bs @ bss)), (w # ws, dc)))
      | (Err e, (w, dc)) \<Rightarrow> (Err e, (w # map snd ts, dc))
      | (Panic, (w, dc)) \<Rightarrow> (Panic, (w # map snd ts, dc)))"

subsection \<open>Tasks in parallel\<close>

text \<open>Where a task is: not begun, after a lookup that missed (with the length of its chunk), or at its end
  with its result.\<close>

datatype progress =
    Ready read_worker
  | Missed read_worker nat
  | Finished read_worker "(bytes, read_error) result"

fun progress_worker :: "progress \<Rightarrow> read_worker" where
  "progress_worker (Ready w) = w"
| "progress_worker (Missed w n) = w"
| "progress_worker (Finished w r) = w"

text \<open>The next atomic part of one task.\<close>

definition task_step ::
    "codec \<Rightarrow> cache \<Rightarrow> (nat \<Rightarrow> bytes \<Rightarrow> bytes) \<Rightarrow> chunk_task \<Rightarrow> progress \<times> decoded_chunk_cache option \<Rightarrow>
      progress \<times> decoded_chunk_cache option" where
  "task_step k c spoil t s =
     (case s of
        (Ready w, None) \<Rightarrow>
          (case run_chunk_task k c spoil t (w, None) of (r, (w, dc)) \<Rightarrow> (Finished w r, dc))
      | (Ready w, Some cache) \<Rightarrow>
          (case checked_chunk_len w (tk_chunk t) (tk_index t) of
             Ok len \<Rightarrow>
               (case cached_lookup (tk_index t) (tk_len t) (tk_beg t) (tk_end t) cache of
                  (Some r, cache) \<Rightarrow> (Finished w (map_err (task_error t) r), Some cache)
                | (None, cache) \<Rightarrow> (Missed w len, Some cache))
           | Err e \<Rightarrow> (Finished w (Err (task_error t e)), Some cache)
           | Panic \<Rightarrow> (Finished w Panic, Some cache))
      | (Missed w len, Some cache) \<Rightarrow>
          (case read_cached_fetch k (task_source c spoil t) (tk_chunk t) (tk_index t) len (tk_len t) (tk_beg t) (tk_end t)
              (w, cache) of
             (r, (w, cache)) \<Rightarrow> (Finished w (map_err (task_error t) r), Some cache))
      | (p, dc) \<Rightarrow> (p, dc))"

type_synonym par_state = "progress list \<times> decoded_chunk_cache option"

definition par_step ::
    "codec \<Rightarrow> cache \<Rightarrow> (nat \<Rightarrow> bytes \<Rightarrow> bytes) \<Rightarrow> chunk_task list \<Rightarrow> nat \<Rightarrow> par_state \<Rightarrow> par_state" where
  "par_step k c spoil ts i s =
     (if i < length ts \<and> i < length (fst s) then
        case task_step k c spoil (ts ! i) (fst s ! i, snd s) of (p, dc) \<Rightarrow> ((fst s)[i := p], dc)
      else s)"

fun failed :: "progress \<Rightarrow> bool" where
  "failed (Finished w (Ok bs)) = False"
| "failed (Finished w r) = True"
| "failed p = False"

fun progress_error :: "progress \<Rightarrow> read_error option" where
  "progress_error (Finished w (Err e)) = Some e"
| "progress_error p = None"

fun progress_bytes :: "progress \<Rightarrow> bytes" where
  "progress_bytes (Finished w (Ok bs)) = bs"
| "progress_bytes p = []"

fun panicked :: "progress \<Rightarrow> bool" where
  "panicked (Finished w Panic) = True"
| "panicked p = False"

record rayon =
  ry_schedule :: "nat list"
  ry_pick :: nat

definition par_outcome :: "nat \<Rightarrow> progress list \<Rightarrow> (bytes, read_error) result" where
  "par_outcome pick ps =
     (let errs = List.map_filter progress_error ps in
      if list_ex panicked ps then Panic
      else if errs \<noteq> [] then Err (errs ! (pick mod length errs))
      else Ok (concat (map progress_bytes ps)))"

definition run_parallel ::
    "rayon \<Rightarrow> codec \<Rightarrow> cache \<Rightarrow> (nat \<Rightarrow> bytes \<Rightarrow> bytes) \<Rightarrow> (chunk_task \<times> read_worker) list \<Rightarrow> decoded_chunk_cache option \<Rightarrow>
      (bytes, read_error) result \<times> (read_worker list \<times> decoded_chunk_cache option)" where
  "run_parallel ry k c spoil tws dc =
     (let ts = map fst tws;
          s = fold (par_step k c spoil ts) (ry_schedule ry) (map (\<lambda>tw. Ready (snd tw)) tws, dc);
          s = (if list_ex failed (fst s) then s
               else fold (par_step k c spoil ts) (concat (map (\<lambda>i. [i, i]) [0 ..< length ts])) s)
      in (par_outcome (ry_pick ry) (fst s), (map progress_worker (fst s), snd s)))"

subsection \<open>A read\<close>

text \<open>With an I/O log, a read first asks the cache of decoded chunks for its chunks, until one is missing;
  this moves them in the queue of the cache.\<close>

fun probe_hits :: "nat list \<Rightarrow> decoded_chunk_cache \<Rightarrow> decoded_chunk_cache" where
  "probe_hits [] cache = cache"
| "probe_hits (i # is') cache =
     (case dcc_get cache i of (Some _, cache) \<Rightarrow> probe_hits is' cache | (None, cache) \<Rightarrow> cache)"

definition e01_read_at_offset ::
    "rayon \<Rightarrow> codec \<Rightarrow> cache \<Rightarrow> (nat \<Rightarrow> bytes \<Rightarrow> bytes) \<Rightarrow> e01_reader \<Rightarrow> e01_state \<Rightarrow> nat \<Rightarrow> nat \<Rightarrow>
      (bytes, read_error) result \<times> e01_state" where
  "e01_read_at_offset ry k c spoil rd st offset buflen =
     (let image_end = er_image_size rd in
      if offset > image_end
      then (Err \<lparr>re_path = None, re_source = OffsetBeyondEnd offset image_end\<rparr>, st)
      else if er_chunk_size rd = 0 then (Panic, st)
      else
        let buflen = (if u64_add offset buflen > image_end then image_end - offset else buflen);
            buf_end = u64_add offset buflen;
            chunk_size = er_chunk_size rd;
            beg_chunk_index = offset div chunk_size;
            end_chunk_index = u64_add (buf_end div chunk_size) (min (buf_end mod chunk_size) 1);
            dc = (if er_io_log rd then map_option (probe_hits [beg_chunk_index ..< end_chunk_index]) (st_decoded st)
                  else st_decoded st);
            (workers, pool) = checkout_workers rd (u64_sub end_chunk_index beg_chunk_index) (st_worker_pool st)
        in case make_tasks rd buf_end (length workers) offset of
             Ok tasks \<Rightarrow>
               let tws = zip tasks workers;
                   (r, (ws, dc)) =
                     (if er_parallel_chunk_reads rd \<and> length tasks > 1 then run_parallel ry k c spoil tws dc
                      else run_serial k c spoil tws dc)
               in (r, \<lparr>st_worker_pool =
                         (if r = Panic then pool else return_workers (ws @ drop (length tasks) workers) pool),
                       st_decoded = dc\<rparr>)
           | Err e \<Rightarrow> (Err e, \<lparr>st_worker_pool = pool, st_decoded = dc\<rparr>)
           | Panic \<Rightarrow> (Panic, \<lparr>st_worker_pool = pool, st_decoded = dc\<rparr>))"

subsection \<open>The contract between the workers and the reader\<close>

text \<open>\<open>T\<close> says which tasks are made, \<open>W\<close> and \<open>C\<close> what workers and the cache of decoded chunks keep, \<open>R\<close> what
  the result of a task may be.  The assumptions are about the three atomic parts of a task.\<close>

locale chunk_reader =
  fixes k :: codec and c :: cache and spoil :: "nat \<Rightarrow> bytes \<Rightarrow> bytes"
    and T :: "chunk_task \<Rightarrow> bool" and W :: "read_worker \<Rightarrow> bool" and C :: "decoded_chunk_cache option \<Rightarrow> bool"
    and R :: "chunk_task \<Rightarrow> (bytes, read_error_kind) result \<Rightarrow> bool"
  assumes uncached: "T t \<Longrightarrow> W w \<Longrightarrow> C None \<Longrightarrow>
      worker_read k (task_source c spoil t) (tk_chunk t) (tk_index t) (tk_len t) (tk_beg t) (tk_end t) w = (r, w') \<Longrightarrow>
      R t r \<and> W w'"
    and lookup: "T t \<Longrightarrow> C (Some dc) \<Longrightarrow>
      cached_lookup (tk_index t) (tk_len t) (tk_beg t) (tk_end t) dc = (x, dc') \<Longrightarrow>
      C (Some dc') \<and> (\<forall>r. x = Some r \<longrightarrow> R t r)"
    and fetch: "T t \<Longrightarrow> W w \<Longrightarrow> C (Some dc) \<Longrightarrow> checked_chunk_len w (tk_chunk t) (tk_index t) = Ok len \<Longrightarrow>
      read_cached_fetch k (task_source c spoil t) (tk_chunk t) (tk_index t) len (tk_len t) (tk_beg t) (tk_end t) (w, dc) =
        (r, (w', dc')) \<Longrightarrow> R t r \<and> W w' \<and> C (Some dc')"
    and bounds: "T t \<Longrightarrow> W w \<Longrightarrow> C odc \<Longrightarrow> checked_chunk_len w (tk_chunk t) (tk_index t) = Err e \<Longrightarrow> R t (Err e)"
    and probe: "C (Some dc) \<Longrightarrow> C (Some (snd (dcc_get dc i)))"
begin

lemma run_ok:
  assumes "T t" "W w" "C dc" "run_chunk_task k c spoil t (w, dc) = (r, (w', dc'))"
  shows "\<exists>x. r = map_err (task_error t) x \<and> R t x \<and> W w' \<and> C dc' \<and> (dc' = None \<longleftrightarrow> dc = None)"
proof (cases dc)
  case None
  obtain x where "worker_read k (task_source c spoil t) (tk_chunk t) (tk_index t) (tk_len t) (tk_beg t) (tk_end t) w = (x, w')"
    "r = map_err (task_error t) x" "dc' = None"
    using assms(4) None by (auto simp: run_chunk_task_def split: prod.splits)
  then show ?thesis using uncached [OF assms(1,2)] assms(3) None by blast
next
  case (Some d)
  obtain x d' where x: "read_cached k (task_source c spoil t) (tk_chunk t) (tk_index t) (tk_len t) (tk_beg t) (tk_end t) (w, d) =
      (x, (w', d'))" "r = map_err (task_error t) x" "dc' = Some d'"
    using assms(4) Some by (auto simp: run_chunk_task_def split: prod.splits)
  have "R t x \<and> W w' \<and> C (Some d')"
  proof (cases "checked_chunk_len w (tk_chunk t) (tk_index t)")
    case (Ok len)
    obtain y d1 where y: "cached_lookup (tk_index t) (tk_len t) (tk_beg t) (tk_end t) d = (y, d1)" by fastforce
    note l = lookup [OF assms(1) assms(3) [unfolded Some] y]
    show ?thesis
    proof (cases y)
      case None
      then have "read_cached_fetch k (task_source c spoil t) (tk_chunk t) (tk_index t) len (tk_len t) (tk_beg t) (tk_end t)
          (w, d1) = (x, (w', d'))"
        using x(1) Ok y by (simp add: read_cached_phases after_miss_def)
      then show ?thesis using fetch [OF assms(1,2) _ Ok] l by blast
    next
      case (Some z)
      then show ?thesis using x(1) Ok y l assms(2) by (auto simp: read_cached_phases after_miss_def)
    qed
  next
    case (Err e)
    then show ?thesis
      using x(1) bounds [OF assms(1-3)] assms(2,3) Some by (auto simp: read_cached_phases)
  qed simp
  then show ?thesis using x(2,3) Some by blast
qed

text \<open>What a run over tasks may give: the bytes of all of them, or the failure of one.\<close>

definition outcome :: "chunk_task list \<Rightarrow> (bytes, read_error) result \<Rightarrow> bool" where
  "outcome ts r \<longleftrightarrow>
     (case r of
        Ok bs \<Rightarrow> \<exists>bss. bs = concat bss \<and> list_all2 (\<lambda>t b. R t (Ok b)) ts bss
      | Err e \<Rightarrow> \<exists>t \<in> set ts. \<exists>x. e = task_error t x \<and> R t (Err x)
      | Panic \<Rightarrow> \<exists>t \<in> set ts. R t Panic)"

lemma outcome_Cons:
  "outcome ts r \<Longrightarrow> R t (Ok b) \<Longrightarrow> outcome (t # ts) (and_then r (\<lambda>bs. Ok (b @ bs)))"
  unfolding outcome_def by (cases r) (auto simp: list_all2_Cons1 intro: exI [of _ "b # bss" for bss])

lemma serial_ok:
  assumes "\<forall>(t, w) \<in> set tws. T t \<and> W w" "C dc" "run_serial k c spoil tws dc = (r, (ws, dc'))"
  shows "outcome (map fst tws) r \<and> length ws = length tws \<and> (\<forall>w \<in> set ws. W w) \<and> C dc'"
  using assms
proof (induction tws arbitrary: dc r ws dc')
  case Nil
  then show ?case by (auto simp: outcome_def)
next
  case (Cons tw tws)
  obtain t w where tw: "tw = (t, w)" by fastforce
  have g: "T t" "W w" using Cons.prems(1) tw by auto
  obtain r1 w1 dc1 where 1: "run_chunk_task k c spoil t (w, dc) = (r1, (w1, dc1))" by (metis prod.exhaust)
  obtain x where x: "r1 = map_err (task_error t) x" "R t x" "W w1" "C dc1"
    using run_ok [OF g Cons.prems(2) 1] by blast
  have rest: "\<forall>w \<in> set (map snd tws). W w" using Cons.prems(1) by auto
  show ?case
  proof (cases x)
    case (Ok b)
    obtain r2 ws2 dc2 where 2: "run_serial k c spoil tws dc1 = (r2, (ws2, dc2))" by (metis prod.exhaust)
    have "outcome (map fst tws) r2 \<and> length ws2 = length tws \<and> (\<forall>w \<in> set ws2. W w) \<and> C dc2"
      using Cons.IH [OF _ x(4) 2] Cons.prems(1) by auto
    moreover have "r = and_then r2 (\<lambda>bss. Ok (b @ bss))" "ws = w1 # ws2" "dc' = dc2"
      using Cons.prems(3) tw 1 2 x(1) Ok by auto
    ultimately show ?thesis using outcome_Cons [of "map fst tws" r2 t b] x(2,3) Ok tw by auto
  next
    case (Err e)
    then have "r = Err (task_error t e)" "ws = w1 # map snd tws" "dc' = dc1"
      using Cons.prems(3) tw 1 x(1) by auto
    then show ?thesis using x rest tw Err by (auto simp: outcome_def)
  next
    case Panic
    then have "r = Panic" "ws = w1 # map snd tws" "dc' = dc1" using Cons.prems(3) tw 1 x(1) by auto
    then show ?thesis using x rest tw Panic by (auto simp: outcome_def)
  qed
qed

text \<open>Where a task may be on its way, \<open>on\<close> when there is a cache of decoded chunks.\<close>

fun P :: "bool \<Rightarrow> chunk_task \<Rightarrow> progress \<Rightarrow> bool" where
  "P on t (Ready w) = W w"
| "P on t (Missed w len) = (on \<and> W w \<and> checked_chunk_len w (tk_chunk t) (tk_index t) = Ok len)"
| "P on t (Finished w r) = (W w \<and> (\<exists>x. r = map_err (task_error t) x \<and> R t x))"

lemma task_step_ok:
  assumes "T t" "P (dc \<noteq> None) t p" "C dc" "task_step k c spoil t (p, dc) = (p', dc')"
  shows "P (dc \<noteq> None) t p' \<and> C dc' \<and> (dc' = None \<longleftrightarrow> dc = None)"
proof (cases p)
  case (Ready w)
  show ?thesis
  proof (cases dc)
    case None
    obtain r w' where r: "run_chunk_task k c spoil t (w, None) = (r, (w', dc'))" "p' = Finished w' r"
      using assms(4) Ready None by (auto simp: task_step_def split: prod.splits)
    then show ?thesis using run_ok [OF assms(1) _ _ r(1)] assms(2,3) Ready None by auto
  next
    case (Some d)
    have w: "W w" using assms(2) Ready by simp
    show ?thesis
    proof (cases "checked_chunk_len w (tk_chunk t) (tk_index t)")
      case (Ok len)
      obtain y d1 where y: "cached_lookup (tk_index t) (tk_len t) (tk_beg t) (tk_end t) d = (y, d1)" by fastforce
      note l = lookup [OF assms(1) assms(3) [unfolded Some] y]
      show ?thesis
        using assms(4) Ready Some Ok y l w by (cases y) (auto simp: task_step_def)
    next
      case (Err e)
      then have "p' = Finished w (map_err (task_error t) (Err e))" "dc' = dc"
        using assms(4) Ready Some by (auto simp: task_step_def)
      then show ?thesis using bounds [OF assms(1) w assms(3) Err] w assms(3) by (auto intro!: exI [of _ "Err e"])
    qed simp
  qed
next
  case (Missed w len)
  then obtain d where d: "dc = Some d" using assms(2) by auto
  obtain r w' d' where f: "read_cached_fetch k (task_source c spoil t) (tk_chunk t) (tk_index t) len (tk_len t) (tk_beg t)
      (tk_end t) (w, d) = (r, (w', d'))" by (metis prod.exhaust)
  then have "p' = Finished w' (map_err (task_error t) r)" "dc' = Some d'"
    using assms(4) Missed d by (auto simp: task_step_def)
  then show ?thesis using fetch [OF assms(1) _ _ _ f] assms(2,3) Missed d by auto
next
  case (Finished w r)
  then show ?thesis using assms by (cases dc) (auto simp: task_step_def)
qed

text \<open>A step brings its task nearer to its end.\<close>

fun rank :: "progress \<Rightarrow> nat" where
  "rank (Ready w) = 2"
| "rank (Missed w n) = 1"
| "rank (Finished w r) = 0"

lemma task_step_rank:
  assumes "P (dc \<noteq> None) t p" "task_step k c spoil t (p, dc) = (p', dc')"
  shows "rank p' \<le> rank p - 1"
  using assms
  by (cases p; cases dc) (auto simp: task_step_def split: prod.splits result.splits option.splits)

definition PS :: "chunk_task list \<Rightarrow> bool \<Rightarrow> par_state \<Rightarrow> bool" where
  "PS ts on s \<longleftrightarrow> list_all2 (P on) ts (fst s) \<and> C (snd s) \<and> (snd s \<noteq> None \<longleftrightarrow> on)"

lemma list_all2_update_at:
  "list_all2 Q xs ys \<Longrightarrow> Q (xs ! i) y \<Longrightarrow> i < length xs \<Longrightarrow> list_all2 Q xs (ys[i := y])"
  by (auto simp: list_all2_conv_all_nth nth_list_update)

lemma par_step_ok:
  assumes "\<forall>t \<in> set ts. T t" "PS ts on s"
  shows "PS ts on (par_step k c spoil ts i s) \<and>
    (\<forall>j < length ts. rank (fst (par_step k c spoil ts i s) ! j) \<le> (if j = i then rank (fst s ! j) - 1 else rank (fst s ! j)))"
proof (cases "i < length ts")
  case True
  have len: "length (fst s) = length ts" using assms(2) by (auto simp: PS_def dest: list_all2_lengthD)
  obtain p dc where st: "task_step k c spoil (ts ! i) (fst s ! i, snd s) = (p, dc)" by fastforce
  have pi: "P (snd s \<noteq> None) (ts ! i) (fst s ! i)" using assms(2) True by (auto simp: PS_def list_all2_nthD)
  have n: "P (snd s \<noteq> None) (ts ! i) p \<and> C dc \<and> (dc = None \<longleftrightarrow> snd s = None)"
    using task_step_ok [OF _ pi _ st] assms True by (auto simp: PS_def)
  have e: "par_step k c spoil ts i s = ((fst s)[i := p], dc)" using True len st by (simp add: par_step_def)
  have "list_all2 (P on) ts ((fst s)[i := p])"
    using assms(2) n len by (intro list_all2_update_at [OF _ _ True]) (auto simp: PS_def)
  moreover have "rank p \<le> rank (fst s ! i) - 1" by (rule task_step_rank [OF pi st])
  ultimately show ?thesis using e n assms(2) len True by (auto simp: PS_def nth_list_update)
next
  case False
  then show ?thesis using assms(2) by (auto simp: par_step_def)
qed

lemma fold_par_step_ok:
  assumes "\<forall>t \<in> set ts. T t" "PS ts on s"
  shows "PS ts on (fold (par_step k c spoil ts) is' s)"
  using assms(2) by (induction is' arbitrary: s) (simp_all add: par_step_ok [OF assms(1)])

lemma completed:
  assumes "\<forall>t \<in> set ts. T t" "PS ts on s" "n \<le> length ts" "j < n"
  shows "rank (fst (fold (par_step k c spoil ts) (concat (map (\<lambda>i. [i, i]) [0 ..< n])) s) ! j) = 0"
  using assms(3,4)
proof (induction n)
  case (Suc n)
  let ?s = "fold (par_step k c spoil ts) (concat (map (\<lambda>i. [i, i]) [0 ..< n])) s"
  let ?s1 = "par_step k c spoil ts n ?s"
  have PS: "PS ts on ?s" by (rule fold_par_step_ok [OF assms(1,2)])
  note 1 = par_step_ok [OF assms(1) PS, of n]
  note 2 = par_step_ok [OF assms(1) conjunct1 [OF 1], of n]
  have jl: "j < length ts" using Suc.prems by simp
  have le: "rank q \<le> 2" for q by (cases q) auto
  have "rank (fst (par_step k c spoil ts n ?s1) ! j) = 0"
  proof (cases "j = n")
    case True
    then have "rank (fst (par_step k c spoil ts n ?s1) ! j) \<le> rank (fst ?s ! j) - 1 - 1"
      using conjunct2 [OF 1, rule_format, OF jl] conjunct2 [OF 2, rule_format, OF jl] by simp
    then show ?thesis using le [of "fst ?s ! j"] by linarith
  next
    case False
    then have "rank (fst (par_step k c spoil ts n ?s1) ! j) \<le> rank (fst ?s ! j)"
      using conjunct2 [OF 1, rule_format, OF jl] conjunct2 [OF 2, rule_format, OF jl] by simp
    then show ?thesis using Suc.IH Suc.prems False by simp
  qed
  then show ?case by simp
qed simp

lemma rank_0: "rank p = 0 \<Longrightarrow> \<exists>w r. p = Finished w r"
  by (cases p) auto

lemma P_worker: "P on t p \<Longrightarrow> W (progress_worker p)"
  by (cases p) auto

lemma P_all_worker: "list_all2 (P on) ts ps \<Longrightarrow> \<forall>w \<in> progress_worker ` set ps. W w"
  by (induction ts ps rule: list_all2_induct) (auto dest: P_worker)

lemma par_outcome_ok:
  assumes all: "list_all2 (P on) ts ps"
    and fin: "list_ex failed ps \<or> (\<forall>j < length ts. rank (ps ! j) = 0)"
  shows "outcome ts (par_outcome pick ps)"
proof -
  have len: "length ps = length ts" using all by (simp add: list_all2_lengthD)
  have at: "\<exists>t \<in> set ts. P on t p" if "p \<in> set ps" for p
    using that all by (metis in_set_conv_nth list_all2_nthD2 len nth_mem)
  consider (panic) "list_ex panicked ps" | (err) "\<not> list_ex panicked ps" "List.map_filter progress_error ps \<noteq> []"
    | (ok) "\<not> list_ex panicked ps" "List.map_filter progress_error ps = []" by blast
  then show ?thesis
  proof cases
    case panic
    then obtain w where "Finished w Panic \<in> set ps"
      by (auto simp: list_ex_iff elim: panicked.elims)
    then obtain t x where "t \<in> set ts" "Panic = map_err (task_error t) x" "R t x" using at by fastforce
    then have "\<exists>t \<in> set ts. R t Panic" by (cases x) auto
    then show ?thesis using panic by (simp add: par_outcome_def outcome_def)
  next
    case err
    let ?errs = "List.map_filter progress_error ps"
    have "?errs ! (pick mod length ?errs) \<in> set ?errs" using err(2) by simp
    then obtain p where p: "p \<in> set ps" "progress_error p = Some (?errs ! (pick mod length ?errs))"
      unfolding set_map_filter by blast
    then obtain w where w: "p = Finished w (Err (?errs ! (pick mod length ?errs)))"
      by (auto elim: progress_error.elims)
    obtain t where t: "t \<in> set ts" "P on t p" using at [OF p(1)] by blast
    then obtain x where x: "Err (?errs ! (pick mod length ?errs)) = map_err (task_error t) x" "R t x" using w by auto
    then obtain e where "x = Err e" "?errs ! (pick mod length ?errs) = task_error t e" by (cases x) auto
    then show ?thesis using err x(2) t(1) by (auto simp: par_outcome_def outcome_def Let_def)
  next
    case ok
    have nf: "\<not> list_ex failed ps"
    proof
      assume "list_ex failed ps"
      then obtain p where p: "p \<in> set ps" "failed p" by (auto simp: list_ex_iff)
      then have "panicked p \<or> progress_error p \<noteq> None" by (auto elim!: failed.elims)
      then show False using ok p(1) set_map_filter [of _ progress_error ps] by (fastforce simp: list_ex_iff)
    qed
    have "R (ts ! j) (Ok (progress_bytes (ps ! j)))" if "j < length ts" for j
    proof -
      have "rank (ps ! j) = 0" using fin nf that by simp
      then obtain w r where r: "ps ! j = Finished w r" using rank_0 by blast
      have "\<not> failed (ps ! j)" using nf that len by (auto simp: list_ex_length)
      then obtain b where b: "r = Ok b" using r by (cases r) auto
      have "P on (ts ! j) (ps ! j)" using all that by (rule list_all2_nthD)
      then obtain x where x: "Ok b = map_err (task_error (ts ! j)) x" "R (ts ! j) x" using r b by auto
      then have "x = Ok b" by (cases x) auto
      then show ?thesis using x(2) r b by simp
    qed
    then have "list_all2 (\<lambda>t b. R t (Ok b)) ts (map progress_bytes ps)"
      using len by (simp add: list_all2_conv_all_nth)
    then show ?thesis using ok by (auto simp: par_outcome_def outcome_def)
  qed
qed

lemma parallel_ok:
  assumes "\<forall>(t, w) \<in> set tws. T t \<and> W w" "C dc" "run_parallel ry k c spoil tws dc = (r, (ws, dc'))"
  shows "outcome (map fst tws) r \<and> length ws = length tws \<and> (\<forall>w \<in> set ws. W w) \<and> C dc'"
proof -
  let ?ts = "map fst tws" and ?on = "dc \<noteq> None"
  let ?s0 = "(map (\<lambda>tw. Ready (snd tw)) tws, dc)"
  let ?s1 = "fold (par_step k c spoil ?ts) (ry_schedule ry) ?s0"
  let ?s2 = "if list_ex failed (fst ?s1) then ?s1
    else fold (par_step k c spoil ?ts) (concat (map (\<lambda>i. [i, i]) [0 ..< length ?ts])) ?s1"
  have T: "\<forall>t \<in> set ?ts. T t" using assms(1) by auto
  have "PS ?ts ?on ?s0"
    using assms(1,2) by (auto simp: PS_def list_all2_conv_all_nth split_beta)
  then have 1: "PS ?ts ?on ?s1" by (rule fold_par_step_ok [OF T])
  then have 2: "PS ?ts ?on ?s2" using fold_par_step_ok [OF T 1] by auto
  have "list_ex failed (fst ?s2) \<or> (\<forall>j < length ?ts. rank (fst ?s2 ! j) = 0)"
    using completed [OF T 1 le_refl] by simp
  then have "outcome ?ts (par_outcome (ry_pick ry) (fst ?s2))"
    using par_outcome_ok [of ?on ?ts "fst ?s2"] 2 by (simp add: PS_def)
  moreover have "\<forall>w \<in> set (map progress_worker (fst ?s2)). W w"
    using P_all_worker [of ?on ?ts "fst ?s2"] 2 unfolding PS_def by simp
  moreover have "length (fst ?s2) = length tws" using 2 by (auto simp: PS_def dest: list_all2_lengthD)
  moreover have "r = par_outcome (ry_pick ry) (fst ?s2)" "ws = map progress_worker (fst ?s2)" "dc' = snd ?s2"
    using assms(3) by (simp_all add: run_parallel_def Let_def)
  ultimately show ?thesis using 2 by (simp add: PS_def)
qed

end

subsection \<open>The tasks of a read\<close>

text \<open>How many bytes of chunk \<open>i\<close> belong to the image.\<close>

definition part :: "e01_reader \<Rightarrow> nat \<Rightarrow> nat" where
  "part rd i = min (er_chunk_size rd) (er_image_size rd - i * er_chunk_size rd)"

text \<open>A reader that can be addressed, of an image that ends a chunk before the largest 64-bit offset.\<close>

definition addressable :: "e01_reader \<Rightarrow> bool" where
  "addressable rd \<longleftrightarrow> e01_reader_ok rd \<and> er_image_size rd + er_chunk_size rd < u64_lim"

definition task_ok :: "e01_reader \<Rightarrow> chunk_task \<Rightarrow> bool" where
  "task_ok rd t \<longleftrightarrow>
     tk_index t < length (er_chunks rd) \<and> tk_chunk t = er_chunks rd ! tk_index t \<and>
     tk_index t * er_chunk_size rd < er_image_size rd \<and> tk_beg t \<le> tk_end t \<and> tk_end t \<le> part rd (tk_index t)"

definition task_bytes :: "e01_reader \<Rightarrow> bytes \<Rightarrow> chunk_task \<Rightarrow> bytes" where
  "task_bytes rd img t = sub_list img (tk_index t * er_chunk_size rd + tk_beg t) (tk_end t - tk_beg t)"

definition cdiv :: "nat \<Rightarrow> nat \<Rightarrow> nat" where
  "cdiv a b = a div b + min (a mod b) 1"

lemma cdiv_covers: "0 < b \<Longrightarrow> a \<le> cdiv a b * b"
proof -
  assume b: "0 < b"
  show ?thesis
  proof (cases "a mod b = 0")
    case True
    then show ?thesis using div_mult_mod_eq [of a b] by (simp add: cdiv_def)
  next
    case False
    then have "min (a mod b) 1 = 1" by auto
    then have "cdiv a b * b = a div b * b + b" by (simp add: cdiv_def)
    then show ?thesis using div_mult_mod_eq [of a b] mod_less_divisor [OF b, of a] by linarith
  qed
qed

lemma cdiv_le: "0 < b \<Longrightarrow> cdiv a b \<le> a"
proof -
  assume "0 < b"
  then have "a div b \<le> a div b * b" by simp
  moreover have "min (a mod b) 1 \<le> a mod b" by simp
  ultimately show ?thesis using div_mult_mod_eq [of a b] unfolding cdiv_def by linarith
qed

lemma next_task_eq:
  assumes ok: "addressable rd" and o: "offset < buf_end" "buf_end \<le> er_image_size rd"
  defines "cs \<equiv> er_chunk_size rd" and "i \<equiv> offset div er_chunk_size rd"
  obtains t where "next_task rd buf_end offset = Ok (t, min ((i + 1) * cs) buf_end - offset)"
    "task_ok rd t" "tk_index t = i" "tk_beg t = offset - i * cs" "tk_end t = min ((i + 1) * cs) buf_end - i * cs"
proof -
  have cs: "0 < cs" and lim: "er_image_size rd + cs < u64_lim" and cov: "er_image_size rd \<le> length (er_chunks rd) * cs"
    and seg: "\<forall>c \<in> set (er_chunks rd). ch_segment c < length (er_segment_paths rd)"
    using ok by (auto simp: addressable_def e01_reader_ok_def cs_def)
  have lo: "i * cs \<le> offset" by (simp add: i_def cs_def)
  have hi: "offset < (i + 1) * cs" using dividend_less_div_times [OF cs, of offset] by (simp add: i_def cs_def)
  have il: "i < length (er_chunks rd)"
    using less_mult_imp_div_less [of offset "length (er_chunks rd)" cs] o cov by (simp add: i_def cs_def)
  let ?ch = "er_chunks rd ! i"
  have sg: "ch_segment ?ch < length (er_segment_paths rd)" using seg il by simp
  have mul: "u64_mul i cs = i * cs" using lo o lim by (intro u64_mul_exact) linarith
  have add: "u64_add (i * cs) cs = (i + 1) * cs" using lo o lim by (subst u64_add_exact) (linarith, simp)
  let ?e = "min ((i + 1) * cs) buf_end"
  have m: "min (min ((i + 1) * cs) (er_image_size rd)) buf_end = ?e" using o by simp
  have e: "offset < ?e" using hi o by simp
  let ?t = "\<lparr>tk_index = i, tk_chunk = ?ch, tk_beg = offset - i * cs, tk_end = ?e - i * cs,
    tk_path = er_segment_paths rd ! ch_segment ?ch\<rparr>"
  have be: "u64_sub offset (i * cs) = offset - i * cs" "u64_sub ?e (i * cs) = ?e - i * cs"
    "u64_sub (?e - i * cs) (offset - i * cs) = ?e - offset"
    using lo e by (simp_all add: u64_sub_exact diff_le_mono)
  have "next_task rd buf_end offset = Ok (?t, ?e - offset)"
    unfolding next_task_def Let_def cs_def [symmetric] i_def [folded cs_def, symmetric]
    using cs il sg by (simp add: index_def mul add [simplified] m [simplified] be [simplified])
  moreover have "task_ok rd ?t"
    using il lo e o by (auto simp: task_ok_def part_def cs_def [symmetric])
  ultimately show thesis by (rule that) simp_all
qed

text \<open>The bytes of the image that a task is about.\<close>

definition task_in :: "e01_reader \<Rightarrow> nat \<Rightarrow> nat \<Rightarrow> chunk_task \<Rightarrow> bool" where
  "task_in rd lo hi t \<longleftrightarrow>
     lo \<le> tk_index t * er_chunk_size rd + tk_beg t \<and> tk_beg t < tk_end t \<and>
     tk_index t * er_chunk_size rd + tk_end t \<le> hi"

lemma make_tasks_ok:
  assumes ok: "addressable rd" and "offset \<le> buf_end" and be: "buf_end \<le> er_image_size rd" "length img = er_image_size rd"
    and "offset < buf_end \<Longrightarrow> cdiv buf_end (er_chunk_size rd) \<le> n + offset div er_chunk_size rd"
  shows "\<exists>ts. make_tasks rd buf_end n offset = Ok ts \<and> length ts \<le> n \<and>
    (\<forall>t \<in> set ts. task_ok rd t \<and> task_in rd offset buf_end t) \<and>
    concat (map (task_bytes rd img) ts) = sub_list img offset (buf_end - offset)"
  using assms(2,5)
proof (induction n arbitrary: offset)
  case 0
  have cs: "0 < er_chunk_size rd" using ok by (simp add: addressable_def e01_reader_ok_def)
  have "\<not> offset < buf_end"
  proof
    assume "offset < buf_end"
    then have "cdiv buf_end (er_chunk_size rd) \<le> offset div er_chunk_size rd" using 0(2) by simp
    then have "buf_end \<le> (offset div er_chunk_size rd) * er_chunk_size rd"
      using cdiv_covers [OF cs, of buf_end] mult_le_mono1 le_trans by blast
    also have "\<dots> \<le> offset" by simp
    finally show False using \<open>offset < buf_end\<close> by simp
  qed
  then show ?case by simp
next
  case (Suc n)
  show ?case
  proof (cases "offset < buf_end")
    case True
    let ?cs = "er_chunk_size rd" and ?i = "offset div er_chunk_size rd"
    let ?o = "min ((?i + 1) * ?cs) buf_end"
    have cs: "0 < ?cs" and lim: "er_image_size rd < u64_lim" using ok by (auto simp: addressable_def e01_reader_ok_def)
    have lo: "?i * ?cs \<le> offset" by simp
    have hi: "offset < (?i + 1) * ?cs" using dividend_less_div_times [OF cs, of offset] by simp
    obtain t where t: "next_task rd buf_end offset = Ok (t, ?o - offset)" "task_ok rd t" "tk_index t = ?i"
      "tk_beg t = offset - ?i * ?cs" "tk_end t = ?o - ?i * ?cs"
      using next_task_eq [OF ok True be(1)] by blast
    have o: "offset < ?o" "?o \<le> buf_end" using hi True by auto
    have add: "u64_add offset (?o - offset) = ?o" using o be(1) lim by (subst u64_add_exact) linarith+
    have "?o < buf_end \<Longrightarrow> ?o div ?cs = ?i + 1" using cs by (simp add: min_def split: if_splits)
    then have "?o < buf_end \<Longrightarrow> cdiv buf_end ?cs \<le> n + ?o div ?cs" using Suc.prems(2) True by simp
    then obtain ts where ts: "make_tasks rd buf_end n ?o = Ok ts" "length ts \<le> n"
      "\<forall>t \<in> set ts. task_ok rd t \<and> task_in rd ?o buf_end t"
      "concat (map (task_bytes rd img) ts) = sub_list img ?o (buf_end - ?o)"
      using Suc.IH [OF o(2)] by blast
    have "task_bytes rd img t = sub_list img offset (?o - offset)" using t(3-5) lo o by (simp add: task_bytes_def)
    then have "concat (map (task_bytes rd img) (t # ts)) = sub_list img offset (buf_end - offset)"
      using ts(4) o sub_list_append [of img offset "?o - offset" "buf_end - ?o"] by simp
    moreover have "make_tasks rd buf_end (Suc n) offset = Ok (t # ts)" using True t(1) add ts(1) by simp
    moreover have "task_in rd offset buf_end t"
      unfolding task_in_def t(3-5) using lo o diff_less_mono [OF o(1) lo] by linarith
    moreover have "\<forall>t \<in> set ts. task_in rd offset buf_end t" using ts(3) o(1) by (fastforce simp: task_in_def)
    ultimately show ?thesis using ts(2,3) t(2) by (intro exI [of _ "t # ts"]) simp
  next
    case False
    then show ?thesis using Suc.prems(1) by simp
  qed
qed

text \<open>A read over any workers and cache that meet the contract.\<close>

lemma length_checkout:
  "checkout_workers rd n pool = (ws, pool') \<Longrightarrow> length ws = n \<and> set ws \<subseteq> insert (new_worker rd) (set pool) \<and> set pool' \<subseteq> set pool"
  by (auto simp: checkout_workers_def Let_def dest: in_set_dropD in_set_takeD)

context chunk_reader
begin

lemma probe_hits_ok: "C (Some d) \<Longrightarrow> C (Some (probe_hits is' d))"
proof (induction is' d rule: probe_hits.induct)
  case (2 i is' d)
  have "C (Some (snd (dcc_get d i)))" by (rule probe [OF "2.prems"])
  then show ?case using "2.IH" by (auto split: prod.splits option.splits)
qed simp

lemma read_ok:
  assumes rd: "addressable rd" "length img = er_image_size rd" "\<And>t. task_ok rd t \<Longrightarrow> T t"
    and W: "W (new_worker rd)" "\<forall>w \<in> set (st_worker_pool st). W w" and C: "C (st_decoded st)"
    and off: "offset \<le> er_image_size rd" "offset + n < u64_lim"
  shows "\<exists>ts r st'. e01_read_at_offset ry k c spoil rd st offset n = (r, st') \<and>
    (\<forall>t \<in> set ts. task_ok rd t \<and> task_in rd offset (min (offset + n) (er_image_size rd)) t) \<and>
    concat (map (task_bytes rd img) ts) = sub_list img offset (min n (er_image_size rd - offset)) \<and>
    outcome ts r \<and> C (st_decoded st') \<and> (\<forall>w \<in> set (st_worker_pool st'). W w)"
proof -
  let ?cs = "er_chunk_size rd" and ?n = "min n (er_image_size rd - offset)"
  let ?e = "offset + ?n"
  have cs: "0 < ?cs" and lim: "er_image_size rd < u64_lim" using rd(1) by (auto simp: addressable_def e01_reader_ok_def)
  have n: "(if u64_add offset n > er_image_size rd then er_image_size rd - offset else n) = ?n" using off by auto
  have e: "u64_add offset ?n = ?e" "?e \<le> er_image_size rd" using off lim by auto
  have ei: "u64_add (?e div ?cs) (min (?e mod ?cs) 1) = cdiv ?e ?cs"
    using cdiv_le [OF cs, of ?e] e(2) lim unfolding cdiv_def by (intro u64_add_exact) linarith
  have le: "offset div ?cs \<le> cdiv ?e ?cs"
    using div_le_mono [of offset ?e ?cs] by (simp add: cdiv_def)
  define dc where "dc = (if er_io_log rd then map_option (probe_hits [offset div ?cs ..< cdiv ?e ?cs]) (st_decoded st)
    else st_decoded st)"
  have Cdc: "C dc" using C by (cases "st_decoded st") (auto simp: dc_def probe_hits_ok)
  obtain ws pool where co: "checkout_workers rd (u64_sub (cdiv ?e ?cs) (offset div ?cs)) (st_worker_pool st) = (ws, pool)"
    by fastforce
  have ws: "length ws = cdiv ?e ?cs - offset div ?cs" "\<forall>w \<in> set ws. W w" "\<forall>w \<in> set pool. W w"
    using length_checkout [OF co] W le by auto
  obtain ts where ts: "make_tasks rd ?e (length ws) offset = Ok ts" "length ts \<le> length ws"
    "\<forall>t \<in> set ts. task_ok rd t \<and> task_in rd offset ?e t"
    "concat (map (task_bytes rd img) ts) = sub_list img offset (?e - offset)"
    using make_tasks_ok [OF rd(1) _ e(2) rd(2), of offset "length ws"] ws(1) le by auto
  let ?tws = "zip ts ws"
  have tw: "\<forall>(t, w) \<in> set ?tws. T t \<and> W w" using ts(3) rd(3) ws(2) by (auto dest: set_zip_leftD set_zip_rightD)
  have mf: "map fst ?tws = ts" using ts(2) by (simp add: map_fst_zip_take)
  obtain r ws' dc' where run: "(if er_parallel_chunk_reads rd \<and> length ts > 1 then run_parallel ry k c spoil ?tws dc
      else run_serial k c spoil ?tws dc) = (r, (ws', dc'))" by (metis prod.exhaust)
  have o: "outcome ts r \<and> (\<forall>w \<in> set ws'. W w) \<and> C dc'"
    using serial_ok [OF tw Cdc] parallel_ok [OF tw Cdc] run mf by (auto split: if_splits)
  have "e01_read_at_offset ry k c spoil rd st offset n =
      (r, \<lparr>st_worker_pool = (if r = Panic then pool else return_workers (ws' @ drop (length ts) ws) pool), st_decoded = dc'\<rparr>)"
    unfolding e01_read_at_offset_def Let_def n e(1) ei dc_def [symmetric] co
    using off(1) cs ts(1) run by simp
  moreover have "min (offset + n) (er_image_size rd) = ?e" using off(1) by simp
  ultimately show ?thesis
    using ts(3,4) o ws(2,3) by (intro exI [of _ ts]) (auto simp: return_workers_def dest: in_set_dropD)
qed

end

subsection \<open>Images whose chunks are all there\<close>

definition worker_for :: "e01_reader \<Rightarrow> read_worker \<Rightarrow> bool" where
  "worker_for rd w \<longleftrightarrow> worker_ok w \<and> same_settings (new_worker rd) w"

text \<open>The image \<open>img\<close>, chunk \<open>i\<close> of which is stored as the beginning of \<open>D i\<close>.\<close>

definition e01_holds ::
    "codec \<Rightarrow> (bytes \<Rightarrow> bytes) \<Rightarrow> (bytes \<Rightarrow> nat) \<Rightarrow> cache \<Rightarrow> e01_reader \<Rightarrow> (nat \<Rightarrow> bytes) \<Rightarrow> bytes \<Rightarrow> bool" where
  "e01_holds k deflate adl c rd D img \<longleftrightarrow>
     codec_ok k deflate adl \<and> addressable rd \<and> length img = er_image_size rd \<and>
     (\<forall>i < length (er_chunks rd). i * er_chunk_size rd < er_image_size rd \<longrightarrow>
        (\<exists>fl. serves c (ch_segment (er_chunks rd ! i)) fl \<and> stored_chunk deflate adl fl (er_chunks rd ! i) (D i) \<and>
           ch_end_offset (er_chunks rd ! i) - ch_data_offset (er_chunks rd ! i) \<le> er_chunk_size rd + 4 \<and>
           part rd i \<le> length (D i) \<and>
           take (part rd i) (D i) = sub_list img (i * er_chunk_size rd) (part rd i)))"

definition holds_decoded ::
    "codec \<Rightarrow> (bytes \<Rightarrow> bytes) \<Rightarrow> (bytes \<Rightarrow> nat) \<Rightarrow> cache \<Rightarrow> e01_reader \<Rightarrow> (nat \<Rightarrow> bytes) \<Rightarrow> bytes \<Rightarrow>
      decoded_chunk_cache option \<Rightarrow> bool" where
  "holds_decoded k deflate adl c rd D img dc \<longleftrightarrow>
     e01_holds k deflate adl c rd D img \<and> (\<forall>d. dc = Some d \<longrightarrow> cache_sound (part rd) D d)"

lemma worker_forD:
  "worker_for rd w \<Longrightarrow> worker_ok w \<and> w_chunk_size w = er_chunk_size rd \<and> w_image_end w = er_image_size rd"
  by (simp add: worker_for_def same_settings_def new_worker_def worker_new_def)

lemma worker_for_same: "worker_for rd w \<Longrightarrow> worker_ok w' \<Longrightarrow> same_settings w w' \<Longrightarrow> worker_for rd w'"
  by (simp add: worker_for_def same_settings_def)

lemma new_worker_for: "addressable rd \<Longrightarrow> worker_for rd (new_worker rd)"
  by (simp add: worker_for_def new_worker_def worker_new_ok same_settings_def addressable_def e01_reader_ok_def)

lemma decoded_len_part:
  assumes "addressable rd" "worker_for rd w" "i * er_chunk_size rd < er_image_size rd"
  shows "decoded_len w i = part rd i"
proof -
  have "i * er_chunk_size rd < u64_lim" using assms(1,3) by (simp add: addressable_def e01_reader_ok_def)
  then show ?thesis using worker_forD [OF assms(2)] assms(3) by (simp add: decoded_len_def part_def min.commute)
qed

lemma tk_len_eq: "task_ok rd t \<Longrightarrow> tk_len t = tk_end t - tk_beg t"
  by (simp add: task_ok_def tk_len_def)

text \<open>What a task that is made finds in such an image.\<close>

lemma task_facts:
  assumes "e01_holds k deflate adl c rd D img" "task_ok rd t" "worker_for rd w"
  obtains fl where "codec_ok k deflate adl" "src_serves (task_source c spoil t) fl"
    "stored_chunk deflate adl fl (tk_chunk t) (D (tk_index t))"
    "ch_end_offset (tk_chunk t) - ch_data_offset (tk_chunk t) \<le> w_chunk_size w + 4"
    "decoded_len w (tk_index t) = part rd (tk_index t)" "part rd (tk_index t) \<le> length (D (tk_index t))"
proof -
  have t: "tk_index t < length (er_chunks rd)" "tk_chunk t = er_chunks rd ! tk_index t"
    "tk_index t * er_chunk_size rd < er_image_size rd" using assms(2) by (auto simp: task_ok_def)
  obtain fl where fl: "serves c (ch_segment (tk_chunk t)) fl" "stored_chunk deflate adl fl (tk_chunk t) (D (tk_index t))"
    "ch_end_offset (tk_chunk t) - ch_data_offset (tk_chunk t) \<le> er_chunk_size rd + 4"
    "part rd (tk_index t) \<le> length (D (tk_index t))"
    using assms(1) t unfolding e01_holds_def by metis
  have "decoded_len w (tk_index t) = part rd (tk_index t)"
    using assms t(3) by (intro decoded_len_part) (auto simp: e01_holds_def)
  moreover have "src_serves (task_source c spoil t) fl"
    unfolding task_source_def by (rule cache_worker_source_serves [OF fl(1)])
  moreover have "codec_ok k deflate adl" using assms(1) by (simp add: e01_holds_def)
  ultimately show thesis
    using that [of fl] fl worker_forD [OF assms(3)] by simp
qed

lemma task_bytes_eq:
  assumes "e01_holds k deflate adl c rd D img" "task_ok rd t"
  shows "sub_list (D (tk_index t)) (tk_beg t) (tk_end t - tk_beg t) = task_bytes rd img t"
proof -
  let ?i = "tk_index t" and ?b = "tk_beg t" and ?m = "tk_end t - tk_beg t"
  have t: "?i < length (er_chunks rd)" "?i * er_chunk_size rd < er_image_size rd" "tk_beg t \<le> tk_end t"
    "tk_end t \<le> part rd ?i" using assms(2) by (auto simp: task_ok_def)
  have eq: "take (part rd ?i) (D ?i) = sub_list img (?i * er_chunk_size rd) (part rd ?i)"
    using assms(1) t by (auto simp: e01_holds_def)
  have "sub_list (D ?i) ?b ?m = sub_list (take (part rd ?i) (D ?i)) ?b ?m"
    using t(3,4) by (simp add: sub_list_def drop_take)
  also have "\<dots> = sub_list img (?i * er_chunk_size rd + ?b) ?m"
    unfolding eq using t(3,4) by (simp add: sub_list_def drop_take add.commute)
  finally show ?thesis by (simp add: task_bytes_def)
qed

interpretation exact: chunk_reader k c spoil "task_ok rd" "worker_for rd" "holds_decoded k deflate adl c rd D img"
  "\<lambda>t r. r = Ok (task_bytes rd img t)" for k c spoil rd deflate adl D img
proof unfold_locales
  fix t w r w'
  assume t: "task_ok rd t" and w: "worker_for rd w" and c: "holds_decoded k deflate adl c rd D img None"
    and r: "worker_read k (task_source c spoil t) (tk_chunk t) (tk_index t) (tk_len t) (tk_beg t) (tk_end t) w = (r, w')"
  have h: "e01_holds k deflate adl c rd D img" using c by (simp add: holds_decoded_def)
  have be: "tk_beg t \<le> tk_end t" "tk_end t \<le> part rd (tk_index t)" using t by (auto simp: task_ok_def)
  obtain fl where f: "codec_ok k deflate adl" "src_serves (task_source c spoil t) fl"
    "stored_chunk deflate adl fl (tk_chunk t) (D (tk_index t))"
    "ch_end_offset (tk_chunk t) - ch_data_offset (tk_chunk t) \<le> w_chunk_size w + 4"
    "decoded_len w (tk_index t) = part rd (tk_index t)" "part rd (tk_index t) \<le> length (D (tk_index t))"
    by (rule task_facts [OF h t w])
  have "\<exists>w'. worker_read k (task_source c spoil t) (tk_chunk t) (tk_index t) (tk_end t - tk_beg t) (tk_beg t) (tk_end t) w =
      (Ok (sub_list (D (tk_index t)) (tk_beg t) (tk_end t - tk_beg t)), w') \<and> worker_ok w' \<and> same_settings w w'"
    using worker_read_lemma [OF f(1,2) _ f(3,4)] worker_forD [OF w] f(5,6) be by simp
  then show "r = Ok (task_bytes rd img t) \<and> worker_for rd w'"
    using r tk_len_eq [OF t] task_bytes_eq [OF h t] worker_for_same [OF w] by auto
next
  fix t dc x dc'
  assume t: "task_ok rd t" and c: "holds_decoded k deflate adl c rd D img (Some dc)"
    and l: "cached_lookup (tk_index t) (tk_len t) (tk_beg t) (tk_end t) dc = (x, dc')"
  have h: "e01_holds k deflate adl c rd D img" "cache_sound (part rd) D dc" using c by (auto simp: holds_decoded_def)
  show "holds_decoded k deflate adl c rd D img (Some dc') \<and> (\<forall>r. x = Some r \<longrightarrow> r = Ok (task_bytes rd img t))"
    using cached_lookup_sound [OF h(2) l [unfolded tk_len_eq [OF t]]] t task_bytes_eq [OF h(1) t] h(1)
    by (simp add: task_ok_def holds_decoded_def)
next
  fix t w dc len r w' dc'
  assume t: "task_ok rd t" and w: "worker_for rd w" and c: "holds_decoded k deflate adl c rd D img (Some dc)"
    and len: "checked_chunk_len w (tk_chunk t) (tk_index t) = Ok len"
    and r: "read_cached_fetch k (task_source c spoil t) (tk_chunk t) (tk_index t) len (tk_len t) (tk_beg t) (tk_end t) (w, dc) =
      (r, w', dc')"
  have h: "e01_holds k deflate adl c rd D img" "cache_sound (part rd) D dc" using c by (auto simp: holds_decoded_def)
  have be: "tk_beg t \<le> tk_end t" "tk_end t \<le> part rd (tk_index t)" using t by (auto simp: task_ok_def)
  obtain fl where f: "codec_ok k deflate adl" "src_serves (task_source c spoil t) fl"
    "stored_chunk deflate adl fl (tk_chunk t) (D (tk_index t))"
    "decoded_len w (tk_index t) = part rd (tk_index t)" "part rd (tk_index t) \<le> length (D (tk_index t))"
    by (rule task_facts [OF h(1) t w])
  have "exact_step (part rd) D (tk_index t) (tk_beg t) (tk_end t) w (r, w', dc')"
    using read_cached_fetch_exact [where D = D and n = "part rd", OF f(1,2) _ f(3) len f(4,5) be h(2)]
      worker_forD [OF w] r tk_len_eq [OF t] by simp
  then show "r = Ok (task_bytes rd img t) \<and> worker_for rd w' \<and> holds_decoded k deflate adl c rd D img (Some dc')"
    using task_bytes_eq [OF h(1) t] worker_for_same [OF w] h(1) by (auto simp: exact_step_def holds_decoded_def)
next
  fix t w odc e
  assume t: "task_ok rd t" and w: "worker_for rd w" and c: "holds_decoded k deflate adl c rd D img odc"
    and err: "checked_chunk_len w (tk_chunk t) (tk_index t) = Err e"
  have h: "e01_holds k deflate adl c rd D img" using c by (simp add: holds_decoded_def)
  obtain fl where "stored_chunk deflate adl fl (tk_chunk t) (D (tk_index t))"
    "ch_end_offset (tk_chunk t) - ch_data_offset (tk_chunk t) \<le> w_chunk_size w + 4"
    by (rule task_facts [OF h t w])
  then have "checked_chunk_len w (tk_chunk t) (tk_index t) = Ok (ch_end_offset (tk_chunk t) - ch_data_offset (tk_chunk t))"
    using checked_chunk_len_Ok worker_forD [OF w] by (auto simp: stored_chunk_def)
  then show "Err e = Ok (task_bytes rd img t)" using err by simp
next
  fix dc i
  assume "holds_decoded k deflate adl c rd D img (Some dc)"
  then show "holds_decoded k deflate adl c rd D img (Some (snd (dcc_get dc i)))"
    by (auto simp: holds_decoded_def dcc.sound_get)
qed

text \<open>What an open reader keeps between reads.\<close>

definition e01_state_ok ::
    "codec \<Rightarrow> (bytes \<Rightarrow> bytes) \<Rightarrow> (bytes \<Rightarrow> nat) \<Rightarrow> cache \<Rightarrow> e01_reader \<Rightarrow> (nat \<Rightarrow> bytes) \<Rightarrow> bytes \<Rightarrow> e01_state \<Rightarrow> bool" where
  "e01_state_ok k deflate adl c rd D img st \<longleftrightarrow>
     holds_decoded k deflate adl c rd D img (st_decoded st) \<and> (\<forall>w \<in> set (st_worker_pool st). worker_for rd w)"

lemma list_all2_bytes: "list_all2 (\<lambda>t b. b = f t) ts bss \<Longrightarrow> bss = map f ts"
  by (induction ts bss rule: list_all2_induct) auto

lemma e01_read_lemma:
  assumes "e01_state_ok k deflate adl c rd D img st" "offset \<le> er_image_size rd" "offset + n < u64_lim"
  shows "\<exists>st'. e01_read_at_offset ry k c spoil rd st offset n =
      (Ok (sub_list img offset (min n (er_image_size rd - offset))), st') \<and> e01_state_ok k deflate adl c rd D img st'"
proof -
  have h: "e01_holds k deflate adl c rd D img" "holds_decoded k deflate adl c rd D img (st_decoded st)"
    "\<forall>w \<in> set (st_worker_pool st). worker_for rd w"
    using assms(1) by (auto simp: e01_state_ok_def holds_decoded_def)
  have rd: "addressable rd" "length img = er_image_size rd" using h(1) by (auto simp: e01_holds_def)
  obtain ts r st' where r: "e01_read_at_offset ry k c spoil rd st offset n = (r, st')"
    "concat (map (task_bytes rd img) ts) = sub_list img offset (min n (er_image_size rd - offset))"
    "exact.outcome rd img ts r" "holds_decoded k deflate adl c rd D img (st_decoded st')"
    "\<forall>w \<in> set (st_worker_pool st'). worker_for rd w"
    using exact.read_ok [OF rd _ new_worker_for [OF rd(1)] h(3,2) assms(2,3)] by blast
  have "r = Ok (concat (map (task_bytes rd img) ts))"
    using r(3) unfolding exact.outcome_def by (cases r) (auto dest: list_all2_bytes)
  then show ?thesis using r by (auto simp: e01_state_ok_def)
qed

text \<open>C31: a read of an E01 image whose chunks are all stored as the format has them gives exactly the bytes of the
  image from the offset, cut at the end of the image, across chunks and segments, compressed and
  uncompressed, with and without the cache of decoded chunks, serially and for every interleaving of
  the parallel tasks; workers and cache stay right for the next read.  A read that begins beyond the end
  is an error that says so.\<close>

theorem e01_read_exact:
  assumes "e01_state_ok k deflate adl c rd D img st" "offset + n < u64_lim"
  shows "\<exists>st'. e01_state_ok k deflate adl c rd D img st' \<and>
    e01_read_at_offset ry k c spoil rd st offset n =
      (if offset \<le> length img then Ok (sub_list img offset (min n (length img - offset)))
       else Err \<lparr>re_path = None, re_source = OffsetBeyondEnd offset (length img)\<rparr>, st')"
proof -
  have len: "length img = er_image_size rd"
    using assms(1) by (simp add: e01_state_ok_def holds_decoded_def e01_holds_def)
  show ?thesis
  proof (cases "offset \<le> length img")
    case True
    then show ?thesis using e01_read_lemma [OF assms(1) _ assms(2)] len by auto
  next
    case False
    then show ?thesis using assms(1) len by (auto simp: e01_read_at_offset_def)
  qed
qed

subsection \<open>Arbitrary images\<close>

definition cache_total :: "cache \<Rightarrow> (nat \<Rightarrow> bytes \<Rightarrow> bytes) \<Rightarrow> bool" where
  "cache_total c spoil \<longleftrightarrow>
     (\<forall>idx off n. cache_read c idx off n \<noteq> Panic) \<and>
     (\<forall>idx off n bs. cache_read c idx off n = Ok bs \<longrightarrow> length bs = n) \<and> (\<forall>off bs. length (spoil off bs) = length bs)"

lemma cache_total_src: "cache_total c spoil \<Longrightarrow> src_total (task_source c spoil t)"
  unfolding cache_total_def src_total_def task_source_def cache_worker_source_def
  by (auto split: result.splits)

text \<open>How many bytes of its part of the image chunk \<open>i\<close> has: an uncompressed chunk may be too short, which the
  code does not check.\<close>

definition stored_part :: "e01_reader \<Rightarrow> nat \<Rightarrow> nat" where
  "stored_part rd i =
     (let ch = er_chunks rd ! i in
      if \<not> ch_compressed ch \<and> ch_data_offset ch \<le> ch_end_offset ch
      then min (part rd i) (ch_end_offset ch - ch_data_offset ch - 4) else part rd i)"

definition safe_decoded ::
    "codec \<Rightarrow> cache \<Rightarrow> (nat \<Rightarrow> bytes \<Rightarrow> bytes) \<Rightarrow> e01_reader \<Rightarrow> decoded_chunk_cache option \<Rightarrow> bool" where
  "safe_decoded k c spoil rd dc \<longleftrightarrow>
     codec_total k \<and> cache_total c spoil \<and> addressable rd \<and> (\<exists>d. dc = Some d \<and> cache_long (stored_part rd) d)"

definition task_beyond :: "chunk_task \<Rightarrow> bool" where
  "task_beyond t \<longleftrightarrow>
     \<not> ch_compressed (tk_chunk t) \<and> ch_data_offset (tk_chunk t) \<le> ch_end_offset (tk_chunk t) \<and>
     ch_end_offset (tk_chunk t) < ch_data_offset (tk_chunk t) + tk_end t + 4"

definition safe_answer :: "chunk_task \<Rightarrow> (bytes, read_error_kind) result \<Rightarrow> bool" where
  "safe_answer t r \<longleftrightarrow> answers (tk_len t) r \<or> r = Panic \<and> task_beyond t"

lemma task_within:
  assumes "task_ok rd t" "\<not> task_beyond t"
  shows "tk_end t \<le> stored_part rd (tk_index t)"
  using assms by (auto simp: task_ok_def task_beyond_def stored_part_def Let_def)

lemma copy_answers: "b \<le> e \<Longrightarrow> answers (e - b) (copy_from_slice (e - b) v b e) \<or> copy_from_slice (e - b) v b e = Panic"
  by (cases "e \<le> length v") (simp_all add: answers_def copy_long copy_from_slice_def slice_def)

lemma lookup_safe:
  assumes t: "task_ok rd t" and c: "cache_long (stored_part rd) dc"
    and l: "cached_lookup (tk_index t) (tk_len t) (tk_beg t) (tk_end t) dc = (x, dc')"
  shows "cache_long (stored_part rd) dc' \<and> (\<forall>r. x = Some r \<longrightarrow> safe_answer t r)"
proof (cases "task_beyond t")
  case True
  obtain g where g: "dcc_get dc (tk_index t) = (g, dc')"
    "x = map_option (\<lambda>ch. copy_from_slice (tk_len t) ch (tk_beg t) (tk_end t)) g"
    using l by (auto simp: cached_lookup_def split: prod.splits option.splits)
  have "cache_long (stored_part rd) dc'" using dcc.sound_get [OF c, of "tk_index t"] g(1) by simp
  then show ?thesis
    using g(2) True t copy_answers [of "tk_beg t" "tk_end t"] tk_len_eq [OF t]
    by (auto simp: safe_answer_def task_ok_def)
next
  case False
  then show ?thesis
    using cached_lookup_safe [OF c l [unfolded tk_len_eq [OF t]]] task_within [OF t] t tk_len_eq [OF t]
    by (auto simp: task_ok_def safe_answer_def)
qed

lemma uncompressed_fetch_safe:
  assumes k: "codec_total k" and src: "src_total src" and c: "cache_long n c"
    and ch: "\<not> ch_compressed ch" and n: "n i \<le> len - 4" and be: "b \<le> e"
    and out: "read_cached_fetch k src ch i len (e - b) b e (w, c) = (r, (w', c'))"
  shows "w' = w \<and> cache_long n c' \<and> (answers (e - b) r \<or> r = Panic \<and> len < e + 4)"
proof -
  let ?r = "uncompressed_chunk k src (w_policy w) i (ch_data_offset ch) len"
  have o: "w' = w" "copy_and_insert i (e - b) b e ?r c = (r, c')"
    using out ch by (auto simp: read_cached_fetch_def uncompressed_fetch_def split: prod.splits)
  show ?thesis
  proof (cases ?r)
    case (Ok v)
    have v: "length v + 4 = len" by (rule uncompressed_chunk_safe(2) [OF k src Ok])
    show ?thesis
    proof (cases "e \<le> length v")
      case True
      then have "r = Ok (sub_list v b (e - b))" "c' = dcc_insert c i v"
        using o(2) Ok be by (simp_all add: copy_and_insert_def copy_long)
      then show ?thesis
        using o(1) v n be True dcc.sound_put [OF c, of i v] by (simp add: answers_def sub_list_def)
    next
      case False
      then have "copy_from_slice (e - b) v b e = (Panic :: (bytes, read_error_kind) result)"
        by (simp add: copy_from_slice_def slice_def)
      then show ?thesis using o Ok v False c by (simp add: copy_and_insert_def)
    qed
  next
    case (Err x)
    then have "r = Err x" "c' = c" using o(2) by (simp_all add: copy_and_insert_def)
    then show ?thesis using o(1) c by (simp add: answers_def)
  qed (use uncompressed_chunk_safe(1) [OF k src] in blast)
qed

lemma fetch_safe:
  assumes t: "task_ok rd t" and w: "worker_for rd w" and c: "safe_decoded k c spoil rd (Some dc)"
    and len: "checked_chunk_len w (tk_chunk t) (tk_index t) = Ok len"
    and r: "read_cached_fetch k (task_source c spoil t) (tk_chunk t) (tk_index t) len (tk_len t) (tk_beg t) (tk_end t) (w, dc) =
      (r, w', dc')"
  shows "safe_answer t r \<and> worker_for rd w' \<and> safe_decoded k c spoil rd (Some dc')"
proof -
  let ?i = "tk_index t"
  have ti: "tk_chunk t = er_chunks rd ! ?i" "?i * er_chunk_size rd < er_image_size rd"
    "tk_beg t \<le> tk_end t" "tk_end t \<le> part rd ?i" using t by (auto simp: task_ok_def)
  have s: "codec_total k" "src_total (task_source c spoil t)" "cache_long (stored_part rd) dc" "addressable rd"
    using c cache_total_src by (auto simp: safe_decoded_def)
  have wk: "worker_ok w" using worker_forD [OF w] by simp
  have l: "len = ch_end_offset (tk_chunk t) - ch_data_offset (tk_chunk t)" "len \<le> w_chunk_size w + 4"
    "ch_data_offset (tk_chunk t) \<le> ch_end_offset (tk_chunk t)"
    using len checked_chunk_len_Ok [OF wk] by auto
  show ?thesis
  proof (cases "ch_compressed (tk_chunk t)")
    case True
    then have p: "stored_part rd ?i = part rd ?i" using ti(1) by (simp add: stored_part_def Let_def)
    have "safe_step (stored_part rd) (tk_len t) w (r, w', dc')"
      using read_cached_fetch_safe [OF s(1,2) wk s(3) l(2), of "tk_chunk t" ?i "tk_beg t" "tk_end t"] True
        decoded_len_part [OF s(4) w ti(2)] ti(3,4) r tk_len_eq [OF t] p
      by simp
    then show ?thesis
      using worker_for_same [OF w] c by (auto simp: safe_step_def safe_decoded_def safe_answer_def)
  next
    case False
    have n: "stored_part rd ?i \<le> len - 4" using False ti(1) l by (simp add: stored_part_def Let_def)
    have "w' = w \<and> cache_long (stored_part rd) dc' \<and> (answers (tk_end t - tk_beg t) r \<or> r = Panic \<and> len < tk_end t + 4)"
      by (rule uncompressed_fetch_safe [where n = "stored_part rd", OF s(1-3) False n ti(3)])
        (use r tk_len_eq [OF t] in simp)
    then show ?thesis
      using w c l False tk_len_eq [OF t] by (auto simp: safe_answer_def safe_decoded_def task_beyond_def)
  qed
qed

interpretation safe: chunk_reader k c spoil "task_ok rd" "worker_for rd" "safe_decoded k c spoil rd" safe_answer
  for k c spoil rd
proof unfold_locales
  fix t dc x dc'
  assume "task_ok rd t" "safe_decoded k c spoil rd (Some dc)"
    "cached_lookup (tk_index t) (tk_len t) (tk_beg t) (tk_end t) dc = (x, dc')"
  then show "safe_decoded k c spoil rd (Some dc') \<and> (\<forall>r. x = Some r \<longrightarrow> safe_answer t r)"
    using lookup_safe by (auto simp: safe_decoded_def)
next
  fix t w dc len r w' dc'
  assume "task_ok rd t" "worker_for rd w" "safe_decoded k c spoil rd (Some dc)"
    "checked_chunk_len w (tk_chunk t) (tk_index t) = Ok len"
    "read_cached_fetch k (task_source c spoil t) (tk_chunk t) (tk_index t) len (tk_len t) (tk_beg t) (tk_end t) (w, dc) =
      (r, w', dc')"
  then show "safe_answer t r \<and> worker_for rd w' \<and> safe_decoded k c spoil rd (Some dc')" by (rule fetch_safe)
next
  fix dc i
  assume "safe_decoded k c spoil rd (Some dc)"
  then show "safe_decoded k c spoil rd (Some (snd (dcc_get dc i)))"
    by (auto simp: safe_decoded_def dcc.sound_get)
qed (auto simp: safe_decoded_def answers_def safe_answer_def)

lemma task_bytes_length:
  assumes "task_ok rd t"
  shows "length (task_bytes rd (replicate (er_image_size rd) x) t) = tk_end t - tk_beg t"
proof -
  have "tk_end t \<le> er_image_size rd - tk_index t * er_chunk_size rd" "tk_beg t \<le> tk_end t"
    using assms by (auto simp: task_ok_def part_def)
  then show ?thesis by (simp add: task_bytes_def sub_list_def)
qed

lemma safe_length:
  assumes "list_all2 (\<lambda>t b. safe_answer t (Ok b)) ts bss" "\<forall>t \<in> set ts. task_ok rd t"
    "concat (map (task_bytes rd (replicate (er_image_size rd) x)) ts) = sub_list (replicate (er_image_size rd) x) offset m"
    "offset + m \<le> er_image_size rd"
  shows "length (concat bss) = m"
proof -
  have "length (concat bss) = length (concat (map (task_bytes rd (replicate (er_image_size rd) x)) ts))"
    using assms(1,2)
    by (induction ts bss rule: list_all2_induct) (simp_all add: safe_answer_def answers_def task_bytes_length tk_len_eq [of rd])
  then show ?thesis using assms(3,4) by simp
qed

text \<open>Where a task panics: at its last byte at the latest.\<close>

lemma task_beyond_at:
  assumes "task_ok rd t" "task_in rd offset hi t" "task_beyond t" and cs: "0 < er_chunk_size rd"
  shows "\<exists>p \<ge> offset. p < hi \<and>
    (let ch = er_chunks rd ! (p div er_chunk_size rd)
     in \<not> ch_compressed ch \<and> ch_data_offset ch \<le> ch_end_offset ch \<and>
        ch_end_offset ch \<le> ch_data_offset ch + p mod er_chunk_size rd + 4)"
proof -
  let ?cs = "er_chunk_size rd"
  have t: "tk_beg t < tk_end t" "tk_end t \<le> ?cs" "tk_chunk t = er_chunks rd ! tk_index t"
    using assms(1,2) by (auto simp: task_ok_def task_in_def part_def)
  then obtain q where q: "tk_end t = Suc q" "q < ?cs" by (cases "tk_end t") auto
  let ?p = "tk_index t * ?cs + q"
  have "?p div ?cs = tk_index t" "?p mod ?cs = q" using q(2) by simp_all
  moreover have "offset \<le> ?p" "?p < hi" using assms(2) q(1) by (auto simp: task_in_def)
  ultimately show ?thesis
    using assms(3) t(3) q(1) by (intro exI [of _ ?p]) (simp add: task_beyond_def Let_def)
qed

text \<open>C32: a read of an open image through the cache of decoded chunks, whatever bytes the segment files hold and in
  whatever order the parallel tasks run.  It gives as many bytes as were asked for and lie within the
  image, or an error.  It panics only when one of these bytes lies beyond the data of its chunk,
  an uncompressed one that is too short, which nothing checks (C39).  After an answer or an error workers and
  cache can be used again, so this holds for every later read too.  Decompression and the
  block cache have to be total, and the image has to end a chunk before the largest 64-bit
  offset.\<close>

theorem e01_read_panics_only_beyond_data:
  assumes "codec_total k" "cache_total c spoil" "addressable rd"
    and "st_decoded st = Some d" "cache_long (stored_part rd) d" "\<forall>w \<in> set (st_worker_pool st). worker_for rd w"
    and "offset + n < u64_lim"
  shows "\<exists>r st'. e01_read_at_offset ry k c spoil rd st offset n = (r, st') \<and>
    (\<forall>bs. r = Ok bs \<longrightarrow> offset \<le> er_image_size rd \<and> length bs = min n (er_image_size rd - offset)) \<and>
    (r = Panic \<longrightarrow> (\<exists>p \<ge> offset. p < min (offset + n) (er_image_size rd) \<and>
       (let ch = er_chunks rd ! (p div er_chunk_size rd)
        in \<not> ch_compressed ch \<and> ch_data_offset ch \<le> ch_end_offset ch \<and>
           ch_end_offset ch \<le> ch_data_offset ch + p mod er_chunk_size rd + 4))) \<and>
    (r \<noteq> Panic \<longrightarrow> (\<exists>d'. st_decoded st' = Some d' \<and> cache_long (stored_part rd) d') \<and>
       (\<forall>w \<in> set (st_worker_pool st'). worker_for rd w))"
proof (cases "offset \<le> er_image_size rd")
  case True
  have dc: "safe_decoded k c spoil rd (st_decoded st)" using assms(1-5) by (simp add: safe_decoded_def)
  let ?img = "replicate (er_image_size rd) 0 :: bytes"
  have il: "length ?img = er_image_size rd" by simp
  obtain ts r st' where r: "e01_read_at_offset ry k c spoil rd st offset n = (r, st')"
    "\<forall>t \<in> set ts. task_ok rd t \<and> task_in rd offset (min (offset + n) (er_image_size rd)) t"
    "concat (map (task_bytes rd ?img) ts) = sub_list ?img offset (min n (er_image_size rd - offset))"
    "safe.outcome ts r" "safe_decoded k c spoil rd (st_decoded st')" "\<forall>w \<in> set (st_worker_pool st'). worker_for rd w"
    using safe.read_ok [OF assms(3) il _ new_worker_for [OF assms(3)] assms(6) dc True assms(7)] by blast
  have "length bs = min n (er_image_size rd - offset)" if "r = Ok bs" for bs
    using r(4) that safe_length [of ts _ rd 0 offset] r(2,3) True by (force simp: safe.outcome_def)
  moreover have "\<exists>p \<ge> offset. p < min (offset + n) (er_image_size rd) \<and>
      (let ch = er_chunks rd ! (p div er_chunk_size rd)
       in \<not> ch_compressed ch \<and> ch_data_offset ch \<le> ch_end_offset ch \<and>
          ch_end_offset ch \<le> ch_data_offset ch + p mod er_chunk_size rd + 4)" if "r = Panic"
  proof -
    obtain t where "t \<in> set ts" "task_beyond t"
      using r(4) \<open>r = Panic\<close> unfolding safe.outcome_def by (auto simp: safe_answer_def answers_def)
    moreover have "0 < er_chunk_size rd" using assms(3) by (simp add: addressable_def e01_reader_ok_def)
    ultimately show ?thesis using r(2) task_beyond_at by blast
  qed
  ultimately show ?thesis
    using r(1,5,6) True by (intro exI [of _ r] exI [of _ st'] conjI impI allI) (auto simp: safe_decoded_def)
next
  case False
  then show ?thesis using assms(4-6) by (auto simp: e01_read_at_offset_def)
qed

subsection \<open>A small image\<close>

definition sample_reader :: e01_reader where
  "sample_reader =
     \<lparr>er_chunks = [sample_ch 0, sample_ch 1], er_chunk_size = 8, er_chunk_count = 2, er_sector_size = 2,
      er_sector_count = 5, er_image_size = 10, er_stored_md5 = None, er_stored_sha1 = None,
      er_segment_paths = [''i.E01''], er_corrupt_chunk_policy = PolZero, er_slots = [], er_io_log = False,
      er_parallel_chunk_reads = True, er_chunk_pool = Some 4\<rparr>"

definition sample_cache :: cache where
  "sample_cache = mem_cache (\<lambda>i. sample_file)"

definition sample_image :: bytes where
  "sample_image = [1, 2, 3, 4, 5, 6, 7, 8, 9, 10]"

definition sample_start :: e01_state where
  "sample_start = \<lparr>st_worker_pool = [], st_decoded = Some (dcc_new DECODED_CHUNK_CACHE_CHUNKS)\<rparr>"

lemma sample_addressable: "addressable sample_reader"
  by (simp add: addressable_def e01_reader_ok_def sample_reader_def sample_ch_def u64_lim_def)

lemma sample_serves: "serves sample_cache i sample_file"
proof -
  have "length sample_file < u64_lim" by code_simp
  then show ?thesis using mem_cache_serves [of "\<lambda>i. sample_file" i] by (simp add: sample_cache_def)
qed

lemma sample_holds: "e01_holds plain_codec plain_stream byte_sum sample_cache sample_reader sample_chunk sample_image"
proof -
  have p: "part sample_reader 0 = 8" "part sample_reader 1 = 2" "er_chunks sample_reader ! 0 = sample_ch 0"
    "er_chunks sample_reader ! 1 = sample_ch 1" "length (er_chunks sample_reader) = 2" "er_chunk_size sample_reader = 8"
    by (simp_all add: part_def sample_reader_def)
  have t: "take 8 (sample_chunk 0) = sub_list sample_image 0 8" "take 2 (sample_chunk 1) = sub_list sample_image 8 2"
    "8 \<le> length (sample_chunk 0)" "2 \<le> length (sample_chunk 1)"
    "ch_end_offset (sample_ch 0) - ch_data_offset (sample_ch 0) \<le> 12"
    "ch_end_offset (sample_ch 1) - ch_data_offset (sample_ch 1) \<le> 12" by code_simp+
  have "length sample_image = er_image_size sample_reader" by code_simp
  moreover have "\<exists>fl. serves sample_cache (ch_segment (er_chunks sample_reader ! i)) fl \<and>
      stored_chunk plain_stream byte_sum fl (er_chunks sample_reader ! i) (sample_chunk i) \<and>
      ch_end_offset (er_chunks sample_reader ! i) - ch_data_offset (er_chunks sample_reader ! i) \<le> 8 + 4 \<and>
      part sample_reader i \<le> length (sample_chunk i) \<and>
      take (part sample_reader i) (sample_chunk i) = sub_list sample_image (i * 8) (part sample_reader i)" if i: "i < 2" for i :: nat
  proof -
    consider "i = 0" | "i = 1" using i by linarith
    then show ?thesis
      using sample_serves sample_stored p t by cases (intro exI [of _ sample_file], simp)+
  qed
  ultimately show ?thesis
    using plain_codec_ok sample_addressable unfolding e01_holds_def p(5,6) by blast
qed

lemma sample_start_ok: "e01_state_ok plain_codec plain_stream byte_sum sample_cache sample_reader sample_chunk sample_image sample_start"
  using sample_holds unfolding e01_state_ok_def holds_decoded_def dcc.sound_def
  by (simp add: sample_start_def dcc_new_inv) (simp add: dcc_new_def)

theorem e01_read_exact_witness:
  "\<exists>st'. e01_read_at_offset \<lparr>ry_schedule = [1, 0, 1], ry_pick = 0\<rparr> plain_codec sample_cache (\<lambda>off bs. bs) sample_reader
     sample_start 6 100 = (Ok [7, 8, 9, 10], st')"
proof -
  have "6 + 100 < u64_lim" "sub_list sample_image 6 (min 100 (length sample_image - 6)) = [7, 8, 9, 10]"
    "6 \<le> length sample_image" by code_simp+
  then show ?thesis
    using e01_read_exact [OF sample_start_ok, of 6 100 "\<lparr>ry_schedule = [1, 0, 1], ry_pick = 0\<rparr>" "\<lambda>off bs. bs"] by auto
qed

text \<open>Over a cache whose files are empty.\<close>

lemma sample_total: "cache_total (mem_cache (\<lambda>i. [])) (\<lambda>off bs. bs)"
  by (auto simp: cache_total_def mem_cache_def)

theorem e01_read_panics_only_beyond_data_witness:
  "\<exists>r st'. e01_read_at_offset \<lparr>ry_schedule = [1, 0], ry_pick = 3\<rparr> plain_codec (mem_cache (\<lambda>i. [])) (\<lambda>off bs. bs)
     sample_reader sample_start 6 100 = (r, st') \<and> (\<forall>bs. r = Ok bs \<longrightarrow> length bs = 4)"
proof -
  have "6 + 100 < u64_lim" "\<forall>w \<in> set (st_worker_pool sample_start). worker_for sample_reader w"
    "st_decoded sample_start = Some (dcc_new DECODED_CHUNK_CACHE_CHUNKS)" "er_image_size sample_reader = 10"
    by (simp_all add: u64_lim_def sample_start_def sample_reader_def)
  moreover have "cache_long (stored_part sample_reader) (dcc_new DECODED_CHUNK_CACHE_CHUNKS)"
    unfolding dcc.sound_def by (simp add: dcc_new_inv) (simp add: dcc_new_def)
  ultimately show ?thesis
    using e01_read_panics_only_beyond_data [OF plain_codec_total sample_total sample_addressable, of sample_start _ 6 100
        "\<lparr>ry_schedule = [1, 0], ry_pick = 3\<rparr>"]
    by fastforce
qed

end
