(* ===== verification/E01Image.thy ===== *)
theory E01Image
  imports E01Reader
begin

text \<open>
  From an image to an E01 file and back: a writer for one segment file in the layout of the format
  (file header, volume section, the chunks, the chunk table with its checksums, the end), and the proof
  that opening and reading such a file gives the image again.  The writer is a specification of the
  format; the repository has only the reader.

  Chunks are compressed or not, as a function of their number says; the volume section is the short one
  of 94 bytes.  The environment is that of \<open>E01Open\<close> with what it documents: a stream over a source
  reads its bytes, seeks to any offset in it and decodes ASCII.
\<close>

subsection \<open>Streams over files\<close>

definition ascii :: "string \<Rightarrow> bytes" where
  "ascii s = map (\<lambda>ch. of_nat (of_char ch)) s"

definition ewf_file :: "'io ewf_env \<Rightarrow> ('io \<Rightarrow> bytes) \<Rightarrow> (bytes \<Rightarrow> nat) \<Rightarrow> bool" where
  "ewf_file k dat adl \<longleftrightarrow>
     ewf_env_ok k dat \<and>
     (\<forall>io n. n \<le> length (dat io) \<longrightarrow> (\<exists>io'. k_seek k io n = Ok io' \<and> dat io' = dat io \<and> k_pos k io' = n)) \<and>
     (\<forall>io. k_size k io = length (dat io)) \<and>
     (\<forall>s. (\<forall>ch \<in> set s. of_char ch < (128 :: nat)) \<longrightarrow> k_to_str k (ascii s) = Ok s) \<and>
     (\<forall>bs. k_adler32 k bs = Ok (adl bs) \<and> adl bs < 2 ^ 32)"

lemma ewf_fileD:
  assumes "ewf_file k dat adl"
  shows "ewf_env_ok k dat" "k_size k io = length (dat io)" "k_adler32 k bs = Ok (adl bs)" "adl bs < 2 ^ 32"
    "\<forall>ch \<in> set s. of_char ch < (128 :: nat) \<Longrightarrow> k_to_str k (ascii s) = Ok s"
  using assms by (auto simp: ewf_file_def)

lemma at_seek:
  assumes "ewf_file k dat adl" "n \<le> length (dat io)"
  obtains io' where "k_seek k io n = Ok io'" "at k dat io' (drop n (dat io))" "k_pos k io' = n" "dat io' = dat io"
  using assms unfolding ewf_file_def at_def by metis

lemma at_read_list:
  assumes "ewf_env_ok k dat" "at k dat io (bs @ rest)" "length bs = n"
  obtains io' where "k_read_bytes k io n = Ok (bs, io')" "at k dat io' rest" "k_pos k io' = k_pos k io + n"
  using at_read_bytes [OF assms(1,2)] assms(3) by blast

subsection \<open>Sections\<close>

definition section_head :: "string \<Rightarrow> nat \<Rightarrow> nat \<Rightarrow> bytes" where
  "section_head ty nx sz =
     ascii (ty @ replicate (16 - length ty) (CHR 0x00)) @ to_le_bytes 8 nx @ to_le_bytes 8 sz @ replicate 40 0 @ to_le_bytes 4 0"

definition type_name :: "string \<Rightarrow> bool" where
  "type_name ty \<longleftrightarrow> ty \<noteq> [] \<and> length ty \<le> 16 \<and> (\<forall>ch \<in> set ty. of_char ch < (128 :: nat) \<and> ch \<noteq> CHR 0x00)"

lemma length_section_head: "type_name ty \<Longrightarrow> length (section_head ty nx sz) = 76"
  by (simp add: section_head_def ascii_def type_name_def)

lemma dropWhile_nul_append: "type_name ty \<Longrightarrow> dropWhile (\<lambda>c. c = CHR 0x00) (ty @ zs) = ty @ zs"
  by (cases ty) (auto simp: type_name_def)

lemma trim_nul_padded: "type_name ty \<Longrightarrow> trim_nul (ty @ replicate n (CHR 0x00)) = ty"
proof -
  assume ty: "type_name ty"
  have "type_name (rev ty)" using ty by (simp add: type_name_def)
  then have "dropWhile (\<lambda>c. c = CHR 0x00) (rev ty) = rev ty" using dropWhile_nul_append [of "rev ty" "[]"] by simp
  moreover have "dropWhile (\<lambda>c. c = CHR 0x00) (replicate n (CHR 0x00) @ rev ty) = dropWhile (\<lambda>c. c = CHR 0x00) (rev ty)"
    by (induction n) auto
  ultimately show ?thesis by (simp add: trim_nul_def dropWhile_nul_append [OF ty])
qed

lemma descriptor_at:
  assumes f: "ewf_file k dat adl" and ty: "type_name ty" and a: "at k dat io (section_head ty nx sz @ rest)"
    and lim: "nx < 2 ^ 64" "sz < 2 ^ 64"
  obtains sd io' where "ewf_section_descriptor_v1 k io = Ok (sd, io')" "trim_nul (sd_type_string sd) = ty"
    "sd_next_offset sd = nx" "sd_size sd = sz" "at k dat io' rest" "k_pos k io' = k_pos k io + 76"
proof -
  note ok = ewf_fileD(1) [OF f]
  let ?s = "ty @ replicate (16 - length ty) (CHR 0x00)"
  have l: "length (ascii ?s) = 16" "length (replicate 40 (0 :: u8)) = 40" using ty by (simp_all add: ascii_def type_name_def)
  have a': "at k dat io (ascii ?s @ to_le_bytes 8 nx @ to_le_bytes 8 sz @ replicate 40 0 @ to_le_bytes 4 0 @ rest)"
    using a by (simp only: section_head_def append_assoc)
  obtain io1 where 1: "k_read_bytes k io 16 = Ok (ascii ?s, io1)"
    "at k dat io1 (to_le_bytes 8 nx @ to_le_bytes 8 sz @ replicate 40 0 @ to_le_bytes 4 0 @ rest)"
    "k_pos k io1 = k_pos k io + 16"
    by (rule at_read_list [OF ok a' l(1)])
  have "of_char ch < (128 :: nat)" if "ch \<in> set ?s" for ch
  proof (cases "ch \<in> set ty")
    case True
    then show ?thesis using ty by (simp add: type_name_def)
  next
    case False
    then have "ch = CHR 0x00" using that by simp
    then show ?thesis by simp
  qed
  then have s: "k_to_str k (ascii ?s) = Ok ?s" using ewf_fileD(5) [OF f] by blast
  obtain io2 where 2: "k_read_le k io1 8 = Ok (nx, io2)"
    "at k dat io2 (to_le_bytes 8 sz @ replicate 40 0 @ to_le_bytes 4 0 @ rest)" "k_pos k io2 = k_pos k io1 + 8"
    by (rule at_read_le [OF ok 1(2)]) (use lim(1) in simp)
  obtain io3 where 3: "k_read_le k io2 8 = Ok (sz, io3)"
    "at k dat io3 (replicate 40 0 @ to_le_bytes 4 0 @ rest)" "k_pos k io3 = k_pos k io2 + 8"
    by (rule at_read_le [OF ok 2(2)]) (use lim(2) in simp)
  obtain io4 where 4: "k_read_bytes k io3 40 = Ok (replicate 40 0, io4)"
    "at k dat io4 (to_le_bytes 4 0 @ rest)" "k_pos k io4 = k_pos k io3 + 40"
    by (rule at_read_list [OF ok 3(2) l(2)])
  obtain io5 where 5: "k_read_le k io4 4 = Ok (0, io5)" "at k dat io5 rest" "k_pos k io5 = k_pos k io4 + 4"
    by (rule at_read_le [OF ok 4(2)]) simp
  show thesis
    by (rule that [OF _ _ _ _ 5(2), of "\<lparr>sd_type_string = ?s, sd_next_offset = nx, sd_size = sz, sd_checksum = 0\<rparr>"])
      (simp_all add: ewf_section_descriptor_v1_def 1(1,3) 2(1,3) 3(1,3) 4(1,3) 5(1,3) s trim_nul_padded [OF ty])
qed

subsubsection \<open>The volume section\<close>

definition volume_bytes :: "volume_section \<Rightarrow> bytes" where
  "volume_bytes v =
     to_le_bytes 4 1 @ to_le_bytes 4 (vs_chunk_count v) @ to_le_bytes 4 (vs_sectors_per_chunk v) @
     to_le_bytes 4 (vs_bytes_per_sector v) @ to_le_bytes 4 (vs_total_sector_count v) @
     replicate 20 0 @ replicate 45 0 @ replicate 5 0"

definition small_volume :: "volume_section \<Rightarrow> bool" where
  "small_volume v \<longleftrightarrow> vs_chunk_count v < 2 ^ 32 \<and> vs_sectors_per_chunk v < 2 ^ 32 \<and> vs_bytes_per_sector v < 2 ^ 32 \<and>
     vs_total_sector_count v < 2 ^ 32"

lemma length_volume_bytes: "length (volume_bytes v) = 90"
  by (simp add: volume_bytes_def)

lemma smart_volume_at:
  assumes ok: "ewf_env_ok k dat" and a: "at k dat io (volume_bytes v @ to_le_bytes 4 crc @ rest)"
    and v: "small_volume v" "crc < 2 ^ 32"
  obtains ev io' where "ewf_volume_smart_read k io = Ok (ev, io')" "volume_of ev = v" "ev_checksum ev = crc"
    "at k dat io' rest" "k_pos k io' = k_pos k io + 94"
proof -
  have lim: "vs_chunk_count v < 256 ^ 4" "vs_sectors_per_chunk v < 256 ^ 4" "vs_bytes_per_sector v < 256 ^ 4"
    "vs_total_sector_count v < 256 ^ 4" "crc < 256 ^ 4" "(1 :: nat) < 256 ^ 4"
    using v by (simp_all add: small_volume_def)
  have l: "length (replicate n (0 :: u8)) = n" for n by simp
  note a' = a [unfolded volume_bytes_def append_assoc]
  obtain io1 where 1: "k_read_le k io 4 = Ok (1, io1)" and a1: "at k dat io1 (to_le_bytes 4 (vs_chunk_count v) @
      to_le_bytes 4 (vs_sectors_per_chunk v) @ to_le_bytes 4 (vs_bytes_per_sector v) @
      to_le_bytes 4 (vs_total_sector_count v) @ replicate 20 0 @ replicate 45 0 @ replicate 5 0 @ to_le_bytes 4 crc @ rest)"
    and p1: "k_pos k io1 = k_pos k io + 4" by (rule at_read_le [OF ok a' lim(6)])
  obtain io2 where 2: "k_read_le k io1 4 = Ok (vs_chunk_count v, io2)" and a2: "at k dat io2 (
      to_le_bytes 4 (vs_sectors_per_chunk v) @ to_le_bytes 4 (vs_bytes_per_sector v) @
      to_le_bytes 4 (vs_total_sector_count v) @ replicate 20 0 @ replicate 45 0 @ replicate 5 0 @ to_le_bytes 4 crc @ rest)"
    and p2: "k_pos k io2 = k_pos k io1 + 4" by (rule at_read_le [OF ok a1 lim(1)])
  obtain io3 where 3: "k_read_le k io2 4 = Ok (vs_sectors_per_chunk v, io3)" and a3: "at k dat io3 (
      to_le_bytes 4 (vs_bytes_per_sector v) @ to_le_bytes 4 (vs_total_sector_count v) @
      replicate 20 0 @ replicate 45 0 @ replicate 5 0 @ to_le_bytes 4 crc @ rest)"
    and p3: "k_pos k io3 = k_pos k io2 + 4" by (rule at_read_le [OF ok a2 lim(2)])
  obtain io4 where 4: "k_read_le k io3 4 = Ok (vs_bytes_per_sector v, io4)" and a4: "at k dat io4 (
      to_le_bytes 4 (vs_total_sector_count v) @ replicate 20 0 @ replicate 45 0 @ replicate 5 0 @ to_le_bytes 4 crc @ rest)"
    and p4: "k_pos k io4 = k_pos k io3 + 4" by (rule at_read_le [OF ok a3 lim(3)])
  obtain io5 where 5: "k_read_le k io4 4 = Ok (vs_total_sector_count v, io5)" and a5: "at k dat io5 (
      replicate 20 0 @ replicate 45 0 @ replicate 5 0 @ to_le_bytes 4 crc @ rest)"
    and p5: "k_pos k io5 = k_pos k io4 + 4" by (rule at_read_le [OF ok a4 lim(4)])
  obtain io6 where 6: "k_read_bytes k io5 20 = Ok (replicate 20 0, io6)" and
    a6: "at k dat io6 (replicate 45 0 @ replicate 5 0 @ to_le_bytes 4 crc @ rest)"
    and p6: "k_pos k io6 = k_pos k io5 + 20" by (rule at_read_list [OF ok a5 l])
  obtain io7 where 7: "k_read_bytes k io6 45 = Ok (replicate 45 0, io7)" and
    a7: "at k dat io7 (replicate 5 0 @ to_le_bytes 4 crc @ rest)"
    and p7: "k_pos k io7 = k_pos k io6 + 45" by (rule at_read_list [OF ok a6 l])
  obtain io8 where 8: "k_read_bytes k io7 5 = Ok (replicate 5 0, io8)" and a8: "at k dat io8 (to_le_bytes 4 crc @ rest)"
    and p8: "k_pos k io8 = k_pos k io7 + 5" by (rule at_read_list [OF ok a7 l])
  obtain io9 where 9: "k_read_le k io8 4 = Ok (crc, io9)" and a9: "at k dat io9 rest"
    and p9: "k_pos k io9 = k_pos k io8 + 4" by (rule at_read_le [OF ok a8 lim(5)])
  let ?ev = "\<lparr>ev_number_of_chunks = vs_chunk_count v, ev_sectors_per_chunk = vs_sectors_per_chunk v,
    ev_bytes_per_sector = vs_bytes_per_sector v, ev_number_of_sectors = vs_total_sector_count v, ev_checksum = crc\<rparr>"
  have "ewf_volume_smart_read k io = Ok (?ev, io9)"
    by (simp add: ewf_volume_smart_read_def 1 2 3 4 5 6 7 8 9)
  moreover have "k_pos k io9 = k_pos k io + 94" using p1 p2 p3 p4 p5 p6 p7 p8 p9 by simp
  ultimately show thesis using that [of ?ev io9] a9 by (simp add: volume_of_def)
qed

lemma section_volume_at:
  assumes f: "ewf_file k dat adl" and nx: "nx < 2 ^ 64" and v: "small_volume v"
    and a: "at k dat io (section_head ''disk'' nx 170 @ volume_bytes v @ to_le_bytes 4 (adl (volume_bytes v)) @ rest)"
  shows "read_section k io False = Ok (nx, SecVolume v)"
proof -
  note ok = ewf_fileD(1) [OF f] and crc = ewf_fileD(4) [OF f, of "volume_bytes v"]
  have ty: "type_name ''disk''" by (simp add: type_name_def)
  have sz: "(170 :: nat) < 2 ^ 64" by simp
  obtain sd io1 where d: "ewf_section_descriptor_v1 k io = Ok (sd, io1)" "trim_nul (sd_type_string sd) = ''disk''"
    "sd_next_offset sd = nx" "sd_size sd = 170"
    "at k dat io1 (volume_bytes v @ to_le_bytes 4 (adl (volume_bytes v)) @ rest)" "k_pos k io1 = k_pos k io + 76"
    by (rule descriptor_at [OF f ty a nx sz])
  obtain ev io2 where e: "ewf_volume_smart_read k io1 = Ok (ev, io2)" "volume_of ev = v"
    "ev_checksum ev = adl (volume_bytes v)" "at k dat io2 rest" "k_pos k io2 = k_pos k io1 + 94"
    by (rule smart_volume_at [OF ok d(5) v crc])
  have "checksum_reader k io1 90 = Ok (adl (volume_bytes v))"
    using checksum_reader_at [OF ok d(5) ewf_fileD(3) [OF f]] by (simp add: length_volume_bytes)
  then have "checksum_ok k ''Volume section'' io2 io1 (ev_checksum ev) = Ok ()"
    using e(3,5) by (simp add: checksum_ok_def)
  then have "volume_section_new k io1 94 False = Ok v"
    using e(1,2) by (simp add: volume_section_new_def unless_def)
  then show ?thesis using d by (simp add: read_section_def Let_def)
qed

subsubsection \<open>The other sections\<close>

lemma section_sectors_at:
  assumes f: "ewf_file k dat adl" and lim: "nx < 2 ^ 64" "k_pos k io + 76 + n < 2 ^ 64"
    and a: "at k dat io (section_head ''sectors'' nx (76 + n) @ rest)"
  shows "read_section k io ign = Ok (nx, SecSectors (k_pos k io + 76 + n))"
proof -
  have ty: "type_name ''sectors''" by (simp add: type_name_def)
  have sz: "76 + n < 2 ^ 64" using lim(2) by simp
  obtain sd io1 where d: "ewf_section_descriptor_v1 k io = Ok (sd, io1)" "trim_nul (sd_type_string sd) = ''sectors''"
    "sd_next_offset sd = nx" "sd_size sd = 76 + n" "at k dat io1 rest" "k_pos k io1 = k_pos k io + 76"
    by (rule descriptor_at [OF f ty a lim(1) sz])
  have "(if sd_size sd > 0x4c then sd_size sd - 0x4c else 0) = n" using d(4) by simp
  moreover have "u64_add (k_pos k io1) n = k_pos k io + 76 + n" using d(6) lim(2) by (simp add: u64_lim_def)
  ultimately show ?thesis using d(1-3) by (simp add: read_section_def Let_def)
qed

lemma section_table_at:
  assumes f: "ewf_file k dat adl" and lim: "nx < 2 ^ 64" "sz < 2 ^ 64"
    and es: "wf_entries base es" "es \<noteq> []" "length es \<le> MAX_TABLE_ENTRIES"
    and a: "at k dat io (section_head ''table'' nx sz @ table_head (length es) base @
      to_le_bytes 4 (adl (table_head (length es) base)) @ table_array es @ to_le_bytes 4 (adl (table_array es)) @ rest)"
  shows "read_section k io False = Ok (nx, SecTable (chunks_of base es))"
proof -
  have ty: "type_name ''table''" by (simp add: type_name_def)
  obtain sd io1 where d: "ewf_section_descriptor_v1 k io = Ok (sd, io1)" "trim_nul (sd_type_string sd) = ''table''"
    "sd_next_offset sd = nx" "at k dat io1 (table_head (length es) base @
      to_le_bytes 4 (adl (table_head (length es) base)) @ table_array es @ to_le_bytes 4 (adl (table_array es)) @ rest)"
    by (rule descriptor_at [OF f ty a lim])
  have "read_table k io1 False = Ok (chunks_of base es)"
    by (rule read_table_lemma [OF ewf_fileD(1) [OF f] es ewf_fileD(3) [OF f] ewf_fileD(4) [OF f] ewf_fileD(3) [OF f]
        ewf_fileD(4) [OF f] d(4)])
  then show ?thesis using d(1-3) by (simp add: read_section_def Let_def)
qed

lemma section_done_at:
  assumes f: "ewf_file k dat adl" and nx: "nx < 2 ^ 64" and a: "at k dat io (section_head ''done'' nx 76 @ rest)"
  shows "read_section k io ign = Ok (nx, SecDone)"
proof -
  have ty: "type_name ''done''" by (simp add: type_name_def)
  have sz: "(76 :: nat) < 2 ^ 64" by simp
  obtain sd io1 where "ewf_section_descriptor_v1 k io = Ok (sd, io1)" "trim_nul (sd_type_string sd) = ''done''"
    "sd_next_offset sd = nx"
    by (rule descriptor_at [OF f ty a nx sz])
  then show ?thesis by (simp add: read_section_def Let_def)
qed

lemma section_next_at:
  assumes f: "ewf_file k dat adl" and cur: "cur < length (dat io)"
    and sec: "\<And>io'. at k dat io' (drop cur (dat io)) \<Longrightarrow> k_pos k io' = cur \<Longrightarrow> read_section k io' ign = Ok (off, sec)"
  shows "section_next k io ign cur = Some (Ok (if off > cur then off else length (dat io), sec))"
proof -
  have le: "cur \<le> length (dat io)" using cur by simp
  obtain io' where "k_seek k io cur = Ok io'" "at k dat io' (drop cur (dat io))" "k_pos k io' = cur"
    by (rule at_seek [OF f le])
  then show ?thesis using cur sec ewf_fileD(2) [OF f] by (simp add: section_next_def)
qed

lemma seg_loop_step:
  assumes "section_next k io ign cur = Some (Ok (off, sec))" "sec \<noteq> SecDone"
  shows "seg_loop k io ign cur st = seg_loop k io ign off (seg_section sec st)"
  using assms by (subst seg_loop.simps) (auto split: ewf_section.splits)

subsection \<open>The writer\<close>

text \<open>An image, its geometry and which chunks are to be compressed.\<close>

record e01_spec =
  sp_img :: bytes
  sp_sectors_per_chunk :: nat
  sp_bytes_per_sector :: nat
  sp_sectors :: nat
  sp_compressed :: "nat \<Rightarrow> bool"

definition sp_chunk_size :: "e01_spec \<Rightarrow> nat" where
  "sp_chunk_size s = sp_sectors_per_chunk s * sp_bytes_per_sector s"

definition sp_chunks :: "e01_spec \<Rightarrow> nat" where
  "sp_chunks s = cdiv (length (sp_img s)) (sp_chunk_size s)"

definition sp_chunk :: "e01_spec \<Rightarrow> nat \<Rightarrow> bytes" where
  "sp_chunk s i = sub_list (sp_img s) (i * sp_chunk_size s) (min (sp_chunk_size s) (length (sp_img s) - i * sp_chunk_size s))"

definition sp_raw :: "(bytes \<Rightarrow> bytes) \<Rightarrow> (bytes \<Rightarrow> nat) \<Rightarrow> e01_spec \<Rightarrow> nat \<Rightarrow> bytes" where
  "sp_raw deflate adl s i =
     (if sp_compressed s i then deflate (sp_chunk s i) else sp_chunk s i @ to_le_bytes 4 (adl (sp_chunk s i)))"

definition sp_raws :: "(bytes \<Rightarrow> bytes) \<Rightarrow> (bytes \<Rightarrow> nat) \<Rightarrow> e01_spec \<Rightarrow> bytes list" where
  "sp_raws deflate adl s = map (sp_raw deflate adl s) [0 ..< sp_chunks s]"

definition sp_offset :: "(bytes \<Rightarrow> bytes) \<Rightarrow> (bytes \<Rightarrow> nat) \<Rightarrow> e01_spec \<Rightarrow> nat \<Rightarrow> nat" where
  "sp_offset deflate adl s i = length (concat (take i (sp_raws deflate adl s)))"

definition sp_entries :: "(bytes \<Rightarrow> bytes) \<Rightarrow> (bytes \<Rightarrow> nat) \<Rightarrow> e01_spec \<Rightarrow> (nat \<times> bool) list" where
  "sp_entries deflate adl s = map (\<lambda>i. (sp_offset deflate adl s i, sp_compressed s i)) [0 ..< sp_chunks s]"

definition sp_volume :: "e01_spec \<Rightarrow> volume_section" where
  "sp_volume s = \<lparr>vs_chunk_count = sp_chunks s, vs_sectors_per_chunk = sp_sectors_per_chunk s,
     vs_bytes_per_sector = sp_bytes_per_sector s, vs_total_sector_count = sp_sectors s\<rparr>"

text \<open>The sections: file header (13 bytes), volume section (170), a section with the data of the chunks, which begins
  at 259, the table and the end.\<close>

definition tail_done :: "nat \<Rightarrow> bytes" where
  "tail_done beg = section_head ''done'' beg 76"

definition tail_table :: "(bytes \<Rightarrow> nat) \<Rightarrow> (nat \<times> bool) list \<Rightarrow> nat \<Rightarrow> bytes" where
  "tail_table adl es beg =
     (let sz = 104 + 4 * length es in
      section_head ''table'' (beg + sz) sz @ table_head (length es) 259 @
      to_le_bytes 4 (adl (table_head (length es) 259)) @ table_array es @ to_le_bytes 4 (adl (table_array es)) @
      tail_done (beg + sz))"

definition tail_sectors :: "(bytes \<Rightarrow> nat) \<Rightarrow> (nat \<times> bool) list \<Rightarrow> bytes \<Rightarrow> bytes" where
  "tail_sectors adl es dt =
     section_head ''sectors'' (259 + length dt) (76 + length dt) @ dt @ tail_table adl es (259 + length dt)"

definition file_head :: bytes where
  "file_head = EWF_SIGNATURE @ [1] @ to_le_bytes 2 1 @ [0, 0]"

definition write_e01 :: "(bytes \<Rightarrow> bytes) \<Rightarrow> (bytes \<Rightarrow> nat) \<Rightarrow> e01_spec \<Rightarrow> bytes" where
  "write_e01 deflate adl s =
     file_head @ section_head ''disk'' 183 170 @ volume_bytes (sp_volume s) @
     to_le_bytes 4 (adl (volume_bytes (sp_volume s))) @
     tail_sectors adl (sp_entries deflate adl s) (concat (sp_raws deflate adl s))"

text \<open>What the format can hold.\<close>

definition spec_ok :: "(bytes \<Rightarrow> bytes) \<Rightarrow> (bytes \<Rightarrow> nat) \<Rightarrow> e01_spec \<Rightarrow> bool" where
  "spec_ok deflate adl s \<longleftrightarrow>
     sp_img s \<noteq> [] \<and> length (sp_img s) = sp_sectors s * sp_bytes_per_sector s \<and> 0 < sp_chunk_size s \<and>
     sp_sectors s < 2 ^ 32 \<and> sp_sectors_per_chunk s < 2 ^ 32 \<and> sp_bytes_per_sector s < 2 ^ 32 \<and>
     sp_chunks s \<le> MAX_TABLE_ENTRIES \<and> length (concat (sp_raws deflate adl s)) < 2 ^ 31 \<and>
     length (sp_img s) + sp_chunk_size s < u64_lim \<and>
     (\<forall>i < sp_chunks s. length (sp_raw deflate adl s i) \<le> sp_chunk_size s + 4)"

subsection \<open>The parts of a written file\<close>

lemma length_file_head: "length file_head = 13"
  by (simp add: file_head_def EWF_SIGNATURE_def)

lemma heads: "length (section_head ''disk'' a b) = 76" "length (section_head ''sectors'' a b) = 76"
    "length (section_head ''table'' a b) = 76" "length (section_head ''done'' a b) = 76"
  by (rule length_section_head, simp add: type_name_def)+

lemma drop_exact: "length xs = n \<Longrightarrow> drop n (xs @ ys) = ys"
  by simp

lemma write_drops:
  fixes s deflate adl
  defines "w \<equiv> write_e01 deflate adl s" and "es \<equiv> sp_entries deflate adl s" and "dt \<equiv> concat (sp_raws deflate adl s)"
  shows "drop 13 w = section_head ''disk'' 183 170 @ volume_bytes (sp_volume s) @
      to_le_bytes 4 (adl (volume_bytes (sp_volume s))) @ tail_sectors adl es dt"
    and "drop 183 w = tail_sectors adl es dt"
    and "drop (259 + length dt) w = tail_table adl es (259 + length dt)"
    and "drop (363 + length dt + 4 * length es) w = tail_done (363 + length dt + 4 * length es)"
    and "length w = 439 + length dt + 4 * length es"
    and "take (length dt) (drop 259 w) = dt"
proof -
  have w: "w = (file_head @ section_head ''disk'' 183 170 @ volume_bytes (sp_volume s) @
      to_le_bytes 4 (adl (volume_bytes (sp_volume s)))) @ tail_sectors adl es dt"
    by (simp add: w_def es_def dt_def write_e01_def)
  show "drop 13 w = section_head ''disk'' 183 170 @ volume_bytes (sp_volume s) @
      to_le_bytes 4 (adl (volume_bytes (sp_volume s))) @ tail_sectors adl es dt"
    unfolding w append_assoc by (rule drop_exact [OF length_file_head])
  have l: "length (file_head @ section_head ''disk'' 183 170 @ volume_bytes (sp_volume s) @
      to_le_bytes 4 (adl (volume_bytes (sp_volume s)))) = 183"
    by (simp add: length_file_head heads length_volume_bytes del: to_le_bytes.simps)
  show d: "drop 183 w = tail_sectors adl es dt" unfolding w by (rule drop_exact [OF l])
  have t: "drop n w = drop (n - 183) (tail_sectors adl es dt)" if "183 \<le> n" for n
    using that d drop_drop [of "n - 183" 183 w] by simp
  have ts: "drop (76 + length dt) (tail_sectors adl es dt) = tail_table adl es (259 + length dt)"
    unfolding tail_sectors_def by (simp add: heads)
  then show tt: "drop (259 + length dt) w = tail_table adl es (259 + length dt)"
    using t [of "259 + length dt"] by simp
  have "drop (104 + 4 * length es) (tail_table adl es (259 + length dt)) = tail_done (363 + length dt + 4 * length es)"
    unfolding tail_table_def Let_def by (simp add: heads ac_simps del: to_le_bytes.simps)
  moreover have n: "104 + 4 * length es + (259 + length dt) = 363 + length dt + 4 * length es" by simp
  ultimately show "drop (363 + length dt + 4 * length es) w = tail_done (363 + length dt + 4 * length es)"
    using tt drop_drop [of "104 + 4 * length es" "259 + length dt" w] n by metis
  show "length w = 439 + length dt + 4 * length es"
    unfolding w using l
    by (simp add: tail_sectors_def tail_table_def tail_done_def heads Let_def del: to_le_bytes.simps)
  show "take (length dt) (drop 259 w) = dt"
    using t [of 259] by (simp add: tail_sectors_def heads)
qed

subsection \<open>The table of a written file\<close>

lemma sub_list_concat_nth:
  assumes "i < length rs"
  shows "sub_list (concat rs @ post) (length (concat (take i rs))) (length (rs ! i)) = rs ! i"
proof -
  have "concat rs = concat (take i rs) @ rs ! i @ concat (drop (Suc i) rs)"
    using id_take_nth_drop [OF assms] by (metis append.assoc concat.simps(2) concat_append)
  then show ?thesis by (simp add: sub_list_def)
qed

lemma length_concat_take_mono: "i \<le> j \<Longrightarrow> length (concat (take i rs)) \<le> length (concat (take j rs))"
  using take_add [of i "j - i" rs] by simp

lemma sp_entries_nth:
  "i < sp_chunks s \<Longrightarrow> sp_entries deflate adl s ! i = (sp_offset deflate adl s i, sp_compressed s i)"
  "length (sp_entries deflate adl s) = sp_chunks s" "length (sp_raws deflate adl s) = sp_chunks s"
  "i < sp_chunks s \<Longrightarrow> sp_raws deflate adl s ! i = sp_raw deflate adl s i"
  by (simp_all add: sp_entries_def sp_raws_def)

lemma sp_offset_le: "i \<le> sp_chunks s \<Longrightarrow> sp_offset deflate adl s i \<le> length (concat (sp_raws deflate adl s))"
  using length_concat_take_mono [of i "sp_chunks s" "sp_raws deflate adl s"] by (simp add: sp_offset_def sp_entries_nth)

lemma sp_offset_Suc:
  "i < sp_chunks s \<Longrightarrow> sp_offset deflate adl s (Suc i) = sp_offset deflate adl s i + length (sp_raw deflate adl s i)"
  by (simp add: sp_offset_def take_Suc_conv_app_nth sp_entries_nth)

lemma sp_offset_end: "sp_offset deflate adl s (sp_chunks s) = length (concat (sp_raws deflate adl s))"
  by (simp add: sp_offset_def sp_entries_nth)

lemma sp_wf_entries: "spec_ok deflate adl s \<Longrightarrow> wf_entries 259 (sp_entries deflate adl s)"
proof -
  assume ok: "spec_ok deflate adl s"
  have "sp_offset deflate adl s i < 2 ^ 31" if "i < sp_chunks s" for i
    using sp_offset_le [of i s deflate adl] that ok by (simp add: spec_ok_def)
  moreover have "sorted (map fst (sp_entries deflate adl s))"
    by (auto simp: sorted_iff_nth_mono sp_entries_nth sp_offset_def intro: length_concat_take_mono)
  ultimately show ?thesis by (auto simp: wf_entries_def sp_entries_def u64_lim_def)
qed

lemma cdiv_pos: "0 < n \<Longrightarrow> 0 < m \<Longrightarrow> 0 < cdiv n m"
  by (auto simp: cdiv_def div_greater_zero_iff dest: mod_less)

lemma sp_chunks_pos: "spec_ok deflate adl s \<Longrightarrow> 0 < sp_chunks s"
  unfolding sp_chunks_def spec_ok_def by (metis cdiv_pos length_greater_0_conv)

lemma sp_small: "spec_ok deflate adl s \<Longrightarrow> small_volume (sp_volume s)"
  by (simp add: small_volume_def sp_volume_def spec_ok_def MAX_TABLE_ENTRIES_def)

subsection \<open>Reading a written segment\<close>

text \<open>The chunks as they are read: each ends where the next one begins, the last where the sectors end.\<close>

definition sp_chunk_records :: "(bytes \<Rightarrow> bytes) \<Rightarrow> (bytes \<Rightarrow> nat) \<Rightarrow> e01_spec \<Rightarrow> chunk list" where
  "sp_chunk_records deflate adl s =
     map (\<lambda>i. \<lparr>ch_segment = 0, ch_data_offset = 259 + sp_offset deflate adl s i,
       ch_end_offset = 259 + sp_offset deflate adl s (Suc i), ch_compressed = sp_compressed s i\<rparr>) [0 ..< sp_chunks s]"

lemma chunks_closed:
  assumes "spec_ok deflate adl s"
  defines "cs \<equiv> chunks_of 259 (sp_entries deflate adl s)"
  shows "cs[length cs - 1 := (cs ! (length cs - 1))\<lparr>ch_end_offset := 259 + length (concat (sp_raws deflate adl s))\<rparr>] =
    sp_chunk_records deflate adl s"
proof -
  have n: "length cs = sp_chunks s" by (simp add: cs_def chunks_of_def sp_entries_nth)
  have e: "Suc (sp_chunks s - 1) = sp_chunks s" using sp_chunks_pos [OF assms(1)] by simp
  have c: "cs ! i = \<lparr>ch_segment = 0, ch_data_offset = 259 + sp_offset deflate adl s i,
      ch_end_offset = (if Suc i < sp_chunks s then 259 + sp_offset deflate adl s (Suc i) else 0),
      ch_compressed = sp_compressed s i\<rparr>" if "i < sp_chunks s" for i
    using that by (simp add: cs_def chunks_of_def sp_entries_nth)
  show ?thesis
  proof (rule nth_equalityI)
    fix i assume "i < length (cs[length cs - 1 := (cs ! (length cs - 1))\<lparr>ch_end_offset := 259 + length (concat (sp_raws deflate adl s))\<rparr>])"
    then have i: "i < sp_chunks s" by (simp add: n)
    show "cs[length cs - 1 := (cs ! (length cs - 1))\<lparr>ch_end_offset := 259 + length (concat (sp_raws deflate adl s))\<rparr>] ! i =
        sp_chunk_records deflate adl s ! i"
    proof (cases "i = sp_chunks s - 1")
      case True
      then show ?thesis using i e c [OF i] sp_offset_end [of deflate adl s] by (simp add: n sp_chunk_records_def)
    next
      case False
      then show ?thesis using i c [OF i] by (simp add: n sp_chunk_records_def)
    qed
  qed (simp add: n sp_chunk_records_def)
qed

lemma file_header_at:
  assumes f: "ewf_file k dat adl" and "k_pos k io = 0" "dat io = file_head @ rest"
  obtains io' where "segment_file_header k io = Ok (1, io')" "k_pos k io' = 13" "dat io' = dat io"
proof -
  note ok = ewf_fileD(1) [OF f]
  have keep: "dat io1 = dat io0" if "ewf_env_ok k dat" "k_read_bytes k io0 n = Ok (bs, io1)" "k_pos k io0 + n \<le> length (dat io0)"
    for io0 io1 n bs using that unfolding ewf_env_ok_def by fastforce
  have keepl: "dat io1 = dat io0" if "ewf_env_ok k dat" "k_read_le k io0 n = Ok (v, io1)" "k_pos k io0 + n \<le> length (dat io0)"
    for io0 io1 n v using that unfolding ewf_env_ok_def by fastforce
  have l: "length EWF_SIGNATURE = 8" by (simp add: EWF_SIGNATURE_def)
  have len: "13 \<le> length (dat io)" using assms(3) by (simp add: length_file_head)
  have d: "dat io = EWF_SIGNATURE @ [1] @ to_le_bytes 2 1 @ [0, 0] @ rest" using assms(3) by (simp add: file_head_def)
  have a: "at k dat io (EWF_SIGNATURE @ [1] @ to_le_bytes 2 1 @ [0, 0] @ rest)"
    using d assms(2) by (simp add: at_def)
  obtain io1 where 1: "k_read_bytes k io 8 = Ok (EWF_SIGNATURE, io1)" by (rule at_read_list [OF ok a l])
  have d1: "dat io1 = dat io" using keep [OF ok 1] assms(2) len by simp
  have "0 \<le> length (dat io1)" by simp
  then obtain io2 where 2: "k_seek k io1 0 = Ok io2" "at k dat io2 (drop 0 (dat io1))" "k_pos k io2 = 0" "dat io2 = dat io1"
    by (rule at_seek [OF f])
  have a2: "at k dat io2 (EWF_SIGNATURE @ [1] @ to_le_bytes 2 1 @ [0, 0] @ rest)" using 2(2) d d1 by simp
  obtain io3 where 3: "k_read_bytes k io2 8 = Ok (EWF_SIGNATURE, io3)"
    "at k dat io3 ([1] @ to_le_bytes 2 1 @ [0, 0] @ rest)" "k_pos k io3 = k_pos k io2 + 8"
    by (rule at_read_list [OF ok a2 l])
  have d3: "dat io3 = dat io" using keep [OF ok 3(1)] 2(3,4) d1 len by simp
  obtain io4 where 4: "k_read_bytes k io3 1 = Ok ([1], io4)"
    "at k dat io4 (to_le_bytes 2 1 @ [0, 0] @ rest)" "k_pos k io4 = k_pos k io3 + 1"
    using at_read_bytes [OF ok 3(2)] by auto
  have d4: "dat io4 = dat io" using keep [OF ok 4(1)] 3(3) 2(3) d3 len by simp
  obtain io5 where 5: "k_read_le k io4 2 = Ok (1, io5)" "at k dat io5 ([0, 0] @ rest)" "k_pos k io5 = k_pos k io4 + 2"
    by (rule at_read_le [OF ok 4(2)]) simp
  have d5: "dat io5 = dat io" using keepl [OF ok 5(1)] 4(3) 3(3) 2(3) d4 len by simp
  obtain io6 where 6: "k_read_bytes k io5 2 = Ok ([0, 0], io6)" "at k dat io6 rest" "k_pos k io6 = k_pos k io5 + 2"
    using at_read_bytes [OF ok 5(2)] by (auto simp: numeral_2_eq_2)
  have d6: "dat io6 = dat io" using keep [OF ok 6(1)] 5(3) 4(3) 3(3) 2(3) d5 len by simp
  have "ewf_file_header_v1 k io2 = Ok (1, io6)"
    by (simp add: ewf_file_header_v1_def 3(1) 4(1) [unfolded One_nat_def] 5(1) 6(1))
  then have "segment_file_header k io = Ok (1, io6)"
    by (simp add: segment_file_header_def 1 2(1) try_ewf_file_header_v1_def)
  then show thesis using that d6 6(3) 5(3) 4(3) 3(3) 2(3) by simp
qed

text \<open>What the loop over the sections of a written file collects.\<close>

lemma written_loop:
  fixes s deflate adl
  defines "w \<equiv> write_e01 deflate adl s"
  assumes f: "ewf_file k dat adl" and s: "spec_ok deflate adl s" and w: "dat io = w"
  shows "seg_loop k io False 13 seg_init =
    Ok (\<lparr>sg_volume = Some (sp_volume s), sg_md5 = None, sg_sha1 = None, sg_chunks = sp_chunk_records deflate adl s,
      sg_end_of_sectors = 259 + length (concat (sp_raws deflate adl s)), sg_done = True\<rparr>, length w)"
proof -
  define es where "es = sp_entries deflate adl s"
  define dt where "dt = concat (sp_raws deflate adl s)"
  note wd = write_drops [of deflate adl s, folded w_def es_def dt_def]
  have n: "length es = sp_chunks s" "es \<noteq> []" "length es \<le> MAX_TABLE_ENTRIES"
    using sp_chunks_pos [OF s] s by (auto simp: es_def sp_entries_nth spec_ok_def simp flip: length_greater_0_conv)
  have L: "length dt < 2 ^ 31" "length es \<le> 65534" using s n by (simp_all add: dt_def spec_ok_def MAX_TABLE_ENTRIES_def)
  have c: "13 < length (dat io)" "183 < length (dat io)" "259 + length dt < length (dat io)"
    "363 + length dt + 4 * length es < length (dat io)"
    unfolding w wd(5) by simp_all
  have lt: "(183 :: nat) < 2 ^ 64" "259 + length dt < 2 ^ 64" "363 + length dt + 4 * length es < 2 ^ 64"
    "104 + 4 * length es < 2 ^ 64" using L by simp_all
  have "section_next k io False 13 = Some (Ok (if 183 > (13 :: nat) then 183 else length (dat io), SecVolume (sp_volume s)))"
  proof (rule section_next_at [OF f c(1)])
    fix io' assume "at k dat io' (drop 13 (dat io))"
    then show "read_section k io' False = Ok (183, SecVolume (sp_volume s))"
      unfolding w wd(1) by (rule section_volume_at [OF f lt(1) sp_small [OF s]])
  qed
  then have 1: "section_next k io False 13 = Some (Ok (183, SecVolume (sp_volume s)))" by simp
  have "section_next k io False 183 = Some (Ok (if 259 + length dt > 183 then 259 + length dt else length (dat io), SecSectors (183 + 76 + length dt)))"
  proof (rule section_next_at [OF f c(2)])
    fix io' assume a: "at k dat io' (drop 183 (dat io))" and p: "k_pos k io' = 183"
    have "read_section k io' False = Ok (259 + length dt, SecSectors (k_pos k io' + 76 + length dt))"
      by (rule section_sectors_at [OF f lt(2)]) (use a p lt(2) in \<open>simp_all add: w wd(2) tail_sectors_def\<close>)
    then show "read_section k io' False = Ok (259 + length dt, SecSectors (183 + 76 + length dt))" by (simp add: p)
  qed
  then have 2: "section_next k io False 183 = Some (Ok (259 + length dt, SecSectors (259 + length dt)))" by simp
  have "section_next k io False (259 + length dt) = Some (Ok (if 363 + length dt + 4 * length es > 259 + length dt
      then 363 + length dt + 4 * length es else length (dat io), SecTable (chunks_of 259 es)))"
  proof (rule section_next_at [OF f c(3)])
    fix io' assume a: "at k dat io' (drop (259 + length dt) (dat io))"
    have b: "259 + length dt + (104 + 4 * length es) = 363 + length dt + 4 * length es" by simp
    show "read_section k io' False = Ok (363 + length dt + 4 * length es, SecTable (chunks_of 259 es))"
      using a unfolding w wd(3) tail_table_def Let_def b
      by (rule section_table_at [OF f lt(3,4) sp_wf_entries [OF s, folded es_def] n(2,3)])
  qed
  then have 3: "section_next k io False (259 + length dt) =
      Some (Ok (363 + length dt + 4 * length es, SecTable (chunks_of 259 es)))" by simp
  have "section_next k io False (363 + length dt + 4 * length es) = Some (Ok (if 363 + length dt + 4 * length es >
      363 + length dt + 4 * length es then 363 + length dt + 4 * length es else length (dat io), SecDone))"
  proof (rule section_next_at [OF f c(4)])
    fix io' assume a: "at k dat io' (drop (363 + length dt + 4 * length es) (dat io))"
    show "read_section k io' False = Ok (363 + length dt + 4 * length es, SecDone)"
      by (rule section_done_at [OF f lt(3), where rest = "[]"]) (use a in \<open>simp add: w wd(4) tail_done_def\<close>)
  qed
  then have 4: "section_next k io False (363 + length dt + 4 * length es) = Some (Ok (length w, SecDone))" by (simp add: w)
  have cs: "chunks_of 259 es \<noteq> []" using n(2) by (simp add: chunks_of_def)
  have st: "seg_section (SecTable (chunks_of 259 es)) (seg_section (SecSectors (259 + length dt))
      (seg_section (SecVolume (sp_volume s)) seg_init)) =
    \<lparr>sg_volume = Some (sp_volume s), sg_md5 = None, sg_sha1 = None, sg_chunks = sp_chunk_records deflate adl s,
      sg_end_of_sectors = 259 + length dt, sg_done = False\<rparr>"
    using cs chunks_closed [OF s] by (simp add: seg_section_def seg_init_def Let_def es_def dt_def)
  have "seg_loop k io False 13 seg_init = seg_loop k io False (363 + length dt + 4 * length es)
    \<lparr>sg_volume = Some (sp_volume s), sg_md5 = None, sg_sha1 = None, sg_chunks = sp_chunk_records deflate adl s,
      sg_end_of_sectors = 259 + length dt, sg_done = False\<rparr>"
    using seg_loop_step [OF 1] seg_loop_step [OF 2] seg_loop_step [OF 3] by (simp add: st)
  also have "\<dots> = Ok (\<lparr>sg_volume = Some (sp_volume s), sg_md5 = None, sg_sha1 = None,
      sg_chunks = sp_chunk_records deflate adl s, sg_end_of_sectors = 259 + length dt, sg_done = True\<rparr>, length w)"
    by (subst seg_loop.simps) (simp add: 4 seg_section_def)
  finally show ?thesis by (simp add: dt_def)
qed

definition written_segment :: "(bytes \<Rightarrow> bytes) \<Rightarrow> (bytes \<Rightarrow> nat) \<Rightarrow> e01_spec \<Rightarrow> string \<Rightarrow> segment_components" where
  "written_segment deflate adl s p =
     \<lparr>sc_path = p, sc_segment_number = 1, sc_volume = Some (sp_volume s), sc_md5 = None, sc_sha1 = None,
      sc_chunks = sp_chunk_records deflate adl s, sc_done = True\<rparr>"

lemma read_written_segment:
  assumes f: "ewf_file k dat adl" and s: "spec_ok deflate adl s"
    and io: "dat io = write_e01 deflate adl s" "k_pos k io = 0"
  shows "read_segment k p 0 io False = Ok (written_segment deflate adl s p)"
proof -
  obtain io' where h: "segment_file_header k io = Ok (1, io')" "k_pos k io' = 13" "dat io' = write_e01 deflate adl s"
    by (rule file_header_at [OF f io(2)]) (use io(1) in \<open>auto simp: write_e01_def\<close>)
  have "section_next k io' False (length (write_e01 deflate adl s)) = None"
    using ewf_fileD(2) [OF f, of io'] h(3) by (simp add: section_next_def)
  moreover have "map (\<lambda>c. c\<lparr>ch_segment := 0\<rparr>) (sp_chunk_records deflate adl s) = sp_chunk_records deflate adl s"
    by (simp add: sp_chunk_records_def)
  ultimately show ?thesis
    using written_loop [OF f s h(3)] h(1,2)
    by (simp add: read_segment_def located_def written_segment_def)
qed

subsection \<open>Opening a written image\<close>

text \<open>The system has the file under the path, and cache and streams work as documented.\<close>

definition serves_file :: "'io e01_sys \<Rightarrow> ('io \<Rightarrow> bytes) \<Rightarrow> (bytes \<Rightarrow> nat) \<Rightarrow> e01_options \<Rightarrow> string \<Rightarrow> bytes \<Rightarrow> bool" where
  "serves_file sys dat adl options p fl \<longleftrightarrow>
     ewf_file (es_env sys) dat adl \<and> es_runtime sys = Ok () \<and> \<not> starts_s3 p \<and>
     (\<exists>url path. es_path_to_url sys p = Some url \<and> url_scheme url = ''file'' \<and> url_file_path url = Some path \<and>
        os_open (es_os sys) path = Ok fl) \<and>
     es_cache_setup sys (e01_cache_config options) = Ok () \<and> (\<forall>n. es_build_pool sys n = Ok ()) \<and>
     (\<forall>slots. slots_get slots 0 = Ok (file_source fl) \<longrightarrow> serves (es_cache sys slots) 0 fl) \<and>
     (\<forall>c. serves c 0 fl \<longrightarrow> (\<exists>io. es_stream sys c 0 = Ok io \<and> dat io = fl \<and> k_pos (es_env sys) io = 0))"

lemma sp_sizes:
  assumes "spec_ok deflate adl s"
  shows "vs_chunk_size (sp_volume s) = sp_chunk_size s" "vs_max_offset (sp_volume s) = length (sp_img s)"
    "sp_chunk_size s + 4 < u64_lim" "length (sp_img s) < u64_lim" "length (sp_img s) \<le> sp_chunks s * sp_chunk_size s"
proof -
  show c: "sp_chunk_size s + 4 < u64_lim" unfolding sp_chunk_size_def
    by (rule u32_product) (use assms in \<open>simp_all add: spec_ok_def\<close>)
  show i: "length (sp_img s) < u64_lim" using assms by (simp add: spec_ok_def)
  show "vs_chunk_size (sp_volume s) = sp_chunk_size s"
    using c by (simp add: vs_chunk_size_def sp_volume_def sp_chunk_size_def u64_mul_def u64_lim_def)
  have "length (sp_img s) = sp_sectors s * sp_bytes_per_sector s" using assms unfolding spec_ok_def by blast
  then show "vs_max_offset (sp_volume s) = length (sp_img s)"
    using i by (simp add: vs_max_offset_def sp_volume_def u64_mul_def u64_lim_def)
  show "length (sp_img s) \<le> sp_chunks s * sp_chunk_size s"
    using assms unfolding sp_chunks_def spec_ok_def by (metis cdiv_covers)
qed

lemma process_written:
  "process_segments [written_segment deflate adl s p] =
     Ok \<lparr>em_volume = sp_volume s, em_md5 = None, em_sha1 = None, em_segment_paths = [p],
       em_chunks = sp_chunk_records deflate adl s\<rparr>"
  by (simp add: process_segments_def written_segment_def first_of_def)

lemma chunk_pool_ok: "\<forall>n. es_build_pool sys n = Ok () \<Longrightarrow> \<exists>pool. chunk_pool sys n = Ok pool"
  by (auto simp: chunk_pool_def Let_def)

definition written_reader ::
    "(bytes \<Rightarrow> bytes) \<Rightarrow> (bytes \<Rightarrow> nat) \<Rightarrow> e01_spec \<Rightarrow> e01_options \<Rightarrow> string \<Rightarrow> bytes \<Rightarrow> nat option \<Rightarrow> e01_reader" where
  "written_reader deflate adl s options p fl pool =
     \<lparr>er_chunks = sp_chunk_records deflate adl s, er_chunk_size = sp_chunk_size s, er_chunk_count = sp_chunks s,
      er_sector_size = sp_bytes_per_sector s, er_sector_count = sp_sectors s, er_image_size = length (sp_img s),
      er_stored_md5 = None, er_stored_sha1 = None, er_segment_paths = [p],
      er_corrupt_chunk_policy = eo_chunk_policy options, er_slots = slots_set [] 0 (file_source fl),
      er_io_log = eo_io_log options, er_parallel_chunk_reads = eo_parallel_chunk_reads options, er_chunk_pool = pool\<rparr>"

definition opened_state :: "e01_options \<Rightarrow> e01_state" where
  "opened_state options =
     \<lparr>st_worker_pool = [],
      st_decoded = (if eo_decoded_chunk_cache options then Some (dcc_new DECODED_CHUNK_CACHE_CHUNKS) else None)\<rparr>"

lemma open_written:
  assumes sys: "serves_file sys dat adl options p fl" and s: "spec_ok deflate adl s"
    and fl: "fl = write_e01 deflate adl s" and pol: "eo_section_policy options = SecError"
  obtains pool where "e01_open sys options [p] = Ok (written_reader deflate adl s options p fl pool, opened_state options)"
proof -
  let ?slots = "slots_set [] 0 (file_source fl)"
  obtain url path where u: "es_path_to_url sys p = Some url" "url_scheme url = ''file''" "url_file_path url = Some path"
    "os_open (es_os sys) path = Ok fl" using sys unfolding serves_file_def by blast
  have "segment_source sys None p = Ok (file_source fl)"
    by (simp add: segment_source_def u source_for_url_def file_source_open_def)
  then have src: "add_sources sys None 0 [p] [] = Ok ?slots" by simp
  have "slots_get ?slots 0 = Ok (file_source fl)" by (simp add: slots_get_set)
  then obtain io where io: "es_stream sys (es_cache sys ?slots) 0 = Ok io" "dat io = fl" "k_pos (es_env sys) io = 0"
    using sys unfolding serves_file_def by blast
  have "ewf_file (es_env sys) dat adl" using sys by (simp add: serves_file_def)
  then have "read_segment (es_env sys) p 0 io False = Ok (written_segment deflate adl s p)"
    by (rule read_written_segment [OF _ s]) (use io fl in simp_all)
  then have seg: "read_segments sys ?slots (eo_section_policy options = DamnTheTorpedoes) 0 [p] = Ok [written_segment deflate adl s p]"
    using pol by (simp add: segment_stream_def io(1))
  have b: "\<forall>n. es_build_pool sys n = Ok ()" using sys unfolding serves_file_def by blast
  obtain pool where pool: "chunk_pool sys (eo_parallel_chunk_threads options) = Ok pool" using chunk_pool_ok [OF b] by blast
  note z = sp_sizes [OF s]
  have "0 < sp_chunk_size s" using s unfolding spec_ok_def by blast
  moreover have "length (sp_img s) \<le> saturating_mul (sp_chunks s) (sp_chunk_size s)"
    using z(4,5) by (simp add: saturating_mul_def)
  moreover have "length (sp_chunk_records deflate adl s) = sp_chunks s" by (simp add: sp_chunk_records_def)
  moreover have "vs_chunk_count (sp_volume s) = sp_chunks s" "vs_bytes_per_sector (sp_volume s) = sp_bytes_per_sector s"
    "vs_total_sector_count (sp_volume s) = sp_sectors s" by (simp_all add: sp_volume_def)
  ultimately have "reader_of sys options ?slots \<lparr>em_volume = sp_volume s, em_md5 = None, em_sha1 = None, em_segment_paths = [p],
       em_chunks = sp_chunk_records deflate adl s\<rparr> = Ok (written_reader deflate adl s options p fl pool, opened_state options)"
    using pool by (simp add: reader_of_def Let_def validate_volume_def check_chunk_count_def validate_chunk_coverage_def
        z(1,2) written_reader_def opened_state_def)
  moreover have "es_cache_setup sys (e01_cache_config options) = Ok ()" "es_runtime sys = Ok ()" "\<not> starts_s3 p"
    using sys unfolding serves_file_def by blast+
  ultimately have "e01_open sys options [p] = Ok (written_reader deflate adl s options p fl pool, opened_state options)"
    by (simp add: e01_open_def open_impl_def src seg process_written del: add_sources.simps read_segments.simps)
  then show thesis by (rule that)
qed

subsection \<open>What an opened image holds\<close>

lemma written_chunk:
  assumes s: "spec_ok deflate adl s" and i: "i < sp_chunks s"
  shows "sub_list (write_e01 deflate adl s) (259 + sp_offset deflate adl s i) (length (sp_raw deflate adl s i)) = sp_raw deflate adl s i"
    and "259 + sp_offset deflate adl s (Suc i) \<le> length (write_e01 deflate adl s)"
proof -
  let ?w = "write_e01 deflate adl s" and ?rs = "sp_raws deflate adl s"
  have "drop 259 ?w = concat ?rs @ drop (length (concat ?rs)) (drop 259 ?w)"
    using write_drops(6) [of deflate adl s] by (metis append_take_drop_id)
  then obtain post where post: "drop 259 ?w = concat ?rs @ post" by blast
  have "sub_list ?w (259 + o') n = sub_list (drop 259 ?w) o' n" for o' n
    by (simp add: sub_list_def add.commute)
  then show "sub_list ?w (259 + sp_offset deflate adl s i) (length (sp_raw deflate adl s i)) = sp_raw deflate adl s i"
    using sub_list_concat_nth [of i ?rs post] i unfolding post by (simp add: sp_entries_nth sp_offset_def)
  show "259 + sp_offset deflate adl s (Suc i) \<le> length ?w"
    using sp_offset_le [of "Suc i" s deflate adl] i write_drops(5) [of deflate adl s] by simp
qed

lemma written_holds:
  fixes options :: e01_options and p :: string and fl :: bytes and pool :: "nat option"
  assumes k: "codec_ok k deflate adl" and s: "spec_ok deflate adl s" and c: "serves c 0 (write_e01 deflate adl s)"
  defines "rd \<equiv> written_reader deflate adl s options p fl pool"
  shows "e01_holds k deflate adl c rd (sp_chunk s) (sp_img s)"
proof -
  note z = sp_sizes [OF s]
  have cs: "0 < sp_chunk_size s" "length (sp_img s) + sp_chunk_size s < u64_lim"
    "\<forall>i < sp_chunks s. length (sp_raw deflate adl s i) \<le> sp_chunk_size s + 4" using s unfolding spec_ok_def by blast+
  have r: "er_chunks rd = sp_chunk_records deflate adl s" "er_chunk_size rd = sp_chunk_size s"
    "er_image_size rd = length (sp_img s)" "er_chunk_count rd = sp_chunks s" "er_segment_paths rd = [p]"
    by (simp_all add: rd_def written_reader_def)
  have n: "length (sp_chunk_records deflate adl s) = sp_chunks s" by (simp add: sp_chunk_records_def)
  have "\<forall>ch \<in> set (er_chunks rd). ch_segment ch < length (er_segment_paths rd)" by (auto simp: r sp_chunk_records_def)
  then have a: "addressable rd"
    using z(3-5) cs(1,2) by (simp add: addressable_def e01_reader_ok_def r n)
  have "\<exists>f. serves c (ch_segment (er_chunks rd ! i)) f \<and> stored_chunk deflate adl f (er_chunks rd ! i) (sp_chunk s i) \<and>
      ch_end_offset (er_chunks rd ! i) - ch_data_offset (er_chunks rd ! i) \<le> er_chunk_size rd + 4 \<and>
      part rd i \<le> length (sp_chunk s i) \<and>
      take (part rd i) (sp_chunk s i) = sub_list (sp_img s) (i * er_chunk_size rd) (part rd i)"
    if i: "i < sp_chunks s" and b: "i * sp_chunk_size s < length (sp_img s)" for i
  proof -
    have ch: "er_chunks rd ! i = \<lparr>ch_segment = 0, ch_data_offset = 259 + sp_offset deflate adl s i,
        ch_end_offset = 259 + sp_offset deflate adl s (Suc i), ch_compressed = sp_compressed s i\<rparr>"
      using i by (simp add: r sp_chunk_records_def)
    have p: "part rd i = min (sp_chunk_size s) (length (sp_img s) - i * sp_chunk_size s)" by (simp add: part_def r)
    then have d: "sp_chunk s i = sub_list (sp_img s) (i * er_chunk_size rd) (part rd i)" by (simp add: sp_chunk_def r)
    have l: "length (sp_chunk s i) = part rd i" unfolding d using b by (intro length_sub_list) (simp add: r p)
    have "0 < part rd i" using p b cs(1) by simp
    then have "sp_chunk s i \<noteq> []" using l by auto
    then have "stored_chunk deflate adl (write_e01 deflate adl s) (er_chunks rd ! i) (sp_chunk s i)"
      using written_chunk [OF s i] by (simp add: stored_chunk_def ch sp_offset_Suc [OF i] sp_raw_def)
    moreover have "ch_end_offset (er_chunks rd ! i) - ch_data_offset (er_chunks rd ! i) \<le> er_chunk_size rd + 4"
      using cs(3) i by (simp add: ch [unfolded r(1)] sp_offset_Suc r)
    ultimately show ?thesis using c l d ch by (intro exI [of _ "write_e01 deflate adl s"]) simp
  qed
  then show ?thesis unfolding e01_holds_def r n using k a r(2,3) by auto
qed

text \<open>C3: opening an E01 file that was written for an image and reading from it gives the image again: for every
  image, every geometry within the limits of the format, every choice of which chunks are compressed
  and every offset, a read gives exactly the bytes of the image, whatever the codec does inside, the
  parallel schedule and the options of the reader, and leaves the reader good for the next read.\<close>

theorem e01_roundtrip:
  assumes "serves_file sys dat adl options p (write_e01 deflate adl s)" "spec_ok deflate adl s"
    and "codec_ok k deflate adl" "eo_section_policy options = SecError"
    and "offset \<le> length (sp_img s)" "offset + n < u64_lim"
  shows "\<exists>rd st st'. e01_open sys options [p] = Ok (rd, st) \<and>
    e01_read_at_offset ry k (es_cache sys (er_slots rd)) spoil rd st offset n =
      (Ok (sub_list (sp_img s) offset (min n (length (sp_img s) - offset))), st') \<and>
    e01_state_ok k deflate adl (es_cache sys (er_slots rd)) rd (sp_chunk s) (sp_img s) st'"
proof -
  let ?w = "write_e01 deflate adl s"
  obtain pool where o: "e01_open sys options [p] = Ok (written_reader deflate adl s options p ?w pool, opened_state options)"
    by (rule open_written [OF assms(1,2) refl assms(4)])
  let ?rd = "written_reader deflate adl s options p ?w pool"
  have slots: "er_slots ?rd = slots_set [] 0 (file_source ?w)" "er_image_size ?rd = length (sp_img s)"
    by (simp_all add: written_reader_def)
  have "serves (es_cache sys (er_slots ?rd)) 0 ?w"
    using assms(1) unfolding serves_file_def slots by (simp add: slots_get_set)
  then have "e01_holds k deflate adl (es_cache sys (er_slots ?rd)) ?rd (sp_chunk s) (sp_img s)"
    by (rule written_holds [OF assms(3,2)])
  moreover have "cache_sound (part ?rd) (sp_chunk s) (dcc_new DECODED_CHUNK_CACHE_CHUNKS)"
    unfolding dcc.sound_def by (simp add: dcc_new_inv) (simp add: dcc_new_def)
  ultimately have "e01_state_ok k deflate adl (es_cache sys (er_slots ?rd)) ?rd (sp_chunk s) (sp_img s) (opened_state options)"
    by (simp add: e01_state_ok_def holds_decoded_def opened_state_def)
  then show ?thesis using e01_read_lemma [of k deflate adl _ ?rd "sp_chunk s" "sp_img s"] assms(5,6) o slots(2) by metis
qed

subsection \<open>A small image\<close>

definition file_sys :: "string \<Rightarrow> bytes \<Rightarrow> (bytes \<times> nat) e01_sys" where
  "file_sys name fl =
     \<lparr>es_env = mem_env, es_runtime = Ok (),
      es_path_to_url = (\<lambda>p. Some \<lparr>url_scheme = ''file'', url_text = p, url_file_path = Some p, url_host = None, url_key = None\<rparr>),
      es_os = \<lparr>os_metadata = (\<lambda>p. if p = name then Ok True else Err NotFound),
               os_open = (\<lambda>p. if p = name then Ok fl else Err NotFound)\<rparr>,
      es_s3_auth = Err Other, es_cache_setup = (\<lambda>cfg. Ok ()), es_cache = direct_cache,
      es_stream = (\<lambda>c idx. case cache_end c idx of
          Ok n \<Rightarrow> (case cache_read c idx 0 n of Ok bs \<Rightarrow> Ok (bs, 0) | _ \<Rightarrow> Err (KError ''IO''))
        | _ \<Rightarrow> Err (KError ''IO'')),
      es_parallelism = 8, es_live_pools = (\<lambda>n. False), es_build_pool = (\<lambda>n. Ok ())\<rparr>"

lemma mem_env_file: "ewf_file mem_env fst byte_sum"
proof -
  have "char_of (unat (of_nat (of_char ch) :: u8)) = ch" if "of_char ch < (128 :: nat)" for ch
  proof -
    have "unat (of_nat (of_char ch) :: u8) = of_char ch" using that by (simp add: unat_of_nat take_bit_nat_eq_self)
    then show ?thesis by simp
  qed
  then have "map (\<lambda>b. char_of (unat b)) (ascii s) = s" if "\<forall>ch \<in> set s. of_char ch < (128 :: nat)" for s
    using that by (simp add: ascii_def map_idI)
  then have "\<forall>s. (\<forall>ch \<in> set s. of_char ch < (128 :: nat)) \<longrightarrow> k_to_str mem_env (ascii s) = Ok s"
    by (simp add: mem_env_def)
  moreover have "\<forall>bs. k_adler32 mem_env bs = Ok (byte_sum bs) \<and> byte_sum bs < 2 ^ 32"
    by (simp add: mem_env_def byte_sum_def)
  moreover have "\<forall>io n. n \<le> length (fst io) \<longrightarrow> (\<exists>io'. k_seek mem_env io n = Ok io' \<and> fst io' = fst io \<and> k_pos mem_env io' = n)"
    by (auto simp: mem_env_def)
  moreover have "\<forall>io. k_size mem_env io = length (fst io)" by (auto simp: mem_env_def)
  ultimately show ?thesis using mem_env_ok unfolding ewf_file_def by blast
qed

lemma file_sys_serves:
  assumes "length fl < u64_lim" "\<not> starts_s3 name"
  shows "serves_file (file_sys name fl) fst byte_sum options name fl"
proof -
  have "\<exists>io. es_stream (file_sys name fl) c 0 = Ok io \<and> fst io = fl \<and> k_pos mem_env io = 0" if "serves c 0 fl" for c
    using servesD [OF that] by (simp add: file_sys_def mem_env_def)
  then show ?thesis
    using mem_env_file assms file_source_serves [OF _ assms(1)] by (auto simp: serves_file_def file_sys_def)
qed

definition sample_spec :: e01_spec where
  "sample_spec = \<lparr>sp_img = [1, 2, 3, 4, 5, 6, 7, 8, 9, 10], sp_sectors_per_chunk = 4, sp_bytes_per_sector = 2, sp_sectors = 5,
     sp_compressed = (\<lambda>i. i = 0)\<rparr>"

definition sample_written :: bytes where
  "sample_written = write_e01 plain_stream byte_sum sample_spec"

lemma sample_spec_ok: "spec_ok plain_stream byte_sum sample_spec"
proof -
  have c: "sp_chunks sample_spec = 2" "sp_chunk_size sample_spec = 8"
    "length (concat (sp_raws plain_stream byte_sum sample_spec)) = 18"
    "length (sp_raw plain_stream byte_sum sample_spec 0) = 12" "length (sp_raw plain_stream byte_sum sample_spec 1) = 6"
    by code_simp+
  have "length (sp_raw plain_stream byte_sum sample_spec i) \<le> 8 + 4" if "i < 2" for i
    using that c(4,5) by (cases "i = 0") (auto simp: less_2_cases_iff)
  then show ?thesis unfolding spec_ok_def c by (simp add: sample_spec_def MAX_TABLE_ENTRIES_def u64_lim_def)
qed

lemma sample_written_served: "serves_file (file_sys ''i.E01'' sample_written) fst byte_sum options ''i.E01'' sample_written"
proof (rule file_sys_serves)
  have "length (concat (sp_raws plain_stream byte_sum sample_spec)) = 18" "length (sp_entries plain_stream byte_sum sample_spec) = 2"
    by code_simp+
  then show "length sample_written < u64_lim"
    using write_drops(5) [of plain_stream byte_sum sample_spec] by (simp add: sample_written_def u64_lim_def)
qed (simp add: starts_s3_def)

theorem e01_roundtrip_witness:
  "\<exists>rd st st'. e01_open (file_sys ''i.E01'' sample_written) default_options [''i.E01''] = Ok (rd, st) \<and>
     e01_read_at_offset \<lparr>ry_schedule = [1, 0, 1], ry_pick = 0\<rparr> plain_codec (direct_cache (er_slots rd)) (\<lambda>off bs. bs) rd st 6 100 =
       (Ok [7, 8, 9, 10], st')"
proof -
  have p: "eo_section_policy default_options = SecError" "6 \<le> length (sp_img sample_spec)" "6 + 100 < u64_lim"
    "sub_list (sp_img sample_spec) 6 (min 100 (length (sp_img sample_spec) - 6)) = [7, 8, 9, 10]" by code_simp+
  have "es_cache (file_sys ''i.E01'' sample_written) = direct_cache" by (simp add: file_sys_def)
  then show ?thesis
    using e01_roundtrip [OF sample_written_served [unfolded sample_written_def] sample_spec_ok plain_codec_ok p(1-3),
        of "\<lparr>ry_schedule = [1, 0, 1], ry_pick = 0\<rparr>" "\<lambda>off bs. bs"] p(4)
    unfolding sample_written_def by auto
qed

lemma mem_env_words: "ewf_words mem_env"
  unfolding ewf_words_def
proof (intro allI impI)
  fix io :: "bytes \<times> nat" and n v io'
  assume "k_read_le mem_env io n = Ok (v, io')"
  then obtain bs where "length bs = n" "v = from_le_bytes bs"
    by (cases io) (auto simp: mem_env_def split: if_splits intro!: that length_sub_list)
  then show "v < 256 ^ n" using from_le_bytes_less [of bs] by simp
qed


lemma sample_written_state:
  "e01_state_ok plain_codec plain_stream byte_sum
     (es_cache (file_sys ''i.E01'' sample_written)
       (er_slots (written_reader plain_stream byte_sum sample_spec options ''i.E01'' sample_written pool)))
     (written_reader plain_stream byte_sum sample_spec options ''i.E01'' sample_written pool)
     (sp_chunk sample_spec) (sp_img sample_spec) (opened_state options)"
proof -
  let ?rd = "written_reader plain_stream byte_sum sample_spec options ''i.E01'' sample_written pool"
  have "serves (es_cache (file_sys ''i.E01'' sample_written) (er_slots ?rd)) 0 sample_written"
    using sample_written_served [of options] unfolding serves_file_def by (simp add: written_reader_def slots_get_set)
  then have "e01_holds plain_codec plain_stream byte_sum (es_cache (file_sys ''i.E01'' sample_written) (er_slots ?rd)) ?rd
      (sp_chunk sample_spec) (sp_img sample_spec)"
    unfolding sample_written_def by (rule written_holds [OF plain_codec_ok sample_spec_ok])
  moreover have "cache_sound (part ?rd) (sp_chunk sample_spec) (dcc_new DECODED_CHUNK_CACHE_CHUNKS)"
    unfolding dcc.sound_def by (simp add: dcc_new_inv) (simp add: dcc_new_def)
  ultimately show ?thesis by (simp add: e01_state_ok_def holds_decoded_def opened_state_def)
qed

text \<open>The sample found by its name, and opened with any options that insist on right sections.\<close>

lemma sample_e01_discovery:
  "validated_segment_paths ''i.E01'' (file_checker (es_os (file_sys ''i.E01'' fl))) = Ok [''i.E01'']"
proof -
  obtain rest where r: "segment_ext_iter (CHR ''E'') = [''E01'', ''E02'', ''E03'', ''E04''] @ rest"
    using first_exts by blast
  have lc: "to_ascii_lowercase ''E02'' = ''e02''" by code_simp
  have "glob_segments (file_checker (es_os (file_sys ''i.E01'' fl))) ''i'' (segment_ext_iter (CHR ''E'')) = Ok [''i.E01'']"
    unfolding r by (simp add: file_checker_def file_sys_def seg_name_def lc)
  moreover have "(validate_proto_extension ''i.E01'' :: (string, string) result) = Ok ''E01''" by code_simp
  moreover have "rsplit_once (CHR ''.'') ''i.E01'' = Some (''i'', ''E01'')" by code_simp
  ultimately show ?thesis by (simp add: validated_segment_paths_def)
qed

lemma sample_open_glob:
  assumes "eo_section_policy opts = SecError"
  obtains pool where "open_glob (file_sys ''i.E01'' sample_written) opts ''i.E01'' =
    Ok (written_reader plain_stream byte_sum sample_spec opts ''i.E01'' sample_written pool, opened_state opts)"
proof -
  obtain pool where o: "e01_open (file_sys ''i.E01'' sample_written) opts [''i.E01''] =
    Ok (written_reader plain_stream byte_sum sample_spec opts ''i.E01'' sample_written pool, opened_state opts)"
    by (rule open_written [OF sample_written_served sample_spec_ok sample_written_def assms])
  have "open_glob (file_sys ''i.E01'' sample_written) opts ''i.E01'' =
      open_impl (file_sys ''i.E01'' sample_written) opts None [''i.E01'']"
    using sample_e01_discovery [of sample_written] by (simp add: open_glob_def file_sys_def)
  moreover have "e01_open (file_sys ''i.E01'' sample_written) opts [''i.E01''] =
      open_impl (file_sys ''i.E01'' sample_written) opts None [''i.E01'']"
    by (simp add: e01_open_def file_sys_def starts_s3_def)
  ultimately have "open_glob (file_sys ''i.E01'' sample_written) opts ''i.E01'' = e01_open (file_sys ''i.E01'' sample_written) opts [''i.E01'']"
    by simp
  with o show thesis by (intro that [of pool]) simp
qed

end
