(* ===== verification/NbdE01.thy ===== *)
theory NbdE01
  imports NbdServer E01Image
begin

text \<open>
  The E01 half of \<open>diskimage-nbd/src/bin/diskimage-nbd.rs\<close>: the options with which the server opens an image and the
  adapter that serves it.

  A read of an E01 image changes the reader: its pool of workers and its cache of decoded chunks.  The
  sessions of \<open>Nbd\<close> see an image as a function of offset and length; the adapter is therefore taken over the
  states that earlier reads leave (\<open>e01_reads\<close>), one for each offset and length.

  Shown: whatever these states are, a session over an E01 image answers every command in turn, reads with
  the bytes of the image.
\<close>

subsection \<open>Opening for the server\<close>

text \<open>The fields of \<open>CommonArgs\<close> that shape the reader, with \<open>ignore_checksums\<close> of \<open>Args\<close>.\<close>

record serve_args =
  sa_ignore_checksums :: bool
  sa_readahead :: nat
  sa_s3_concurrency :: nat
  sa_cache_mem_mib :: nat
  sa_metadata_cache :: bool
  sa_content_cache_disk_mib :: nat
  sa_metadata_cache_disk_mib :: nat
  sa_metadata_cache_mem_mib :: nat
  sa_cache_dir :: "string option"
  sa_cache_chunk_size :: nat
  sa_cache_fetch_size :: "nat option"
  sa_cache_trace_log :: "string option"

definition serve_cache_mode :: "serve_args \<Rightarrow> cache_mode" where
  "serve_cache_mode a =
     (if sa_metadata_cache a
      then DualHybrid (sa_content_cache_disk_mib a) (sa_metadata_cache_mem_mib a) (sa_metadata_cache_disk_mib a)
      else SingleMemory)"

definition serve_fetch_size :: "serve_args \<Rightarrow> nat" where
  "serve_fetch_size a = (case sa_cache_fetch_size a of None \<Rightarrow> sa_cache_chunk_size a | Some n \<Rightarrow> n)"

definition serve_e01_options :: "serve_args \<Rightarrow> e01_options" where
  "serve_e01_options a =
     default_options
       \<lparr>eo_section_policy := SecError, eo_chunk_policy := (if sa_ignore_checksums a then PolZero else PolError),
        eo_foyer_readahead := sa_readahead a, eo_s3_concurrency := sa_s3_concurrency a,
        eo_cache_mem_mib := sa_cache_mem_mib a, eo_cache_block_size := sa_cache_chunk_size a,
        eo_cache_fetch_size := serve_fetch_size a, eo_cache_mode := serve_cache_mode a,
        eo_cache_dir := sa_cache_dir a, eo_io_log := sa_cache_trace_log a \<noteq> None\<rparr>"

definition serve_open_e01 ::
    "'io e01_sys \<Rightarrow> serve_args \<Rightarrow> string \<Rightarrow> (e01_reader \<times> e01_state, e01_open_error) result" where
  "serve_open_e01 sys a path = open_glob sys (serve_e01_options a) path"

subsection \<open>The adapter\<close>

record e01_served =
  sv_reader :: e01_reader
  sv_rayon :: "nat \<Rightarrow> nat \<Rightarrow> rayon"
  sv_codec :: codec
  sv_cache :: cache
  sv_spoil :: "nat \<Rightarrow> bytes \<Rightarrow> bytes"
  sv_state :: "nat \<Rightarrow> nat \<Rightarrow> e01_state"

definition e01_adapter :: "e01_served \<Rightarrow> image" where
  "e01_adapter r =
     \<lparr>img_size = er_image_size (sv_reader r),
      img_read = (\<lambda>off n.
        map_err (\<lambda>e. [None])
          (fst (e01_read_at_offset (sv_rayon r off n) (sv_codec r) (sv_cache r) (sv_spoil r) (sv_reader r) (sv_state r off n) off n)))\<rparr>"

text \<open>The states that reads leave, from the state \<open>st\<close> on.\<close>

inductive e01_reads :: "codec \<Rightarrow> cache \<Rightarrow> e01_reader \<Rightarrow> e01_state \<Rightarrow> e01_state \<Rightarrow> bool" for k c rd where
  none: "e01_reads k c rd st st"
| read: "e01_reads k c rd st st1 \<Longrightarrow> off + n < u64_lim \<Longrightarrow> e01_reads k c rd st (snd (e01_read_at_offset ry k c spoil rd st1 off n))"

lemma e01_reads_ok:
  "e01_reads k c rd st st' \<Longrightarrow> e01_state_ok k deflate adl c rd D img st \<Longrightarrow> e01_state_ok k deflate adl c rd D img st'"
proof (induction rule: e01_reads.induct)
  case (read st st1 off n ry spoil)
  then have ok: "e01_state_ok k deflate adl c rd D img st1" by blast
  show ?case
  proof (cases "off \<le> er_image_size rd")
    case True
    then show ?thesis using e01_read_lemma [OF ok True read.hyps(2), of ry spoil] by auto
  next
    case False
    then show ?thesis using ok by (simp add: e01_read_at_offset_def Let_def)
  qed
qed

definition e01_served_holds :: "e01_served \<Rightarrow> bytes \<Rightarrow> bool" where
  "e01_served_holds r img \<longleftrightarrow>
     (\<exists>deflate adl D st. e01_state_ok (sv_codec r) deflate adl (sv_cache r) (sv_reader r) D img st \<and>
        (\<forall>off n. e01_reads (sv_codec r) (sv_cache r) (sv_reader r) st (sv_state r off n)))"

interpretation e01: nbd_image e01_adapter e01_served_holds
proof unfold_locales
  fix r img assume h: "e01_served_holds r img"
  then obtain deflate adl D st where ok: "e01_state_ok (sv_codec r) deflate adl (sv_cache r) (sv_reader r) D img st"
    "\<forall>off n. e01_reads (sv_codec r) (sv_cache r) (sv_reader r) st (sv_state r off n)"
    unfolding e01_served_holds_def by blast
  then have sz: "er_image_size (sv_reader r) = length img" "length img < u64_lim"
    by (auto simp: e01_state_ok_def holds_decoded_def e01_holds_def addressable_def)
  then show "img_size (e01_adapter r) = length img \<and> length img < u64_lim" by (simp add: e01_adapter_def)
  fix off n assume "off + n \<le> length img" "0 < n"
  then have n: "off \<le> er_image_size (sv_reader r)" "off + n < u64_lim" "min n (er_image_size (sv_reader r) - off) = n"
    using sz by auto
  have "e01_state_ok (sv_codec r) deflate adl (sv_cache r) (sv_reader r) D img (sv_state r off n)"
    using e01_reads_ok ok by blast
  then show "img_read (e01_adapter r) off n = Ok (sub_list img off n)"
    using e01_read_lemma [OF _ n(1,2), of _ _ _ _ _ _ _ "sv_rayon r off n" "sv_spoil r"] n(3)
    by (fastforce simp: e01_adapter_def)
qed

text \<open>C12: a session over an E01 image, opened as the server opens it and read so often as sessions before it like: the
  client sends any sequence of well-formed commands and a disconnect; the server answers each in turn,
  reads with the bytes of the image, for every schedule of the parallel reads.\<close>

theorem e01_session_answers:
  assumes "serve_open_e01 sys a path = Ok (rd, st)" "e01_state_ok k deflate adl (es_cache sys (er_slots rd)) rd D img st"
    and "\<forall>off n. e01_reads k (es_cache sys (er_slots rd)) rd st (state off n)" "byteorder_ok bo"
    and "wf_request disc" "rq_typ disc = NBD_CMD_DISC" "list_all wf_command cmds"
    and "st_in s = concat (map command_bytes cmds) @ encode_request disc @ rest"
    and "length (replies img cmds) \<le> st_room s"
  shows "transmission bo
      (e01_adapter \<lparr>sv_reader = rd, sv_rayon = ry, sv_codec = k, sv_cache = es_cache sys (er_slots rd), sv_spoil = spoil,
         sv_state = state\<rparr>) (er_image_size rd) s =
    (Ok (), written (s\<lparr>st_in := rest\<rparr>) (replies img cmds))"
proof -
  let ?r = "\<lparr>sv_reader = rd, sv_rayon = ry, sv_codec = k, sv_cache = es_cache sys (er_slots rd), sv_spoil = spoil, sv_state = state\<rparr>"
  have "e01_served_holds ?r img" using assms(2,3) unfolding e01_served_holds_def by auto
  from e01.session_answers [OF assms(4) this assms(5-9)] show ?thesis by (simp add: e01_adapter_def)
qed

definition sample_serve_args :: serve_args where
  "sample_serve_args =
     \<lparr>sa_ignore_checksums = False, sa_readahead = 2, sa_s3_concurrency = 8, sa_cache_mem_mib = 1024, sa_metadata_cache = False,
      sa_content_cache_disk_mib = 4096, sa_metadata_cache_disk_mib = 4096, sa_metadata_cache_mem_mib = 256, sa_cache_dir = None,
      sa_cache_chunk_size = 1048576, sa_cache_fetch_size = None, sa_cache_trace_log = None\<rparr>"

theorem e01_session_answers_witness:
  "\<exists>rd st.
     serve_open_e01 (file_sys ''i.E01'' sample_written) sample_serve_args ''i.E01'' = Ok (rd, st) \<and>
     transmission std_byteorder
       (e01_adapter \<lparr>sv_reader = rd, sv_rayon = \<lambda>off n. \<lparr>ry_schedule = [1, 0], ry_pick = 0\<rparr>, sv_codec = plain_codec,
          sv_cache = es_cache (file_sys ''i.E01'' sample_written) (er_slots rd), sv_spoil = \<lambda>off bs. bs, sv_state = \<lambda>off n. st\<rparr>)
       (er_image_size rd) (fresh_stream (concat (map command_bytes sample_commands) @ encode_request sample_disc @ [1])) =
     (Ok (), written (fresh_stream [1]) (replies (sp_img sample_spec) sample_commands))"
proof -
  let ?sys = "file_sys ''i.E01'' sample_written" and ?opts = "serve_e01_options sample_serve_args"
  let ?s = "fresh_stream (concat (map command_bytes sample_commands) @ encode_request sample_disc @ [1])"
  have pol: "eo_section_policy ?opts = SecError" by (simp add: serve_e01_options_def)
  obtain pool where o: "open_glob ?sys ?opts ''i.E01'' =
    Ok (written_reader plain_stream byte_sum sample_spec ?opts ''i.E01'' sample_written pool, opened_state ?opts)"
    by (rule sample_open_glob [OF pol])
  let ?rd = "written_reader plain_stream byte_sum sample_spec ?opts ''i.E01'' sample_written pool" and ?st = "opened_state ?opts"
  have so: "serve_open_e01 ?sys sample_serve_args ''i.E01'' = Ok (?rd, ?st)" using o by (simp add: serve_open_e01_def)
  have in': "st_in ?s = concat (map command_bytes sample_commands) @ encode_request sample_disc @ [1]"
    by (simp add: fresh_stream_def)
  have room: "length (replies (sp_img sample_spec) sample_commands) \<le> st_room ?s"
    by code_simp
  have "transmission std_byteorder
       (e01_adapter \<lparr>sv_reader = ?rd, sv_rayon = \<lambda>off n. \<lparr>ry_schedule = [1, 0], ry_pick = 0\<rparr>, sv_codec = plain_codec,
          sv_cache = es_cache ?sys (er_slots ?rd), sv_spoil = \<lambda>off bs. bs, sv_state = \<lambda>off n. ?st\<rparr>)
       (er_image_size ?rd) ?s =
     (Ok (), written (?s\<lparr>st_in := [1]\<rparr>) (replies (sp_img sample_spec) sample_commands))"
    by (rule e01_session_answers [OF so sample_written_state _ std_byteorder_ok sample_commands_wf(2,3,1) in' room])
      (simp add: e01_reads.none)
  then show ?thesis using so by (intro exI [of _ ?rd] exI [of _ ?st]) (simp add: fresh_stream_def)
qed

end
