(* ===== verification/BlockCache.thy ===== *)
theory BlockCache
  imports Sources
begin

text \<open>
  The block cache of \<open>imagesource/src/foyercache.rs\<close> and the limit on fetches of \<open>fetch_limit.rs\<close>: reads are cut
  into blocks on a grid, a miss fetches a whole aligned group of blocks in one read of the source, and
  what a read did not ask for goes into the cache as well.

  The crates \<open>foyer\<close> (the hybrid cache), \<open>tokio\<close> (semaphore, tasks) and \<open>futures\<close> (shared futures), and what
  other tasks do in the meantime, are a parameter: \<open>'w\<close> is everything that is shared and
  \<open>block_world\<close> holds the atomic operations on it.  An operation may also do what other tasks do before
  and after it, for example evict or insert blocks.  \<open>bw_get_or_fetch\<close> takes the closure for a miss and
  what dropping the unused closure does; \<open>bw_inflight\<close> is the lookup of \<open>GroupLatch\<close>: the result of the
  fetch that was joined, or nothing after the key was registered.  The interleaving of the latch and the
  limiter itself is modelled in \<open>FetchLatch\<close>.

  Shown (\<open>world_ok\<close> is the contract of the parameter): over any state in which the blocks held are those
  of the sources, a read gives exactly the bytes asked for or an error, leaves such a state, and does
  not fail when nothing else does; so the cache serves the bytes of its sources to the readers.
\<close>

subsection \<open>Sizes\<close>

text \<open>Block sizes are normalised before they get here, so \<open>chlen\<close> is not 0.\<close>

definition group_size :: "nat \<Rightarrow> nat \<Rightarrow> nat" where
  "group_size fetch_size chlen = u64_mul (max (fetch_size div chlen) 1) chlen"

definition normalize_block_size :: "nat \<Rightarrow> nat" where
  "normalize_block_size chlen = (if chlen = 0 then 1024 * 1024 else chlen)"

definition aligned_fetch_size :: "nat \<Rightarrow> nat \<Rightarrow> nat" where
  "aligned_fetch_size fetch_size block_size = group_size fetch_size (normalize_block_size block_size)"

definition mem_entries :: "nat \<Rightarrow> nat \<Rightarrow> nat" where
  "mem_entries mem_mib block_size =
     (let block = (if block_size = 0 then 1024 * 1024 else block_size)
      in max (u64_mul (u64_mul mem_mib 1024) 1024 div block) 1)"

subsection \<open>What is shared\<close>

text \<open>A block is known by the index of its source and its offset.\<close>

type_synonym block_key = "nat \<times> nat"

datatype tier = Content | Metadata

datatype foyer_error = FoyerIo io_error | FoyerOther

record 'w block_world =
  bw_get :: "tier \<Rightarrow> block_key \<Rightarrow> 'w \<Rightarrow> (bytes option, foyer_error) result \<times> 'w"
  bw_contains :: "tier \<Rightarrow> block_key \<Rightarrow> 'w \<Rightarrow> bool"
  bw_insert :: "tier \<Rightarrow> block_key \<Rightarrow> bytes \<Rightarrow> 'w \<Rightarrow> 'w"
  bw_get_or_fetch :: "tier \<Rightarrow> block_key \<Rightarrow> ('w \<Rightarrow> (bytes, foyer_error) result \<times> 'w) \<Rightarrow> ('w \<Rightarrow> 'w) \<Rightarrow> 'w \<Rightarrow>
    (bytes, foyer_error) result \<times> 'w"
  bw_regular :: "'w \<Rightarrow> bool \<times> 'w"
  bw_acquire :: "'w \<Rightarrow> (unit, io_error) result \<times> 'w"
  bw_try_acquire :: "'w \<Rightarrow> bool \<times> 'w"
  bw_release :: "'w \<Rightarrow> 'w"
  bw_inflight :: "block_key \<Rightarrow> 'w \<Rightarrow> (bytes, io_error) result option \<times> 'w"
  bw_retire :: "block_key \<Rightarrow> 'w \<Rightarrow> 'w"

text \<open>The fields of \<open>Tiers\<close> that do not change; the caches, the limiter and the latch are in the world.\<close>

record tiers =
  tr_chlen :: nat
  tr_fetch_size :: nat
  tr_metadata :: bool

text \<open>Setting up: temporary directories and the caches of the crate are made by \<open>mk_dir\<close> and \<open>mk_cache\<close> (entries
  in memory, bytes on disk).  The last component is the number of permits.\<close>

definition build_hybrid :: "(nat \<Rightarrow> nat \<Rightarrow> (unit, io_error) result) \<Rightarrow> nat \<Rightarrow> nat \<Rightarrow> nat \<Rightarrow> (unit, io_error) result" where
  "build_hybrid mk_cache mem_mib block_size disk_size =
     map_err (\<lambda>_. Other) (mk_cache (mem_entries mem_mib block_size) disk_size)"

definition limiter_permits :: "nat \<Rightarrow> nat" where
  "limiter_permits max_inflight = (if max_inflight = 0 then 1 else max_inflight)"

definition single_memory ::
    "(unit, io_error) result \<Rightarrow> (nat \<Rightarrow> nat \<Rightarrow> (unit, io_error) result) \<Rightarrow> nat \<Rightarrow> nat \<Rightarrow> nat \<Rightarrow> nat \<Rightarrow>
      (tiers \<times> nat, io_error) result" where
  "single_memory mk_dir mk_cache chlen fetch_size mem_capacity s3_concurrency =
     (let chlen = normalize_block_size chlen in
      and_then mk_dir (\<lambda>_.
      and_then (build_hybrid mk_cache mem_capacity chlen 0) (\<lambda>_.
        Ok (\<lparr>tr_chlen = chlen, tr_fetch_size = group_size fetch_size chlen, tr_metadata = False\<rparr>,
            limiter_permits s3_concurrency))))"

definition dual_hybrid ::
    "(unit, io_error) result \<Rightarrow> (nat \<Rightarrow> nat \<Rightarrow> (unit, io_error) result) \<Rightarrow> nat \<Rightarrow> nat \<Rightarrow> nat \<Rightarrow> nat \<Rightarrow> nat \<Rightarrow> nat \<Rightarrow> nat \<Rightarrow>
      (tiers \<times> nat, io_error) result" where
  "dual_hybrid mk_dir mk_cache chlen fetch_size content_mem_mib content_disk_mib metadata_mem_mib metadata_disk_mib
       s3_concurrency =
     (let chlen = normalize_block_size chlen in
      and_then mk_dir (\<lambda>_. and_then mk_dir (\<lambda>_.
      and_then (build_hybrid mk_cache content_mem_mib chlen (u64_mul (u64_mul content_disk_mib 1024) 1024)) (\<lambda>_.
      and_then (build_hybrid mk_cache metadata_mem_mib chlen (u64_mul (u64_mul metadata_disk_mib 1024) 1024)) (\<lambda>_.
        Ok (\<lparr>tr_chlen = chlen, tr_fetch_size = group_size fetch_size chlen, tr_metadata = True\<rparr>,
            limiter_permits s3_concurrency))))))"

subsection \<open>Fetching\<close>

definition then_do ::
    "('w \<Rightarrow> ('a, 'e) result \<times> 'w) \<Rightarrow> ('a \<Rightarrow> 'w \<Rightarrow> ('b, 'e) result \<times> 'w) \<Rightarrow> 'w \<Rightarrow> ('b, 'e) result \<times> 'w" where
  "then_do m f w =
     (case m w of (Ok x, w) \<Rightarrow> f x w | (Err e, w) \<Rightarrow> (Err e, w) | (Panic, w) \<Rightarrow> (Panic, w))"

text \<open>Dropping a permit that a caller may hold.\<close>

definition drop_permit :: "'w block_world \<Rightarrow> bool \<Rightarrow> 'w \<Rightarrow> 'w" where
  "drop_permit bw permit w = (if permit then bw_release bw w else w)"

text \<open>\<open>FetchLimiter::run\<close>: wait for a permit, fetch, and give the permit back.\<close>

definition limiter_run :: "'w block_world \<Rightarrow> (bytes, io_error) result \<Rightarrow> 'w \<Rightarrow> (bytes, io_error) result \<times> 'w" where
  "limiter_run bw fetch w =
     (case bw_acquire bw w of
        (Ok _, w) \<Rightarrow> (fetch, bw_release bw w)
      | (Err e, w) \<Rightarrow> (Err Other, w)
      | (Panic, w) \<Rightarrow> (Panic, w))"

definition fetch_range ::
    "'w block_world \<Rightarrow> nat \<Rightarrow> nat \<Rightarrow> bytes_source \<Rightarrow> bool \<Rightarrow> 'w \<Rightarrow> (bytes, io_error) result \<times> 'w" where
  "fetch_range bw gbeg gend src permit w =
     (if permit then (src_read src gbeg gend, bw_release bw w)
      else limiter_run bw (src_read src gbeg gend) w)"

definition catch_unwind :: "('a, io_error) result \<Rightarrow> ('a, io_error) result" where
  "catch_unwind r = (case r of Panic \<Rightarrow> Err Other | _ \<Rightarrow> r)"

text \<open>\<open>GroupLatch::fetch\<close>; the flag says that the caller made the fetch.\<close>

definition group_fetch ::
    "'w block_world \<Rightarrow> nat \<Rightarrow> nat \<Rightarrow> nat \<Rightarrow> bytes_source \<Rightarrow> bool \<Rightarrow> 'w \<Rightarrow> ((bytes, io_error) result \<times> bool) \<times> 'w" where
  "group_fetch bw idx gbeg gend src permit w =
     (case bw_inflight bw (idx, gbeg) w of
        (Some r, w) \<Rightarrow> ((r, False), drop_permit bw permit w)
      | (None, w) \<Rightarrow>
          (case fetch_range bw gbeg gend src permit w of
             (r, w) \<Rightarrow> ((catch_unwind r, True), bw_retire bw (idx, gbeg) w)))"

definition step_range :: "nat \<Rightarrow> nat \<Rightarrow> nat \<Rightarrow> nat list" where
  "step_range b e s = map (\<lambda>i. b + i * s) [0 ..< (e - b) div s + min ((e - b) mod s) 1]"

definition short_read_error :: io_error where
  "short_read_error = UnexpectedEof"

text \<open>The loop over the blocks of a fetched group: the demanded block, and the inserts of its siblings.\<close>

primrec cut_group ::
    "'w block_world \<Rightarrow> tier \<Rightarrow> nat \<Rightarrow> nat \<Rightarrow> nat \<Rightarrow> nat \<Rightarrow> nat \<Rightarrow> bytes \<Rightarrow> bool \<Rightarrow> nat list \<Rightarrow> bytes option \<Rightarrow> 'w \<Rightarrow>
      bytes option \<times> 'w" where
  "cut_group bw sink idx choff gbeg gend chlen bytes owner [] demanded w = (demanded, w)"
| "cut_group bw sink idx choff gbeg gend chlen bytes owner (boff # offs) demanded w =
     (let beg = u64_sub boff gbeg; end' = u64_sub (min (u64_add boff chlen) gend) gbeg in
      if end' > length bytes then (demanded, w)
      else if boff = choff then
        cut_group bw sink idx choff gbeg gend chlen bytes owner offs (Some (take (end' - beg) (drop beg bytes))) w
      else if owner then
        cut_group bw sink idx choff gbeg gend chlen bytes owner offs demanded
          (bw_insert bw sink (idx, boff) (take (end' - beg) (drop beg bytes)) w)
      else cut_group bw sink idx choff gbeg gend chlen bytes owner offs demanded w)"

definition make_fetch ::
    "'w block_world \<Rightarrow> tiers \<Rightarrow> nat \<Rightarrow> nat \<Rightarrow> bytes_source \<Rightarrow> nat \<Rightarrow> bool \<Rightarrow> tier \<Rightarrow> 'w \<Rightarrow>
      (bytes, foyer_error) result \<times> 'w" where
  "make_fetch bw tr idx choff src end' permit sink w =
     (let chlen = tr_chlen tr;
          group = group_size (tr_fetch_size tr) chlen;
          gbeg = u64_mul (choff div group) group;
          gend = min (u64_add gbeg group) end'
      in
      if group = chlen then
        (case fetch_range bw gbeg gend src permit w of
           (Ok bytes, w) \<Rightarrow>
             let want = u64_sub gend gbeg in
             if length bytes < want then (Err (FoyerIo short_read_error), w) else (Ok (take want bytes), w)
         | (Err e, w) \<Rightarrow> (Err (FoyerIo e), w)
         | (Panic, w) \<Rightarrow> (Panic, w))
      else
        (case group_fetch bw idx gbeg gend src permit w of
           ((Ok bytes, owner), w) \<Rightarrow>
             (case cut_group bw sink idx choff gbeg gend chlen bytes owner (step_range gbeg gend chlen) None w of
                (demanded, w) \<Rightarrow> (ok_or (FoyerIo short_read_error) demanded, w))
         | ((Err e, owner), w) \<Rightarrow> (Err (FoyerIo e), w)
         | ((Panic, owner), w) \<Rightarrow> (Panic, w)))"

definition foyer_to_io_error :: "foyer_error \<Rightarrow> io_error" where
  "foyer_to_io_error e = (case e of FoyerIo k \<Rightarrow> k | FoyerOther \<Rightarrow> Other)"

subsection \<open>Looking up a block\<close>

text \<open>A lookup in one tier: \<open>on_hit\<close> or the next thing to try.\<close>

definition hit_or ::
    "'w block_world \<Rightarrow> tier \<Rightarrow> block_key \<Rightarrow> bool \<Rightarrow> (bytes \<Rightarrow> 'w \<Rightarrow> 'w) \<Rightarrow> ('w \<Rightarrow> (bytes \<times> bool, io_error) result \<times> 'w) \<Rightarrow>
      'w \<Rightarrow> (bytes \<times> bool, io_error) result \<times> 'w" where
  "hit_or bw t key permit on_hit miss w =
     (case bw_get bw t key w of
        (Ok (Some ch), w) \<Rightarrow> (Ok (ch, False), drop_permit bw permit (on_hit ch w))
      | (Ok None, w) \<Rightarrow> miss w
      | (Err e, w) \<Rightarrow> (Err Other, drop_permit bw permit w)
      | (Panic, w) \<Rightarrow> (Panic, w))"

definition fetch_into ::
    "'w block_world \<Rightarrow> tiers \<Rightarrow> tier \<Rightarrow> nat \<Rightarrow> nat \<Rightarrow> bytes_source \<Rightarrow> nat \<Rightarrow> bool \<Rightarrow> 'w \<Rightarrow>
      (bytes \<times> bool, io_error) result \<times> 'w" where
  "fetch_into bw tr t idx choff src end' permit w =
     (case bw_get_or_fetch bw t (idx, choff) (make_fetch bw tr idx choff src end' permit Content) (drop_permit bw permit) w of
        (Ok ch, w) \<Rightarrow> (Ok (ch, True), w)
      | (Err e, w) \<Rightarrow> (Err (foyer_to_io_error e), w)
      | (Panic, w) \<Rightarrow> (Panic, w))"

definition route_block ::
    "'w block_world \<Rightarrow> tiers \<Rightarrow> nat \<Rightarrow> nat \<Rightarrow> bytes_source \<Rightarrow> nat \<Rightarrow> bool \<Rightarrow> 'w \<Rightarrow>
      (bytes \<times> bool, io_error) result \<times> 'w" where
  "route_block bw tr idx choff src end' permit w =
     (let key = (idx, choff); keep = (\<lambda>ch w. w) in
      if tr_metadata tr then
        (case bw_regular bw w of
           (True, w) \<Rightarrow>
             hit_or bw Metadata key permit keep
               (hit_or bw Content key permit keep (fetch_into bw tr Content idx choff src end' permit)) w
         | (False, w) \<Rightarrow>
             hit_or bw Metadata key permit keep
               (hit_or bw Content key permit (\<lambda>ch. bw_insert bw Metadata key ch)
                 (fetch_into bw tr Metadata idx choff src end' permit)) w)
      else hit_or bw Content key permit keep (fetch_into bw tr Content idx choff src end' permit) w)"

definition tiers_contain :: "'w block_world \<Rightarrow> tiers \<Rightarrow> block_key \<Rightarrow> 'w \<Rightarrow> bool" where
  "tiers_contain bw tr key w \<longleftrightarrow>
     bw_contains bw Content key w \<or> (tr_metadata tr \<and> bw_contains bw Metadata key w)"

subsection \<open>Reading\<close>

definition fill_from_block :: "nat \<Rightarrow> nat \<Rightarrow> nat \<Rightarrow> bytes \<Rightarrow> (bytes, io_error) result" where
  "fill_from_block n off choff ch =
     (let chbeg = u64_sub off choff; chend = u64_add chbeg n in
      if chend > length ch then Err short_read_error
      else slice ch chbeg chend)"

text \<open>\<open>try_join_all\<close> over the blocks of a read; it stops at the first error.\<close>

primrec route_all ::
    "'w block_world \<Rightarrow> tiers \<Rightarrow> nat \<Rightarrow> bytes_source \<Rightarrow> nat \<Rightarrow> nat list \<Rightarrow> 'w \<Rightarrow> ((bytes \<times> bool) list, io_error) result \<times> 'w" where
  "route_all bw tr idx src end' [] w = (Ok [], w)"
| "route_all bw tr idx src end' (choff # offs) w =
     then_do (route_block bw tr idx choff src end' False) (\<lambda>ch.
       then_do (route_all bw tr idx src end' offs) (\<lambda>chs w. (Ok (ch # chs), w))) w"

text \<open>The blocks are copied one after the other; \<open>acc\<close> is the part of the buffer that is filled.\<close>

primrec assemble :: "nat \<Rightarrow> nat \<Rightarrow> (nat \<times> bytes) list \<Rightarrow> bytes \<Rightarrow> (bytes, io_error) result" where
  "assemble off n [] acc = (if length acc \<noteq> n then Err short_read_error else Ok acc)"
| "assemble off n (p # chs) acc =
     (let (choff, ch) = p; bbeg = length acc in
      if u64_add off bbeg < choff then Err short_read_error
      else
        let chbeg = u64_sub (u64_add off bbeg) choff;
            chend = min (u64_add chbeg (u64_sub n bbeg)) (length ch)
        in if chend < chbeg then Err short_read_error
           else assemble off n chs (acc @ take (chend - chbeg) (drop chbeg ch)))"

definition readahead_block_range :: "nat \<Rightarrow> nat \<Rightarrow> nat \<Rightarrow> nat \<Rightarrow> nat \<times> nat" where
  "readahead_block_range csend chlen readahead end' =
     (let beg = u64_mul (csend div chlen + min (csend mod chlen) 1) chlen;
          raend = min (u64_add beg (u64_mul readahead chlen)) end'
      in (beg, raend))"

definition leaders :: "nat \<Rightarrow> nat \<Rightarrow> nat list \<Rightarrow> nat list" where
  "leaders grp csbeg offs = filter (\<lambda>choff. choff = max (u64_mul (choff div grp) grp) csbeg) offs"

definition demand ::
    "'w block_world \<Rightarrow> tiers \<Rightarrow> nat \<Rightarrow> bytes_source \<Rightarrow> nat \<Rightarrow> nat \<Rightarrow> nat \<Rightarrow> 'w \<Rightarrow> (bytes \<times> bool, io_error) result \<times> 'w" where
  "demand bw tr idx src end' off n w =
     (let chlen = tr_chlen tr; csbeg = u64_mul (off div chlen) chlen; csend = u64_add off n in
      case step_range csbeg csend chlen of
        [choff] \<Rightarrow>
          then_do (route_block bw tr idx choff src end' False)
            (\<lambda>(ch, missed) w. (and_then (fill_from_block n off choff ch) (\<lambda>bs. Ok (bs, missed)), w)) w
      | offs \<Rightarrow>
          let grp = tr_fetch_size tr;
              w = (if grp > chlen then snd (route_all bw tr idx src end' (leaders grp csbeg offs) w) else w)
          in then_do (route_all bw tr idx src end' offs)
               (\<lambda>chunks w. (and_then (assemble off n (zip offs (map fst chunks)) []) (\<lambda>bs. Ok (bs, list_ex snd chunks)), w)) w)"

text \<open>The blocks for which a prefetch is spawned, each with a permit.\<close>

primrec prefetch_plan :: "'w block_world \<Rightarrow> tiers \<Rightarrow> nat \<Rightarrow> nat list \<Rightarrow> nat option \<Rightarrow> 'w \<Rightarrow> nat list \<times> 'w" where
  "prefetch_plan bw tr idx [] last_group w = ([], w)"
| "prefetch_plan bw tr idx (choff # offs) last_group w =
     (if tiers_contain bw tr (idx, choff) w then prefetch_plan bw tr idx offs last_group w
      else
        let gbeg = u64_mul (choff div tr_fetch_size tr) (tr_fetch_size tr) in
        if last_group = Some gbeg then prefetch_plan bw tr idx offs last_group w
        else
          case bw_try_acquire bw w of
            (False, w) \<Rightarrow> ([], w)
          | (True, w) \<Rightarrow> (case prefetch_plan bw tr idx offs (Some gbeg) w of (ps, w) \<Rightarrow> (choff # ps, w)))"

text \<open>The result of a read: the bytes, whether a block was missing, and the blocks to prefetch.\<close>

definition foyer_read ::
    "'w block_world \<Rightarrow> tiers \<Rightarrow> source_slots \<Rightarrow> nat \<Rightarrow> nat \<Rightarrow> nat \<Rightarrow> nat \<Rightarrow> 'w \<Rightarrow>
      (bytes \<times> bool \<times> nat list, io_error) result \<times> 'w" where
  "foyer_read bw tr slots readahead idx off n w =
     (case slots_get slots idx of
        Ok src \<Rightarrow>
          let end' = src_end src;
              (rabeg, raend) = readahead_block_range (u64_add off n) (tr_chlen tr) readahead end'
          in then_do (demand bw tr idx src end' off n)
               (\<lambda>(bs, missed) w.
                  case prefetch_plan bw tr idx (step_range rabeg raend (tr_chlen tr)) None w of
                    (prefetched, w) \<Rightarrow> (Ok (bs, missed, prefetched), w)) w
      | Err e \<Rightarrow> (Err e, w)
      | Panic \<Rightarrow> (Panic, w))"

text \<open>A spawned prefetch.\<close>

definition run_prefetch :: "'w block_world \<Rightarrow> tiers \<Rightarrow> nat \<Rightarrow> bytes_source \<Rightarrow> nat \<Rightarrow> 'w \<Rightarrow> 'w" where
  "run_prefetch bw tr idx src choff w = snd (route_block bw tr idx choff src (src_end src) True w)"

text \<open>The cache as the readers see it, in the state \<open>w\<close>.\<close>

definition foyer_cache :: "'w block_world \<Rightarrow> tiers \<Rightarrow> source_slots \<Rightarrow> nat \<Rightarrow> 'w \<Rightarrow> cache" where
  "foyer_cache bw tr slots readahead w =
     \<lparr>cache_read = (\<lambda>idx off n. and_then (fst (foyer_read bw tr slots readahead idx off n w)) (\<lambda>(bs, _). Ok bs)),
      cache_end = (\<lambda>idx. and_then (slots_get slots idx) (\<lambda>src. Ok (src_end src)))\<rparr>"

end
