(* ===== verification/BlockReads.thy ===== *)
theory BlockReads
  imports BlockCache
begin

text \<open>
  What the block cache guarantees: \<open>world_ok\<close> states what the crates behind it promise, and that the
  blocks held are those of the sources (the invariant \<open>I\<close>); every fetch, lookup, read and prefetch keeps it.

  The lemmas follow the code from the inside out: the grid of blocks, one fetch (\<open>cut_group_ok\<close>,
  \<open>make_fetch_ok\<close>), one lookup (\<open>route_block_ok\<close>), one read (\<open>demand_ok\<close>), read-ahead.  All of them are stated for
  both values of \<open>strict\<close>: without it sources and system may fail or come back short, with it nothing fails
  within the sources and then neither does the cache.
\<close>

subsection \<open>Ranges and sizes\<close>

lemma step_range_Nil: "e \<le> b \<Longrightarrow> step_range b e s = []"
  by (simp add: step_range_def)

lemma step_range_Cons:
  assumes "b < e" "0 < s"
  shows "step_range b e s = b # step_range (b + s) e s"
proof -
  let ?c = "\<lambda>m. m div s + min (m mod s) 1"
  have "?c (e - b) = Suc (?c (e - (b + s)))"
  proof (cases "e - b \<le> s")
    case True
    then show ?thesis using assms by (cases "e - b = s") (auto simp: min_def)
  next
    case False
    define m where "m = e - b - s"
    have "e - b = m + s" "e - (b + s) = m" using False by (simp_all add: m_def)
    then show ?thesis using div_add_self2 [of s m] assms(2) by simp
  qed
  then have "step_range b e s = b # map (\<lambda>i. b + i * s) (map Suc [0 ..< ?c (e - (b + s))])"
    unfolding step_range_def by (simp add: upt_conv_Cons map_Suc_upt del: upt_Suc)
  then show ?thesis by (simp add: step_range_def algebra_simps comp_def)
qed

lemma set_step_range:
  assumes "0 < s"
  shows "set (step_range b e s) = {b + i * s |i. b + i * s < e}"
proof (induction "e - b" arbitrary: b rule: less_induct)
  case less
  show ?case
  proof (cases "b < e")
    case True
    have "{b + i * s |i. b + i * s < e} = insert b {b + s + i * s |i. b + s + i * s < e}" (is "?l = ?r")
    proof
      show "?l \<subseteq> ?r"
      proof
        fix x assume "x \<in> ?l"
        then obtain i where "x = b + i * s" "x < e" by blast
        then show "x \<in> ?r" by (cases i) (auto simp: algebra_simps)
      qed
      show "?r \<subseteq> ?l"
      proof
        fix x assume "x \<in> ?r"
        then consider "x = b" | i where "x = b + s + i * s" "x < e" by blast
        then show "x \<in> ?l"
        proof cases
          case 1
          then show ?thesis using True by (auto intro: exI [of _ 0])
        next
          case 2
          then show ?thesis by (auto intro!: exI [of _ "Suc i"])
        qed
      qed
    qed
    then show ?thesis using less.hyps [of "b + s"] True assms by (simp add: step_range_Cons)
  next
    case False
    then show ?thesis by (simp add: step_range_Nil)
  qed
qed

lemma sorted_step_range: "sorted_wrt (<) (step_range b e s) \<or> s = 0"
  by (cases "s = 0") (simp_all add: step_range_def sorted_wrt_map)

text \<open>The sizes that the constructors give.\<close>

definition tiers_ok :: "tiers \<Rightarrow> bool" where
  "tiers_ok tr \<longleftrightarrow> 0 < tr_chlen tr \<and> 0 < tr_fetch_size tr \<and> tr_chlen tr dvd tr_fetch_size tr \<and>
     group_size (tr_fetch_size tr) (tr_chlen tr) = tr_fetch_size tr"

lemma group_size_exact:
  assumes "0 < chlen" "fetch_size + chlen < u64_lim"
  shows "chlen dvd group_size fetch_size chlen" "0 < group_size fetch_size chlen"
    "group_size (group_size fetch_size chlen) chlen = group_size fetch_size chlen"
    "group_size fetch_size chlen \<le> max fetch_size chlen"
    "chlen \<le> group_size fetch_size chlen"
proof -
  let ?g = "max (fetch_size div chlen) 1 * chlen"
  have le: "?g \<le> max fetch_size chlen"
    using div_times_less_eq_dividend [of fetch_size chlen] by (cases "chlen \<le> fetch_size") (simp_all add: nat_mult_max_left le_max_iff_disj)
  then have e: "group_size fetch_size chlen = ?g"
    using assms by (simp add: group_size_def)
  show "chlen dvd group_size fetch_size chlen" "0 < group_size fetch_size chlen" "chlen \<le> group_size fetch_size chlen"
    using assms(1) by (simp_all add: e)
  show "group_size fetch_size chlen \<le> max fetch_size chlen" using le e by simp
  have "max (?g div chlen) 1 = max (fetch_size div chlen) 1" using assms(1) by simp
  then show "group_size (group_size fetch_size chlen) chlen = group_size fetch_size chlen"
    using e by (simp add: group_size_def)
qed

subsection \<open>What the world promises\<close>

definition block_bytes :: "(nat \<Rightarrow> bytes) \<Rightarrow> nat \<Rightarrow> block_key \<Rightarrow> bytes" where
  "block_bytes data chlen key = sub_list (data (fst key)) (snd key) (min chlen (length (data (fst key)) - snd key))"

text \<open>\<open>strict\<close> asks for success: with it, nothing may fail within the sources.\<close>

definition good_block :: "bool \<Rightarrow> (nat \<Rightarrow> bytes) \<Rightarrow> nat \<Rightarrow> block_key \<Rightarrow> (bytes, 'e) result \<Rightarrow> bool" where
  "good_block strict data chlen key r \<longleftrightarrow>
     (case r of
        Ok b \<Rightarrow> b = block_bytes data chlen key
      | Err e \<Rightarrow> \<not> strict \<or> length (data (fst key)) \<le> snd key
      | Panic \<Rightarrow> False)"

text \<open>A read of a range of a source may come back short or long, but not wrong.\<close>

definition good_range :: "bool \<Rightarrow> bytes \<Rightarrow> nat \<Rightarrow> nat \<Rightarrow> (bytes, 'e) result \<Rightarrow> bool" where
  "good_range strict d beg end' r \<longleftrightarrow>
     (case r of
        Ok bs \<Rightarrow> (\<exists>m. take (end' - beg) bs = take m (sub_list d beg (end' - beg))) \<and> (strict \<longrightarrow> end' - beg \<le> length bs)
      | Err e \<Rightarrow> \<not> strict \<or> beg = end'
      | Panic \<Rightarrow> False)"

definition source_ok :: "bool \<Rightarrow> bytes_source \<Rightarrow> bytes \<Rightarrow> bool" where
  "source_ok strict src d \<longleftrightarrow>
     src_end src = length d \<and> length d < u64_lim \<and>
     (\<forall>b e. b \<le> e \<and> e \<le> length d \<longrightarrow> good_range strict d b e (src_read src b e)) \<and>
     (\<forall>b e. e < b \<longrightarrow> src_read src b e \<noteq> Panic \<and> (\<forall>bs. src_read src b e = Ok bs \<longrightarrow> bs = []))"

definition good_group :: "bool \<Rightarrow> bytes \<Rightarrow> nat \<Rightarrow> nat \<Rightarrow> (bytes, 'e) result \<Rightarrow> bool" where
  "good_group strict d gbeg sz r \<longleftrightarrow>
     r \<noteq> Panic \<and> (gbeg < length d \<longrightarrow> good_range strict d gbeg (min (gbeg + sz) (length d)) r)"

definition world_ok ::
    "bool \<Rightarrow> (nat \<Rightarrow> bytes) \<Rightarrow> tiers \<Rightarrow> 'w block_world \<Rightarrow> ('w \<Rightarrow> bool) \<Rightarrow> bool" where
  "world_ok strict data tr bw I \<longleftrightarrow>
     (\<forall>t key w r w'. I w \<and> bw_get bw t key w = (r, w') \<longrightarrow>
        I w' \<and> r \<noteq> Panic \<and> (\<forall>b. r = Ok (Some b) \<longrightarrow> b = block_bytes data (tr_chlen tr) key) \<and> (\<forall>e. r = Err e \<longrightarrow> \<not> strict)) \<and>
     (\<forall>t key w. I w \<longrightarrow> I (bw_insert bw t key (block_bytes data (tr_chlen tr) key) w)) \<and>
     (\<forall>t key fetch unused w r w'. I w \<and> bw_get_or_fetch bw t key fetch unused w = (r, w') \<and>
        (\<forall>v s v'. I v \<and> fetch v = (s, v') \<longrightarrow> I v' \<and> good_block strict data (tr_chlen tr) key s) \<and>
        (\<forall>v. I v \<longrightarrow> I (unused v)) \<longrightarrow> I w' \<and> good_block strict data (tr_chlen tr) key r) \<and>
     (\<forall>w b w'. I w \<and> (bw_regular bw w = (b, w') \<or> bw_try_acquire bw w = (b, w')) \<longrightarrow> I w') \<and>
     (\<forall>w. I w \<longrightarrow> I (bw_release bw w)) \<and>
     (\<forall>w r w'. I w \<and> bw_acquire bw w = (r, w') \<longrightarrow> I w' \<and> r \<noteq> Panic \<and> (\<forall>e. r = Err e \<longrightarrow> \<not> strict)) \<and>
     (\<forall>idx gbeg w o' w'. I w \<and> bw_inflight bw (idx, gbeg) w = (o', w') \<longrightarrow>
        I w' \<and> (\<forall>r. o' = Some r \<longrightarrow> good_group strict (data idx) gbeg (tr_fetch_size tr) r)) \<and>
     (\<forall>key w. I w \<longrightarrow> I (bw_retire bw key w))"

lemma world_okD:
  assumes "world_ok strict data tr bw I" "I w"
  shows "bw_get bw t key w = (r, w') \<Longrightarrow>
      I w' \<and> r \<noteq> Panic \<and> (\<forall>b. r = Ok (Some b) \<longrightarrow> b = block_bytes data (tr_chlen tr) key) \<and> (\<forall>e. r = Err e \<longrightarrow> \<not> strict)"
    and "I (bw_insert bw t key (block_bytes data (tr_chlen tr) key) w)"
    and "bw_regular bw w = (b, w') \<Longrightarrow> I w'" and "bw_try_acquire bw w = (b, w') \<Longrightarrow> I w'"
    and "I (bw_release bw w)" and "I (drop_permit bw permit w)"
    and "bw_acquire bw w = (ra, w') \<Longrightarrow> I w' \<and> ra \<noteq> Panic \<and> (\<forall>e. ra = Err e \<longrightarrow> \<not> strict)"
    and "bw_inflight bw (idx, gbeg) w = (og, w') \<Longrightarrow>
      I w' \<and> (\<forall>r. og = Some r \<longrightarrow> good_group strict (data idx) gbeg (tr_fetch_size tr) r)"
    and "I (bw_retire bw key w)"
proof -
  note p = assms(1) [unfolded world_ok_def]
  show "bw_get bw t key w = (r, w') \<Longrightarrow>
      I w' \<and> r \<noteq> Panic \<and> (\<forall>b. r = Ok (Some b) \<longrightarrow> b = block_bytes data (tr_chlen tr) key) \<and> (\<forall>e. r = Err e \<longrightarrow> \<not> strict)"
    using conjunct1 [OF p] assms(2) by blast
  note p = conjunct2 [OF p]
  show "I (bw_insert bw t key (block_bytes data (tr_chlen tr) key) w)" using conjunct1 [OF p] assms(2) by blast
  note p = conjunct2 [OF conjunct2 [OF p]]
  show "bw_regular bw w = (b, w') \<Longrightarrow> I w'" "bw_try_acquire bw w = (b, w') \<Longrightarrow> I w'"
    using conjunct1 [OF p] assms(2) by blast+
  note p = conjunct2 [OF p]
  show "I (bw_release bw w)" "I (drop_permit bw permit w)" using conjunct1 [OF p] assms(2) by (simp_all add: drop_permit_def)
  note p = conjunct2 [OF p]
  show "bw_acquire bw w = (ra, w') \<Longrightarrow> I w' \<and> ra \<noteq> Panic \<and> (\<forall>e. ra = Err e \<longrightarrow> \<not> strict)"
    using conjunct1 [OF p] assms(2) by blast
  note p = conjunct2 [OF p]
  show "bw_inflight bw (idx, gbeg) w = (og, w') \<Longrightarrow>
      I w' \<and> (\<forall>r. og = Some r \<longrightarrow> good_group strict (data idx) gbeg (tr_fetch_size tr) r)"
    using conjunct1 [OF p] assms(2) by blast
  show "I (bw_retire bw key w)" using conjunct2 [OF p] assms(2) by blast
qed

lemma world_ok_get_or_fetch:
  assumes "world_ok strict data tr bw I" "I w" "bw_get_or_fetch bw t key fetch unused w = (r, w')"
    and "\<And>v s v'. I v \<Longrightarrow> fetch v = (s, v') \<Longrightarrow> I v' \<and> good_block strict data (tr_chlen tr) key s"
    and "\<And>v. I v \<Longrightarrow> I (unused v)"
  shows "I w' \<and> good_block strict data (tr_chlen tr) key r"
proof -
  have "\<forall>t key fetch unused w r w'. I w \<and> bw_get_or_fetch bw t key fetch unused w = (r, w') \<and>
        (\<forall>v s v'. I v \<and> fetch v = (s, v') \<longrightarrow> I v' \<and> good_block strict data (tr_chlen tr) key s) \<and>
        (\<forall>v. I v \<longrightarrow> I (unused v)) \<longrightarrow> I w' \<and> good_block strict data (tr_chlen tr) key r"
    by (rule assms(1) [unfolded world_ok_def, THEN conjunct2, THEN conjunct2, THEN conjunct1])
  then show ?thesis using assms(2-) by blast
qed

subsection \<open>A fetch gives the block\<close>

lemma fetch_range_ok:
  assumes w: "world_ok strict data tr bw I" "I w" and "fetch_range bw gbeg gend src permit w = (r, w')"
  shows "I w' \<and> (r = src_read src gbeg gend \<or> (\<exists>e. r = Err e \<and> \<not> strict))"
proof (cases permit)
  case True
  then show ?thesis using assms(3) world_okD(5) [OF w] by (auto simp: fetch_range_def)
next
  case False
  obtain ra w1 where a: "bw_acquire bw w = (ra, w1)" by fastforce
  note g = world_okD(7) [OF w a]
  show ?thesis
  proof (cases ra)
    case (Ok u)
    then show ?thesis using assms(3) a g False world_okD(5) [OF w(1), of w1] by (auto simp: fetch_range_def limiter_run_def)
  qed (use assms(3) a g False in \<open>auto simp: fetch_range_def limiter_run_def\<close>)
qed

lemma slice_of_range:
  assumes "take k bs = take m (sub_list d g k)" "a \<le> e" "e \<le> k" "e \<le> length bs" "g + k \<le> length d"
  shows "take (e - a) (drop a bs) = sub_list d (g + a) (e - a)"
proof -
  have "length (take k bs) = min k (length bs)" "length (take m (sub_list d g k)) = min m k" using assms(5) by simp_all
  then have "e \<le> m" using assms by simp
  have "take e bs = take e (take k bs)" using assms(3) by (simp add: min.absorb1)
  also have "\<dots> = take e (drop g d)" using assms(1,3) \<open>e \<le> m\<close> by (simp add: sub_list_def min_def)
  finally have "take (e - a) (drop a bs) = take (e - a) (drop a (drop g d))" by (simp add: take_drop assms(2))
  then show ?thesis by (simp add: sub_list_def add.commute)
qed

lemma range_full:
  assumes "take k bs = take m (sub_list d g k)" "k \<le> length bs" "g + k \<le> length d"
  shows "take k bs = sub_list d g k"
  using slice_of_range [OF assms(1), of 0 k] assms by simp

text \<open>Cutting a group: only right blocks go into the cache, and the demanded block is right.\<close>

lemma cut_group_ok:
  assumes w: "world_ok strict data tr bw I" "I w"
    and g: "gend \<le> length (data idx)" "gbeg \<le> gend" "gbeg + tr_chlen tr + tr_fetch_size tr < u64_lim"
      "take (gend - gbeg) bs = take m (sub_list (data idx) gbeg (gend - gbeg))"
    and offs: "\<forall>boff \<in> set offs. gbeg \<le> boff \<and> boff < gend \<and> boff + tr_chlen tr \<le> gbeg + tr_fetch_size tr"
    and ge: "gend = min (gbeg + tr_fetch_size tr) (length (data idx))"
    and d: "\<forall>b. dm = Some b \<longrightarrow> b = block_bytes data (tr_chlen tr) (idx, choff)"
    and c: "cut_group bw sink idx choff gbeg gend (tr_chlen tr) bs owner offs dm w = (dm', w')"
  shows "I w' \<and> (\<forall>b. dm' = Some b \<longrightarrow> b = block_bytes data (tr_chlen tr) (idx, choff)) \<and>
    (gend - gbeg \<le> length bs \<and> (dm \<noteq> None \<or> choff \<in> set offs) \<longrightarrow> dm' \<noteq> None)"
  using w(2) offs d c
proof (induction offs arbitrary: dm w)
  case Nil
  then show ?case by auto
next
  case (Cons boff offs)
  let ?chlen = "tr_chlen tr"
  define beg where "beg = boff - gbeg"
  define e where "e = min (boff + ?chlen) gend - gbeg"
  have b: "gbeg \<le> boff" "boff < gend" "boff + ?chlen \<le> gbeg + tr_fetch_size tr" using Cons.prems(2) by auto
  have beg: "u64_sub boff gbeg = beg" using b(1) by (simp add: beg_def)
  have e': "u64_sub (min (u64_add boff ?chlen) gend) gbeg = e"
    using b g by (simp add: e_def min_def)
  have block: "take (e - beg) (drop beg bs) = block_bytes data ?chlen (idx, boff)" if "e \<le> length bs"
  proof -
    have "take (e - beg) (drop beg bs) = sub_list (data idx) (gbeg + beg) (e - beg)"
      by (rule slice_of_range [OF g(4)]) (use b g that in \<open>auto simp: beg_def e_def\<close>)
    moreover have "gbeg + beg = boff" using b by (simp add: beg_def)
    moreover have "e - beg = min ?chlen (length (data idx) - boff)"
      using b ge unfolding e_def beg_def by (cases "boff + ?chlen \<le> length (data idx)") (simp_all add: min_def split: if_splits)
    ultimately show ?thesis by (simp add: block_bytes_def)
  qed
  have step: "cut_group bw sink idx choff gbeg gend ?chlen bs owner (boff # offs) dm w =
      (if e > length bs then (dm, w)
       else if boff = choff then
         cut_group bw sink idx choff gbeg gend ?chlen bs owner offs (Some (take (e - beg) (drop beg bs))) w
       else if owner then
         cut_group bw sink idx choff gbeg gend ?chlen bs owner offs dm (bw_insert bw sink (idx, boff) (take (e - beg) (drop beg bs)) w)
       else cut_group bw sink idx choff gbeg gend ?chlen bs owner offs dm w)" for w
    by (simp only: cut_group.simps Let_def beg e')
  note c = Cons.prems(4) [unfolded step]
  show ?case
  proof (cases "e > length bs")
    case True
    have "e \<le> gend - gbeg" by (simp add: e_def)
    then show ?thesis using Cons.prems(1-3) c True by (auto split: if_splits)
  next
    case False
    note blk = block [OF leI [OF False]]
    consider "boff = choff" | "boff \<noteq> choff" owner | "boff \<noteq> choff" "\<not> owner" by blast
    then show ?thesis
    proof cases
      case 1
      then show ?thesis
        using Cons.IH [OF Cons.prems(1), of "Some (take (e - beg) (drop beg bs))"] Cons.prems(2) c False blk by auto
    next
      case 2
      have i: "I (bw_insert bw sink (idx, boff) (take (e - beg) (drop beg bs)) w)"
        unfolding blk by (rule world_okD(2) [OF w(1) Cons.prems(1)])
      show ?thesis using Cons.IH [OF i, of dm] Cons.prems(2,3) c False 2 by auto
    next
      case 3
      then show ?thesis using Cons.IH [OF Cons.prems(1), of dm] Cons.prems(2,3) c False 3 by auto
    qed
  qed
qed

lemma make_fetch_ok:
  assumes w: "world_ok strict data tr bw I" "I w" and tr: "tiers_ok tr" and src: "source_ok strict src (data idx)"
    and al: "tr_chlen tr dvd choff" "choff + tr_chlen tr + tr_fetch_size tr < u64_lim"
    and f: "make_fetch bw tr idx choff src (src_end src) permit sink w = (r, w')"
  shows "I w' \<and> good_block strict data (tr_chlen tr) (idx, choff) r"
proof -
  let ?chlen = "tr_chlen tr" and ?g = "tr_fetch_size tr" and ?d = "data idx"
  define gbeg where "gbeg = choff div ?g * ?g"
  define gend where "gend = min (gbeg + ?g) (length ?d)"
  have pos: "0 < ?chlen" "0 < ?g" "?chlen dvd ?g" "group_size ?g ?chlen = ?g" using tr by (auto simp: tiers_ok_def)
  have len: "src_end src = length ?d" "length ?d < u64_lim" using src by (auto simp: source_ok_def)
  have gb: "gbeg \<le> choff" "choff < gbeg + ?g"
    using div_mult_mod_eq [of choff ?g] mod_less_divisor [OF pos(2), of choff] unfolding gbeg_def by linarith+
  have e: "u64_mul (choff div ?g) ?g = gbeg" "min (u64_add gbeg ?g) (src_end src) = gend"
  proof -
    have lt: "gbeg < u64_lim" "gbeg + ?g < u64_lim" using gb(1) al(2) by linarith+
    show "u64_mul (choff div ?g) ?g = gbeg" using u64_mul_exact [of "choff div ?g" ?g] lt(1) by (simp only: gbeg_def)
    show "min (u64_add gbeg ?g) (src_end src) = gend" using lt(2) len by (simp add: gend_def)
  qed
  have rd: "src_read src gbeg gend \<noteq> Panic"
    "gbeg \<le> length ?d \<Longrightarrow> good_range strict ?d gbeg gend (src_read src gbeg gend)"
    "length ?d < gbeg \<Longrightarrow> src_read src gbeg gend = Ok bs \<Longrightarrow> bs = []" for bs
  proof -
    show a: "good_range strict ?d gbeg gend (src_read src gbeg gend)" if "gbeg \<le> length ?d"
      using src that unfolding source_ok_def gend_def by auto
    have b: "src_read src gbeg gend \<noteq> Panic \<and> (\<forall>bs. src_read src gbeg gend = Ok bs \<longrightarrow> bs = [])" if "length ?d < gbeg"
      using src that unfolding source_ok_def gend_def by auto
    then show "length ?d < gbeg \<Longrightarrow> src_read src gbeg gend = Ok bs \<Longrightarrow> bs = []" by blast
    show "src_read src gbeg gend \<noteq> Panic" using a b by (cases "gbeg \<le> length ?d") (auto simp: good_range_def)
  qed
  show ?thesis
  proof (cases "?g = ?chlen")
    case True
    obtain q where "choff = ?g * q" using al(1) True by (auto simp: dvd_def)
    then have gc: "gbeg = choff" using pos(2) by (simp add: gbeg_def)
    obtain r1 w1 where 1: "fetch_range bw gbeg gend src permit w = (r1, w1)" by fastforce
    note fr = fetch_range_ok [OF w 1]
    have blk: "length bs \<ge> u64_sub gend gbeg \<Longrightarrow> take (u64_sub gend gbeg) bs = block_bytes data ?chlen (idx, choff)"
      and full: "strict \<Longrightarrow> choff < length ?d \<Longrightarrow> u64_sub gend gbeg \<le> length bs" if bs: "src_read src gbeg gend = Ok bs" for bs
    proof -
      have u: "u64_sub gend gbeg = min ?chlen (length ?d - choff)" if "choff \<le> length ?d"
        using that by (cases "choff + ?chlen \<le> length ?d") (simp_all add: gend_def gc True min_def)
      show "take (u64_sub gend gbeg) bs = block_bytes data ?chlen (idx, choff)" if l: "length bs \<ge> u64_sub gend gbeg"
      proof (cases "choff \<le> length ?d")
        case True
        then have nu: "u64_sub gend gbeg = gend - gbeg" "gbeg + (gend - gbeg) \<le> length ?d"
          using \<open>?g = ?chlen\<close> by (simp_all add: gend_def gc)
        obtain m where m: "take (gend - gbeg) bs = take m (sub_list ?d gbeg (gend - gbeg))"
          using rd(2) True bs gc by (auto simp: good_range_def)
        have "take (gend - gbeg) bs = sub_list ?d gbeg (gend - gbeg)"
          by (rule range_full [OF m l [unfolded nu(1)] nu(2)])
        moreover have "gend - gbeg = min ?chlen (length ?d - choff)" using u [OF True] nu(1) by simp
        ultimately show ?thesis unfolding nu(1) by (simp add: block_bytes_def gc)
      next
        case False
        then have "bs = []" using rd(3) bs gc by simp
        moreover have "0 < u64_sub gend gbeg" using False al(2) by (simp add: gend_def gc u64_sub_def)
        ultimately show ?thesis using l by simp
      qed
      show "u64_sub gend gbeg \<le> length bs" if "strict" "choff < length ?d"
        using rd(2) bs that by (auto simp: good_range_def gc gend_def)
    qed
    have m: "make_fetch bw tr idx choff src (src_end src) permit sink w =
      (case fetch_range bw gbeg gend src permit w of
           (Ok bytes, w) \<Rightarrow>
             if length bytes < u64_sub gend gbeg then (Err (FoyerIo short_read_error), w) else (Ok (take (u64_sub gend gbeg) bytes), w)
         | (Err e, w) \<Rightarrow> (Err (FoyerIo e), w)
         | (Panic, w) \<Rightarrow> (Panic, w))"
      unfolding make_fetch_def Let_def pos(4) e using True by simp
    show ?thesis
    proof (cases r1)
      case (Ok bs)
      then have b: "src_read src gbeg gend = Ok bs" using fr by auto
      show ?thesis
        using f m 1 Ok fr blk [OF b] full [OF b] by (auto simp: good_block_def simp flip: not_less split: if_splits)
    next
      case (Err x)
      then have "\<not> strict \<or> length ?d \<le> choff"
      proof (cases "r1 = src_read src gbeg gend \<and> choff < length ?d")
        case True
        then have "src_read src gbeg gend = Err x" "gbeg \<le> length ?d" "gbeg \<noteq> gend" using Err gc pos(2) by (auto simp: gend_def)
        then show ?thesis using rd(2) by (simp add: good_range_def)
      qed (use fr in auto)
      then show ?thesis using f m 1 Err fr by (auto simp: good_block_def)
    next
      case Panic
      then show ?thesis using fr rd(1) by auto
    qed
  next
    case False
    obtain r1 owner w1 where 1: "group_fetch bw idx gbeg gend src permit w = ((r1, owner), w1)" by (metis prod.exhaust)
    have gf: "I w1 \<and> good_group strict ?d gbeg ?g r1"
    proof -
      obtain o' w2 where o': "bw_inflight bw (idx, gbeg) w = (o', w2)" by fastforce
      note inf = world_okD(8) [OF w o']
      show ?thesis
      proof (cases o')
        case (Some q)
        then show ?thesis using 1 o' inf world_okD(6) [OF w(1), of w2] by (auto simp: group_fetch_def)
      next
        case None
        obtain r3 w3 where 3: "fetch_range bw gbeg gend src permit w2 = (r3, w3)" by fastforce
        have fr: "I w3 \<and> (r3 = src_read src gbeg gend \<or> (\<exists>e. r3 = Err e \<and> \<not> strict))"
          using fetch_range_ok [OF w(1) _ 3] inf by blast
        have "good_group strict ?d gbeg ?g (catch_unwind r3)"
          using fr rd by (auto simp: good_group_def catch_unwind_def gend_def good_range_def split: result.splits)
        then show ?thesis
          using 1 o' None 3 fr world_okD(9) [OF w(1), of w3] by (auto simp: group_fetch_def)
      qed
    qed
    have m: "make_fetch bw tr idx choff src (src_end src) permit sink w =
      (case group_fetch bw idx gbeg gend src permit w of
           ((Ok bytes, owner), w) \<Rightarrow>
             (case cut_group bw sink idx choff gbeg gend ?chlen bytes owner (step_range gbeg gend ?chlen) None w of
                (demanded, w) \<Rightarrow> (ok_or (FoyerIo short_read_error) demanded, w))
         | ((Err e, owner), w) \<Rightarrow> (Err (FoyerIo e), w)
         | ((Panic, owner), w) \<Rightarrow> (Panic, w))"
      unfolding make_fetch_def Let_def pos(4) e using False by simp
    show ?thesis
    proof (cases r1)
      case (Ok bs)
      obtain dm w4 where c: "cut_group bw sink idx choff gbeg gend ?chlen bs owner (step_range gbeg gend ?chlen) None w1 = (dm, w4)"
        by fastforce
      have r: "r = ok_or (FoyerIo short_read_error) dm" "w' = w4" using f m 1 Ok c by auto
      show ?thesis
      proof (cases "gbeg < length ?d")
        case True
        obtain k where k: "choff = gbeg + k * ?chlen"
        proof -
          have "?chlen dvd choff - gbeg" using al(1) pos(3) by (simp add: gbeg_def dvd_diff_nat)
          then obtain k where "choff - gbeg = ?chlen * k" by (auto simp: dvd_def)
          then have "choff = gbeg + k * ?chlen" using gb(1) by (simp add: mult.commute)
          then show thesis by (rule that)
        qed
        have fit: "gbeg + i * ?chlen + ?chlen \<le> gbeg + ?g" if "gbeg + i * ?chlen < gend" for i
        proof -
          obtain q where q: "?g = ?chlen * q" using pos(3) by (auto simp: dvd_def)
          have "i * ?chlen < q * ?chlen" using that q by (simp add: gend_def mult.commute)
          then have "Suc i \<le> q" using mult_less_cancel2 [of i ?chlen q] by simp
          then have "Suc i * ?chlen \<le> q * ?chlen" by (rule mult_le_mono1)
          then show ?thesis using q by (simp add: mult.commute)
        qed
        have offs: "\<forall>boff \<in> set (step_range gbeg gend ?chlen). gbeg \<le> boff \<and> boff < gend \<and> boff + ?chlen \<le> gbeg + ?g"
          using fit by (auto simp: set_step_range [OF pos(1)])
        have mem: "choff < length ?d \<Longrightarrow> choff \<in> set (step_range gbeg gend ?chlen)"
          using k gb(2) unfolding set_step_range [OF pos(1)] gend_def by auto
        obtain n where n: "take (gend - gbeg) bs = take n (sub_list ?d gbeg (gend - gbeg))"
          and st: "strict \<longrightarrow> gend - gbeg \<le> length bs"
          using gf True Ok by (auto simp: good_group_def good_range_def gend_def)
        have "gbeg + ?chlen + ?g < u64_lim" using gb(1) al(2) by simp
        then have "I w4 \<and> (\<forall>b. dm = Some b \<longrightarrow> b = block_bytes data ?chlen (idx, choff)) \<and>
            (gend - gbeg \<le> length bs \<and> (None \<noteq> (None :: bytes option) \<or> choff \<in> set (step_range gbeg gend ?chlen)) \<longrightarrow> dm \<noteq> None)"
          by (intro cut_group_ok [OF w(1) _ _ _ _ n offs gend_def _ c]) (use gf True in \<open>auto simp: gend_def\<close>)
        then show ?thesis using r mem st by (cases dm) (auto simp: good_block_def simp flip: not_less)
      next
        case False
        then have "step_range gbeg gend ?chlen = []" by (intro step_range_Nil) (simp add: gend_def)
        then show ?thesis using r c gf gb(1) False by (auto simp: good_block_def)
      qed
    next
      case (Err x)
      then have "\<not> strict \<or> length ?d \<le> gbeg"
        using gf pos(2) by (auto simp: good_group_def good_range_def split: if_splits)
      then show ?thesis using f m 1 Err gf gb(1) by (auto simp: good_block_def)
    next
      case Panic
      then show ?thesis using gf by (auto simp: good_group_def)
    qed
  qed
qed

subsection \<open>A lookup gives the block\<close>

definition good_routed :: "bool \<Rightarrow> (nat \<Rightarrow> bytes) \<Rightarrow> nat \<Rightarrow> block_key \<Rightarrow> (bytes \<times> bool, io_error) result \<Rightarrow> bool" where
  "good_routed strict data chlen key r \<longleftrightarrow> good_block strict data chlen key (and_then r (\<lambda>(b, missed). Ok b))"

lemma hit_or_ok:
  assumes w: "world_ok strict data tr bw I" "I w" and h: "hit_or bw t key permit on_hit miss w = (r, w')"
    and hit: "\<And>v. I v \<Longrightarrow> I (on_hit (block_bytes data (tr_chlen tr) key) v)"
    and miss: "\<And>v s v'. I v \<Longrightarrow> miss v = (s, v') \<Longrightarrow> I v' \<and> good_routed strict data (tr_chlen tr) key s"
  shows "I w' \<and> good_routed strict data (tr_chlen tr) key r"
proof -
  obtain r1 w1 where 1: "bw_get bw t key w = (r1, w1)" by fastforce
  note g = world_okD(1) [OF w 1]
  have d: "I (drop_permit bw permit v)" if "I v" for v using world_okD(6) [OF w(1) that] .
  show ?thesis
  proof (cases r1)
    case (Ok x)
    show ?thesis
    proof (cases x)
      case None
      then show ?thesis using h 1 Ok miss g by (auto simp: hit_or_def)
    next
      case (Some b)
      then show ?thesis using h 1 Ok g d hit by (auto simp: hit_or_def good_routed_def good_block_def)
    qed
  next
    case (Err e)
    then show ?thesis using h 1 g d by (auto simp: hit_or_def good_routed_def good_block_def)
  next
    case Panic
    then show ?thesis using g by simp
  qed
qed

lemma route_block_ok:
  assumes w: "world_ok strict data tr bw I" "I w" and tr: "tiers_ok tr" and src: "source_ok strict src (data idx)"
    and al: "tr_chlen tr dvd choff" "choff + tr_chlen tr + tr_fetch_size tr < u64_lim"
    and r: "route_block bw tr idx choff src (src_end src) permit w = (r, w')"
  shows "I w' \<and> good_routed strict data (tr_chlen tr) (idx, choff) r"
proof -
  have fetch: "I v' \<and> good_routed strict data (tr_chlen tr) (idx, choff) s"
    if v: "I v" and f: "fetch_into bw tr t idx choff src (src_end src) permit v = (s, v')" for t v s v'
  proof -
    obtain q u where q: "bw_get_or_fetch bw t (idx, choff) (make_fetch bw tr idx choff src (src_end src) permit Content)
        (drop_permit bw permit) v = (q, u)" by fastforce
    have "I u \<and> good_block strict data (tr_chlen tr) (idx, choff) q"
      using make_fetch_ok [OF w(1) _ tr src al] world_okD(6) [OF w(1)] by (rule world_ok_get_or_fetch [OF w(1) v q])
    then show ?thesis using f q
      by (auto simp: fetch_into_def good_routed_def good_block_def split: result.splits)
  qed
  have ins: "I (bw_insert bw Metadata (idx, choff) (block_bytes data (tr_chlen tr) (idx, choff)) v)" if "I v" for v
    using world_okD(2) [OF w(1) that] .
  have content: "I v' \<and> good_routed strict data (tr_chlen tr) (idx, choff) s"
    if "I v" "hit_or bw Content (idx, choff) permit (\<lambda>ch w. w) (fetch_into bw tr t idx choff src (src_end src) permit) v = (s, v')"
    for t v s v' using that(2) _ fetch by (rule hit_or_ok [OF w(1) that(1)])
  have promote: "I v' \<and> good_routed strict data (tr_chlen tr) (idx, choff) s"
    if "I v" "hit_or bw Content (idx, choff) permit (\<lambda>ch. bw_insert bw Metadata (idx, choff) ch)
      (fetch_into bw tr t idx choff src (src_end src) permit) v = (s, v')"
    for t v s v' using that(2) ins fetch by (rule hit_or_ok [OF w(1) that(1)])
  show ?thesis
  proof (cases "tr_metadata tr")
    case True
    obtain b w1 where b: "bw_regular bw w = (b, w1)" by fastforce
    note i = world_okD(3) [OF w b]
    show ?thesis
    proof (cases b)
      case True
      then have "hit_or bw Metadata (idx, choff) permit (\<lambda>ch w. w) (hit_or bw Content (idx, choff) permit (\<lambda>ch w. w)
          (fetch_into bw tr Content idx choff src (src_end src) permit)) w1 = (r, w')"
        using r b \<open>tr_metadata tr\<close> by (simp add: route_block_def Let_def)
      then show ?thesis using _ content by (rule hit_or_ok [OF w(1) i])
    next
      case False
      then have "hit_or bw Metadata (idx, choff) permit (\<lambda>ch w. w) (hit_or bw Content (idx, choff) permit
          (\<lambda>ch. bw_insert bw Metadata (idx, choff) ch) (fetch_into bw tr Metadata idx choff src (src_end src) permit)) w1 = (r, w')"
        using r b \<open>tr_metadata tr\<close> by (simp add: route_block_def Let_def)
      then show ?thesis using _ promote by (rule hit_or_ok [OF w(1) i])
    qed
  next
    case False
    then show ?thesis using r content [OF w(2)] by (simp add: route_block_def Let_def)
  qed
qed

lemma route_all_ok:
  assumes w: "world_ok strict data tr bw I" "I w" and tr: "tiers_ok tr" and src: "source_ok strict src (data idx)"
    and offs: "\<forall>choff \<in> set offs. tr_chlen tr dvd choff \<and> choff + tr_chlen tr + tr_fetch_size tr < u64_lim"
    and r: "route_all bw tr idx src (src_end src) offs w = (r, w')"
  shows "I w' \<and> r \<noteq> Panic \<and> (\<forall>chs. r = Ok chs \<longrightarrow> map fst chs = map (\<lambda>choff. block_bytes data (tr_chlen tr) (idx, choff)) offs) \<and>
    ((\<exists>e. r = Err e) \<longrightarrow> \<not> strict \<or> (\<exists>choff \<in> set offs. length (data idx) \<le> choff))"
  using w(2) offs r
proof (induction offs arbitrary: w r w')
  case Nil
  then show ?case by auto
next
  case (Cons c offs)
  obtain r1 w1 where 1: "route_block bw tr idx c src (src_end src) False w = (r1, w1)" by fastforce
  have g: "I w1 \<and> good_routed strict data (tr_chlen tr) (idx, c) r1"
    using route_block_ok [OF w(1) Cons.prems(1) tr src _ _ 1] Cons.prems(2) by simp
  show ?case
  proof (cases r1)
    case (Ok ch)
    obtain r2 w2 where 2: "route_all bw tr idx src (src_end src) offs w1 = (r2, w2)" by fastforce
    have "fst ch = block_bytes data (tr_chlen tr) (idx, c)" using g Ok by (cases ch) (auto simp: good_routed_def good_block_def)
    then show ?thesis
      using Cons.IH [OF _ _ 2] Cons.prems(2,3) 1 Ok 2 g by (cases r2) (auto simp: then_do_def)
  next
    case (Err e)
    then show ?thesis using Cons.prems(3) 1 g by (auto simp: then_do_def good_routed_def good_block_def)
  next
    case Panic
    then show ?thesis using g by (auto simp: good_routed_def good_block_def)
  qed
qed

subsection \<open>A read gives the bytes\<close>

lemma length_block_bytes: "length (block_bytes data chlen (idx, off)) = min chlen (length (data idx) - off)"
  by (auto simp: block_bytes_def sub_list_def)

lemma length_take_drop: "e \<le> length xs \<Longrightarrow> length (take (e - a) (drop a xs)) = e - a"
  by (simp add: min.absorb2 diff_le_mono)

lemma part_of_block:
  assumes "e \<le> length (block_bytes data chlen (idx, choff))"
  shows "take (e - a) (drop a (block_bytes data chlen (idx, choff))) = sub_list (data idx) (choff + a) (e - a)"
proof -
  have e: "e \<le> min chlen (length (data idx) - choff)" using assms by (simp add: length_block_bytes)
  then have "take e (block_bytes data chlen (idx, choff)) = take e (drop choff (data idx))"
    by (simp add: block_bytes_def sub_list_def min_def)
  then have "drop a (take e (block_bytes data chlen (idx, choff))) = drop a (take e (drop choff (data idx)))" by simp
  then show ?thesis by (simp add: drop_take sub_list_def add.commute)
qed

lemma fill_from_block_ok:
  assumes "choff \<le> off" "off + n < u64_lim"
  shows "fill_from_block n off choff (block_bytes data chlen (idx, choff)) =
    (if off - choff + n \<le> min chlen (length (data idx) - choff) then Ok (sub_list (data idx) off n) else Err UnexpectedEof)"
proof -
  let ?b = "block_bytes data chlen (idx, choff)"
  have e: "u64_sub off choff = off - choff" "u64_add (off - choff) n = off - choff + n" using assms by simp_all
  have "take n (drop (off - choff) ?b) = sub_list (data idx) off n" if "off - choff + n \<le> length ?b"
    using part_of_block [OF that, of "off - choff"] assms(1) by simp
  then show ?thesis
    by (auto simp: fill_from_block_def Let_def e short_read_error_def slice_def length_block_bytes)
qed

lemma assemble_sound:
  assumes "off + n < u64_lim" "length acc \<le> n" "acc = sub_list (data idx) off (length acc)"
    and "assemble off n (zip offs (map (\<lambda>c. block_bytes data chlen (idx, c)) offs)) acc = r"
  shows "r \<noteq> Panic \<and> (\<forall>bs. r = Ok bs \<longrightarrow> bs = sub_list (data idx) off n \<and> length bs = n)"
  using assms(2-)
proof (induction offs arbitrary: acc)
  case Nil
  then show ?case by (auto split: if_splits)
next
  case (Cons c offs)
  let ?b = "block_bytes data chlen (idx, c)" and ?pos = "off + length acc"
  show ?case
  proof (cases "?pos < c")
    case True
    then show ?thesis using Cons.prems assms(1) by auto
  next
    case False
    let ?e = "min (?pos - c + (n - length acc)) (length ?b)"
    have u: "u64_add off (length acc) = ?pos" "u64_sub ?pos c = ?pos - c" "u64_sub n (length acc) = n - length acc"
      "u64_add (?pos - c) (n - length acc) = ?pos - c + (n - length acc)"
      using assms(1) Cons.prems(1) False by simp_all
    have step: "r = (if ?e < ?pos - c then Err short_read_error
      else assemble off n (zip offs (map (\<lambda>c. block_bytes data chlen (idx, c)) offs)) (acc @ take (?e - (?pos - c)) (drop (?pos - c) ?b)))"
      unfolding Cons.prems(3) [symmetric]
      by (simp only: list.map zip_Cons_Cons assemble.simps Let_def prod.case u False if_False)
    show ?thesis
    proof (cases "?e < ?pos - c")
      case True
      then have "r = Err short_read_error" unfolding step by (rule if_P)
      then show ?thesis by simp
    next
      case False
      let ?acc = "acc @ take (?e - (?pos - c)) (drop (?pos - c) ?b)"
      have part: "take (?e - (?pos - c)) (drop (?pos - c) ?b) = sub_list (data idx) ?pos (?e - (?pos - c))"
        using part_of_block [of ?e data chlen idx c "?pos - c"] \<open>\<not> ?pos < c\<close> by simp
      have "?e \<le> length ?b" by simp
      then have l: "length ?acc = length acc + (?e - (?pos - c))" by (simp only: length_append length_take_drop)
      have "?acc = sub_list (data idx) off (length acc) @ sub_list (data idx) (off + length acc) (?e - (?pos - c))"
        using Cons.prems(2) part by simp
      then have eq: "?acc = sub_list (data idx) off (length ?acc)" unfolding l sub_list_append .
      have le: "length ?acc \<le> n" unfolding l using Cons.prems(1) by linarith
      have "assemble off n (zip offs (map (\<lambda>c. block_bytes data chlen (idx, c)) offs)) ?acc = r"
        unfolding step using False by (simp only: if_False)
      then show ?thesis by (rule Cons.IH [OF le eq])
    qed
  qed
qed

lemma assemble_complete:
  assumes "0 < chlen" "off + n \<le> length (data idx)" "length (data idx) < u64_lim" "length acc \<le> n"
    and "c < off + n \<Longrightarrow> c \<le> off + length acc \<and> off + length acc < min (c + chlen) (off + n)"
    and "off + n \<le> c \<Longrightarrow> length acc = n"
  shows "is_ok (assemble off n (zip (step_range c (off + n) chlen)
    (map (\<lambda>c. block_bytes data chlen (idx, c)) (step_range c (off + n) chlen))) acc)"
  using assms(4-)
proof (induction "off + n - c" arbitrary: c acc rule: less_induct)
  case less
  show ?case
  proof (cases "c < off + n")
    case True
    let ?b = "block_bytes data chlen (idx, c)" and ?pos = "off + length acc"
    have p: "c \<le> ?pos" "?pos < c + chlen" "?pos < off + n" using less.prems(2) True by auto
    have lb: "length ?b = min chlen (length (data idx) - c)" by (rule length_block_bytes)
    let ?e = "min (?pos - c + (n - length acc)) (length ?b)"
    have e: "?e = min (off + n - c) chlen" using p less.prems(1) assms(2) unfolding lb by linarith
    have u: "u64_add off (length acc) = ?pos" "u64_sub ?pos c = ?pos - c" "u64_sub n (length acc) = n - length acc"
      "u64_add (?pos - c) (n - length acc) = ?pos - c + (n - length acc)"
      using assms(2,3) less.prems(1) p by simp_all
    define acc' where "acc' = acc @ take (?e - (?pos - c)) (drop (?pos - c) ?b)"
    have "?e \<le> length ?b" by simp
    then have "length acc' = length acc + (?e - (?pos - c))"
      unfolding acc'_def length_append by (simp only: length_take_drop)
    then have "length acc' = length acc + (min (off + n - c) chlen - (?pos - c))" unfolding e .
    then have pos': "off + length acc' = min (off + n) (c + chlen)" using p by linarith
    have dec: "off + n - (c + chlen) < off + n - c" using True assms(1) by linarith
    have le: "length acc' \<le> n" using pos' by linarith
    have "is_ok (assemble off n (zip (step_range (c + chlen) (off + n) chlen)
        (map (\<lambda>c. block_bytes data chlen (idx, c)) (step_range (c + chlen) (off + n) chlen))) acc')"
    proof (rule less.hyps [OF dec le])
      assume "c + chlen < off + n"
      then show "c + chlen \<le> off + length acc' \<and> off + length acc' < min (c + chlen + chlen) (off + n)"
        using pos' assms(1) by simp
    next
      assume "off + n \<le> c + chlen"
      then show "length acc' = n" using pos' by simp
    qed
    moreover have "\<not> ?e < ?pos - c" "\<not> ?pos < c" using e p by linarith+
    ultimately show ?thesis
      unfolding step_range_Cons [OF True assms(1)] acc'_def by (simp add: u Let_def)
  next
    case False
    then show ?thesis using less.prems(3) by (simp add: step_range_Nil)
  qed
qed

lemma step_range_single:
  assumes "step_range b e s = [c]" "0 < s"
  shows "c = b \<and> b < e \<and> e \<le> b + s"
proof -
  have "b < e" using assms(1) by (cases "b < e") (simp_all add: step_range_Nil)
  then have "c = b" "step_range (b + s) e s = []" using assms step_range_Cons [of b e s] by auto
  then show ?thesis using \<open>b < e\<close> assms(2) step_range_Cons [of "b + s" e s] by (cases "b + s < e") auto
qed

lemma demand_ok:
  assumes w: "world_ok strict data tr bw I" "I w" and tr: "tiers_ok tr" and src: "source_ok strict src (data idx)"
    and lim: "off + n + tr_chlen tr + tr_fetch_size tr < u64_lim"
    and d: "demand bw tr idx src (src_end src) off n w = (r, w')"
  shows "I w' \<and> r \<noteq> Panic \<and> (\<forall>bs m. r = Ok (bs, m) \<longrightarrow> bs = sub_list (data idx) off n \<and> length bs = n) \<and>
    (strict \<and> off + n \<le> length (data idx) \<longrightarrow> is_ok r)"
proof -
  let ?chlen = "tr_chlen tr" and ?d = "data idx" and ?e = "off + n"
  define b where "b = off div ?chlen * ?chlen"
  have pos: "0 < ?chlen" using tr by (simp add: tiers_ok_def)
  have b: "b \<le> off" "off < b + ?chlen" "?chlen dvd b"
    using div_mult_mod_eq [of off ?chlen] mod_less_divisor [OF pos, of off] unfolding b_def by (linarith, linarith, simp)
  have u: "u64_mul (off div ?chlen) ?chlen = b" "u64_add off n = ?e"
  proof -
    have "b < u64_lim" using b(1) lim by linarith
    then show "u64_mul (off div ?chlen) ?chlen = b" using u64_mul_exact [of "off div ?chlen" ?chlen] by (simp only: b_def)
    show "u64_add off n = ?e" using lim by simp
  qed
  let ?offs = "step_range b ?e ?chlen"
  have offs: "\<forall>c \<in> set ?offs. ?chlen dvd c \<and> c + ?chlen + tr_fetch_size tr < u64_lim \<and> c < ?e"
    using b(3) lim by (auto simp: set_step_range [OF pos])
  have len: "length ?d < u64_lim" using src by (simp add: source_ok_def)
  show ?thesis
  proof (cases "\<exists>c. ?offs = [c]")
    case True
    then obtain c where c: "?offs = [c]" by blast
    note s = step_range_single [OF c pos]
    obtain r1 w1 where 1: "route_block bw tr idx b src (src_end src) False w = (r1, w1)" by fastforce
    have al: "b + ?chlen + tr_fetch_size tr < u64_lim" using b(1) lim by linarith
    note g = route_block_ok [OF w tr src b(3) al 1]
    have d': "then_do (route_block bw tr idx b src (src_end src) False)
        (\<lambda>(ch, missed) w. (and_then (fill_from_block n off b ch) (\<lambda>bs. Ok (bs, missed)), w)) w = (r, w')"
      using d c s by (simp add: demand_def Let_def u)
    show ?thesis
    proof (cases r1)
      case (Ok ch)
      then obtain m where ch: "ch = (block_bytes data ?chlen (idx, b), m)"
        using g by (cases ch) (auto simp: good_routed_def good_block_def)
      have "off + n < u64_lim" using lim by simp
      note f = fill_from_block_ok [OF b(1) this, of data ?chlen idx]
      have fit: "?e \<le> length ?d \<Longrightarrow> off - b + n \<le> min ?chlen (length ?d - b)"
        using s b(1) by linarith
      have len': "length (sub_list ?d off n) = n" if "off - b + n \<le> min ?chlen (length ?d - b)"
      proof (cases "n = 0")
        case False
        then have "?e \<le> length ?d" using that b(1) by linarith
        then show ?thesis by simp
      qed simp
      have r: "r = and_then (fill_from_block n off b (block_bytes data ?chlen (idx, b))) (\<lambda>bs. Ok (bs, m))" "w' = w1"
        using d' 1 Ok ch by (simp_all add: then_do_def)
      show ?thesis
      proof (cases "off - b + n \<le> min ?chlen (length ?d - b)")
        case True
        then show ?thesis using r g f len' by simp
      next
        case False
        then have "r = Err UnexpectedEof" unfolding r(1) f by simp
        moreover have "\<not> ?e \<le> length ?d" using False fit by blast
        ultimately show ?thesis using r(2) g by simp
      qed
    next
      case (Err e)
      then show ?thesis using d' 1 g s by (auto simp: then_do_def good_routed_def good_block_def)
    next
      case Panic
      then show ?thesis using g by (auto simp: good_routed_def good_block_def)
    qed
  next
    case False
    define w0 where "w0 = (if tr_fetch_size tr > ?chlen
      then snd (route_all bw tr idx src (src_end src) (leaders (tr_fetch_size tr) b ?offs) w) else w)"
    have "I w0"
    proof -
      obtain r0 v where v: "route_all bw tr idx src (src_end src) (leaders (tr_fetch_size tr) b ?offs) w = (r0, v)" by fastforce
      have "\<forall>c \<in> set (leaders (tr_fetch_size tr) b ?offs). ?chlen dvd c \<and> c + ?chlen + tr_fetch_size tr < u64_lim"
        using offs by (auto simp: leaders_def)
      then have "I v" using route_all_ok [OF w tr src _ v] by blast
      then show ?thesis using w(2) v by (simp add: w0_def)
    qed
    obtain r1 w1 where 1: "route_all bw tr idx src (src_end src) ?offs w0 = (r1, w1)" by fastforce
    have al: "\<forall>c \<in> set ?offs. ?chlen dvd c \<and> c + ?chlen + tr_fetch_size tr < u64_lim" using offs by blast
    note g = route_all_ok [OF w(1) \<open>I w0\<close> tr src al 1]
    have d': "then_do (route_all bw tr idx src (src_end src) ?offs)
       (\<lambda>chunks w. (and_then (assemble off n (zip ?offs (map fst chunks)) []) (\<lambda>bs. Ok (bs, list_ex snd chunks)), w)) w0 = (r, w')"
      using d False unfolding demand_def Let_def u w0_def by (auto split: list.splits)
    show ?thesis
    proof (cases r1)
      case (Ok chs)
      then have m: "map fst chs = map (\<lambda>c. block_bytes data ?chlen (idx, c)) ?offs" using g by blast
      have "off + n < u64_lim" using lim by simp
      note a = assemble_sound [OF this, of "[]" data idx ?offs ?chlen, OF _ _ refl]
      have n: "0 < n" if "b < ?e"
      proof (rule ccontr)
        assume "\<not> 0 < n"
        then have "?offs = [b]" using step_range_Cons [OF that pos] b(2) by (simp add: step_range_Nil)
        then show False using False by blast
      qed
      have "is_ok (assemble off n (zip ?offs (map fst chs)) [])" if "?e \<le> length ?d"
        unfolding m by (rule assemble_complete [where data = data and idx = idx, OF pos that len]) (use b n in auto)
      then show ?thesis using d' 1 Ok a g unfolding m
        by (cases "assemble off n (zip ?offs (map (\<lambda>c. block_bytes data ?chlen (idx, c)) ?offs)) []") (auto simp: then_do_def m)
    next
      case (Err e)
      then have "\<not> strict \<or> \<not> ?e \<le> length ?d" using g offs by fastforce
      then show ?thesis using d' 1 g Err by (auto simp: then_do_def)
    next
      case Panic
      then show ?thesis using g by auto
    qed
  qed
qed

subsection \<open>Read-ahead\<close>

lemma prefetch_plan_keeps:
  assumes w: "world_ok strict data tr bw I" "I w" and p: "prefetch_plan bw tr idx offs lastg w = (ps, w')"
  shows "I w' \<and> set ps \<subseteq> set offs"
  using w(2) p
proof (induction offs arbitrary: lastg w ps w')
  case Nil
  then show ?case by simp
next
  case (Cons c offs)
  let ?g = "u64_mul (c div tr_fetch_size tr) (tr_fetch_size tr)"
  show ?case
  proof (cases "tiers_contain bw tr (idx, c) w \<or> lastg = Some ?g")
    case True
    then have "prefetch_plan bw tr idx offs lastg w = (ps, w')" using Cons.prems(2) by (auto simp: Let_def split: if_splits)
    then show ?thesis using Cons.IH [OF Cons.prems(1)] by auto
  next
    case False
    obtain b w1 where b: "bw_try_acquire bw w = (b, w1)" by fastforce
    note i = world_okD(4) [OF w(1) Cons.prems(1) b]
    obtain qs w2 where q: "prefetch_plan bw tr idx offs (Some ?g) w1 = (qs, w2)" by fastforce
    show ?thesis using Cons.IH [OF i q] Cons.prems(2) False b q i by (cases b) (auto simp: Let_def)
  qed
qed

lemma readahead_range_aligned:
  assumes "0 < chlen" "csend + chlen < u64_lim"
  shows "chlen dvd fst (readahead_block_range csend chlen readahead end') \<and>
    csend \<le> fst (readahead_block_range csend chlen readahead end') \<and>
    snd (readahead_block_range csend chlen readahead end') \<le> end'"
proof -
  let ?n = "csend div chlen + min (csend mod chlen) 1"
  define q where "q = csend div chlen * chlen"
  define r where "r = csend mod chlen"
  have m: "q + r = csend" "r < chlen" using assms(1) by (simp_all add: q_def r_def)
  have n: "?n * chlen = q + min r 1 * chlen" by (simp add: q_def r_def add_mult_distrib)
  have "csend \<le> ?n * chlen \<and> ?n * chlen < csend + chlen"
  proof (cases "r = 0")
    case False
    then have "min r 1 = 1" by simp
    then show ?thesis unfolding n using m False by simp
  qed (use n m in simp)
  then have "csend \<le> ?n * chlen" "?n * chlen < u64_lim" using assms(2) by linarith+
  then show ?thesis by (simp add: readahead_block_range_def Let_def)
qed

lemma run_prefetch_ok:
  assumes w: "world_ok strict data tr bw I" "I w" and tr: "tiers_ok tr" and src: "source_ok strict src (data idx)"
    and al: "tr_chlen tr dvd choff" "choff + tr_chlen tr + tr_fetch_size tr < u64_lim"
  shows "I (run_prefetch bw tr idx src choff w)"
proof -
  obtain r w' where "route_block bw tr idx choff src (src_end src) True w = (r, w')" by fastforce
  then show ?thesis using route_block_ok [OF w tr src al] by (simp add: run_prefetch_def)
qed

subsection \<open>The properties of the cache\<close>

definition sources_ok :: "bool \<Rightarrow> source_slots \<Rightarrow> (nat \<Rightarrow> bytes) \<Rightarrow> bool" where
  "sources_ok strict slots data \<longleftrightarrow>
     (\<forall>idx src. slots_get slots idx = Ok src \<longrightarrow> source_ok strict src (data idx))"

lemma slots_get_total: "slots_get slots idx \<noteq> Panic"
  by (auto simp: slots_get_def)

lemma foyer_read_lemma:
  assumes w: "world_ok strict data tr bw I" "I w" and tr: "tiers_ok tr" and src: "sources_ok strict slots data"
    and lim: "off + n + tr_chlen tr + tr_fetch_size tr < u64_lim"
    and r: "foyer_read bw tr slots readahead idx off n w = (r, w')"
  shows "I w' \<and> r \<noteq> Panic \<and>
    (\<forall>bs m ps. r = Ok (bs, m, ps) \<longrightarrow> bs = sub_list (data idx) off n \<and> length bs = n \<and>
       (\<forall>p \<in> set ps. tr_chlen tr dvd p \<and> off + n \<le> p \<and> p < length (data idx))) \<and>
    (strict \<and> is_ok (slots_get slots idx) \<and> off + n \<le> length (data idx) \<longrightarrow> is_ok r)"
proof (cases "slots_get slots idx")
  case (Ok s)
  then have s: "source_ok strict s (data idx)" using src by (auto simp: sources_ok_def)
  have len: "src_end s = length (data idx)" using s by (simp add: source_ok_def)
  have u: "u64_add off n = off + n" using lim by simp
  obtain b e where be: "readahead_block_range (off + n) (tr_chlen tr) readahead (src_end s) = (b, e)" by fastforce
  have pos: "0 < tr_chlen tr" using tr by (simp add: tiers_ok_def)
  have a: "tr_chlen tr dvd b" "off + n \<le> b" "e \<le> length (data idx)"
    using readahead_range_aligned [OF pos, of "off + n" readahead "src_end s"] lim be len by auto
  obtain r1 w1 where 1: "demand bw tr idx s (src_end s) off n w = (r1, w1)" by fastforce
  note d = demand_ok [OF w tr s lim 1]
  obtain ps w2 where p: "prefetch_plan bw tr idx (step_range b e (tr_chlen tr)) None w1 = (ps, w2)" by fastforce
  have pl: "I w2 \<and> set ps \<subseteq> set (step_range b e (tr_chlen tr))" using prefetch_plan_keeps [OF w(1) _ p] d by blast
  have mem: "\<forall>p \<in> set ps. tr_chlen tr dvd p \<and> off + n \<le> p \<and> p < length (data idx)"
    using pl a by (fastforce simp: set_step_range [OF pos])
  show ?thesis
  proof (cases r1)
    case (Ok x)
    obtain bs m where x: "x = (bs, m)" by fastforce
    have "r = Ok (bs, m, ps)" "w' = w2"
      using r 1 p Ok x be \<open>slots_get slots idx = Ok s\<close> by (auto simp: foyer_read_def Let_def u then_do_def)
    then show ?thesis using d Ok x pl mem by auto
  next
    case (Err e')
    then have "r = Err e'" "w' = w1"
      using r 1 be \<open>slots_get slots idx = Ok s\<close> by (auto simp: foyer_read_def Let_def u then_do_def)
    then show ?thesis using d Err by auto
  next
    case Panic
    then show ?thesis using d by auto
  qed
next
  case (Err e)
  then show ?thesis using r w(2) by (auto simp: foyer_read_def)
next
  case Panic
  then show ?thesis using slots_get_total by metis
qed

text \<open>C8: a read through the block cache never gives a wrong byte: over any state of the cache whose blocks are
  those of the sources, whatever is resident, evicted, fetched or joined, with one or two tiers, and
  with sources that fail or come back short, a read gives exactly the bytes asked for or an error (so one
  that leaves its source is an error), and it does not panic; it leaves such a state, and so does every
  prefetch it spawns.\<close>

theorem foyer_read_exact_or_error:
  assumes "world_ok False data tr bw I" "I w" "tiers_ok tr" "sources_ok False slots data"
    and "off + n + tr_chlen tr + tr_fetch_size tr < u64_lim" "\<forall>i. length (data i) + tr_chlen tr + tr_fetch_size tr < u64_lim"
  shows "\<exists>r w'. foyer_read bw tr slots readahead idx off n w = (r, w') \<and> I w' \<and> r \<noteq> Panic \<and>
    (\<forall>bs m ps. r = Ok (bs, m, ps) \<longrightarrow> bs = sub_list (data idx) off n \<and> length bs = n \<and>
       (\<forall>p \<in> set ps. \<forall>src v. slots_get slots idx = Ok src \<and> I v \<longrightarrow> I (run_prefetch bw tr idx src p v)))"
proof -
  obtain r w' where r: "foyer_read bw tr slots readahead idx off n w = (r, w')" by fastforce
  note f = foyer_read_lemma [OF assms(1-5) r]
  have "I (run_prefetch bw tr idx src p v)"
    if "slots_get slots idx = Ok src" "I v" "tr_chlen tr dvd p" "p < length (data idx)" for src v p
  proof (rule run_prefetch_ok [OF assms(1) that(2) assms(3) _ that(3)])
    show "source_ok False src (data idx)" using that(1) assms(4) by (auto simp: sources_ok_def)
    have "length (data idx) + tr_chlen tr + tr_fetch_size tr < u64_lim" using assms(6) by blast
    then show "p + tr_chlen tr + tr_fetch_size tr < u64_lim" using that(4) by linarith
  qed
  then show ?thesis using r f by auto
qed

lemma foyer_serves:
  assumes "world_ok True data tr bw I" "I v" "tiers_ok tr" "sources_ok True slots data"
    and "length (data idx) + tr_chlen tr + tr_fetch_size tr < u64_lim" "slots_get slots idx = Ok src"
  shows "serves (foyer_cache bw tr slots readahead v) idx (data idx)"
proof -
  have s: "source_ok True src (data idx)" using assms(4,6) by (auto simp: sources_ok_def)
  have "cache_read (foyer_cache bw tr slots readahead v) idx off n = Ok (sub_list (data idx) off n)"
    if le: "off + n \<le> length (data idx)" for off n
  proof -
    obtain r w' where r: "foyer_read bw tr slots readahead idx off n v = (r, w')" by fastforce
    have lim: "off + n + tr_chlen tr + tr_fetch_size tr < u64_lim" using le assms(5) by linarith
    note f = foyer_read_lemma [OF assms(1-4) lim r]
    obtain bs m ps where "r = Ok (bs, m, ps)" using f le assms(6) by (auto simp: is_ok_iff)
    then show ?thesis using f r by (simp add: foyer_cache_def)
  qed
  then show ?thesis using s assms(6) by (simp add: serves_def foyer_cache_def source_ok_def)
qed

text \<open>C2: the block cache implements the cache that the readers rely on: when neither the sources nor the system
  fail, it serves the bytes of every registered source, in every state that reads and prefetches leave.\<close>

theorem foyer_cache_serves:
  assumes "world_ok True data tr bw I" "I w" "tiers_ok tr" "sources_ok True slots data"
    and "length (data idx) + tr_chlen tr + tr_fetch_size tr < u64_lim" "slots_get slots idx = Ok src"
  shows "serves (foyer_cache bw tr slots readahead w) idx (data idx) \<and>
    (\<forall>off n. off + n \<le> length (data idx) \<longrightarrow>
       serves (foyer_cache bw tr slots readahead (snd (foyer_read bw tr slots readahead idx off n w))) idx (data idx))"
proof -
  have "I (snd (foyer_read bw tr slots readahead idx off n w))" if le: "off + n \<le> length (data idx)" for off n
  proof -
    obtain r w' where r: "foyer_read bw tr slots readahead idx off n w = (r, w')" by fastforce
    have lim: "off + n + tr_chlen tr + tr_fetch_size tr < u64_lim" using le assms(5) by linarith
    show ?thesis using foyer_read_lemma [OF assms(1-4) lim r] r by simp
  qed
  then show ?thesis using foyer_serves [OF assms(1) _ assms(3-6)] assms(2) by blast
qed

text \<open>Both constructors give a cache that can work: a block size that is not 0 and a fetch size that is a
  positive multiple of it and is the size of a group, and at least one permit, for every block size,
  fetch size and concurrency asked for.\<close>

theorem cache_setup_sizes:
  assumes "fetch_size + max chlen (1024 * 1024) < u64_lim"
    and "single_memory mk_dir mk_cache chlen fetch_size mem conc = Ok (tr, permits) \<or>
      dual_hybrid mk_dir mk_cache chlen fetch_size mem disk mmem mdisk conc = Ok (tr, permits)"
  shows "tiers_ok tr \<and> tr_fetch_size tr = aligned_fetch_size fetch_size chlen \<and> tr_chlen tr \<le> tr_fetch_size tr \<and> 0 < permits"
proof -
  let ?c = "normalize_block_size chlen"
  have c: "0 < ?c" "fetch_size + ?c < u64_lim" using assms(1) by (auto simp: normalize_block_size_def)
  have "tr_chlen tr = ?c" "tr_fetch_size tr = group_size fetch_size ?c" "permits = limiter_permits conc"
    using assms(2) by (auto simp: single_memory_def dual_hybrid_def Let_def and_then_Ok_iff)
  then show ?thesis
    using group_size_exact [OF c] c(1) by (simp add: tiers_ok_def aligned_fetch_size_def limiter_permits_def)
qed

text \<open>What is prefetched, when no other task changes what is resident in the meantime.\<close>

lemma prefetch_plan_lemma:
  assumes pos: "0 < tr_fetch_size tr"
    and stable: "\<And>key v. tiers_contain bw tr key (snd (bw_try_acquire bw v)) = tiers_contain bw tr key v"
    and "sorted_wrt (<) offs" "\<forall>c \<in> set offs. c < u64_lim"
    and "\<forall>g. lastg = Some g \<longrightarrow> (\<exists>q. g = q div tr_fetch_size tr * tr_fetch_size tr \<and> (\<forall>c \<in> set offs. q \<le> c))"
    and "prefetch_plan bw tr idx offs lastg w = (ps, w')"
  shows "sorted_wrt (<) (map (\<lambda>p. p div tr_fetch_size tr) ps) \<and>
    (\<forall>p \<in> set ps. p \<in> set offs \<and> \<not> tiers_contain bw tr (idx, p) w \<and>
       (\<forall>g. lastg = Some g \<longrightarrow> g < p div tr_fetch_size tr * tr_fetch_size tr)) \<and>
    ((\<forall>v. fst (bw_try_acquire bw v)) \<longrightarrow>
       (\<forall>c \<in> set offs. tiers_contain bw tr (idx, c) w \<or> lastg = Some (c div tr_fetch_size tr * tr_fetch_size tr) \<or>
          (\<exists>p \<in> set ps. p div tr_fetch_size tr = c div tr_fetch_size tr)))"
  using assms(3-)
proof (induction offs arbitrary: lastg w ps w')
  case Nil
  then show ?case by simp
next
  case (Cons c offs)
  let ?fs = "tr_fetch_size tr"
  let ?g = "c div ?fs * ?fs"
  have "?g \<le> c" "c < u64_lim" using Cons.prems(2) by simp_all
  then have "?g < u64_lim" by (rule le_less_trans)
  then have u: "u64_mul (c div ?fs) ?fs = ?g" by simp
  have srt: "sorted_wrt (<) offs" "\<forall>x \<in> set offs. x < u64_lim" "\<forall>x \<in> set offs. c < x" using Cons.prems(1,2) by auto
  have l': "\<forall>g. lastg = Some g \<longrightarrow> (\<exists>q. g = q div ?fs * ?fs \<and> (\<forall>x \<in> set offs. q \<le> x))"
    using Cons.prems(3) by fastforce
  show ?case
  proof (cases "tiers_contain bw tr (idx, c) w \<or> lastg = Some ?g")
    case True
    then have p: "prefetch_plan bw tr idx offs lastg w = (ps, w')" using Cons.prems(4) by (auto simp: Let_def u split: if_splits)
    show ?thesis using Cons.IH [OF srt(1,2) l' p] True by auto
  next
    case False
    obtain b w1 where b: "bw_try_acquire bw w = (b, w1)" by fastforce
    have st: "tiers_contain bw tr key w1 = tiers_contain bw tr key w" for key using stable [of key w] b by simp
    have lt: "g < ?g" if "lastg = Some g" for g
    proof -
      obtain q where q: "g = q div ?fs * ?fs" "q \<le> c" using Cons.prems(3) \<open>lastg = Some g\<close> by auto
      then have "g \<le> ?g" by (simp add: div_le_mono)
      then show ?thesis using False \<open>lastg = Some g\<close> by (cases "g = ?g") auto
    qed
    show ?thesis
    proof (cases b)
      case True
      obtain qs w2 where q: "prefetch_plan bw tr idx offs (Some ?g) w1 = (qs, w2)" by fastforce
      have ps: "ps = c # qs" using Cons.prems(4) False b True q by (auto simp: Let_def u)
      have "\<forall>g. Some ?g = Some g \<longrightarrow> (\<exists>q. g = q div ?fs * ?fs \<and> (\<forall>x \<in> set offs. q \<le> x))" using srt(3) by (auto intro: less_imp_le)
      note ih = Cons.IH [OF srt(1,2) this q]
      have "\<forall>p \<in> set qs. c div ?fs < p div ?fs" using ih by auto
      have cov: "tiers_contain bw tr (idx, x) w \<or> lastg = Some (x div ?fs * ?fs) \<or> (\<exists>p \<in> set ps. p div ?fs = x div ?fs)"
        if "\<forall>v. fst (bw_try_acquire bw v)" "x \<in> set (c # offs)" for x
      proof (cases "x = c")
        case False
        then have "tiers_contain bw tr (idx, x) w \<or> Some ?g = Some (x div ?fs * ?fs) \<or> (\<exists>p \<in> set qs. p div ?fs = x div ?fs)"
          using ih that st by auto
        moreover have "c div ?fs = x div ?fs" if "?g = x div ?fs * ?fs" using that pos by simp
        ultimately show ?thesis unfolding ps by auto
      qed (simp add: ps)
      have "sorted_wrt (<) (map (\<lambda>p. p div ?fs) ps)" using ih \<open>\<forall>p \<in> set qs. c div ?fs < p div ?fs\<close> by (simp add: ps)
      moreover have "p \<in> set (c # offs) \<and> \<not> tiers_contain bw tr (idx, p) w \<and> (\<forall>g. lastg = Some g \<longrightarrow> g < p div ?fs * ?fs)"
        if p: "p \<in> set ps" for p
      proof (cases "p = c")
        case True
        then show ?thesis using False lt by simp
      next
        case False
        then have q: "p \<in> set qs" using p ps by simp
        then have "p \<in> set offs" "\<not> tiers_contain bw tr (idx, p) w" "?g < p div ?fs * ?fs" using ih st by auto
        moreover have "g < p div ?fs * ?fs" if "lastg = Some g" for g
          using lt [OF that] \<open>?g < p div ?fs * ?fs\<close> by (rule less_trans)
        ultimately show ?thesis by simp
      qed
      ultimately show ?thesis using cov by blast
    next
      case b: False
      then have "ps = []" using Cons.prems(4) False \<open>bw_try_acquire bw w = (b, w1)\<close> by (auto simp: Let_def u)
      moreover have "\<not> fst (bw_try_acquire bw w)" using b \<open>bw_try_acquire bw w = (b, w1)\<close> by simp
      ultimately show ?thesis by auto
    qed
  qed
qed

text \<open>Read-ahead spends nothing twice: the blocks it prefetches lie in the window, are not resident, and no two
  of them belong to one fetch group; and while there are permits to spare, every block of the window that
  is not resident is in a group that is fetched.\<close>

theorem prefetch_plan_spec:
  assumes "0 < tr_fetch_size tr" "0 < s" "e \<le> u64_lim"
    and "\<forall>key v. tiers_contain bw tr key (snd (bw_try_acquire bw v)) = tiers_contain bw tr key v"
  shows "\<exists>ps w'. prefetch_plan bw tr idx (step_range b e s) None w = (ps, w') \<and>
    set ps \<subseteq> set (step_range b e s) \<and> distinct (map (\<lambda>p. p div tr_fetch_size tr) ps) \<and>
    (\<forall>p \<in> set ps. \<not> tiers_contain bw tr (idx, p) w) \<and>
    ((\<forall>v. fst (bw_try_acquire bw v)) \<longrightarrow>
       (\<forall>c \<in> set (step_range b e s). \<not> tiers_contain bw tr (idx, c) w \<longrightarrow>
          (\<exists>p \<in> set ps. p div tr_fetch_size tr = c div tr_fetch_size tr)))"
proof -
  obtain ps w' where p: "prefetch_plan bw tr idx (step_range b e s) None w = (ps, w')" by fastforce
  have "\<forall>c \<in> set (step_range b e s). c < u64_lim" using assms(2,3) by (auto simp: set_step_range)
  moreover have "sorted_wrt (<) (step_range b e s)" using sorted_step_range [of b e s] assms(2) by simp
  ultimately have l: "sorted_wrt (<) (map (\<lambda>p. p div tr_fetch_size tr) ps)"
    "\<forall>p \<in> set ps. p \<in> set (step_range b e s) \<and> \<not> tiers_contain bw tr (idx, p) w"
    "(\<forall>v. fst (bw_try_acquire bw v)) \<longrightarrow> (\<forall>c \<in> set (step_range b e s). tiers_contain bw tr (idx, c) w \<or>
          (\<exists>p \<in> set ps. p div tr_fetch_size tr = c div tr_fetch_size tr))"
    using prefetch_plan_lemma [OF assms(1) _ _ _ _ p] assms(4) by auto
  have "distinct (map (\<lambda>p. p div tr_fetch_size tr) ps)" using l(1) by (simp add: strict_sorted_iff)
  then show ?thesis using p l(2,3) by blast
qed

subsection \<open>A cache in memory\<close>

text \<open>Two tiers without bounds, without other tasks and with permits for everybody.\<close>

type_synonym blocks = "(tier \<times> block_key) \<rightharpoonup> bytes"

definition map_world :: "blocks block_world" where
  "map_world =
     \<lparr>bw_get = (\<lambda>t key w. (Ok (w (t, key)), w)), bw_contains = (\<lambda>t key w. w (t, key) \<noteq> None),
      bw_insert = (\<lambda>t key b w. w((t, key) \<mapsto> b)),
      bw_get_or_fetch = (\<lambda>t key fetch unused w.
        case w (t, key) of
          Some b \<Rightarrow> (Ok b, unused w)
        | None \<Rightarrow> (case fetch w of (Ok b, w) \<Rightarrow> (Ok b, w((t, key) \<mapsto> b)) | (r, w) \<Rightarrow> (r, w))),
      bw_regular = (\<lambda>w. (False, w)), bw_acquire = (\<lambda>w. (Ok (), w)), bw_try_acquire = (\<lambda>w. (True, w)),
      bw_release = (\<lambda>w. w), bw_inflight = (\<lambda>key w. (None, w)), bw_retire = (\<lambda>key w. w)\<rparr>"

definition blocks_right :: "(nat \<Rightarrow> bytes) \<Rightarrow> nat \<Rightarrow> blocks \<Rightarrow> bool" where
  "blocks_right data chlen w \<longleftrightarrow> (\<forall>t key b. w (t, key) = Some b \<longrightarrow> b = block_bytes data chlen key)"

lemma map_world_sels:
  "bw_get map_world t key w = (Ok (w (t, key)), w)" "bw_insert map_world t key b w = w((t, key) \<mapsto> b)"
  "bw_get_or_fetch map_world t key fetch unused w =
     (case w (t, key) of
        Some b \<Rightarrow> (Ok b, unused w)
      | None \<Rightarrow> (case fetch w of (Ok b, w) \<Rightarrow> (Ok b, w((t, key) \<mapsto> b)) | (r, w) \<Rightarrow> (r, w)))"
  "bw_regular map_world w = (False, w)" "bw_try_acquire map_world w = (True, w)" "bw_release map_world w = w"
  "bw_acquire map_world w = (Ok (), w)" "bw_inflight map_world key w = (None, w)" "bw_retire map_world key w = w"
  by (simp_all add: map_world_def)

lemma blocks_right_upd:
  "blocks_right data chlen w \<Longrightarrow> blocks_right data chlen (w((t, key) \<mapsto> block_bytes data chlen key))"
  by (simp add: blocks_right_def)

lemma map_world_ok: "world_ok strict data tr map_world (blocks_right data (tr_chlen tr))"
proof -
  let ?I = "blocks_right data (tr_chlen tr)"
  have g: "?I w' \<and> good_block strict data (tr_chlen tr) key r"
    if a: "?I w" "bw_get_or_fetch map_world t key fetch unused w = (r, w')"
      "\<forall>v s v'. ?I v \<and> fetch v = (s, v') \<longrightarrow> ?I v' \<and> good_block strict data (tr_chlen tr) key s" "\<forall>v. ?I v \<longrightarrow> ?I (unused v)"
    for t key fetch unused w r w'
  proof (cases "w (t, key)")
    case None
    obtain s v where f: "fetch w = (s, v)" by fastforce
    then have "?I v \<and> good_block strict data (tr_chlen tr) key s" using a(1,3) by blast
    then show ?thesis using a(2) None f
      by (cases s) (auto simp: map_world_sels good_block_def intro: blocks_right_upd)
  next
    case (Some b)
    then have "b = block_bytes data (tr_chlen tr) key" using a(1) unfolding blocks_right_def by blast
    then show ?thesis using a Some by (auto simp: map_world_sels good_block_def)
  qed
  have A: "\<forall>t key w r w'. ?I w \<and> bw_get map_world t key w = (r, w') \<longrightarrow>
      ?I w' \<and> r \<noteq> Panic \<and> (\<forall>b. r = Ok (Some b) \<longrightarrow> b = block_bytes data (tr_chlen tr) key) \<and> (\<forall>e. r = Err e \<longrightarrow> \<not> strict)"
    by (auto simp: map_world_sels) (simp add: blocks_right_def)
  have B: "\<forall>t key w. ?I w \<longrightarrow> ?I (bw_insert map_world t key (block_bytes data (tr_chlen tr) key) w)"
    by (simp add: map_world_sels blocks_right_upd)
  have C: "\<forall>t key fetch unused w r w'. ?I w \<and> bw_get_or_fetch map_world t key fetch unused w = (r, w') \<and>
      (\<forall>v s v'. ?I v \<and> fetch v = (s, v') \<longrightarrow> ?I v' \<and> good_block strict data (tr_chlen tr) key s) \<and>
      (\<forall>v. ?I v \<longrightarrow> ?I (unused v)) \<longrightarrow> ?I w' \<and> good_block strict data (tr_chlen tr) key r"
    by (intro allI impI, elim conjE) (rule g)
  show ?thesis unfolding world_ok_def by (intro conjI A B C) (auto simp: map_world_sels)
qed

lemma file_source_ok: "length d < u64_lim \<Longrightarrow> source_ok strict (file_source d) d"
proof -
  assume "length d < u64_lim"
  moreover have "good_range strict d b e (read_exact_at d (e - b) b)" if "b \<le> e" "e \<le> length d" for b e
    using that by (auto simp: good_range_def read_exact_at_def intro: exI [of _ "e - b"])
  moreover have "read_exact_at d 0 b = Ok []" for b by (simp add: read_exact_at_def)
  ultimately show ?thesis by (simp add: source_ok_def file_source_def)
qed

definition sample_data :: bytes where
  "sample_data = [0, 1, 2, 3, 4, 5, 6, 7, 8, 9, 10]"

definition sample_tiers :: tiers where
  "sample_tiers = \<lparr>tr_chlen = 2, tr_fetch_size = 6, tr_metadata = True\<rparr>"

lemma sample_cache_ok:
  "world_ok strict (\<lambda>i. sample_data) sample_tiers map_world (blocks_right (\<lambda>i. sample_data) 2)"
  "blocks_right (\<lambda>i. sample_data) 2 (\<lambda>x. None)" "tiers_ok sample_tiers"
  "sources_ok strict [Some (file_source sample_data)] (\<lambda>i. sample_data)"
proof -
  show "world_ok strict (\<lambda>i. sample_data) sample_tiers map_world (blocks_right (\<lambda>i. sample_data) 2)"
    using map_world_ok [of strict "\<lambda>i. sample_data" sample_tiers] by (simp add: sample_tiers_def)
  show "blocks_right (\<lambda>i. sample_data) 2 (\<lambda>x. None)" by (simp add: blocks_right_def)
  show "tiers_ok sample_tiers" by (simp add: tiers_ok_def sample_tiers_def group_size_def u64_mul_def u64_lim_def)
  have "length sample_data < u64_lim" by (simp add: sample_data_def u64_lim_def)
  then show "sources_ok strict [Some (file_source sample_data)] (\<lambda>i. sample_data)"
    using file_source_ok [of sample_data strict] by (auto simp: sources_ok_def slots_get_def split: if_splits)
qed

theorem foyer_read_exact_or_error_witness:
  "\<exists>r w'. foyer_read map_world sample_tiers [Some (file_source sample_data)] 2 0 3 4 (\<lambda>x. None) = (r, w') \<and> r \<noteq> Panic \<and>
     (\<forall>bs m ps. r = Ok (bs, m, ps) \<longrightarrow> bs = [3, 4, 5, 6])"
proof -
  have l: "3 + 4 + tr_chlen sample_tiers + tr_fetch_size sample_tiers < u64_lim"
    "\<forall>i :: nat. length sample_data + tr_chlen sample_tiers + tr_fetch_size sample_tiers < u64_lim"
    by (simp_all add: sample_tiers_def sample_data_def u64_lim_def)
  have "sub_list sample_data 3 4 = [3, 4, 5, 6]" by code_simp
  then show ?thesis
    using foyer_read_exact_or_error [where data = "\<lambda>i. sample_data" and I = "blocks_right (\<lambda>i. sample_data) 2", OF sample_cache_ok(1) [of False] sample_cache_ok(2,3) sample_cache_ok(4) [of False] l, where readahead = 2 and idx = 0]
    by fastforce
qed

theorem foyer_cache_serves_witness:
  "serves (foyer_cache map_world sample_tiers [Some (file_source sample_data)] 2 (\<lambda>x. None)) 0 sample_data \<and>
   cache_read (foyer_cache map_world sample_tiers [Some (file_source sample_data)] 2 (\<lambda>x. None)) 0 3 4 = Ok [3, 4, 5, 6]"
proof -
  have "length sample_data + tr_chlen sample_tiers + tr_fetch_size sample_tiers < u64_lim"
    "slots_get [Some (file_source sample_data)] 0 = Ok (file_source sample_data)"
    by (simp_all add: sample_tiers_def sample_data_def u64_lim_def slots_get_def)
  then have s: "serves (foyer_cache map_world sample_tiers [Some (file_source sample_data)] 2 (\<lambda>x. None)) 0 sample_data"
    using foyer_cache_serves [where data = "\<lambda>i. sample_data" and I = "blocks_right (\<lambda>i. sample_data) 2", OF sample_cache_ok(1) [of True] sample_cache_ok(2,3) sample_cache_ok(4) [of True], of 0 "file_source sample_data" 2] by blast
  have "sub_list sample_data 3 4 = [3, 4, 5, 6]" "3 + 4 \<le> length sample_data" by code_simp+
  then show ?thesis using s servesD(3) [OF s, of 3 4] by simp
qed

theorem cache_setup_sizes_witness:
  "\<exists>tr permits. single_memory (Ok ()) (\<lambda>m d. Ok ()) 0 5000000 256 0 = Ok (tr, permits) \<and> tiers_ok tr \<and> 0 < permits \<and>
     tr_fetch_size tr = 4 * 1024 * 1024"
proof -
  define tr where "tr = \<lparr>tr_chlen = 1048576, tr_fetch_size = 4194304, tr_metadata = False\<rparr>"
  have s: "single_memory (Ok ()) (\<lambda>m d. Ok ()) 0 5000000 256 0 = Ok (tr, 1)"
    by (simp add: single_memory_def normalize_block_size_def group_size_def build_hybrid_def limiter_permits_def tr_def
        u64_mul_def u64_lim_def)
  have "(5000000 :: nat) + max 0 (1024 * 1024) < u64_lim" by (simp add: u64_lim_def)
  from cache_setup_sizes [OF this disjI1 [OF s]] show ?thesis using s by (auto simp: tr_def)
qed

theorem prefetch_plan_spec_witness:
  "\<exists>ps w'. prefetch_plan map_world sample_tiers 0 (step_range 4 11 2) None [(Content, (0, 6)) \<mapsto> [6, 7]] = (ps, w') \<and>
     ps \<noteq> [] \<and> distinct (map (\<lambda>p. p div 6) ps)"
proof -
  let ?w = "[(Content, (0, 6)) \<mapsto> [6, 7]] :: blocks"
  have st: "\<forall>key v. tiers_contain map_world sample_tiers key (snd (bw_try_acquire map_world v)) = tiers_contain map_world sample_tiers key v"
    by (simp add: map_world_def)
  have p: "0 < tr_fetch_size sample_tiers" "(0 :: nat) < 2" "11 \<le> u64_lim" "tr_fetch_size sample_tiers = 6"
    by (simp_all add: sample_tiers_def u64_lim_def)
  have f: "\<forall>v. fst (bw_try_acquire map_world v)" by (simp add: map_world_def)
  have c: "4 \<in> set (step_range 4 11 2)" "\<not> tiers_contain map_world sample_tiers (0, 4) ?w"
    by (simp add: step_range_def upt_conv_Cons, simp add: tiers_contain_def map_world_def)
  show ?thesis using prefetch_plan_spec [OF p(1-3) st, of 0 4 ?w] f c unfolding p(4) by fastforce
qed

end
