(* ===== verification/CachedOpen.thy ===== *)
theory CachedOpen
  imports BlockReads Rawdisk VmdkReader
begin

text \<open>
  Opening with options, the first half of \<open>open_with_options\<close> in \<open>rawdisk/src/rawdisk_reader.rs\<close> and
  \<open>vmdk/src/vmdk_reader.rs\<close>: the URL, the runtime, the block cache of \<open>BlockCache\<close> in the mode asked for, the
  credentials, and then the open of \<open>Rawdisk\<close> and \<open>VmdkReader\<close>.

  What the system answers is the record \<open>open_env\<close>: starting the runtime, making directories and hybrid
  caches, credentials.  The two crates have the same options, in the same order.

  Shown: a raw image that is opened with any options and read through its block cache is the concatenation of
  its files, whatever the cache holds and drops in the meantime.
\<close>

subsection \<open>Options\<close>

record reader_options =
  ro_foyer_readahead :: nat
  ro_s3_concurrency :: nat
  ro_cache_mem_mib :: nat
  ro_cache_mode :: cache_mode
  ro_cache_dir :: "string option"
  ro_io_log :: bool
  ro_cache_chunk_size :: nat
  ro_cache_fetch_size :: nat

type_synonym vmdk_reader_options = reader_options

definition DEFAULT_READER_MEM_MIB :: nat where
  "DEFAULT_READER_MEM_MIB = 256"

definition DEFAULT_READER_S3_CONCURRENCY :: nat where
  "DEFAULT_READER_S3_CONCURRENCY = 8"

definition DEFAULT_CACHE_CHUNK_SIZE :: nat where
  "DEFAULT_CACHE_CHUNK_SIZE = 1024 * 1024"

definition DEFAULT_READER_FETCH_SIZE :: nat where
  "DEFAULT_READER_FETCH_SIZE = DEFAULT_CACHE_CHUNK_SIZE"

definition rawdisk_default_options :: reader_options where
  "rawdisk_default_options =
     \<lparr>ro_foyer_readahead = 0, ro_s3_concurrency = DEFAULT_READER_S3_CONCURRENCY, ro_cache_mem_mib = DEFAULT_READER_MEM_MIB,
      ro_cache_mode = SingleMemory, ro_cache_dir = None, ro_io_log = False, ro_cache_chunk_size = DEFAULT_CACHE_CHUNK_SIZE,
      ro_cache_fetch_size = DEFAULT_READER_FETCH_SIZE\<rparr>"

definition vmdk_default_options :: vmdk_reader_options where
  "vmdk_default_options =
     \<lparr>ro_foyer_readahead = 0, ro_s3_concurrency = DEFAULT_READER_S3_CONCURRENCY, ro_cache_mem_mib = DEFAULT_READER_MEM_MIB,
      ro_cache_mode = SingleMemory, ro_cache_dir = None, ro_io_log = False, ro_cache_chunk_size = DEFAULT_CACHE_CHUNK_SIZE,
      ro_cache_fetch_size = DEFAULT_READER_FETCH_SIZE\<rparr>"

subsection \<open>The cache and the rest of the setup\<close>

text \<open>\<open>en_mk_dir\<close> makes a directory below the one asked for; \<open>en_mk_cache\<close> gets the entries in memory and the bytes on
  disk.\<close>

record open_env =
  en_runtime :: "(unit, io_error) result"
  en_mk_dir :: "string option \<Rightarrow> (unit, io_error) result"
  en_mk_cache :: "nat \<Rightarrow> nat \<Rightarrow> (unit, io_error) result"
  en_scheme :: "string \<Rightarrow> string"
  en_s3_auth :: "(unit, io_error) result"

definition raw_block_cache :: "open_env \<Rightarrow> reader_options \<Rightarrow> (tiers \<times> nat, io_error) result" where
  "raw_block_cache en opts =
     (let chlen = ro_cache_chunk_size opts; fetch_size = max (ro_cache_fetch_size opts) chlen in
      case ro_cache_mode opts of
        SingleMemory \<Rightarrow>
          single_memory (en_mk_dir en (ro_cache_dir opts)) (en_mk_cache en) chlen fetch_size (ro_cache_mem_mib opts)
            (ro_s3_concurrency opts)
      | DualHybrid content_disk_mib metadata_mem_mib metadata_disk_mib \<Rightarrow>
          dual_hybrid (en_mk_dir en (ro_cache_dir opts)) (en_mk_cache en) chlen fetch_size (ro_cache_mem_mib opts)
            content_disk_mib metadata_mem_mib metadata_disk_mib (ro_s3_concurrency opts))"

definition vmdk_block_cache :: "open_env \<Rightarrow> vmdk_reader_options \<Rightarrow> (tiers \<times> nat, io_error) result" where
  "vmdk_block_cache en opts =
     (let chlen = ro_cache_chunk_size opts; fetch_size = max (ro_cache_fetch_size opts) chlen in
      case ro_cache_mode opts of
        SingleMemory \<Rightarrow>
          single_memory (en_mk_dir en (ro_cache_dir opts)) (en_mk_cache en) chlen fetch_size (ro_cache_mem_mib opts)
            (ro_s3_concurrency opts)
      | DualHybrid content_disk_mib metadata_mem_mib metadata_disk_mib \<Rightarrow>
          dual_hybrid (en_mk_dir en (ro_cache_dir opts)) (en_mk_cache en) chlen fetch_size (ro_cache_mem_mib opts)
            content_disk_mib metadata_mem_mib metadata_disk_mib (ro_s3_concurrency opts))"

text \<open>Up to the credentials; the errors carry no path.\<close>

definition raw_setup :: "open_env \<Rightarrow> string \<Rightarrow> reader_options \<Rightarrow> (tiers \<times> nat, source_open_error) result" where
  "raw_setup en url opts =
     and_then (map_err (\<lambda>e. ([], SrcInitializationFailed (TokioRuntimeFailed e))) (en_runtime en)) (\<lambda>_.
     and_then (map_err (\<lambda>e. ([], SrcInitializationFailed (CacheSetupFailed e))) (raw_block_cache en opts)) (\<lambda>c.
     and_then (if en_scheme en url = ''s3'' then map_err (\<lambda>e. ([], SrcIoError e)) (en_s3_auth en) else Ok ()) (\<lambda>_.
     Ok c)))"

definition rawdisk_open_with_options ::
    "open_env \<Rightarrow> raw_sys \<Rightarrow> string \<Rightarrow> reader_options \<Rightarrow> (rawdisk_reader \<times> tiers \<times> nat, source_open_error) result option" where
  "rawdisk_open_with_options en sys image_path opts =
     (case rs_path_to_url sys image_path of
        None \<Rightarrow> Some (Err (open_target_error sys image_path))
      | Some url \<Rightarrow>
          (case raw_setup en url opts of
             Ok c \<Rightarrow> map_option (\<lambda>r. and_then r (\<lambda>rd. Ok (rd, c))) (rawdisk_open sys image_path)
           | Err e \<Rightarrow> Some (Err e)
           | Panic \<Rightarrow> Some Panic))"

definition rawdisk_open_default :: "open_env \<Rightarrow> raw_sys \<Rightarrow> string \<Rightarrow> (rawdisk_reader \<times> tiers \<times> nat, source_open_error) result option" where
  "rawdisk_open_default en sys image_path = rawdisk_open_with_options en sys image_path rawdisk_default_options"

definition vmdk_setup :: "open_env \<Rightarrow> string \<Rightarrow> vmdk_reader_options \<Rightarrow> (tiers \<times> nat, open_error) result" where
  "vmdk_setup en url opts =
     and_then (map_err (\<lambda>e. open_error_from (InitializationFailed (TokioRuntimeFailed e))) (en_runtime en)) (\<lambda>_.
     and_then (map_err (\<lambda>e. open_error_from (InitializationFailed (CacheSetupFailed e))) (vmdk_block_cache en opts)) (\<lambda>c.
     and_then (if en_scheme en url = ''s3'' then map_err io_open_error (en_s3_auth en) else Ok ()) (\<lambda>_.
     Ok c)))"

text \<open>The opened cache is what \<open>mk\<close> makes of the tiers; it serves the open as well.\<close>

definition vmdk_open_with_options ::
    "open_env \<Rightarrow> vmdk_sys \<Rightarrow> (string \<Rightarrow> string option) \<Rightarrow> (tiers \<Rightarrow> source_slots \<Rightarrow> cache) \<Rightarrow> string \<Rightarrow> vmdk_reader_options \<Rightarrow>
      (vmdk_reader \<times> tiers \<times> nat, open_error) result option" where
  "vmdk_open_with_options en sys to_url mk image_path opts =
     (case to_url image_path of
        None \<Rightarrow> Some (Err (open_error_from (BadPath image_path)))
      | Some url \<Rightarrow>
          (case vmdk_setup en url opts of
             Ok (tr, permits) \<Rightarrow>
               map_option (\<lambda>r. and_then r (\<lambda>rd. Ok (rd, tr, permits))) (vmdk_open (sys\<lparr>sys_cache := mk tr\<rparr>) url)
           | Err e \<Rightarrow> Some (Err e)
           | Panic \<Rightarrow> Some Panic))"

definition vmdk_open_default ::
    "open_env \<Rightarrow> vmdk_sys \<Rightarrow> (string \<Rightarrow> string option) \<Rightarrow> (tiers \<Rightarrow> source_slots \<Rightarrow> cache) \<Rightarrow> string \<Rightarrow>
      (vmdk_reader \<times> tiers \<times> nat, open_error) result option" where
  "vmdk_open_default en sys to_url mk image_path = vmdk_open_with_options en sys to_url mk image_path vmdk_default_options"

subsection \<open>The cache that is made\<close>

text \<open>Whatever sizes are asked for: the blocks are not empty, and a fetch is a whole number of them.\<close>

lemma raw_block_cache_sizes:
  assumes "raw_block_cache en opts = Ok (tr, permits)"
    and "max (ro_cache_fetch_size opts) (ro_cache_chunk_size opts) + max (ro_cache_chunk_size opts) (1024 * 1024) < u64_lim"
  shows "tiers_ok tr \<and> 0 < permits"
proof -
  let ?chlen = "ro_cache_chunk_size opts" and ?fetch = "max (ro_cache_fetch_size opts) (ro_cache_chunk_size opts)"
  let ?dir = "en_mk_dir en (ro_cache_dir opts)" and ?mem = "ro_cache_mem_mib opts" and ?conc = "ro_s3_concurrency opts"
  obtain disk mmem mdisk where
    "single_memory ?dir (en_mk_cache en) ?chlen ?fetch ?mem ?conc = Ok (tr, permits) \<or>
     dual_hybrid ?dir (en_mk_cache en) ?chlen ?fetch ?mem disk mmem mdisk ?conc = Ok (tr, permits)"
    using assms(1) by (auto simp: raw_block_cache_def Let_def split: cache_mode.splits)
  then show ?thesis using cache_setup_sizes [OF assms(2)] by blast
qed

text \<open>The sources of an opened raw image are its files and nothing else.\<close>

lemma length_slots_set: "length (slots_set slots i src) = max (length slots) (i + 1)"
  by (simp add: slots_set_def Let_def)

lemma open_segments_slots:
  "open_segments sys many paths idx ls slots = Ok (ls', slots') \<Longrightarrow> length slots \<le> idx \<Longrightarrow>
     length slots' \<le> idx + length paths"
proof (induction paths arbitrary: idx ls slots)
  case (Cons path paths)
  then obtain src where "open_segments sys many paths (idx + 1) (ls @ [src_end src]) (slots_set slots idx src) = Ok (ls', slots')"
    by (auto simp: and_then_Ok_iff split: if_splits)
  then show ?case using Cons.IH [of "idx + 1"] Cons.prems(2) by (fastforce simp: length_slots_set)
qed simp

definition segment_data :: "bytes list \<Rightarrow> nat \<Rightarrow> bytes" where
  "segment_data ds i = (if i < length ds then ds ! i else [])"

lemma rawdisk_open_sources:
  assumes fb: "file_backed sys fs" and url: "rs_path_to_url sys image_path = Some url"
    and paths: "raw_segment_list sys image_path url = Some (Ok paths)"
    and lim: "length (concat (map fs paths)) < u64_lim"
    and ok: "rawdisk_open sys image_path = Some (Ok rd)"
  shows "sources_ok strict (rr_slots rd) (segment_data (map fs paths)) \<and>
    (\<forall>i < length paths. slots_get (rr_slots rd) i = Ok (file_source (fs (paths ! i))))"
proof -
  obtain ls slots where o: "open_segments sys (length paths > 1) paths 0 [] [] = Ok (ls, slots)" "rr_slots rd = slots"
    using ok url paths by (auto simp: rawdisk_open_def and_then_Ok_iff Let_def)
  have get: "\<forall>i < length paths. slots_get slots i = Ok (file_source (fs (paths ! i)))"
    using open_segments_files [OF fb o(1)] by auto
  have len: "length slots \<le> length paths" using open_segments_slots [OF o(1)] by simp
  have "source_ok strict src (segment_data (map fs paths) i)" if g: "slots_get slots i = Ok src" for i src
  proof -
    have i: "i < length paths" using g len by (auto simp: slots_get_def split: if_splits)
    then have "length (fs (paths ! i)) \<le> length (concat (map fs paths))"
      by (auto simp: length_concat intro!: member_le_sum_list)
    then show ?thesis using get g i lim file_source_ok [of "fs (paths ! i)" strict] by (simp add: segment_data_def)
  qed
  then show ?thesis using get o(2) by (simp add: sources_ok_def)
qed

lemma segments_ok_cache:
  assumes "segments_ok c ds rd" "\<And>i. i < length ds \<Longrightarrow> serves c' i (ds ! i)"
  shows "segments_ok c' ds rd"
  using assms by (simp add: segments_ok_def)

lemma raw_setup_cache: "raw_setup en url opts = Ok c \<Longrightarrow> raw_block_cache en opts = Ok c"
  by (auto simp: raw_setup_def and_then_Ok_iff split: if_splits)

text \<open>The cache of a running program: other reads and prefetches go on, so each call finds it in some state, \<open>ws\<close>.\<close>

definition moving_cache ::
    "'w block_world \<Rightarrow> tiers \<Rightarrow> source_slots \<Rightarrow> nat \<Rightarrow> (nat \<Rightarrow> nat \<Rightarrow> nat \<Rightarrow> 'w) \<Rightarrow> cache" where
  "moving_cache bw tr slots readahead ws =
     \<lparr>cache_read = (\<lambda>idx off n. cache_read (foyer_cache bw tr slots readahead (ws idx off n)) idx off n),
      cache_end = (\<lambda>idx. and_then (slots_get slots idx) (\<lambda>src. Ok (src_end src)))\<rparr>"

lemma moving_cache_serves:
  assumes "\<And>w. I w \<Longrightarrow> serves (foyer_cache bw tr slots readahead w) i d" "\<And>idx off n. I (ws idx off n)"
  shows "serves (moving_cache bw tr slots readahead ws) i d"
  using assms(1) [OF assms(2)] by (simp add: serves_def moving_cache_def foyer_cache_def)

lemma raw_open_cached:
  assumes fb: "file_backed sys fs" and url: "rs_path_to_url sys image_path = Some url"
    and paths: "raw_segment_list sys image_path url = Some (Ok paths)"
    and ok: "rawdisk_open_with_options en sys image_path opts = Some (Ok (rd, tr, permits))"
    and sizes: "max (ro_cache_fetch_size opts) (ro_cache_chunk_size opts) + max (ro_cache_chunk_size opts) (1024 * 1024) < u64_lim"
    and lim: "length (concat (map fs paths)) + tr_chlen tr + tr_fetch_size tr < u64_lim" "length paths < u64_lim"
    and world: "world_ok True (segment_data (map fs paths)) tr bw I" "\<forall>idx off n. I (ws idx off n)"
  shows "segments_ok (moving_cache bw tr (rr_slots rd) (ro_foyer_readahead opts) ws) (map fs paths) rd"
proof -
  let ?c = "moving_cache bw tr (rr_slots rd) (ro_foyer_readahead opts) ws" and ?ds = "map fs paths"
  have o: "rawdisk_open sys image_path = Some (Ok rd)" "raw_setup en url opts = Ok (tr, permits)"
    using ok url by (auto simp: rawdisk_open_with_options_def and_then_Ok_iff split: result.splits)
  have tr: "tiers_ok tr" using raw_block_cache_sizes [OF raw_setup_cache [OF o(2)] sizes] by blast
  have len: "length (concat ?ds) < u64_lim" using lim(1) by linarith
  note src = rawdisk_open_sources [OF fb url paths len o(1), of True]
  have "serves ?c i (?ds ! i)" if i: "i < length ?ds" for i
  proof -
    have "length (?ds ! i) \<le> length (concat ?ds)" using i by (auto simp: length_concat intro!: member_le_sum_list)
    then have "length (segment_data ?ds i) + tr_chlen tr + tr_fetch_size tr < u64_lim"
      using lim(1) i by (simp add: segment_data_def)
    then have "serves (foyer_cache bw tr (rr_slots rd) (ro_foyer_readahead opts) w) i (segment_data ?ds i)" if "I w" for w
      using foyer_serves [OF world(1) that tr] src i by simp
    then have "serves ?c i (segment_data ?ds i)"
      using moving_cache_serves [where I = I] world(2) by blast
    then show ?thesis using i by (simp add: segment_data_def)
  qed
  then show ?thesis
    using segments_ok_cache rawdisk_open_segments [OF fb url paths len lim(2) o(1)] by blast
qed

text \<open>C5: a raw image that is opened with any options (one tier or two, any block and fetch size, any number of
  fetches at once, any read-ahead) and read through the block cache that the open made gives the
  concatenation of its segment files, whatever states of the cache its reads meet; for sources and a system
  that do not fail.\<close>

theorem raw_image_through_block_cache:
  assumes "file_backed sys fs" "rs_path_to_url sys image_path = Some url"
    and "raw_segment_list sys image_path url = Some (Ok paths)"
    and "rawdisk_open_with_options en sys image_path opts = Some (Ok (rd, tr, permits))"
    and "max (ro_cache_fetch_size opts) (ro_cache_chunk_size opts) + max (ro_cache_chunk_size opts) (1024 * 1024) < u64_lim"
    and "length (concat (map fs paths)) + tr_chlen tr + tr_fetch_size tr < u64_lim" "length paths < u64_lim"
    and "world_ok True (segment_data (map fs paths)) tr bw I" "\<forall>idx off n. I (ws idx off n)"
    and off: "offset \<le> length (concat (map fs paths))" "offset + buflen < u64_lim"
  shows "rr_image_size rd = length (concat (map fs paths)) \<and>
    raw_read_at_offset (moving_cache bw tr (rr_slots rd) (ro_foyer_readahead opts) ws) rd offset buflen =
      Ok (take buflen (drop offset (concat (map fs paths))))"
proof -
  note sok = raw_open_cached [OF assms(1-9)]
  then have "rr_image_size rd = length (concat (map fs paths))" by (simp add: segments_ok_def)
  then show ?thesis using raw_read_slices [OF sok _ off(2)] off(1) by (simp add: sub_list_def min_def)
qed

definition sample_env :: open_env where
  "sample_env = \<lparr>en_runtime = Ok (), en_mk_dir = (\<lambda>d. Ok ()), en_mk_cache = (\<lambda>m d. Ok ()), en_scheme = (\<lambda>u. ''file''),
     en_s3_auth = Err Other\<rparr>"

definition sample_options :: reader_options where
  "sample_options = rawdisk_default_options\<lparr>ro_foyer_readahead := 2, ro_cache_mode := DualHybrid 1 1 1, ro_cache_chunk_size := 2,
     ro_cache_fetch_size := 5\<rparr>"

theorem raw_image_through_block_cache_witness:
  "\<exists>rd. rawdisk_open_with_options sample_env sample_raw_sys ''d.002'' sample_options =
        Some (Ok (rd, \<lparr>tr_chlen = 2, tr_fetch_size = 4, tr_metadata = True\<rparr>, 8)) \<and>
     raw_read_at_offset (moving_cache map_world \<lparr>tr_chlen = 2, tr_fetch_size = 4, tr_metadata = True\<rparr> (rr_slots rd) 2 (\<lambda>idx off n x. None))
       rd 2 3 = Ok [3, 4, 5]"
proof -
  let ?tr = "\<lparr>tr_chlen = 2, tr_fetch_size = 4, tr_metadata = True\<rparr>" and ?paths = "[''d.001'', ''d.002'', ''d.003'']"
  have url: "rs_path_to_url sample_raw_sys ''d.002'' = Some ''d.002''" by (simp add: sample_raw_sys_def)
  obtain rd where "rawdisk_open sample_raw_sys ''d.002'' = Some (Ok rd)" using sample_raw_open(1) by blast
  moreover have "raw_setup sample_env ''d.002'' sample_options = Ok (?tr, 8)"
    by (simp add: raw_setup_def raw_block_cache_def sample_options_def sample_env_def rawdisk_default_options_def
        dual_hybrid_def build_hybrid_def normalize_block_size_def group_size_def limiter_permits_def u64_mul_def u64_lim_def
        DEFAULT_READER_S3_CONCURRENCY_def Let_def)
  ultimately have o: "rawdisk_open_with_options sample_env sample_raw_sys ''d.002'' sample_options = Some (Ok (rd, ?tr, 8))"
    using url by (simp add: rawdisk_open_with_options_def)
  have c: "concat (map sample_fs ?paths) = [1, 2, 3, 4, 5, 6]" by (simp add: sample_fs_def)
  have fb: "file_backed sample_raw_sys sample_fs" by (simp add: file_backed_def sample_raw_sys_def)
  have w: "world_ok True (segment_data (map sample_fs ?paths)) ?tr map_world (blocks_right (segment_data (map sample_fs ?paths)) 2)"
    "\<forall>idx off n :: nat. blocks_right (segment_data (map sample_fs ?paths)) 2 (\<lambda>x. None)"
    using map_world_ok [of True "segment_data (map sample_fs ?paths)" ?tr] by (simp_all add: blocks_right_def)
  have s: "max (ro_cache_fetch_size sample_options) (ro_cache_chunk_size sample_options) +
      max (ro_cache_chunk_size sample_options) (1024 * 1024) < u64_lim"
    by (simp add: sample_options_def u64_lim_def)
  have l: "length (concat (map sample_fs ?paths)) + tr_chlen ?tr + tr_fetch_size ?tr < u64_lim" "length ?paths < u64_lim"
    "2 \<le> length (concat (map sample_fs ?paths))" "2 + 3 < u64_lim"
    unfolding c by (simp_all add: u64_lim_def)
  note r = raw_image_through_block_cache [where fs = sample_fs and I = "blocks_right (segment_data (map sample_fs ?paths)) 2"
    and bw = map_world and ws = "\<lambda>idx off n x. None" and offset = 2 and buflen = 3, OF fb url sample_raw_open(2) o s l(1,2) w l(3,4)]
  have "ro_foyer_readahead sample_options = 2" by (simp add: sample_options_def)
  with conjunct2 [OF r] o show ?thesis unfolding c by auto
qed

end
