(* ===== verification/IoLog.thy ===== *)
theory IoLog
  imports ImageSource RustStr
begin

text \<open>
  The trace of reads and fetches, \<open>imagesource/src/io_log.rs\<close>: a file of JSON lines behind a buffered writer,
  a flag that is set when the first client connects, and counters that the summary reports.

  The file is its content and the space that the file system still gives it (\<open>lf_room\<close>); the buffered
  writer of the standard library is modelled with its buffer.  Each line carries the time of its writing,
  which is an argument.  A call is modelled as a whole; calls of several threads are taken in the order
  of their writes.  That the writer's lock is poisoned cannot happen: no call panics while it holds it.

  Shown: whatever was in the file and whatever was called before, from the first \<open>begin_serving\<close> on
  the file holds the marker and one line for each event, in order, and the summary's counters are the tallies
  of these events.
\<close>

subsection \<open>The file behind its writer\<close>

record log_file =
  lf_text :: string
  lf_room :: nat
  lf_buf :: string

definition BUF_CAPACITY :: nat where
  "BUF_CAPACITY = 8192"

text \<open>Writing to the file itself: as much as there is room for; the rest is what was not written.\<close>

definition file_write :: "string \<Rightarrow> log_file \<Rightarrow> string \<times> log_file" where
  "file_write bs f =
     (drop (lf_room f) bs,
      f\<lparr>lf_text := lf_text f @ take (lf_room f) bs, lf_room := lf_room f - length bs\<rparr>)"

definition flush_buf :: "log_file \<Rightarrow> (unit, io_error) result \<times> log_file" where
  "flush_buf f =
     (case file_write (lf_buf f) f of
        (rest, f) \<Rightarrow> (if rest = [] then Ok () else Err Other, f\<lparr>lf_buf := rest\<rparr>))"

definition buf_write_all :: "string \<Rightarrow> log_file \<Rightarrow> (unit, io_error) result \<times> log_file" where
  "buf_write_all bs f =
     (let spare = BUF_CAPACITY - length (lf_buf f) in
      if length bs < spare then (Ok (), f\<lparr>lf_buf := lf_buf f @ bs\<rparr>)
      else
        case (if length bs > spare then flush_buf f else (Ok (), f)) of
          (Ok _, f) \<Rightarrow>
            if length bs \<ge> BUF_CAPACITY then
              (case file_write bs f of (rest, f) \<Rightarrow> (if rest = [] then Ok () else Err Other, f))
            else (Ok (), f\<lparr>lf_buf := lf_buf f @ bs\<rparr>)
        | (Err e, f) \<Rightarrow> (Err e, f)
        | (Panic, f) \<Rightarrow> (Panic, f))"

text \<open>\<open>stamp_json_line\<close> with the time \<open>ts\<close>.\<close>

definition quoted :: "string \<Rightarrow> string" where
  "quoted s = CHR 0x22 # s @ [CHR 0x22]"

definition stamp_json_line :: "string \<Rightarrow> string \<Rightarrow> string" where
  "stamp_json_line ts line =
     (case strip_prefix ''{'' line of
        Some rest \<Rightarrow> ''{'' @ quoted ''ts'' @ '':'' @ quoted ts @ '','' @ rest
      | None \<Rightarrow> line)"

definition write_line :: "string \<Rightarrow> string \<Rightarrow> log_file \<Rightarrow> (unit, io_error) result \<times> log_file" where
  "write_line ts line f =
     (case buf_write_all (stamp_json_line ts line) f of
        (Ok _, f) \<Rightarrow>
          (case buf_write_all [CHR 0x0A] f of
             (Ok _, f) \<Rightarrow> flush_buf f
           | (Err e, f) \<Rightarrow> (Err e, f)
           | (Panic, f) \<Rightarrow> (Panic, f))
      | (Err e, f) \<Rightarrow> (Err e, f)
      | (Panic, f) \<Rightarrow> (Panic, f))"

subsection \<open>The log\<close>

record log_counters =
  nbd_reads :: nat
  nbd_read_bytes :: nat
  reads :: nat
  read_bytes :: nat
  s3_fetches :: nat
  s3_bytes :: nat
  foyer_hits :: nat
  foyer_misses :: nat
  chunk_hits :: nat
  chunk_misses :: nat
  prefetch_enqueued :: nat
  md_inserts :: nat
  md_insert_bytes :: nat

record io_log =
  log_serving :: bool
  log_counters :: log_counters
  log_file :: log_file

definition zero_counters :: log_counters where
  "zero_counters = \<lparr>nbd_reads = 0, nbd_read_bytes = 0, reads = 0, read_bytes = 0, s3_fetches = 0, s3_bytes = 0, foyer_hits = 0,
     foyer_misses = 0, chunk_hits = 0, chunk_misses = 0, prefetch_enqueued = 0, md_inserts = 0, md_insert_bytes = 0\<rparr>"

text \<open>\<open>IoLog::open\<close> appends to what is in the file.\<close>

definition log_open :: "string \<Rightarrow> nat \<Rightarrow> io_log" where
  "log_open text room =
     \<lparr>log_serving = False, log_counters = zero_counters, log_file = \<lparr>lf_text = text, lf_room = room, lf_buf = []\<rparr>\<rparr>"

text \<open>Writing a line, its result dropped.\<close>

definition put_line :: "string \<Rightarrow> string \<Rightarrow> io_log \<Rightarrow> io_log" where
  "put_line ts line l = l\<lparr>log_file := snd (write_line ts line (log_file l))\<rparr>"

definition count_in :: "(log_counters \<Rightarrow> log_counters) \<Rightarrow> io_log \<Rightarrow> io_log" where
  "count_in f l = l\<lparr>log_counters := f (log_counters l)\<rparr>"

text \<open>JSON objects as the format strings spell them: names in quotes, no spaces.\<close>

fun joined :: "string \<Rightarrow> string list \<Rightarrow> string" where
  "joined sep [] = []"
| "joined sep [s] = s"
| "joined sep (s # ss) = s @ sep @ joined sep ss"

definition json :: "string \<Rightarrow> (string \<times> string) list \<Rightarrow> string" where
  "json kind members =
     ''{'' @ joined '','' (map (\<lambda>(name, v). quoted name @ '':'' @ v) ((''kind'', quoted kind) # members)) @ ''}''"

definition marker_line :: string where
  "marker_line = json ''marker'' [(''event'', quoted ''nbd_connected'')]"

text \<open>\<open>begin_serving\<close>: \<open>reopen\<close> is what opening the file again, emptied, answers.  Nothing is written before the
  flag is set, so the old writer has nothing left to write when it is replaced.\<close>

definition begin_serving :: "(unit, io_error) result \<Rightarrow> string \<Rightarrow> io_log \<Rightarrow> (unit, io_error) result \<times> io_log" where
  "begin_serving reopen ts l =
     (if log_serving l then (Ok (), l)
      else
        let l = l\<lparr>log_serving := True, log_counters := zero_counters\<rparr> in
        case reopen of
          Ok _ \<Rightarrow>
            let f = log_file l;
                empty = \<lparr>lf_text = [], lf_room = lf_room f + length (lf_text f), lf_buf = []\<rparr>
            in (case write_line ts marker_line empty of (r, f) \<Rightarrow> (r, l\<lparr>log_file := f\<rparr>))
        | Err e \<Rightarrow> (Err e, l)
        | Panic \<Rightarrow> (Panic, l))"

definition record_prefetch_enqueued :: "nat \<Rightarrow> io_log \<Rightarrow> io_log" where
  "record_prefetch_enqueued n l =
     (if n > 0 then count_in (\<lambda>c. c\<lparr>prefetch_enqueued := u64_add (prefetch_enqueued c) n\<rparr>) l else l)"

definition log_prefetch :: "string \<Rightarrow> nat \<Rightarrow> nat \<Rightarrow> nat list \<Rightarrow> io_log \<Rightarrow> io_log" where
  "log_prefetch ts segment block_off offsets l =
     (if \<not> log_serving l \<or> offsets = [] then l
      else put_line ts
             (json ''prefetch''
                [(''segment'', decimal segment), (''block'', decimal block_off),
                 (''offsets'', ''['' @ joined '','' (map decimal offsets) @ '']''), (''count'', decimal (length offsets))])
             (count_in (\<lambda>c. c\<lparr>prefetch_enqueued := u64_add (prefetch_enqueued c) (length offsets)\<rparr>) l))"

definition log_nbd_read :: "string \<Rightarrow> nat \<Rightarrow> nat \<Rightarrow> nat \<Rightarrow> io_log \<Rightarrow> io_log" where
  "log_nbd_read ts offset len dur_us l =
     (if \<not> log_serving l then l
      else put_line ts
             (json ''nbd_read'' [(''offset'', decimal offset), (''len'', decimal len), (''dur_us'', decimal dur_us)])
             (count_in (\<lambda>c. c\<lparr>nbd_reads := u64_add (nbd_reads c) 1, nbd_read_bytes := u64_add (nbd_read_bytes c) len\<rparr>) l))"

definition count_foyer :: "string \<Rightarrow> log_counters \<Rightarrow> log_counters" where
  "count_foyer foyer c =
     (if foyer = ''hit'' then c\<lparr>foyer_hits := u64_add (foyer_hits c) 1\<rparr>
      else if foyer = ''miss'' then c\<lparr>foyer_misses := u64_add (foyer_misses c) 1\<rparr>
      else c)"

definition count_chunk :: "string \<Rightarrow> log_counters \<Rightarrow> log_counters" where
  "count_chunk chunk c =
     (if chunk = ''hit'' then c\<lparr>chunk_hits := u64_add (chunk_hits c) 1\<rparr>
      else if chunk = ''miss'' then c\<lparr>chunk_misses := u64_add (chunk_misses c) 1\<rparr>
      else c)"

definition log_read :: "string \<Rightarrow> nat \<Rightarrow> nat \<Rightarrow> nat \<Rightarrow> string \<Rightarrow> string \<Rightarrow> io_log \<Rightarrow> io_log" where
  "log_read ts offset len dur_us foyer chunk l =
     (if \<not> log_serving l then l
      else put_line ts
             (json ''read'' [(''offset'', decimal offset), (''len'', decimal len), (''dur_us'', decimal dur_us),
                (''foyer'', quoted foyer), (''chunk'', quoted chunk)])
             (count_in (\<lambda>c. count_chunk chunk (count_foyer foyer
                (c\<lparr>reads := u64_add (reads c) 1, read_bytes := u64_add (read_bytes c) len\<rparr>))) l))"

definition log_s3_fetch :: "string \<Rightarrow> nat \<Rightarrow> nat \<Rightarrow> nat \<Rightarrow> nat \<Rightarrow> io_log \<Rightarrow> io_log" where
  "log_s3_fetch ts segment beg end' dur_us l =
     (if \<not> log_serving l then l
      else
        let bytes = end' - beg in
        put_line ts
          (json ''s3'' [(''segment'', decimal segment), (''beg'', decimal beg), (''end'', decimal end'),
             (''bytes'', decimal bytes), (''dur_us'', decimal dur_us)])
          (count_in (\<lambda>c. c\<lparr>s3_fetches := u64_add (s3_fetches c) 1, s3_bytes := u64_add (s3_bytes c) bytes\<rparr>) l))"

definition rust_bool :: "bool \<Rightarrow> string" where
  "rust_bool b = (if b then ''true'' else ''false'')"

definition log_metadata_insert :: "string \<Rightarrow> nat \<Rightarrow> nat \<Rightarrow> nat \<Rightarrow> bool \<Rightarrow> io_log \<Rightarrow> io_log" where
  "log_metadata_insert ts segment block bytes promoted l =
     (if \<not> log_serving l then l
      else put_line ts
             (json ''md_insert'' [(''segment'', decimal segment), (''block'', decimal block), (''bytes'', decimal bytes),
                (''promoted'', rust_bool promoted)])
             (count_in (\<lambda>c. c\<lparr>md_inserts := u64_add (md_inserts c) 1, md_insert_bytes := u64_add (md_insert_bytes c) bytes\<rparr>) l))"

definition summary_line :: "log_counters \<Rightarrow> string" where
  "summary_line c =
     json ''summary''
       [(''nbd_reads'', decimal (nbd_reads c)), (''nbd_read_bytes'', decimal (nbd_read_bytes c)),
        (''reads'', decimal (reads c)), (''read_bytes'', decimal (read_bytes c)),
        (''s3_fetches'', decimal (s3_fetches c)), (''s3_bytes'', decimal (s3_bytes c)),
        (''foyer_hits'', decimal (foyer_hits c)), (''foyer_misses'', decimal (foyer_misses c)),
        (''chunk_hits'', decimal (chunk_hits c)), (''chunk_misses'', decimal (chunk_misses c)),
        (''prefetch_enqueued'', decimal (prefetch_enqueued c)),
        (''md_inserts'', decimal (md_inserts c)), (''md_insert_bytes'', decimal (md_insert_bytes c))]"

definition log_summary :: "string \<Rightarrow> io_log \<Rightarrow> io_log" where
  "log_summary ts l =
     (if \<not> log_serving l then l else put_line ts (summary_line (log_counters l)) l)"

text \<open>What the callers pass as labels and durations.\<close>

definition foyer_label :: "bool \<Rightarrow> string" where
  "foyer_label foyer_miss = (if foyer_miss then ''miss'' else ''hit'')"

definition chunk_cache_label :: "bool option \<Rightarrow> string" where
  "chunk_cache_label hit =
     (case hit of None \<Rightarrow> ''n/a'' | Some True \<Rightarrow> ''hit'' | Some False \<Rightarrow> ''miss'')"

definition elapsed_us :: "nat \<Rightarrow> nat" where
  "elapsed_us micros = min micros (u64_lim - 1)"

subsection \<open>What a log is to hold\<close>

datatype log_op =
    BeginServing | PrefetchCount nat | Prefetched nat nat "nat list" | NbdRead nat nat nat
  | ReadDone nat nat nat string string | S3Fetched nat nat nat nat | MetadataInserted nat nat nat bool | Summary

text \<open>One call, at a time; the file can be opened again.\<close>

fun log_call :: "string \<times> log_op \<Rightarrow> io_log \<Rightarrow> io_log" where
  "log_call (ts, BeginServing) l = snd (begin_serving (Ok ()) ts l)"
| "log_call (ts, PrefetchCount n) l = record_prefetch_enqueued n l"
| "log_call (ts, Prefetched segment block offsets) l = log_prefetch ts segment block offsets l"
| "log_call (ts, NbdRead offset len dur) l = log_nbd_read ts offset len dur l"
| "log_call (ts, ReadDone offset len dur foyer chunk) l = log_read ts offset len dur foyer chunk l"
| "log_call (ts, S3Fetched segment beg end' dur) l = log_s3_fetch ts segment beg end' dur l"
| "log_call (ts, MetadataInserted segment block bytes promoted) l = log_metadata_insert ts segment block bytes promoted l"
| "log_call (ts, Summary) l = log_summary ts l"

definition log_run :: "(string \<times> log_op) list \<Rightarrow> io_log \<Rightarrow> io_log" where
  "log_run calls l = foldl (\<lambda>l c. log_call c l) l calls"

text \<open>The tallies of a list of events, as 64-bit counters show them.\<close>

definition tally :: "('e \<Rightarrow> nat) \<Rightarrow> 'e list \<Rightarrow> nat" where
  "tally weight es = sum_list (map weight es) mod u64_lim"

definition tallies :: "log_op list \<Rightarrow> log_counters" where
  "tallies es =
     \<lparr>nbd_reads = tally (\<lambda>e. case e of NbdRead off n d \<Rightarrow> 1 | _ \<Rightarrow> 0) es,
      nbd_read_bytes = tally (\<lambda>e. case e of NbdRead off n d \<Rightarrow> n | _ \<Rightarrow> 0) es,
      reads = tally (\<lambda>e. case e of ReadDone off n d f c \<Rightarrow> 1 | _ \<Rightarrow> 0) es,
      read_bytes = tally (\<lambda>e. case e of ReadDone off n d f c \<Rightarrow> n | _ \<Rightarrow> 0) es,
      s3_fetches = tally (\<lambda>e. case e of S3Fetched s b e d \<Rightarrow> 1 | _ \<Rightarrow> 0) es,
      s3_bytes = tally (\<lambda>e. case e of S3Fetched s b e d \<Rightarrow> e - b | _ \<Rightarrow> 0) es,
      foyer_hits = tally (\<lambda>e. case e of ReadDone off n d f c \<Rightarrow> of_bool (f = ''hit'') | _ \<Rightarrow> 0) es,
      foyer_misses = tally (\<lambda>e. case e of ReadDone off n d f c \<Rightarrow> of_bool (f = ''miss'') | _ \<Rightarrow> 0) es,
      chunk_hits = tally (\<lambda>e. case e of ReadDone off n d f c \<Rightarrow> of_bool (c = ''hit'') | _ \<Rightarrow> 0) es,
      chunk_misses = tally (\<lambda>e. case e of ReadDone off n d f c \<Rightarrow> of_bool (c = ''miss'') | _ \<Rightarrow> 0) es,
      prefetch_enqueued = tally (\<lambda>e. case e of PrefetchCount n \<Rightarrow> n | Prefetched s b offs \<Rightarrow> length offs | _ \<Rightarrow> 0) es,
      md_inserts = tally (\<lambda>e. case e of MetadataInserted s b n p \<Rightarrow> 1 | _ \<Rightarrow> 0) es,
      md_insert_bytes = tally (\<lambda>e. case e of MetadataInserted s b n p \<Rightarrow> n | _ \<Rightarrow> 0) es\<rparr>"

text \<open>The line of an event, after the events \<open>seen\<close>.\<close>

fun line_of :: "log_op list \<Rightarrow> log_op \<Rightarrow> string option" where
  "line_of seen (NbdRead offset len dur) =
     Some (json ''nbd_read'' [(''offset'', decimal offset), (''len'', decimal len), (''dur_us'', decimal dur)])"
| "line_of seen (ReadDone offset len dur foyer chunk) =
     Some (json ''read'' [(''offset'', decimal offset), (''len'', decimal len), (''dur_us'', decimal dur),
       (''foyer'', quoted foyer), (''chunk'', quoted chunk)])"
| "line_of seen (S3Fetched segment beg end' dur) =
     Some (json ''s3'' [(''segment'', decimal segment), (''beg'', decimal beg), (''end'', decimal end'),
       (''bytes'', decimal (end' - beg)), (''dur_us'', decimal dur)])"
| "line_of seen (MetadataInserted segment block bytes promoted) =
     Some (json ''md_insert'' [(''segment'', decimal segment), (''block'', decimal block), (''bytes'', decimal bytes),
       (''promoted'', rust_bool promoted)])"
| "line_of seen (Prefetched segment block offsets) =
     (if offsets = [] then None
      else Some (json ''prefetch'' [(''segment'', decimal segment), (''block'', decimal block),
        (''offsets'', ''['' @ joined '','' (map decimal offsets) @ '']''), (''count'', decimal (length offsets))]))"
| "line_of seen Summary = Some (summary_line (tallies seen))"
| "line_of seen BeginServing = None"
| "line_of seen (PrefetchCount n) = None"

definition stamped :: "string \<Rightarrow> string \<Rightarrow> string" where
  "stamped ts line = stamp_json_line ts line @ [CHR 0x0A]"

fun trace_text :: "log_op list \<Rightarrow> (string \<times> log_op) list \<Rightarrow> string" where
  "trace_text seen [] = []"
| "trace_text seen ((ts, e) # calls) =
     (case line_of seen e of None \<Rightarrow> [] | Some line \<Rightarrow> stamped ts line) @ trace_text (seen @ [e]) calls"

subsection \<open>Writing\<close>

definition clean_log :: "io_log \<Rightarrow> log_op list \<Rightarrow> bool" where
  "clean_log l seen \<longleftrightarrow> log_serving l \<and> log_counters l = tallies seen \<and> lf_buf (log_file l) = []"

lemma flush_buf_room:
  "length (lf_buf f) \<le> lf_room f \<Longrightarrow>
     flush_buf f = (Ok (), f\<lparr>lf_text := lf_text f @ lf_buf f, lf_room := lf_room f - length (lf_buf f), lf_buf := []\<rparr>)"
  by (simp add: flush_buf_def file_write_def)

lemma write_line_room:
  assumes "lf_buf f = []" "length (stamped ts line) \<le> lf_room f"
  shows "write_line ts line f =
    (Ok (), f\<lparr>lf_text := lf_text f @ stamped ts line, lf_room := lf_room f - length (stamped ts line)\<rparr>)"
proof -
  let ?s = "stamp_json_line ts line"
  have room: "length ?s + 1 \<le> lf_room f" using assms(2) by (simp add: stamped_def)
  show ?thesis
  proof (cases "length ?s < BUF_CAPACITY")
    case True
    then have a: "buf_write_all ?s f = (Ok (), f\<lparr>lf_buf := ?s\<rparr>)" using assms(1) by (simp add: buf_write_all_def Let_def)
    have "write_line ts line f =
        flush_buf (f\<lparr>lf_buf := ?s @ [CHR 0x0A]\<rparr>) \<or>
      write_line ts line f =
        flush_buf (f\<lparr>lf_text := lf_text f @ ?s, lf_room := lf_room f - length ?s, lf_buf := [CHR 0x0A]\<rparr>)"
      using True room flush_buf_room [of "f\<lparr>lf_buf := ?s\<rparr>"]
      by (auto simp: write_line_def a buf_write_all_def [of "[CHR 0x0A]"] Let_def BUF_CAPACITY_def)
    then show ?thesis
      using room assms(1) flush_buf_room [of "f\<lparr>lf_buf := ?s @ [CHR 0x0A]\<rparr>"]
        flush_buf_room [of "f\<lparr>lf_text := lf_text f @ ?s, lf_room := lf_room f - length ?s, lf_buf := [CHR 0x0A]\<rparr>"]
      by (auto simp: stamped_def)
  next
    case False
    let ?g = "f\<lparr>lf_text := lf_text f @ ?s, lf_room := lf_room f - length ?s\<rparr>"
    have "buf_write_all ?s f = (Ok (), ?g)"
      using False room assms(1) by (simp add: buf_write_all_def Let_def flush_buf_def file_write_def)
    moreover have "buf_write_all [CHR 0x0A] ?g = (Ok (), ?g\<lparr>lf_buf := [CHR 0x0A]\<rparr>)"
      using assms(1) by (simp add: buf_write_all_def Let_def BUF_CAPACITY_def)
    ultimately have "write_line ts line f = flush_buf (?g\<lparr>lf_buf := [CHR 0x0A]\<rparr>)" by (simp add: write_line_def)
    then show ?thesis
      using room assms(1) flush_buf_room [of "?g\<lparr>lf_buf := [CHR 0x0A]\<rparr>"] by (simp add: stamped_def)
  qed
qed

lemma tally_snoc: "tally w (es @ [e]) = u64_add (tally w es) (w e)"
  by (simp add: tally_def u64_add_def mod_add_left_eq)

lemma tally_keep: "u64_add (tally w es) 0 = tally w es"
  by (simp add: tally_def u64_add_def)

lemma tallies_Nil: "tallies [] = zero_counters"
  by (simp add: tallies_def zero_counters_def tally_def)

text \<open>Each counter moves with its own events only.\<close>

lemma log_call_counters:
  "log_serving l \<Longrightarrow> log_counters l = tallies seen \<Longrightarrow>
     log_counters (log_call (ts, e) l) = tallies (seen @ [e])"
  by (cases e)
    (simp_all add: tallies_def tally_snoc tally_keep begin_serving_def record_prefetch_enqueued_def log_prefetch_def
      log_nbd_read_def log_read_def log_s3_fetch_def log_metadata_insert_def log_summary_def put_line_def count_in_def
      count_foyer_def count_chunk_def Let_def del: One_nat_def)

lemma log_call_file:
  "log_serving l \<Longrightarrow> log_counters l = tallies seen \<Longrightarrow>
     log_serving (log_call (ts, e) l) \<and>
     log_file (log_call (ts, e) l) =
       (case line_of seen e of None \<Rightarrow> log_file l | Some line \<Rightarrow> snd (write_line ts line (log_file l)))"
  by (cases e)
    (simp_all add: begin_serving_def record_prefetch_enqueued_def log_prefetch_def log_nbd_read_def log_read_def
      log_s3_fetch_def log_metadata_insert_def log_summary_def put_line_def count_in_def Let_def)

lemma log_run_serving:
  assumes "clean_log l seen" "length (trace_text seen calls) \<le> lf_room (log_file l)"
  shows "clean_log (log_run calls l) (seen @ map snd calls) \<and>
    lf_text (log_file (log_run calls l)) = lf_text (log_file l) @ trace_text seen calls"
  using assms
proof (induction calls arbitrary: l seen)
  case Nil
  then show ?case by (simp add: log_run_def)
next
  case (Cons c calls)
  obtain ts e where c: "c = (ts, e)" by (cases c)
  let ?l = "log_call (ts, e) l" and ?line = "case line_of seen e of None \<Rightarrow> [] | Some line \<Rightarrow> stamped ts line"
  have l: "log_serving l" "log_counters l = tallies seen" "lf_buf (log_file l) = []"
    using Cons.prems(1) by (auto simp: clean_log_def)
  have room: "length ?line \<le> lf_room (log_file l)" using Cons.prems(2) by (simp add: c)
  have f: "lf_buf (log_file ?l) = [] \<and> lf_text (log_file ?l) = lf_text (log_file l) @ ?line \<and>
      lf_room (log_file ?l) = lf_room (log_file l) - length ?line"
    using log_call_file [OF l(1,2), of ts e] write_line_room [OF l(3)] room l(3) by (simp split: option.splits)
  then have "clean_log ?l (seen @ [e])"
    using log_call_file [OF l(1,2), of ts e] log_call_counters [OF l(1,2), of ts e] by (simp add: clean_log_def)
  moreover have "length (trace_text (seen @ [e]) calls) \<le> lf_room (log_file ?l)"
    using Cons.prems(2) f by (simp add: c)
  ultimately show ?case using Cons.IH [of ?l "seen @ [e]"] f by (simp add: c log_run_def)
qed

text \<open>Before the first client nothing is written.\<close>

lemma log_call_opening:
  "\<not> log_serving l \<Longrightarrow> snd c \<noteq> BeginServing \<Longrightarrow>
     \<not> log_serving (log_call c l) \<and> log_file (log_call c l) = log_file l"
  by (cases c; cases "snd c")
    (auto simp: record_prefetch_enqueued_def log_prefetch_def log_nbd_read_def log_read_def
      log_s3_fetch_def log_metadata_insert_def log_summary_def count_in_def)

lemma log_run_opening:
  "\<not> log_serving l \<Longrightarrow> BeginServing \<notin> snd ` set calls \<Longrightarrow>
     \<not> log_serving (log_run calls l) \<and> log_file (log_run calls l) = log_file l"
proof (induction calls arbitrary: l)
  case Nil
  then show ?case by (simp add: log_run_def)
next
  case (Cons c calls)
  then have "\<not> log_serving (log_call c l) \<and> log_file (log_call c l) = log_file l"
    using log_call_opening [of l c] by force
  then show ?case using Cons.IH [of "log_call c l"] Cons.prems(2) by (auto simp: log_run_def)
qed

lemma log_run_append: "log_run (xs @ ys) l = log_run ys (log_run xs l)"
  by (simp add: log_run_def)

text \<open>The trace shows the served workload and nothing else: whatever stood in the file and whatever was
  traced while the image was opened, from the first client on the file is the marker and one stamped line
  for each event, in order, and the counters that a summary reports are the tallies of these events.\<close>

theorem trace_shows_serving:
  assumes "BeginServing \<notin> snd ` set before"
    and "length (stamped ts marker_line @ trace_text [] calls) \<le> room + length old"
  shows "let l = log_run (before @ (ts, BeginServing) # calls) (log_open old room)
    in lf_text (log_file l) = stamped ts marker_line @ trace_text [] calls \<and> log_counters l = tallies (map snd calls)"
proof -
  let ?start = "log_run before (log_open old room)"
  let ?l = "snd (begin_serving (Ok ()) ts ?start)"
  have l0: "\<not> log_serving ?start" "log_file ?start = \<lparr>lf_text = old, lf_room = room, lf_buf = []\<rparr>"
    using log_run_opening [of "log_open old room" before] assms(1) by (simp_all add: log_open_def)
  have "clean_log ?l [] \<and> lf_text (log_file ?l) = stamped ts marker_line \<and>
      lf_room (log_file ?l) = room + length old - length (stamped ts marker_line)"
    using l0 assms(2) by (simp add: begin_serving_def Let_def clean_log_def tallies_Nil write_line_room)
  then have "clean_log (log_run calls ?l) (map snd calls) \<and>
      lf_text (log_file (log_run calls ?l)) = stamped ts marker_line @ trace_text [] calls"
    using log_run_serving [of ?l "[]" calls] assms(2) by simp
  moreover have "log_run (before @ (ts, BeginServing) # calls) (log_open old room) = log_run calls ?l"
    by (simp add: log_run_append) (simp add: log_run_def)
  ultimately show ?thesis by (simp add: clean_log_def)
qed

theorem trace_shows_serving_witness:
  "let l = log_run ([(''t0'', S3Fetched 0 0 512 9), (''t1'', NbdRead 0 512 9)] @ (''t2'', BeginServing) #
         [(''t3'', NbdRead 0 512 7), (''t4'', BeginServing), (''t5'', ReadDone 0 512 7 ''miss'' ''n/a''), (''t6'', Summary)])
       (log_open ''old'' 9000)
   in log_counters l = zero_counters\<lparr>nbd_reads := 1, nbd_read_bytes := 512, reads := 1, read_bytes := 512, foyer_misses := 1\<rparr>"
proof -
  let ?before = "[(''t0'', S3Fetched 0 0 512 9), (''t1'', NbdRead 0 512 9)]"
  let ?calls = "[(''t3'', NbdRead 0 512 7), (''t4'', BeginServing), (''t5'', ReadDone 0 512 7 ''miss'' ''n/a''), (''t6'', Summary)]"
  have "BeginServing \<notin> snd ` set ?before" by simp
  moreover have "length (stamped ''t2'' marker_line @ trace_text [] ?calls) \<le> 9000 + length ''old''" by code_simp
  ultimately have "let l = log_run (?before @ (''t2'', BeginServing) # ?calls) (log_open ''old'' 9000)
    in lf_text (log_file l) = stamped ''t2'' marker_line @ trace_text [] ?calls \<and> log_counters l = tallies (map snd ?calls)"
    by (rule trace_shows_serving)
  then show ?thesis by (simp add: Let_def tallies_def tally_def zero_counters_def u64_lim_def)
qed

end
