(* ===== verification/ServerLog.thy ===== *)
theory ServerLog
  imports IoLog Nbd
begin

text \<open>
  The log of the server, \<open>diskimage-nbd/src/io_log.rs\<close>, and which calls a connection makes on it
  (\<open>serve_connection\<close> of \<open>server.rs\<close>, \<open>serve_read\<close> of \<open>nbd_protocol.rs\<close>).

  It is a sibling of the trace in \<open>IoLog\<close>, over the same buffered file, with two differences: the counters
  start again with every client, and lines stay in the buffer until a summary flushes them.  The log never changes what a
  connection does, so the calls of a connection are a list beside the connection itself.  Connections are
  served one at a time, under the lock on the reader.

  Shown: after each session the file tells, session by session, every read command in order and a summary of this session
  alone, whatever the images answered.
\<close>

subsection \<open>The log\<close>

record server_counters =
  sc_nbd_reads :: nat
  sc_nbd_read_bytes :: nat
  sc_s3_fetches :: nat
  sc_s3_bytes :: nat
  sc_prefetch_enqueued :: nat

record server_log =
  sv_serving :: bool
  sv_counters :: server_counters
  sv_file :: log_file

definition sv_zero :: server_counters where
  "sv_zero = \<lparr>sc_nbd_reads = 0, sc_nbd_read_bytes = 0, sc_s3_fetches = 0, sc_s3_bytes = 0, sc_prefetch_enqueued = 0\<rparr>"

definition sv_open :: "string \<Rightarrow> nat \<Rightarrow> server_log" where
  "sv_open text room =
     \<lparr>sv_serving = False, sv_counters = sv_zero, sv_file = \<lparr>lf_text = text, lf_room = room, lf_buf = []\<rparr>\<rparr>"

text \<open>\<open>write_line\<close> without a flush.\<close>

definition sv_write_line :: "string \<Rightarrow> string \<Rightarrow> log_file \<Rightarrow> (unit, io_error) result \<times> log_file" where
  "sv_write_line ts line f =
     (case buf_write_all (stamp_json_line ts line) f of
        (Ok _, f) \<Rightarrow> buf_write_all [CHR 0x0A] f
      | (Err e, f) \<Rightarrow> (Err e, f)
      | (Panic, f) \<Rightarrow> (Panic, f))"

definition sv_put :: "string \<Rightarrow> string \<Rightarrow> server_log \<Rightarrow> server_log" where
  "sv_put ts line l = l\<lparr>sv_file := snd (sv_write_line ts line (sv_file l))\<rparr>"

definition sv_count :: "(server_counters \<Rightarrow> server_counters) \<Rightarrow> server_log \<Rightarrow> server_log" where
  "sv_count f l = l\<lparr>sv_counters := f (sv_counters l)\<rparr>"

definition sv_record_prefetch_enqueued :: "nat \<Rightarrow> server_log \<Rightarrow> server_log" where
  "sv_record_prefetch_enqueued n l =
     (if n > 0 then sv_count (\<lambda>c. c\<lparr>sc_prefetch_enqueued := u64_add (sc_prefetch_enqueued c) n\<rparr>) l else l)"

definition sv_log_prefetch :: "string \<Rightarrow> nat \<Rightarrow> nat \<Rightarrow> nat list \<Rightarrow> server_log \<Rightarrow> server_log" where
  "sv_log_prefetch ts segment block_off offsets l =
     (if \<not> sv_serving l \<or> offsets = [] then l
      else sv_put ts
             (json ''prefetch''
                [(''segment'', decimal segment), (''block'', decimal block_off),
                 (''offsets'', ''['' @ joined '','' (map decimal offsets) @ '']''), (''count'', decimal (length offsets))])
             (sv_count (\<lambda>c. c\<lparr>sc_prefetch_enqueued := u64_add (sc_prefetch_enqueued c) (length offsets)\<rparr>) l))"

text \<open>\<open>begin_serving\<close>; \<open>reopen\<close> is what opening the file again, emptied, answers.  The old writer, which is
  replaced only before anything was written through it, has nothing left to write.\<close>

definition sv_begin :: "(unit, io_error) result \<Rightarrow> string \<Rightarrow> server_log \<Rightarrow> (unit, io_error) result \<times> server_log" where
  "sv_begin reopen ts l =
     (let l = l\<lparr>sv_counters := sv_zero\<rparr> in
      case (if sv_serving l then Ok () else reopen) of
        Ok _ \<Rightarrow>
          let f = sv_file l;
              f = (if sv_serving l then f else \<lparr>lf_text = [], lf_room = lf_room f + length (lf_text f), lf_buf = []\<rparr>)
          in (case sv_write_line ts marker_line f of
                (r, f) \<Rightarrow> (r, l\<lparr>sv_serving := True, sv_file := f\<rparr>))
      | Err e \<Rightarrow> (Err e, l)
      | Panic \<Rightarrow> (Panic, l))"

definition sv_log_nbd_read :: "string \<Rightarrow> nat \<Rightarrow> nat \<Rightarrow> nat \<Rightarrow> server_log \<Rightarrow> server_log" where
  "sv_log_nbd_read ts offset len dur_us l =
     (if \<not> sv_serving l then l
      else sv_put ts
             (json ''nbd_read'' [(''offset'', decimal offset), (''len'', decimal len), (''dur_us'', decimal dur_us)])
             (sv_count (\<lambda>c. c\<lparr>sc_nbd_reads := u64_add (sc_nbd_reads c) 1,
                sc_nbd_read_bytes := u64_add (sc_nbd_read_bytes c) len\<rparr>) l))"

definition sv_log_s3_fetch :: "string \<Rightarrow> nat \<Rightarrow> nat \<Rightarrow> nat \<Rightarrow> nat \<Rightarrow> server_log \<Rightarrow> server_log" where
  "sv_log_s3_fetch ts segment beg end' dur_us l =
     (if \<not> sv_serving l then l
      else
        let bytes = end' - beg in
        sv_put ts
          (json ''s3'' [(''segment'', decimal segment), (''beg'', decimal beg), (''end'', decimal end'),
             (''bytes'', decimal bytes), (''dur_us'', decimal dur_us)])
          (sv_count (\<lambda>c. c\<lparr>sc_s3_fetches := u64_add (sc_s3_fetches c) 1, sc_s3_bytes := u64_add (sc_s3_bytes c) bytes\<rparr>) l))"

definition sv_summary_line :: "server_counters \<Rightarrow> string" where
  "sv_summary_line c =
     json ''summary''
       [(''nbd_reads'', decimal (sc_nbd_reads c)), (''nbd_read_bytes'', decimal (sc_nbd_read_bytes c)),
        (''s3_fetches'', decimal (sc_s3_fetches c)), (''s3_bytes'', decimal (sc_s3_bytes c)),
        (''prefetch_enqueued'', decimal (sc_prefetch_enqueued c))]"

definition sv_log_summary :: "string \<Rightarrow> server_log \<Rightarrow> server_log" where
  "sv_log_summary ts l =
     (if \<not> sv_serving l then l
      else
        let l = sv_put ts (sv_summary_line (sv_counters l)) l
        in l\<lparr>sv_file := snd (flush_buf (sv_file l))\<rparr>)"

text \<open>A call with its time and, where one is measured, its duration.\<close>

datatype server_op =
    SvBegin | SvPrefetchCount nat | SvPrefetched nat nat "nat list" | SvRead nat nat | SvFetched nat nat nat | SvSummary

fun sv_call :: "(string \<times> nat) \<times> server_op \<Rightarrow> server_log \<Rightarrow> server_log" where
  "sv_call ((ts, dur), SvBegin) l = snd (sv_begin (Ok ()) ts l)"
| "sv_call ((ts, dur), SvPrefetchCount n) l = sv_record_prefetch_enqueued n l"
| "sv_call ((ts, dur), SvPrefetched segment block offsets) l = sv_log_prefetch ts segment block offsets l"
| "sv_call ((ts, dur), SvRead offset len) l = sv_log_nbd_read ts offset len dur l"
| "sv_call ((ts, dur), SvFetched segment beg end') l = sv_log_s3_fetch ts segment beg end' dur l"
| "sv_call ((ts, dur), SvSummary) l = sv_log_summary ts l"

definition sv_run :: "((string \<times> nat) \<times> server_op) list \<Rightarrow> server_log \<Rightarrow> server_log" where
  "sv_run calls l = foldl (\<lambda>l c. sv_call c l) l calls"

subsection \<open>The calls of a connection\<close>

text \<open>Whether \<open>serve_read\<close> gets to its \<open>log_read\<close>: it does unless a write to the client fails before.\<close>

function read_loop_logs :: "image \<Rightarrow> nat \<Rightarrow> nat \<Rightarrow> nat \<Rightarrow> bool \<Rightarrow> stream \<Rightarrow> bool" where
  "read_loop_logs img handle remaining pos replied s =
     (if remaining = 0 then True
      else
        case img_read img pos (min remaining READ_BUF_SIZE) of
          Ok bs \<Rightarrow>
            if bs = [] then True
            else if length bs > min remaining READ_BUF_SIZE then False
            else
              (case send_chunk replied handle bs s of
                 (Ok u, s') \<Rightarrow> read_loop_logs img handle (remaining - length bs) (u64_add pos (length bs)) True s'
               | (Err e, s') \<Rightarrow> False
               | (Panic, s') \<Rightarrow> False)
        | Err cs \<Rightarrow> True
        | Panic \<Rightarrow> False)"
  by pat_completeness auto
termination
  by (relation "measure (\<lambda>(img, handle, remaining, pos, replied, s). remaining)") auto

declare read_loop_logs.simps [simp del]

definition serve_read_logs :: "image \<Rightarrow> nat \<Rightarrow> nat \<Rightarrow> nat \<Rightarrow> nat \<Rightarrow> stream \<Rightarrow> bool" where
  "serve_read_logs img export_size offset len handle s =
     (case read_request_error offset len export_size of
        Some error \<Rightarrow> is_ok (fst (write_simple_reply error handle s))
      | None \<Rightarrow>
          if len = 0 then is_ok (fst (write_simple_reply 0 handle s))
          else read_loop_logs img handle len offset False s)"

definition step_reads :: "byteorder \<Rightarrow> image \<Rightarrow> nat \<Rightarrow> stream \<Rightarrow> (nat \<times> nat) list" where
  "step_reads bo img export_size s =
     (case st_read_exact 28 s :: (bytes, nbd_error) result \<times> stream of
        (Ok header, s1) \<Rightarrow>
          let rq = request_of_header bo header in
          if rq_magic rq = NBD_REQ_MAGIC \<and> rq_typ rq = NBD_CMD_READ \<and>
             serve_read_logs img export_size (rq_offset rq) (rq_length rq) (rq_handle rq) s1
          then [(rq_offset rq, rq_length rq)] else []
      | (Err e, s1) \<Rightarrow> []
      | (Panic, s1) \<Rightarrow> [])"

function transmission_reads :: "byteorder \<Rightarrow> image \<Rightarrow> nat \<Rightarrow> stream \<Rightarrow> (nat \<times> nat) list" where
  "transmission_reads bo img export_size s =
     step_reads bo img export_size s @
     (case transmission_step bo img export_size s of
        (Ok b, s') \<Rightarrow> if b then [] else transmission_reads bo img export_size s'
      | (Err e, s') \<Rightarrow> []
      | (Panic, s') \<Rightarrow> [])"
  by pat_completeness auto
termination
  by (relation "measure (\<lambda>(bo, img, n, s). length (st_in s))")
    (auto dest: transmission_step_consumes [OF sym])

declare transmission_reads.simps [simp del]

text \<open>\<open>serve_connection\<close>: nothing before the handshake is over, and no summary when a panic unwinds the session.\<close>

definition connection_calls :: "byteorder \<Rightarrow> image \<Rightarrow> stream \<Rightarrow> server_op list" where
  "connection_calls bo img s =
     (let export_size = img_size img in
      case handshake bo export_size s of
        (Ok _, s1) \<Rightarrow>
          SvBegin # map (\<lambda>(off, len). SvRead off len) (transmission_reads bo img export_size s1) @
          (case transmission bo img export_size s1 of
             (Panic, _) \<Rightarrow> []
           | (Ok _, _) \<Rightarrow> [SvSummary]
           | (Err e, _) \<Rightarrow> [SvSummary])
      | (Err e, s1) \<Rightarrow> []
      | (Panic, s1) \<Rightarrow> [])"

text \<open>The calls at the times of a clock.\<close>

definition timed :: "(nat \<Rightarrow> string \<times> nat) \<Rightarrow> server_op list \<Rightarrow> ((string \<times> nat) \<times> server_op) list" where
  "timed clock ops = zip (map clock [0..<length ops]) ops"

subsection \<open>What a file is to tell\<close>

definition event_text :: "string \<times> nat \<Rightarrow> server_op \<Rightarrow> string" where
  "event_text t e =
     (case e of
        SvRead offset len \<Rightarrow>
          stamped (fst t) (json ''nbd_read'' [(''offset'', decimal offset), (''len'', decimal len), (''dur_us'', decimal (snd t))])
      | SvFetched segment beg end' \<Rightarrow>
          stamped (fst t) (json ''s3'' [(''segment'', decimal segment), (''beg'', decimal beg), (''end'', decimal end'),
            (''bytes'', decimal (end' - beg)), (''dur_us'', decimal (snd t))])
      | SvPrefetched segment block offsets \<Rightarrow>
          (if offsets = [] then []
           else stamped (fst t) (json ''prefetch'' [(''segment'', decimal segment), (''block'', decimal block),
             (''offsets'', ''['' @ joined '','' (map decimal offsets) @ '']''), (''count'', decimal (length offsets))]))
      | SvPrefetchCount n \<Rightarrow> []
      | SvBegin \<Rightarrow> []
      | SvSummary \<Rightarrow> [])"

definition events_text :: "((string \<times> nat) \<times> server_op) list \<Rightarrow> string" where
  "events_text es = concat (map (\<lambda>(t, e). event_text t e) es)"

definition session_tally :: "server_op list \<Rightarrow> server_counters" where
  "session_tally es =
     \<lparr>sc_nbd_reads = tally (\<lambda>e. case e of SvRead off n \<Rightarrow> 1 | _ \<Rightarrow> 0) es,
      sc_nbd_read_bytes = tally (\<lambda>e. case e of SvRead off n \<Rightarrow> n | _ \<Rightarrow> 0) es,
      sc_s3_fetches = tally (\<lambda>e. case e of SvFetched s b e' \<Rightarrow> 1 | _ \<Rightarrow> 0) es,
      sc_s3_bytes = tally (\<lambda>e. case e of SvFetched s b e' \<Rightarrow> e' - b | _ \<Rightarrow> 0) es,
      sc_prefetch_enqueued = tally (\<lambda>e. case e of SvPrefetchCount n \<Rightarrow> n | SvPrefetched s b offs \<Rightarrow> length offs | _ \<Rightarrow> 0) es\<rparr>"

text \<open>A session from its marker to its summary.\<close>

definition session_text :: "string \<Rightarrow> ((string \<times> nat) \<times> server_op) list \<Rightarrow> string \<Rightarrow> string" where
  "session_text t0 es t1 =
     stamped t0 marker_line @ events_text es @ stamped t1 (sv_summary_line (session_tally (map snd es)))"

subsection \<open>Writing through the buffer\<close>

text \<open>What is in the file and in the buffer, in a file system with room for \<open>cap\<close> bytes.\<close>

definition told :: "log_file \<Rightarrow> nat \<Rightarrow> string \<Rightarrow> bool" where
  "told f cap w \<longleftrightarrow> lf_text f @ lf_buf f = w \<and> lf_room f + length (lf_text f) = cap"

lemma buf_write_all_told:
  assumes "told f cap w" "length (w @ bs) \<le> cap"
  shows "\<exists>f'. buf_write_all bs f = (Ok (), f') \<and> told f' cap (w @ bs)"
proof -
  have room: "length (lf_buf f) + length bs \<le> lf_room f" using assms by (auto simp: told_def)
  have "lf_buf f = []" if "8192 \<le> 8192 - length (lf_buf f)" using that by (cases "lf_buf f") simp_all
  then show ?thesis
    using assms(1) room flush_buf_room [of f]
    by (cases "lf_buf f = []") (auto simp: told_def buf_write_all_def Let_def file_write_def BUF_CAPACITY_def)
qed

lemma sv_write_line_told:
  assumes "told f cap w" "length (w @ stamped ts line) \<le> cap"
  shows "\<exists>f'. sv_write_line ts line f = (Ok (), f') \<and> told f' cap (w @ stamped ts line)"
proof -
  let ?s = "stamp_json_line ts line"
  obtain f1 where f1: "buf_write_all ?s f = (Ok (), f1)" "told f1 cap (w @ ?s)"
    using buf_write_all_told [OF assms(1), of ?s] assms(2) by (auto simp: stamped_def)
  then obtain f2 where "buf_write_all [CHR 0x0A] f1 = (Ok (), f2)" "told f2 cap (w @ ?s @ [CHR 0x0A])"
    using buf_write_all_told [OF f1(2), of "[CHR 0x0A]"] assms(2) by (auto simp: stamped_def)
  then show ?thesis using f1(1) by (simp add: sv_write_line_def stamped_def)
qed

lemma flush_told:
  assumes "told f cap w" "length w \<le> cap"
  shows "told (snd (flush_buf f)) cap w \<and> lf_buf (snd (flush_buf f)) = []"
  using assms flush_buf_room [of f] by (auto simp: told_def)

subsection \<open>Sessions on the log\<close>

text \<open>A log in a session that has made the calls \<open>seen\<close>.\<close>

definition in_session :: "server_log \<Rightarrow> nat \<Rightarrow> string \<Rightarrow> server_op list \<Rightarrow> bool" where
  "in_session l cap w seen \<longleftrightarrow> sv_serving l \<and> sv_counters l = session_tally seen \<and> told (sv_file l) cap w"

definition is_event :: "server_op \<Rightarrow> bool" where
  "is_event e \<longleftrightarrow> e \<noteq> SvBegin \<and> e \<noteq> SvSummary"

lemma in_session_put:
  assumes "in_session l cap w seen" "length (w @ stamped ts line) \<le> cap"
    and "f (session_tally seen) = session_tally (seen @ [e])"
  shows "in_session (sv_put ts line (sv_count f l)) cap (w @ stamped ts line) (seen @ [e])"
  using assms sv_write_line_told [of "sv_file l" cap w ts line]
  by (auto simp: in_session_def sv_put_def sv_count_def)

lemma in_session_count:
  assumes "in_session l cap w seen" "f (session_tally seen) = session_tally (seen @ [e])"
  shows "in_session (sv_count f l) cap w (seen @ [e])"
  using assms by (simp add: in_session_def sv_count_def)

lemmas session_tally_simps = session_tally_def tally_snoc tally_keep

lemma event_in_session:
  assumes "in_session l cap w seen" "is_event e" "length (w @ event_text t e) \<le> cap"
  shows "in_session (sv_call (t, e) l) cap (w @ event_text t e) (seen @ [e])"
proof -
  obtain ts dur where t: "t = (ts, dur)" by (cases t)
  have serving: "sv_serving l" using assms(1) by (simp add: in_session_def)
  have none: "in_session l cap w (seen @ [e])" if "session_tally (seen @ [e]) = session_tally seen"
    using assms(1) that by (simp add: in_session_def)
  show ?thesis
  proof (cases e)
    case (SvPrefetchCount n)
    then show ?thesis
      using assms(1) none
      by (auto simp: t event_text_def sv_record_prefetch_enqueued_def session_tally_simps intro!: in_session_count)
  next
    case (SvPrefetched segment block offsets)
    then show ?thesis
      using assms none serving
      by (auto simp: t event_text_def sv_log_prefetch_def session_tally_simps intro!: in_session_put)
  next
    case (SvRead offset len)
    then show ?thesis
      using assms serving
      by (auto simp: t event_text_def sv_log_nbd_read_def session_tally_simps simp del: One_nat_def intro!: in_session_put)
  next
    case (SvFetched segment beg end')
    then show ?thesis
      using assms serving
      by (auto simp: t event_text_def sv_log_s3_fetch_def session_tally_simps Let_def simp del: One_nat_def intro!: in_session_put)
  qed (use assms(2) in \<open>simp_all add: is_event_def\<close>)
qed

lemma sv_run_Cons [simp]: "sv_run [] l = l" "sv_run (c # cs) l = sv_run cs (sv_call c l)"
  by (simp_all add: sv_run_def)

lemma sv_run_append: "sv_run (xs @ ys) l = sv_run ys (sv_run xs l)"
  by (simp add: sv_run_def)

lemma events_text_simps [simp]:
  "events_text [] = []" "events_text ((t, e) # es) = event_text t e @ events_text es"
  by (simp_all add: events_text_def)

lemma events_in_session:
  assumes "in_session l cap w seen" "list_all is_event (map snd es)" "length (w @ events_text es) \<le> cap"
  shows "in_session (sv_run es l) cap (w @ events_text es) (seen @ map snd es)"
  using assms
proof (induction es arbitrary: l w seen)
  case (Cons c es)
  obtain t e where c: "c = (t, e)" by (cases c)
  have "in_session (sv_call (t, e) l) cap (w @ event_text t e) (seen @ [e])"
    using event_in_session [OF Cons.prems(1)] Cons.prems(2,3) c by simp
  from Cons.IH [OF this] show ?case using Cons.prems(2,3) c by simp
qed simp

text \<open>What a new session keeps: the sessions before it, but not what was in the file before the first.\<close>

definition kept :: "server_log \<Rightarrow> string" where
  "kept l = (if sv_serving l then lf_text (sv_file l) else [])"

definition settled :: "server_log \<Rightarrow> nat \<Rightarrow> bool" where
  "settled l cap \<longleftrightarrow> lf_buf (sv_file l) = [] \<and> lf_room (sv_file l) + length (lf_text (sv_file l)) = cap"

lemma begin_in_session:
  assumes "settled l cap" "length (kept l @ stamped ts marker_line) \<le> cap"
  shows "in_session (sv_call ((ts, dur), SvBegin) l) cap (kept l @ stamped ts marker_line) []"
proof -
  let ?f = "if sv_serving l then sv_file l
    else \<lparr>lf_text = [], lf_room = lf_room (sv_file l) + length (lf_text (sv_file l)), lf_buf = []\<rparr>"
  have "told ?f cap (kept l)" using assms(1) by (auto simp: told_def kept_def settled_def)
  from sv_write_line_told [OF this assms(2)]
  obtain f' where "sv_write_line ts marker_line ?f = (Ok (), f')" "told f' cap (kept l @ stamped ts marker_line)"
    by blast
  moreover have "session_tally [] = sv_zero" by (simp add: session_tally_def sv_zero_def tally_def)
  ultimately show ?thesis by (cases "sv_serving l") (simp_all add: sv_begin_def in_session_def Let_def)
qed

lemma summary_in_session:
  assumes "in_session l cap w seen" "length (w @ stamped ts (sv_summary_line (session_tally seen))) \<le> cap"
  shows "settled (sv_call ((ts, dur), SvSummary) l) cap \<and>
    kept (sv_call ((ts, dur), SvSummary) l) = w @ stamped ts (sv_summary_line (session_tally seen))"
proof -
  have l: "sv_serving l" "sv_counters l = session_tally seen" "told (sv_file l) cap w"
    using assms(1) by (simp_all add: in_session_def)
  from sv_write_line_told [OF l(3) assms(2)] obtain f' where
    f': "sv_write_line ts (sv_summary_line (session_tally seen)) (sv_file l) = (Ok (), f')"
      "told f' cap (w @ stamped ts (sv_summary_line (session_tally seen)))" by blast
  show ?thesis
    using l(1,2) f'(1) flush_told [OF f'(2) assms(2)]
    by (auto simp: sv_log_summary_def sv_put_def Let_def settled_def kept_def told_def)
qed

lemma session_settles:
  assumes "settled l cap" "list_all is_event (map snd es)" "length (kept l @ session_text ts es ts') \<le> cap"
  shows "let l' = sv_run (((ts, dur), SvBegin) # es @ [((ts', dur'), SvSummary)]) l
    in settled l' cap \<and> kept l' = kept l @ session_text ts es ts'"
proof -
  have "in_session (sv_run es (sv_call ((ts, dur), SvBegin) l)) cap
      (kept l @ stamped ts marker_line @ events_text es) (map snd es)"
    using events_in_session [OF begin_in_session [OF assms(1)] assms(2)] assms(3) by (simp add: session_text_def)
  from summary_in_session [OF this] show ?thesis
    using assms(3) by (simp add: sv_run_append session_text_def)
qed

subsection \<open>The reads of a connection\<close>

lemma read_loop_ok_logs:
  "serve_read_loop img h n pos replied s = (Ok u, s') \<Longrightarrow> read_loop_logs img h n pos replied s"
proof (induction img h n pos replied s rule: read_loop_logs.induct)
  case (1 img h n pos replied s)
  show ?case
  proof (cases "n = 0")
    case True
    then show ?thesis by (simp add: read_loop_logs.simps)
  next
    case n: False
    show ?thesis
    proof (cases "img_read img pos (min n READ_BUF_SIZE)")
      case (Ok bs)
      show ?thesis
      proof (cases "bs = [] \<or> length bs > min n READ_BUF_SIZE")
        case True
        then show ?thesis
          using n Ok "1.prems"
          by (auto simp: read_loop_logs.simps [of img h n] serve_read_loop.simps [of img h n] split: if_splits)
      next
        case False
        then obtain s1 where s1: "send_chunk replied h bs s = (Ok (), s1)"
          "serve_read_loop img h (n - length bs) (u64_add pos (length bs)) True s1 = (Ok u, s')"
          using n Ok "1.prems" by (auto simp: serve_read_loop.simps [of img h n] split: result.splits prod.splits if_splits)
        then have "read_loop_logs img h (n - length bs) (u64_add pos (length bs)) True s1"
          using False n Ok by (intro "1.IH") auto
        then show ?thesis using False n Ok s1(1) by (simp add: read_loop_logs.simps [of img h n])
      qed
    next
      case (Err cs)
      then show ?thesis using n by (simp add: read_loop_logs.simps [of img h n])
    next
      case Panic
      then show ?thesis using n "1.prems" by (simp add: serve_read_loop.simps [of img h n])
    qed
  qed
qed

lemma serve_read_ok_logs:
  "serve_read img n off len h s = (Ok u, s') \<Longrightarrow> serve_read_logs img n off len h s"
  by (auto simp: serve_read_def serve_read_logs_def is_ok_iff intro: read_loop_ok_logs split: option.splits if_splits)

text \<open>A command that was handled has been taken from the input, its payload included.\<close>

lemma handle_request_leaves:
  assumes ok: "handle_request img n rq s = (Ok u, s')" and wf: "wf_command (rq, payload)"
    and inp: "st_in s = payload @ rest"
  shows "st_in s' = rest"
proof (cases "rq_typ rq = NBD_CMD_WRITE")
  case True
  have "drain (rq_length rq) s = (Ok (), s\<lparr>st_in := rest\<rparr>)"
    using drain_takes [OF inp] wf True by (simp add: wf_command_def)
  then show ?thesis
    using ok True st_keeps_in_replies(1) [of 1 "rq_handle rq"]
    by (auto simp: handle_request_def command_codes st_then_Ok_iff st_keeps_in_def) (metis snd_conv stream.select_convs(1) stream.surjective stream.update_convs(1))
next
  case False
  have "st_keeps_in (serve_read img n off len h)" for off len h
    using serve_read_loop_keeps_in st_keeps_in_replies(1)
    by (auto simp: serve_read_def st_keeps_in_def split: option.splits)
  then have "st_keeps_in (handle_request img n rq)"
    using False st_keeps_in_replies(1) by (auto simp: handle_request_def)
  then have "st_in s' = st_in s" using ok by (metis st_keeps_in_def snd_conv)
  then show ?thesis using wf inp False by (simp add: wf_command_def)
qed

definition reads_of :: "(request \<times> bytes) list \<Rightarrow> (nat \<times> nat) list" where
  "reads_of cmds =
     map (\<lambda>c. (rq_offset (fst c), rq_length (fst c))) (filter (\<lambda>c. rq_typ (fst c) = NBD_CMD_READ) cmds)"

lemma step_reads_command:
  assumes bo: "byteorder_ok bo" and wf: "wf_command (rq, payload)"
    and inp: "st_in s = encode_request rq @ payload @ rest"
    and ok: "transmission_step bo img n s = (Ok b, s')"
  shows "\<not> b \<and> st_in s' = rest \<and> step_reads bo img n s = reads_of [(rq, payload)]"
proof -
  let ?s = "s\<lparr>st_in := payload @ rest\<rparr>"
  have rd: "st_read_exact 28 s = (Ok (encode_request rq), ?s)"
    using inp by (simp add: st_read_exact_def)
  have rq: "request_of_header bo (encode_request rq) = rq" "rq_magic rq = NBD_REQ_MAGIC" "rq_typ rq \<noteq> NBD_CMD_DISC"
    using wf request_of_encoded [OF bo] by (simp_all add: wf_command_def wf_request_def)
  then have h: "handle_request img n rq ?s = (Ok (), s')" "\<not> b"
    using ok rd by (auto simp: transmission_step_def st_then_Ok_iff st_return_def)
  have "serve_read_logs img n (rq_offset rq) (rq_length rq) (rq_handle rq) ?s" if "rq_typ rq = NBD_CMD_READ"
    using h(1) that by (intro serve_read_ok_logs [of img n _ _ _ ?s "()" s']) (simp add: handle_request_def)
  then show ?thesis
    using handle_request_leaves [OF h(1) wf] h(2) rd rq by (auto simp: step_reads_def reads_of_def)
qed

lemma transmission_reads_commands:
  assumes bo: "byteorder_ok bo" and disc: "wf_request disc" "rq_typ disc = NBD_CMD_DISC"
    and "list_all wf_command cmds" "st_in s = concat (map command_bytes cmds) @ encode_request disc @ rest"
    and "transmission bo img n s = (Ok u, s')"
  shows "transmission_reads bo img n s = reads_of cmds"
  using assms(4-)
proof (induction cmds arbitrary: s)
  case Nil
  have "request_of_header bo (encode_request disc) = disc" using disc request_of_encoded [OF bo] by simp
  then show ?case
    using Nil disc
    by (subst transmission_reads.simps)
      (simp add: step_reads_def transmission_step_def st_then_def st_read_exact_def st_return_def wf_request_def
        reads_of_def command_codes)
next
  case (Cons c cmds)
  obtain rq payload where c: "c = (rq, payload)" by force
  obtain b s1 where s1: "transmission_step bo img n s = (Ok b, s1)"
    using Cons.prems(3) by (subst (asm) transmission.simps) (auto split: prod.splits result.splits)
  have step: "\<not> b \<and> st_in s1 = concat (map command_bytes cmds) @ encode_request disc @ rest \<and>
      step_reads bo img n s = reads_of [c]"
    unfolding c using Cons.prems(1,2) c s1
    by (intro step_reads_command [OF bo]) (simp_all add: command_bytes_def [of "(rq, payload)"])
  have "transmission bo img n s1 = (Ok u, s')"
    using Cons.prems(3) s1 step by (subst (asm) transmission.simps) simp
  then have "transmission_reads bo img n s1 = reads_of cmds" using Cons.IH [of s1] Cons.prems(1) step by simp
  moreover have "transmission_reads bo img n s = reads_of [c] @ transmission_reads bo img n s1"
    using s1 step by (subst transmission_reads.simps) simp
  ultimately show ?case by (simp add: reads_of_def)
qed

subsection \<open>Sessions in the file\<close>

type_synonym connection = "(nat \<Rightarrow> string \<times> nat) \<times> image \<times> stream"

text \<open>A connection over which a client shakes hands, sends the commands and disconnects, and which is served to its end.\<close>

definition logged_session :: "byteorder \<Rightarrow> connection \<Rightarrow> (request \<times> bytes) list \<Rightarrow> bool" where
  "logged_session bo conn cmds \<longleftrightarrow>
     (case conn of (clock, img, s) \<Rightarrow>
        list_all wf_command cmds \<and>
        (\<exists>s1 disc rest s2. handshake bo (img_size img) s = (Ok (), s1) \<and> wf_request disc \<and> rq_typ disc = NBD_CMD_DISC \<and>
           st_in s1 = concat (map command_bytes cmds) @ encode_request disc @ rest \<and>
           transmission bo img (img_size img) s1 = (Ok (), s2)))"

definition session_events :: "(nat \<Rightarrow> string \<times> nat) \<Rightarrow> (nat \<times> nat) list \<Rightarrow> ((string \<times> nat) \<times> server_op) list" where
  "session_events clock rds = zip (map clock [1..<Suc (length rds)]) (map (\<lambda>(off, len). SvRead off len) rds)"

definition session_log :: "connection \<Rightarrow> (request \<times> bytes) list \<Rightarrow> string" where
  "session_log conn cmds =
     (case conn of (clock, img, s) \<Rightarrow>
        session_text (fst (clock 0)) (session_events clock (reads_of cmds)) (fst (clock (Suc (length (reads_of cmds))))))"

definition calls_of :: "byteorder \<Rightarrow> connection \<Rightarrow> ((string \<times> nat) \<times> server_op) list" where
  "calls_of bo conn = (case conn of (clock, img, s) \<Rightarrow> timed clock (connection_calls bo img s))"

lemma timed_session:
  "timed clock (SvBegin # map (\<lambda>(off, len). SvRead off len) rds @ [SvSummary]) =
     (clock 0, SvBegin) # session_events clock rds @ [(clock (Suc (length rds)), SvSummary)]"
proof -
  have "[0..<Suc (Suc (length rds))] = 0 # [1..<Suc (length rds)] @ [Suc (length rds)]"
    using upt_conv_Cons [of 0 "Suc (length rds)"] by simp
  then show ?thesis by (simp add: timed_def session_events_def del: upt_Suc)
qed

lemma session_events_are_events: "list_all is_event (map snd (session_events clock rds))"
  by (auto simp: session_events_def list_all_iff is_event_def dest: set_zip_rightD)

lemma logged_session_settles:
  assumes bo: "byteorder_ok bo" and s: "logged_session bo conn cmds" and l: "settled l cap"
    and room: "length (kept l @ session_log conn cmds) \<le> cap"
  shows "settled (sv_run (calls_of bo conn) l) cap \<and>
    kept (sv_run (calls_of bo conn) l) = kept l @ session_log conn cmds"
proof -
  obtain clock img st where conn: "conn = (clock, img, st)" by (cases conn)
  obtain s1 disc rest s2 where h: "handshake bo (img_size img) st = (Ok (), s1)"
    and d: "wf_request disc" "rq_typ disc = NBD_CMD_DISC" and wf: "list_all wf_command cmds"
    and inp: "st_in s1 = concat (map command_bytes cmds) @ encode_request disc @ rest"
    and tr: "transmission bo img (img_size img) s1 = (Ok (), s2)"
    using s by (auto simp: logged_session_def conn)
  let ?rds = "reads_of cmds"
  have calls: "calls_of bo conn =
      (clock 0, SvBegin) # session_events clock ?rds @ [(clock (Suc (length ?rds)), SvSummary)]"
    using h tr transmission_reads_commands [OF bo d wf inp tr] timed_session [of clock ?rds]
    by (simp add: calls_of_def conn connection_calls_def Let_def)
  have "length (kept l @ session_text (fst (clock 0)) (session_events clock ?rds) (fst (clock (Suc (length ?rds))))) \<le> cap"
    using room by (simp add: session_log_def conn)
  from session_settles [OF l session_events_are_events this, of "snd (clock 0)" "snd (clock (Suc (length ?rds)))"]
  have "settled (sv_run (calls_of bo conn) l) cap \<and> kept (sv_run (calls_of bo conn) l) =
      kept l @ session_text (fst (clock 0)) (session_events clock ?rds) (fst (clock (Suc (length ?rds))))"
    by (simp only: Let_def calls prod.collapse)
  then show ?thesis by (simp add: session_log_def conn)
qed

lemma logged_sessions_settle:
  assumes "byteorder_ok bo" "list_all2 (logged_session bo) conns cmdss" "settled l cap"
    and "length (kept l @ concat (map2 session_log conns cmdss)) \<le> cap"
  shows "settled (sv_run (concat (map (calls_of bo) conns)) l) cap \<and>
    kept (sv_run (concat (map (calls_of bo) conns)) l) = kept l @ concat (map2 session_log conns cmdss)"
  using assms(2-)
proof (induction arbitrary: l rule: list_all2_induct)
  case (Cons conn conns cmds cmdss)
  have "length (kept l @ session_log conn cmds) \<le> cap" using Cons.prems(2) by simp
  note one = logged_session_settles [OF assms(1) Cons.hyps(1) Cons.prems(1) this]
  show ?case using Cons.IH [of "sv_run (calls_of bo conn) l"] Cons.prems(2) one by (simp add: sv_run_append)
qed simp

text \<open>C25: the log of the server over any number of sessions: whatever stood in the file before, it holds for each
  session that was served to its end, in order, the marker, one line for each read command with its offset and
  length, also for a read that failed or was refused, and a summary that counts this session only.\<close>

theorem server_log_tells_sessions:
  assumes "byteorder_ok bo" "conns \<noteq> []" "list_all2 (logged_session bo) conns cmdss"
    and "length (concat (map2 session_log conns cmdss)) \<le> room + length old"
  shows "lf_text (sv_file (sv_run (concat (map (calls_of bo) conns)) (sv_open old room))) =
    concat (map2 session_log conns cmdss)"
proof -
  let ?l = "sv_open old room" and ?calls = "concat (map (calls_of bo) conns)"
  have l: "settled ?l (room + length old)" "kept ?l = []"
    by (simp_all add: sv_open_def settled_def kept_def)
  have kept: "kept (sv_run ?calls ?l) = concat (map2 session_log conns cmdss)"
    using logged_sessions_settle [OF assms(1,3) l(1)] assms(4) l(2) by simp
  obtain conn conns' cmds cmdss' where "conns = conn # conns'" "cmdss = cmds # cmdss'"
    using assms(2,3) by (cases conns; cases cmdss) auto
  then have "concat (map2 session_log conns cmdss) \<noteq> []"
    by (simp add: session_log_def session_text_def stamped_def split: prod.splits)
  with kept show ?thesis by (auto simp: kept_def split: if_splits)
qed

text \<open>Two clients of an image that cannot be read at its end.\<close>

definition sample_reads_of_two :: "(request \<times> bytes) list list" where
  "sample_reads_of_two =
     [[(\<lparr>rq_magic = NBD_REQ_MAGIC, rq_flags = 0, rq_typ = 0, rq_handle = 7, rq_offset = 8, rq_length = 2\<rparr>, []),
       (\<lparr>rq_magic = NBD_REQ_MAGIC, rq_flags = 0, rq_typ = 3, rq_handle = 8, rq_offset = 0, rq_length = 0\<rparr>, []),
       (\<lparr>rq_magic = NBD_REQ_MAGIC, rq_flags = 0, rq_typ = 0, rq_handle = 9, rq_offset = 2, rq_length = 3\<rparr>, [])],
      []]"

definition sample_client :: "(request \<times> bytes) list \<Rightarrow> bytes" where
  "sample_client cmds =
     to_be_bytes 4 3 @ to_be_bytes 8 NBD_CLIENT_OPT_MAGIC @ to_be_bytes 4 NBD_OPT_EXPORT_NAME @ to_be_bytes 4 0 @
     concat (map command_bytes cmds) @
     encode_request \<lparr>rq_magic = NBD_REQ_MAGIC, rq_flags = 0, rq_typ = 2, rq_handle = 0, rq_offset = 0, rq_length = 0\<rparr>"

definition sample_conns :: "connection list" where
  "sample_conns = map (\<lambda>cmds. (\<lambda>i. (''t'', 5), failing_image, fresh_stream (sample_client cmds))) sample_reads_of_two"

lemma sample_sessions:
  "list_all (\<lambda>cmds. fst (handshake std_byteorder 10 (fresh_stream (sample_client cmds))) = Ok () \<and>
     st_in (snd (handshake std_byteorder 10 (fresh_stream (sample_client cmds)))) = drop 20 (sample_client cmds) \<and>
     fst (transmission std_byteorder failing_image 10 (snd (handshake std_byteorder 10 (fresh_stream (sample_client cmds))))) = Ok ())
   sample_reads_of_two"
  "list_all (list_all wf_command) sample_reads_of_two"
  by code_simp+

lemma sample_logged: "list_all2 (logged_session std_byteorder) sample_conns sample_reads_of_two"
proof -
  let ?disc = "\<lparr>rq_magic = NBD_REQ_MAGIC, rq_flags = 0, rq_typ = 2, rq_handle = 0, rq_offset = 0, rq_length = 0\<rparr>"
  have "logged_session std_byteorder (\<lambda>i. (''t'', 5), failing_image, fresh_stream (sample_client cmds)) cmds"
    if "cmds \<in> set sample_reads_of_two" for cmds
  proof -
    let ?h = "handshake std_byteorder 10 (fresh_stream (sample_client cmds))"
    have h: "fst ?h = Ok () \<and> st_in (snd ?h) = drop 20 (sample_client cmds) \<and>
        fst (transmission std_byteorder failing_image 10 (snd ?h)) = Ok ()"
      using sample_sessions(1) that unfolding list_all_iff by (rule bspec)
    obtain s1 where s1: "?h = (Ok (), s1)"
      "st_in s1 = drop 20 (sample_client cmds)" "fst (transmission std_byteorder failing_image 10 s1) = Ok ()"
      using h by (metis prod.collapse)
    moreover obtain s2 where "transmission std_byteorder failing_image 10 s1 = (Ok (), s2)" using s1(3) by (metis prod.collapse)
    moreover have "drop 20 (sample_client cmds) = concat (map command_bytes cmds) @ encode_request ?disc @ []"
      by (simp add: sample_client_def)
    moreover have "wf_request ?disc" "rq_typ ?disc = NBD_CMD_DISC" by code_simp+
    moreover have "list_all wf_command cmds" using sample_sessions(2) that by (simp add: list_all_iff)
    ultimately show ?thesis unfolding logged_session_def by (auto simp: failing_image_def)
  qed
  then show ?thesis by (auto simp: sample_conns_def list_all2_conv_all_nth)
qed

theorem server_log_tells_sessions_witness:
  "let read = (\<lambda>off n. json ''nbd_read'' [(''offset'', decimal off), (''len'', decimal n), (''dur_us'', ''5'')])
   in lf_text (sv_file (sv_run (concat (map (calls_of std_byteorder) sample_conns)) (sv_open ''old'' 9000))) =
     concat (map (stamped ''t'')
       [marker_line, read 8 2, read 2 3, sv_summary_line (sv_zero\<lparr>sc_nbd_reads := 2, sc_nbd_read_bytes := 5\<rparr>),
        marker_line, sv_summary_line sv_zero])"
proof -
  let ?w = "concat (map2 session_log sample_conns sample_reads_of_two)"
  have "length ?w \<le> 9000 + length ''old''" by code_simp
  moreover have "sample_conns \<noteq> []" by (simp add: sample_conns_def sample_reads_of_two_def)
  ultimately have "lf_text (sv_file (sv_run (concat (map (calls_of std_byteorder) sample_conns)) (sv_open ''old'' 9000))) = ?w"
    using server_log_tells_sessions [OF std_byteorder_ok _ sample_logged] by blast
  moreover have "?w = concat (map (stamped ''t'')
      [marker_line, json ''nbd_read'' [(''offset'', decimal 8), (''len'', decimal 2), (''dur_us'', ''5'')],
       json ''nbd_read'' [(''offset'', decimal 2), (''len'', decimal 3), (''dur_us'', ''5'')],
       sv_summary_line (sv_zero\<lparr>sc_nbd_reads := 2, sc_nbd_read_bytes := 5\<rparr>), marker_line, sv_summary_line sv_zero])"
    by code_simp
  ultimately show ?thesis by (simp only: Let_def)
qed

end
