(* ===== verification/FileTree.thy ===== *)
theory FileTree
  imports ServerLog VmdkDescriptor
begin

text \<open>
  The file system as the server changes it: \<open>bind_unix\<close> and \<open>open_io_log\<close> of \<open>diskimage-nbd/src/server.rs\<close> over the calls of
  the standard library they make, and what the two logs write (\<open>diskimage-nbd/src/io_log.rs\<close>, \<open>imagesource/src/io_log.rs\<close>).

  A file system is a map from places, which are full names without links, to nodes.  What a path names is
  the record \<open>fs_sys\<close>: \<open>fc_at\<close> does not follow a link in its last component, \<open>fc_through\<close> does.  Making
  and removing sockets, files and directories changes no link, so both stay the same.  Each call may also
  fail for reasons of the system's own (permissions, space), which depend on the tree.

  Shown: which places each operation may change and which nodes it may make; a socket path that names
  something else is never bound and never removed.
\<close>

subsection \<open>Trees\<close>

datatype fs_node = SocketNode | FileNode bytes | DirNode | OtherNode

type_synonym tree = "string \<rightharpoonup> fs_node"

record fs_sys =
  fc_at :: "string \<Rightarrow> string"
  fc_through :: "string \<Rightarrow> string"
  fc_stat :: "tree \<Rightarrow> string \<Rightarrow> (unit, io_error) result"
  fc_remove :: "tree \<Rightarrow> string \<Rightarrow> (unit, io_error) result"
  fc_mkdir :: "tree \<Rightarrow> string \<Rightarrow> (unit, io_error) result"
  fc_bind :: "tree \<Rightarrow> string \<Rightarrow> (unit, io_error) result"
  fc_open :: "tree \<Rightarrow> string \<Rightarrow> (unit, io_error) result"
  fc_trunc :: "tree \<Rightarrow> string \<Rightarrow> (unit, io_error) result"
  fc_time :: string
  fc_room :: nat

text \<open>A call that may fail and changes the tree when it does not.\<close>

definition fs_then ::
    "('a, 'e) result \<times> tree \<Rightarrow> ('a \<Rightarrow> tree \<Rightarrow> ('b, 'e) result \<times> tree) \<Rightarrow> ('b, 'e) result \<times> tree" where
  "fs_then s f = (case s of (Ok x, t) \<Rightarrow> f x t | (Err e, t) \<Rightarrow> (Err e, t) | (Panic, t) \<Rightarrow> (Panic, t))"

definition fs_ask :: "('a, 'e) result \<Rightarrow> tree \<Rightarrow> ('a, 'e) result \<times> tree" where
  "fs_ask r t = (r, t)"

definition fs_err :: "('e \<Rightarrow> 'f) \<Rightarrow> ('a, 'e) result \<times> tree \<Rightarrow> ('a, 'f) result \<times> tree" where
  "fs_err f s = (map_err f (fst s), snd s)"

subsection \<open>The calls\<close>

definition symlink_metadata :: "fs_sys \<Rightarrow> string \<Rightarrow> tree \<Rightarrow> (fs_node, io_error) result" where
  "symlink_metadata sys path t = and_then (fc_stat sys t path) (\<lambda>_. ok_or NotFound (t (fc_at sys path)))"

definition is_dir :: "fs_sys \<Rightarrow> string \<Rightarrow> tree \<Rightarrow> bool" where
  "is_dir sys path t \<longleftrightarrow> is_ok (fc_stat sys t path) \<and> t (fc_through sys path) = Some DirNode"

definition remove_file :: "fs_sys \<Rightarrow> string \<Rightarrow> tree \<Rightarrow> (unit, io_error) result \<times> tree" where
  "remove_file sys path t = fs_then (fs_ask (fc_remove sys t path) t) (\<lambda>_ t. (Ok (), t(fc_at sys path := None)))"

definition mkdir :: "fs_sys \<Rightarrow> string \<Rightarrow> tree \<Rightarrow> (unit, io_error) result \<times> tree" where
  "mkdir sys path t =
     (if t (fc_at sys path) \<noteq> None then (Err Other, t)
      else fs_then (fs_ask (fc_mkdir sys t path) t) (\<lambda>_ t. (Ok (), t(fc_at sys path \<mapsto> DirNode))))"

text \<open>\<open>File::options().create(true).append(true).open\<close>.\<close>

definition open_append :: "fs_sys \<Rightarrow> string \<Rightarrow> tree \<Rightarrow> (unit, io_error) result \<times> tree" where
  "open_append sys path t =
     fs_then (fs_ask (fc_open sys t path) t) (\<lambda>_ t.
       case t (fc_through sys path) of
         None \<Rightarrow> (Ok (), t(fc_through sys path \<mapsto> FileNode []))
       | Some (FileNode bs) \<Rightarrow> (Ok (), t)
       | Some OtherNode \<Rightarrow> (Ok (), t)
       | Some _ \<Rightarrow> (Err Other, t))"

text \<open>\<open>Path::parent\<close>, for paths without \<open>.\<close> components.\<close>

definition trim_slashes :: "string \<Rightarrow> string" where
  "trim_slashes s = rev (dropWhile (\<lambda>c. c = CHR ''/'') (rev s))"

definition path_parent :: "string \<Rightarrow> string option" where
  "path_parent path =
     (if trim_slashes path = [] then None
      else
        case rsplit_once (CHR ''/'') (trim_slashes path) of
          None \<Rightarrow> Some []
        | Some (dir, _) \<Rightarrow> Some (if trim_slashes dir = [] then ''/'' else trim_slashes dir))"

lemma trim_slashes_length: "length (trim_slashes s) \<le> length s"
  using length_dropWhile_le [of _ "rev s"] by (simp add: trim_slashes_def)

lemma trim_slashes_last: "trim_slashes s = a @ [c] \<Longrightarrow> c \<noteq> CHR ''/''"
  using hd_dropWhile [of "\<lambda>c. c = CHR ''/''" "rev s"]
  by (auto simp: trim_slashes_def rev_eq_append_conv)

lemma path_parent_shorter:
  assumes "path_parent path = Some dir"
  shows "length dir < length path"
proof -
  have ne: "trim_slashes path \<noteq> []" using assms by (auto simp: path_parent_def split: if_splits)
  show ?thesis
  proof (cases "rsplit_once (CHR ''/'') (trim_slashes path)")
    case None
    then show ?thesis using assms ne trim_slashes_length [of path] by (cases "trim_slashes path") (auto simp: path_parent_def)
  next
    case (Some p)
    obtain a b where p: "p = (a, b)" by (cases p)
    have t: "trim_slashes path = a @ CHR ''/'' # b" using Some p rsplit_once_Some by simp
    then have "b \<noteq> []" using trim_slashes_last [of path a "CHR ''/''"] by auto
    then have "length a + 2 \<le> length path" using t trim_slashes_length [of path] by (cases b) auto
    moreover have "length dir \<le> max 1 (length a)"
      using assms Some p ne trim_slashes_length [of a] by (auto simp: path_parent_def split: if_splits)
    ultimately show ?thesis by simp
  qed
qed

text \<open>\<open>std::fs::create_dir_all\<close>: the parent first where it is missing.\<close>

function create_dir_all :: "fs_sys \<Rightarrow> string \<Rightarrow> tree \<Rightarrow> (unit, io_error) result \<times> tree" where
  "create_dir_all sys path t =
     (if path = [] then (Ok (), t)
      else
        case mkdir sys path t of
          (Ok _, t) \<Rightarrow> (Ok (), t)
        | (Panic, t) \<Rightarrow> (Panic, t)
        | (Err e, t) \<Rightarrow>
            if e \<noteq> NotFound then (if is_dir sys path t then Ok () else Err e, t)
            else
              case path_parent path of
                None \<Rightarrow> (Err Other, t)
              | Some dir \<Rightarrow>
                  fs_then (create_dir_all sys dir t) (\<lambda>_ t.
                    case mkdir sys path t of
                      (Err e, t) \<Rightarrow> (if is_dir sys path t then Ok () else Err e, t)
                    | s \<Rightarrow> s))"
  by pat_completeness auto
termination
  by (relation "measure (\<lambda>(sys, path, t). length path)") (auto simp: path_parent_shorter)

declare create_dir_all.simps [simp del]

subsection \<open>The socket\<close>

datatype bind_error = AddressTaken | BindIo io_error

definition bind_listener :: "fs_sys \<Rightarrow> string \<Rightarrow> tree \<Rightarrow> (unit, bind_error) result \<times> tree" where
  "bind_listener sys path t =
     (if t (fc_at sys path) \<noteq> None then (Err AddressTaken, t)
      else fs_then (fs_ask (map_err BindIo (fc_bind sys t path)) t) (\<lambda>_ t. (Ok (), t(fc_at sys path \<mapsto> SocketNode))))"

definition make_parent :: "fs_sys \<Rightarrow> string \<Rightarrow> tree \<Rightarrow> (unit, io_error) result \<times> tree" where
  "make_parent sys path t =
     (case path_parent path of None \<Rightarrow> (Ok (), t) | Some dir \<Rightarrow> if dir \<noteq> [] then create_dir_all sys dir t else (Ok (), t))"

definition make_and_bind :: "fs_sys \<Rightarrow> string \<Rightarrow> tree \<Rightarrow> (unit, bind_error) result \<times> tree" where
  "make_and_bind sys path t = fs_then (fs_err BindIo (make_parent sys path t)) (\<lambda>_. bind_listener sys path)"

definition bind_unix :: "fs_sys \<Rightarrow> string \<Rightarrow> tree \<Rightarrow> (unit, bind_error) result \<times> tree" where
  "bind_unix sys path t =
     (case symlink_metadata sys path t of
        Ok node \<Rightarrow>
          if node = SocketNode then fs_then (fs_err BindIo (remove_file sys path t)) (\<lambda>_. make_and_bind sys path)
          else (Err AddressTaken, t)
      | Err e \<Rightarrow> if e = NotFound then make_and_bind sys path t else (Err (BindIo e), t)
      | Panic \<Rightarrow> (Panic, t))"

subsection \<open>The logs\<close>

text \<open>\<open>open_io_log\<close>; the trace log is opened in the same way.\<close>

definition open_io_log :: "fs_sys \<Rightarrow> string option \<Rightarrow> tree \<Rightarrow> (unit, io_error) result \<times> tree" where
  "open_io_log sys path t = (case path of Some p \<Rightarrow> open_append sys p t | None \<Rightarrow> (Ok (), t))"

text \<open>What a log makes of the text in its file; a log that is no regular file is not part of the tree's content.\<close>

definition log_writes :: "fs_sys \<Rightarrow> string option \<Rightarrow> (string \<Rightarrow> string) \<Rightarrow> tree \<Rightarrow> tree" where
  "log_writes sys path text t =
     (case path of
        None \<Rightarrow> t
      | Some p \<Rightarrow>
          (case t (fc_through sys p) of
             Some (FileNode bs) \<Rightarrow> t(fc_through sys p \<mapsto> FileNode (string_bytes (text (map byte_char bs))))
           | None \<Rightarrow> t(fc_through sys p \<mapsto> FileNode (string_bytes (text [])))
           | Some _ \<Rightarrow> t))"

definition log_text :: "fs_sys \<Rightarrow> string \<Rightarrow> tree \<Rightarrow> string" where
  "log_text sys path t = (case t (fc_through sys path) of Some (FileNode bs) \<Rightarrow> map byte_char bs | _ \<Rightarrow> [])"

text \<open>\<open>begin_serving\<close> of the trace log, which empties the file and writes the first line.\<close>

definition begin_trace :: "fs_sys \<Rightarrow> string option \<Rightarrow> tree \<Rightarrow> (unit, io_error) result \<times> tree" where
  "begin_trace sys path t =
     (case path of
        None \<Rightarrow> (Ok (), t)
      | Some p \<Rightarrow>
          fs_then (fs_ask (fc_trunc sys t p) t) (\<lambda>_ t.
            let begun = (\<lambda>text. begin_serving (Ok ()) (fc_time sys) (log_open text (fc_room sys)))
            in (fst (begun (log_text sys p t)), log_writes sys path (\<lambda>text. lf_text (log_file (snd (begun text)))) t)))"

text \<open>What the calls of sessions, any there are, make of the two files: the server's log begins with the first
  of them, the trace is under way.\<close>

definition io_log_sessions :: "fs_sys \<Rightarrow> string option \<Rightarrow> ((string \<times> nat) \<times> server_op) list \<Rightarrow> tree \<Rightarrow> tree" where
  "io_log_sessions sys path calls =
     (if calls = [] then (\<lambda>t. t)
      else log_writes sys path (\<lambda>text. lf_text (sv_file (sv_run calls (sv_open text (fc_room sys))))))"

definition trace_sessions :: "fs_sys \<Rightarrow> string option \<Rightarrow> (string \<times> log_op) list \<Rightarrow> tree \<Rightarrow> tree" where
  "trace_sessions sys path calls =
     (if calls = [] then (\<lambda>t. t)
      else log_writes sys path (\<lambda>text. lf_text (log_file (log_run calls
        \<lparr>log_serving = True, log_counters = zero_counters, log_file = \<lparr>lf_text = text, lf_room = fc_room sys, lf_buf = []\<rparr>\<rparr>))))"

subsection \<open>What an operation may change\<close>

text \<open>Only nodes in \<open>C\<close> are changed or removed, and a new node is one that \<open>New\<close> allows.\<close>

definition tree_keeps :: "string set \<Rightarrow> (string \<Rightarrow> fs_node \<Rightarrow> bool) \<Rightarrow> tree \<Rightarrow> tree \<Rightarrow> bool" where
  "tree_keeps C New t t' \<longleftrightarrow>
     (\<forall>p. p \<notin> C \<longrightarrow> (case t p of Some n \<Rightarrow> t' p = Some n | None \<Rightarrow> (\<forall>n. t' p = Some n \<longrightarrow> New p n)))"

lemma tree_keeps_refl [simp]: "tree_keeps C New t t"
  by (auto simp: tree_keeps_def split: option.split)

lemma tree_keeps_trans:
  assumes "tree_keeps C New t1 t2" "tree_keeps C New t2 t3"
  shows "tree_keeps C New t1 t3"
  unfolding tree_keeps_def
proof (intro allI impI)
  fix p assume "p \<notin> C"
  with assms have "case t1 p of Some n \<Rightarrow> t2 p = Some n | None \<Rightarrow> (\<forall>n. t2 p = Some n \<longrightarrow> New p n)"
    "case t2 p of Some n \<Rightarrow> t3 p = Some n | None \<Rightarrow> (\<forall>n. t3 p = Some n \<longrightarrow> New p n)"
    unfolding tree_keeps_def by blast+
  then show "case t1 p of Some n \<Rightarrow> t3 p = Some n | None \<Rightarrow> (\<forall>n. t3 p = Some n \<longrightarrow> New p n)"
    by (auto split: option.splits)
qed

lemma tree_keeps_mono:
  assumes "tree_keeps C New t t'" "C \<subseteq> C'" "\<And>p n. p \<notin> C' \<Longrightarrow> New p n \<Longrightarrow> New' p n"
  shows "tree_keeps C' New' t t'"
  unfolding tree_keeps_def
proof (intro allI impI)
  fix p assume p: "p \<notin> C'"
  then have "p \<notin> C" using assms(2) by blast
  then have "case t p of Some n \<Rightarrow> t' p = Some n | None \<Rightarrow> (\<forall>n. t' p = Some n \<longrightarrow> New p n)"
    using assms(1) unfolding tree_keeps_def by blast
  then show "case t p of Some n \<Rightarrow> t' p = Some n | None \<Rightarrow> (\<forall>n. t' p = Some n \<longrightarrow> New' p n)"
    using assms(3) p by (simp split: option.splits)
qed

lemma tree_keeps_node: "tree_keeps C New t t' \<Longrightarrow> p \<notin> C \<Longrightarrow> t p = Some n \<Longrightarrow> t' p = Some n"
  by (auto simp: tree_keeps_def split: option.splits)

lemma tree_keeps_at: "p \<in> C \<Longrightarrow> tree_keeps C New t (t(p := x))"
  by (auto simp: tree_keeps_def split: option.split)

lemma tree_keeps_new: "t p = None \<Longrightarrow> New p n \<Longrightarrow> tree_keeps C New t (t(p \<mapsto> n))"
  by (auto simp: tree_keeps_def split: option.split)

lemma fs_then_keeps:
  assumes "tree_keeps C New t (snd s)" "\<And>x t'. s = (Ok x, t') \<Longrightarrow> tree_keeps C New t' (snd (f x t'))"
  shows "tree_keeps C New t (snd (fs_then s f))"
proof -
  obtain r t' where s: "s = (r, t')" by fastforce
  show ?thesis
  proof (cases r)
    case (Ok x)
    then show ?thesis using assms tree_keeps_trans s by (fastforce simp: fs_then_def)
  qed (use assms(1) s in \<open>simp_all add: fs_then_def\<close>)
qed

lemma fs_then_Ok: "fs_then s f = (Ok y, t') \<longleftrightarrow> (\<exists>x t. s = (Ok x, t) \<and> f x t = (Ok y, t'))"
  by (auto simp: fs_then_def split: prod.splits result.splits)

lemma fs_err_Ok: "fs_err f s = (Ok x, t) \<longleftrightarrow> s = (Ok x, t)"
  by (cases s; cases "fst s") (auto simp: fs_err_def)

lemma snd_fs [simp]: "snd (fs_err f s) = snd s" "snd (fs_ask r t) = t"
  by (simp_all add: fs_err_def fs_ask_def)

lemma fs_ask_Ok [simp]: "fs_ask r t = (Ok x, t') \<longleftrightarrow> r = Ok x \<and> t' = t"
  by (auto simp: fs_ask_def)

subsection \<open>What the operations change\<close>

text \<open>The directories on the way to a path, itself among them.\<close>

inductive ancestor :: "string \<Rightarrow> string \<Rightarrow> bool" where
  ancestor_self: "ancestor path path"
| ancestor_up: "path_parent path = Some dir \<Longrightarrow> ancestor a dir \<Longrightarrow> ancestor a path"

definition new_dirs :: "fs_sys \<Rightarrow> string \<Rightarrow> string \<Rightarrow> fs_node \<Rightarrow> bool" where
  "new_dirs sys path p n \<longleftrightarrow> n = DirNode \<and> (\<exists>a. ancestor a path \<and> p = fc_at sys a)"

lemma mkdir_keeps: "tree_keeps C (new_dirs sys path) t (snd (mkdir sys path t))"
  by (auto simp: mkdir_def intro!: fs_then_keeps tree_keeps_new)
    (auto simp: new_dirs_def intro: ancestor_self)

lemma create_dir_all_keeps: "tree_keeps C (new_dirs sys path) t (snd (create_dir_all sys path t))"
proof (induction sys path t rule: create_dir_all.induct)
  case (1 sys path t)
  obtain r1 t1 where m: "mkdir sys path t = (r1, t1)" by fastforce
  have k1: "tree_keeps C (new_dirs sys path) t t1" using mkdir_keeps [of C sys path t] m by simp
  show ?case
  proof (cases "path = [] \<or> (\<forall>e. r1 \<noteq> Err e) \<or> r1 \<noteq> Err NotFound \<or> path_parent path = None")
    case True
    then show ?thesis
      using k1 m by (subst create_dir_all.simps) (auto split: result.splits option.splits)
  next
    case False
    then obtain dir where d: "path \<noteq> []" "r1 = Err NotFound" "path_parent path = Some dir" by auto
    let ?last = "\<lambda>t. case mkdir sys path t of (Err e, t) \<Rightarrow> (if is_dir sys path t then Ok () else Err e, t) | s \<Rightarrow> s"
    have "tree_keeps C (new_dirs sys dir) t1 (snd (create_dir_all sys dir t1))"
      using "1.IH" [OF d(1) m [symmetric] d(2) _ d(3)] by simp
    then have k2: "tree_keeps C (new_dirs sys path) t1 (snd (create_dir_all sys dir t1))"
      by (rule tree_keeps_mono) (auto simp: new_dirs_def intro: ancestor_up [OF d(3)])
    have "tree_keeps C (new_dirs sys path) t2 (snd (?last t2))" for t2
      using mkdir_keeps [of C sys path t2] by (auto split: prod.splits result.splits)
    then have "tree_keeps C (new_dirs sys path) t1 (snd (fs_then (create_dir_all sys dir t1) (\<lambda>_. ?last)))"
      by (intro fs_then_keeps k2)
    then show ?thesis
      using m d tree_keeps_trans [OF k1] by (subst create_dir_all.simps) simp
  qed
qed

lemma make_parent_keeps: "tree_keeps C (new_dirs sys path) t (snd (make_parent sys path t))"
proof (cases "path_parent path")
  case (Some dir)
  have "tree_keeps C (new_dirs sys path) t (snd (create_dir_all sys dir t))"
    by (rule tree_keeps_mono [OF create_dir_all_keeps]) (auto simp: new_dirs_def intro: ancestor_up [OF Some])
  then show ?thesis using Some by (simp add: make_parent_def)
qed (simp add: make_parent_def)

definition new_socket :: "fs_sys \<Rightarrow> string \<Rightarrow> string \<Rightarrow> fs_node \<Rightarrow> bool" where
  "new_socket sys path p n \<longleftrightarrow> n = SocketNode \<and> p = fc_at sys path \<or> new_dirs sys path p n"

lemma make_and_bind_keeps: "tree_keeps C (new_socket sys path) t (snd (make_and_bind sys path t))"
proof -
  have "tree_keeps C (new_socket sys path) t (snd (make_parent sys path t))"
    by (rule tree_keeps_mono [OF make_parent_keeps]) (auto simp: new_socket_def)
  moreover have "tree_keeps C (new_socket sys path) t (snd (bind_listener sys path t))" for t
    by (auto simp: bind_listener_def new_socket_def intro!: fs_then_keeps tree_keeps_new)
  ultimately show ?thesis unfolding make_and_bind_def by (intro fs_then_keeps) simp_all
qed

lemma make_and_bind_Ok: "make_and_bind sys path t = (Ok (), t') \<Longrightarrow> t' (fc_at sys path) = Some SocketNode"
  by (auto simp: make_and_bind_def bind_listener_def fs_then_Ok split: if_splits)

lemma make_and_bind_taken:
  assumes "t (fc_at sys path) = Some n"
  shows "fst (make_and_bind sys path t) \<noteq> Ok u"
proof
  assume "fst (make_and_bind sys path t) = Ok u"
  then obtain t' where "make_and_bind sys path t = (Ok u, t')" by (metis prod.collapse)
  then obtain t1 where "make_parent sys path t = (Ok (), t1)" "t1 (fc_at sys path) = None"
    by (auto simp: make_and_bind_def bind_listener_def fs_then_Ok fs_err_Ok split: if_splits)
  then show False using tree_keeps_node [OF make_parent_keeps [of "{}" sys path t]] assms by simp
qed

text \<open>A socket at the path is replaced; anything else there stays, and nothing is bound.\<close>

lemma bind_unix_keeps:
  "tree_keeps (if t (fc_at sys path) = Some SocketNode then {fc_at sys path} else {}) (new_socket sys path) t
     (snd (bind_unix sys path t))"
proof (cases "symlink_metadata sys path t")
  case (Ok node)
  then have n: "t (fc_at sys path) = Some node"
    by (cases "t (fc_at sys path)") (auto simp: symlink_metadata_def and_then_Ok_iff)
  have "tree_keeps {fc_at sys path} (new_socket sys path) t (snd (remove_file sys path t))"
    by (auto simp: remove_file_def intro!: fs_then_keeps tree_keeps_at)
  then have "tree_keeps {fc_at sys path} (new_socket sys path) t
      (snd (fs_then (fs_err BindIo (remove_file sys path t)) (\<lambda>_. make_and_bind sys path)))"
    by (intro fs_then_keeps make_and_bind_keeps) simp
  then show ?thesis using Ok n by (simp add: bind_unix_def)
qed (simp_all add: bind_unix_def make_and_bind_keeps)

lemma bind_unix_Ok: "bind_unix sys path t = (Ok (), t') \<Longrightarrow> t' (fc_at sys path) = Some SocketNode"
  by (auto simp: bind_unix_def fs_then_Ok split: result.splits if_splits intro: make_and_bind_Ok)

lemma bind_unix_taken:
  assumes "t (fc_at sys path) = Some n" "n \<noteq> SocketNode"
  shows "fst (bind_unix sys path t) \<noteq> Ok u"
  using assms make_and_bind_taken [of t sys path n u]
  by (auto simp: bind_unix_def symlink_metadata_def and_then_Ok_iff split: result.splits)

definition log_place :: "fs_sys \<Rightarrow> string option \<Rightarrow> string set" where
  "log_place sys path = (case path of None \<Rightarrow> {} | Some p \<Rightarrow> {fc_through sys p})"

lemma open_io_log_keeps:
  "tree_keeps {} (\<lambda>p n. p \<in> log_place sys path \<and> n = FileNode []) t (snd (open_io_log sys path t))"
  by (auto simp: open_io_log_def open_append_def log_place_def intro!: fs_then_keeps tree_keeps_new
      split: option.splits fs_node.splits)

lemma log_writes_keeps: "tree_keeps (log_place sys path) New t (log_writes sys path text t)"
  by (auto simp: log_writes_def log_place_def intro!: tree_keeps_at split: option.splits fs_node.splits)

lemma log_writes_other: "t p = Some n \<Longrightarrow> (\<forall>bs. n \<noteq> FileNode bs) \<Longrightarrow> log_writes sys path text t p = Some n"
  by (auto simp: log_writes_def split: option.splits fs_node.splits)

lemma begin_trace_keeps: "tree_keeps (log_place sys path) New t (snd (begin_trace sys path t))"
  by (auto simp: begin_trace_def Let_def log_writes_keeps intro!: fs_then_keeps split: option.splits)

lemma begin_trace_other: "t p = Some n \<Longrightarrow> (\<forall>bs. n \<noteq> FileNode bs) \<Longrightarrow> snd (begin_trace sys path t) p = Some n"
  by (auto simp: begin_trace_def Let_def fs_then_def fs_ask_def log_writes_other split: option.splits result.splits)

lemma sessions_keep:
  "tree_keeps (log_place sys path) New t (io_log_sessions sys path calls t)"
  "tree_keeps (log_place sys path) New t (trace_sessions sys path calls' t)"
  by (simp_all add: io_log_sessions_def trace_sessions_def log_writes_keeps)

lemma sessions_other:
  assumes "\<forall>bs. n \<noteq> FileNode bs" "t p = Some n"
  shows "io_log_sessions sys path calls t p = Some n" "trace_sessions sys path calls' t p = Some n"
  using assms by (simp_all add: io_log_sessions_def trace_sessions_def log_writes_other)

end
