(* ===== verification/NbdProgram.thy ===== *)
theory NbdProgram
  imports NbdE01 CachedOpen FileTree
begin

text \<open>
  The server as a program: \<open>run\<close> and the openers of \<open>diskimage-nbd/src/bin/diskimage-nbd.rs\<close>, with \<open>run_serve\<close> and the accept
  loop of \<open>server.rs\<close>.  A run is followed up to the accept loop: which errors end it before, what it does to
  the file system of \<open>FileTree\<close>, and the image that its sessions serve; then what the sessions write.

  The system is a parameter: the file system's calls, sockets, signals, and the systems of the readers
  (\<open>program_sys\<close>), which hold the image's files as they are read.  \<open>ps_crate_files\<close> is what the crates leave in
  the file system while the image is opened: the directories of the block cache (\<open>tempfile\<close>, \<open>foyer\<close>).  What
  they go on to write into these, and the output, is left out.

  Shown: a run and its sessions keep every file but the two logs, and every node but a stale socket at the
  run's own path; a run over a raw image serves, through the block cache that it made, the concatenated
  files in every session.
\<close>

subsection \<open>Openers\<close>

definition serve_reader_options :: "serve_args \<Rightarrow> reader_options" where
  "serve_reader_options a =
     \<lparr>ro_foyer_readahead = sa_readahead a, ro_s3_concurrency = sa_s3_concurrency a, ro_cache_mem_mib = sa_cache_mem_mib a,
      ro_cache_mode = serve_cache_mode a, ro_cache_dir = sa_cache_dir a, ro_io_log = sa_cache_trace_log a \<noteq> None,
      ro_cache_chunk_size = sa_cache_chunk_size a, ro_cache_fetch_size = serve_fetch_size a\<rparr>"

datatype adapter =
    AdapterE01 e01_served | AdapterVmdk "cache \<times> vmdk_reader" | AdapterRaw "cache \<times> rawdisk_reader"

definition adapter_image :: "byteorder \<Rightarrow> 'd inflater \<Rightarrow> adapter \<Rightarrow> image" where
  "adapter_image bo infl ad =
     (case ad of
        AdapterE01 r \<Rightarrow> e01_adapter r
      | AdapterVmdk r \<Rightarrow> vmdk_adapter bo infl r
      | AdapterRaw r \<Rightarrow> raw_adapter r)"

datatype program_error =
    UnsupportedExtension | LogFailed io_error | SignalFailed io_error | BindFailed bind_error
  | E01Failed e01_open_error | VmdkFailed open_error | RawFailed source_open_error

text \<open>\<open>ps_run_e01\<close> is what the pool, the decoder and earlier reads make of an opened E01 reader; \<open>ps_cache\<close> is the block cache
  in the states that its reads meet.\<close>

record 'io program_sys =
  ps_e01 :: "'io e01_sys"
  ps_raw :: raw_sys
  ps_vmdk :: vmdk_sys
  ps_to_url :: "string \<Rightarrow> string option"
  ps_env :: open_env
  ps_cache :: "tiers \<Rightarrow> nat \<Rightarrow> source_slots \<Rightarrow> cache"
  ps_run_e01 :: "cache \<Rightarrow> e01_reader \<times> e01_state \<Rightarrow> e01_served"
  ps_fs :: fs_sys
  ps_crate_files :: "tree \<Rightarrow> tree"
  ps_sigusr1 :: "(unit, io_error) result"
  ps_bind_tcp :: "(unit, io_error) result"

definition serve_open_vmdk :: "'io program_sys \<Rightarrow> serve_args \<Rightarrow> string \<Rightarrow> (adapter, program_error) result option" where
  "serve_open_vmdk ps a path =
     map_option (\<lambda>r. and_then (map_err VmdkFailed r) (\<lambda>(rd, tr, permits).
         Ok (AdapterVmdk (ps_cache ps tr (sa_readahead a) (vr_slots rd), rd))))
       (vmdk_open_with_options (ps_env ps) (ps_vmdk ps) (ps_to_url ps) (\<lambda>tr. ps_cache ps tr (sa_readahead a)) path
          (serve_reader_options a))"

definition serve_open_raw :: "'io program_sys \<Rightarrow> serve_args \<Rightarrow> string \<Rightarrow> (adapter, program_error) result option" where
  "serve_open_raw ps a path =
     map_option (\<lambda>r. and_then (map_err RawFailed r) (\<lambda>(rd, tr, permits).
         Ok (AdapterRaw (ps_cache ps tr (sa_readahead a) (rr_slots rd), rd))))
       (rawdisk_open_with_options (ps_env ps) (ps_raw ps) path (serve_reader_options a))"

definition serve_open_image :: "'io program_sys \<Rightarrow> serve_args \<Rightarrow> format \<Rightarrow> string \<Rightarrow> (adapter, program_error) result option" where
  "serve_open_image ps a f path =
     (case f of
        FormatE01 \<Rightarrow>
          Some (and_then (map_err E01Failed (serve_open_e01 (ps_e01 ps) a path)) (\<lambda>(rd, st).
            Ok (AdapterE01 (ps_run_e01 ps (es_cache (ps_e01 ps) (er_slots rd)) (rd, st)))))
      | FormatVmdk \<Rightarrow> serve_open_vmdk ps a path
      | FormatRaw \<Rightarrow> serve_open_raw ps a path)"

text \<open>The closure that \<open>run\<close> hands to \<open>run_serve\<close>: the trace log around the open.\<close>

definition open_traced ::
    "'io program_sys \<Rightarrow> serve_args \<Rightarrow> format \<Rightarrow> string \<Rightarrow> tree \<Rightarrow> (adapter, program_error) result option \<times> tree" where
  "open_traced ps a f path fs =
     (case open_io_log (ps_fs ps) (sa_cache_trace_log a) fs of
        (Ok _, fs) \<Rightarrow>
          let fs = ps_crate_files ps fs in
          (case serve_open_image ps a f path of
             Some (Ok ad) \<Rightarrow>
               (case begin_trace (ps_fs ps) (sa_cache_trace_log a) fs of
                  (r, fs) \<Rightarrow> (Some (and_then (map_err LogFailed r) (\<lambda>_. Ok ad)), fs))
           | r \<Rightarrow> (r, fs))
      | (Err e, fs) \<Rightarrow> (Some (Err (LogFailed e)), fs)
      | (Panic, fs) \<Rightarrow> (Some Panic, fs))"

subsection \<open>Running\<close>

text \<open>\<open>run_serve\<close> up to the accept loop: with a socket path, the socket is bound before the image is opened.\<close>

definition run_serve ::
    "fs_sys \<Rightarrow> string option \<Rightarrow> (unit, io_error) result \<Rightarrow> (tree \<Rightarrow> (adapter, program_error) result option \<times> tree) \<Rightarrow> tree \<Rightarrow>
      (adapter, program_error) result option \<times> tree" where
  "run_serve sys unix_path bind_tcp opening fs =
     (case unix_path of
        Some path \<Rightarrow>
          (case bind_unix sys path fs of
             (Ok _, fs) \<Rightarrow> opening fs
           | (Err e, fs) \<Rightarrow> (Some (Err (BindFailed e)), fs)
           | (Panic, fs) \<Rightarrow> (Some Panic, fs))
      | None \<Rightarrow>
          (case opening fs of
             (r, fs) \<Rightarrow>
               (map_option (\<lambda>r. and_then r (\<lambda>ad. and_then (map_err (\<lambda>e. BindFailed (BindIo e)) bind_tcp) (\<lambda>_. Ok ad))) r, fs)))"

record program_args =
  pa_image_path :: string
  pa_serve :: serve_args
  pa_unix :: "string option"
  pa_io_log :: "string option"

definition run_program :: "'io program_sys \<Rightarrow> program_args \<Rightarrow> tree \<Rightarrow> (adapter, program_error) result option \<times> tree" where
  "run_program ps args fs =
     (case detect_format (pa_image_path args) of
        None \<Rightarrow> (Some (Err UnsupportedExtension), fs)
      | Some f \<Rightarrow>
          (case open_io_log (ps_fs ps) (pa_io_log args) fs of
             (Ok _, fs) \<Rightarrow>
               (case (if sa_metadata_cache (pa_serve args) then map_err SignalFailed (ps_sigusr1 ps) else Ok ()) of
                  Ok _ \<Rightarrow>
                    run_serve (ps_fs ps) (pa_unix args) (ps_bind_tcp ps)
                      (open_traced ps (pa_serve args) f (pa_image_path args)) fs
                | Err e \<Rightarrow> (Some (Err e), fs)
                | Panic \<Rightarrow> (Some Panic, fs))
           | (Err e, fs) \<Rightarrow> (Some (Err (LogFailed e)), fs)
           | (Panic, fs) \<Rightarrow> (Some Panic, fs)))"

text \<open>What sessions write, where the two logs are different files.\<close>

definition serve_sessions ::
    "fs_sys \<Rightarrow> program_args \<Rightarrow> ((string \<times> nat) \<times> server_op) list \<Rightarrow> (string \<times> log_op) list \<Rightarrow> tree \<Rightarrow> tree" where
  "serve_sessions sys args calls traced fs =
     trace_sessions sys (sa_cache_trace_log (pa_serve args)) traced (io_log_sessions sys (pa_io_log args) calls fs)"

text \<open>The accept loop over what happens: a connection arrives or fails to, a session ends.\<close>

datatype accept_event = Arrives "(unit, io_error) result" | SessionEnds

datatype accept_action = FailedIgnored | BusyDropped | SessionSpawned

fun accept_loop :: "nat \<Rightarrow> accept_event list \<Rightarrow> accept_action list \<times> nat" where
  "accept_loop sessions [] = ([], sessions)"
| "accept_loop sessions (SessionEnds # es) = accept_loop (sessions - 1) es"
| "accept_loop sessions (Arrives r # es) =
     (let (act, n) =
        (if \<not> is_ok r then (FailedIgnored, sessions)
         else
           case acquire_round sessions False sessions of
             Acquired n \<Rightarrow> (SessionSpawned, n)
           | _ \<Rightarrow> (BusyDropped, sessions))
      in case accept_loop n es of (acts, m) \<Rightarrow> (act # acts, m))"

subsection \<open>What a run does to files\<close>

text \<open>The crates make nodes of their own and change none that is there.\<close>

definition crates_add :: "'io program_sys \<Rightarrow> bool" where
  "crates_add ps \<longleftrightarrow> (\<forall>t p node. t p = Some node \<longrightarrow> ps_crate_files ps t p = Some node)"

definition crate_node :: "'io program_sys \<Rightarrow> string \<Rightarrow> fs_node \<Rightarrow> bool" where
  "crate_node ps p node \<longleftrightarrow> (\<exists>t. t p = None \<and> ps_crate_files ps t p = Some node)"

lemma crates_keep: "crates_add ps \<Longrightarrow> tree_keeps C (crate_node ps) t (ps_crate_files ps t)"
  by (auto simp: tree_keeps_def crates_add_def crate_node_def split: option.split)

abbreviation trace_path :: "program_args \<Rightarrow> string option" where
  "trace_path args \<equiv> sa_cache_trace_log (pa_serve args)"

definition run_new :: "'io program_sys \<Rightarrow> program_args \<Rightarrow> string \<Rightarrow> fs_node \<Rightarrow> bool" where
  "run_new ps args p node \<longleftrightarrow>
     p \<in> log_place (ps_fs ps) (pa_io_log args) \<union> log_place (ps_fs ps) (trace_path args) \<or>
     (\<exists>u. pa_unix args = Some u \<and> new_socket (ps_fs ps) u p node) \<or> crate_node ps p node"

lemma open_traced_keeps:
  assumes "crates_add ps"
  shows "tree_keeps (log_place (ps_fs ps) (trace_path args)) (run_new ps args) t
    (snd (open_traced ps (pa_serve args) f path t))"
proof -
  let ?C = "log_place (ps_fs ps) (trace_path args)"
  obtain r1 t1 where o: "open_io_log (ps_fs ps) (trace_path args) t = (r1, t1)" by fastforce
  have k1: "tree_keeps ?C (run_new ps args) t t1"
    using tree_keeps_mono [OF open_io_log_keeps [of "ps_fs ps" "trace_path args" t]] o by (auto simp: run_new_def)
  have k2: "tree_keeps ?C (run_new ps args) t1 (ps_crate_files ps t1)"
    by (rule tree_keeps_mono [OF crates_keep [OF assms, of ?C]]) (auto simp: run_new_def)
  obtain r3 t3 where b: "begin_trace (ps_fs ps) (trace_path args) (ps_crate_files ps t1) = (r3, t3)" by fastforce
  have k3: "tree_keeps ?C (run_new ps args) (ps_crate_files ps t1) t3"
    using begin_trace_keeps [of "ps_fs ps" "trace_path args" "run_new ps args" "ps_crate_files ps t1"] b by simp
  show ?thesis
    using k1 tree_keeps_trans [OF k1 k2] tree_keeps_trans [OF tree_keeps_trans [OF k1 k2] k3] o b
    by (auto simp: open_traced_def Let_def split: result.splits option.splits)
qed

text \<open>A node that is no file stays wherever it is.\<close>

lemma open_traced_other:
  assumes "crates_add ps" "t p = Some node" "\<forall>bs. node \<noteq> FileNode bs"
  shows "snd (open_traced ps a f path t) p = Some node"
proof -
  obtain r1 t1 where o: "open_io_log (ps_fs ps) (sa_cache_trace_log a) t = (r1, t1)" by fastforce
  then have "t1 p = Some node"
    using tree_keeps_node [OF open_io_log_keeps [of "ps_fs ps" "sa_cache_trace_log a" t] _ assms(2)] by simp
  then have c: "ps_crate_files ps t1 p = Some node" using assms(1) by (simp add: crates_add_def)
  obtain r3 t3 where b: "begin_trace (ps_fs ps) (sa_cache_trace_log a) (ps_crate_files ps t1) = (r3, t3)" by fastforce
  then have "t3 p = Some node" using begin_trace_other [of "ps_crate_files ps t1" p node "ps_fs ps" "sa_cache_trace_log a", OF c assms(3)] by simp
  then show ?thesis
    using o b c \<open>t1 p = Some node\<close> by (auto simp: open_traced_def Let_def split: result.splits option.splits)
qed

definition socket_place :: "'io program_sys \<Rightarrow> program_args \<Rightarrow> tree \<Rightarrow> string set" where
  "socket_place ps args t = {p. \<exists>u. pa_unix args = Some u \<and> p = fc_at (ps_fs ps) u \<and> t p = Some SocketNode}"

lemma run_serve_keeps:
  assumes "crates_add ps"
  shows "tree_keeps (socket_place ps args t \<union> log_place (ps_fs ps) (trace_path args)) (run_new ps args) t
    (snd (run_serve (ps_fs ps) (pa_unix args) tcp (open_traced ps (pa_serve args) f path) t))"
proof -
  let ?C = "socket_place ps args t \<union> log_place (ps_fs ps) (trace_path args)"
  have k: "tree_keeps ?C (run_new ps args) t1 (snd (open_traced ps (pa_serve args) f path t1))" for t1
    by (rule tree_keeps_mono [OF open_traced_keeps [OF assms]]) auto
  show ?thesis
  proof (cases "pa_unix args")
    case None
    then show ?thesis using k [of t] by (auto simp: run_serve_def split: prod.splits)
  next
    case (Some u)
    obtain r t1 where b: "bind_unix (ps_fs ps) u t = (r, t1)" by fastforce
    have "tree_keeps ?C (run_new ps args) t (snd (bind_unix (ps_fs ps) u t))"
      by (rule tree_keeps_mono [OF bind_unix_keeps]) (use Some in \<open>auto simp: socket_place_def run_new_def\<close>)
    then have "tree_keeps ?C (run_new ps args) t t1" using b by simp
    then show ?thesis using Some b tree_keeps_trans [OF _ k] by (cases r) (auto simp: run_serve_def)
  qed
qed

text \<open>A run either ends before it opens the image, with no more than a log made, or is a \<open>run_serve\<close>.\<close>

lemma run_program_cases:
  assumes "run_program ps args fs = (res, fs')"
  obtains fs1 where "tree_keeps {} (run_new ps args) fs fs1" "fs' = fs1" "\<forall>ad. res \<noteq> Some (Ok ad)"
  | f fs1 where "detect_format (pa_image_path args) = Some f" "open_io_log (ps_fs ps) (pa_io_log args) fs = (Ok (), fs1)"
    "tree_keeps {} (run_new ps args) fs fs1"
    "run_serve (ps_fs ps) (pa_unix args) (ps_bind_tcp ps) (open_traced ps (pa_serve args) f (pa_image_path args)) fs1 = (res, fs')"
proof -
  obtain r1 fs1 where o: "open_io_log (ps_fs ps) (pa_io_log args) fs = (r1, fs1)" by fastforce
  have k: "tree_keeps {} (run_new ps args) fs fs1"
    using tree_keeps_mono [OF open_io_log_keeps [of "ps_fs ps" "pa_io_log args" fs]] o by (auto simp: run_new_def)
  have "(\<forall>ad. res \<noteq> Some (Ok ad)) \<and> (fs' = fs \<or> fs' = fs1) \<or>
      (\<exists>f. detect_format (pa_image_path args) = Some f \<and> r1 = Ok () \<and>
        run_serve (ps_fs ps) (pa_unix args) (ps_bind_tcp ps) (open_traced ps (pa_serve args) f (pa_image_path args)) fs1 = (res, fs'))"
    using assms o by (auto simp: run_program_def split: option.splits result.splits if_splits)
  then show thesis using that k o tree_keeps_refl by metis
qed

lemma run_program_keeps:
  assumes "crates_add ps" "run_program ps args fs = (res, fs')"
  shows "tree_keeps (socket_place ps args fs \<union> log_place (ps_fs ps) (trace_path args)) (run_new ps args) fs fs'"
  using assms(2)
proof (cases rule: run_program_cases)
  case (1 fs1)
  show ?thesis unfolding 1(2) by (rule tree_keeps_mono [OF 1(1)]) auto
next
  case (2 f fs1)
  have "socket_place ps args fs1 \<subseteq> socket_place ps args fs \<union> {p. fs p = None}"
  proof
    fix p assume "p \<in> socket_place ps args fs1"
    then show "p \<in> socket_place ps args fs \<union> {p. fs p = None}"
      using tree_keeps_node [OF 2(3), of p] by (cases "fs p") (auto simp: socket_place_def)
  qed
  moreover have "tree_keeps {} (run_new ps args) fs fs1" by (rule 2(3))
  moreover have "tree_keeps (socket_place ps args fs1 \<union> log_place (ps_fs ps) (trace_path args)) (run_new ps args) fs1 fs'"
    using run_serve_keeps [OF assms(1), of args fs1] 2(4) by (metis snd_conv)
  moreover have "fs1 p \<noteq> Some SocketNode" if "fs p = None" for p
  proof
    assume "fs1 p = Some SocketNode"
    moreover have "case fs p of Some n \<Rightarrow> fs1 p = Some n
        | None \<Rightarrow> (\<forall>n. fs1 p = Some n \<longrightarrow> p \<in> log_place (ps_fs ps) (pa_io_log args) \<and> n = FileNode [])"
      using open_io_log_keeps [of "ps_fs ps" "pa_io_log args" fs] 2(2) by (simp add: tree_keeps_def)
    ultimately show False using that by simp
  qed
  ultimately have "tree_keeps (socket_place ps args fs \<union> log_place (ps_fs ps) (trace_path args)) (run_new ps args) fs1 fs'"
    by (elim tree_keeps_mono) (auto simp: socket_place_def)
  moreover have "tree_keeps (socket_place ps args fs \<union> log_place (ps_fs ps) (trace_path args)) (run_new ps args) fs fs1"
    by (rule tree_keeps_mono [OF 2(3)]) simp_all
  ultimately show ?thesis by (metis tree_keeps_trans)
qed

lemma run_program_socket:
  assumes "crates_add ps" "run_program ps args fs = (res, fs')" "pa_unix args = Some u"
  shows "fs (fc_at (ps_fs ps) u) = Some node \<Longrightarrow> node \<noteq> SocketNode \<Longrightarrow> res \<noteq> Some (Ok ad)"
    and "res = Some (Ok ad) \<Longrightarrow> fs' (fc_at (ps_fs ps) u) = Some SocketNode"
proof -
  let ?p = "fc_at (ps_fs ps) u"
  have "(fs ?p = Some node \<longrightarrow> node \<noteq> SocketNode \<longrightarrow> res \<noteq> Some (Ok ad)) \<and>
      (res = Some (Ok ad) \<longrightarrow> fs' ?p = Some SocketNode)" for ad
    using assms(2)
  proof (cases rule: run_program_cases)
    case (2 f fs1)
    obtain r fs2 where b: "bind_unix (ps_fs ps) u fs1 = (r, fs2)" by fastforce
    have "r \<noteq> Ok ()" if "fs ?p = Some node" "node \<noteq> SocketNode"
      using bind_unix_taken [of fs1 "ps_fs ps" u node, OF tree_keeps_node [OF 2(3) _ that(1)] that(2)] b by simp
    moreover have "r = Ok () \<longrightarrow> fs' ?p = Some SocketNode"
      using bind_unix_Ok [of "ps_fs ps" u fs1 fs2] b 2(4) assms(3)
        open_traced_other [OF assms(1), of fs2 ?p SocketNode "pa_serve args" f "pa_image_path args"]
      by (auto simp: run_serve_def)
    moreover have "res = Some (Ok ad) \<longrightarrow> r = Ok ()" using 2(4) b assms(3) by (cases r) (auto simp: run_serve_def)
    ultimately show ?thesis by blast
  qed auto
  then show "fs ?p = Some node \<Longrightarrow> node \<noteq> SocketNode \<Longrightarrow> res \<noteq> Some (Ok ad)"
    "res = Some (Ok ad) \<Longrightarrow> fs' ?p = Some SocketNode" by blast+
qed

lemma serve_sessions_keep:
  "tree_keeps (log_place sys (pa_io_log args) \<union> log_place sys (trace_path args)) New t (serve_sessions sys args calls traced t)"
  unfolding serve_sessions_def
  by (rule tree_keeps_trans [OF tree_keeps_mono [OF sessions_keep(1)] tree_keeps_mono [OF sessions_keep(2)]]) auto

text \<open>C15: whatever the command line names, a run of the server and all its sessions keep what is there.  A node that
  existed stays as it was, unless it is the file of one of the two logs or a stale socket at the run's own
  path.  What is new is a log, the socket, a directory on the way to it, or a node of the crates.
  Something at the socket path that is no socket ends the run.  Once the run serves over a socket path, the
  socket is there and stays.  A log of reads that was there before is kept until the first session
  begins.\<close>

theorem run_keeps_files:
  assumes run: "run_program ps args fs = (res, fs1)"
    and crates: "\<forall>t p node. t p = Some node \<longrightarrow> ps_crate_files ps t p = Some node"
    and sessions: "fs' = (if \<exists>ad. res = Some (Ok ad) then serve_sessions (ps_fs ps) args calls traced fs1 else fs1)"
    and logs: "logs = log_place (ps_fs ps) (pa_io_log args) \<union> log_place (ps_fs ps) (sa_cache_trace_log (pa_serve args))"
  shows "(\<forall>p node. fs p = Some node \<and> p \<notin> logs \<and>
       \<not> (node = SocketNode \<and> (\<exists>u. pa_unix args = Some u \<and> p = fc_at (ps_fs ps) u)) \<longrightarrow> fs' p = Some node) \<and>
    (\<forall>p node. fs p = None \<and> fs' p = Some node \<longrightarrow> p \<in> logs \<or>
       (\<exists>u. pa_unix args = Some u \<and>
          (node = SocketNode \<and> p = fc_at (ps_fs ps) u \<or>
           node = DirNode \<and> (\<exists>a. ancestor a u \<and> p = fc_at (ps_fs ps) a))) \<or>
       (\<exists>t. t p = None \<and> ps_crate_files ps t p = Some node)) \<and>
    (\<forall>u node. pa_unix args = Some u \<and> fs (fc_at (ps_fs ps) u) = Some node \<and> node \<noteq> SocketNode \<longrightarrow>
       (\<forall>ad. res \<noteq> Some (Ok ad))) \<and>
    (\<forall>u ad. pa_unix args = Some u \<and> res = Some (Ok ad) \<longrightarrow> fs' (fc_at (ps_fs ps) u) = Some SocketNode) \<and>
    (\<forall>p bs. fs p = Some (FileNode bs) \<and> p \<notin> log_place (ps_fs ps) (sa_cache_trace_log (pa_serve args)) \<longrightarrow>
       fs1 p = Some (FileNode bs))"
proof -
  have ca: "crates_add ps" using crates by (simp add: crates_add_def)
  let ?C = "socket_place ps args fs \<union> logs"
  note k1 = run_program_keeps [OF ca run]
  have "tree_keeps ?C (run_new ps args) fs fs1" by (rule tree_keeps_mono [OF k1]) (auto simp: logs)
  moreover have "tree_keeps ?C (run_new ps args) fs1 fs'"
    using tree_keeps_mono [OF serve_sessions_keep, of "ps_fs ps" args ?C "run_new ps args" "run_new ps args" fs1 calls traced]
    by (auto simp: sessions logs)
  ultimately have k: "tree_keeps ?C (run_new ps args) fs fs'" by (rule tree_keeps_trans)
  show ?thesis
  proof (intro conjI allI impI; elim conjE exE)
    fix p node assume "fs p = Some node" "p \<notin> logs"
      "\<not> (node = SocketNode \<and> (\<exists>u. pa_unix args = Some u \<and> p = fc_at (ps_fs ps) u))"
    then show "fs' p = Some node" using tree_keeps_node [OF k, of p node] by (auto simp: socket_place_def)
  next
    fix p node assume n: "fs p = None" "fs' p = Some node"
    then have "p \<notin> socket_place ps args fs" by (simp add: socket_place_def)
    then have "p \<in> logs \<or> run_new ps args p node" using k n by (fastforce simp: tree_keeps_def)
    then show "p \<in> logs \<or>
       (\<exists>u. pa_unix args = Some u \<and>
          (node = SocketNode \<and> p = fc_at (ps_fs ps) u \<or>
           node = DirNode \<and> (\<exists>a. ancestor a u \<and> p = fc_at (ps_fs ps) a))) \<or>
       (\<exists>t. t p = None \<and> ps_crate_files ps t p = Some node)"
      by (auto simp: run_new_def logs new_socket_def new_dirs_def crate_node_def)
  next
    fix u node ad assume "pa_unix args = Some u" "fs (fc_at (ps_fs ps) u) = Some node" "node \<noteq> SocketNode"
    then show "res \<noteq> Some (Ok ad)" by (rule run_program_socket(1) [OF ca run])
  next
    fix u ad assume u: "pa_unix args = Some u" "res = Some (Ok ad)"
    have "fs1 (fc_at (ps_fs ps) u) = Some SocketNode" by (rule run_program_socket(2) [OF ca run u])
    then show "fs' (fc_at (ps_fs ps) u) = Some SocketNode"
      using sessions_other [of SocketNode] by (auto simp: sessions serve_sessions_def)
  next
    fix p bs assume "fs p = Some (FileNode bs)" "p \<notin> log_place (ps_fs ps) (trace_path args)"
    then show "fs1 p = Some (FileNode bs)" using tree_keeps_node [OF k1] by (auto simp: socket_place_def)
  qed
qed

subsection \<open>A run over a raw image\<close>

lemma run_serve_opened:
  assumes "run_serve sys unix_path bind_tcp opening fs = (Some (Ok ad), fs')"
  obtains fs2 fs3 where "opening fs2 = (Some (Ok ad), fs3)"
  using assms by (auto simp: run_serve_def and_then_Ok_iff split: option.splits prod.splits result.splits)

lemma run_program_raw:
  assumes "run_program ps args fs = (Some (Ok ad), fs')" "detect_format (pa_image_path args) = Some FormatRaw"
  obtains rd tr permits where
    "rawdisk_open_with_options (ps_env ps) (ps_raw ps) (pa_image_path args) (serve_reader_options (pa_serve args)) =
       Some (Ok (rd, tr, permits))"
    "ad = AdapterRaw (ps_cache ps tr (sa_readahead (pa_serve args)) (rr_slots rd), rd)"
  using assms(1)
proof (cases rule: run_program_cases)
  case (2 f fs1)
  let ?opening = "open_traced ps (pa_serve args) FormatRaw (pa_image_path args)"
  have "run_serve (ps_fs ps) (pa_unix args) (ps_bind_tcp ps) ?opening fs1 = (Some (Ok ad), fs')" using 2(1,4) assms(2) by simp
  then obtain fs2 fs3 where "?opening fs2 = (Some (Ok ad), fs3)" by (rule run_serve_opened)
  then have "serve_open_raw ps (pa_serve args) (pa_image_path args) = Some (Ok ad)"
    by (auto simp: open_traced_def Let_def serve_open_image_def and_then_Ok_iff split: result.splits option.splits prod.splits)
  then show thesis using that by (auto simp: serve_open_raw_def and_then_Ok_iff)
qed blast

text \<open>C4: a run of the server over a raw image, with any options of the command line: in every session the client's
  commands are answered in turn, each read with the bytes of the concatenated segment files, although
  the bytes come through the block cache that the run set up and that is in another state at each read.\<close>

theorem run_serves_raw_files:
  assumes run: "run_program ps args fs = (Some (Ok ad), fs')" "detect_format (pa_image_path args) = Some FormatRaw"
    and fb: "file_backed (ps_raw ps) files" and url: "rs_path_to_url (ps_raw ps) (pa_image_path args) = Some url"
    and paths: "raw_segment_list (ps_raw ps) (pa_image_path args) url = Some (Ok paths)"
    and tiers: "raw_block_cache (ps_env ps) (serve_reader_options (pa_serve args)) = Ok (tr, permits)"
    and cache: "ps_cache ps = (\<lambda>tr readahead slots. moving_cache bw tr slots readahead ws)"
    and world: "world_ok True (segment_data (map files paths)) tr bw I" "\<forall>idx off n. I (ws idx off n)"
    and sizes: "max (serve_fetch_size (pa_serve args)) (sa_cache_chunk_size (pa_serve args)) +
      max (sa_cache_chunk_size (pa_serve args)) (1024 * 1024) < u64_lim"
    and lim: "length (concat (map files paths)) + tr_chlen tr + tr_fetch_size tr < u64_lim" "length paths < u64_lim"
    and session: "byteorder_ok bo" "wf_request disc" "rq_typ disc = NBD_CMD_DISC" "list_all wf_command cmds"
    and client: "st_in s = concat (map command_bytes cmds) @ encode_request disc @ rest"
    and room: "length (replies (concat (map files paths)) cmds) \<le> st_room s"
  shows "transmission bo (adapter_image bo infl ad) (img_size (adapter_image bo infl ad)) s =
    (Ok (), written (s\<lparr>st_in := rest\<rparr>) (replies (concat (map files paths)) cmds))"
proof -
  let ?opts = "serve_reader_options (pa_serve args)"
  obtain rd tr' permits' where o:
    "rawdisk_open_with_options (ps_env ps) (ps_raw ps) (pa_image_path args) ?opts = Some (Ok (rd, tr', permits'))"
    "ad = AdapterRaw (ps_cache ps tr' (sa_readahead (pa_serve args)) (rr_slots rd), rd)"
    by (rule run_program_raw [OF run])
  have "raw_setup (ps_env ps) url ?opts = Ok (tr', permits')"
    using o(1) url by (auto simp: rawdisk_open_with_options_def and_then_Ok_iff split: result.splits)
  then have tr': "tr' = tr" using raw_setup_cache tiers by fastforce
  have "segments_ok (moving_cache bw tr (rr_slots rd) (ro_foyer_readahead ?opts) ws) (map files paths) rd"
    by (rule raw_open_cached [OF fb url paths o(1) [unfolded tr'] _ lim world]) (use sizes in \<open>simp add: serve_reader_options_def\<close>)
  then have "raw_holds (ps_cache ps tr (sa_readahead (pa_serve args)) (rr_slots rd), rd) (concat (map files paths))"
    by (auto simp: raw_holds_def cache serve_reader_options_def)
  from raw.session_answers [OF session(1) this session(2-4) client room] show ?thesis
    by (simp add: o(2) tr' adapter_image_def)
qed

definition sample_files :: fs_sys where
  "sample_files =
     \<lparr>fc_at = (\<lambda>p. p), fc_through = (\<lambda>p. p), fc_stat = (\<lambda>t p. Ok ()), fc_remove = (\<lambda>t p. Ok ()), fc_mkdir = (\<lambda>t p. Ok ()),
      fc_bind = (\<lambda>t p. Ok ()), fc_open = (\<lambda>t p. Ok ()), fc_trunc = (\<lambda>t p. Ok ()), fc_time = ''0'', fc_room = 1000\<rparr>"

definition sample_program :: "(bytes \<times> nat) program_sys" where
  "sample_program =
     \<lparr>ps_e01 = file_sys ''i.E01'' sample_written, ps_raw = sample_raw_sys, ps_vmdk = VmdkReader.sample_sys, ps_to_url = Some,
      ps_env = sample_env, ps_cache = (\<lambda>tr readahead slots. moving_cache map_world tr slots readahead (\<lambda>idx off n x. None)),
      ps_run_e01 = (\<lambda>c (rd, st). \<lparr>sv_reader = rd, sv_rayon = \<lambda>off n. \<lparr>ry_schedule = [1, 0], ry_pick = 0\<rparr>, sv_codec = plain_codec, sv_cache = c,
         sv_spoil = \<lambda>off bs. bs, sv_state = \<lambda>off n. st\<rparr>),
      ps_fs = sample_files, ps_crate_files = (\<lambda>t. if t ''/tmp/.c'' = None then t(''/tmp/.c'' \<mapsto> DirNode) else t),
      ps_sigusr1 = Ok (), ps_bind_tcp = Err Other\<rparr>"

definition sample_program_args :: program_args where
  "sample_program_args =
     \<lparr>pa_image_path = ''d.002'',
      pa_serve = sample_serve_args\<lparr>sa_metadata_cache := True, sa_cache_chunk_size := 2, sa_cache_fetch_size := Some 5,
        sa_cache_trace_log := Some ''t.log''\<rparr>,
      pa_unix = Some ''run/s'', pa_io_log = Some ''io.log''\<rparr>"

definition sample_tree :: tree where
  "sample_tree = [''run'' \<mapsto> DirNode, ''run/s'' \<mapsto> SocketNode, ''d.001'' \<mapsto> FileNode [1, 2, 3], ''t.log'' \<mapsto> FileNode [65]]"

lemma sample_tiers_made:
  "raw_block_cache (ps_env sample_program) (serve_reader_options (pa_serve sample_program_args)) =
     Ok (\<lparr>tr_chlen = 2, tr_fetch_size = 4, tr_metadata = True\<rparr>, 8)"
  by (simp add: raw_block_cache_def sample_program_def sample_program_args_def sample_serve_args_def serve_reader_options_def
      serve_cache_mode_def serve_fetch_size_def sample_env_def dual_hybrid_def build_hybrid_def normalize_block_size_def
      group_size_def limiter_permits_def u64_mul_def u64_lim_def Let_def)

lemma sample_run: "\<exists>ad fs'. run_program sample_program sample_program_args sample_tree = (Some (Ok ad), fs')"
proof -
  have "case fst (run_program sample_program sample_program_args sample_tree) of Some r \<Rightarrow> is_ok r | None \<Rightarrow> False" by code_simp
  then obtain ad where "fst (run_program sample_program sample_program_args sample_tree) = Some (Ok ad)"
    by (auto simp: is_ok_iff split: option.splits)
  then show ?thesis by (metis prod.collapse)
qed

theorem run_keeps_files_witness:
  "\<exists>ad fs1. run_program sample_program sample_program_args sample_tree = (Some (Ok ad), fs1) \<and>
     (let fs' = serve_sessions sample_files sample_program_args [((''5'', 0), SvBegin)] [] fs1
      in fs' ''run/s'' = Some SocketNode \<and> fs' ''run'' = Some DirNode \<and> fs' ''d.001'' = Some (FileNode [1, 2, 3]))"
proof -
  obtain ad fs1 where r: "run_program sample_program sample_program_args sample_tree = (Some (Ok ad), fs1)"
    using sample_run by blast
  have u: "pa_unix sample_program_args = Some ''run/s''" and f: "ps_fs sample_program = sample_files"
    by (simp_all add: sample_program_args_def sample_program_def)
  have c: "\<forall>t p node. t p = Some node \<longrightarrow> ps_crate_files sample_program t p = Some node"
    by (auto simp: sample_program_def)
  have l: "''run'' \<notin> logs \<and> ''d.001'' \<notin> logs"
    if "logs = log_place sample_files (pa_io_log sample_program_args) \<union> log_place sample_files (trace_path sample_program_args)" for logs
    using that by (simp add: log_place_def sample_program_args_def sample_files_def)
  let ?fs' = "serve_sessions sample_files sample_program_args [((''5'', 0), SvBegin)] [] fs1"
  have "?fs' = (if \<exists>ad'. Some (Ok ad) = Some (Ok ad')
      then serve_sessions (ps_fs sample_program) sample_program_args [((''5'', 0), SvBegin)] [] fs1 else fs1)"
    by (simp add: f)
  note k = run_keeps_files [OF r c this refl, unfolded f]
  show ?thesis
    using r conjunct1 [OF k] k u l [OF refl] by (simp add: Let_def sample_tree_def sample_files_def)
qed

theorem run_serves_raw_files_witness:
  "\<exists>ad fs'. run_program sample_program sample_program_args sample_tree = (Some (Ok ad), fs') \<and>
     transmission std_byteorder (adapter_image std_byteorder stored_inflater ad)
         (img_size (adapter_image std_byteorder stored_inflater ad)) sample_stream =
       (Ok (), written (sample_stream\<lparr>st_in := [1]\<rparr>) (replies [1, 2, 3, 4, 5, 6] sample_commands))"
proof -
  let ?tr = "\<lparr>tr_chlen = 2, tr_fetch_size = 4, tr_metadata = True\<rparr>" and ?paths = "[''d.001'', ''d.002'', ''d.003'']"
  let ?data = "segment_data (map sample_fs ?paths)"
  obtain ad fs' where r: "run_program sample_program sample_program_args sample_tree = (Some (Ok ad), fs')"
    using sample_run by blast
  have path: "pa_image_path sample_program_args = ''d.002''" by (simp add: sample_program_args_def)
  have f: "detect_format (pa_image_path sample_program_args) = Some FormatRaw" unfolding path by code_simp
  have ps: "ps_raw sample_program = sample_raw_sys" by (simp add: sample_program_def)
  have fb: "file_backed (ps_raw sample_program) sample_fs" by (simp add: file_backed_def sample_raw_sys_def ps)
  have url: "rs_path_to_url (ps_raw sample_program) (pa_image_path sample_program_args) = Some ''d.002''"
    by (simp add: sample_raw_sys_def ps path)
  have paths: "raw_segment_list (ps_raw sample_program) (pa_image_path sample_program_args) ''d.002'' = Some (Ok ?paths)"
    using sample_raw_open(2) by (simp add: ps path)
  have cache: "ps_cache sample_program = (\<lambda>tr readahead slots. moving_cache map_world tr slots readahead (\<lambda>idx off n x. None))"
    by (simp add: sample_program_def)
  have w: "world_ok True ?data ?tr map_world (blocks_right ?data 2)" "\<forall>idx off n :: nat. blocks_right ?data 2 (\<lambda>x. None)"
    using map_world_ok [of True ?data ?tr] by (simp_all add: blocks_right_def)
  have c: "concat (map sample_fs ?paths) = [1, 2, 3, 4, 5, 6]" by (simp add: sample_fs_def)
  have s: "max (serve_fetch_size (pa_serve sample_program_args)) (sa_cache_chunk_size (pa_serve sample_program_args)) +
      max (sa_cache_chunk_size (pa_serve sample_program_args)) (1024 * 1024) < u64_lim"
    by (simp add: sample_program_args_def sample_serve_args_def serve_fetch_size_def u64_lim_def)
  have l: "length (concat (map sample_fs ?paths)) + tr_chlen ?tr + tr_fetch_size ?tr < u64_lim" "length ?paths < u64_lim"
    unfolding c by (simp_all add: u64_lim_def)
  have in': "st_in sample_stream = concat (map command_bytes sample_commands) @ encode_request sample_disc @ [1]"
    by (simp add: sample_stream_def fresh_stream_def)
  have room: "length (replies (concat (map sample_fs ?paths)) sample_commands) \<le> st_room sample_stream"
    unfolding c by code_simp
  note t = run_serves_raw_files [where files = sample_fs and bw = map_world and I = "blocks_right ?data 2"
      and ws = "\<lambda>idx off n x. None" and bo = std_byteorder and infl = stored_inflater and cmds = sample_commands
      and disc = sample_disc and rest = "[1]" and s = sample_stream,
      OF r f fb url paths sample_tiers_made cache w s l std_byteorder_ok sample_commands_wf(2,3,1) in' room]
  show ?thesis using r t unfolding c by blast
qed

text \<open>The accept loop never stops for a failed accept, and at most two sessions run at once.\<close>

lemma accept_loop_bounded:
  "n \<le> MAX_PENDING_SESSIONS \<Longrightarrow> accept_loop n es = (acts, m) \<Longrightarrow>
     m \<le> MAX_PENDING_SESSIONS \<and> length acts = length (filter (\<lambda>e. e \<noteq> SessionEnds) es)"
proof (induction es arbitrary: n acts m)
  case (Cons e es)
  show ?case
  proof (cases e)
    case (Arrives r)
    let ?p = "if \<not> is_ok r then (FailedIgnored, n)
      else (case acquire_round n False n of Acquired k \<Rightarrow> (SessionSpawned, k) | _ \<Rightarrow> (BusyDropped, n))"
    obtain act k where p: "?p = (act, k)" by fastforce
    then have k: "k \<le> MAX_PENDING_SESSIONS" "accept_loop n (Arrives r # es) = (case accept_loop k es of (acts, m) \<Rightarrow> (act # acts, m))"
      using Cons.prems(1) by (auto simp: acquire_round_def split: if_splits)
    obtain acts' m' where a: "accept_loop k es = (acts', m')" by fastforce
    show ?thesis using Cons.IH [OF k(1) a] Cons.prems(2) a k(2) by (auto simp: Arrives simp del: accept_loop.simps)
  next
    case SessionEnds
    then show ?thesis using Cons.IH [of "n - 1" acts] Cons.prems by simp
  qed
qed simp

end
