(* ===== verification/E01Verify.thy ===== *)
theory E01Verify
  imports E01Image Hasher
begin

text \<open>
  The program that verifies an image, \<open>e01/src/main.rs\<close>: open it, read it from beginning to end into the hasher and
  compare the digests with the stored ones.  Its verdict decides the exit code; \<open>verify_prints\<close> is the text on
  the standard output.  Progress, warnings and errors on the other stream are left out.  The hasher appears as
  what \<open>Hasher\<close> proves of it: its digests are those of the updates.  The crate \<open>hex\<close> is the parameter \<open>hex\<close>.

  Shown: on an image whose chunks are all there the verdict is the comparison of the stored hashes with the
  hashes of the image; and an image without stored hashes is reported as verified as soon as an MD5 or a SHA1 is
  asked for.
\<close>

subsection \<open>Arguments and verdict\<close>

record verify_args =
  va_input :: string
  va_extra_hashes :: "hash_type list"
  va_ignore_checksums :: bool
  va_parallel_chunks :: bool
  va_parallel_threads :: nat
  va_decoded_chunk_cache :: bool

definition verify_options :: "verify_args \<Rightarrow> e01_options" where
  "verify_options args =
     default_options
       \<lparr>eo_section_policy := SecError, eo_chunk_policy := (if va_ignore_checksums args then PolZero else PolError),
        eo_parallel_chunk_reads := va_parallel_chunks args, eo_parallel_chunk_threads := va_parallel_threads args,
        eo_decoded_chunk_cache := va_decoded_chunk_cache args\<rparr>"

datatype verify_error = VerifyOpen e01_open_error | VerifyRead read_error

definition check_hash :: "bytes option \<Rightarrow> bytes option \<Rightarrow> bool option" where
  "check_hash hash_act hash_exp =
     (case hash_act of
        None \<Rightarrow> None
      | Some act \<Rightarrow> (case hash_exp of Some exp' \<Rightarrow> if act \<noteq> exp' then Some False else Some True | None \<Rightarrow> Some True))"

text \<open>\<open>flatten\<close> and \<open>reduce\<close> over the two checks: \<open>None\<close> for no verification, otherwise whether it succeeded.\<close>

definition combine_checks :: "bool option \<Rightarrow> bool option \<Rightarrow> bool option" where
  "combine_checks md5_check sha1_check =
     (case (md5_check, sha1_check) of
        (Some l, Some r) \<Rightarrow> Some (l \<and> r)
      | (Some l, None) \<Rightarrow> Some l
      | (None, r) \<Rightarrow> r)"

definition exit_success :: "bool option \<Rightarrow> bool" where
  "exit_success check \<longleftrightarrow> check \<noteq> Some False"

subsection \<open>The run\<close>

definition VERIFY_BUF :: nat where
  "VERIFY_BUF = 1024 * 1024"

text \<open>What a read depends on besides the reader: the schedules of the thread pool, by offset, the codec and the cache.\<close>

record verify_env =
  ve_rayon :: "nat \<Rightarrow> rayon"
  ve_codec :: codec
  ve_cache :: cache
  ve_spoil :: "nat \<Rightarrow> bytes \<Rightarrow> bytes"

text \<open>The updates that the loop passes to the hasher; \<open>None\<close> is a loop that never ends.\<close>

partial_function (option) verify_loop ::
    "verify_env \<Rightarrow> e01_reader \<Rightarrow> e01_state \<Rightarrow> nat \<Rightarrow> (nat \<times> bytes) list \<Rightarrow> ((nat \<times> bytes) list, read_error) result option" where
  "verify_loop env rd st offset log =
     (if offset < er_image_size rd then
        (case e01_read_at_offset (ve_rayon env offset) (ve_codec env) (ve_cache env) (ve_spoil env) rd st offset VERIFY_BUF of
           (Ok bs, st) \<Rightarrow> verify_loop env rd st (u64_add offset (length bs)) (log @ [(length bs, bs)])
         | (Err e, st) \<Rightarrow> Some (Err e)
         | (Panic, st) \<Rightarrow> Some Panic)
      else Some (Ok log))"

text \<open>The hash types to compute: those asked for, and those that are stored.\<close>

definition verify_types :: "verify_args \<Rightarrow> e01_reader \<Rightarrow> hash_type set" where
  "verify_types args rd =
     set (va_extra_hashes args) \<union> (if er_stored_md5 rd \<noteq> None then {MD5} else {}) \<union>
     (if er_stored_sha1 rd \<noteq> None then {SHA1} else {})"

definition log_digests :: "'h hash_alg \<Rightarrow> hash_type set \<Rightarrow> (nat \<times> bytes) list \<Rightarrow> hash_type \<Rightarrow> bytes option" where
  "log_digests alg htypes log t = (if t \<in> htypes then Some (ha_finalize alg (hash_of alg t log)) else None)"

definition verify_reader ::
    "'h hash_alg \<Rightarrow> verify_env \<Rightarrow> verify_args \<Rightarrow> e01_reader \<Rightarrow> e01_state \<Rightarrow> (bool option, verify_error) result option" where
  "verify_reader alg env args rd st =
     map_option (\<lambda>r.
       and_then (map_err VerifyRead r) (\<lambda>log.
         let hashes = log_digests alg (verify_types args rd) log
         in Ok (combine_checks (check_hash (hashes MD5) (er_stored_md5 rd)) (check_hash (hashes SHA1) (er_stored_sha1 rd)))))
       (verify_loop env rd st 0 [])"

definition verify_run ::
    "'h hash_alg \<Rightarrow> 'io e01_sys \<Rightarrow> (cache \<Rightarrow> verify_env) \<Rightarrow> verify_args \<Rightarrow> (bool option, verify_error) result option" where
  "verify_run alg sys env args =
     (case open_glob sys (verify_options args) (va_input args) of
        Ok (rd, st) \<Rightarrow> verify_reader alg (env (es_cache sys (er_slots rd))) args rd st
      | Err e \<Rightarrow> Some (Err (VerifyOpen e))
      | Panic \<Rightarrow> Some Panic)"

subsection \<open>What is printed\<close>

text \<open>The line of \<open>check_hash\<close>.\<close>

definition check_text :: "(bytes \<Rightarrow> string) \<Rightarrow> hash_type \<Rightarrow> bytes option \<Rightarrow> bytes option \<Rightarrow> string list" where
  "check_text hex htype hash_act hash_exp =
     (case hash_act of
        None \<Rightarrow> []
      | Some act \<Rightarrow>
          (case hash_exp of
             Some exp' \<Rightarrow>
               if act \<noteq> exp' then [hash_type_display htype @ '' '' @ hex act @ '' != '' @ hex exp']
               else [hash_type_display htype @ '' '' @ hex act @ '' ok'']
           | None \<Rightarrow> [hash_type_display htype @ '' '' @ hex act @ '' ok'']))"

definition verdict_text :: "bool option \<Rightarrow> string" where
  "verdict_text check =
     (case check of
        Some False \<Rightarrow> ''Hash verification: FAILURE''
      | None \<Rightarrow> ''No hash verification performed''
      | Some True \<Rightarrow> ''Hash verification: SUCCESS'')"

definition verify_text ::
    "(bytes \<Rightarrow> string) \<Rightarrow> (hash_type \<Rightarrow> bytes option) \<Rightarrow> bytes option \<Rightarrow> bytes option \<Rightarrow> string list" where
  "verify_text hex hashes stored_md5 stored_sha1 =
     check_text hex MD5 (hashes MD5) stored_md5 @ check_text hex SHA1 (hashes SHA1) stored_sha1 @
     (case hashes SHA256 of Some d \<Rightarrow> [hash_type_display SHA256 @ '' '' @ hex d] | None \<Rightarrow> []) @
     [verdict_text (combine_checks (check_hash (hashes MD5) stored_md5) (check_hash (hashes SHA1) stored_sha1))]"

text \<open>The lines of a run that ends, none of them before the image has been read.\<close>

definition verify_prints ::
    "'h hash_alg \<Rightarrow> (bytes \<Rightarrow> string) \<Rightarrow> 'io e01_sys \<Rightarrow> (cache \<Rightarrow> verify_env) \<Rightarrow> verify_args \<Rightarrow> string list option" where
  "verify_prints alg hex sys env args =
     (case open_glob sys (verify_options args) (va_input args) of
        Ok (rd, st) \<Rightarrow>
          map_option (\<lambda>r.
            case r of
              Ok log \<Rightarrow> verify_text hex (log_digests alg (verify_types args rd) log) (er_stored_md5 rd) (er_stored_sha1 rd)
            | _ \<Rightarrow> [])
          (verify_loop (env (es_cache sys (er_slots rd))) rd st 0 [])
      | _ \<Rightarrow> Some [])"

subsection \<open>The digests are those of the image\<close>

lemma verify_loop_reads:
  assumes env: "env = \<lparr>ve_rayon = ry, ve_codec = k, ve_cache = c, ve_spoil = spoil\<rparr>"
    and ok: "e01_state_ok k deflate adl c rd D img st" and off: "offset \<le> length img"
    and lim: "length img + VERIFY_BUF < u64_lim"
    and log: "concat (map (\<lambda>(len, bs). take len bs) log) = take offset img"
  shows "\<exists>log'. verify_loop env rd st offset log = Some (Ok log') \<and> concat (map (\<lambda>(len, bs). take len bs) log') = img"
  using ok off log
proof (induction "length img - offset" arbitrary: offset st log rule: less_induct)
  case less
  have len: "er_image_size rd = length img"
    using less.prems(1) by (simp add: e01_state_ok_def holds_decoded_def e01_holds_def)
  show ?case
  proof (cases "offset < length img")
    case True
    let ?n = "min VERIFY_BUF (length img - offset)"
    obtain st' where r: "e01_read_at_offset (ry offset) k c spoil rd st offset VERIFY_BUF = (Ok (sub_list img offset ?n), st')"
      and st': "e01_state_ok k deflate adl c rd D img st'"
      using e01_read_lemma [OF less.prems(1), of offset VERIFY_BUF "ry offset" spoil] True lim len by auto
    have l: "length (sub_list img offset ?n) = ?n" using True by simp
    have u: "u64_add offset ?n = offset + ?n" using True lim by (simp add: min_def)
    have n: "0 < ?n" "offset + ?n \<le> length img" using True by (auto simp: VERIFY_BUF_def)
    have t: "take (offset + ?n) img = take offset img @ sub_list img offset ?n" by (simp add: take_add sub_list_def)
    have "verify_loop env rd st offset log =
        verify_loop env rd st' (offset + ?n) (log @ [(?n, sub_list img offset ?n)])"
      using True r by (subst verify_loop.simps) (simp add: env len l u)
    moreover have "concat (map (\<lambda>(len, bs). take len bs) (log @ [(?n, sub_list img offset ?n)])) = take (offset + ?n) img"
      using less.prems(3) l by (simp add: t)
    moreover have "length img - (offset + ?n) < length img - offset" using n True by linarith
    ultimately show ?thesis using less.hyps [OF _ st' n(2)] by simp
  next
    case False
    then show ?thesis using less.prems by (subst verify_loop.simps) (simp add: len)
  qed
qed

lemma verify_loop_digests:
  assumes "env = \<lparr>ve_rayon = ry, ve_codec = k, ve_cache = c, ve_spoil = spoil\<rparr>" "e01_state_ok k deflate adl c rd D img st"
    and "length img + VERIFY_BUF < u64_lim" "streaming alg"
  obtains log where "verify_loop env rd st 0 [] = Some (Ok log)"
    "log_digests alg T log = (\<lambda>t. if t \<in> T then Some (digest alg t img) else None)"
proof -
  obtain log where log: "verify_loop env rd st 0 [] = Some (Ok log)" "concat (map (\<lambda>(len, bs). take len bs) log) = img"
    using verify_loop_reads [OF assms(1,2) _ assms(3), of 0 "[]"] by auto
  have "log_digests alg T log = (\<lambda>t. if t \<in> T then Some (digest alg t img) else None)"
    by (auto simp: log_digests_def hash_of_streaming [OF assms(4)] log(2) digest_def)
  then show thesis by (rule that [OF log(1)])
qed

lemma verify_reader_lemma:
  assumes "env = \<lparr>ve_rayon = ry, ve_codec = k, ve_cache = c, ve_spoil = spoil\<rparr>" "e01_state_ok k deflate adl c rd D img st"
    and "length img + VERIFY_BUF < u64_lim" "streaming alg"
  shows "verify_reader alg env args rd st =
    Some (Ok (combine_checks
      (check_hash (if MD5 \<in> verify_types args rd then Some (digest alg MD5 img) else None) (er_stored_md5 rd))
      (check_hash (if SHA1 \<in> verify_types args rd then Some (digest alg SHA1 img) else None) (er_stored_sha1 rd))))"
  by (rule verify_loop_digests [OF assms, of "verify_types args rd"]) (simp add: verify_reader_def Let_def)

text \<open>C16: verifying an image whose chunks are all there ends with a verdict, and the verdict is right: it is a failure
  exactly when an MD5 or SHA1 is stored that is not the hash of the image, and there is none exactly when
  neither is stored or asked for; whatever the options, the schedules and the cuts between reads.\<close>

theorem verify_verdict:
  assumes "open_glob sys (verify_options args) (va_input args) = Ok (rd, st)"
    and "e01_state_ok k deflate adl (es_cache sys (er_slots rd)) rd D img st"
    and "length img + VERIFY_BUF < u64_lim" "streaming alg"
  shows "\<exists>v. verify_run alg sys (\<lambda>c. \<lparr>ve_rayon = ry, ve_codec = k, ve_cache = c, ve_spoil = spoil\<rparr>) args = Some (Ok v) \<and>
    (exit_success v \<longleftrightarrow> (\<forall>h. er_stored_md5 rd = Some h \<longrightarrow> h = digest alg MD5 img) \<and>
      (\<forall>h. er_stored_sha1 rd = Some h \<longrightarrow> h = digest alg SHA1 img)) \<and>
    (v = None \<longleftrightarrow> er_stored_md5 rd = None \<and> er_stored_sha1 rd = None \<and> MD5 \<notin> set (va_extra_hashes args) \<and>
      SHA1 \<notin> set (va_extra_hashes args))"
proof -
  let ?m = "er_stored_md5 rd" and ?s = "er_stored_sha1 rd"
  let ?v = "combine_checks
      (check_hash (if MD5 \<in> verify_types args rd then Some (digest alg MD5 img) else None) ?m)
      (check_hash (if SHA1 \<in> verify_types args rd then Some (digest alg SHA1 img) else None) ?s)"
  have t: "MD5 \<in> verify_types args rd \<longleftrightarrow> MD5 \<in> set (va_extra_hashes args) \<or> ?m \<noteq> None"
    "SHA1 \<in> verify_types args rd \<longleftrightarrow> SHA1 \<in> set (va_extra_hashes args) \<or> ?s \<noteq> None"
    by (auto simp: verify_types_def)
  show ?thesis
  proof (intro exI [of _ ?v] conjI)
    show "verify_run alg sys (\<lambda>c. \<lparr>ve_rayon = ry, ve_codec = k, ve_cache = c, ve_spoil = spoil\<rparr>) args = Some (Ok ?v)"
      using assms(1) verify_reader_lemma [OF refl assms(2-4)] by (simp add: verify_run_def)
    show "exit_success ?v \<longleftrightarrow>
        (\<forall>h. ?m = Some h \<longrightarrow> h = digest alg MD5 img) \<and> (\<forall>h. ?s = Some h \<longrightarrow> h = digest alg SHA1 img)"
      unfolding t by (cases ?m; cases ?s) (auto simp: exit_success_def combine_checks_def check_hash_def)
    show "?v = None \<longleftrightarrow>
        ?m = None \<and> ?s = None \<and> MD5 \<notin> set (va_extra_hashes args) \<and> SHA1 \<notin> set (va_extra_hashes args)"
      unfolding t by (cases ?m; cases ?s) (auto simp: combine_checks_def check_hash_def)
  qed
qed

subsection \<open>A small image\<close>

definition sample_args :: verify_args where
  "sample_args = \<lparr>va_input = ''i.E01'', va_extra_hashes = [MD5], va_ignore_checksums = False, va_parallel_chunks = True,
     va_parallel_threads = 4, va_decoded_chunk_cache = False\<rparr>"

definition sample_env :: "cache \<Rightarrow> verify_env" where
  "sample_env c = \<lparr>ve_rayon = (\<lambda>off. \<lparr>ry_schedule = [1, 0], ry_pick = 0\<rparr>), ve_codec = plain_codec, ve_cache = c, ve_spoil = (\<lambda>off bs. bs)\<rparr>"

text \<open>C40: on an image whose chunks are all there and that stores neither an MD5 nor a SHA1 the program has nothing to
  compare with.  Yet it prints \<open>ok\<close> after the MD5 and after the SHA1 that were asked for, and when one of them was it
  ends with \<open>Hash verification: SUCCESS\<close>; only when neither was, a SHA256 or none, it says that no
  verification was performed.\<close>

theorem nothing_stored_is_success:
  assumes "open_glob sys (verify_options args) (va_input args) = Ok (rd, st)"
    and "er_stored_md5 rd = None" "er_stored_sha1 rd = None"
    and "e01_state_ok k deflate adl (es_cache sys (er_slots rd)) rd D img st"
    and "length img + VERIFY_BUF < u64_lim" "streaming alg"
  shows "let env = (\<lambda>c. \<lparr>ve_rayon = ry, ve_codec = k, ve_cache = c, ve_spoil = spoil\<rparr>);
      asked = (\<lambda>t. t \<in> set (va_extra_hashes args))
    in verify_run alg sys env args = Some (Ok (if asked MD5 \<or> asked SHA1 then Some True else None)) \<and>
       verify_prints alg hex sys env args = Some (
         (if asked MD5 then [''MD5 '' @ hex (digest alg MD5 img) @ '' ok''] else []) @
         (if asked SHA1 then [''SHA1 '' @ hex (digest alg SHA1 img) @ '' ok''] else []) @
         (if asked SHA256 then [''SHA256 '' @ hex (digest alg SHA256 img)] else []) @
         [if asked MD5 \<or> asked SHA1 then ''Hash verification: SUCCESS'' else ''No hash verification performed''])"
proof -
  let ?e = "\<lparr>ve_rayon = ry, ve_codec = k, ve_cache = es_cache sys (er_slots rd), ve_spoil = spoil\<rparr>"
  have t: "verify_types args rd = set (va_extra_hashes args)" using assms(2,3) by (simp add: verify_types_def)
  have run: "verify_reader alg ?e args rd st =
      Some (Ok (if MD5 \<in> set (va_extra_hashes args) \<or> SHA1 \<in> set (va_extra_hashes args) then Some True else None))"
    using verify_reader_lemma [OF refl assms(4-6), where args = args] assms(2,3)
    by (simp add: t check_hash_def combine_checks_def)
  obtain log where "verify_loop ?e rd st 0 [] = Some (Ok log)"
    "log_digests alg (set (va_extra_hashes args)) log =
       (\<lambda>t. if t \<in> set (va_extra_hashes args) then Some (digest alg t img) else None)"
    by (rule verify_loop_digests [OF refl assms(4-6), where T = "set (va_extra_hashes args)"])
  then show ?thesis
    using run assms(1-3)
    by (simp add: verify_run_def verify_prints_def t verify_text_def check_text_def hash_type_display_def check_hash_def
        combine_checks_def verdict_text_def Let_def)
qed

lemma sample_img_lim: "length (sp_img sample_spec) + VERIFY_BUF < u64_lim"
  by (simp add: sample_spec_def VERIFY_BUF_def u64_lim_def)

text \<open>With digests kept as they are and printed as one sign for each byte.\<close>

theorem nothing_stored_is_success_witness:
  "verify_run keep_alg (file_sys ''i.E01'' sample_written) sample_env sample_args = Some (Ok (Some True)) \<and>
   (\<exists>d. verify_prints keep_alg (map (\<lambda>_. CHR ''x'')) (file_sys ''i.E01'' sample_written) sample_env sample_args =
      Some [''MD5 '' @ d @ '' ok'', ''Hash verification: SUCCESS''])"
proof -
  obtain pool where o: "open_glob (file_sys ''i.E01'' sample_written) (verify_options sample_args) (va_input sample_args) =
    Ok (written_reader plain_stream byte_sum sample_spec (verify_options sample_args) ''i.E01'' sample_written pool,
      opened_state (verify_options sample_args))" using sample_open_glob [of "verify_options sample_args"] by (auto simp: verify_options_def sample_args_def)
  have n: "er_stored_md5 (written_reader plain_stream byte_sum sample_spec (verify_options sample_args) ''i.E01'' sample_written pool) = None"
    "er_stored_sha1 (written_reader plain_stream byte_sum sample_spec (verify_options sample_args) ''i.E01'' sample_written pool) = None"
    "va_extra_hashes sample_args = [MD5]"
    by (simp_all add: written_reader_def sample_args_def)
  have e: "sample_env = (\<lambda>c. \<lparr>ve_rayon = (\<lambda>off. \<lparr>ry_schedule = [1, 0], ry_pick = 0\<rparr>), ve_codec = plain_codec, ve_cache = c,
      ve_spoil = (\<lambda>off bs. bs)\<rparr>)"
    by (simp add: sample_env_def fun_eq_iff)
  show ?thesis
    using nothing_stored_is_success [OF o n(1,2) sample_written_state sample_img_lim keep_alg_streaming,
        of "\<lambda>off. \<lparr>ry_schedule = [1, 0], ry_pick = 0\<rparr>" "\<lambda>off bs. bs" "map (\<lambda>_. CHR ''x'')"]
    unfolding e Let_def n(3) by auto
qed

theorem verify_verdict_witness:
  "\<exists>v. verify_run keep_alg (file_sys ''i.E01'' sample_written) sample_env sample_args = Some (Ok v) \<and> exit_success v \<and> v \<noteq> None"
proof -
  obtain pool where o: "open_glob (file_sys ''i.E01'' sample_written) (verify_options sample_args) (va_input sample_args) =
    Ok (written_reader plain_stream byte_sum sample_spec (verify_options sample_args) ''i.E01'' sample_written pool,
      opened_state (verify_options sample_args))" using sample_open_glob [of "verify_options sample_args"] by (auto simp: verify_options_def sample_args_def)
  let ?rd = "written_reader plain_stream byte_sum sample_spec (verify_options sample_args) ''i.E01'' sample_written pool"
  have "er_stored_md5 ?rd = None" "er_stored_sha1 ?rd = None" "MD5 \<in> set (va_extra_hashes sample_args)"
    by (simp_all add: written_reader_def sample_args_def)
  then show ?thesis
    using verify_verdict [OF o sample_written_state sample_img_lim keep_alg_streaming, of "\<lambda>off. \<lparr>ry_schedule = [1, 0], ry_pick = 0\<rparr>" "\<lambda>off bs. bs"]
    unfolding sample_env_def [abs_def] by auto
qed

end
