(* ===== verification/FetchLatch.thy ===== *)
theory FetchLatch
  imports BlockCache
begin

text \<open>
  \<open>GroupLatch\<close> and \<open>FetchLimiter\<close> at work: tasks that want groups of blocks, the map of fetches in flight and the
  permits, as a step relation.  A task is at one of the points at which \<open>GroupLatch::fetch\<close> and \<open>fetch_range\<close>
  can wait; the map holds for a group the number of the task that made its fetch.  A demand comes without a
  permit, a prefetch brings the one that \<open>try_permit\<close> gave it.  A source may answer anything, panics included.
  Callers that go away before their answer are not modelled.

  Shown: whatever the interleaving, no more reads of sources than permits and never two for one group;
  who joins a fetch gets what its owner gets; and nothing is ever stuck, so every run ends with an answer
  for every task.
\<close>

subsection \<open>States and steps\<close>

text \<open>The keys of groups are of any type \<open>'k\<close>; those of the code are pairs of a source and an offset (\<open>block_key\<close>).\<close>

type_synonym answer = "(bytes, io_error) result"

datatype 'k fetch_phase =
    Arriving 'k bool
  | Joining 'k nat
  | Waiting 'k
  | Reading 'k
  | Retiring 'k answer
  | Answered 'k bool answer

record 'k latch_state =
  ls_inflight :: "'k \<rightharpoonup> nat"
  ls_free :: nat
  ls_tasks :: "'k fetch_phase list"

definition latch_init :: "nat \<Rightarrow> 'k latch_state" where
  "latch_init max_inflight = \<lparr>ls_inflight = Map.empty, ls_free = limiter_permits max_inflight, ls_tasks = []\<rparr>"

definition give_back :: "bool \<Rightarrow> nat \<Rightarrow> nat" where
  "give_back permit free = (if permit then free + 1 else free)"

inductive latch_work :: "'k latch_state \<Rightarrow> 'k latch_state \<Rightarrow> bool" where
  join: "i < length (ls_tasks s) \<Longrightarrow> ls_tasks s ! i = Arriving key permit \<Longrightarrow> ls_inflight s key = Some j \<Longrightarrow>
    latch_work s (s\<lparr>ls_free := give_back permit (ls_free s), ls_tasks := (ls_tasks s)[i := Joining key j]\<rparr>)"
| own: "i < length (ls_tasks s) \<Longrightarrow> ls_tasks s ! i = Arriving key permit \<Longrightarrow> ls_inflight s key = None \<Longrightarrow>
    latch_work s (s\<lparr>ls_inflight := (ls_inflight s)(key \<mapsto> i),
      ls_tasks := (ls_tasks s)[i := if permit then Reading key else Waiting key]\<rparr>)"
| acquire: "i < length (ls_tasks s) \<Longrightarrow> ls_tasks s ! i = Waiting key \<Longrightarrow> 0 < ls_free s \<Longrightarrow>
    latch_work s (s\<lparr>ls_free := ls_free s - 1, ls_tasks := (ls_tasks s)[i := Reading key]\<rparr>)"
| answer: "i < length (ls_tasks s) \<Longrightarrow> ls_tasks s ! i = Reading key \<Longrightarrow>
    latch_work s (s\<lparr>ls_free := ls_free s + 1, ls_tasks := (ls_tasks s)[i := Retiring key (catch_unwind r)]\<rparr>)"
| retire: "i < length (ls_tasks s) \<Longrightarrow> ls_tasks s ! i = Retiring key r \<Longrightarrow>
    latch_work s (s\<lparr>ls_inflight := (ls_inflight s)(key := None), ls_tasks := (ls_tasks s)[i := Answered key True r]\<rparr>)"
| deliver: "i < length (ls_tasks s) \<Longrightarrow> ls_tasks s ! i = Joining key j \<Longrightarrow> j < length (ls_tasks s) \<Longrightarrow>
    ls_tasks s ! j = Answered key True r \<Longrightarrow>
    latch_work s (s\<lparr>ls_tasks := (ls_tasks s)[i := Answered key False r]\<rparr>)"

inductive latch_step :: "'k latch_state \<Rightarrow> 'k latch_state \<Rightarrow> bool" where
  work: "latch_work s s' \<Longrightarrow> latch_step s s'"
| demand: "latch_step s (s\<lparr>ls_tasks := ls_tasks s @ [Arriving key False]\<rparr>)"
| prefetch: "0 < ls_free s \<Longrightarrow> latch_step s (s\<lparr>ls_free := ls_free s - 1, ls_tasks := ls_tasks s @ [Arriving key True]\<rparr>)"

inductive_cases latch_workE: "latch_work s s'"
inductive_cases latch_stepE: "latch_step s s'"

subsection \<open>The invariant\<close>

fun owns :: "'k fetch_phase \<Rightarrow> 'k option" where
  "owns (Waiting key) = Some key"
| "owns (Reading key) = Some key"
| "owns (Retiring key r) = Some key"
| "owns p = None"

fun holds_permit :: "'k fetch_phase \<Rightarrow> bool" where
  "holds_permit (Arriving key permit) = permit"
| "holds_permit (Reading key) = True"
| "holds_permit p = False"

fun is_reading :: "'k fetch_phase \<Rightarrow> bool" where
  "is_reading (Reading key) = True"
| "is_reading p = False"

text \<open>What a task may rest on in the tasks \<open>ts\<close>.\<close>

fun phase_ok :: "'k fetch_phase list \<Rightarrow> 'k fetch_phase \<Rightarrow> bool" where
  "phase_ok ts (Joining key j) \<longleftrightarrow> j < length ts \<and> (owns (ts ! j) = Some key \<or> (\<exists>r. ts ! j = Answered key True r))"
| "phase_ok ts (Retiring key r) \<longleftrightarrow> r \<noteq> Panic"
| "phase_ok ts (Answered key owner r) \<longleftrightarrow> r \<noteq> Panic \<and> (\<not> owner \<longrightarrow> Answered key True r \<in> set ts)"
| "phase_ok ts p \<longleftrightarrow> True"

definition latch_inv :: "nat \<Rightarrow> 'k latch_state \<Rightarrow> bool" where
  "latch_inv permits s \<longleftrightarrow>
     (\<forall>key j. ls_inflight s key = Some j \<longleftrightarrow> j < length (ls_tasks s) \<and> owns (ls_tasks s ! j) = Some key) \<and>
     ls_free s + length (filter holds_permit (ls_tasks s)) = permits \<and>
     (\<forall>i < length (ls_tasks s). phase_ok (ls_tasks s) (ls_tasks s ! i))"

lemma count_update:
  assumes "i < length xs"
  shows "length (filter P (xs[i := y])) + (if P (xs ! i) then 1 else 0) = length (filter P xs) + (if P y then 1 else 0)"
  using assms
proof (induction xs arbitrary: i)
  case (Cons x xs)
  then show ?case by (cases i) auto
qed simp

text \<open>A task that goes on and does not lose its answer leaves the others what they rest on.\<close>

lemma phase_ok_update:
  assumes "phase_ok ts p" "i < length ts"
    and "\<And>key. owns (ts ! i) = Some key \<Longrightarrow> owns q = Some key \<or> (\<exists>r. q = Answered key True r)"
    and "\<And>key r. ts ! i \<noteq> Answered key True r"
  shows "phase_ok (ts[i := q]) p"
proof (cases p)
  case (Joining key j)
  then show ?thesis using assms by (cases "j = i") auto
next
  case (Answered key owner r)
  have "Answered key True r \<in> set (ts[i := q])" if mem: "Answered key True r \<in> set ts"
  proof -
    obtain j where j: "j < length ts" "ts ! j = Answered key True r" using mem unfolding in_set_conv_nth by blast
    then have "j \<noteq> i" using assms(4) by auto
    then show ?thesis using j by (auto simp: in_set_conv_nth intro!: exI [of _ j])
  qed
  then show ?thesis using assms(1) Answered by auto
qed (use assms(1) in auto)

lemma phases_update:
  assumes "\<forall>j < length ts. phase_ok ts (ts ! j)" "i < length ts"
    and "\<And>key. owns (ts ! i) = Some key \<Longrightarrow> owns q = Some key \<or> (\<exists>r. q = Answered key True r)"
    and "\<And>key r. ts ! i \<noteq> Answered key True r" "phase_ok (ts[i := q]) q"
  shows "\<forall>j < length (ts[i := q]). phase_ok (ts[i := q]) (ts[i := q] ! j)"
proof (intro allI impI)
  fix j assume "j < length (ts[i := q])"
  then show "phase_ok (ts[i := q]) (ts[i := q] ! j)"
    using assms(1,2,5) phase_ok_update [OF _ assms(2-4)] by (cases "j = i") auto
qed

lemma latch_invD:
  assumes "latch_inv permits s"
  shows "ls_inflight s key = Some j \<longleftrightarrow> j < length (ls_tasks s) \<and> owns (ls_tasks s ! j) = Some key"
    "ls_free s + length (filter holds_permit (ls_tasks s)) = permits"
    "\<forall>j < length (ls_tasks s). phase_ok (ls_tasks s) (ls_tasks s ! j)"
  using assms unfolding latch_inv_def by blast+

lemma latch_update:
  assumes inv: "latch_inv permits s" and i: "i < length (ls_tasks s)" and ts: "ls_tasks s' = (ls_tasks s)[i := q]"
    and m: "\<And>key j. ls_inflight s' key = Some j \<longleftrightarrow>
      j < length (ls_tasks s) \<and> owns (if j = i then q else ls_tasks s ! j) = Some key"
    and f: "ls_free s' + (if holds_permit q then 1 else 0) = ls_free s + (if holds_permit (ls_tasks s ! i) then 1 else 0)"
    and o': "\<And>key. owns (ls_tasks s ! i) = Some key \<Longrightarrow> owns q = Some key \<or> (\<exists>r. q = Answered key True r)"
    and a: "\<And>key r. ls_tasks s ! i \<noteq> Answered key True r" and q: "phase_ok ((ls_tasks s)[i := q]) q"
  shows "latch_inv permits s'"
proof -
  note d = latch_invD [OF inv]
  have "ls_free s' + length (filter holds_permit ((ls_tasks s)[i := q])) = permits"
    using f d(2) count_update [OF i, of holds_permit q] by (simp split: if_splits)
  moreover have "ls_inflight s' key = Some j \<longleftrightarrow> j < length ((ls_tasks s)[i := q]) \<and> owns ((ls_tasks s)[i := q] ! j) = Some key" for key j
    using m i by (simp add: nth_list_update)
  ultimately show ?thesis using phases_update [OF d(3) i o' a q] unfolding latch_inv_def ts by blast
qed

lemma latch_work_inv:
  assumes "latch_work s s'" "latch_inv permits s"
  shows "latch_inv permits s'"
  using assms
proof (induction rule: latch_work.induct)
  case (join i s key permit j)
  note d = latch_invD [OF join.prems]
  have j: "j < length (ls_tasks s)" "owns (ls_tasks s ! j) = Some key" using d(1) join.hyps(3) by blast+
  then have "j \<noteq> i" using join.hyps(2) by auto
  then show ?case
    by (intro latch_update [OF join.prems join.hyps(1), where q = "Joining key j"])
      (use join.hyps d(1) j in \<open>auto simp: give_back_def\<close>)
next
  case (own i s key permit)
  note d = latch_invD [OF own.prems]
  have "ls_inflight s k = Some j \<Longrightarrow> k \<noteq> key \<and> j \<noteq> i" for k j using d(1) [of k j] own.hyps by auto
  then show ?case
    by (intro latch_update [OF own.prems own.hyps(1), where q = "if permit then Reading key else Waiting key"])
      (use own.hyps d(1) in \<open>auto split: if_splits\<close>)
next
  case (acquire i s key)
  note d = latch_invD [OF acquire.prems]
  show ?case
    by (intro latch_update [OF acquire.prems acquire.hyps(1), where q = "Reading key"])
      (use acquire.hyps d(1) in \<open>auto split: if_splits\<close>)
next
  case (answer i s key r)
  note d = latch_invD [OF answer.prems]
  have "catch_unwind r \<noteq> Panic" by (simp add: catch_unwind_def split: result.splits)
  then show ?case
    by (intro latch_update [OF answer.prems answer.hyps(1), where q = "Retiring key (catch_unwind r)"])
      (use answer.hyps d(1) in \<open>auto split: if_splits\<close>)
next
  case (retire i s key r)
  note d = latch_invD [OF retire.prems]
  have "r \<noteq> Panic" using d(3) retire.hyps by fastforce
  moreover have "ls_inflight s key = Some i" using d(1) [of key i] retire.hyps by simp
  then have u: "j < length (ls_tasks s) \<Longrightarrow> owns (ls_tasks s ! j) = Some key \<Longrightarrow> j = i" for j
    using d(1) [of key j] by simp
  have "((ls_inflight s)(key := None)) k = Some j \<longleftrightarrow>
      j < length (ls_tasks s) \<and> owns (if j = i then Answered key True r else ls_tasks s ! j) = Some k" for k j
  proof (cases "k = key")
    case True
    then show ?thesis using u [of j] by auto
  next
    case False
    then show ?thesis using d(1) [of k j] retire.hyps(2) by auto
  qed
  ultimately show ?case
    by (intro latch_update [OF retire.prems retire.hyps(1), where q = "Answered key True r"])
      (simp_all add: retire.hyps(2))
next
  case (deliver i s key j r)
  note d = latch_invD [OF deliver.prems]
  have "r \<noteq> Panic" using d(3) deliver.hyps by fastforce
  moreover have "Answered key True r \<in> set ((ls_tasks s)[i := Answered key False r])"
    using deliver.hyps by (auto simp: in_set_conv_nth nth_list_update intro!: exI [of _ j])
  ultimately show ?case
    by (intro latch_update [OF deliver.prems deliver.hyps(1), where q = "Answered key False r"])
      (use deliver.hyps d(1) in \<open>auto split: if_splits\<close>)
qed

lemma latch_step_inv: "latch_step s s' \<Longrightarrow> latch_inv permits s \<Longrightarrow> latch_inv permits s'"
proof (induction rule: latch_step.induct)
  case (work s s')
  then show ?case by (blast intro: latch_work_inv)
next
  case (demand s key)
  note d = latch_invD [OF demand]
  have "phase_ok (ls_tasks s @ [q]) p" if "phase_ok (ls_tasks s) p" for p q
    using that by (cases p) (auto simp: nth_append)
  then show ?case using d by (auto simp: latch_inv_def nth_append less_Suc_eq)
next
  case (prefetch s key)
  note d = latch_invD [OF prefetch.prems]
  have "phase_ok (ls_tasks s @ [q]) p" if "phase_ok (ls_tasks s) p" for p q
    using that by (cases p) (auto simp: nth_append)
  then show ?case using d prefetch.hyps by (auto simp: latch_inv_def nth_append less_Suc_eq)
qed

lemma latch_reachable: "latch_step\<^sup>*\<^sup>* (latch_init n) s \<Longrightarrow> latch_inv (limiter_permits n) s"
proof (induction rule: rtranclp_induct)
  case base
  show ?case by (simp add: latch_inv_def latch_init_def)
next
  case (step s s')
  then show ?case by (blast intro: latch_step_inv)
qed

text \<open>C9: in every interleaving of demands and prefetches no more sources are read at once than there are permits (one
  when the limit asked for is 0), no two tasks fetch the same group at once, every task that joined gets the
  answer of a task that fetched its group, and a panic of a source reaches nobody as a panic.\<close>

theorem fetches_bounded_and_joined:
  assumes "latch_step\<^sup>*\<^sup>* (latch_init max_inflight) s"
  shows "length (filter is_reading (ls_tasks s)) \<le> max max_inflight 1 \<and>
    (\<forall>i j key. i < length (ls_tasks s) \<and> j < length (ls_tasks s) \<and> owns (ls_tasks s ! i) = Some key \<and>
       owns (ls_tasks s ! j) = Some key \<longrightarrow> i = j) \<and>
    (\<forall>key owner r. Answered key owner r \<in> set (ls_tasks s) \<longrightarrow> r \<noteq> Panic \<and> Answered key True r \<in> set (ls_tasks s))"
proof -
  note d = latch_invD [OF latch_reachable [OF assms]]
  have "is_reading p \<longrightarrow> holds_permit p" for p by (cases p) auto
  then have "length (filter is_reading ts) \<le> length (filter holds_permit ts)" for ts by (induction ts) auto
  moreover have "length (filter holds_permit (ls_tasks s)) \<le> max max_inflight 1"
    using d(2) by (auto simp: limiter_permits_def split: if_splits)
  ultimately have "length (filter is_reading (ls_tasks s)) \<le> max max_inflight 1" by (rule le_trans)
  moreover have "i = j" if "i < length (ls_tasks s)" "j < length (ls_tasks s)" "owns (ls_tasks s ! i) = Some key"
    "owns (ls_tasks s ! j) = Some key" for i j key
    using d(1) [of key i] d(1) [of key j] that by simp
  moreover have "r \<noteq> Panic \<and> Answered key True r \<in> set (ls_tasks s)" if a: "Answered key owner r \<in> set (ls_tasks s)" for key owner r
  proof -
    have "phase_ok (ls_tasks s) (Answered key owner r)" using d(3) a unfolding in_set_conv_nth by fastforce
    then show ?thesis using a by (cases owner) auto
  qed
  ultimately show ?thesis by blast
qed

subsection \<open>Every run ends\<close>

fun to_go :: "'k fetch_phase \<Rightarrow> nat" where
  "to_go (Arriving key permit) = 4"
| "to_go (Waiting key) = 3"
| "to_go (Reading key) = 2"
| "to_go (Retiring key r) = 1"
| "to_go (Joining key j) = 1"
| "to_go (Answered key owner r) = 0"

definition work_left :: "'k latch_state \<Rightarrow> nat" where
  "work_left s = sum_list (map to_go (ls_tasks s))"

lemma sum_list_update_less:
  fixes f :: "'a \<Rightarrow> nat"
  assumes "i < length xs" "f y < f (xs ! i)"
  shows "sum_list (map f (xs[i := y])) < sum_list (map f xs)"
  using assms
proof (induction xs arbitrary: i)
  case (Cons x xs)
  then show ?case by (cases i) auto
qed simp

lemma latch_work_decreases: "latch_work s s' \<Longrightarrow> work_left s' < work_left s"
  by (induction rule: latch_work.induct) (auto simp: work_left_def intro!: sum_list_update_less)

definition all_answered :: "'k latch_state \<Rightarrow> bool" where
  "all_answered s \<longleftrightarrow> (\<forall>p \<in> set (ls_tasks s). to_go p = 0)"

lemma arriving_works:
  assumes "i < length (ls_tasks s)" "ls_tasks s ! i = Arriving key permit"
  shows "\<exists>s'. latch_work s s'"
  using latch_work.join [OF assms] latch_work.own [OF assms] by (cases "ls_inflight s key") auto

lemma owner_works:
  assumes inv: "latch_inv permits s" and "0 < permits" and i: "i < length (ls_tasks s)" and o': "owns (ls_tasks s ! i) = Some key"
  shows "\<exists>s'. latch_work s s'"
proof (cases "ls_tasks s ! i")
  case (Waiting k)
  show ?thesis
  proof (cases "0 < ls_free s")
    case True
    then show ?thesis using latch_work.acquire [OF i Waiting] by blast
  next
    case False
    then have "0 < length (filter holds_permit (ls_tasks s))" using latch_invD(2) [OF inv] assms(2) by simp
    then obtain p where "p \<in> set (ls_tasks s)" "holds_permit p" by (auto simp: filter_empty_conv)
    then obtain j where j: "j < length (ls_tasks s)" "holds_permit (ls_tasks s ! j)" unfolding in_set_conv_nth by blast
    then show ?thesis using arriving_works [OF j(1)] latch_work.answer [OF j(1)] by (cases "ls_tasks s ! j") auto
  qed
next
  case (Reading k)
  then show ?thesis using latch_work.answer [OF i] by blast
next
  case (Retiring k r)
  then show ?thesis using latch_work.retire [OF i] by blast
qed (use o' in auto)

lemma latch_progress:
  assumes inv: "latch_inv permits s" and "0 < permits" and "\<not> all_answered s"
  shows "\<exists>s'. latch_work s s'"
proof -
  obtain p where "p \<in> set (ls_tasks s)" "to_go p \<noteq> 0" using assms(3) by (auto simp: all_answered_def)
  then obtain i where i: "i < length (ls_tasks s)" "to_go (ls_tasks s ! i) \<noteq> 0" unfolding in_set_conv_nth by blast
  show ?thesis
  proof (cases "ls_tasks s ! i")
    case (Arriving key permit)
    then show ?thesis by (rule arriving_works [OF i(1)])
  next
    case (Joining key j)
    then have "phase_ok (ls_tasks s) (Joining key j)" using latch_invD(3) [OF inv] i(1) by metis
    then have j: "j < length (ls_tasks s)" "owns (ls_tasks s ! j) = Some key \<or> (\<exists>r. ls_tasks s ! j = Answered key True r)" by auto
    then show ?thesis using owner_works [OF assms(1,2) j(1)] latch_work.deliver [OF i(1) Joining j(1)] by blast
  qed (use owner_works [OF assms(1,2) i(1)] i(2) in auto)
qed

lemma latch_finishes:
  assumes "latch_inv permits s" "0 < permits"
  shows "\<exists>s'. latch_work\<^sup>*\<^sup>* s s' \<and> all_answered s'"
  using assms(1)
proof (induction "work_left s" arbitrary: s rule: less_induct)
  case less
  show ?case
  proof (cases "all_answered s")
    case False
    then obtain t where t: "latch_work s t" using latch_progress [OF less.prems assms(2)] by blast
    then obtain s' where "latch_work\<^sup>*\<^sup>* t s'" "all_answered s'"
      using less.hyps [OF latch_work_decreases latch_work_inv] less.prems by blast
    then show ?thesis using t by (meson converse_rtranclp_into_rtranclp)
  qed blast
qed

lemma latch_run_bounded: "(latch_work ^^ n) s s' \<Longrightarrow> n + work_left s' \<le> work_left s"
proof (induction n arbitrary: s')
  case (Suc n)
  then obtain t where "(latch_work ^^ n) s t" "latch_work t s'" by auto
  then show ?case using Suc.IH [of t] latch_work_decreases [of t s'] by simp
qed simp

text \<open>C22: nothing is ever stuck: from every state that demands and prefetches can reach, whatever the sources
  answer, the tasks can go on until every one has its answer; and without new tasks every run ends,
  after at most four steps for each task.\<close>

theorem every_fetch_is_answered:
  fixes s :: "'k latch_state"
  assumes "latch_step\<^sup>*\<^sup>* (latch_init max_inflight) s"
  shows "(\<exists>s'. latch_work\<^sup>*\<^sup>* s s' \<and> all_answered s') \<and>
    (\<forall>n s'. (latch_work ^^ n) s s' \<longrightarrow> n \<le> 4 * length (ls_tasks s) \<and> (all_answered s' \<or> (\<exists>t. latch_work s' t)))"
proof -
  note inv = latch_reachable [OF assms]
  have pos: "0 < limiter_permits max_inflight" by (simp add: limiter_permits_def)
  have "to_go p \<le> 4" for p :: "'k fetch_phase" by (cases p) auto
  then have "sum_list (map to_go ts) \<le> 4 * length ts" for ts :: "'k fetch_phase list"
    by (induction ts) (simp_all add: add_mono)
  then have w: "work_left s \<le> 4 * length (ls_tasks s)" by (simp add: work_left_def)
  have i: "latch_inv (limiter_permits max_inflight) s'" if "(latch_work ^^ n) s s'" for n s'
    using that
  proof (induction n arbitrary: s')
    case 0
    then show ?case using inv by simp
  next
    case (Suc n)
    then show ?case by (auto intro: latch_work_inv)
  qed
  show ?thesis
    using latch_finishes [OF inv pos] latch_run_bounded [of _ s] w latch_progress [OF i pos] by (meson add_leD1 le_trans)
qed

subsection \<open>Two demands for one group\<close>

definition sample_latch :: "nat fetch_phase list \<Rightarrow> (nat \<rightharpoonup> nat) \<Rightarrow> nat \<Rightarrow> nat latch_state" where
  "sample_latch ts m free = \<lparr>ls_inflight = m, ls_free = free, ls_tasks = ts\<rparr>"

lemma sample_latch_run:
  "latch_step\<^sup>*\<^sup>* (latch_init 0) (sample_latch [Arriving 7 False, Arriving 7 False] Map.empty 1)"
  "latch_step\<^sup>*\<^sup>* (sample_latch [Arriving 7 False, Arriving 7 False] Map.empty 1)
     (sample_latch [Reading 7, Joining 7 0] [7 \<mapsto> 0] 0)"
proof -
  note S = sample_latch_def and W = latch_step.work
  have "latch_step (latch_init 0) (sample_latch [Arriving 7 False] Map.empty 1)"
    using latch_step.demand [of "latch_init 0" 7] by (simp add: S latch_init_def limiter_permits_def)
  moreover have "latch_step (sample_latch [Arriving 7 False] Map.empty 1) (sample_latch [Arriving 7 False, Arriving 7 False] Map.empty 1)"
    using latch_step.demand [of "sample_latch [Arriving 7 False] Map.empty 1" 7] by (simp add: S)
  ultimately show "latch_step\<^sup>*\<^sup>* (latch_init 0) (sample_latch [Arriving 7 False, Arriving 7 False] Map.empty 1)" by simp
  have "latch_step (sample_latch [Arriving 7 False, Arriving 7 False] Map.empty 1) (sample_latch [Waiting 7, Arriving 7 False] [7 \<mapsto> 0] 1)"
    using W [OF latch_work.own [of 0 "sample_latch [Arriving 7 False, Arriving 7 False] Map.empty 1" 7 False]] by (simp add: S)
  moreover have "latch_step (sample_latch [Waiting 7, Arriving 7 False] [7 \<mapsto> 0] 1) (sample_latch [Waiting 7, Joining 7 0] [7 \<mapsto> 0] 1)"
    using W [OF latch_work.join [of 1 "sample_latch [Waiting 7, Arriving 7 False] [7 \<mapsto> 0] 1" 7 False 0]] by (simp add: S give_back_def)
  moreover have "latch_step (sample_latch [Waiting 7, Joining 7 0] [7 \<mapsto> 0] 1) (sample_latch [Reading 7, Joining 7 0] [7 \<mapsto> 0] 0)"
    using W [OF latch_work.acquire [of 0 "sample_latch [Waiting 7, Joining 7 0] [7 \<mapsto> 0] 1" 7]] by (simp add: S)
  ultimately show "latch_step\<^sup>*\<^sup>* (sample_latch [Arriving 7 False, Arriving 7 False] Map.empty 1)
     (sample_latch [Reading 7, Joining 7 0] [7 \<mapsto> 0] 0)"
    by (meson converse_rtranclp_into_rtranclp rtranclp.rtrancl_refl)
qed

theorem fetches_bounded_and_joined_witness:
  "length (filter is_reading (ls_tasks (sample_latch [Reading 7, Joining 7 0] [7 \<mapsto> 0] 0))) = 1 \<and>
   length (filter is_reading (ls_tasks (sample_latch [Reading 7, Joining 7 0] [7 \<mapsto> 0] 0))) \<le> max 0 1"
  using fetches_bounded_and_joined [OF rtranclp_trans [OF sample_latch_run]] by (simp add: sample_latch_def)

theorem every_fetch_is_answered_witness:
  "\<exists>s'. latch_work\<^sup>*\<^sup>* (sample_latch [Arriving 7 False, Arriving 7 False] Map.empty 1) s' \<and> all_answered s'"
  using every_fetch_is_answered [OF sample_latch_run(1)] by blast

end
