(* ===== verification/CApi.thy ===== *)
theory CApi
  imports VmdkDescriptor
begin

text \<open>
  The C interfaces of the readers, \<open>rawdisk/src/capi.rs\<close>, \<open>vmdk/src/capi.rs\<close> and \<open>e01/src/capi.rs\<close>, as far as they agree:
  errors handed out through a pointer, handles with the memory they own, and the guard that turns a
  panic into an error.  The three files share their text up to the names, so the operations are defined
  once over what differs (\<open>c_lib\<close>) and given their names in \<open>CReaders\<close>.

  Memory is a heap of allocations.  Releasing or reading an address that does not hold what the code
  takes it for is \<open>Undefined\<close>; a reader that never returns gives \<open>Hangs\<close>.

  Shown, for a library whose handles obey the laws of the locale \<open>c_handles\<close>: no sequence of calls that uses each
  handle and each error at most until it is released runs into undefined behaviour, whatever the
  readers do, panics included; what is allocated is always exactly what the live handles and errors own,
  so that releasing them all leaves nothing; and a call reports an error exactly when it fails.
\<close>

subsection \<open>Memory\<close>

datatype 'a outcome = Return 'a | Hangs | Undefined

fun o_bind :: "'a outcome \<Rightarrow> ('a \<Rightarrow> 'b outcome) \<Rightarrow> 'b outcome" where
  "o_bind (Return x) f = f x"
| "o_bind Hangs f = Hangs"
| "o_bind Undefined f = Undefined"

lemma o_bind_Return [simp]: "o_bind m f = Return y \<longleftrightarrow> (\<exists>x. m = Return x \<and> f x = Return y)"
  by (cases m) auto

text \<open>An address; 0 is the null pointer.\<close>

type_synonym ptr = nat

text \<open>What was given away with \<open>into_raw\<close> or \<open>ManuallyDrop\<close>: a C string, an error with its message, a reader, a handle, an
  array of C strings and a byte vector.\<close>

datatype ('r, 'h) alloc =
    CStr string
  | ErrorBox ptr
  | ReaderBox 'r
  | HandleBox 'h
  | PtrArray "ptr list"
  | ByteVec bytes

record ('r, 'h) heap =
  hp_next :: nat
  hp_objs :: "ptr \<rightharpoonup> ('r, 'h) alloc"

definition heap_empty :: "('r, 'h) heap" where
  "heap_empty = \<lparr>hp_next = 1, hp_objs = Map.empty\<rparr>"

definition heap_new :: "('r, 'h) alloc \<Rightarrow> ('r, 'h) heap \<Rightarrow> ptr \<times> ('r, 'h) heap" where
  "heap_new x h = (hp_next h, h\<lparr>hp_next := hp_next h + 1, hp_objs := (hp_objs h)(hp_next h \<mapsto> x)\<rparr>)"

definition heap_release :: "ptr \<Rightarrow> ('r, 'h) heap \<Rightarrow> ('r, 'h) heap" where
  "heap_release p h = h\<lparr>hp_objs := (hp_objs h)(p := None)\<rparr>"

definition free_c_str :: "ptr \<Rightarrow> ('r, 'h) heap \<Rightarrow> ('r, 'h) heap outcome" where
  "free_c_str p h = (case hp_objs h p of Some (CStr s) \<Rightarrow> Return (heap_release p h) | _ \<Rightarrow> Undefined)"

definition free_reader :: "ptr \<Rightarrow> ('r, 'h) heap \<Rightarrow> ('r, 'h) heap outcome" where
  "free_reader p h = (case hp_objs h p of Some (ReaderBox r) \<Rightarrow> Return (heap_release p h) | _ \<Rightarrow> Undefined)"

subsection \<open>Errors and the guard\<close>

text \<open>An out-parameter is \<open>None\<close> for a null pointer and otherwise what it points to.\<close>

type_synonym out_err = "ptr option"

text \<open>\<open>CString::new\<close> with its fallback for a message that holds a NUL.\<close>

definition c_message :: "string \<Rightarrow> string" where
  "c_message e =
     (if CHR 0x00 \<in> set e then
        concat (map (\<lambda>c. if c = CHR 0x00 then [CHR 0xEF, CHR 0xBF, CHR 0xBD] else [c]) e) @
        ''. Additionally, the original error message somehow contained an internal null, which should never happen.''
      else e)"

definition fill_error :: "string \<Rightarrow> out_err \<Rightarrow> ('r, 'h) heap \<Rightarrow> out_err \<times> ('r, 'h) heap" where
  "fill_error e err h =
     (case err of
        None \<Rightarrow> (None, h)
      | Some _ \<Rightarrow>
          (case heap_new (CStr (c_message e)) h of (message, h) \<Rightarrow>
           case heap_new (ErrorBox message) h of (p, h) \<Rightarrow> (Some p, h)))"

text \<open>The payload of a panic is a string or of unknown type.\<close>

definition panic_message :: "string option \<Rightarrow> string" where
  "panic_message p = ''Panic while reading image: '' @ (case p of Some what \<Rightarrow> what | None \<Rightarrow> ''unknown cause'')"

text \<open>What a body leaves: its value, or \<open>None\<close> when it panicked; the out-parameter; the memory.\<close>

type_synonym ('r, 'h, 'a) c_body = "('a option \<times> out_err \<times> ('r, 'h) heap) outcome"

definition guard ::
    "string option \<Rightarrow> 'a \<Rightarrow> ('r, 'h, 'a) c_body \<Rightarrow> ('a \<times> out_err \<times> ('r, 'h) heap) outcome" where
  "guard what fallback body =
     o_bind body (\<lambda>(r, err, h).
       case r of
         Some v \<Rightarrow> Return (v, err, h)
       | None \<Rightarrow> (case fill_error (panic_message what) err h of (err, h) \<Rightarrow> Return (fallback, err, h)))"

definition fail_with :: "string \<Rightarrow> 'a \<Rightarrow> out_err \<Rightarrow> ('r, 'h) heap \<Rightarrow> ('r, 'h, 'a) c_body" where
  "fail_with e v err h = (case fill_error e err h of (err, h) \<Rightarrow> Return (Some v, err, h))"

definition free_error :: "ptr \<Rightarrow> ('r, 'h) heap \<Rightarrow> ('r, 'h) heap outcome" where
  "free_error p h =
     (if p = 0 then Return h
      else
        (case hp_objs h p of
           Some (ErrorBox message) \<Rightarrow>
             o_bind (if message \<noteq> 0 then free_c_str message h else Return h) (\<lambda>h. Return (heap_release p h))
         | _ \<Rightarrow> Undefined))"

subsection \<open>The calls\<close>

text \<open>What differs between the libraries: making and dropping a handle, the reader of a handle, and reading.  A read
  returns, panics (\<open>Panic\<close>) or never ends (\<open>None\<close>), and may change the reader.\<close>

record ('r, 'h) c_lib =
  cl_new :: "'r \<Rightarrow> ('r, 'h) heap \<Rightarrow> (ptr, string) result \<times> ('r, 'h) heap"
  cl_drop :: "'h \<Rightarrow> ('r, 'h) heap \<Rightarrow> ('r, 'h) heap outcome"
  cl_reader :: "'h \<Rightarrow> ptr"
  cl_read :: "'r \<Rightarrow> nat \<Rightarrow> nat \<Rightarrow> ((bytes, string) result \<times> 'r) option"

text \<open>The end of every function that opens an image.\<close>

definition open_result ::
    "('r, 'h) c_lib \<Rightarrow> ('r, string) result option \<Rightarrow> out_err \<Rightarrow> ('r, 'h) heap \<Rightarrow> ('r, 'h, ptr) c_body" where
  "open_result lib r err h =
     (case r of
        None \<Rightarrow> Hangs
      | Some (Ok reader) \<Rightarrow>
          (case cl_new lib reader h of
             (Ok p, h) \<Rightarrow> Return (Some p, err, h)
           | (Err e, h) \<Rightarrow> fail_with e 0 err h
           | (Panic, h) \<Rightarrow> Return (None, err, h))
      | Some (Err e) \<Rightarrow> fail_with e 0 err h
      | Some Panic \<Rightarrow> Return (None, err, h))"

text \<open>Memory up to the first NUL, and \<open>CStr::to_str\<close>.\<close>

definition c_str_at :: "bytes \<Rightarrow> bytes" where
  "c_str_at mem = takeWhile (\<lambda>b. b \<noteq> 0) mem"

definition c_to_str :: "bytes \<Rightarrow> string option" where
  "c_to_str s = (if utf8_valid s then Some (map byte_char s) else None)"

definition capi_open ::
    "('r, 'h) c_lib \<Rightarrow> (string \<Rightarrow> ('r, string) result option) \<Rightarrow> string option \<Rightarrow> bytes option \<Rightarrow> out_err \<Rightarrow> ('r, 'h) heap \<Rightarrow>
      (ptr \<times> out_err \<times> ('r, 'h) heap) outcome" where
  "capi_open lib opn what image_path err h =
     guard what 0
       (case image_path of
          None \<Rightarrow> fail_with ''image_path is null'' 0 err h
        | Some mem \<Rightarrow>
            (case c_to_str (c_str_at mem) of
               None \<Rightarrow> fail_with ''image_path is not UTF-8'' 0 err h
             | Some ip \<Rightarrow> open_result lib (opn ip) err h))"

definition capi_close :: "('r, 'h) c_lib \<Rightarrow> ptr \<Rightarrow> ('r, 'h) heap \<Rightarrow> ('r, 'h) heap outcome" where
  "capi_close lib p h =
     (if p = 0 then Return h
      else
        (case hp_objs h p of
           Some (HandleBox hdl) \<Rightarrow> o_bind (cl_drop lib hdl h) (\<lambda>h. Return (heap_release p h))
         | _ \<Rightarrow> Undefined))"

text \<open>A read: \<open>buf\<close> is null or has room for so many bytes.  The result is what was written to the front of the buffer;
  its length is the number that the call returns.\<close>

definition capi_read ::
    "('r, 'h) c_lib \<Rightarrow> string option \<Rightarrow> ptr \<Rightarrow> nat \<Rightarrow> nat option \<Rightarrow> out_err \<Rightarrow> ('r, 'h) heap \<Rightarrow>
      (bytes \<times> out_err \<times> ('r, 'h) heap) outcome" where
  "capi_read lib what handle offset buf err h =
     guard what []
       (if handle = 0 then fail_with ''handle is null'' [] err h
        else
          (case buf of
             None \<Rightarrow> fail_with ''buf is null'' [] err h
           | Some buflen \<Rightarrow>
               (case hp_objs h handle of
                  Some (HandleBox hdl) \<Rightarrow>
                    (case hp_objs h (cl_reader lib hdl) of
                       Some (ReaderBox r) \<Rightarrow>
                         (case cl_read lib r offset buflen of
                            None \<Rightarrow> Hangs
                          | Some (res, r) \<Rightarrow>
                              let h = h\<lparr>hp_objs := (hp_objs h)(cl_reader lib hdl \<mapsto> ReaderBox r)\<rparr> in
                              (case res of
                                 Ok bs \<Rightarrow> Return (Some bs, err, h)
                               | Err e \<Rightarrow> fail_with e [] err h
                               | Panic \<Rightarrow> Return (None, err, h)))
                     | _ \<Rightarrow> Undefined)
                | _ \<Rightarrow> Undefined)))"

subsection \<open>Handles of \<open>rawdisk\<close> and \<open>vmdk\<close>\<close>

record simple_handle =
  sh_reader :: ptr
  sh_image_path :: ptr
  sh_image_size :: nat

definition path_to_cstring :: "string \<Rightarrow> (string, string) result" where
  "path_to_cstring path =
     (if \<not> utf8_valid (string_bytes path) then Err ''path is not UTF-8''
      else if CHR 0x00 \<in> set path then Err ''path contains an internal null''
      else Ok path)"

definition simple_handle_new ::
    "('r \<Rightarrow> string) \<Rightarrow> ('r \<Rightarrow> nat) \<Rightarrow> 'r \<Rightarrow> ('r, simple_handle) heap \<Rightarrow> (ptr, string) result \<times> ('r, simple_handle) heap" where
  "simple_handle_new image_path image_size reader h =
     (case path_to_cstring (image_path reader) of
        Ok s \<Rightarrow>
          (case heap_new (CStr s) h of (path, h) \<Rightarrow>
           case heap_new (ReaderBox reader) h of (rd, h) \<Rightarrow>
           case heap_new (HandleBox \<lparr>sh_reader = rd, sh_image_path = path, sh_image_size = image_size reader\<rparr>) h of
             (p, h) \<Rightarrow> (Ok p, h))
      | Err e \<Rightarrow> (Err e, h)
      | Panic \<Rightarrow> (Panic, h))"

definition simple_handle_drop :: "simple_handle \<Rightarrow> ('r, simple_handle) heap \<Rightarrow> ('r, simple_handle) heap outcome" where
  "simple_handle_drop hdl h = o_bind (free_reader (sh_reader hdl) h) (free_c_str (sh_image_path hdl))"

subsection \<open>Sessions\<close>

text \<open>A client that keeps to the rules: it holds a list of live handles and errors, names them by their position (any
  other position stands for a null pointer), and forgets one when it releases it.  \<open>'o\<close> holds the
  arguments of a call that opens an image; the flag says whether the call gets an out-parameter.\<close>

datatype live = LiveHandle ptr | LiveError ptr

datatype 'o c_call =
    COpen 'o bool
  | CRead nat nat "nat option" bool "string option"
  | CClose nat
  | CFreeError nat

record ('r, 'h) c_session =
  cs_heap :: "('r, 'h) heap"
  cs_live :: "live list"

definition session_start :: "('r, 'h) c_session" where
  "session_start = \<lparr>cs_heap = heap_empty, cs_live = []\<rparr>"

definition out_param :: "bool \<Rightarrow> out_err" where
  "out_param e = (if e then Some 0 else None)"

definition new_live :: "ptr \<Rightarrow> out_err \<Rightarrow> live list" where
  "new_live p err =
     (if p \<noteq> 0 then [LiveHandle p] else []) @
     (case err of Some q \<Rightarrow> if q \<noteq> 0 then [LiveError q] else [] | None \<Rightarrow> [])"

definition handle_at :: "live list \<Rightarrow> nat \<Rightarrow> ptr" where
  "handle_at ls i = (if i < length ls then (case ls ! i of LiveHandle p \<Rightarrow> p | LiveError _ \<Rightarrow> 0) else 0)"

definition error_at :: "live list \<Rightarrow> nat \<Rightarrow> ptr" where
  "error_at ls i = (if i < length ls then (case ls ! i of LiveError p \<Rightarrow> p | LiveHandle _ \<Rightarrow> 0) else 0)"

definition drop_nth :: "nat \<Rightarrow> 'a list \<Rightarrow> 'a list" where
  "drop_nth i xs = take i xs @ drop (Suc i) xs"

fun c_step ::
    "('r, 'h) c_lib \<Rightarrow> ('o \<Rightarrow> out_err \<Rightarrow> ('r, 'h) heap \<Rightarrow> (ptr \<times> out_err \<times> ('r, 'h) heap) outcome) \<Rightarrow> 'o c_call \<Rightarrow>
      ('r, 'h) c_session \<Rightarrow> ('r, 'h) c_session outcome" where
  "c_step lib opn (COpen args e) s =
     o_bind (opn args (out_param e) (cs_heap s)) (\<lambda>(p, err, h).
       Return \<lparr>cs_heap = h, cs_live = cs_live s @ new_live p err\<rparr>)"
| "c_step lib opn (CRead i off buf e what) s =
     o_bind (capi_read lib what (handle_at (cs_live s) i) off buf (out_param e) (cs_heap s)) (\<lambda>(bs, err, h).
       Return \<lparr>cs_heap = h, cs_live = cs_live s @ new_live 0 err\<rparr>)"
| "c_step lib opn (CClose i) s =
     (let p = handle_at (cs_live s) i in
      o_bind (capi_close lib p (cs_heap s)) (\<lambda>h.
        Return \<lparr>cs_heap = h, cs_live = (if p = 0 then cs_live s else drop_nth i (cs_live s))\<rparr>))"
| "c_step lib opn (CFreeError i) s =
     (let p = error_at (cs_live s) i in
      o_bind (free_error p (cs_heap s)) (\<lambda>h.
        Return \<lparr>cs_heap = h, cs_live = (if p = 0 then cs_live s else drop_nth i (cs_live s))\<rparr>))"

primrec c_run ::
    "('r, 'h) c_lib \<Rightarrow> ('o \<Rightarrow> out_err \<Rightarrow> ('r, 'h) heap \<Rightarrow> (ptr \<times> out_err \<times> ('r, 'h) heap) outcome) \<Rightarrow> 'o c_call list \<Rightarrow>
      ('r, 'h) c_session \<Rightarrow> ('r, 'h) c_session outcome" where
  "c_run lib opn [] s = Return s"
| "c_run lib opn (c # cs) s = o_bind (c_step lib opn c s) (c_run lib opn cs)"

subsection \<open>Ownership\<close>

text \<open>A heap is tiled by blocks that do not overlap.\<close>

definition tiles :: "('k \<rightharpoonup> 'v) list \<Rightarrow> ('k \<rightharpoonup> 'v) \<Rightarrow> bool" where
  "tiles ms o1 \<longleftrightarrow>
     sorted_wrt (\<lambda>a b. dom a \<inter> dom b = {}) ms \<and> (\<forall>p v. o1 p = Some v \<longleftrightarrow> (\<exists>m \<in> set ms. m p = Some v))"

lemma tiles_Nil [simp]: "tiles [] o1 \<longleftrightarrow> o1 = Map.empty"
  by (auto simp: tiles_def fun_eq_iff)

lemma tiles_dom: "tiles ms o1 \<Longrightarrow> m \<in> set ms \<Longrightarrow> dom m \<subseteq> dom o1"
  unfolding tiles_def by blast

lemma tiles_le: "tiles ms o1 \<Longrightarrow> m \<in> set ms \<Longrightarrow> m \<subseteq>\<^sub>m o1"
  unfolding tiles_def map_le_def by (metis domIff option.exhaust)

lemma tiles_add:
  assumes "tiles ms o1" "dom m \<inter> dom o1 = {}"
  shows "tiles (ms @ [m]) (o1 ++ m)"
proof -
  have "\<forall>a \<in> set ms. dom a \<inter> dom m = {}" using assms(2) tiles_dom [OF assms(1)] by blast
  moreover have "(o1 ++ m) p = Some v \<longleftrightarrow> (\<exists>m \<in> set (ms @ [m]). m p = Some v)" for p v
  proof (cases "m p")
    case None
    then show ?thesis using assms(1) unfolding tiles_def by (simp add: map_add_Some_iff)
  next
    case (Some w)
    then have "o1 p = None" using assms(2) by blast
    then have "\<forall>a \<in> set ms. a p \<noteq> Some v" using assms(1) unfolding tiles_def by (metis option.distinct(1))
    then show ?thesis using Some by auto
  qed
  ultimately show ?thesis using assms(1) unfolding tiles_def by (simp add: sorted_wrt_append)
qed

lemma tiles_nth:
  assumes "tiles ms o1" "i < length ms"
  shows "tiles (drop_nth i ms) (o1 |` (- dom (ms ! i)))" "\<forall>m \<in> set (drop_nth i ms). dom m \<inter> dom (ms ! i) = {}"
proof -
  have ms: "ms = take i ms @ ms ! i # drop (Suc i) ms" using assms(2) by (rule id_take_nth_drop)
  have "sorted_wrt (\<lambda>a b. dom a \<inter> dom b = {}) (take i ms @ ms ! i # drop (Suc i) ms)"
    using assms(1) ms unfolding tiles_def by metis
  then have s: "sorted_wrt (\<lambda>a b. dom a \<inter> dom b = {}) (drop_nth i ms)"
    and d: "\<forall>m \<in> set (drop_nth i ms). dom m \<inter> dom (ms ! i) = {}"
    by (simp_all add: sorted_wrt_append drop_nth_def Ball_def Int_commute)
  have set: "set ms = insert (ms ! i) (set (drop_nth i ms))" using arg_cong [OF ms, of set] by (auto simp: drop_nth_def)
  have "(o1 |` (- dom (ms ! i))) p = Some v \<longleftrightarrow> (\<exists>m \<in> set (drop_nth i ms). m p = Some v)" for p v
  proof (cases "p \<in> dom (ms ! i)")
    case True
    then have "\<forall>m \<in> set (drop_nth i ms). m p = None" using d by blast
    then show ?thesis using True by auto
  next
    case False
    then have "(ms ! i) p = None" by blast
    then show ?thesis using assms(1) False set unfolding tiles_def by auto
  qed
  then show "tiles (drop_nth i ms) (o1 |` (- dom (ms ! i)))" using s unfolding tiles_def by simp
  show "\<forall>m \<in> set (drop_nth i ms). dom m \<inter> dom (ms ! i) = {}" by (rule d)
qed

lemma map_add_below: "m \<subseteq>\<^sub>m f \<Longrightarrow> f ++ m = f"
proof (rule ext)
  fix q assume le: "m \<subseteq>\<^sub>m f"
  show "(f ++ m) q = f q" using bspec [OF le [unfolded map_le_def], of q] by (cases "m q") (auto simp: map_add_def)
qed

text \<open>A block of which only values change.\<close>

lemma tiles_update:
  assumes "tiles ms o1" "i < length ms" "dom m = dom (ms ! i)"
  shows "tiles (ms[i := m]) (o1 ++ m)"
proof -
  note t = tiles_nth [OF assms(1,2)]
  have ms: "ms = take i ms @ ms ! i # drop (Suc i) ms" using assms(2) by (rule id_take_nth_drop)
  have "sorted_wrt (\<lambda>a b. dom a \<inter> dom b = {}) (take i ms @ ms ! i # drop (Suc i) ms)"
    using assms(1) ms unfolding tiles_def by metis
  then have "sorted_wrt (\<lambda>a b. dom a \<inter> dom b = {}) (take i ms @ m # drop (Suc i) ms)"
    using assms(3) by (simp add: sorted_wrt_append)
  moreover have u: "ms[i := m] = take i ms @ m # drop (Suc i) ms" using assms(2) by (rule upd_conv_take_nth_drop)
  moreover have "(o1 ++ m) p = Some v \<longleftrightarrow> (\<exists>m \<in> set (ms[i := m]). m p = Some v)" for p v
  proof (cases "p \<in> dom m")
    case True
    then have "\<forall>a \<in> set (drop_nth i ms). a p \<noteq> Some v" using t(2) assms(3) by blast
    moreover have "(o1 ++ m) p = m p" using True by auto
    ultimately show ?thesis unfolding u by (auto simp: drop_nth_def)
  next
    case False
    then have "(o1 |` (- dom (ms ! i))) p = o1 p" "m p = None"
      using False assms(3) by (simp add: restrict_map_def, blast)
    then have "o1 p = Some v \<longleftrightarrow> (\<exists>m \<in> set (drop_nth i ms). m p = Some v)" using t(1) unfolding tiles_def by metis
    then show ?thesis using \<open>m p = None\<close> unfolding u by (auto simp: drop_nth_def map_add_Some_iff)
  qed
  ultimately show ?thesis unfolding tiles_def by simp
qed

definition heap_wf :: "('r, 'h) heap \<Rightarrow> bool" where
  "heap_wf h \<longleftrightarrow> 0 < hp_next h \<and> (\<forall>p \<in> dom (hp_objs h). 0 < p \<and> p < hp_next h)"

text \<open>Only the block \<open>m\<close> has been added.\<close>

definition extends :: "('r, 'h) heap \<Rightarrow> (ptr \<rightharpoonup> ('r, 'h) alloc) \<Rightarrow> ('r, 'h) heap \<Rightarrow> bool" where
  "extends h m h' \<longleftrightarrow>
     hp_next h \<le> hp_next h' \<and> dom m \<subseteq> {hp_next h ..< hp_next h'} \<and> hp_objs h' = hp_objs h ++ m"

definition error_block :: "ptr \<Rightarrow> (ptr \<rightharpoonup> ('r, 'h) alloc) \<Rightarrow> bool" where
  "error_block q m \<longleftrightarrow> (\<exists>message s. message \<noteq> q \<and> m = [q \<mapsto> ErrorBox message, message \<mapsto> CStr s])"

text \<open>What a failing call leaves in its out-parameter.\<close>

definition reported :: "out_err \<Rightarrow> ('r, 'h) heap \<Rightarrow> out_err \<Rightarrow> ('r, 'h) heap \<Rightarrow> bool" where
  "reported err h err' h' \<longleftrightarrow>
     (case err of
        None \<Rightarrow> err' = None \<and> h' = h
      | Some _ \<Rightarrow> (\<exists>q m. err' = Some q \<and> error_block q m \<and> extends h m h'))"

text \<open>What a call that opens an image leaves.\<close>

definition opened ::
    "(ptr \<Rightarrow> (ptr \<rightharpoonup> ('r, 'h) alloc) \<Rightarrow> bool) \<Rightarrow> out_err \<Rightarrow> ('r, 'h) heap \<Rightarrow> ptr \<times> out_err \<times> ('r, 'h) heap \<Rightarrow> bool" where
  "opened block err h res \<longleftrightarrow>
     (case res of (p, err', h') \<Rightarrow>
        p \<noteq> 0 \<and> err' = err \<and> (\<exists>m. block p m \<and> extends h m h') \<or> p = 0 \<and> reported err h err' h')"

fun live_block :: "(ptr \<Rightarrow> (ptr \<rightharpoonup> ('r, 'h) alloc) \<Rightarrow> bool) \<Rightarrow> live \<Rightarrow> (ptr \<rightharpoonup> ('r, 'h) alloc) \<Rightarrow> bool" where
  "live_block block (LiveHandle p) m \<longleftrightarrow> block p m"
| "live_block block (LiveError p) m \<longleftrightarrow> error_block p m"

definition session_ok :: "(ptr \<Rightarrow> (ptr \<rightharpoonup> ('r, 'h) alloc) \<Rightarrow> bool) \<Rightarrow> ('r, 'h) c_session \<Rightarrow> bool" where
  "session_ok block s \<longleftrightarrow>
     heap_wf (cs_heap s) \<and>
     (\<exists>ms. list_all2 (live_block block) (cs_live s) ms \<and> tiles ms (hp_objs (cs_heap s)))"

lemma heap_wf_empty [simp]: "heap_wf heap_empty"
  by (simp add: heap_wf_def heap_empty_def)

lemma extends_refl: "extends h Map.empty h"
  by (simp add: extends_def)

lemma extends_new: "heap_new x h = (p, h') \<Longrightarrow> extends h [p \<mapsto> x] h' \<and> p = hp_next h \<and> hp_next h' = Suc (hp_next h)"
  by (auto simp: heap_new_def extends_def)

lemma extends_trans: "extends h m h1 \<Longrightarrow> extends h1 m' h2 \<Longrightarrow> extends h (m ++ m') h2"
proof -
  assume a: "extends h m h1" and b: "extends h1 m' h2"
  have n: "hp_next h \<le> hp_next h1" "hp_next h1 \<le> hp_next h2" using a b by (simp_all add: extends_def)
  have "dom m \<subseteq> {hp_next h ..< hp_next h2}" "dom m' \<subseteq> {hp_next h ..< hp_next h2}"
    using a b n unfolding extends_def by (auto dest!: subsetD)
  then have "dom (m ++ m') \<subseteq> {hp_next h ..< hp_next h2}" by simp
  then show "extends h (m ++ m') h2" using a b by (simp add: extends_def)
qed

lemma extends_wf:
  assumes "heap_wf h" "extends h m h'"
  shows "heap_wf h'" "dom m \<inter> dom (hp_objs h) = {}" "\<forall>p \<in> dom m. p \<noteq> 0"
proof -
  have m: "dom m \<subseteq> {hp_next h ..< hp_next h'}" "hp_next h \<le> hp_next h'" "hp_objs h' = hp_objs h ++ m"
    using assms(2) by (simp_all add: extends_def)
  have h: "0 < hp_next h" "\<forall>p \<in> dom (hp_objs h). 0 < p \<and> p < hp_next h" using assms(1) unfolding heap_wf_def by blast+
  have r: "hp_next h \<le> p \<and> p < hp_next h'" if "p \<in> dom m" for p using subsetD [OF m(1) that] by simp
  show "dom m \<inter> dom (hp_objs h) = {}"
  proof (rule ccontr)
    assume "dom m \<inter> dom (hp_objs h) \<noteq> {}"
    then obtain p where "p \<in> dom m" "p \<in> dom (hp_objs h)" by blast
    then show False using r [of p] bspec [OF h(2), of p] by simp
  qed
  show "\<forall>p \<in> dom m. p \<noteq> 0"
  proof
    fix p assume "p \<in> dom m"
    then show "p \<noteq> 0" using r [of p] h(1) by linarith
  qed
  have "0 < p \<and> p < hp_next h'" if "p \<in> dom (hp_objs h')" for p
  proof (cases "p \<in> dom m")
    case True
    then show ?thesis using r [OF True] h(1) by linarith
  next
    case False
    then have "p \<in> dom (hp_objs h)" using that m(3) by simp
    then show ?thesis using bspec [OF h(2), of p] m(2) by simp
  qed
  moreover have "0 < hp_next h'" using m(2) h(1) by linarith
  ultimately show "heap_wf h'" unfolding heap_wf_def by blast
qed

lemma fill_error_reported: "fill_error e err h = (err', h') \<Longrightarrow> reported err h err' h'"
proof (cases err)
  case (Some old)
  assume f: "fill_error e err h = (err', h')"
  obtain message h1 where m: "heap_new (CStr (c_message e)) h = (message, h1)" by fastforce
  obtain q h2 where q: "heap_new (ErrorBox message :: ('a, 'b) alloc) h1 = (q, h2)" by fastforce
  have "err' = Some q" "h' = h2" using f m q Some by (simp_all add: fill_error_def)
  moreover have ne: "message \<noteq> q" using extends_new [OF m] extends_new [OF q] by simp
  moreover have "extends h ([message \<mapsto> CStr (c_message e)] ++ [q \<mapsto> ErrorBox message]) h2"
    using extends_new [OF m] extends_new [OF q] extends_trans by blast
  moreover have "[message \<mapsto> CStr (c_message e)] ++ [q \<mapsto> ErrorBox message] =
      [q \<mapsto> ErrorBox message, message \<mapsto> CStr (c_message e) :: ('a, 'b) alloc]"
    using ne by (auto simp: fun_eq_iff map_add_def)
  ultimately show ?thesis using Some unfolding reported_def error_block_def by auto
qed (simp add: fill_error_def reported_def)

lemma guard_fail_with:
  "\<exists>err' h'. guard what v (fail_with e v' err h) = Return (v', err', h') \<and> reported err h err' h'"
  using fill_error_reported [of e err h] by (cases "fill_error e err h") (simp add: guard_def fail_with_def)

lemma guard_panic:
  "\<exists>err' h'. guard what v (Return (None, err, h)) = Return (v, err', h') \<and> reported err h err' h'"
  using fill_error_reported [of "panic_message what" err h]
  by (cases "fill_error (panic_message what) err h") (simp add: guard_def)

lemma free_error_block:
  assumes "error_block q m" "m \<subseteq>\<^sub>m hp_objs h" "heap_wf h"
  shows "\<exists>h'. free_error q h = Return h' \<and> hp_next h' = hp_next h \<and> hp_objs h' = hp_objs h |` (- dom m)"
proof -
  obtain message s where m: "message \<noteq> q" "m = [q \<mapsto> ErrorBox message, message \<mapsto> CStr s]"
    using assms(1) by (auto simp: error_block_def)
  have o: "hp_objs h q = Some (ErrorBox message)" "hp_objs h message = Some (CStr s)"
    using assms(2) m by (auto simp: map_le_def dest: bspec)
  then have "q \<noteq> 0" "message \<noteq> 0" using assms(3) by (auto simp: heap_wf_def)
  then show ?thesis using o m
    by (auto simp: free_error_def free_c_str_def heap_release_def restrict_map_def fun_eq_iff)
qed

lemma heap_wf_smaller: "heap_wf h \<Longrightarrow> hp_next h' = hp_next h \<Longrightarrow> dom (hp_objs h') \<subseteq> dom (hp_objs h) \<Longrightarrow> heap_wf h'"
  unfolding heap_wf_def by auto

lemma session_ok_add:
  assumes "session_ok block s" "live_block block l m" "extends (cs_heap s) m h'"
  shows "session_ok block \<lparr>cs_heap = h', cs_live = cs_live s @ [l]\<rparr>"
proof -
  obtain ms where ms: "list_all2 (live_block block) (cs_live s) ms" "tiles ms (hp_objs (cs_heap s))"
    and wf: "heap_wf (cs_heap s)" using assms(1) by (auto simp: session_ok_def)
  note x = extends_wf [OF wf assms(3)]
  have "tiles (ms @ [m]) (hp_objs h')" using tiles_add [OF ms(2) x(2)] assms(3) by (simp add: extends_def)
  moreover have "list_all2 (live_block block) (cs_live s @ [l]) (ms @ [m])"
    using ms(1) assms(2) by (simp add: list_all2_appendI)
  ultimately show ?thesis using x(1) unfolding session_ok_def by auto
qed

lemma error_block_dom: "error_block q m \<Longrightarrow> q \<in> dom m"
  by (auto simp: error_block_def)

lemma session_ok_reported:
  assumes "session_ok block s" "reported (out_param e) (cs_heap s) err' h'"
  shows "session_ok block \<lparr>cs_heap = h', cs_live = cs_live s @ new_live 0 err'\<rparr>"
proof (cases e)
  case True
  then obtain q m where q: "err' = Some q" "error_block q m" "extends (cs_heap s) m h'"
    using assms(2) by (auto simp: reported_def out_param_def)
  have "heap_wf (cs_heap s)" using assms(1) by (auto simp: session_ok_def)
  then have "q \<noteq> 0" using extends_wf(3) [OF _ q(3)] error_block_dom [OF q(2)] by blast
  then show ?thesis using session_ok_add [OF assms(1) _ q(3), of "LiveError q"] q(1,2) by (simp add: new_live_def)
next
  case False
  then show ?thesis using assms by (cases s) (simp add: reported_def out_param_def new_live_def)
qed

lemma list_all2_drop_nth: "list_all2 P xs ys \<Longrightarrow> list_all2 P (drop_nth i xs) (drop_nth i ys)"
  by (simp add: drop_nth_def list_all2_appendI)

lemma session_ok_remove:
  assumes "session_ok block s" "i < length (cs_live s)"
    and "\<And>m. live_block block (cs_live s ! i) m \<Longrightarrow> m \<subseteq>\<^sub>m hp_objs (cs_heap s) \<Longrightarrow>
      hp_next h' = hp_next (cs_heap s) \<and> hp_objs h' = hp_objs (cs_heap s) |` (- dom m)"
  shows "session_ok block \<lparr>cs_heap = h', cs_live = drop_nth i (cs_live s)\<rparr>"
proof -
  obtain ms where ms: "list_all2 (live_block block) (cs_live s) ms" "tiles ms (hp_objs (cs_heap s))"
    and wf: "heap_wf (cs_heap s)" using assms(1) by (auto simp: session_ok_def)
  have i: "i < length ms" using assms(2) ms(1) by (simp add: list_all2_lengthD)
  have b: "live_block block (cs_live s ! i) (ms ! i)" using ms(1) assms(2) by (rule list_all2_nthD)
  have h': "hp_next h' = hp_next (cs_heap s)" "hp_objs h' = hp_objs (cs_heap s) |` (- dom (ms ! i))"
    using assms(3) [OF b tiles_le [OF ms(2) nth_mem [OF i]]] by auto
  have "heap_wf h'" using heap_wf_smaller [OF wf h'(1)] h'(2) by auto
  then show ?thesis
    using tiles_nth(1) [OF ms(2) i] list_all2_drop_nth [OF ms(1), of i] h'(2) unfolding session_ok_def by auto
qed

subsection \<open>The laws of handles\<close>

text \<open>\<open>block p m\<close>: the handle \<open>p\<close> owns the block \<open>m\<close>; \<open>good\<close> is an invariant of the readers.\<close>

locale c_handles =
  fixes lib :: "('r, 'h) c_lib"
    and block :: "ptr \<Rightarrow> (ptr \<rightharpoonup> ('r, 'h) alloc) \<Rightarrow> bool"
    and good :: "'r \<Rightarrow> bool"
  assumes new_handle: "good r \<Longrightarrow> heap_wf h \<Longrightarrow>
      (\<exists>p m h'. cl_new lib r h = (Ok p, h') \<and> block p m \<and> extends h m h') \<or> (\<exists>e. cl_new lib r h = (Err e, h))"
    and drop_handle: "block p m \<Longrightarrow> m \<subseteq>\<^sub>m hp_objs h \<Longrightarrow>
      \<exists>hdl h'. m p = Some (HandleBox hdl) \<and> cl_drop lib hdl h = Return h' \<and> hp_next h' = hp_next h \<and>
        (hp_objs h')(p := None) = hp_objs h |` (- dom m)"
    and handle_reader: "block p m \<Longrightarrow>
      \<exists>hdl r. m p = Some (HandleBox hdl) \<and> m (cl_reader lib hdl) = Some (ReaderBox r) \<and> good r \<and>
        (\<forall>r'. good r' \<longrightarrow> block p (m(cl_reader lib hdl \<mapsto> ReaderBox r')))"
    and read_good: "good r \<Longrightarrow> cl_read lib r off n = Some (res, r') \<Longrightarrow> good r'"
begin

lemma block_not_null: "block p m \<Longrightarrow> heap_wf h \<Longrightarrow> extends h m h' \<Longrightarrow> p \<noteq> 0"
  using handle_reader [of p m] extends_wf(3) [of h m h'] by blast

lemma open_result_opened:
  assumes "heap_wf h" "\<And>r. res = Some (Ok r) \<Longrightarrow> good r"
  shows "(res = None \<longrightarrow> guard what 0 (open_result lib res err h) = Hangs) \<and>
    (res \<noteq> None \<longrightarrow> (\<exists>v. guard what 0 (open_result lib res err h) = Return v \<and> opened block err h v))"
proof (cases res)
  case (Some r)
  then show ?thesis
  proof (cases r)
    case (Ok rd)
    consider (new) p m h' where "cl_new lib rd h = (Ok p, h')" "block p m" "extends h m h'"
      | (err) e where "cl_new lib rd h = (Err e, h)"
      using new_handle [OF assms(2) assms(1)] Some Ok by blast
    then show ?thesis
    proof cases
      case new
      then show ?thesis using block_not_null [OF new(2) assms(1) new(3)] Some Ok
        by (auto simp: open_result_def guard_def opened_def)
    next
      case err
      then show ?thesis using guard_fail_with [of what 0 e 0] Some Ok
        by (fastforce simp: open_result_def opened_def)
    qed
  next
    case (Err e)
    then show ?thesis using guard_fail_with [of what 0 e 0] Some by (fastforce simp: open_result_def opened_def)
  next
    case Panic
    then show ?thesis using guard_panic [of what 0] Some by (fastforce simp: open_result_def opened_def)
  qed
qed (simp add: open_result_def guard_def)

lemma fail_opened: "\<exists>v. guard what 0 (fail_with e 0 err h) = Return v \<and> opened block err h v"
  using guard_fail_with [of what 0 e 0 err h] by (fastforce simp: opened_def)

lemma panic_opened: "\<exists>v. guard what 0 (Return (None, err, h)) = Return v \<and> opened block err h v"
  using guard_panic [of what 0 err h] by (fastforce simp: opened_def)

lemma close_block:
  assumes "block p m" "m \<subseteq>\<^sub>m hp_objs h" "p \<noteq> 0"
  shows "\<exists>h'. capi_close lib p h = Return h' \<and> hp_next h' = hp_next h \<and> hp_objs h' = hp_objs h |` (- dom m)"
proof -
  obtain hdl h' where d: "m p = Some (HandleBox hdl)" "cl_drop lib hdl h = Return h'" "hp_next h' = hp_next h"
      "(hp_objs h')(p := None) = hp_objs h |` (- dom m)" using drop_handle [OF assms(1,2)] by blast
  have "hp_objs h p = Some (HandleBox hdl)" using assms(2) d(1) by (metis domI map_le_def)
  then show ?thesis using d assms(3) by (simp add: capi_close_def heap_release_def)
qed

text \<open>A read of a live handle: only its reader changes, and an error is reported when it fails.\<close>

lemma read_block:
  assumes "block p m" "m \<subseteq>\<^sub>m hp_objs h" "p \<noteq> 0" "buf = Some n"
  obtains (hangs) hdl r where "m p = Some (HandleBox hdl)" "m (cl_reader lib hdl) = Some (ReaderBox r)"
      "cl_read lib r off n = None" "capi_read lib what p off buf err h = Hangs"
    | (returns) hdl r res r' m' h1 bs err' h' where "m p = Some (HandleBox hdl)" "m (cl_reader lib hdl) = Some (ReaderBox r)"
      "cl_read lib r off n = Some (res, r')" "block p m'" "dom m' = dom m"
      "hp_next h1 = hp_next h" "hp_objs h1 = hp_objs h ++ m'" "capi_read lib what p off buf err h = Return (bs, err', h')"
      "(case res of Ok xs \<Rightarrow> bs = xs \<and> err' = err \<and> h' = h1 | _ \<Rightarrow> bs = [] \<and> reported err h1 err' h')"
proof -
  obtain hdl r where r: "m p = Some (HandleBox hdl)" "m (cl_reader lib hdl) = Some (ReaderBox r)" "good r"
      "\<forall>r'. good r' \<longrightarrow> block p (m(cl_reader lib hdl \<mapsto> ReaderBox r'))" using handle_reader [OF assms(1)] by blast
  have o: "hp_objs h p = Some (HandleBox hdl)" "hp_objs h (cl_reader lib hdl) = Some (ReaderBox r)"
    using assms(2) r(1,2) by (metis domI map_le_def)+
  show thesis
  proof (cases "cl_read lib r off n")
    case None
    then show thesis using hangs [OF r(1,2)] o assms(3,4) by (simp add: capi_read_def guard_def)
  next
    case (Some q)
    obtain res r' where q: "cl_read lib r off n = Some (res, r')" using Some by (cases q) auto
    let ?m = "m(cl_reader lib hdl \<mapsto> ReaderBox r')"
    let ?h = "h\<lparr>hp_objs := (hp_objs h)(cl_reader lib hdl \<mapsto> ReaderBox r')\<rparr>"
    have b: "block p ?m" using r(4) read_good [OF r(3) q] by blast
    have d: "dom ?m = dom m" using r(2) by (simp add: insert_absorb domI)
    have "hp_objs h ++ m = hp_objs h" using assms(2) by (rule map_add_below)
    then have h: "hp_objs ?h = hp_objs h ++ ?m" by (simp only: map_add_upd) simp
    note ret = returns [OF r(1,2) q b d _ h]
    show thesis
    proof (cases res)
      case (Ok bs)
      then show thesis using ret [of bs err ?h] o assms(3,4) q by (simp add: capi_read_def guard_def)
    next
      case (Err e)
      obtain err' h' where "guard what ([] :: bytes) (fail_with e [] err ?h) = Return ([], err', h')" "reported err ?h err' h'"
        using guard_fail_with [of what "[]" e "[]" err ?h] by auto
      then show thesis using o assms(3,4) q Err by (intro ret [of "[]" err' h']) (simp_all add: capi_read_def)
    next
      case Panic
      obtain err' h' where "guard what ([] :: bytes) (Return (None, err, ?h)) = Return ([], err', h')" "reported err ?h err' h'"
        using guard_panic [of what "[]" err ?h] by auto
      then show thesis using o assms(3,4) q Panic by (intro ret [of "[]" err' h']) (simp_all add: capi_read_def)
    qed
  qed
qed

end


text \<open>Calls that open an image on top of it.\<close>

locale c_client = c_handles lib block good
  for lib :: "('r, 'h) c_lib"
    and block :: "ptr \<Rightarrow> (ptr \<rightharpoonup> ('r, 'h) alloc) \<Rightarrow> bool"
    and good :: "'r \<Rightarrow> bool" +
  fixes opn :: "'o \<Rightarrow> out_err \<Rightarrow> ('r, 'h) heap \<Rightarrow> (ptr \<times> out_err \<times> ('r, 'h) heap) outcome"
  assumes opens: "heap_wf h \<Longrightarrow> opn args err h = Hangs \<or> (\<exists>v. opn args err h = Return v \<and> opened block err h v)"
begin

lemma step_ok:
  assumes "session_ok block s"
  shows "(c_step lib opn c s = Hangs \<and> ((\<exists>args err h. heap_wf h \<and> opn args err h = Hangs) \<or> (\<exists>r off n. cl_read lib r off n = None))) \<or>
    (\<exists>s'. c_step lib opn c s = Return s' \<and> session_ok block s')"
proof -
  obtain ms where ms: "list_all2 (live_block block) (cs_live s) ms" "tiles ms (hp_objs (cs_heap s))"
    and wf: "heap_wf (cs_heap s)" using assms by (auto simp: session_ok_def)
  have at: "live_block block (cs_live s ! i) (ms ! i)" "ms ! i \<subseteq>\<^sub>m hp_objs (cs_heap s)" "i < length ms"
    if "i < length (cs_live s)" for i
    using that ms(1) list_all2_nthD [OF ms(1) that] list_all2_lengthD [OF ms(1)] tiles_le [OF ms(2)] by auto
  show ?thesis
  proof (cases c)
    case (COpen args e)
    consider "opn args (out_param e) (cs_heap s) = Hangs"
      | v where "opn args (out_param e) (cs_heap s) = Return v" "opened block (out_param e) (cs_heap s) v"
      using opens [OF wf] by blast
    then show ?thesis
    proof cases
      case 1
      then show ?thesis using COpen wf by auto
    next
      case (2 v)
      obtain p err' h' where v: "v = (p, err', h')" by (cases v)
      have "session_ok block \<lparr>cs_heap = h', cs_live = cs_live s @ new_live p err'\<rparr>"
      proof (cases "p = 0")
        case True
        then show ?thesis using 2(2) v session_ok_reported [OF assms] by (simp add: opened_def)
      next
        case False
        then obtain m where "block p m" "extends (cs_heap s) m h'" "err' = out_param e"
          using 2(2) v by (auto simp: opened_def)
        then show ?thesis using session_ok_add [OF assms, of "LiveHandle p" m h'] False
          by (auto simp: new_live_def out_param_def)
      qed
      then show ?thesis using 2(1) v COpen by auto
    qed
  next
    case (CRead i off buf e what)
    let ?p = "handle_at (cs_live s) i"
    have null: "\<exists>s'. c_step lib opn c s = Return s' \<and> session_ok block s'" if null: "?p = 0 \<or> buf = None"
    proof -
      obtain msg where m: "capi_read lib what ?p off buf (out_param e) (cs_heap s) =
          guard what [] (fail_with msg [] (out_param e) (cs_heap s))"
      proof (cases "?p = 0")
        case True
        then show thesis using that by (simp add: capi_read_def)
      next
        case False
        then have "buf = None" using null by auto
        then show thesis using that False by (simp add: capi_read_def)
      qed
      obtain err' h' where "capi_read lib what ?p off buf (out_param e) (cs_heap s) = Return ([], err', h')"
          "reported (out_param e) (cs_heap s) err' h'"
        using guard_fail_with [of what "[]" msg "[]" "out_param e" "cs_heap s"] m by auto
      then show ?thesis using session_ok_reported [OF assms] CRead by auto
    qed
    show ?thesis
    proof (cases "?p = 0 \<or> buf = None")
      case False
      then obtain n where n: "buf = Some n" "?p \<noteq> 0" by blast
      then have i: "i < length (cs_live s)" "cs_live s ! i = LiveHandle ?p"
        by (auto simp: handle_at_def split: if_splits live.splits)
      have b: "block ?p (ms ! i)" using at(1) [OF i(1)] i(2) by simp
      show ?thesis
      proof (cases rule: read_block [OF b at(2) [OF i(1)] n(2,1), of off what "out_param e"])
        case (1 hdl r)
        have "\<exists>r off n. cl_read lib r off n = None" using 1(3) by blast
        then show ?thesis using 1(4) CRead by simp
      next
        case (2 hdl r res r' m' h1 bs err' h')
        have t: "tiles (ms[i := m']) (hp_objs h1)" using tiles_update [OF ms(2) at(3) [OF i(1)] 2(5)] 2(7) by simp
        have "list_all2 (live_block block) (cs_live s) (ms[i := m'])"
          using list_all2_update_cong [OF ms(1), of "cs_live s ! i" m' i] 2(4) i(2)
          by (metis list_update_id live_block.simps(1))
        moreover have "dom (hp_objs h1) \<subseteq> dom (hp_objs (cs_heap s))"
          using 2(5,7) tiles_dom [OF ms(2) nth_mem [OF at(3) [OF i(1)]]] by auto
        ultimately have ok: "session_ok block \<lparr>cs_heap = h1, cs_live = cs_live s\<rparr>"
          using heap_wf_smaller [OF wf 2(6)] t unfolding session_ok_def by auto
        have "session_ok block \<lparr>cs_heap = h', cs_live = cs_live s @ new_live 0 err'\<rparr>"
        proof (cases res)
          case (Ok xs)
          then show ?thesis using 2(9) ok by (auto simp: new_live_def out_param_def)
        qed (use 2(9) session_ok_reported [OF ok] in auto)
        then show ?thesis using 2(8) CRead by auto
      qed
    qed (use null in blast)
  next
    case (CClose i)
    let ?p = "handle_at (cs_live s) i"
    show ?thesis
    proof (cases "?p = 0")
      case True
      then show ?thesis using assms CClose by (cases s) (auto simp: capi_close_def)
    next
      case False
      then have i: "i < length (cs_live s)" "cs_live s ! i = LiveHandle ?p"
        by (auto simp: handle_at_def split: if_splits live.splits)
      have b: "block ?p (ms ! i)" using at(1) [OF i(1)] i(2) by simp
      obtain h' where h': "capi_close lib ?p (cs_heap s) = Return h'"
        using close_block [OF b at(2) [OF i(1)] False] by blast
      have "session_ok block \<lparr>cs_heap = h', cs_live = drop_nth i (cs_live s)\<rparr>"
        by (rule session_ok_remove [OF assms i(1)]) (use close_block [OF _ _ False] h' i(2) in fastforce)
      then show ?thesis using h' False CClose by (simp add: Let_def)
    qed
  next
    case (CFreeError i)
    let ?p = "error_at (cs_live s) i"
    show ?thesis
    proof (cases "?p = 0")
      case True
      then show ?thesis using assms CFreeError by (cases s) (auto simp: free_error_def)
    next
      case False
      then have i: "i < length (cs_live s)" "cs_live s ! i = LiveError ?p"
        by (auto simp: error_at_def split: if_splits live.splits)
      have b: "error_block ?p (ms ! i)" using at(1) [OF i(1)] i(2) by simp
      obtain h' where h': "free_error ?p (cs_heap s) = Return h'"
        using free_error_block [OF b at(2) [OF i(1)] wf] by blast
      have "session_ok block \<lparr>cs_heap = h', cs_live = drop_nth i (cs_live s)\<rparr>"
        by (rule session_ok_remove [OF assms i(1)]) (use free_error_block [OF _ _ wf] h' i(2) in fastforce)
      then show ?thesis using h' False CFreeError by (simp add: Let_def)
    qed
  qed
qed

lemma run_ok:
  assumes "session_ok block s"
  shows "(c_run lib opn cs s = Hangs \<and> ((\<exists>args err h. heap_wf h \<and> opn args err h = Hangs) \<or> (\<exists>r off n. cl_read lib r off n = None))) \<or>
    (\<exists>s'. c_run lib opn cs s = Return s' \<and> session_ok block s')"
  using assms
proof (induction cs arbitrary: s)
  case (Cons c cs)
  show ?case
  proof (cases "c_step lib opn c s")
    case (Return s1)
    then show ?thesis using step_ok [OF Cons.prems, of c] Cons.IH [of s1] by auto
  qed (use step_ok [OF Cons.prems, of c] in auto)
qed simp

text \<open>The memory in use is that of the live handles and errors.\<close>

lemma session_memory:
  assumes "session_ok block s"
  obtains ms where "list_all2 (live_block block) (cs_live s) ms" "dom (hp_objs (cs_heap s)) = (\<Union>m \<in> set ms. dom m)"
proof -
  obtain ms where ms: "list_all2 (live_block block) (cs_live s) ms" "tiles ms (hp_objs (cs_heap s))"
    using assms by (auto simp: session_ok_def)
  then have "dom (hp_objs (cs_heap s)) = (\<Union>m \<in> set ms. dom m)" unfolding tiles_def by (auto simp: dom_def)
  then show thesis using that ms(1) by blast
qed

lemma sessions_safe:
  "(c_run lib opn cs session_start \<noteq> Undefined) \<and>
   ((\<forall>args err h. heap_wf h \<longrightarrow> opn args err h \<noteq> Hangs) \<and> (\<forall>r off n. cl_read lib r off n \<noteq> None) \<longrightarrow>
     (\<exists>s. c_run lib opn cs session_start = Return s)) \<and>
   (\<forall>s. c_run lib opn cs session_start = Return s \<and> cs_live s = [] \<longrightarrow> hp_objs (cs_heap s) = Map.empty)"
proof -
  have start: "session_ok block session_start"
    by (simp add: session_ok_def session_start_def) (simp add: heap_empty_def)
  note r = run_ok [OF start, of cs]
  have "hp_objs (cs_heap s) = Map.empty" if "c_run lib opn cs session_start = Return s" "cs_live s = []" for s
  proof -
    have "session_ok block s" using r that(1) by auto
    then obtain ms where "list_all2 (live_block block) (cs_live s) ms" "dom (hp_objs (cs_heap s)) = (\<Union>m \<in> set ms. dom m)"
      by (rule session_memory)
    then show ?thesis using that(2) by auto
  qed
  moreover have "c_run lib opn cs session_start \<noteq> Undefined" using r by auto
  ultimately show ?thesis using r by blast
qed

end

end
