(* ===== verification/CReaders.thy ===== *)
theory CReaders
  imports CApi Rawdisk VmdkReader
begin

text \<open>
  The C interfaces of \<open>rawdisk/src/capi.rs\<close> and \<open>vmdk/src/capi.rs\<close>, whose handle owns a path and a reader; the one of
  E01 is in \<open>E01CApi\<close>.  The texts of the errors (\<open>Display\<close>) are parameters, and so is the cache a reader reads
  through.

  Shown: the handles of both obey the laws of \<open>c_handles\<close>, so that sessions are free of undefined behaviour
  and of leaks.
\<close>

subsection \<open>Handles with a path and a reader\<close>

definition simple_lib ::
    "('r \<Rightarrow> string) \<Rightarrow> ('r \<Rightarrow> nat) \<Rightarrow> ('r \<Rightarrow> nat \<Rightarrow> nat \<Rightarrow> ((bytes, string) result \<times> 'r) option) \<Rightarrow> ('r, simple_handle) c_lib" where
  "simple_lib image_path image_size rd =
     \<lparr>cl_new = simple_handle_new image_path image_size, cl_drop = simple_handle_drop, cl_reader = sh_reader, cl_read = rd\<rparr>"

definition simple_block :: "ptr \<Rightarrow> (ptr \<rightharpoonup> ('r, simple_handle) alloc) \<Rightarrow> bool" where
  "simple_block p m \<longleftrightarrow>
     (\<exists>rd path size r s. p \<noteq> rd \<and> p \<noteq> path \<and> rd \<noteq> path \<and>
        m = [path \<mapsto> CStr s, rd \<mapsto> ReaderBox r, p \<mapsto> HandleBox \<lparr>sh_reader = rd, sh_image_path = path, sh_image_size = size\<rparr>])"

lemma simple_new_block:
  assumes "path_to_cstring (image_path r) = Ok s"
  shows "\<exists>p m h'. simple_handle_new image_path image_size r h = (Ok p, h') \<and> simple_block p m \<and> extends h m h'"
proof -
  obtain path h1 where 1: "heap_new (CStr s) h = (path, h1)" by fastforce
  obtain rd h2 where 2: "heap_new (ReaderBox r) h1 = (rd, h2)" by fastforce
  let ?hdl = "\<lparr>sh_reader = rd, sh_image_path = path, sh_image_size = image_size r\<rparr>"
  obtain p h3 where 3: "heap_new (HandleBox ?hdl) h2 = (p, h3)" by fastforce
  note e = extends_new [OF 1] extends_new [OF 2] extends_new [OF 3]
  have "extends h (([path \<mapsto> CStr s] ++ [rd \<mapsto> ReaderBox r]) ++ [p \<mapsto> HandleBox ?hdl]) h3"
    using e extends_trans by blast
  then have x: "extends h [path \<mapsto> CStr s, rd \<mapsto> ReaderBox r, p \<mapsto> HandleBox ?hdl] h3" by simp
  have "p \<noteq> rd \<and> p \<noteq> path \<and> rd \<noteq> path" using e by auto
  then have "simple_block p [path \<mapsto> CStr s, rd \<mapsto> ReaderBox r, p \<mapsto> HandleBox ?hdl]" unfolding simple_block_def by blast
  moreover have "simple_handle_new image_path image_size r h = (Ok p, h3)"
    using assms 1 2 3 by (simp add: simple_handle_new_def)
  ultimately show ?thesis using x by blast
qed

lemma path_to_cstring_total: "(\<exists>s. path_to_cstring p = Ok s) \<or> (\<exists>e. path_to_cstring p = Err e)"
  by (simp add: path_to_cstring_def)

lemma simple_drop_block:
  assumes "simple_block p m" "m \<subseteq>\<^sub>m hp_objs h"
  shows "\<exists>hdl h'. m p = Some (HandleBox hdl) \<and> simple_handle_drop hdl h = Return h' \<and> hp_next h' = hp_next h \<and>
    (hp_objs h')(p := None) = hp_objs h |` (- dom m)"
proof -
  obtain rd path size r s where ne: "p \<noteq> rd" "p \<noteq> path" "rd \<noteq> path"
    and m: "m = [path \<mapsto> CStr s, rd \<mapsto> ReaderBox r, p \<mapsto> HandleBox \<lparr>sh_reader = rd, sh_image_path = path, sh_image_size = size\<rparr>]"
    using assms(1) unfolding simple_block_def by blast
  have "hp_objs h rd = Some (ReaderBox r)" "hp_objs h path = Some (CStr s)"
    using assms(2) ne m by (auto simp: map_le_def dest: bspec)
  then show ?thesis using ne m
    by (auto simp: simple_handle_drop_def free_reader_def free_c_str_def heap_release_def restrict_map_def fun_eq_iff)
qed

lemma simple_reader_block:
  assumes "simple_block p m"
  shows "\<exists>hdl r. m p = Some (HandleBox hdl) \<and> m (sh_reader hdl) = Some (ReaderBox r) \<and> True \<and>
    (\<forall>r'. True \<longrightarrow> simple_block p (m(sh_reader hdl \<mapsto> ReaderBox r')))"
proof -
  obtain rd path size r s where ne: "p \<noteq> rd" "p \<noteq> path" "rd \<noteq> path"
    and m: "m = [path \<mapsto> CStr s, rd \<mapsto> ReaderBox r, p \<mapsto> HandleBox \<lparr>sh_reader = rd, sh_image_path = path, sh_image_size = size\<rparr>]"
    using assms unfolding simple_block_def by blast
  have "m(rd \<mapsto> ReaderBox r') =
      [path \<mapsto> CStr s, rd \<mapsto> ReaderBox r', p \<mapsto> HandleBox \<lparr>sh_reader = rd, sh_image_path = path, sh_image_size = size\<rparr>]" for r'
    using ne m by (simp add: fun_upd_twist)
  then have "\<forall>r'. simple_block p (m(rd \<mapsto> ReaderBox r'))" using ne unfolding simple_block_def by blast
  then show ?thesis using ne m by simp
qed

interpretation simple: c_handles "simple_lib image_path image_size rd" simple_block "\<lambda>r. True"
  for image_path image_size rd
proof
  fix r :: 'a and h :: "('a, simple_handle) heap"
  show "(\<exists>p m h'. cl_new (simple_lib image_path image_size rd) r h = (Ok p, h') \<and> simple_block p m \<and> extends h m h') \<or>
      (\<exists>e. cl_new (simple_lib image_path image_size rd) r h = (Err e, h))"
    using path_to_cstring_total [of "image_path r"] simple_new_block [of image_path r _ image_size h]
    by (auto simp: simple_lib_def) (simp add: simple_handle_new_def)
qed (use simple_drop_block simple_reader_block in \<open>fastforce simp: simple_lib_def\<close>)+

subsection \<open>\<open>rawdisk\<close> and \<open>vmdk\<close>\<close>

text \<open>A reader with the path it was opened by and its cache.\<close>

type_synonym raw_c_reader = "string \<times> cache \<times> rawdisk_reader"

definition raw_c_lib :: "(raw_read_error \<Rightarrow> string) \<Rightarrow> (raw_c_reader, simple_handle) c_lib" where
  "raw_c_lib disp =
     simple_lib fst (\<lambda>(_, _, rd). rr_image_size rd)
       (\<lambda>(p, c, rd) off n. Some (map_err disp (raw_read_at_offset c rd off n), (p, c, rd)))"

definition rawdisk_c_open ::
    "raw_sys \<Rightarrow> (source_slots \<Rightarrow> cache) \<Rightarrow> (source_open_error \<Rightarrow> string) \<Rightarrow> (raw_read_error \<Rightarrow> string) \<Rightarrow>
      bytes option \<times> string option \<Rightarrow> out_err \<Rightarrow> (raw_c_reader, simple_handle) heap \<Rightarrow>
      (ptr \<times> out_err \<times> (raw_c_reader, simple_handle) heap) outcome" where
  "rawdisk_c_open sys mk disp_open disp = (\<lambda>(image_path, what).
     capi_open (raw_c_lib disp)
       (\<lambda>ip. map_option (\<lambda>r. and_then (map_err disp_open r) (\<lambda>rd. Ok (ip, mk (rr_slots rd), rd))) (rawdisk_open sys ip))
       what image_path)"

definition rawdisk_c_close where
  "rawdisk_c_close disp = capi_close (raw_c_lib disp)"

definition rawdisk_c_read where
  "rawdisk_c_read disp = capi_read (raw_c_lib disp)"

type_synonym vmdk_c_reader = "string \<times> cache \<times> vmdk_reader"

definition vmdk_c_lib :: "byteorder \<Rightarrow> 'd inflater \<Rightarrow> (VmdkStorage.read_error \<Rightarrow> string) \<Rightarrow> (vmdk_c_reader, simple_handle) c_lib" where
  "vmdk_c_lib bo infl disp =
     simple_lib fst (\<lambda>(_, _, rd). vr_image_size rd)
       (\<lambda>(p, c, rd) off n. map_option (\<lambda>r. (map_err disp r, (p, c, rd))) (vmdk_read_at_offset bo infl c rd off n))"

text \<open>\<open>to_url\<close> is \<open>path_or_url_to_url\<close>.\<close>

definition vmdk_c_open ::
    "vmdk_sys \<Rightarrow> (string \<Rightarrow> string option) \<Rightarrow> (open_error \<Rightarrow> string) \<Rightarrow> 'd inflater \<Rightarrow> (VmdkStorage.read_error \<Rightarrow> string) \<Rightarrow>
      bytes option \<times> string option \<Rightarrow> out_err \<Rightarrow> (vmdk_c_reader, simple_handle) heap \<Rightarrow>
      (ptr \<times> out_err \<times> (vmdk_c_reader, simple_handle) heap) outcome" where
  "vmdk_c_open sys to_url disp_open infl disp = (\<lambda>(image_path, what).
     capi_open (vmdk_c_lib (sys_byteorder sys) infl disp)
       (\<lambda>ip.
         case to_url ip of
           None \<Rightarrow> Some (Err (disp_open (open_error_from (BadPath ip))))
         | Some url \<Rightarrow>
             map_option (\<lambda>r. and_then (map_err disp_open r) (\<lambda>rd. Ok (ip, sys_cache sys (vr_slots rd), rd))) (vmdk_open sys url))
       what image_path)"

definition vmdk_c_close where
  "vmdk_c_close bo infl disp = capi_close (vmdk_c_lib bo infl disp)"

definition vmdk_c_read where
  "vmdk_c_read bo infl disp = capi_read (vmdk_c_lib bo infl disp)"

lemma simple_capi_open:
  assumes "heap_wf h"
  shows "capi_open (simple_lib image_path image_size rd) opn what path err h = Hangs \<and> (\<exists>ip. opn ip = None) \<or>
    (\<exists>v. capi_open (simple_lib image_path image_size rd) opn what path err h = Return v \<and> opened simple_block err h v)"
proof (cases path)
  case None
  then show ?thesis using simple.fail_opened unfolding capi_open_def None option.case by blast
next
  case (Some mem)
  show ?thesis
  proof (cases "c_to_str (c_str_at mem)")
    case None
    then show ?thesis using simple.fail_opened unfolding capi_open_def Some None option.case by blast
  next
    case (Some ip)
    then have "capi_open (simple_lib image_path image_size rd) opn what path err h =
        guard what 0 (open_result (simple_lib image_path image_size rd) (opn ip) err h)"
      using \<open>path = Some mem\<close> by (simp add: capi_open_def)
    then show ?thesis using simple.open_result_opened [OF assms, of "opn ip" what image_path image_size rd err] by auto
  qed
qed

lemma rawdisk_c_opens:
  assumes "heap_wf h"
  shows "rawdisk_c_open sys mk disp_open disp args err h = Hangs \<and> (\<exists>ip. rawdisk_open sys ip = None) \<or>
    (\<exists>v. rawdisk_c_open sys mk disp_open disp args err h = Return v \<and> opened simple_block err h v)"
proof (cases args)
  case (Pair path what)
  show ?thesis
    unfolding Pair rawdisk_c_open_def raw_c_lib_def prod.case
    by (rule disj_forward [OF simple_capi_open [OF assms]]) auto
qed

lemma vmdk_c_opens:
  assumes "heap_wf h"
  shows "vmdk_c_open sys to_url disp_open infl disp args err h = Hangs \<and> (\<exists>url. vmdk_open sys url = None) \<or>
    (\<exists>v. vmdk_c_open sys to_url disp_open infl disp args err h = Return v \<and> opened simple_block err h v)"
proof (cases args)
  case (Pair path what)
  show ?thesis
    unfolding Pair vmdk_c_open_def vmdk_c_lib_def prod.case
    by (rule disj_forward [OF simple_capi_open [OF assms]]) (auto split: option.splits)
qed

interpretation raw_c: c_client "raw_c_lib disp" simple_block "\<lambda>r. True" "rawdisk_c_open sys mk disp_open disp"
  for disp sys mk disp_open
  unfolding raw_c_lib_def
  by unfold_locales (use rawdisk_c_opens in blast)

interpretation vmdk_c: c_client "vmdk_c_lib (sys_byteorder sys) infl disp" simple_block "\<lambda>r. True"
    "vmdk_c_open sys to_url disp_open infl disp"
  for sys infl disp to_url disp_open
  unfolding vmdk_c_lib_def
  by unfold_locales (use vmdk_c_opens in blast)

subsection \<open>Sessions\<close>

lemma raw_c_sessions:
  "c_run (raw_c_lib disp) (rawdisk_c_open sys mk disp_open disp) calls session_start \<noteq> Undefined \<and>
   ((\<forall>ip. rawdisk_open sys ip \<noteq> None) \<longrightarrow>
     (\<exists>s. c_run (raw_c_lib disp) (rawdisk_c_open sys mk disp_open disp) calls session_start = Return s)) \<and>
   (\<forall>s. c_run (raw_c_lib disp) (rawdisk_c_open sys mk disp_open disp) calls session_start = Return s \<and> cs_live s = [] \<longrightarrow>
     hp_objs (cs_heap s) = Map.empty)"
proof -
  note safe = raw_c.sessions_safe [of disp sys mk disp_open calls]
  have "\<forall>args err h. heap_wf h \<longrightarrow> rawdisk_c_open sys mk disp_open disp args err h \<noteq> Hangs"
    if "\<forall>ip. rawdisk_open sys ip \<noteq> None"
    using rawdisk_c_opens that by (metis outcome.distinct(1))
  moreover have "\<forall>r off n. cl_read (raw_c_lib disp) r off n \<noteq> None" by (simp add: raw_c_lib_def simple_lib_def)
  ultimately show ?thesis using safe by blast
qed

text \<open>C27: no client of the C interfaces of \<open>rawdisk\<close> and \<open>vmdk\<close> that releases each handle and error at most once can
  make them run into undefined behaviour, whatever paths, offsets, null pointers and out-parameters it
  passes and whatever the readers do, panics included; while every raw image opens in finite time, every
  sequence of calls for raw images returns; and once everything is released no memory is left.\<close>

theorem simple_c_sessions_safe:
  "c_run (raw_c_lib disp) (rawdisk_c_open sys mk disp_open disp) calls session_start \<noteq> Undefined \<and>
   c_run (vmdk_c_lib (sys_byteorder vsys) infl vdisp) (vmdk_c_open vsys to_url vdisp_open infl vdisp) vcalls session_start \<noteq>
     Undefined \<and>
   ((\<forall>ip. rawdisk_open sys ip \<noteq> None) \<longrightarrow>
     (\<exists>s. c_run (raw_c_lib disp) (rawdisk_c_open sys mk disp_open disp) calls session_start = Return s)) \<and>
   (\<forall>s. c_run (raw_c_lib disp) (rawdisk_c_open sys mk disp_open disp) calls session_start = Return s \<and> cs_live s = [] \<longrightarrow>
     hp_objs (cs_heap s) = Map.empty) \<and>
   (\<forall>s. c_run (vmdk_c_lib (sys_byteorder vsys) infl vdisp) (vmdk_c_open vsys to_url vdisp_open infl vdisp) vcalls session_start =
       Return s \<and> cs_live s = [] \<longrightarrow> hp_objs (cs_heap s) = Map.empty)"
  using raw_c_sessions vmdk_c.sessions_safe [of vsys infl vdisp to_url vdisp_open vcalls] by metis

text \<open>Open a split image, read over the border of two segments, fail to read behind the end, release everything.\<close>

definition sample_c_calls :: "(bytes option \<times> string option) c_call list" where
  "sample_c_calls =
     [COpen (Some (string_bytes ''d.002'' @ [0]), None) True, CRead 0 2 (Some 3) True None, CRead 0 7 (Some 1) True None,
      CRead 5 0 None False None, CClose 0, CFreeError 0]"

theorem simple_c_sessions_safe_witness:
  "\<exists>s. c_run (raw_c_lib (\<lambda>e. ''beyond'')) (rawdisk_c_open sample_raw_sys direct_cache (\<lambda>e. ''open'') (\<lambda>e. ''beyond''))
      sample_c_calls session_start = Return s \<and> cs_live s = [] \<and> hp_objs (cs_heap s) = Map.empty"
proof -
  let ?run = "c_run (raw_c_lib (\<lambda>e. ''beyond'')) (rawdisk_c_open sample_raw_sys direct_cache (\<lambda>e. ''open'') (\<lambda>e. ''beyond''))
      sample_c_calls session_start"
  have "case ?run of Return s \<Rightarrow> cs_live s = [] | _ \<Rightarrow> False" by code_simp
  then obtain s where "?run = Return s" "cs_live s = []" by (auto split: outcome.splits)
  then show ?thesis
    using simple_c_sessions_safe [of "\<lambda>e. ''beyond''" sample_raw_sys direct_cache "\<lambda>e. ''open''" sample_c_calls] by blast
qed

end
