(* ===== verification/E01CApi.thy ===== *)
theory E01CApi
  imports CApi E01Image
begin

text \<open>
  The C interface of the E01 reader, \<open>e01/src/capi.rs\<close>: options that are checked before they become Rust enums,
  lists of paths, and handles that own the segment paths and the stored hashes.  What it shares with the other
  C interfaces is in \<open>CApi\<close>.  The texts of the errors (\<open>Display\<close>) are parameters.

  Shown: its handles obey the laws of \<open>c_handles\<close>, so that sessions are free of undefined behaviour and of
  leaks.  This needs that stored hashes have 16 and 20 bytes, since the handle is dropped with these
  lengths; opening an image ensures it.  And the C functions give what the reader gives.
\<close>

subsection \<open>Options and handles\<close>

text \<open>\<open>rust_options\<close> over the two integers a caller may have stored.\<close>

definition int_display :: "int \<Rightarrow> string" where
  "int_display i = (if i < 0 then CHR ''-'' # decimal (nat (- i)) else decimal (nat i))"

definition rust_options :: "int \<times> int \<Rightarrow> (e01_options, string) result" where
  "rust_options raw =
     (case raw of (section_raw, chunk_raw) \<Rightarrow>
        and_then (if section_raw = 0 then Ok SecError else if section_raw = 1 then Ok DamnTheTorpedoes
                  else Err (''invalid corrupt_section_policy value '' @ int_display section_raw)) (\<lambda>section_policy.
        and_then (if chunk_raw = 0 then Ok PolError else if chunk_raw = 1 then Ok PolZero
                  else if chunk_raw = 2 then Ok PolRawIfPossible
                  else Err (''invalid corrupt_chunk_policy value '' @ int_display chunk_raw)) (\<lambda>chunk_policy.
          Ok \<lparr>eo_section_policy = section_policy, eo_chunk_policy = chunk_policy, eo_foyer_readahead = 0,
              eo_s3_concurrency = DEFAULT_S3_CONCURRENCY, eo_cache_mem_mib = DEFAULT_CACHE_MEM_MIB,
              eo_cache_block_size = DEFAULT_CACHE_BLOCK_SIZE, eo_cache_fetch_size = DEFAULT_CACHE_FETCH_SIZE,
              eo_cache_mode = SingleMemory, eo_cache_dir = None, eo_io_log = False,
              eo_parallel_chunk_threads = DEFAULT_PARALLEL_CHUNK_THREADS, eo_decoded_chunk_cache = True,
              eo_parallel_chunk_reads = True\<rparr>)))"

record e01_handle =
  eh_reader :: ptr
  eh_segment_paths :: ptr
  eh_segment_paths_count :: nat
  eh_chunk_size :: nat
  eh_chunk_count :: nat
  eh_sector_count :: nat
  eh_sector_size :: nat
  eh_image_size :: nat
  eh_stored_md5 :: ptr
  eh_stored_sha1 :: ptr

type_synonym e01_c_reader = "e01_reader \<times> e01_state"

fun paths_to_cstring_vec :: "nat \<Rightarrow> string list \<Rightarrow> (string list, string) result" where
  "paths_to_cstring_vec i [] = Ok []"
| "paths_to_cstring_vec i (p # ps) =
     (if \<not> utf8_valid (string_bytes p) then Err (''path '' @ decimal i @ '' is not UTF-8'')
      else if CHR 0x00 \<in> set p then Err (''path '' @ decimal i @ '' contains an internal null'')
      else and_then (paths_to_cstring_vec (i + 1) ps) (\<lambda>ss. Ok (p # ss)))"

primrec heap_new_strs :: "string list \<Rightarrow> ('r, 'h) heap \<Rightarrow> ptr list \<times> ('r, 'h) heap" where
  "heap_new_strs [] h = ([], h)"
| "heap_new_strs (s # ss) h =
     (case heap_new (CStr s) h of (p, h) \<Rightarrow> (case heap_new_strs ss h of (ps, h) \<Rightarrow> (p # ps, h)))"

definition opt_array_to_ptr :: "bytes option \<Rightarrow> ('r, 'h) heap \<Rightarrow> ptr \<times> ('r, 'h) heap" where
  "opt_array_to_ptr a h = (case a of None \<Rightarrow> (0, h) | Some bs \<Rightarrow> heap_new (ByteVec bs) h)"

definition e01_handle_new ::
    "e01_c_reader \<Rightarrow> (e01_c_reader, e01_handle) heap \<Rightarrow> (ptr, string) result \<times> (e01_c_reader, e01_handle) heap" where
  "e01_handle_new r h =
     (let rd = fst r in
      case paths_to_cstring_vec 0 (er_segment_paths rd) of
        Ok ss \<Rightarrow>
          (case heap_new_strs ss h of (ps, h) \<Rightarrow>
           case heap_new (PtrArray ps) h of (paths, h) \<Rightarrow>
           case opt_array_to_ptr (er_stored_md5 rd) h of (md5, h) \<Rightarrow>
           case opt_array_to_ptr (er_stored_sha1 rd) h of (sha1, h) \<Rightarrow>
           case heap_new (ReaderBox r) h of (reader, h) \<Rightarrow>
           case heap_new (HandleBox \<lparr>eh_reader = reader, eh_segment_paths = paths,
               eh_segment_paths_count = length (er_segment_paths rd), eh_chunk_size = er_chunk_size rd,
               eh_chunk_count = er_chunk_count rd, eh_sector_count = er_sector_count rd, eh_sector_size = er_sector_size rd,
               eh_image_size = er_image_size rd, eh_stored_md5 = md5, eh_stored_sha1 = sha1\<rparr>) h of
             (p, h) \<Rightarrow> (Ok p, h))
      | Err e \<Rightarrow> (Err e, h)
      | Panic \<Rightarrow> (Panic, h))"

primrec free_strs :: "ptr list \<Rightarrow> ('r, 'h) heap \<Rightarrow> ('r, 'h) heap outcome" where
  "free_strs [] h = Return h"
| "free_strs (p # ps) h = o_bind (free_c_str p h) (free_strs ps)"

text \<open>Taking back a vector of which pointer, length and capacity are given.\<close>

definition free_c_str_array :: "ptr \<Rightarrow> nat \<Rightarrow> ('r, 'h) heap \<Rightarrow> ('r, 'h) heap outcome" where
  "free_c_str_array p n h =
     (case hp_objs h p of
        Some (PtrArray ps) \<Rightarrow> if length ps = n then o_bind (free_strs ps h) (\<lambda>h. Return (heap_release p h)) else Undefined
      | _ \<Rightarrow> Undefined)"

definition free_bytes :: "ptr \<Rightarrow> nat \<Rightarrow> ('r, 'h) heap \<Rightarrow> ('r, 'h) heap outcome" where
  "free_bytes p n h =
     (if p = 0 then Return h
      else
        (case hp_objs h p of
           Some (ByteVec bs) \<Rightarrow> if length bs = n then Return (heap_release p h) else Undefined
         | _ \<Rightarrow> Undefined))"

definition e01_handle_drop :: "e01_handle \<Rightarrow> ('r, 'h) heap \<Rightarrow> ('r, 'h) heap outcome" where
  "e01_handle_drop hdl h =
     o_bind (free_c_str_array (eh_segment_paths hdl) (eh_segment_paths_count hdl) h) (\<lambda>h.
     o_bind (free_bytes (eh_stored_md5 hdl) 16 h) (\<lambda>h.
     o_bind (free_bytes (eh_stored_sha1 hdl) 20 h) (free_reader (eh_reader hdl))))"

text \<open>\<open>env\<close> holds what a read depends on besides the reader.\<close>

record 'io e01_c_env =
  ce_sys :: "'io e01_sys"
  ce_rayon :: rayon
  ce_codec :: codec
  ce_spoil :: "nat \<Rightarrow> bytes \<Rightarrow> bytes"
  ce_open_text :: "e01_open_error \<Rightarrow> string"
  ce_read_text :: "read_error \<Rightarrow> string"

definition e01_c_lib :: "'io e01_c_env \<Rightarrow> (e01_c_reader, e01_handle) c_lib" where
  "e01_c_lib env =
     \<lparr>cl_new = e01_handle_new, cl_drop = e01_handle_drop, cl_reader = eh_reader,
      cl_read = (\<lambda>(rd, st) off n.
        case e01_read_at_offset (ce_rayon env) (ce_codec env) (es_cache (ce_sys env) (er_slots rd)) (ce_spoil env) rd st off n of
          (r, st) \<Rightarrow> Some (map_err (ce_read_text env) r, (rd, st)))\<rparr>"

text \<open>The paths as the caller passes them: null pointers or memory.\<close>

fun convert_paths :: "nat \<Rightarrow> bytes option list \<Rightarrow> (string list, string) result" where
  "convert_paths i [] = Ok []"
| "convert_paths i (p # ps) =
     (case p of
        None \<Rightarrow> Err (''segment_paths['' @ decimal i @ ''] is null'')
      | Some mem \<Rightarrow>
          (case c_to_str (c_str_at mem) of
             None \<Rightarrow> Err (''segment_paths['' @ decimal i @ ''] is not UTF-8'')
           | Some sp \<Rightarrow> and_then (convert_paths (i + 1) ps) (\<lambda>sps. Ok (sp # sps))))"

definition e01_c_open ::
    "'io e01_c_env \<Rightarrow> bytes option list option \<Rightarrow> (int \<times> int) option \<Rightarrow> string option \<Rightarrow> out_err \<Rightarrow>
      (e01_c_reader, e01_handle) heap \<Rightarrow> (ptr \<times> out_err \<times> (e01_c_reader, e01_handle) heap) outcome" where
  "e01_c_open env segment_paths options what err h =
     guard what 0
       (case options of
          None \<Rightarrow> fail_with ''options is null'' 0 err h
        | Some raw \<Rightarrow>
            (case rust_options raw of
               Ok options \<Rightarrow>
                 (case segment_paths of
                    None \<Rightarrow> fail_with ''segment_paths is null'' 0 err h
                  | Some sl \<Rightarrow>
                      if sl = [] then fail_with ''segment_paths_count is zero'' 0 err h
                      else
                        (case convert_paths 0 sl of
                           Ok sps \<Rightarrow>
                             open_result (e01_c_lib env)
                               (Some (map_err (ce_open_text env) (e01_open (ce_sys env) options sps))) err h
                         | Err e \<Rightarrow> fail_with e 0 err h
                         | Panic \<Rightarrow> Return (None, err, h)))
             | Err e \<Rightarrow> fail_with e 0 err h
             | Panic \<Rightarrow> Return (None, err, h)))"

definition e01_c_open_glob ::
    "'io e01_c_env \<Rightarrow> bytes option \<Rightarrow> (int \<times> int) option \<Rightarrow> string option \<Rightarrow> out_err \<Rightarrow>
      (e01_c_reader, e01_handle) heap \<Rightarrow> (ptr \<times> out_err \<times> (e01_c_reader, e01_handle) heap) outcome" where
  "e01_c_open_glob env example_segment_path options what err h =
     guard what 0
       (case options of
          None \<Rightarrow> fail_with ''options is null'' 0 err h
        | Some raw \<Rightarrow>
            (case rust_options raw of
               Ok options \<Rightarrow>
                 (case example_segment_path of
                    None \<Rightarrow> fail_with ''example_segment_path is null'' 0 err h
                  | Some mem \<Rightarrow>
                      (case c_to_str (c_str_at mem) of
                         None \<Rightarrow> fail_with ''example_segment_path is not UTF-8'' 0 err h
                       | Some sp \<Rightarrow>
                           open_result (e01_c_lib env)
                             (Some (map_err (ce_open_text env) (open_glob (ce_sys env) options sp))) err h))
             | Err e \<Rightarrow> fail_with e 0 err h
             | Panic \<Rightarrow> Return (None, err, h)))"

definition e01_c_close where
  "e01_c_close env = capi_close (e01_c_lib env)"

definition e01_c_read where
  "e01_c_read env = capi_read (e01_c_lib env)"

text \<open>The two ways to open an image, as one call of a session; \<open>None\<close> stands for a null pointer.\<close>

datatype e01_open_args =
    OpenList "bytes option list option" "(int \<times> int) option" "string option"
  | OpenGlob "bytes option" "(int \<times> int) option" "string option"

fun e01_c_open_any where
  "e01_c_open_any env (OpenList paths options what) err h = e01_c_open env paths options what err h"
| "e01_c_open_any env (OpenGlob path options what) err h = e01_c_open_glob env path options what err h"

subsection \<open>Stored hashes\<close>

text \<open>What the types \<open>[u8; 16]\<close> and \<open>[u8; 20]\<close> say of the stored hashes.\<close>

definition opt_len :: "nat \<Rightarrow> bytes option \<Rightarrow> bool" where
  "opt_len n x \<longleftrightarrow> (case x of None \<Rightarrow> True | Some bs \<Rightarrow> length bs = n)"

definition hash_arrays :: "e01_reader \<Rightarrow> bool" where
  "hash_arrays rd \<longleftrightarrow> opt_len 16 (er_stored_md5 rd) \<and> opt_len 20 (er_stored_sha1 rd)"

definition sec_hashes :: "ewf_section \<Rightarrow> bool" where
  "sec_hashes sec \<longleftrightarrow>
     (case sec of SecHash m \<Rightarrow> length m = 16 | SecDigest m s \<Rightarrow> length m = 16 \<and> length s = 20 | _ \<Rightarrow> True)"

lemma exactly_Ok [simp]: "exactly n bs = Ok x \<longleftrightarrow> length bs = n \<and> x = bs"
  by (auto simp: exactly_def)

lemma read_section_hashes:
  assumes "read_section k io ign = Ok (off, sec)"
  shows "sec_hashes sec"
  using assms
  unfolding read_section_def
  by (auto simp: and_then_Ok_iff Let_def sec_hashes_def read_hash_section_def read_digest_section_def split: if_splits)

lemma section_next_hashes:
  assumes "section_next k io ign cur = Some (Ok (off, sec))"
  shows "sec_hashes sec"
  using assms read_section_hashes
  unfolding section_next_def by (auto simp: and_then_Ok_iff split: if_splits)

definition state_hashes :: "seg_state \<Rightarrow> bool" where
  "state_hashes st \<longleftrightarrow> opt_len 16 (sg_md5 st) \<and> opt_len 20 (sg_sha1 st)"

lemma seg_section_hashes: "state_hashes st \<Longrightarrow> sec_hashes sec \<Longrightarrow> state_hashes (seg_section sec st)"
  by (cases sec) (auto simp: seg_section_def state_hashes_def sec_hashes_def opt_len_def Let_def)

lemma seg_loop_hashes:
  assumes "seg_loop k io ign cur st = Ok (st', cur')" "state_hashes st"
  shows "state_hashes st'"
  using assms
proof (induction k io ign cur st rule: seg_loop.induct)
  case (1 k io ign cur st)
  show ?case
  proof (cases "section_next k io ign cur")
    case None
    then show ?thesis using "1.prems" by (simp add: seg_loop.simps)
  next
    case (Some r)
    then obtain off sec where r: "section_next k io ign cur = Some (Ok (off, sec))"
      using "1.prems"(1) by (cases r) (auto simp: seg_loop.simps)
    have v: "state_hashes (seg_section sec st)"
      by (rule seg_section_hashes [OF "1.prems"(2) section_next_hashes [OF r]])
    show ?thesis
    proof (cases "sec = SecDone")
      case True
      then show ?thesis using "1.prems"(1) r v by (auto simp: seg_loop.simps)
    next
      case False
      then have "seg_loop k io ign off (seg_section sec st) = Ok (st', cur')"
        using "1.prems"(1) r by (subst (asm) seg_loop.simps) (auto split: ewf_section.splits)
      then show ?thesis using "1.IH" [OF r refl refl] v False by (cases sec) auto
    qed
  qed
qed

lemma read_segment_hashes:
  assumes "read_segment k p idx io ign = Ok seg"
  shows "opt_len 16 (sc_md5 seg) \<and> opt_len 20 (sc_sha1 seg)"
proof -
  obtain io' st cur where l: "seg_loop k io' ign (k_pos k io') seg_init = Ok (st, cur)"
    and seg: "sc_md5 seg = sg_md5 st" "sc_sha1 seg = sg_sha1 st"
    using assms unfolding read_segment_def located_def by (auto simp: and_then_Ok_iff)
  have "state_hashes st"
    by (rule seg_loop_hashes [OF l]) (simp add: seg_init_def state_hashes_def opt_len_def)
  then show ?thesis using seg by (simp add: state_hashes_def)
qed

lemma read_segments_hashes:
  "read_segments sys slots ign idx ps = Ok segs \<Longrightarrow> seg \<in> set segs \<Longrightarrow> opt_len 16 (sc_md5 seg) \<and> opt_len 20 (sc_sha1 seg)"
  by (induction ps arbitrary: idx segs) (auto simp: and_then_Ok_iff dest: read_segment_hashes)

lemma first_some_opt_len: "(\<forall>x \<in> set xs. opt_len n x) \<Longrightarrow> opt_len n (first_some xs)"
proof (induction xs)
  case (Cons x xs)
  then show ?case by (cases x) auto
qed (simp add: opt_len_def)

lemma open_impl_hashes:
  assumes "open_impl sys options auth paths = Ok (rd, st)"
  shows "hash_arrays rd"
proof -
  obtain slots segs meta where s: "read_segments sys slots (eo_section_policy options = DamnTheTorpedoes) 0 paths = Ok segs"
    "process_segments segs = Ok meta" "reader_of sys options slots meta = Ok (rd, st)"
    using assms unfolding open_impl_def by (auto simp: and_then_Ok_iff split: if_splits)
  have m: "em_md5 meta = first_some (None # map sc_md5 segs)" "em_sha1 meta = first_some (None # map sc_sha1 segs)"
    using s(2) unfolding process_segments_def and_then_Ok_iff process_loop_Ok
    by (auto simp: collected_def split: option.splits)
  have rd: "er_stored_md5 rd = em_md5 meta" "er_stored_sha1 rd = em_sha1 meta"
    using s(3) by (auto simp: reader_of_def Let_def and_then_Ok_iff)
  have "opt_len 16 (em_md5 meta)" "opt_len 20 (em_sha1 meta)"
    unfolding m using read_segments_hashes [OF s(1)] by (auto intro!: first_some_opt_len)
  then show ?thesis using rd by (simp add: hash_arrays_def)
qed

lemma e01_open_hashes: "e01_open sys options paths = Ok (rd, st) \<Longrightarrow> hash_arrays rd"
  using open_impl_hashes by (auto simp: e01_open_def and_then_Ok_iff)

lemma open_glob_hashes: "open_glob sys options path = Ok (rd, st) \<Longrightarrow> hash_arrays rd"
  using open_impl_hashes by (auto simp: open_glob_def and_then_Ok_iff split: if_splits)

subsection \<open>The block of a handle\<close>

text \<open>Every allocation of the block has its own kind or length, so that no two of them are the same.\<close>

definition opt_block :: "nat \<Rightarrow> ptr \<Rightarrow> (ptr \<rightharpoonup> ('r, 'h) alloc) \<Rightarrow> bool" where
  "opt_block n p m \<longleftrightarrow> (p \<noteq> 0 \<longrightarrow> (\<exists>bs. m p = Some (ByteVec bs) \<and> length bs = n))"

definition handle_parts :: "ptr \<Rightarrow> e01_handle \<Rightarrow> ptr list \<Rightarrow> ptr set" where
  "handle_parts p hdl ps =
     {p, eh_reader hdl, eh_segment_paths hdl} \<union> set ps \<union> ({eh_stored_md5 hdl, eh_stored_sha1 hdl} - {0})"

definition e01_block :: "ptr \<Rightarrow> (ptr \<rightharpoonup> (e01_c_reader, e01_handle) alloc) \<Rightarrow> bool" where
  "e01_block p m \<longleftrightarrow>
     (\<exists>hdl r ps. m p = Some (HandleBox hdl) \<and> m (eh_reader hdl) = Some (ReaderBox r) \<and> hash_arrays (fst r) \<and>
        m (eh_segment_paths hdl) = Some (PtrArray ps) \<and> eh_segment_paths_count hdl = length ps \<and> distinct ps \<and>
        (\<forall>q \<in> set ps. \<exists>s. m q = Some (CStr s)) \<and> opt_block 16 (eh_stored_md5 hdl) m \<and> opt_block 20 (eh_stored_sha1 hdl) m \<and>
        dom m = handle_parts p hdl ps)"

lemma e01_reader_block:
  assumes "e01_block p m"
  shows "\<exists>hdl r. m p = Some (HandleBox hdl) \<and> m (eh_reader hdl) = Some (ReaderBox r) \<and> hash_arrays (fst r) \<and>
    (\<forall>r'. hash_arrays (fst r') \<longrightarrow> e01_block p (m(eh_reader hdl \<mapsto> ReaderBox r')))"
proof -
  obtain hdl r ps where m: "m p = Some (HandleBox hdl)" "m (eh_reader hdl) = Some (ReaderBox r)" "hash_arrays (fst r)"
    "m (eh_segment_paths hdl) = Some (PtrArray ps)" "eh_segment_paths_count hdl = length ps" "distinct ps"
    "\<forall>q \<in> set ps. \<exists>s. m q = Some (CStr s)" "opt_block 16 (eh_stored_md5 hdl) m" "opt_block 20 (eh_stored_sha1 hdl) m"
    "dom m = handle_parts p hdl ps"
    using assms unfolding e01_block_def by blast
  have "e01_block p (m(eh_reader hdl \<mapsto> ReaderBox r'))" if "hash_arrays (fst r')" for r'
  proof -
    let ?m = "m(eh_reader hdl \<mapsto> ReaderBox r')"
    have keep: "?m q = m q" if "m q \<noteq> Some (ReaderBox r)" for q using that m(2) by auto
    have "opt_block 16 (eh_stored_md5 hdl) ?m" "opt_block 20 (eh_stored_sha1 hdl) ?m"
      using m(2,8,9) by (auto simp: opt_block_def)
    moreover have "\<forall>q \<in> set ps. \<exists>s. ?m q = Some (CStr s)" using m(2,7) by auto
    moreover have "dom ?m = handle_parts p hdl ps" using m(10) by (auto simp: handle_parts_def)
    moreover have "?m p = Some (HandleBox hdl)" "?m (eh_segment_paths hdl) = Some (PtrArray ps)" using m(1,4) keep by auto
    ultimately show ?thesis using m(5,6) that unfolding e01_block_def by (intro exI [of _ hdl] exI [of _ r'] exI [of _ ps]) auto
  qed
  then show ?thesis using m(1-3) by blast
qed

lemma free_strs_all:
  assumes "distinct ps" "\<forall>q \<in> set ps. \<exists>s. hp_objs h q = Some (CStr s)"
  shows "\<exists>h'. free_strs ps h = Return h' \<and> hp_next h' = hp_next h \<and> hp_objs h' = hp_objs h |` (- set ps)"
  using assms
proof (induction ps arbitrary: h)
  case (Cons q ps)
  obtain s where q: "hp_objs h q = Some (CStr s)" using Cons.prems(2) by auto
  let ?h = "heap_release q h"
  have "\<forall>q' \<in> set ps. \<exists>s. hp_objs ?h q' = Some (CStr s)" using Cons.prems by (auto simp: heap_release_def)
  then obtain h' where h': "free_strs ps ?h = Return h'" "hp_next h' = hp_next ?h" "hp_objs h' = hp_objs ?h |` (- set ps)"
    using Cons.IH [of ?h] Cons.prems(1) by auto
  have "hp_objs ?h |` (- set ps) = hp_objs h |` (- set (q # ps))"
    by (auto simp: heap_release_def restrict_map_def fun_eq_iff)
  then show ?case using q h' by (simp add: free_c_str_def heap_release_def)
qed (simp add: restrict_map_def)

lemma free_bytes_block:
  "opt_block n q (hp_objs h) \<Longrightarrow>
    \<exists>h'. free_bytes q n h = Return h' \<and> hp_next h' = hp_next h \<and> hp_objs h' = hp_objs h |` (- ({q} - {0}))"
  by (auto simp: free_bytes_def opt_block_def heap_release_def restrict_map_def fun_eq_iff)

lemma opt_block_keep: "opt_block n q f \<Longrightarrow> (\<And>bs. f q = Some (ByteVec bs) \<Longrightarrow> length bs = n \<Longrightarrow> g q = f q) \<Longrightarrow> opt_block n q g"
  unfolding opt_block_def by metis

lemma e01_drop_block:
  assumes "e01_block p m" "m \<subseteq>\<^sub>m hp_objs h"
  shows "\<exists>hdl h'. m p = Some (HandleBox hdl) \<and> e01_handle_drop hdl h = Return h' \<and> hp_next h' = hp_next h \<and>
    (hp_objs h')(p := None) = hp_objs h |` (- dom m)"
proof -
  obtain hdl r ps where m: "m p = Some (HandleBox hdl)" "m (eh_reader hdl) = Some (ReaderBox r)"
    "m (eh_segment_paths hdl) = Some (PtrArray ps)" "eh_segment_paths_count hdl = length ps" "distinct ps"
    "\<forall>q \<in> set ps. \<exists>s. m q = Some (CStr s)" "opt_block 16 (eh_stored_md5 hdl) m" "opt_block 20 (eh_stored_sha1 hdl) m"
    "dom m = handle_parts p hdl ps"
    using assms(1) unfolding e01_block_def by blast
  have le: "hp_objs h q = Some x" if "m q = Some x" for q x using assms(2) that by (metis domI map_le_def)
  have o: "hp_objs h (eh_reader hdl) = Some (ReaderBox r)" "hp_objs h (eh_segment_paths hdl) = Some (PtrArray ps)"
    "\<forall>q \<in> set ps. \<exists>s. hp_objs h q = Some (CStr s)" "opt_block 16 (eh_stored_md5 hdl) (hp_objs h)"
    "opt_block 20 (eh_stored_sha1 hdl) (hp_objs h)"
    using m le unfolding opt_block_def by metis+
  obtain h1 where 1: "free_strs ps h = Return h1" "hp_next h1 = hp_next h" "hp_objs h1 = hp_objs h |` (- set ps)"
    using free_strs_all [OF m(5) o(3)] by blast
  let ?h1 = "heap_release (eh_segment_paths hdl) h1"
  have a: "free_c_str_array (eh_segment_paths hdl) (eh_segment_paths_count hdl) h = Return ?h1"
    using 1(1) o(2) m(4) by (simp add: free_c_str_array_def)
  have h1: "hp_objs ?h1 = hp_objs h |` (- (set ps \<union> {eh_segment_paths hdl}))"
    using 1(3) by (auto simp: heap_release_def restrict_map_def fun_eq_iff)
  have "opt_block 16 (eh_stored_md5 hdl) (hp_objs ?h1)"
    unfolding h1 by (rule opt_block_keep [OF o(4)]) (use o(2,3) in \<open>auto simp: restrict_map_def\<close>)
  then obtain h2 where 2: "free_bytes (eh_stored_md5 hdl) 16 ?h1 = Return h2" "hp_next h2 = hp_next ?h1"
    "hp_objs h2 = hp_objs ?h1 |` (- ({eh_stored_md5 hdl} - {0}))" using free_bytes_block by blast
  have h2: "hp_objs h2 = hp_objs h |` (- (set ps \<union> {eh_segment_paths hdl} \<union> ({eh_stored_md5 hdl} - {0})))"
    unfolding 2(3) h1 by (auto simp: restrict_map_def fun_eq_iff)
  have "opt_block 20 (eh_stored_sha1 hdl) (hp_objs h2)"
    unfolding h2 by (rule opt_block_keep [OF o(5)]) (use o(2,3,4) in \<open>auto simp: restrict_map_def opt_block_def\<close>)
  then obtain h3 where 3: "free_bytes (eh_stored_sha1 hdl) 20 h2 = Return h3" "hp_next h3 = hp_next h2"
    "hp_objs h3 = hp_objs h2 |` (- ({eh_stored_sha1 hdl} - {0}))" using free_bytes_block by blast
  have h3: "hp_objs h3 = hp_objs h |` (- (set ps \<union> {eh_segment_paths hdl} \<union> ({eh_stored_md5 hdl, eh_stored_sha1 hdl} - {0})))"
    unfolding 3(3) h2 by (auto simp: restrict_map_def fun_eq_iff)
  have "eh_reader hdl \<notin> set ps \<union> {eh_segment_paths hdl} \<union> ({eh_stored_md5 hdl, eh_stored_sha1 hdl} - {0})"
    using o unfolding opt_block_def by force
  then have "hp_objs h3 (eh_reader hdl) = Some (ReaderBox r)" using o(1) unfolding h3 by (simp add: restrict_map_def)
  then have 4: "free_reader (eh_reader hdl) h3 = Return (heap_release (eh_reader hdl) h3)" by (simp add: free_reader_def)
  have "(hp_objs (heap_release (eh_reader hdl) h3))(p := None) = hp_objs h |` (- dom m)"
    unfolding m(9) handle_parts_def using h3 by (auto simp: heap_release_def restrict_map_def fun_eq_iff)
  moreover have "hp_next (heap_release (eh_reader hdl) h3) = hp_next h"
    using 1(2) 2(2) 3(2) by (simp add: heap_release_def)
  ultimately show ?thesis using m(1) a 2(1) 3(1) 4 by (simp add: e01_handle_drop_def)
qed

lemma extends_le: "extends h m h1 \<Longrightarrow> extends h1 m' h2 \<Longrightarrow> m \<subseteq>\<^sub>m m ++ m' \<and> m' \<subseteq>\<^sub>m m ++ m'"
proof
  assume a: "extends h m h1" and b: "extends h1 m' h2"
  have "dom m \<inter> dom m' = {}"
  proof (rule ccontr)
    assume "dom m \<inter> dom m' \<noteq> {}"
    then obtain q where "q \<in> dom m" "q \<in> dom m'" by blast
    then have "q < hp_next h1" "hp_next h1 \<le> q" using a b by (auto simp: extends_def dest!: subsetD)
    then show False by simp
  qed
  then show "m \<subseteq>\<^sub>m m ++ m'" by (metis map_add_comm map_le_map_add)
qed (rule map_le_map_add)

lemma heap_new_strs_block:
  "heap_new_strs ss h = (ps, h') \<Longrightarrow>
    \<exists>m. extends h m h' \<and> distinct ps \<and> length ps = length ss \<and> dom m = set ps \<and> map m ps = map (\<lambda>s. Some (CStr s)) ss"
proof (induction ss arbitrary: h ps h')
  case Nil
  then show ?case by (auto intro!: exI [of _ Map.empty] extends_refl)
next
  case (Cons s ss)
  obtain q h1 where 1: "heap_new (CStr s) h = (q, h1)" by fastforce
  obtain qs h2 where 2: "heap_new_strs ss h1 = (qs, h2)" by fastforce
  obtain m where m: "extends h1 m h2" "distinct qs" "length qs = length ss" "dom m = set qs"
    "map m qs = map (\<lambda>s. Some (CStr s)) ss" using Cons.IH [OF 2] by blast
  note e = extends_new [OF 1]
  have "q \<notin> set qs" using m(1,4) e by (auto simp: extends_def)
  moreover have "extends h ([q \<mapsto> CStr s] ++ m) h2" using e m(1) extends_trans by blast
  moreover have "dom ([q \<mapsto> CStr s] ++ m) = set (q # qs)" using m(4) by simp
  moreover have "([q \<mapsto> CStr s] ++ m) q = Some (CStr s)" using \<open>q \<notin> set qs\<close> m(4) by (simp add: map_add_dom_app_simps)
  moreover have "map ([q \<mapsto> CStr s] ++ m) qs = map m qs" using m(4) by (auto simp: map_add_dom_app_simps)
  moreover have "ps = q # qs" "h' = h2" using Cons.prems 1 2 by auto
  ultimately show ?case using m(2,3,5) by (intro exI [of _ "[q \<mapsto> CStr s] ++ m"]) (simp del: map_eq_conv)
qed

definition shows_bytes :: "(ptr \<rightharpoonup> ('r, 'h) alloc) \<Rightarrow> ptr \<Rightarrow> bytes option \<Rightarrow> bool" where
  "shows_bytes m q a \<longleftrightarrow> (case a of None \<Rightarrow> q = 0 | Some bs \<Rightarrow> q \<noteq> 0 \<and> m q = Some (ByteVec bs))"

lemma opt_array_block:
  assumes "opt_array_to_ptr a h = (q, h')" "opt_len n a" "heap_wf h"
  shows "\<exists>m. extends h m h' \<and> opt_block n q m \<and> dom m = {q} - {0} \<and> shows_bytes m q a"
proof (cases a)
  case None
  then show ?thesis using assms
    by (auto simp: opt_array_to_ptr_def opt_block_def shows_bytes_def intro!: exI [of _ Map.empty] extends_refl)
next
  case (Some bs)
  then have "heap_new (ByteVec bs) h = (q, h')" using assms(1) by (simp add: opt_array_to_ptr_def)
  then have e: "extends h [q \<mapsto> ByteVec bs] h'" "q = hp_next h" using extends_new by blast+
  then have "q \<noteq> 0" using assms(3) by (simp add: heap_wf_def)
  moreover have "dom [q \<mapsto> ByteVec bs :: ('a, 'b) alloc] = {q} - {0}" using \<open>q \<noteq> 0\<close> by simp
  moreover have "opt_block n q [q \<mapsto> ByteVec bs :: ('a, 'b) alloc]" using Some assms(2) by (simp add: opt_block_def opt_len_def)
  moreover have "shows_bytes [q \<mapsto> ByteVec bs :: ('a, 'b) alloc] q a" using Some \<open>q \<noteq> 0\<close> by (simp add: shows_bytes_def)
  ultimately show ?thesis using e(1) by blast
qed

lemma paths_to_cstring_vec_total: "paths_to_cstring_vec i ps = Ok ps \<or> (\<exists>e. paths_to_cstring_vec i ps = Err e)"
  by (induction i ps rule: paths_to_cstring_vec.induct) auto

lemma opt_block_le: "opt_block n q m \<Longrightarrow> m \<subseteq>\<^sub>m m' \<Longrightarrow> opt_block n q m'"
  unfolding opt_block_def map_le_def by (metis domI)

lemma map_leD: "m \<subseteq>\<^sub>m m' \<Longrightarrow> m q = Some x \<Longrightarrow> m' q = Some x"
  by (metis domI map_le_def)

text \<open>The fields of a handle are those of its reader, and its pointers lead to the paths and the hashes.\<close>

definition shows_reader :: "(ptr \<rightharpoonup> (e01_c_reader, e01_handle) alloc) \<Rightarrow> ptr \<Rightarrow> e01_c_reader \<Rightarrow> bool" where
  "shows_reader m p r \<longleftrightarrow>
     (\<exists>hdl ps. m p = Some (HandleBox hdl) \<and> m (eh_reader hdl) = Some (ReaderBox r) \<and>
        m (eh_segment_paths hdl) = Some (PtrArray ps) \<and> eh_segment_paths_count hdl = length ps \<and>
        map m ps = map (\<lambda>s. Some (CStr s)) (er_segment_paths (fst r)) \<and>
        eh_chunk_size hdl = er_chunk_size (fst r) \<and> eh_chunk_count hdl = er_chunk_count (fst r) \<and>
        eh_sector_count hdl = er_sector_count (fst r) \<and> eh_sector_size hdl = er_sector_size (fst r) \<and>
        eh_image_size hdl = er_image_size (fst r) \<and>
        shows_bytes m (eh_stored_md5 hdl) (er_stored_md5 (fst r)) \<and> shows_bytes m (eh_stored_sha1 hdl) (er_stored_sha1 (fst r)))"

lemma shows_bytes_le: "shows_bytes m q a \<Longrightarrow> m \<subseteq>\<^sub>m m' \<Longrightarrow> shows_bytes m' q a"
  unfolding shows_bytes_def by (auto split: option.splits dest: map_leD)

lemma map_eq_all: "map f ps = map (\<lambda>s. Some (CStr s)) ss \<Longrightarrow> \<forall>q \<in> set ps. \<exists>s. f q = Some (CStr s)"
proof
  fix q assume "map f ps = map (\<lambda>s. Some (CStr s)) ss" "q \<in> set ps"
  then have "f q \<in> set (map (\<lambda>s. Some (CStr s)) ss)" by (metis image_eqI set_map)
  then show "\<exists>s. f q = Some (CStr s)" by auto
qed

lemma e01_new_block:
  assumes paths: "paths_to_cstring_vec 0 (er_segment_paths (fst r)) = Ok (er_segment_paths (fst r))"
    and good: "hash_arrays (fst r)" and wf: "heap_wf h"
  shows "\<exists>p m h'. e01_handle_new r h = (Ok p, h') \<and> e01_block p m \<and> extends h m h' \<and> shows_reader m p r"
proof -
  let ?rd = "fst r" and ?ss = "er_segment_paths (fst r)"
  obtain ps h1 where 1: "heap_new_strs ?ss h = (ps, h1)" by fastforce
  obtain paths h2 where 2: "heap_new (PtrArray ps) h1 = (paths, h2)" by fastforce
  obtain md5 h3 where 3: "opt_array_to_ptr (er_stored_md5 ?rd) h2 = (md5, h3)" by fastforce
  obtain sha1 h4 where 4: "opt_array_to_ptr (er_stored_sha1 ?rd) h3 = (sha1, h4)" by fastforce
  obtain reader h5 where 5: "heap_new (ReaderBox r) h4 = (reader, h5)" by fastforce
  let ?hdl = "\<lparr>eh_reader = reader, eh_segment_paths = paths, eh_segment_paths_count = length (er_segment_paths ?rd),
    eh_chunk_size = er_chunk_size ?rd, eh_chunk_count = er_chunk_count ?rd, eh_sector_count = er_sector_count ?rd,
    eh_sector_size = er_sector_size ?rd, eh_image_size = er_image_size ?rd, eh_stored_md5 = md5, eh_stored_sha1 = sha1\<rparr>"
  obtain p h6 where 6: "heap_new (HandleBox ?hdl) h5 = (p, h6)" by fastforce
  obtain m1 where m1: "extends h m1 h1" "distinct ps" "length ps = length ?ss" "dom m1 = set ps"
    "map m1 ps = map (\<lambda>s. Some (CStr s)) ?ss" using heap_new_strs_block [OF 1] by blast
  note e2 = extends_new [OF 2] and e5 = extends_new [OF 5] and e6 = extends_new [OF 6]
  have x2: "extends h (m1 ++ [paths \<mapsto> PtrArray ps]) h2" using m1(1) e2 extends_trans by blast
  let ?m2 = "m1 ++ [paths \<mapsto> PtrArray ps]"
  obtain m3 where m3: "extends h2 m3 h3" "opt_block 16 md5 m3" "dom m3 = {md5} - {0}"
    "shows_bytes m3 md5 (er_stored_md5 ?rd)"
    using opt_array_block [OF 3 _ extends_wf(1) [OF wf x2], of 16] good by (auto simp: hash_arrays_def)
  have x3: "extends h (?m2 ++ m3) h3" by (rule extends_trans [OF x2 m3(1)])
  obtain m4 where m4: "extends h3 m4 h4" "opt_block 20 sha1 m4" "dom m4 = {sha1} - {0}"
    "shows_bytes m4 sha1 (er_stored_sha1 ?rd)"
    using opt_array_block [OF 4 _ extends_wf(1) [OF wf x3], of 20] good by (auto simp: hash_arrays_def)
  let ?m4 = "?m2 ++ m3 ++ m4"
  have x4: "extends h ?m4 h4" by (rule extends_trans [OF x3 m4(1)])
  let ?m5 = "?m4 ++ [reader \<mapsto> ReaderBox r]"
  have x5: "extends h ?m5 h5" using x4 e5 extends_trans by blast
  let ?m6 = "?m5 ++ [p \<mapsto> HandleBox ?hdl]"
  have x6: "extends h ?m6 h6" using x5 e6 extends_trans by blast
  have l12: "m1 \<subseteq>\<^sub>m ?m2" "[paths \<mapsto> PtrArray ps] \<subseteq>\<^sub>m ?m2" using extends_le [OF m1(1)] e2 by blast+
  have l23: "?m2 \<subseteq>\<^sub>m ?m2 ++ m3" "m3 \<subseteq>\<^sub>m ?m2 ++ m3" using extends_le [OF x2 m3(1)] by blast+
  have l34: "?m2 ++ m3 \<subseteq>\<^sub>m ?m4" "m4 \<subseteq>\<^sub>m ?m4" using extends_le [OF x3 m4(1)] by blast+
  have l45: "?m4 \<subseteq>\<^sub>m ?m5" "[reader \<mapsto> ReaderBox r] \<subseteq>\<^sub>m ?m5" using extends_le [OF x4] e5 by blast+
  have l56: "?m5 \<subseteq>\<^sub>m ?m6" "[p \<mapsto> HandleBox ?hdl] \<subseteq>\<^sub>m ?m6" using extends_le [OF x5] e6 by blast+
  note up = map_le_trans [OF l45(1) l56(1)] map_le_trans [OF l34(1) map_le_trans [OF l45(1) l56(1)]]
  have up2: "?m2 \<subseteq>\<^sub>m ?m6" by (rule map_le_trans [OF l23(1) up(2)])
  have f1: "?m6 p = Some (HandleBox ?hdl)" by (rule map_leD [OF l56(2)]) simp
  have f2: "?m6 reader = Some (ReaderBox r)" by (rule map_leD [OF map_le_trans [OF l45(2) l56(1)]]) simp
  have f3: "?m6 paths = Some (PtrArray ps)" by (rule map_leD [OF map_le_trans [OF l12(2) up2]]) simp
  have strs: "map ?m6 ps = map (\<lambda>s. Some (CStr s)) ?ss"
    using m1(4,5) map_le_trans [OF l12(1) up2] by (simp add: map_le_def flip: m1(5))
  have f4: "\<forall>q \<in> set ps. \<exists>s. ?m6 q = Some (CStr s)" by (rule map_eq_all [OF strs])
  have f5: "shows_bytes ?m6 md5 (er_stored_md5 ?rd)" by (rule shows_bytes_le [OF m3(4) map_le_trans [OF l23(2) up(2)]])
  have f6: "shows_bytes ?m6 sha1 (er_stored_sha1 ?rd)" by (rule shows_bytes_le [OF m4(4) map_le_trans [OF l34(2) up(1)]])
  have f7: "opt_block 16 md5 ?m6" by (rule opt_block_le [OF m3(2) map_le_trans [OF l23(2) up(2)]])
  have f8: "opt_block 20 sha1 ?m6" by (rule opt_block_le [OF m4(2) map_le_trans [OF l34(2) up(1)]])
  have f9: "dom ?m6 = handle_parts p ?hdl ps" using m1(4) m3(3) m4(3) by (auto simp: handle_parts_def)
  have "e01_block p ?m6"
    unfolding e01_block_def
    using f1 f2 f3 f4 f7 f8 f9 m1(2,3) good by (intro exI [of _ ?hdl] exI [of _ r] exI [of _ ps]) (simp del: map_add_upd)
  moreover have "shows_reader ?m6 p r"
    unfolding shows_reader_def
    using f1 f2 f3 f5 f6 strs m1(3) by (intro exI [of _ ?hdl] exI [of _ ps]) (simp del: map_eq_conv map_add_upd)
  moreover have "e01_handle_new r h = (Ok p, h6)"
    using paths 1 2 3 4 5 6 by (simp add: e01_handle_new_def Let_def)
  ultimately show ?thesis using x6 by blast
qed

interpretation e01_c: c_handles "e01_c_lib env" e01_block "\<lambda>r. hash_arrays (fst r)" for env
proof
  fix r :: e01_c_reader and h :: "(e01_c_reader, e01_handle) heap"
  assume good: "hash_arrays (fst r)" and wf: "heap_wf h"
  consider (ok) "paths_to_cstring_vec 0 (er_segment_paths (fst r)) = Ok (er_segment_paths (fst r))"
    | (err) e where "paths_to_cstring_vec 0 (er_segment_paths (fst r)) = Err e"
    using paths_to_cstring_vec_total by blast
  then show "(\<exists>p m h'. cl_new (e01_c_lib env) r h = (Ok p, h') \<and> e01_block p m \<and> extends h m h') \<or>
      (\<exists>e. cl_new (e01_c_lib env) r h = (Err e, h))"
  proof cases
    case ok
    then show ?thesis using e01_new_block [OF ok good wf] by (simp add: e01_c_lib_def) blast
  next
    case err
    then show ?thesis by (simp add: e01_c_lib_def e01_handle_new_def Let_def)
  qed
next
  fix r :: e01_c_reader and off n res r'
  assume "hash_arrays (fst r)" "cl_read (e01_c_lib env) r off n = Some (res, r')"
  then show "hash_arrays (fst r')" by (cases r) (auto simp: e01_c_lib_def split: prod.splits)
qed (use e01_drop_block e01_reader_block in \<open>simp_all add: e01_c_lib_def\<close>)

lemma e01_c_opens:
  assumes "heap_wf h"
  shows "\<exists>v. e01_c_open_any env args err h = Return v \<and> opened e01_block err h v"
proof -
  define P where "P what body \<longleftrightarrow> (\<exists>v. guard what 0 body = Return v \<and> opened e01_block err h v)" for what body
  have F: "P what (fail_with e 0 err h)" "P what (Return (None, err, h))" for what e
    unfolding P_def using e01_c.fail_opened e01_c.panic_opened by blast+
  have O: "P what (open_result (e01_c_lib env) (Some res) err h)" if "\<And>r. res = Ok r \<Longrightarrow> hash_arrays (fst r)" for what res
    unfolding P_def using e01_c.open_result_opened [OF assms, of "Some res" what env err] that by auto
  show ?thesis
  proof (cases args)
    case (OpenList paths options what)
    have "P what (open_result (e01_c_lib env) (Some (map_err (ce_open_text env) (e01_open (ce_sys env) o' sps))) err h)" for o' sps
      by (rule O) (auto dest: e01_open_hashes)
    then show ?thesis
      unfolding OpenList e01_c_open_any.simps e01_c_open_def P_def [symmetric]
      using F by (simp split: option.split result.split)
  next
    case (OpenGlob path options what)
    have "P what (open_result (e01_c_lib env) (Some (map_err (ce_open_text env) (open_glob (ce_sys env) o' sp))) err h)" for o' sp
      by (rule O) (auto dest: open_glob_hashes)
    then show ?thesis
      unfolding OpenGlob e01_c_open_any.simps e01_c_open_glob_def P_def [symmetric]
      using F by (simp split: option.split result.split)
  qed
qed

interpretation e01_client: c_client "e01_c_lib env" e01_block "\<lambda>r. hash_arrays (fst r)" "e01_c_open_any env" for env
  by unfold_locales (use e01_c_opens in blast)

subsection \<open>Sessions\<close>

text \<open>C6: no client of the C interface of \<open>e01\<close> that releases each handle and error at most once can make it run into
  undefined behaviour, whatever lists of paths, options, offsets, null pointers and out-parameters it
  passes and whatever the image files hold: every sequence of calls returns, and once everything is
  released no memory is left.\<close>

theorem e01_c_sessions_safe:
  "\<exists>s. c_run (e01_c_lib env) (e01_c_open_any env) calls session_start = Return s \<and>
     (cs_live s = [] \<longrightarrow> hp_objs (cs_heap s) = Map.empty)"
proof -
  have "\<forall>args err h. heap_wf h \<longrightarrow> e01_c_open_any env args err h \<noteq> Hangs"
    using e01_c_opens by (metis outcome.distinct(1))
  moreover have "\<forall>r off n. cl_read (e01_c_lib env) r off n \<noteq> None" by (auto simp: e01_c_lib_def split: prod.splits)
  ultimately show ?thesis using e01_client.sessions_safe [of env calls] by blast
qed

text \<open>What the caller of the C interface may assume of a handle: every pointer in it points to what its type says.\<close>

definition array_typed :: "(ptr \<rightharpoonup> ('r, 'h) alloc) \<Rightarrow> nat \<Rightarrow> ptr \<Rightarrow> bool" where
  "array_typed objs n p \<longleftrightarrow> p = 0 \<or> (\<exists>bs. objs p = Some (ByteVec bs) \<and> length bs = n)"

definition handle_typed :: "(ptr \<rightharpoonup> (e01_c_reader, e01_handle) alloc) \<Rightarrow> ptr \<Rightarrow> bool" where
  "handle_typed objs p \<longleftrightarrow>
     (\<exists>hdl r ps. objs p = Some (HandleBox hdl) \<and> objs (eh_reader hdl) = Some (ReaderBox r) \<and>
        objs (eh_segment_paths hdl) = Some (PtrArray ps) \<and> eh_segment_paths_count hdl = length ps \<and>
        (\<forall>q \<in> set ps. \<exists>s. objs q = Some (CStr s)) \<and>
        array_typed objs 16 (eh_stored_md5 hdl) \<and> array_typed objs 20 (eh_stored_sha1 hdl))"

lemma e01_block_typed:
  assumes "e01_block p m" "m \<subseteq>\<^sub>m objs"
  shows "handle_typed objs p"
proof -
  have le: "m q = Some v \<Longrightarrow> objs q = Some v" for q v using assms(2) by (metis domI map_le_def)
  have arr: "opt_block n q m \<Longrightarrow> array_typed objs n q" for n q
    unfolding opt_block_def array_typed_def using le by metis
  obtain hdl r ps where m: "m p = Some (HandleBox hdl)" "m (eh_reader hdl) = Some (ReaderBox r)"
    "m (eh_segment_paths hdl) = Some (PtrArray ps)" "eh_segment_paths_count hdl = length ps"
    "\<forall>q \<in> set ps. \<exists>s. m q = Some (CStr s)" "opt_block 16 (eh_stored_md5 hdl) m" "opt_block 20 (eh_stored_sha1 hdl) m"
    using assms(1) unfolding e01_block_def by blast
  have "\<forall>q \<in> set ps. \<exists>s. objs q = Some (CStr s)" using m(5) le by metis
  then show ?thesis unfolding handle_typed_def using m(4) le [OF m(1)] le [OF m(2)] le [OF m(3)] arr [OF m(6)] arr [OF m(7)] by blast
qed

text \<open>C24: handles are well typed: after any sequence of calls, each handle that is open points to a handle, whose reader
  is a reader, whose array of paths has the length that it states and holds C strings, and whose stored
  hashes, where there are any, are arrays of 16 and 20 bytes, whatever the image files hold.\<close>

theorem e01_c_handles_typed:
  assumes "c_run (e01_c_lib env) (e01_c_open_any env) calls session_start = Return s" "LiveHandle p \<in> set (cs_live s)"
  shows "handle_typed (hp_objs (cs_heap s)) p"
proof -
  have "session_ok e01_block session_start"
    by (simp add: session_ok_def session_start_def) (simp add: heap_empty_def)
  then have "session_ok e01_block s" using e01_client.run_ok [of session_start env calls] assms(1) by auto
  then obtain ms where ms: "list_all2 (live_block e01_block) (cs_live s) ms" "tiles ms (hp_objs (cs_heap s))"
    by (auto simp: session_ok_def)
  obtain i where i: "i < length (cs_live s)" "cs_live s ! i = LiveHandle p" using assms(2) by (auto simp: in_set_conv_nth)
  then have "e01_block p (ms ! i)" "i < length ms" using ms(1) by (auto simp: list_all2_conv_all_nth)
  then show ?thesis using e01_block_typed tiles_le [OF ms(2)] by (meson nth_mem)
qed

subsection \<open>Opening and reading\<close>

lemma string_bytes_byte_char: "string_bytes (map byte_char bs) = bs"
proof (induction bs)
  case (Cons b bs)
  have "unat b < 256" by simp
  then have "(of_nat (of_char (byte_char b)) :: u8) = b" by (simp add: byte_char_def)
  then show ?case using Cons.IH by (simp add: string_bytes_def)
qed (simp add: string_bytes_def)

lemma byte_char_nul: "byte_char b = CHR 0x00 \<Longrightarrow> b = 0"
proof -
  assume "byte_char b = CHR 0x00"
  then have "string_bytes (map byte_char [b]) = string_bytes [CHR 0x00]" by simp
  then have "[b] = string_bytes [CHR 0x00]" unfolding string_bytes_byte_char .
  then show "b = 0" by (simp add: string_bytes_def)
qed

text \<open>A path that came in as a C string goes out as one.\<close>

lemma c_to_str_path:
  assumes "c_to_str (c_str_at mem) = Some sp"
  shows "utf8_valid (string_bytes sp)" "CHR 0x00 \<notin> set sp"
proof -
  have sp: "sp = map byte_char (c_str_at mem)" "utf8_valid (c_str_at mem)"
    using assms by (auto simp: c_to_str_def split: if_splits)
  then show "utf8_valid (string_bytes sp)" by (simp add: string_bytes_byte_char)
  have "(0 :: u8) \<notin> set (c_str_at mem)" by (auto simp: c_str_at_def dest: set_takeWhileD)
  then show "CHR 0x00 \<notin> set sp" unfolding sp(1) using byte_char_nul by force
qed

lemma convert_paths_cstring:
  "convert_paths i sl = Ok sps \<Longrightarrow> paths_to_cstring_vec j sps = Ok sps"
  by (induction i sl arbitrary: j sps rule: convert_paths.induct)
    (auto simp: and_then_Ok_iff dest: c_to_str_path split: option.splits)

lemma e01_c_open_lemma:
  assumes w: "ewf_words (es_env (ce_sys env))" and wf: "heap_wf h" and o: "rust_options raw = Ok o'"
    and p: "convert_paths 0 sl = Ok sps" and r: "e01_open (ce_sys env) o' sps = Ok (rd, st)"
  shows "\<exists>p m h'. e01_c_open env (Some sl) (Some raw) what err h = Return (p, err, h') \<and> p \<noteq> 0 \<and> e01_block p m \<and>
    extends h m h' \<and> shows_reader m p (rd, st)"
proof -
  obtain auth where "open_impl (ce_sys env) o' auth sps = Ok (rd, st)"
    using r by (auto simp: e01_open_def and_then_Ok_iff)
  then have ps: "er_segment_paths rd = sps" "sps \<noteq> []" using open_impl_ok [OF w] by blast+
  then have "sl \<noteq> []" using p by auto
  moreover have "paths_to_cstring_vec 0 (er_segment_paths (fst (rd, st))) = Ok (er_segment_paths (fst (rd, st)))"
    using convert_paths_cstring [OF p, of 0] ps(1) by simp
  then obtain q m h' where q: "e01_handle_new (rd, st) h = (Ok q, h')" "e01_block q m" "extends h m h'" "shows_reader m q (rd, st)"
    using e01_new_block [OF _ _ wf] e01_open_hashes [OF r] by fastforce
  ultimately have "e01_c_open env (Some sl) (Some raw) what err h = Return (q, err, h')"
    using o p r by (simp add: e01_c_open_def open_result_def e01_c_lib_def guard_def)
  then show ?thesis using q(2-4) e01_c.block_not_null [OF q(2) wf q(3)] by blast
qed

lemma shows_reader_le:
  assumes "shows_reader m p r" "m \<subseteq>\<^sub>m m'"
  shows "shows_reader m' p r"
proof -
  obtain hdl ps where f: "m p = Some (HandleBox hdl)" "m (eh_reader hdl) = Some (ReaderBox r)"
    "m (eh_segment_paths hdl) = Some (PtrArray ps)" "eh_segment_paths_count hdl = length ps"
    "map m ps = map (\<lambda>s. Some (CStr s)) (er_segment_paths (fst r))"
    "eh_chunk_size hdl = er_chunk_size (fst r)" "eh_chunk_count hdl = er_chunk_count (fst r)"
    "eh_sector_count hdl = er_sector_count (fst r)" "eh_sector_size hdl = er_sector_size (fst r)"
    "eh_image_size hdl = er_image_size (fst r)"
    "shows_bytes m (eh_stored_md5 hdl) (er_stored_md5 (fst r))" "shows_bytes m (eh_stored_sha1 hdl) (er_stored_sha1 (fst r))"
    using assms(1) unfolding shows_reader_def by blast
  have "map m' ps = map m ps"
    using map_eq_all [OF f(5)] map_leD [OF assms(2)] by (auto intro!: map_cong [OF refl])
  then show ?thesis
    unfolding shows_reader_def
    using f map_leD [OF assms(2)] shows_bytes_le [OF _ assms(2)]
    by (intro exI [of _ hdl] exI [of _ ps]) (simp del: map_eq_conv)
qed

lemma reported_error:
  "reported err h err2 h2 \<Longrightarrow> err \<noteq> None \<Longrightarrow> \<exists>q message. err2 = Some q \<and> hp_objs h2 q = Some (ErrorBox message)"
  by (auto simp: reported_def error_block_def extends_def split: option.splits)

text \<open>C11: through the C interface an image is what it is in Rust: opening the segments that the reader can open gives a
  handle and leaves the out-parameter alone; the fields of the handle are those of the reader, its
  pointers lead to the paths and the stored hashes; and a read gives the bytes that the reader
  gives, or reads 0 bytes and reports an error when the reader fails or panics.\<close>

theorem e01_c_open_and_read:
  assumes "ewf_words (es_env (ce_sys env))" "heap_wf h" "rust_options raw = Ok o'" "convert_paths 0 sl = Ok sps"
    and "e01_open (ce_sys env) o' sps = Ok (rd, st)"
  shows "\<exists>p h'. e01_c_open env (Some sl) (Some raw) what err h = Return (p, err, h') \<and> p \<noteq> 0 \<and>
    shows_reader (hp_objs h') p (rd, st) \<and>
    (\<forall>off n what' err'. \<exists>bs err2 h2. e01_c_read env what' p off (Some n) err' h' = Return (bs, err2, h2) \<and>
       (case fst (e01_read_at_offset (ce_rayon env) (ce_codec env) (es_cache (ce_sys env) (er_slots rd)) (ce_spoil env) rd st off n) of
          Ok xs \<Rightarrow> bs = xs \<and> err2 = err'
        | _ \<Rightarrow> bs = [] \<and> (err' \<noteq> None \<longrightarrow> (\<exists>q message. err2 = Some q \<and> hp_objs h2 q = Some (ErrorBox message)))))"
proof -
  obtain p m h' where p: "e01_c_open env (Some sl) (Some raw) what err h = Return (p, err, h')" "p \<noteq> 0" "e01_block p m"
    "extends h m h'" "shows_reader m p (rd, st)" using e01_c_open_lemma [OF assms] by blast
  have le: "m \<subseteq>\<^sub>m hp_objs h'" using p(4) by (simp add: extends_def)
  have sh: "shows_reader (hp_objs h') p (rd, st)" by (rule shows_reader_le [OF p(5) le])
  have "\<exists>bs err2 h2. e01_c_read env what' p off (Some n) err' h' = Return (bs, err2, h2) \<and>
       (case fst (e01_read_at_offset (ce_rayon env) (ce_codec env) (es_cache (ce_sys env) (er_slots rd)) (ce_spoil env) rd st off n) of
          Ok xs \<Rightarrow> bs = xs \<and> err2 = err'
        | _ \<Rightarrow> bs = [] \<and> (err' \<noteq> None \<longrightarrow> (\<exists>q message. err2 = Some q \<and> hp_objs h2 q = Some (ErrorBox message))))"
    for off n what' err'
  proof -
    obtain res st' where e: "e01_read_at_offset (ce_rayon env) (ce_codec env) (es_cache (ce_sys env) (er_slots rd)) (ce_spoil env) rd st off n =
      (res, st')" by fastforce
    obtain hdl where hdl: "m p = Some (HandleBox hdl)" "m (eh_reader hdl) = Some (ReaderBox (rd, st))"
      using p(5) by (auto simp: shows_reader_def)
    then have c: "cl_read (e01_c_lib env) (rd, st) off n = Some (map_err (ce_read_text env) res, (rd, st'))"
      using e by (simp add: e01_c_lib_def)
    show ?thesis
    proof (cases rule: e01_c.read_block [OF p(3) le p(2) refl, of env off n what' err'])
      case (1 hdl' r)
      then show ?thesis using hdl c by (simp add: e01_c_lib_def)
    next
      case (2 hdl' r res' r' m' h1 bs err2 h2)
      then have "res' = map_err (ce_read_text env) res" using hdl c by (simp add: e01_c_lib_def)
      then show ?thesis using 2(8,9) e reported_error [of err' h1 err2 h2]
        by (cases res) (auto simp: e01_c_read_def)
    qed
  qed
  then show ?thesis using p(1,2) sh by blast
qed

subsection \<open>A small image\<close>

definition sample_c_env :: "(bytes \<times> nat) e01_c_env" where
  "sample_c_env =
     \<lparr>ce_sys = file_sys ''i.E01'' sample_written, ce_rayon = \<lparr>ry_schedule = [1, 0], ry_pick = 0\<rparr>, ce_codec = plain_codec,
      ce_spoil = (\<lambda>off bs. bs), ce_open_text = (\<lambda>e. ''open''), ce_read_text = (\<lambda>e. ''read'')\<rparr>"

lemma sample_c_open:
  obtains o' pool where "rust_options (0, 0) = Ok o'" "convert_paths 0 [Some (string_bytes ''i.E01'')] = Ok [''i.E01'']"
    "e01_open (ce_sys sample_c_env) o' [''i.E01''] =
      Ok (written_reader plain_stream byte_sum sample_spec o' ''i.E01'' sample_written pool, opened_state o')"
    "ewf_words (es_env (ce_sys sample_c_env))"
proof -
  obtain o' where o: "rust_options (0, 0) = Ok o'" "eo_section_policy o' = SecError" by (simp add: rust_options_def)
  obtain pool where "e01_open (file_sys ''i.E01'' sample_written) o' [''i.E01''] =
      Ok (written_reader plain_stream byte_sum sample_spec o' ''i.E01'' sample_written pool, opened_state o')"
    by (rule open_written [OF sample_written_served sample_spec_ok sample_written_def o(2)])
  moreover have "convert_paths 0 [Some (string_bytes ''i.E01'')] = (Ok [''i.E01''] :: (string list, string) result)" by code_simp
  moreover have "ewf_words (es_env (file_sys ''i.E01'' sample_written))" using mem_env_words by (simp add: file_sys_def)
  ultimately show thesis using that o(1) by (simp add: sample_c_env_def)
qed

theorem e01_c_open_and_read_witness:
  "\<exists>p h' h2. e01_c_open sample_c_env (Some [Some (string_bytes ''i.E01'')]) (Some (0, 0)) None (Some 0) heap_empty =
       Return (p, Some 0, h') \<and> p \<noteq> 0 \<and>
     e01_c_read sample_c_env None p 2 (Some 3) (Some 0) h' = Return ([3, 4, 5], Some 0, h2)"
proof -
  obtain o' pool where o: "rust_options (0, 0) = Ok o'" "convert_paths 0 [Some (string_bytes ''i.E01'')] = Ok [''i.E01'']"
    "e01_open (ce_sys sample_c_env) o' [''i.E01''] =
      Ok (written_reader plain_stream byte_sum sample_spec o' ''i.E01'' sample_written pool, opened_state o')"
    "ewf_words (es_env (ce_sys sample_c_env))" by (rule sample_c_open)
  let ?rd = "written_reader plain_stream byte_sum sample_spec o' ''i.E01'' sample_written pool"
  obtain st' where r: "e01_read_at_offset (ce_rayon sample_c_env) (ce_codec sample_c_env)
      (es_cache (ce_sys sample_c_env) (er_slots ?rd)) (ce_spoil sample_c_env) ?rd (opened_state o') 2 3 = (Ok [3, 4, 5], st')"
    using e01_read_lemma [OF sample_written_state [of o' pool], of 2 3]
    by (auto simp: sample_c_env_def written_reader_def sample_spec_def u64_lim_def sub_list_def)
  obtain p h' where p: "e01_c_open sample_c_env (Some [Some (string_bytes ''i.E01'')]) (Some (0, 0)) None (Some 0) heap_empty =
      Return (p, Some 0, h')" "p \<noteq> 0"
    "\<forall>off n what' err'. \<exists>bs err2 h2. e01_c_read sample_c_env what' p off (Some n) err' h' = Return (bs, err2, h2) \<and>
       (case fst (e01_read_at_offset (ce_rayon sample_c_env) (ce_codec sample_c_env)
           (es_cache (ce_sys sample_c_env) (er_slots ?rd)) (ce_spoil sample_c_env) ?rd (opened_state o') off n) of
          Ok xs \<Rightarrow> bs = xs \<and> err2 = err'
        | _ \<Rightarrow> bs = [] \<and> (err' \<noteq> None \<longrightarrow> (\<exists>q message. err2 = Some q \<and> hp_objs h2 q = Some (ErrorBox message))))"
    using e01_c_open_and_read [OF o(4) heap_wf_empty o(1,2,3), of None "Some 0"] by blast
  obtain bs err2 h2 where "e01_c_read sample_c_env None p 2 (Some 3) (Some 0) h' = Return (bs, err2, h2)"
    "bs = [3, 4, 5]" "err2 = Some 0" using p(3) [rule_format, of None 2 3 "Some 0"] r by auto
  then show ?thesis using p(1,2) by blast
qed

theorem e01_c_sessions_safe_witness:
  "\<exists>s. c_run (e01_c_lib sample_c_env) (e01_c_open_any sample_c_env)
       [COpen (OpenList (Some [Some (string_bytes ''i.E01'')]) (Some (0, 0)) None) True, CClose 0] session_start = Return s \<and>
     cs_live s = [] \<and> hp_objs (cs_heap s) = Map.empty"
proof -
  obtain o' pool where o: "rust_options (0, 0) = Ok o'" "convert_paths 0 [Some (string_bytes ''i.E01'')] = Ok [''i.E01'']"
    "e01_open (ce_sys sample_c_env) o' [''i.E01''] =
      Ok (written_reader plain_stream byte_sum sample_spec o' ''i.E01'' sample_written pool, opened_state o')"
    "ewf_words (es_env (ce_sys sample_c_env))" by (rule sample_c_open)
  obtain p h' where p: "e01_c_open sample_c_env (Some [Some (string_bytes ''i.E01'')]) (Some (0, 0)) None (Some 0) heap_empty =
      Return (p, Some 0, h')" "p \<noteq> 0"
    using e01_c_open_lemma [OF o(4) heap_wf_empty o(1,2,3), of None "Some 0"] by blast
  let ?calls = "[COpen (OpenList (Some [Some (string_bytes ''i.E01'')]) (Some (0, 0)) None) True, CClose 0]"
  obtain s where s: "c_run (e01_c_lib sample_c_env) (e01_c_open_any sample_c_env) ?calls session_start = Return s"
    "cs_live s = [] \<longrightarrow> hp_objs (cs_heap s) = Map.empty"
    using e01_c_sessions_safe [of sample_c_env ?calls] by blast
  have "cs_live s = []"
    using s(1) p by (auto simp: session_start_def out_param_def new_live_def handle_at_def drop_nth_def Let_def)
  then show ?thesis using s by blast
qed

theorem e01_c_handles_typed_witness:
  "\<exists>s p. c_run (e01_c_lib sample_c_env) (e01_c_open_any sample_c_env)
       [COpen (OpenList (Some [Some (string_bytes ''i.E01'')]) (Some (0, 0)) None) True] session_start = Return s \<and>
     cs_live s = [LiveHandle p] \<and> handle_typed (hp_objs (cs_heap s)) p"
proof -
  obtain o' pool where o: "rust_options (0, 0) = Ok o'" "convert_paths 0 [Some (string_bytes ''i.E01'')] = Ok [''i.E01'']"
    "e01_open (ce_sys sample_c_env) o' [''i.E01''] =
      Ok (written_reader plain_stream byte_sum sample_spec o' ''i.E01'' sample_written pool, opened_state o')"
    "ewf_words (es_env (ce_sys sample_c_env))" by (rule sample_c_open)
  obtain p h' where p: "e01_c_open sample_c_env (Some [Some (string_bytes ''i.E01'')]) (Some (0, 0)) None (Some 0) heap_empty =
      Return (p, Some 0, h')" "p \<noteq> 0"
    using e01_c_open_lemma [OF o(4) heap_wf_empty o(1,2,3), of None "Some 0"] by blast
  let ?calls = "[COpen (OpenList (Some [Some (string_bytes ''i.E01'')]) (Some (0, 0)) None) True]"
  let ?s = "\<lparr>cs_heap = h', cs_live = [LiveHandle p]\<rparr>"
  have s: "c_run (e01_c_lib sample_c_env) (e01_c_open_any sample_c_env) ?calls session_start = Return ?s"
    using p by (simp add: session_start_def out_param_def new_live_def)
  show ?thesis using e01_c_handles_typed [OF s, of p] s by auto
qed

end
