(* ===== verification/S3Creds.thy ===== *)
theory S3Creds
  imports Sources
begin

text \<open>
  Credentials and regions for S3, \<open>imagesource/src/s3_creds.rs\<close> with the parts of \<open>s3source.rs\<close>, \<open>exists.rs\<close> and
  \<open>urlsource.rs\<close> that use them: where credentials come from, when they are refreshed, and which credentials
  and which region a bucket is used with.

  The AWS crates are parameters.  \<open>'w\<close> is the world outside: \<open>aws\<close> holds the loading of a profile, the asking of
  a provider and the clock; \<open>bucket_lib\<close> holds the operations on buckets (\<open>'b\<close>) and regions (\<open>'r\<close>) of
  \<open>rust-s3\<close>.  Times are nanoseconds.  The environment is \<open>env\<close>.

  Shown: a request is signed with the credentials of the session, which are then good for at least the skew or
  were just provided; in every interleaving of requests the provider is asked by one at a time, and never
  while what it gave before is still good; a configured region is never replaced.
\<close>

subsection \<open>Credentials\<close>

record credentials =
  cr_access_key :: "string option"
  cr_secret_key :: "string option"
  cr_session_token :: "string option"
  cr_security_token :: "string option"
  cr_expiration :: "int option"

record aws_credentials =
  ac_access_key_id :: string
  ac_secret_access_key :: string
  ac_session_token :: "string option"
  ac_expiry :: "int option"

definition EXPIRY_SKEW :: int where
  "EXPIRY_SKEW = 5 * 60 * 1000000000"

definition to_s3_credentials :: "aws_credentials \<Rightarrow> credentials" where
  "to_s3_credentials a =
     \<lparr>cr_access_key = Some (ac_access_key_id a), cr_secret_key = Some (ac_secret_access_key a),
      cr_session_token = ac_session_token a, cr_security_token = ac_session_token a, cr_expiration = ac_expiry a\<rparr>"

definition is_expired :: "int \<Rightarrow> credentials \<Rightarrow> bool" where
  "is_expired now c = (case cr_expiration c of Some t \<Rightarrow> t \<le> now + EXPIRY_SKEW | None \<Rightarrow> False)"

definition credentials_rotated :: "credentials \<Rightarrow> credentials \<Rightarrow> bool" where
  "credentials_rotated current fresh \<longleftrightarrow>
     cr_access_key current \<noteq> cr_access_key fresh \<or> cr_secret_key current \<noteq> cr_secret_key fresh \<or>
     cr_session_token current \<noteq> cr_session_token fresh"

subsection \<open>The environment\<close>

record env =
  ev_var :: "string \<Rightarrow> string option"
  ev_exists :: "string \<Rightarrow> bool"

definition AWS_AUTH_ENV_VARS :: "string list" where
  "AWS_AUTH_ENV_VARS = [''AWS_PROFILE'', ''AWS_ACCESS_KEY_ID'', ''AWS_ACCESS_KEY'', ''AWS_SECRET_ACCESS_KEY'',
     ''AWS_CONTAINER_CREDENTIALS_RELATIVE_URI'', ''AWS_WEB_IDENTITY_TOKEN_FILE'', ''AWS_ROLE_ARN'']"

definition or_else :: "'a option \<Rightarrow> 'a option \<Rightarrow> 'a option" where
  "or_else a b = (case a of Some x \<Rightarrow> Some x | None \<Rightarrow> b)"

definition aws_home :: "env \<Rightarrow> string option" where
  "aws_home ev =
     or_else (ev_var ev ''HOME'')
       (case ev_var ev ''HOMEDRIVE'' of
          None \<Rightarrow> None
        | Some drive \<Rightarrow> (case ev_var ev ''HOMEPATH'' of None \<Rightarrow> None | Some path \<Rightarrow> Some (drive @ path)))"

definition path_join :: "string \<Rightarrow> string \<Rightarrow> string" where
  "path_join dir p = (if dir = [] \<or> last dir = CHR ''/'' then dir @ p else dir @ ''/'' @ p)"

definition default_credentials_path :: "env \<Rightarrow> string option" where
  "default_credentials_path ev = map_option (\<lambda>h. path_join h ''.aws/credentials'') (aws_home ev)"

definition default_config_path :: "env \<Rightarrow> string option" where
  "default_config_path ev = map_option (\<lambda>h. path_join h ''.aws/config'') (aws_home ev)"

definition path_configured :: "env \<Rightarrow> string option \<Rightarrow> bool" where
  "path_configured ev path = (case path of None \<Rightarrow> False | Some p \<Rightarrow> ev_exists ev p)"

definition aws_auth_configured :: "env \<Rightarrow> bool" where
  "aws_auth_configured ev \<longleftrightarrow>
     list_ex (\<lambda>key. ev_var ev key \<noteq> None) AWS_AUTH_ENV_VARS \<or>
     ev_var ev ''AWS_SHARED_CREDENTIALS_FILE'' \<noteq> None \<or> ev_var ev ''AWS_CONFIG_FILE'' \<noteq> None \<or>
     path_configured ev (default_credentials_path ev) \<or> path_configured ev (default_config_path ev)"

definition env_region :: "env \<Rightarrow> string option" where
  "env_region ev = or_else (ev_var ev ''AWS_REGION'') (ev_var ev ''AWS_DEFAULT_REGION'')"

subsection \<open>A session\<close>

text \<open>A provider is a number; \<open>aw_load\<close> takes the name of a profile, \<open>None\<close> for the default one.\<close>

record sdk_config =
  sc_region :: "string option"
  sc_provider :: "nat option"

record 'w aws =
  aw_load :: "string option \<Rightarrow> 'w \<Rightarrow> sdk_config \<times> 'w"
  aw_provide :: "nat \<Rightarrow> 'w \<Rightarrow> (aws_credentials, unit) result \<times> 'w"
  aw_now :: "'w \<Rightarrow> int \<times> 'w"
  aw_anonymous :: "(credentials, io_error) result"

record s3_auth =
  au_shared_creds :: credentials
  au_region :: "string option"
  au_chain :: "nat option"

text \<open>One configuration for each profile is kept in \<open>CONFIG_CACHE\<close>.\<close>

type_synonym config_cache = "string \<rightharpoonup> sdk_config"

definition sdk_config_for_profile ::
    "'w aws \<Rightarrow> string \<Rightarrow> config_cache \<Rightarrow> 'w \<Rightarrow> sdk_config \<times> config_cache \<times> 'w" where
  "sdk_config_for_profile aws profile_key cc w =
     (case cc profile_key of
        Some config \<Rightarrow> (config, cc, w)
      | None \<Rightarrow>
          (case aw_load aws (if profile_key \<noteq> ''default'' then Some profile_key else None) w of
             (config, w) \<Rightarrow> (config, cc(profile_key \<mapsto> config), w)))"

definition resolve_s3_auth ::
    "'w aws \<Rightarrow> env \<Rightarrow> config_cache \<Rightarrow> 'w \<Rightarrow> (s3_auth, io_error) result \<times> config_cache \<times> 'w" where
  "resolve_s3_auth aws ev cc w =
     (case aw_anonymous aws of
        Err e \<Rightarrow> (Err e, cc, w)
      | Panic \<Rightarrow> (Panic, cc, w)
      | Ok anon \<Rightarrow>
          let profile_key = (case ev_var ev ''AWS_PROFILE'' of Some p \<Rightarrow> p | None \<Rightarrow> ''default'') in
          case sdk_config_for_profile aws profile_key cc w of
            (config, cc, w) \<Rightarrow>
              (case sc_provider config of
                 None \<Rightarrow> (Err Other, cc, w)
               | Some chain \<Rightarrow>
                   (case aw_provide aws chain w of
                      (Ok aws_creds, w) \<Rightarrow>
                        (Ok \<lparr>au_shared_creds = to_s3_credentials aws_creds, au_region = sc_region config,
                             au_chain = Some chain\<rparr>, cc, w)
                    | (Err _, w) \<Rightarrow>
                        if aws_auth_configured ev then (Err Other, cc, w)
                        else (Ok \<lparr>au_shared_creds = anon, au_region = sc_region config, au_chain = None\<rparr>, cc, w)
                    | (Panic, w) \<Rightarrow> (Panic, cc, w))))"

definition s3_region_name :: "env \<Rightarrow> s3_auth option \<Rightarrow> string option" where
  "s3_region_name ev auth = or_else (env_region ev) (case auth of None \<Rightarrow> None | Some a \<Rightarrow> au_region a)"

text \<open>\<open>ensure_fresh_async\<close>, with nothing else going on; the interleaving of several is \<open>refresh_step\<close> below.\<close>

definition ensure_fresh :: "'w aws \<Rightarrow> s3_auth \<Rightarrow> 'w \<Rightarrow> (unit, io_error) result \<times> s3_auth \<times> 'w" where
  "ensure_fresh aws auth w =
     (case au_chain auth of
        None \<Rightarrow> (Ok (), auth, w)
      | Some chain \<Rightarrow>
          (case aw_now aws w of
             (now, w) \<Rightarrow>
               if \<not> is_expired now (au_shared_creds auth) then (Ok (), auth, w)
               else
                 (case aw_provide aws chain w of
                    (Ok aws_creds, w) \<Rightarrow> (Ok (), auth\<lparr>au_shared_creds := to_s3_credentials aws_creds\<rparr>, w)
                  | (Err _, w) \<Rightarrow> (Err Other, auth, w)
                  | (Panic, w) \<Rightarrow> (Panic, auth, w))))"

definition snapshot_credentials ::
    "'w aws \<Rightarrow> s3_auth \<Rightarrow> 'w \<Rightarrow> (credentials, io_error) result \<times> s3_auth \<times> 'w" where
  "snapshot_credentials aws auth w =
     (case ensure_fresh aws auth w of
        (r, auth, w) \<Rightarrow> (and_then r (\<lambda>_. Ok (au_shared_creds auth)), auth, w))"

subsection \<open>Buckets\<close>

record ('b, 'r, 'w) bucket_lib =
  bl_new :: "string \<Rightarrow> 'r \<Rightarrow> credentials \<Rightarrow> ('b, unit) result"
  bl_location :: "'b \<Rightarrow> 'w \<Rightarrow> ('r, unit) result \<times> 'w"
  bl_region :: "'b \<Rightarrow> 'r"
  bl_credentials :: "'b \<Rightarrow> (credentials, unit) result"
  bl_set_credentials :: "credentials \<Rightarrow> 'b \<Rightarrow> 'b"
  bl_client :: "'b \<Rightarrow> s3_client"
  bl_custom :: "string \<Rightarrow> string \<Rightarrow> 'r"
  bl_parse :: "string \<Rightarrow> 'r option"
  bl_us_east_1 :: "'r"

text \<open>A custom region has a name and an endpoint.\<close>

definition ends_with :: "string \<Rightarrow> string \<Rightarrow> bool" where
  "ends_with s t \<longleftrightarrow> length t \<le> length s \<and> drop (length s - length t) s = t"

definition s3_region_for_host_in_region :: "('b, 'r, 'w) bucket_lib \<Rightarrow> string \<Rightarrow> string \<Rightarrow> 'r" where
  "s3_region_for_host_in_region bl name region_name =
     (if ends_with name ''-s3alias'' \<or> ends_with name ''-ext-s3alias''
      then bl_custom bl region_name (''s3-accesspoint.'' @ region_name @ ''.amazonaws.com'')
      else (case bl_parse bl region_name of Some r \<Rightarrow> r | None \<Rightarrow> bl_us_east_1 bl))"

definition s3_region_configured :: "env \<Rightarrow> s3_auth \<Rightarrow> bool" where
  "s3_region_configured ev auth \<longleftrightarrow> s3_region_name ev (Some auth) \<noteq> None"

definition s3_region_for_host :: "('b, 'r, 'w) bucket_lib \<Rightarrow> env \<Rightarrow> string \<Rightarrow> s3_auth option \<Rightarrow> 'r" where
  "s3_region_for_host bl ev name auth =
     s3_region_for_host_in_region bl name
       (case s3_region_name ev auth of Some r \<Rightarrow> r | None \<Rightarrow> ''us-east-1'')"

definition bucket_with ::
    "'w aws \<Rightarrow> ('b, 'r, 'w) bucket_lib \<Rightarrow> string \<Rightarrow> string \<Rightarrow> 'r \<Rightarrow> s3_auth \<Rightarrow> 'w \<Rightarrow>
      ('b, source_open_error) result \<times> s3_auth \<times> 'w" where
  "bucket_with aws bl name ctx region auth w =
     (case snapshot_credentials aws auth w of
        (r, auth, w) \<Rightarrow>
          (and_then (map_err (\<lambda>e. (ctx, SrcIoError e)) r) (\<lambda>credentials.
             map_err (\<lambda>_. (ctx, SrcIoError Other)) (bl_new bl name region credentials)), auth, w))"

definition s3_bucket ::
    "'w aws \<Rightarrow> ('b, 'r, 'w) bucket_lib \<Rightarrow> env \<Rightarrow> string \<Rightarrow> string \<Rightarrow> s3_auth \<Rightarrow> 'w \<Rightarrow>
      ('b, source_open_error) result \<times> s3_auth \<times> 'w" where
  "s3_bucket aws bl ev name ctx auth w =
     (case bucket_with aws bl name ctx (s3_region_for_host bl ev name (Some auth)) auth w of
        (Ok bucket, auth, w) \<Rightarrow>
          if s3_region_configured ev auth \<or> ends_with name ''-s3alias'' \<or> ends_with name ''-ext-s3alias''
          then (Ok bucket, auth, w)
          else
            (case bl_location bl bucket w of
               (Ok actual, w) \<Rightarrow>
                 if actual \<noteq> bl_region bl bucket then bucket_with aws bl name ctx actual auth w
                 else (Ok bucket, auth, w)
             | (Err _, w) \<Rightarrow> (Ok bucket, auth, w)
             | (Panic, w) \<Rightarrow> (Panic, auth, w))
      | r \<Rightarrow> r)"

text \<open>\<open>S3Source::sync_credentials\<close> and \<open>S3Checker::sync_credentials\<close>.\<close>

definition sync_credentials ::
    "'w aws \<Rightarrow> ('b, 'r, 'w) bucket_lib \<Rightarrow> s3_auth \<Rightarrow> 'b \<Rightarrow> 'w \<Rightarrow> (unit, io_error) result \<times> s3_auth \<times> 'b \<times> 'w" where
  "sync_credentials aws bl auth bucket w =
     (case snapshot_credentials aws auth w of
        (Ok creds, auth, w) \<Rightarrow>
          let needs_update = (case bl_credentials bl bucket of Ok current \<Rightarrow> credentials_rotated current creds | _ \<Rightarrow> True)
          in (Ok (), auth, (if needs_update then bl_set_credentials bl creds bucket else bucket), w)
      | (Err e, auth, w) \<Rightarrow> (Err e, auth, bucket, w)
      | (Panic, auth, w) \<Rightarrow> (Panic, auth, bucket, w))"

text \<open>A range read of a source and a probe, as requests of the bucket that is then at hand.\<close>

definition s3_fetch ::
    "'w aws \<Rightarrow> ('b, 'r, 'w) bucket_lib \<Rightarrow> string \<Rightarrow> nat \<Rightarrow> nat \<Rightarrow> s3_auth \<Rightarrow> 'b \<Rightarrow> 'w \<Rightarrow>
      (bytes, io_error) result \<times> s3_auth \<times> 'b \<times> 'w" where
  "s3_fetch aws bl path beg end' auth bucket w =
     (case sync_credentials aws bl auth bucket w of
        (r, auth, bucket, w) \<Rightarrow> (s3_read ((bl_client bl bucket)\<lparr>s3_sync_credentials := r\<rparr>) path beg end', auth, bucket, w))"

definition s3_probe ::
    "'w aws \<Rightarrow> ('b, 'r, 'w) bucket_lib \<Rightarrow> string \<Rightarrow> s3_auth \<Rightarrow> 'b \<Rightarrow> 'w \<Rightarrow>
      (bool, exists_error) result \<times> s3_auth \<times> 'b \<times> 'w" where
  "s3_probe aws bl path auth bucket w =
     (case s3_key_of (bl_client bl bucket) path of
        Ok (Some key) \<Rightarrow>
          (case sync_credentials aws bl auth bucket w of
             (r, auth, bucket, w) \<Rightarrow> (s3_checker ((bl_client bl bucket)\<lparr>s3_sync_credentials := r\<rparr>) path, auth, bucket, w))
      | _ \<Rightarrow> (s3_checker (bl_client bl bucket) path, auth, bucket, w))"

subsection \<open>Requests are signed with good credentials\<close>

definition bucket_lib_ok :: "('b, 'r, 'w) bucket_lib \<Rightarrow> bool" where
  "bucket_lib_ok bl \<longleftrightarrow> (\<forall>c b. bl_credentials bl (bl_set_credentials bl c b) = Ok c)"

text \<open>What \<open>ensure_fresh\<close> leaves when it succeeds in the state \<open>w\<close>.\<close>

definition good_session :: "'w aws \<Rightarrow> s3_auth \<Rightarrow> 'w \<Rightarrow> s3_auth \<Rightarrow> bool" where
  "good_session aws auth w auth' \<longleftrightarrow>
     (case au_chain auth of
        None \<Rightarrow> auth' = auth
      | Some chain \<Rightarrow>
          (case aw_now aws w of
             (now, w) \<Rightarrow>
               if is_expired now (au_shared_creds auth)
               then \<exists>a. fst (aw_provide aws chain w) = Ok a \<and> auth' = auth\<lparr>au_shared_creds := to_s3_credentials a\<rparr>
               else auth' = auth))"

lemma ensure_fresh_good: "ensure_fresh aws auth w = (Ok u, auth', w') \<Longrightarrow> good_session aws auth w auth'"
  by (auto simp: ensure_fresh_def good_session_def split: option.splits prod.splits if_splits result.splits)

lemma sync_credentials_signed:
  assumes "bucket_lib_ok bl" "sync_credentials aws bl auth bucket w = (Ok u, auth', bucket', w')"
  shows "good_session aws auth w auth' \<and>
    (bucket' = bucket \<or> bucket' = bl_set_credentials bl (au_shared_creds auth') bucket) \<and>
    (\<exists>c. bl_credentials bl bucket' = Ok c \<and> \<not> credentials_rotated c (au_shared_creds auth'))"
proof -
  obtain auth1 w1 where s: "ensure_fresh aws auth w = (Ok (), auth1, w1)" "auth' = auth1"
      "bucket' = (if (case bl_credentials bl bucket of Ok current \<Rightarrow> credentials_rotated current (au_shared_creds auth1) | _ \<Rightarrow> True)
                  then bl_set_credentials bl (au_shared_creds auth1) bucket else bucket)"
  proof -
    obtain r a v where e: "ensure_fresh aws auth w = (r, a, v)" by (cases "ensure_fresh aws auth w")
    then have "r = Ok ()" using assms(2) by (cases r) (simp_all add: sync_credentials_def snapshot_credentials_def)
    then have "(a, (if (case bl_credentials bl bucket of Ok current \<Rightarrow> credentials_rotated current (au_shared_creds a) | _ \<Rightarrow> True)
        then bl_set_credentials bl (au_shared_creds a) bucket else bucket), v) = (auth', bucket', w')"
      using assms(2) e by (simp add: sync_credentials_def snapshot_credentials_def Let_def)
    then show thesis using e \<open>r = Ok ()\<close> by (intro that [of a v]) blast+
  qed
  have "\<not> credentials_rotated c c" for c by (simp add: credentials_rotated_def)
  then show ?thesis
    using ensure_fresh_good [OF s(1)] assms(1) s(2,3)
    by (cases "bl_credentials bl bucket") (auto simp: bucket_lib_ok_def)
qed

text \<open>C13: a range read from S3 that succeeds gave exactly the bytes asked for, in a 206 answer to a request that
  was signed with the keys and the session token of the session, all three.  If the credentials of
  the session were to expire within five minutes of the time the clock showed, the session now has what
  the provider then answered, field by field; otherwise, and in an anonymous session, it has kept what it
  had.  The bucket is the one given, but for its credentials.\<close>

theorem s3_fetch_signed_and_exact:
  assumes "bucket_lib_ok bl" "s3_fetch aws bl path beg end' auth bucket w = (Ok bs, auth', bucket', w')"
  shows "beg < end' \<and> length bs = end' - beg \<and>
    s3_get_object_range (bl_client bl bucket') path beg (end' - 1) = Ok (206, bs) \<and>
    (bucket' = bucket \<or> bucket' = bl_set_credentials bl (au_shared_creds auth') bucket) \<and>
    (\<exists>c. bl_credentials bl bucket' = Ok c \<and>
       cr_access_key c = cr_access_key (au_shared_creds auth') \<and>
       cr_secret_key c = cr_secret_key (au_shared_creds auth') \<and>
       cr_session_token c = cr_session_token (au_shared_creds auth')) \<and>
    (if \<exists>t. au_chain auth \<noteq> None \<and> cr_expiration (au_shared_creds auth) = Some t \<and>
          t \<le> fst (aw_now aws w) + 300 * 1000000000
     then \<exists>a. fst (aw_provide aws (the (au_chain auth)) (snd (aw_now aws w))) = Ok a \<and>
       auth' = auth\<lparr>au_shared_creds :=
         \<lparr>cr_access_key = Some (ac_access_key_id a), cr_secret_key = Some (ac_secret_access_key a),
          cr_session_token = ac_session_token a, cr_security_token = ac_session_token a,
          cr_expiration = ac_expiry a\<rparr>\<rparr>
     else auth' = auth)"
proof -
  obtain r where s: "sync_credentials aws bl auth bucket w = (r, auth', bucket', w')"
    "s3_read ((bl_client bl bucket')\<lparr>s3_sync_credentials := r\<rparr>) path beg end' = Ok bs"
    using assms(2) by (auto simp: s3_fetch_def split: prod.splits)
  then have r: "r = Ok ()" by (cases r) (auto simp: s3_read_def)
  have exact: "beg < end' \<and> length bs = end' - beg \<and>
      s3_get_object_range (bl_client bl bucket') path beg (end' - 1) = Ok (206, bs)"
    using s3_read_exact_length [of "(bl_client bl bucket')\<lparr>s3_sync_credentials := r\<rparr>" path beg end' bs] s(2) by simp
  have signed: "good_session aws auth w auth'"
    "bucket' = bucket \<or> bucket' = bl_set_credentials bl (au_shared_creds auth') bucket"
    "\<exists>c. bl_credentials bl bucket' = Ok c \<and> \<not> credentials_rotated c (au_shared_creds auth')"
    using sync_credentials_signed [OF assms(1)] s(1) r by blast+
  have keys: "\<exists>c. bl_credentials bl bucket' = Ok c \<and>
       cr_access_key c = cr_access_key (au_shared_creds auth') \<and>
       cr_secret_key c = cr_secret_key (au_shared_creds auth') \<and>
       cr_session_token c = cr_session_token (au_shared_creds auth')"
    using signed(3) by (auto simp: credentials_rotated_def)
  have "if \<exists>t. au_chain auth \<noteq> None \<and> cr_expiration (au_shared_creds auth) = Some t \<and>
        t \<le> fst (aw_now aws w) + 300 * 1000000000
     then \<exists>a. fst (aw_provide aws (the (au_chain auth)) (snd (aw_now aws w))) = Ok a \<and>
       auth' = auth\<lparr>au_shared_creds :=
         \<lparr>cr_access_key = Some (ac_access_key_id a), cr_secret_key = Some (ac_secret_access_key a),
          cr_session_token = ac_session_token a, cr_security_token = ac_session_token a,
          cr_expiration = ac_expiry a\<rparr>\<rparr>
     else auth' = auth"
    using signed(1)
    by (auto simp: good_session_def is_expired_def EXPIRY_SKEW_def to_s3_credentials_def
        split: option.splits prod.splits if_splits)
  with exact signed(2) keys show ?thesis by blast
qed

text \<open>A world that counts: the clock shows the count, the provider's answers last 400 seconds.\<close>

definition toy_aws :: "nat aws" where
  "toy_aws =
     \<lparr>aw_load = (\<lambda>p w. (\<lparr>sc_region = None, sc_provider = Some 0\<rparr>, w)),
      aw_provide = (\<lambda>p w. (Ok \<lparr>ac_access_key_id = (if w < 100 then ''A'' else ''B''), ac_secret_access_key = ''S'', ac_session_token = None,
         ac_expiry = Some (int w * 1000000000 + 400 * 1000000000)\<rparr>, w + 1)),
      aw_now = (\<lambda>w. (int w * 1000000000, w)),
      aw_anonymous = Ok \<lparr>cr_access_key = None, cr_secret_key = None, cr_session_token = None, cr_security_token = None,
         cr_expiration = None\<rparr>\<rparr>"

definition toy_bucket_lib :: "bytes \<Rightarrow> (string \<times> credentials, string, nat) bucket_lib" where
  "toy_bucket_lib file =
     \<lparr>bl_new = (\<lambda>name r c. Ok (r, c)), bl_location = (\<lambda>b w. (Ok ''eu-west-1'', w)), bl_region = fst,
      bl_credentials = (\<lambda>b. Ok (snd b)), bl_set_credentials = (\<lambda>c b. (fst b, c)),
      bl_client = (\<lambda>b. serving_client file), bl_custom = (\<lambda>r e. r), bl_parse = Some, bl_us_east_1 = ''us-east-1''\<rparr>"

definition toy_auth :: "int \<Rightarrow> s3_auth" where
  "toy_auth expires =
     \<lparr>au_shared_creds = \<lparr>cr_access_key = Some ''A'', cr_secret_key = Some ''S'', cr_session_token = None,
        cr_security_token = None, cr_expiration = Some expires\<rparr>, au_region = None, au_chain = Some 0\<rparr>"

theorem s3_fetch_signed_and_exact_witness:
  "\<exists>auth' bucket' w'.
     s3_fetch toy_aws (toy_bucket_lib [1, 2, 3, 4]) ''k'' 1 3 (toy_auth 600000000000) (''r'', au_shared_creds (toy_auth 600000000000)) 500 =
       (Ok [2, 3], auth', bucket', w') \<and>
     cr_access_key (snd bucket') = Some ''B''"
proof -
  let ?bl = "toy_bucket_lib [1, 2, 3, 4]" and ?auth = "toy_auth 600000000000"
  have ok: "bucket_lib_ok ?bl" by (simp add: bucket_lib_ok_def toy_bucket_lib_def)
  obtain auth' bucket' w' where f: "s3_fetch toy_aws ?bl ''k'' 1 3 ?auth (''r'', au_shared_creds ?auth) 500 = (Ok [2, 3], auth', bucket', w')"
    by (simp add: s3_fetch_def sync_credentials_def snapshot_credentials_def ensure_fresh_def toy_aws_def toy_bucket_lib_def
        toy_auth_def is_expired_def EXPIRY_SKEW_def s3_read_def check_range_response_def serving_client_def sub_list_def
        credentials_rotated_def to_s3_credentials_def Let_def)
  have "cr_access_key (snd bucket') = Some ''B''"
    using s3_fetch_signed_and_exact [OF ok f] by (auto simp: toy_aws_def toy_auth_def toy_bucket_lib_def)
  then show ?thesis using f by blast
qed

subsection \<open>The region of a bucket\<close>

lemma bucket_with_Ok:
  "bucket_with aws bl name ctx region auth w = (Ok b, auth', w') \<Longrightarrow>
     bl_new bl name region (au_shared_creds auth') = Ok b"
  by (auto simp: bucket_with_def snapshot_credentials_def and_then_Ok_iff split: prod.splits)

lemma bucket_with_region:
  "bucket_with aws bl name ctx region auth w = (r, auth', w') \<Longrightarrow> au_region auth' = au_region auth"
  by (auto simp: bucket_with_def snapshot_credentials_def ensure_fresh_def
      split: prod.splits option.splits if_splits result.splits)

text \<open>A region that the environment or the profile names is used as it is, and the service is not asked for
  another; an access point gets its own endpoint in it.  Only where none is named and the bucket is no
  access point, the region is the one the service tells (or the bootstrap region if it does not).\<close>

theorem s3_bucket_region:
  assumes "s3_bucket aws bl ev name ctx auth w = (Ok b, auth', w')"
  shows "\<exists>region. bl_new bl name region (au_shared_creds auth') = Ok b \<and>
    (region = s3_region_for_host bl ev name (Some auth) \<or>
      s3_region_name ev (Some auth) = None \<and> \<not> ends_with name ''-s3alias'' \<and> \<not> ends_with name ''-ext-s3alias'' \<and>
      (\<exists>b1 w1. fst (bl_location bl b1 w1) = Ok region))"
proof -
  let ?region = "s3_region_for_host bl ev name (Some auth)"
  obtain r1 auth1 w1 where b1: "bucket_with aws bl name ctx ?region auth w = (r1, auth1, w1)"
    by (cases "bucket_with aws bl name ctx ?region auth w")
  then obtain b1 where r1: "r1 = Ok b1" using assms by (cases r1) (auto simp: s3_bucket_def)
  have new1: "bl_new bl name ?region (au_shared_creds auth1) = Ok b1" using bucket_with_Ok [of aws bl name ctx ?region auth w b1] b1 r1 by simp
  have conf: "s3_region_configured ev auth1 \<longleftrightarrow> s3_region_name ev (Some auth) \<noteq> None"
    using bucket_with_region [OF b1] by (simp add: s3_region_configured_def s3_region_name_def)
  obtain l w2 where l: "bl_location bl b1 w1 = (l, w2)" by (cases "bl_location bl b1 w1")
  show ?thesis
  proof (cases "b = b1 \<and> auth' = auth1")
    case True
    then show ?thesis using new1 by blast
  next
    case False
    then obtain actual where "l = Ok actual" "\<not> s3_region_configured ev auth1" "\<not> ends_with name ''-s3alias''"
        "\<not> ends_with name ''-ext-s3alias''" "bucket_with aws bl name ctx actual auth1 w2 = (Ok b, auth', w')"
      using assms b1 r1 l by (cases l) (auto simp: s3_bucket_def split: if_splits)
    then have "bl_new bl name actual (au_shared_creds auth') = Ok b" "fst (bl_location bl b1 w1) = Ok actual"
      using bucket_with_Ok [of aws bl name ctx actual auth1 w2 b] l by simp_all
    then show ?thesis
      using conf \<open>\<not> s3_region_configured ev auth1\<close> \<open>\<not> ends_with name ''-s3alias''\<close> \<open>\<not> ends_with name ''-ext-s3alias''\<close>
      by (intro exI [of _ actual]) auto
  qed
qed

subsection \<open>Refreshing in parallel\<close>

text \<open>Several requests call \<open>ensure_fresh_async\<close> at once.  A task waits for the lock, looks at the shared
  credentials, asks the provider if it has to, and writes the answer; the lock is given back with the end of
  the call.  The clock may show anything at any time: it can be set back.  The history holds, in order, the times at which the credentials were found expired, with
  what the provider then answered.\<close>

datatype refresh_pc = Waiting | Holding | Asking int | Returned bool

record refresh_state =
  rf_lock :: "nat option"
  rf_pc :: "nat \<Rightarrow> refresh_pc"
  rf_shared :: credentials
  rf_now :: int
  rf_history :: "(int \<times> aws_credentials option) list"

inductive refresh_step :: "nat option \<Rightarrow> refresh_state \<Rightarrow> refresh_state \<Rightarrow> bool" for chain where
  lock: "rf_pc s t = Waiting \<Longrightarrow> rf_lock s = None \<Longrightarrow>
    refresh_step chain s (s\<lparr>rf_lock := Some t, rf_pc := (rf_pc s)(t := Holding)\<rparr>)"
| anonymous: "rf_pc s t = Holding \<Longrightarrow> chain = None \<Longrightarrow>
    refresh_step chain s (s\<lparr>rf_lock := None, rf_pc := (rf_pc s)(t := Returned True)\<rparr>)"
| still_good: "rf_pc s t = Holding \<Longrightarrow> chain = Some p \<Longrightarrow> \<not> is_expired (rf_now s) (rf_shared s) \<Longrightarrow>
    refresh_step chain s (s\<lparr>rf_lock := None, rf_pc := (rf_pc s)(t := Returned True)\<rparr>)"
| ask: "rf_pc s t = Holding \<Longrightarrow> chain = Some p \<Longrightarrow> is_expired (rf_now s) (rf_shared s) \<Longrightarrow>
    refresh_step chain s (s\<lparr>rf_pc := (rf_pc s)(t := Asking (rf_now s))\<rparr>)"
| provided: "rf_pc s t = Asking now \<Longrightarrow>
    refresh_step chain s (s\<lparr>rf_lock := None, rf_pc := (rf_pc s)(t := Returned True), rf_shared := to_s3_credentials a,
      rf_history := rf_history s @ [(now, Some a)]\<rparr>)"
| refused: "rf_pc s t = Asking now \<Longrightarrow>
    refresh_step chain s (s\<lparr>rf_lock := None, rf_pc := (rf_pc s)(t := Returned False),
      rf_history := rf_history s @ [(now, None)]\<rparr>)"
| again: "rf_pc s t = Returned b \<Longrightarrow> refresh_step chain s (s\<lparr>rf_pc := (rf_pc s)(t := Waiting)\<rparr>)"
| clock: "refresh_step chain s (s\<lparr>rf_now := now\<rparr>)"

definition refresh_init :: "credentials \<Rightarrow> int \<Rightarrow> refresh_state" where
  "refresh_init c now = \<lparr>rf_lock = None, rf_pc = (\<lambda>t. Waiting), rf_shared = c, rf_now = now, rf_history = []\<rparr>"

text \<open>Each time the provider was asked, the credentials of before had expired; and what they are now.\<close>

fun asked_when_needed :: "credentials \<Rightarrow> (int \<times> aws_credentials option) list \<Rightarrow> bool" where
  "asked_when_needed c [] = True"
| "asked_when_needed c ((now, answer) # h) =
     (is_expired now c \<and> asked_when_needed (case answer of Some a \<Rightarrow> to_s3_credentials a | None \<Rightarrow> c) h)"

fun latest :: "credentials \<Rightarrow> (int \<times> aws_credentials option) list \<Rightarrow> credentials" where
  "latest c [] = c"
| "latest c ((now, answer) # h) = latest (case answer of Some a \<Rightarrow> to_s3_credentials a | None \<Rightarrow> c) h"

lemma asked_when_needed_snoc:
  "asked_when_needed c (h @ [(now, answer)]) \<longleftrightarrow> asked_when_needed c h \<and> is_expired now (latest c h)"
  by (induction c h rule: asked_when_needed.induct) auto

lemma latest_snoc:
  "latest c (h @ [(now, answer)]) = (case answer of Some a \<Rightarrow> to_s3_credentials a | None \<Rightarrow> latest c h)"
  by (induction c h rule: latest.induct) (auto split: option.splits)

definition busy :: "refresh_pc \<Rightarrow> bool" where
  "busy pc \<longleftrightarrow> (case pc of Holding \<Rightarrow> True | Asking now \<Rightarrow> True | _ \<Rightarrow> False)"

definition refresh_inv :: "credentials \<Rightarrow> refresh_state \<Rightarrow> bool" where
  "refresh_inv c s \<longleftrightarrow>
     (\<forall>t. busy (rf_pc s t) \<longleftrightarrow> rf_lock s = Some t) \<and>
     (\<forall>t now. rf_pc s t = Asking now \<longrightarrow> is_expired now (rf_shared s)) \<and>
     asked_when_needed c (rf_history s) \<and> rf_shared s = latest c (rf_history s)"

lemma busy_simps [simp]:
  "busy Holding" "busy (Asking now)" "\<not> busy Waiting" "\<not> busy (Returned b)"
  by (simp_all add: busy_def)

lemma refresh_step_inv: "refresh_step chain s s' \<Longrightarrow> refresh_inv c s \<Longrightarrow> refresh_inv c s'"
proof (induction rule: refresh_step.induct)
  case (provided s t now a)
  then have "rf_lock s = Some t" by (metis busy_simps(2) refresh_inv_def)
  then have "\<not> busy (rf_pc s u)" if "u \<noteq> t" for u using provided that by (auto simp: refresh_inv_def)
  then have "rf_pc s u \<noteq> Asking n" if "u \<noteq> t" for u n using that busy_simps(2) by metis
  then show ?case
    using provided \<open>rf_lock s = Some t\<close> by (auto simp: refresh_inv_def asked_when_needed_snoc latest_snoc)
next
  case (refused s t now)
  then have "rf_lock s = Some t" by (metis busy_simps(2) refresh_inv_def)
  then show ?case
    using refused by (auto simp: refresh_inv_def asked_when_needed_snoc latest_snoc)
next
  case (clock s now)
  then show ?case by (auto simp: refresh_inv_def)
qed (auto simp: refresh_inv_def, (metis busy_simps option.inject)+)

text \<open>C14: whatever requests run in parallel and however they interleave, at most one of them is past the lock, the
  provider is asked only when the credentials of before had expired (within the skew), and the
  credentials in use are always the last ones it gave.\<close>

theorem refresh_asked_when_needed:
  assumes "(refresh_step chain)\<^sup>*\<^sup>* (refresh_init c now) s"
  shows "asked_when_needed c (rf_history s) \<and> rf_shared s = latest c (rf_history s) \<and>
    (\<forall>t u. busy (rf_pc s t) \<and> busy (rf_pc s u) \<longrightarrow> t = u)"
proof -
  have "refresh_inv c (refresh_init c now)" by (simp add: refresh_inv_def refresh_init_def)
  with assms have "refresh_inv c s"
    by (induction rule: rtranclp_induct) (auto intro: refresh_step_inv)
  then show ?thesis by (auto simp: refresh_inv_def)
qed

text \<open>Two requests find the credentials expired; the first one asks, the second one takes what it got.\<close>

definition asked_once :: "aws_credentials \<Rightarrow> credentials \<Rightarrow> refresh_state" where
  "asked_once a c =
     \<lparr>rf_lock = None, rf_pc = (\<lambda>t. Waiting)(0 := Returned True, 1 := Returned True), rf_shared = to_s3_credentials a,
      rf_now = 0, rf_history = [(0, Some a)]\<rparr>"

definition long_lived :: aws_credentials where
  "long_lived = \<lparr>ac_access_key_id = ''K'', ac_secret_access_key = ''S'', ac_session_token = None, ac_expiry = None\<rparr>"

definition long_expired :: credentials where
  "long_expired = (to_s3_credentials long_lived)\<lparr>cr_expiration := Some 0\<rparr>"

lemma asked_once_reachable:
  "(refresh_step (Some 0))\<^sup>*\<^sup>* (refresh_init long_expired 0) (asked_once long_lived long_expired)"
proof -
  let ?s = "\<lambda>l p c h. \<lparr>rf_lock = l, rf_pc = p, rf_shared = c, rf_now = 0, rf_history = h\<rparr>"
  let ?W = "\<lambda>t :: nat. Waiting" and ?c = long_expired and ?g = "to_s3_credentials long_lived" and ?h = "[(0, Some long_lived)]"
  have exp: "is_expired 0 ?c" "\<not> is_expired 0 ?g"
    by (simp_all add: is_expired_def long_expired_def long_lived_def to_s3_credentials_def EXPIRY_SKEW_def)
  have s1: "refresh_step (Some 0) (?s None ?W ?c []) (?s (Some 0) (?W(0 := Holding)) ?c [])"
    using refresh_step.lock [of "?s None ?W ?c []" 0] by simp
  have s2: "refresh_step (Some 0) (?s (Some 0) (?W(0 := Holding)) ?c []) (?s (Some 0) (?W(0 := Asking 0)) ?c [])"
    using refresh_step.ask [of "?s (Some 0) (?W(0 := Holding)) ?c []" 0] exp by simp
  have s3: "refresh_step (Some 0) (?s (Some 0) (?W(0 := Asking 0)) ?c []) (?s None (?W(0 := Returned True)) ?g ?h)"
    using refresh_step.provided [of "?s (Some 0) (?W(0 := Asking 0)) ?c []" 0] by simp
  have s4: "refresh_step (Some 0) (?s None (?W(0 := Returned True)) ?g ?h) (?s (Some 1) (?W(0 := Returned True, 1 := Holding)) ?g ?h)"
    using refresh_step.lock [of "?s None (?W(0 := Returned True)) ?g ?h" 1] by simp
  have s5: "refresh_step (Some 0) (?s (Some 1) (?W(0 := Returned True, 1 := Holding)) ?g ?h)
      (?s None (?W(0 := Returned True, 1 := Returned True)) ?g ?h)"
    using refresh_step.still_good [of "?s (Some 1) (?W(0 := Returned True, 1 := Holding)) ?g ?h" 1] exp by simp
  show ?thesis
    using rtranclp_trans [OF r_into_rtranclp [of "refresh_step (Some 0)", OF s1]
        rtranclp_trans [OF r_into_rtranclp [of "refresh_step (Some 0)", OF s2]
          rtranclp_trans [OF r_into_rtranclp [of "refresh_step (Some 0)", OF s3]
            rtranclp_trans [OF r_into_rtranclp [of "refresh_step (Some 0)", OF s4] r_into_rtranclp [of "refresh_step (Some 0)", OF s5]]]]]
    by (simp add: refresh_init_def asked_once_def)
qed

theorem refresh_asked_when_needed_witness:
  "asked_when_needed long_expired [(0, Some long_lived)] \<and>
   rf_shared (asked_once long_lived long_expired) = latest long_expired [(0, Some long_lived)]"
  using refresh_asked_when_needed [OF asked_once_reachable] by (simp add: asked_once_def)

end
