(* ===== verification/Spec2Isabelle.thy ===== *)
theory Spec2Isabelle
  imports HashPrograms NbdProgram E01Verify FetchLatch CReaders E01CApi ServerLog S3Creds FileTree
begin

text \<open>
  A verification of the disk image readers and the NBD server of this repository.

  \<^bold>\<open>The program.\<close>  The workspace reads forensic disk images in three formats: split raw images (crate
  \<open>rawdisk\<close>), VMDK images with their chains of parents (\<open>vmdk\<close>) and E01 images (\<open>e01\<close>).  All readers get their
  bytes through the crate \<open>imagesource\<close>: a \<open>BytesSource\<close> (a local file or an object in an S3 bucket) is
  registered in a table and known by its index from then on; a \<open>Cache\<close> over that table answers reads at an
  offset of a source; \<open>CacheReadSeek\<close> is a file-like cursor over one source, through which all headers and
  tables are parsed.  In production the cache is the block cache of \<open>foyercache.rs\<close>.  The crate
  \<open>diskimage-nbd\<close> opens an image of any format and serves it over the NBD protocol on a Unix socket.  Each reader
  also comes as a C library (\<open>capi.rs\<close>) and with a small program (\<open>main.rs\<close>).

  \<^bold>\<open>Shared vocabulary.\<close>
  \<^item> \<open>Prelude\<close>: results with panics (\<open>Panic\<close> is a third outcome beside \<open>Ok\<close> and \<open>Err\<close>), 64-bit arithmetic with
    its wrap-around, bytes, slices that panic out of range, binary search.
  \<^item> \<open>RustStr\<close>: the methods of \<open>str\<close> that the parsers use.
  \<^item> \<open>BTreeMap\<close>: the ordered map of the standard library, its laws as the locale \<open>ordered_map\<close>.

  \<^bold>\<open>imagesource.\<close>
  \<^item> \<open>ImageSource\<close>: \<open>bytessource.rs\<close>, \<open>source_slot.rs\<close>, \<open>cache.rs\<close>, \<open>cachereadseek.rs\<close>; the contract \<open>serves\<close> of a cache that holds a
    byte string, on which all the reader proofs rest.
  \<^item> \<open>Sources\<close>: \<open>filesource.rs\<close>, \<open>s3source.rs\<close>, \<open>exists.rs\<close>, \<open>urlsource.rs\<close>.
  \<^item> \<open>S3Creds\<close>: \<open>s3_creds.rs\<close>, with the refresh of credentials as a step relation.
  \<^item> \<open>BlockCache\<close>, \<open>BlockReads\<close>: \<open>foyercache.rs\<close>, \<open>fetch_limit.rs\<close>, \<open>cachemode.rs\<close>; the code and what it guarantees.
  \<^item> \<open>FetchLatch\<close>: \<open>GroupLatch\<close> and \<open>FetchLimiter\<close> as a step relation over tasks.
  \<^item> \<open>IoLog\<close>: \<open>io_log.rs\<close>.

  \<^bold>\<open>rawdisk.\<close>  \<open>Rawdisk\<close>: \<open>seg_path.rs\<close>, \<open>spans.rs\<close>, \<open>rawdisk_reader.rs\<close>.

  \<^bold>\<open>vmdk.\<close>  One theory per source file: \<open>Spans\<close> (\<open>spans.rs\<close>), \<open>VmdkDescription\<close> (\<open>extent_description.rs\<close>),
  \<open>VmdkHeader\<close> (\<open>header.rs\<close>), \<open>VmdkStorage\<close> (\<open>storage.rs\<close>), \<open>VmdkExtents\<close> (\<open>extents.rs\<close>), \<open>VmdkDescriptor\<close>
  (\<open>descriptor.rs\<close>), \<open>VmdkReader\<close> (\<open>vmdk_reader.rs\<close>).  \<open>CachedOpen\<close> is \<open>open_with_options\<close> of \<open>rawdisk\<close> and \<open>vmdk\<close>.

  \<^bold>\<open>e01.\<close>
  \<^item> \<open>E01SegPath\<close>: \<open>seg_path.rs\<close>.
  \<^item> \<open>E01Sections\<close>: \<open>sec_read.rs\<close>, \<open>segment.rs\<close> and the parsers under \<open>ksy/pre-generated\<close>.
  \<^item> \<open>E01ChunkCache\<close>, \<open>E01Worker\<close>: \<open>readworker.rs\<close>, \<open>workersource.rs\<close>, \<open>cacheworkersource.rs\<close>; the locale \<open>chunk_store\<close> is the contract of the chunk cache.
  \<^item> \<open>E01Open\<close>, \<open>E01Reader\<close>: the two halves of \<open>e01_reader.rs\<close>, opening and reading; the locale \<open>chunk_reader\<close> says what a
    run of tasks keeps, and is interpreted once for images that are whole and once for corrupt ones.
  \<^item> \<open>Hasher\<close>: \<open>hasher.rs\<close>, caller and workers as step relations.
  \<^item> \<open>E01Image\<close>: a writer of the format, as a specification; no code of the repository corresponds to it.

  \<^bold>\<open>Programs and interfaces.\<close>
  \<^item> \<open>Nbd\<close>, \<open>NbdServer\<close>, \<open>NbdE01\<close>, \<open>NbdProgram\<close>: \<open>nbd_protocol.rs\<close>, \<open>server.rs\<close> and \<open>bin/diskimage-nbd.rs\<close>.  The locale
    \<open>nbd_image\<close> is the contract of the trait \<open>NbdImage\<close>, interpreted on the adapters of the three readers.
  \<^item> \<open>FileTree\<close>: what the server does to the file system: \<open>bind_unix\<close> and \<open>open_io_log\<close> of \<open>server.rs\<close> with the calls of
    the standard library they make, and the files of the two logs.
  \<^item> \<open>ServerLog\<close>: \<open>diskimage-nbd/src/io_log.rs\<close> and the calls that connections make on it.
  \<^item> \<open>CApi\<close>, \<open>CReaders\<close>, \<open>E01CApi\<close>: the three \<open>capi.rs\<close>; the locales \<open>c_handles\<close> and \<open>c_client\<close> are the laws of a handle and of
    the functions that open one, interpreted on the three readers.
  \<^item> \<open>HashPrograms\<close>, \<open>E01Verify\<close>: the three \<open>main.rs\<close>.

  \<^bold>\<open>What is shown.\<close>
  \<^item> \<^emph>\<open>Bytes.\<close>  An image that opens is a byte string, and a read at an offset gives exactly the bytes there, cut at the
    end: for raw images the concatenation of the segments, for VMDK the first extent of the chain of parents that
    has data for the sector, for E01 the chunks, whatever the schedule of the tasks and the state of the caches.
    An encoded E01 file opens and reads back, and the interfaces above the readers (cache, NBD sessions, C
    functions, hash programs) hand on exactly these bytes.
  \<^item> \<^emph>\<open>Errors.\<close>  What makes an open, a read, a probe or a request fail, and what a client of the server
    sees of it.  On a corrupt E01 image a cached read panics only where it asks for a byte beyond the data of an
    uncompressed chunk; that this and two other panics do happen are theorems too.
  \<^item> \<^emph>\<open>Discovery.\<close>  The segments of a split image or of an E01 image are the whole run of the names that are
    there, in order; what is reported as missing is missing.
  \<^item> \<^emph>\<open>Files.\<close>  A run of the server changes no file but its two logs, and replaces nothing but a stale socket.
  \<^item> \<^emph>\<open>Termination.\<close>  Loops over data from outside return on every input, or exactly when stated: the span loops, the
    section chain, the parent chain over finitely many URLs, the session over finitely many input bytes.
  \<^item> \<^emph>\<open>Concurrency.\<close>  The latch on fetches, the session slots, the hash workers, the parallel tasks of a read and the
    refresh of credentials, in all interleavings: invariants, no deadlock, right answers.
  \<^item> \<^emph>\<open>Memory.\<close>  Sessions over the C interfaces are free of undefined behaviour and leaks, and each pointer in a handle
    has memory of the length that its drop takes it for.

  \<^bold>\<open>Bounds and termination in the model.\<close>  The loops of \<open>VmdkDescriptor\<close> that read through a buffered reader take fuel, one
  more than the bytes that are left, which is always enough as each round takes a byte; no other
  definition does.  A loop whose end depends on the outside is a
  \<^theory_text>\<open>partial_function\<close> into \<open>option\<close>, with \<open>None\<close> for a run that never returns: \<open>remove_span\<close> and \<open>insert_span\<close> (shown to
  return on well-formed maps), \<open>open_loop\<close> and \<open>read_loop\<close> of \<open>vmdk\<close>, \<open>walk_up\<close> of \<open>rawdisk\<close> (a checker that finds every name makes
  it endless), \<open>hash_loop\<close> and \<open>verify_loop\<close>.  Other loops have a termination proof.  Machine integers are \<open>nat\<close>
  below a stated bound, with the wrap-around written out (\<open>u64_add\<close> and the like) where the code's release build
  would wrap; sizes and offsets of files are below \<open>2^64\<close>.

  \<^bold>\<open>Parameters.\<close>  The crates the code calls: \<open>foyer\<close>, \<open>tokio\<close>, \<open>rayon\<close>, \<open>kaitai\<close>, \<open>flate2\<close>, \<open>simd_adler32\<close>, the hash
  functions, \<open>byteorder\<close>, \<open>url\<close>, \<open>rust-s3\<close>, the AWS crates, and the operating system.  Each is a record of functions
  with a predicate that states its documented behaviour; the witnesses instantiate them by concrete functions.

  \<^bold>\<open>Not modelled.\<close>  The texts of error messages (\<open>Display\<close>; the error values are modelled, the C interfaces take
  the texts as parameters), tracing and progress output, and the parsing of command lines.  White space is that of
  ASCII, where \<open>trim\<close> also takes that of Unicode.  A panic under the lock of the cache of decoded chunks poisons the lock;
  the states after a panic are not followed.  \<open>open_impl\<close> of \<open>e01\<close> registers each source when it reads its segment, in
  parallel; the model registers all of them first, which decides only which of several errors is reported.
  The two logs of the server and the files of the image are taken to be different files.  Signal handling and socket
  options of the server are calls into the system and appear as its answers; the accept loop is followed for one
  connection at a time, with the slots shared by all.  A caller that drops its future before a fetch has answered
  is left out of \<open>FetchLatch\<close>.  Build scripts, benchmarks and tests have no part in what the programs do.
\<close>

end
